(* ===== verification/Enmart_Prelude.thy ===== *)
theory Enmart_Prelude
  imports Main "HOL-Library.Word"
begin

text \<open>
  Shared vocabulary of the development: the machine types of the arm64 iOS build (bytes,
  \<open>uint32_t\<close>, \<open>uint64_t\<close>, \<open>size_t\<close>), \<open>size_t\<close> arithmetic with its wrap-around written
  out, and the generic facts on lists and words that the component theories share.
\<close>

unbundle bit_operations_syntax

section \<open>Machine types\<close>

type_synonym byte = "8 word"
type_synonym bytes = "8 word list"
type_synonym u16 = "16 word"
type_synonym u32 = "32 word"
type_synonym u64 = "64 word"

text \<open>\<open>size_t\<close> is 64 bits wide; a size is a \<open>nat\<close> and the sums the code relies on wrap.\<close>

definition SIZE_LIMIT :: nat where
  "SIZE_LIMIT = 2 ^ 64"

definition size_add :: "nat \<Rightarrow> nat \<Rightarrow> nat" where
  "size_add a b = (a + b) mod SIZE_LIMIT"

named_theorems size_simps \<open>facts that evaluate size_t arithmetic\<close>
named_theorems byte_simps \<open>facts that evaluate byte masks and shifts\<close>

lemma size_add_exact [size_simps]: "a + b < SIZE_LIMIT \<Longrightarrow> size_add a b = a + b"
  by (simp add: size_add_def)

lemma size_add_wraps:
  assumes "a < SIZE_LIMIT" and "b < SIZE_LIMIT"
  shows "size_add a b < a \<longleftrightarrow> SIZE_LIMIT \<le> a + b"
proof (cases "a + b < SIZE_LIMIT")
  case True
  then show ?thesis by (simp add: size_add_def)
next
  case False
  with assms have "size_add a b = a + b - SIZE_LIMIT"
    by (simp add: size_add_def le_mod_geq)
  with False assms show ?thesis by simp
qed

lemma size_add_less [simp]: "size_add a b < SIZE_LIMIT"
  by (simp add: size_add_def SIZE_LIMIT_def)

lemma size_add_0 [simp]: "a < SIZE_LIMIT \<Longrightarrow> size_add a 0 = a"
  by (simp add: size_add_def)

section \<open>Bytes and bits\<close>

lemma word_eq_bitsI:
  fixes a b :: "'a::len word"
  assumes "\<And>n. n < LENGTH('a) \<Longrightarrow> bit a n \<longleftrightarrow> bit b n"
  shows "a = b"
  by (rule bit_word_eqI) (use assms in blast)

lemma unat_take_bit: "unat (take_bit k v) = unat v mod 2 ^ k" for v :: "'a::len word"
  unfolding unsigned_take_bit_eq by (simp add: take_bit_eq_mod)

lemma unat_drop_bit: "unat (drop_bit k v) = unat v div 2 ^ k" for v :: "'a::len word"
  unfolding unat_drop_bit_eq by (simp add: drop_bit_eq_div)

lemma drop_bit_less_word [termination_simp]:
  fixes v :: "'a::len word"
  assumes "v \<noteq> 0" and "0 < n"
  shows "unat (drop_bit n v) < unat v"
proof -
  have "unat v \<noteq> 0" using assms(1) by (simp add: unat_eq_0)
  moreover have "unat (drop_bit n v) = unat v div 2 ^ n"
    by (rule unat_drop_bit)
  moreover have "1 < (2::nat) ^ n" by (rule one_less_power) (use assms(2) in simp_all)
  ultimately show ?thesis by (simp add: div_less_dividend)
qed

lemma unat_push_bit: "unat (push_bit k v) = unat v * 2 ^ k mod 2 ^ LENGTH('a)"
  for v :: "'a::len word"
  unfolding unsigned_push_bit_eq by (simp add: take_bit_eq_mod push_bit_eq_mult)

lemma unat_ucast: "unat (ucast v :: 'b::len word) = unat v mod 2 ^ LENGTH('b)"
  for v :: "'a::len word"
  unfolding unsigned_ucast_eq by (simp add: take_bit_eq_mod)

lemma word_or_push_bit:
  fixes x y :: "'a::len word"
  assumes "unat x < 2 ^ k"
  shows "x OR push_bit k y = x + push_bit k y"
proof (rule disjunctive_add [symmetric])
  fix n
  have "unat (take_bit k x) = unat x" using assms by (simp add: unat_take_bit)
  then have "x = take_bit k x" by (simp add: word_unat_eq_iff)
  then have "bit x n \<Longrightarrow> n < k" by (metis bit_take_bit_iff)
  then show "\<not> bit x n \<or> \<not> bit (push_bit k y) n"
    by (auto simp: bit_push_bit_iff)
qed

lemma word_and_mask_numeral:
  "v AND 0x7F = take_bit 7 v" "v AND 1 = take_bit 1 v" "v AND 7 = take_bit 3 v"
  "v AND 0xFF = take_bit 8 v"
  for v :: "'a::len word"
  by (simp_all add: take_bit_eq_mask mask_eq_exp_minus_1)

lemma word_and_80: "v AND 0x80 \<noteq> 0 \<longleftrightarrow> 128 \<le> unat v" for v :: byte
proof -
  have "v AND 0x80 \<noteq> 0 \<longleftrightarrow> bit v 7"
    using and_exp_eq_0_iff_not_bit [of v 7] by simp
  also have "\<dots> \<longleftrightarrow> bit (unat v) 7"
    by (simp only: bit_unsigned_iff) simp
  also have "\<dots> \<longleftrightarrow> odd (unat v div 128)"
    by (simp add: bit_iff_odd)
  also have "\<dots> \<longleftrightarrow> 128 \<le> unat v"
  proof (cases "128 \<le> unat v")
    case True
    moreover have "unat v < 256" using unsigned_less [of v, where 'a = nat] by simp
    ultimately have "unat v div 128 = 1" by (intro div_nat_eqI) simp_all
    with True show ?thesis by simp
  qed simp
  finally show ?thesis .
qed

lemma word_and_shifted_mask:
  "x AND push_bit k (mask n) = push_bit k (take_bit n (drop_bit k x))" for x :: "'a::len word"
  by (rule bit_word_eqI) (auto simp: bit_simps)

lemma byte_and_70: "unat b < 128 \<Longrightarrow> b AND 0x70 = 0 \<longleftrightarrow> unat b < 16" for b :: byte
proof -
  assume b: "unat b < 128"
  have "b AND 0x70 = push_bit 4 (take_bit 3 (drop_bit 4 b))"
    using word_and_shifted_mask [of b 4 3] by (simp add: mask_eq_exp_minus_1)
  then have "b AND 0x70 = 0 \<longleftrightarrow> unat b div 16 mod 8 * 16 mod 256 = 0"
    by (simp add: word_unat_eq_iff unat_push_bit unat_take_bit unat_drop_bit)
  also have "unat b div 16 mod 8 = unat b div 16" using b by simp
  also have "unat b div 16 * 16 mod 256 = unat b div 16 * 16" using b by simp
  finally show ?thesis by (auto simp: div_eq_0_iff)
qed

lemma sint_via_uint:
  "sint v = uint v - (if bit v 63 then 2 ^ 64 else 0)" for v :: u64
proof -
  have "sint v = take_bit (Suc 63) (uint v) - 2 ^ Suc 63 * of_bool (bit (uint v) 63)"
    by (simp only: sint_uint) (simp add: signed_take_bit_eq_take_bit_minus)
  moreover have "take_bit (Suc 63) (uint v) = uint v"
    by (rule take_bit_int_eq_self) (use uint_bounded [of v] in simp_all)
  moreover have "bit (uint v) 63 \<longleftrightarrow> bit v 63" by (simp only: bit_unsigned_iff) simp
  ultimately show ?thesis by simp
qed

lemma sint_negative_iff: "sint v < 0 \<longleftrightarrow> bit v 63" for v :: u64
  using bit_last_iff [of v] by simp

lemmas bit_shift_simps = bit_not_iff bit_push_bit_iff bit_drop_bit_eq o_def possible_bit_word

section \<open>Little-endian words\<close>

fun le_bytes :: "nat \<Rightarrow> 'a::len word \<Rightarrow> bytes" where
  "le_bytes 0 v = []"
| "le_bytes (Suc n) v = ucast v # le_bytes n (drop_bit 8 v)"

fun le_word :: "bytes \<Rightarrow> 'a::len word" where
  "le_word [] = 0"
| "le_word (b # bs) = ucast b OR push_bit 8 (le_word bs)"

lemma length_le_bytes [simp]: "length (le_bytes n v) = n"
  by (induction n arbitrary: v) simp_all

lemma le_word_step:
  "ucast (ucast v :: byte) OR push_bit 8 (take_bit n (drop_bit 8 v)) = take_bit (n + 8) v"
  for v :: "'a::len word"
proof (rule bit_word_eqI)
  fix k assume "k < LENGTH('a)"
  then show "bit (ucast (ucast v :: byte) OR push_bit 8 (take_bit n (drop_bit 8 v))) k \<longleftrightarrow> bit (take_bit (n + 8) v) k"
    by (cases "k < 8") (auto simp: bit_simps less_diff_conv2 not_less)
qed

lemma le_word_le_bytes: "le_word (le_bytes n v) = take_bit (8 * n) v"
  by (induction n arbitrary: v) (simp_all only: le_bytes.simps le_word.simps le_word_step mult_Suc_right take_bit_0 mult_0_right add.commute)

lemma le_word_le_bytes_full: "LENGTH('a) \<le> 8 * n \<Longrightarrow> le_word (le_bytes n v) = v" for v :: "'a::len word"
  unfolding le_word_le_bytes by (rule bit_word_eqI) (auto simp: bit_simps)

lemma ucast_and_FF: "(ucast (v AND 0xFF) :: byte) = ucast v" for v :: "'a::len word"
  unfolding word_and_mask_numeral by (rule bit_word_eqI) (auto simp: bit_simps)

lemma le_word_4: "length b = 4 \<Longrightarrow> le_word b = ucast (b ! 0) OR push_bit 8 (ucast (b ! 1)) OR
                     push_bit 16 (ucast (b ! 2)) OR push_bit 24 (ucast (b ! 3))"
  by (auto simp: numeral_eq_Suc length_Suc_conv push_bit_or)
lemma le_word_8: "length b = 8 \<Longrightarrow> le_word b = ucast (b ! 0) OR push_bit 8 (ucast (b ! 1)) OR
                     push_bit 16 (ucast (b ! 2)) OR push_bit 24 (ucast (b ! 3)) OR push_bit 32 (ucast (b ! 4)) OR push_bit 40 (ucast (b ! 5)) OR
                     push_bit 48 (ucast (b ! 6)) OR push_bit 56 (ucast (b ! 7))"
  by (auto simp: numeral_eq_Suc length_Suc_conv push_bit_or)

section \<open>Base 128 digits\<close>

lemma base128_split: "r + n * 2 ^ k = r + n mod 128 * 2 ^ k + n div 128 * 2 ^ (k + 7)" for r n k :: nat
  using add_mult_distrib [of "n div 128 * 128" "n mod 128" "2 ^ k"] by (simp add: power_add)

lemma base128_low: "r < 2 ^ k \<Longrightarrow> r + n mod 128 * 2 ^ k < 2 ^ (k + 7)" for r n k :: nat
proof -
  assume "r < 2 ^ k"
  moreover have "(n mod 128 + 1) * 2 ^ k \<le> 128 * 2 ^ k" by (intro mult_le_mono1) simp
  moreover have "(n mod 128 + 1) * 2 ^ k = n mod 128 * 2 ^ k + 2 ^ k" by simp
  moreover have "(2::nat) ^ (k + 7) = 128 * 2 ^ k" by (simp add: power_add)
  ultimately show ?thesis by linarith
qed

end
