(* ===== verification/Pb_Stream.thy ===== *)
theory Pb_Stream
  imports Enmart_Prelude
begin

text \<open>
  The byte streams of nanopb (\<open>pb_istream_t\<close> and \<open>pb_ostream_t\<close>): \<open>buf_read\<close>, \<open>pb_read\<close>,
  \<open>pb_readbyte\<close>, \<open>pb_istream_from_buffer\<close> of \<open>pb_decode.c\<close> and \<open>buf_write\<close>, \<open>pb_write\<close>,
  \<open>pb_ostream_from_buffer\<close> of \<open>pb_encode.c\<close>.

  A stream carries a callback and its state. The callback \<open>buf_read\<close> (\<open>buf_write\<close>) has a
  pointer into a byte array as its state: the model keeps the bytes from that pointer on
  (the bytes stored so far). Any other callback is code outside the library: it is a function
  of its own state. The contracts \<open>bounded_reader\<close> and \<open>emitter\<close> say what every operation
  on a stream promises its callers.
\<close>

section \<open>Input streams\<close>

text \<open>
  A reading callback either stores \<open>count\<close> bytes (the function gives the byte at each index
  of the destination) or fails; failing at the end of the data it clears \<open>bytes_left\<close>.
\<close>

datatype 's read_result = Read_ok "nat \<Rightarrow> byte" 's | Read_fail bool 's

datatype 's isource =
    Buf_read bytes
  | User_read "'s \<Rightarrow> nat \<Rightarrow> 's read_result" 's

record 's pb_istream =
  isource :: "'s isource"
  bytes_left :: nat
  ierrmsg :: "string option"

fun is_buf_read :: "'s isource \<Rightarrow> bool" where
  "is_buf_read (Buf_read _) = True"
| "is_buf_read (User_read _ _) = False"

text \<open>\<open>PB_RETURN_ERROR\<close> keeps the first message that was set.\<close>

definition PB_SET_ERROR :: "'s pb_istream \<Rightarrow> string \<Rightarrow> 's pb_istream" where
  "PB_SET_ERROR s msg =
     s\<lparr>ierrmsg := (case ierrmsg s of None \<Rightarrow> Some msg | Some m \<Rightarrow> Some m)\<rparr>"

definition PB_RETURN_ERROR :: "'s pb_istream \<Rightarrow> string \<Rightarrow> 'a option \<times> 's pb_istream" where
  "PB_RETURN_ERROR s msg = (None, PB_SET_ERROR s msg)"

definition buf_read :: "bytes \<Rightarrow> nat \<Rightarrow> bytes \<times> bytes" where
  "buf_read source count = (take count source, drop count source)"

text \<open>\<open>stream->callback(stream, buf, count)\<close>.\<close>

fun istream_callback :: "'s pb_istream \<Rightarrow> nat \<Rightarrow> bytes option \<times> 's pb_istream" where
  "istream_callback s count =
     (case isource s of
        Buf_read source \<Rightarrow>
          (case buf_read source count of (bs, rest) \<Rightarrow> (Some bs, s\<lparr>isource := Buf_read rest\<rparr>))
      | User_read f st \<Rightarrow>
          (case f st count of
             Read_ok b st' \<Rightarrow> (Some (map b [0..<count]), s\<lparr>isource := User_read f st'\<rparr>)
           | Read_fail eof st' \<Rightarrow>
               (None, s\<lparr>isource := User_read f st',
                        bytes_left := (if eof then 0 else bytes_left s)\<rparr>)))"

text \<open>\<open>pb_read\<close> with a destination buffer, the part after the skipping branch.\<close>

definition pb_read_into :: "'s pb_istream \<Rightarrow> nat \<Rightarrow> bytes option \<times> 's pb_istream" where
  "pb_read_into s count =
     (if count = 0 then (Some [], s)
      else if bytes_left s < count then PB_RETURN_ERROR s ''end-of-stream''
      else case istream_callback s count of
             (None, s') \<Rightarrow> PB_RETURN_ERROR s' ''io error''
           | (Some bs, s') \<Rightarrow> (Some bs, s'\<lparr>bytes_left := bytes_left s' - count\<rparr>))"

text \<open>The loop that skips input of a callback stream through a 16 byte scratch buffer.\<close>

fun pb_read_skip :: "'s pb_istream \<Rightarrow> nat \<Rightarrow> bytes option \<times> 's pb_istream" where
  "pb_read_skip s count =
     (if 16 < count then
        case pb_read_into s 16 of
          (None, s') \<Rightarrow> (None, s')
        | (Some _, s') \<Rightarrow> pb_read_skip s' (count - 16)
      else case pb_read_into s count of
             (None, s') \<Rightarrow> (None, s')
           | (Some _, s') \<Rightarrow> (Some [], s'))"

declare pb_read_skip.simps [simp del]

text \<open>\<open>pb_read\<close>; \<open>keep\<close> is false when the destination is \<open>NULL\<close>.\<close>

definition pb_read :: "'s pb_istream \<Rightarrow> bool \<Rightarrow> nat \<Rightarrow> bytes option \<times> 's pb_istream" where
  "pb_read s keep count =
     (if count = 0 then (Some [], s)
      else if \<not> keep \<and> \<not> is_buf_read (isource s) then pb_read_skip s count
      else case pb_read_into s count of
             (None, s') \<Rightarrow> (None, s')
           | (Some bs, s') \<Rightarrow> (Some (if keep then bs else []), s'))"

definition pb_readbyte :: "'s pb_istream \<Rightarrow> byte option \<times> 's pb_istream" where
  "pb_readbyte s =
     (if bytes_left s = 0 then PB_RETURN_ERROR s ''end-of-stream''
      else case istream_callback s 1 of
             (None, s') \<Rightarrow> PB_RETURN_ERROR s' ''io error''
           | (Some bs, s') \<Rightarrow> (Some (bs ! 0), s'\<lparr>bytes_left := bytes_left s' - 1\<rparr>))"

definition pb_istream_from_buffer :: "bytes \<Rightarrow> nat \<Rightarrow> 's pb_istream" where
  "pb_istream_from_buffer buf bufsize =
     \<lparr>isource = Buf_read buf, bytes_left = bufsize, ierrmsg = None\<rparr>"

text \<open>The idiom \<open>if (!f(stream, &x)) return false; \<dots>\<close>.\<close>

definition istream_bind ::
  "('s pb_istream \<Rightarrow> 'a option \<times> 's pb_istream) \<Rightarrow>
   ('a \<Rightarrow> 's pb_istream \<Rightarrow> 'b option \<times> 's pb_istream) \<Rightarrow>
   's pb_istream \<Rightarrow> 'b option \<times> 's pb_istream" where
  "istream_bind rd f s =
     (case rd s of (None, s') \<Rightarrow> (None, s') | (Some v, s') \<Rightarrow> f v s')"

section \<open>Output streams\<close>

datatype 's osink =
    Sizing
  | Buf_write bytes
  | User_write "'s \<Rightarrow> bytes \<Rightarrow> bool \<times> 's" 's

fun is_sizing :: "'s osink \<Rightarrow> bool" where
  "is_sizing Sizing = True"
| "is_sizing (Buf_write _) = False"
| "is_sizing (User_write _ _) = False"

record 's pb_ostream =
  sink :: "'s osink"
  max_size :: nat
  bytes_written :: nat
  oerrmsg :: "string option"

definition PB_SET_OERROR :: "'s pb_ostream \<Rightarrow> string \<Rightarrow> 's pb_ostream" where
  "PB_SET_OERROR s msg =
     s\<lparr>oerrmsg := (case oerrmsg s of None \<Rightarrow> Some msg | Some m \<Rightarrow> Some m)\<rparr>"

definition buf_write :: "bytes \<Rightarrow> bytes \<Rightarrow> nat \<Rightarrow> bytes" where
  "buf_write stored buf count = stored @ take count buf"

definition pb_ostream_from_buffer :: "nat \<Rightarrow> 's pb_ostream" where
  "pb_ostream_from_buffer bufsize =
     \<lparr>sink = Buf_write [], max_size = bufsize, bytes_written = 0, oerrmsg = None\<rparr>"

definition PB_OSTREAM_SIZING :: "'s pb_ostream" where
  "PB_OSTREAM_SIZING = \<lparr>sink = Sizing, max_size = 0, bytes_written = 0, oerrmsg = None\<rparr>"

definition pb_write :: "'s pb_ostream \<Rightarrow> bytes \<Rightarrow> nat \<Rightarrow> bool \<times> 's pb_ostream" where
  "pb_write s buf count =
     (let done = (\<lambda>s'. (True, s'\<lparr>bytes_written := size_add (bytes_written s') count\<rparr>)) in
      if 0 < count \<and> \<not> is_sizing (sink s) then
        if size_add (bytes_written s) count < bytes_written s \<or>
           max_size s < size_add (bytes_written s) count
        then (False, PB_SET_OERROR s ''stream full'')
        else case sink s of
               Sizing \<Rightarrow> done s
             | Buf_write stored \<Rightarrow> done (s\<lparr>sink := Buf_write (buf_write stored buf count)\<rparr>)
             | User_write f st \<Rightarrow>
                 (case f st (take count buf) of
                    (True, st') \<Rightarrow> done (s\<lparr>sink := User_write f st'\<rparr>)
                  | (False, st') \<Rightarrow>
                      (False, PB_SET_OERROR (s\<lparr>sink := User_write f st'\<rparr>) ''io error''))
      else done s)"

text \<open>The idiom \<open>if (!f(stream)) return false; \<dots>\<close> on an output stream.\<close>

definition ostream_seq ::
  "('s pb_ostream \<Rightarrow> bool \<times> 's pb_ostream) \<Rightarrow> ('s pb_ostream \<Rightarrow> bool \<times> 's pb_ostream) \<Rightarrow>
   's pb_ostream \<Rightarrow> bool \<times> 's pb_ostream" where
  "ostream_seq f g s = (case f s of (False, s') \<Rightarrow> (False, s') | (True, s') \<Rightarrow> g s')"

section \<open>What a reader promises\<close>

text \<open>
  A stream over a buffer that may still deliver \<open>xs\<close>; \<open>ys\<close> are the bytes of the array after
  the stream's limit (the rest of the enclosing message when the stream is a substream).
\<close>

definition buf_istream :: "bytes \<Rightarrow> bytes \<Rightarrow> string option \<Rightarrow> 's pb_istream" where
  "buf_istream xs ys e = \<lparr>isource = Buf_read (xs @ ys), bytes_left = length xs, ierrmsg = e\<rparr>"

definition first_error :: "string option \<Rightarrow> string \<Rightarrow> string option" where
  "first_error e msg = (case e of None \<Rightarrow> Some msg | Some m \<Rightarrow> Some m)"

lemma buf_istream_sel [simp]:
  "isource (buf_istream xs ys e) = Buf_read (xs @ ys)"
  "bytes_left (buf_istream xs ys e) = length xs"
  "ierrmsg (buf_istream xs ys e) = e"
  by (simp_all add: buf_istream_def)

lemma pb_istream_from_buffer_eq: "pb_istream_from_buffer xs (length xs) = buf_istream xs [] None"
  by (simp add: pb_istream_from_buffer_def buf_istream_def)

lemma PB_RETURN_ERROR_buf [simp]:
  "PB_RETURN_ERROR (buf_istream xs ys e) msg = (None, buf_istream xs ys (first_error e msg))"
  by (simp add: PB_RETURN_ERROR_def PB_SET_ERROR_def buf_istream_def first_error_def)

lemma pb_readbyte_buf [simp]:
  "pb_readbyte (buf_istream [] ys e) = (None, buf_istream [] ys (first_error e ''end-of-stream''))"
  "pb_readbyte (buf_istream (x # xs) ys e) = (Some x, buf_istream xs ys e)"
  by (simp_all add: pb_readbyte_def buf_read_def)

lemma pb_read_into_buf:
  "pb_read_into (buf_istream xs ys e) n =
     (if n \<le> length xs then (Some (take n xs), buf_istream (drop n xs) ys e)
      else (None, buf_istream xs ys (first_error e ''end-of-stream'')))"
  by (simp add: pb_read_into_def buf_read_def)

lemma pb_read_buf:
  "pb_read (buf_istream xs ys e) keep n =
     (if n \<le> length xs then (Some (if keep then take n xs else []), buf_istream (drop n xs) ys e)
      else (None, buf_istream xs ys (first_error e ''end-of-stream'')))"
  by (simp add: pb_read_def pb_read_into_buf)

text \<open>
  The contract: on a buffer, the operation takes some prefix of what the stream may still
  deliver, and its result, its error message and the amount taken do not depend on the bytes
  behind the limit. An operation that reads past \<open>bytes_left\<close> would break it.
\<close>

locale bounded_reader =
  fixes rd :: "'s pb_istream \<Rightarrow> 'a option \<times> 's pb_istream"
  assumes bounded:
    "\<exists>k e' r. \<forall>ys. rd (buf_istream xs ys e) = (r, buf_istream (drop k xs) ys e')"
begin

lemma no_overread: "fst (rd (buf_istream xs ys e)) = fst (rd (buf_istream xs zs e))"
  using bounded [of xs e] by (metis fst_conv)

lemma obtain_suffix:
  obtains k e' where "snd (rd (buf_istream xs ys e)) = buf_istream (drop k xs) ys e'"
  using bounded [of xs e] by (metis snd_conv)

lemma bytes_left_mono: "bytes_left (snd (rd (buf_istream xs ys e))) \<le> length xs"
  by (rule obtain_suffix [of xs ys e]) simp

lemma cannot_invent_input:
  "\<exists>zs. isource (snd (rd (buf_istream xs ys e))) = Buf_read (zs @ ys) \<and>
        bytes_left (snd (rd (buf_istream xs ys e))) = length zs"
  by (rule obtain_suffix [of xs ys e]) auto

end

text \<open>
  The same at one input, with the rules that take an operation apart step by step.
\<close>

definition bounded_at :: "(bytes \<Rightarrow> 'a option \<times> 's pb_istream) \<Rightarrow> bytes \<Rightarrow> bool" where
  "bounded_at f xs \<longleftrightarrow> (\<exists>k e' r. \<forall>ys. f ys = (r, buf_istream (drop k xs) ys e'))"

named_theorems bounded_intros \<open>rules for bounded_at\<close>

lemma bounded_readerI:
  assumes "\<And>xs e. bounded_at (\<lambda>ys. rd (buf_istream xs ys e)) xs"
  shows "bounded_reader rd"
  using assms unfolding bounded_at_def by unfold_locales

lemma bounded_readerD: "bounded_reader rd \<Longrightarrow> bounded_at (\<lambda>ys. rd (buf_istream xs ys e)) xs"
  unfolding bounded_at_def bounded_reader_def by blast

lemma bounded_at_if [bounded_intros]:
  "(c \<Longrightarrow> bounded_at f xs) \<Longrightarrow> (\<not> c \<Longrightarrow> bounded_at g xs) \<Longrightarrow>
   bounded_at (\<lambda>ys. if c then f ys else g ys) xs"
  by (cases c) simp_all

lemma bounded_at_Cons: "bounded_at f xs \<Longrightarrow> bounded_at f (x # xs)"
  unfolding bounded_at_def by (metis drop_Suc_Cons)

lemma bounded_at_stop [bounded_intros]:
  "bounded_at (\<lambda>ys. (v, buf_istream xs ys e)) xs"
  "bounded_at (\<lambda>ys. (v, buf_istream xs ys e)) (x # xs)"
  unfolding bounded_at_def by (metis drop0) (metis drop0 drop_Suc_Cons)

lemma bounded_reader_return [intro!]: "bounded_reader (\<lambda>s. (r, s))"
  by unfold_locales (metis drop0)

lemma bounded_reader_error [intro!]: "bounded_reader (\<lambda>s. PB_RETURN_ERROR s msg)"
proof
  fix xs e
  show "\<exists>k e' r. \<forall>ys. PB_RETURN_ERROR (buf_istream xs ys e) msg
          = (r, buf_istream (drop k xs) ys e')"
    by (intro exI [of _ 0]) auto
qed

lemma bounded_reader_if [intro]:
  "(c \<Longrightarrow> bounded_reader f) \<Longrightarrow> (\<not> c \<Longrightarrow> bounded_reader g) \<Longrightarrow>
   bounded_reader (\<lambda>s. if c then f s else g s)"
  by (cases c) simp_all

lemma bounded_reader_bind [intro]:
  assumes "bounded_reader rd" and "\<And>v. bounded_reader (f v)"
  shows "bounded_reader (istream_bind rd f)"
proof
  fix xs e
  obtain k e1 r where 1: "\<And>ys. rd (buf_istream xs ys e) = (r, buf_istream (drop k xs) ys e1)"
    using bounded_reader.bounded [OF assms(1), of xs e] by blast
  show "\<exists>k e' r. \<forall>ys. istream_bind rd f (buf_istream xs ys e) = (r, buf_istream (drop k xs) ys e')"
  proof (cases r)
    case None
    with 1 show ?thesis by (auto simp: istream_bind_def)
  next
    case (Some v)
    obtain k2 e2 r2 where
      "\<And>ys. f v (buf_istream (drop k xs) ys e1) = (r2, buf_istream (drop k2 (drop k xs)) ys e2)"
      using bounded_reader.bounded [OF assms(2) [of v], of "drop k xs" e1] by blast
    with 1 Some have
      "\<forall>ys. istream_bind rd f (buf_istream xs ys e) = (r2, buf_istream (drop (k2 + k) xs) ys e2)"
      by (simp add: istream_bind_def)
    then show ?thesis by blast
  qed
qed

interpretation readbyte: bounded_reader pb_readbyte
proof
  fix xs e
  show "\<exists>k e' r. \<forall>ys. pb_readbyte (buf_istream xs ys e) = (r, buf_istream (drop k xs) ys e')"
  proof (cases xs)
    case Nil
    then show ?thesis by (auto intro!: exI [of _ 0])
  next
    case (Cons x xs')
    then show ?thesis by (auto intro!: exI [of _ 1])
  qed
qed

interpretation read: bounded_reader "\<lambda>s. pb_read s keep n" for keep n
proof
  fix xs e
  show "\<exists>k e' r. \<forall>ys. pb_read (buf_istream xs ys e) keep n = (r, buf_istream (drop k xs) ys e')"
  proof (cases "n \<le> length xs")
    case True
    then show ?thesis by (auto simp: pb_read_buf)
  next
    case False
    then show ?thesis by (auto simp: pb_read_buf intro!: exI [of _ 0])
  qed
qed

section \<open>What an encoder promises\<close>

text \<open>
  A buffer stream whose current (sub)stream has stored \<open>cur\<close> after \<open>pre\<close>, and a sizing
  stream that has counted \<open>n\<close> bytes.
\<close>

definition buf_ostream :: "bytes \<Rightarrow> bytes \<Rightarrow> nat \<Rightarrow> string option \<Rightarrow> 's pb_ostream" where
  "buf_ostream pre cur m e =
     \<lparr>sink = Buf_write (pre @ cur), max_size = m, bytes_written = length cur, oerrmsg = e\<rparr>"

definition size_ostream :: "nat \<Rightarrow> nat \<Rightarrow> string option \<Rightarrow> 's pb_ostream" where
  "size_ostream n m e = \<lparr>sink = Sizing, max_size = m, bytes_written = n, oerrmsg = e\<rparr>"

lemma ostream_sel [simp]:
  "bytes_written (buf_ostream pre cur m e) = length cur"
  "max_size (buf_ostream pre cur m e) = m"
  "sink (buf_ostream pre cur m e) = Buf_write (pre @ cur)"
  "bytes_written (size_ostream n m e) = n"
  "sink (size_ostream n m e) = Sizing"
  by (simp_all add: buf_ostream_def size_ostream_def)

text \<open>
  The contract of an operation that emits \<open>out\<close>: a sizing stream counts its length, a buffer
  with room for it receives exactly these bytes, and a buffer without room is refused after a
  proper prefix, never written past its limit.
\<close>

locale emitter =
  fixes wr :: "'s pb_ostream \<Rightarrow> bool \<times> 's pb_ostream" and out :: bytes
  assumes sizes: "wr (size_ostream n m e) = (True, size_ostream (size_add n (length out)) m e)"
    and emits: "length cur + length out \<le> m \<Longrightarrow> m < SIZE_LIMIT \<Longrightarrow>
        wr (buf_ostream pre cur m e) = (True, buf_ostream pre (cur @ out) m e)"
    and refuses: "length cur \<le> m \<Longrightarrow> m < length cur + length out \<Longrightarrow> m < SIZE_LIMIT \<Longrightarrow>
        \<exists>k e'. length cur + k \<le> m \<and> k < length out \<and>
          wr (buf_ostream pre cur m e) = (False, buf_ostream pre (cur @ take k out) m e')"
begin

lemma size_pass_agrees:
  assumes "length cur + length out \<le> m" and "m < SIZE_LIMIT"
  shows "bytes_written (snd (wr (size_ostream 0 0 None))) = length out"
    and "bytes_written (snd (wr (buf_ostream pre cur m e))) = length cur + length out"
  using assms by (simp_all add: sizes emits size_add_exact)

lemma never_overflows:
  assumes "length cur \<le> m" and "m < SIZE_LIMIT"
  shows "\<exists>cur' e'. snd (wr (buf_ostream pre cur m e)) = buf_ostream pre (cur @ cur') m e' \<and>
           length cur + length cur' \<le> m"
proof (cases "length cur + length out \<le> m")
  case True
  with assms emits [of cur m pre e] show ?thesis by (metis snd_conv)
next
  case False
  with assms refuses [of cur m pre e] obtain k e' where
    "length cur + k \<le> m" "k < length out"
    "wr (buf_ostream pre cur m e) = (False, buf_ostream pre (cur @ take k out) m e')" by auto
  then show ?thesis by (intro exI [of _ "take k out"]) auto
qed

lemma succeeds_iff_fits:
  assumes "length cur \<le> m" and "m < SIZE_LIMIT"
  shows "fst (wr (buf_ostream pre cur m e)) \<longleftrightarrow> length cur + length out \<le> m"
proof (cases "length cur + length out \<le> m")
  case True
  with assms emits [of cur m pre e] show ?thesis by simp
next
  case False
  with assms refuses [of cur m pre e] show ?thesis by auto
qed

end

lemma emitter_write:
  assumes "length bs < SIZE_LIMIT"
  shows "emitter (\<lambda>s. pb_write s bs (length bs)) bs"
proof
  fix n m e
  show "pb_write (size_ostream n m e) bs (length bs) = (True, size_ostream (size_add n (length bs)) m e)"
    by (simp add: pb_write_def size_ostream_def)
next
  fix cur pre :: bytes and m e
  assume "length cur + length bs \<le> m" "m < SIZE_LIMIT"
  then show "pb_write (buf_ostream pre cur m e) bs (length bs) = (True, buf_ostream pre (cur @ bs) m e)"
    by (auto simp: pb_write_def buf_ostream_def buf_write_def size_add_exact)
next
  fix cur pre :: bytes and m e
  assume a: "length cur \<le> m" "m < length cur + length bs" "m < SIZE_LIMIT"
  then have "0 < length bs" by auto
  moreover from a assms have "size_add (length cur) (length bs) < length cur \<or> m < size_add (length cur) (length bs)"
    using size_add_wraps [of "length cur" "length bs"] size_add_exact [of "length cur" "length bs"]
    by (metis leI le_less_trans)
  ultimately have "pb_write (buf_ostream pre cur m e) bs (length bs) =
      (False, buf_ostream pre (cur @ take 0 bs) m (first_error e ''stream full''))"
    by (simp add: pb_write_def buf_ostream_def PB_SET_OERROR_def first_error_def)
  with a \<open>0 < length bs\<close> show "\<exists>k e'. length cur + k \<le> m \<and> k < length bs \<and>
      pb_write (buf_ostream pre cur m e) bs (length bs) = (False, buf_ostream pre (cur @ take k bs) m e')"
    by (intro exI [of _ 0]) auto
qed

lemma emitter_seq:
  assumes "emitter f a" and "emitter g b"
  shows "emitter (ostream_seq f g) (a @ b)"
proof
  fix n m e
  show "ostream_seq f g (size_ostream n m e) = (True, size_ostream (size_add n (length (a @ b))) m e)"
    by (simp add: ostream_seq_def emitter.sizes [OF assms(1)] emitter.sizes [OF assms(2)] size_add_def mod_simps add.assoc)
next
  fix cur pre :: bytes and m e
  assume "length cur + length (a @ b) \<le> m" "m < SIZE_LIMIT"
  then show "ostream_seq f g (buf_ostream pre cur m e) = (True, buf_ostream pre (cur @ a @ b) m e)"
    by (simp add: ostream_seq_def emitter.emits [OF assms(1)] emitter.emits [OF assms(2)])
next
  fix cur pre :: bytes and m e
  assume a: "length cur \<le> m" "m < length cur + length (a @ b)" "m < SIZE_LIMIT"
  show "\<exists>k e'. length cur + k \<le> m \<and> k < length (a @ b) \<and>
      ostream_seq f g (buf_ostream pre cur m e) = (False, buf_ostream pre (cur @ take k (a @ b)) m e')"
  proof (cases "length cur + length a \<le> m")
    case True
    obtain k e' where "length (cur @ a) + k \<le> m" "k < length b"
      "g (buf_ostream pre (cur @ a) m e) = (False, buf_ostream pre ((cur @ a) @ take k b) m e')"
      using emitter.refuses [OF assms(2), of "cur @ a" m pre e] a True by auto
    with True a(3) show ?thesis
      by (intro exI [of _ "length a + k"] exI [of _ e']) (simp add: ostream_seq_def emitter.emits [OF assms(1)])
  next
    case False
    obtain k e' where "length cur + k \<le> m" "k < length a"
      "f (buf_ostream pre cur m e) = (False, buf_ostream pre (cur @ take k a) m e')"
      using emitter.refuses [OF assms(1), of cur m pre e] a False by auto
    then show ?thesis
      by (intro exI [of _ k] exI [of _ e']) (simp add: ostream_seq_def)
  qed
qed
lemma pb_ostream_from_buffer_eq: "pb_ostream_from_buffer m = buf_ostream [] [] m None"
  by (simp add: pb_ostream_from_buffer_def buf_ostream_def)

lemma emitter_into_buffer:
  assumes "emitter wr out" and "length out \<le> m" and "m < SIZE_LIMIT"
  shows "wr (pb_ostream_from_buffer m) = (True, buf_ostream [] out m None)"
  using emitter.emits [OF assms(1), of "[]" m "[]" None] assms(2,3)
  by (simp add: pb_ostream_from_buffer_eq)

lemma emitter_sizing:
  "emitter wr out \<Longrightarrow> wr PB_OSTREAM_SIZING = (True, size_ostream (length out mod SIZE_LIMIT) 0 None)"
  using emitter.sizes [of wr out 0 0 None]
  by (simp add: PB_OSTREAM_SIZING_def size_ostream_def size_add_def)

lemma emitter_buffer_fits:
  "emitter wr out \<Longrightarrow> m < SIZE_LIMIT \<Longrightarrow>
   fst (wr (pb_ostream_from_buffer m)) \<longleftrightarrow> length out \<le> m"
  using emitter.succeeds_iff_fits [of wr out "[]" m "[]" None] by (simp add: pb_ostream_from_buffer_eq)

lemma emitter_buffer_bound:
  "emitter wr out \<Longrightarrow> m < SIZE_LIMIT \<Longrightarrow> bytes_written (snd (wr (pb_ostream_from_buffer m))) \<le> m"
  using emitter.never_overflows [of wr out "[]" m "[]" None] by (auto simp: pb_ostream_from_buffer_eq)

end
