(* ===== verification/Pb_Varint.thy ===== *)
theory Pb_Varint
  imports Pb_Stream
begin

text \<open>
  Varints of nanopb: \<open>pb_encode_varint\<close>, \<open>pb_encode_svarint\<close> of \<open>pb_encode.c\<close>,
  \<open>pb_decode_varint32_eof\<close>, \<open>pb_decode_varint32\<close>, \<open>pb_decode_varint\<close>, \<open>pb_decode_svarint\<close>
  of \<open>pb_decode.c\<close>, and their correctness against the little-endian base 128 encoding of the
  wire specification. The build has 64 bit integers enabled.
\<close>

section \<open>Encoding\<close>

text \<open>The loop of \<open>pb_encode_varint\<close>: seven bits per byte, every byte with its top bit set.\<close>

function varint_loop :: "u64 \<Rightarrow> bytes" where
  "varint_loop v =
     (if v = 0 then [] else ucast ((v AND 0x7F) OR 0x80) # varint_loop (drop_bit 7 v))"
  by pat_completeness auto
termination
  by (relation "measure unat") (simp_all add: drop_bit_less_word)

declare varint_loop.simps [simp del]

definition varint_buffer :: "u64 \<Rightarrow> bytes" where
  "varint_buffer v =
     (let buffer = varint_loop v; i = length buffer
      in buffer[i - 1 := (buffer ! (i - 1)) AND 0x7F])"

definition pb_encode_varint :: "'s pb_ostream \<Rightarrow> u64 \<Rightarrow> bool \<times> 's pb_ostream" where
  "pb_encode_varint s v =
     (if v \<le> 0x7F then pb_write s [ucast v] 1
      else pb_write s (varint_buffer v) (length (varint_buffer v)))"

definition zigzag :: "u64 \<Rightarrow> u64" where
  "zigzag v = (if sint v < 0 then NOT (push_bit 1 v) else push_bit 1 v)"

definition pb_encode_svarint :: "'s pb_ostream \<Rightarrow> u64 \<Rightarrow> bool \<times> 's pb_ostream" where
  "pb_encode_svarint s v = pb_encode_varint s (zigzag v)"

section \<open>Decoding\<close>

lemma pb_readbyte_decreases:
  "pb_readbyte s = (Some b, s') \<Longrightarrow> bytes_left s' < bytes_left s"
  by (auto simp: pb_readbyte_def PB_RETURN_ERROR_def buf_read_def
      split: if_splits isource.splits read_result.splits prod.splits option.splits)

text \<open>
  The multi-byte loop of \<open>pb_decode_varint32_eof\<close>. \<open>bitpos\<close> is a \<open>uint_fast8_t\<close>, 8 bits
  wide: it wraps. The result is the accumulated value, the last byte and \<open>bitpos\<close> after it.
\<close>

function varint32_loop ::
  "'s pb_istream \<Rightarrow> u32 \<Rightarrow> 8 word \<Rightarrow> (u32 \<times> byte \<times> 8 word) option \<times> 's pb_istream" where
  "varint32_loop s result bitpos =
     (case pb_readbyte s of
        (None, s') \<Rightarrow> (None, s')
      | (Some b, s') \<Rightarrow>
          if 32 \<le> bitpos \<and> b AND 0x7F \<noteq> 0 \<and>
             (drop_bit 31 result = 0 \<or> b \<noteq> (if bitpos < 63 then 0xFF else 0x01))
          then PB_RETURN_ERROR s' ''varint overflow''
          else
            let result' =
                  (if 32 \<le> bitpos then result
                   else result OR push_bit (unat bitpos) (ucast (b AND 0x7F)));
                bitpos' = bitpos + 7
            in if b AND 0x80 \<noteq> 0 then varint32_loop s' result' bitpos'
               else (Some (result', b, bitpos'), s'))"
  by pat_completeness auto
termination
  by (relation "measure (\<lambda>(s, _, _). bytes_left s)") (auto dest: pb_readbyte_decreases [OF sym])

declare varint32_loop.simps [simp del]

text \<open>The second component is the \<open>eof\<close> flag the function may set.\<close>

definition pb_decode_varint32_eof ::
  "'s pb_istream \<Rightarrow> u32 option \<times> bool \<times> 's pb_istream" where
  "pb_decode_varint32_eof s =
     (case pb_readbyte s of
        (None, s') \<Rightarrow> (None, bytes_left s' = 0, s')
      | (Some b, s') \<Rightarrow>
          if b AND 0x80 = 0 then (Some (ucast b), False, s')
          else
            (case varint32_loop s' (ucast (b AND 0x7F)) 7 of
               (None, s'') \<Rightarrow> (None, False, s'')
             | (Some (result, last_byte, bitpos), s'') \<Rightarrow>
                 if bitpos = 35 \<and> last_byte AND 0x70 \<noteq> 0
                 then (None, False, PB_SET_ERROR s'' ''varint overflow'')
                 else (Some result, False, s'')))"

definition pb_decode_varint32 :: "'s pb_istream \<Rightarrow> u32 option \<times> 's pb_istream" where
  "pb_decode_varint32 s = (case pb_decode_varint32_eof s of (r, _, s') \<Rightarrow> (r, s'))"

function varint_decode_loop ::
  "'s pb_istream \<Rightarrow> u64 \<Rightarrow> 8 word \<Rightarrow> u64 option \<times> 's pb_istream" where
  "varint_decode_loop s result bitpos =
     (if 64 \<le> bitpos then PB_RETURN_ERROR s ''varint overflow''
      else case pb_readbyte s of
             (None, s') \<Rightarrow> (None, s')
           | (Some b, s') \<Rightarrow>
               let result' = result OR push_bit (unat bitpos) (ucast (b AND 0x7F))
               in if b AND 0x80 \<noteq> 0 then varint_decode_loop s' result' (bitpos + 7)
                  else (Some result', s'))"
  by pat_completeness auto
termination
  by (relation "measure (\<lambda>(s, _, _). bytes_left s)") (auto dest: pb_readbyte_decreases [OF sym])

declare varint_decode_loop.simps [simp del]

definition pb_decode_varint :: "'s pb_istream \<Rightarrow> u64 option \<times> 's pb_istream" where
  "pb_decode_varint s = varint_decode_loop s 0 0"

definition unzigzag :: "u64 \<Rightarrow> u64" where
  "unzigzag v = (if v AND 1 \<noteq> 0 then NOT (drop_bit 1 v) else drop_bit 1 v)"

definition pb_decode_svarint :: "'s pb_istream \<Rightarrow> u64 option \<times> 's pb_istream" where
  "pb_decode_svarint = istream_bind pb_decode_varint (\<lambda>v s. (Some (unzigzag v), s))"

section \<open>The reference encoding\<close>

text \<open>Little-endian base 128, the varint format of the protocol buffers wire specification.\<close>

fun leb128 :: "nat \<Rightarrow> bytes" where
  "leb128 n = (if n < 128 then [of_nat n] else of_nat (n mod 128 + 128) # leb128 (n div 128))"
declare leb128.simps [simp del]

lemma varint_group: "ucast ((v AND 0x7F) OR 0x80) = (of_nat (unat v mod 128 + 128) :: byte)" for v :: u64
proof -
  have "(v AND 0x7F) OR 0x80 = take_bit 7 v + 0x80"
    using word_or_push_bit [of "take_bit 7 v" 7 1] by (simp add: word_and_mask_numeral unat_take_bit)
  then have "unat ((v AND 0x7F) OR 0x80) = unat v mod 128 + 128"
    by (simp add: unat_word_ariths unat_take_bit)
  then show ?thesis
    by (simp only: word_unat_eq_iff unat_ucast unat_of_nat)
qed

lemma varint_loop_leb128:
  assumes "v \<noteq> 0"
  shows "varint_loop v \<noteq> [] \<and> (varint_loop v)[length (varint_loop v) - 1 := last (varint_loop v) AND 0x7F] = leb128 (unat v)"
  using assms
proof (induction v rule: varint_loop.induct)
  case (1 v)
  have 2: "varint_loop v = of_nat (unat v mod 128 + 128) # varint_loop (drop_bit 7 v)"
    using "1.prems" by (subst varint_loop.simps) (simp add: varint_group)
  show ?case
  proof (cases "drop_bit 7 v = 0")
    case True
    then have "unat v < 128" by (simp add: word_unat_eq_iff unat_drop_bit)
    moreover from True have "varint_loop (drop_bit 7 v) = []" by (subst varint_loop.simps) simp
    moreover have "of_nat (unat v + 128) AND (0x7F :: byte) = of_nat (unat v)" 
      using calculation(1)
      by (simp add: word_and_mask_numeral word_unat_eq_iff unat_take_bit unat_of_nat unat_ucast del: of_nat_add)
    ultimately show ?thesis by (simp add: 2 leb128.simps [of "unat v"])
  next
    case False
    then have "128 \<le> unat v" by (simp add: word_unat_eq_iff unat_drop_bit)
    moreover have "varint_loop (drop_bit 7 v) \<noteq> []" 
       "(varint_loop (drop_bit 7 v))[length (varint_loop (drop_bit 7 v)) - 1 := last (varint_loop (drop_bit 7 v)) AND 0x7F] 
        = leb128 (unat v div 128)"
      using "1.IH" [OF "1.prems" False] by (simp_all add: unat_drop_bit)
    ultimately show ?thesis by (cases "length (varint_loop (drop_bit 7 v))") (simp_all add: 2 leb128.simps [of "unat v"])
  qed
qed
lemma leb128_step: "128 \<le> n \<Longrightarrow> leb128 n = of_nat (n mod 128 + 128) # leb128 (n div 128)"
  by (subst leb128.simps) simp

lemma leb128_last: "n < 128 \<Longrightarrow> leb128 n = [of_nat n]"
  by (subst leb128.simps) simp

lemma unat_leb128_byte: "n < 256 \<Longrightarrow> unat (of_nat n :: byte) = n"
  by (simp add: unat_of_nat)

lemma varint_decode_step:
  assumes "r < 2 ^ k" and "r + unat b mod 128 * 2 ^ k < 2 ^ LENGTH('a::len)" and "7 \<le> LENGTH('a)"
  shows "(of_nat r :: 'a word) OR push_bit k (ucast ((b::byte) AND 0x7F))
       = of_nat (r + unat b mod 128 * 2 ^ k)"
proof -
  have r: "unat (of_nat r :: 'a word) = r" using assms by (simp add: unat_of_nat)
  have "unat b mod 128 < 2 ^ 7" by simp
  also have "(2::nat) ^ 7 \<le> 2 ^ LENGTH('a)" using assms(3) by (rule power_increasing) simp
  finally have b: "unat b mod 128 mod 2 ^ LENGTH('a) = unat b mod 128" by simp
  from r assms(1) have "(of_nat r :: 'a word) OR push_bit k (ucast (b AND 0x7F))
      = of_nat r + push_bit k (ucast (b AND 0x7F))"
    by (intro word_or_push_bit) simp
  then have "unat ((of_nat r :: 'a word) OR push_bit k (ucast (b AND 0x7F)))
      = r + unat b mod 128 * 2 ^ k"
    using assms r b
    by (simp add: unat_word_ariths unat_push_bit unat_ucast word_and_mask_numeral unat_take_bit)
  then show ?thesis by (metis of_nat_unat ucast_id)
qed

lemma varint_decode_loop_leb128:
  assumes "r < 2 ^ k" and "k < 64" and "r + n * 2 ^ k < 2 ^ 64"
  shows "varint_decode_loop (buf_istream (leb128 n @ xs) ys e :: 's pb_istream) (of_nat r) (of_nat k)
       = (Some (of_nat (r + n * 2 ^ k)), buf_istream xs ys e)"
  using assms
proof (induction n arbitrary: r k rule: leb128.induct)
  case (1 n)
  have k: "unat (of_nat k :: 8 word) = k" "\<not> 64 \<le> (of_nat k :: 8 word)"
    using "1.prems"(2) by (simp_all add: unat_of_nat word_le_nat_alt)
  show ?case
  proof (cases "n < 128")
    case True
    then have "unat (of_nat n :: byte) = n" by (simp add: unat_of_nat)
    with True k show ?thesis using "1.prems" varint_decode_step [of r k "of_nat n", where 'a = 64]
      by (subst varint_decode_loop.simps) (simp add: leb128_last word_and_80)
  next
    case False
    let ?b = "of_nat (n mod 128 + 128) :: byte"
    have "n mod 128 + 128 < 256" by simp
    then have b: "unat ?b = n mod 128 + 128" by (rule unat_leb128_byte)
    have "n mod 128 * 2 ^ k \<le> n * 2 ^ k" by simp
    with "1.prems"(3) have le: "r + n mod 128 * 2 ^ k < 2 ^ 64" by linarith
    have p7: "(2::nat) ^ (k + 7) = 128 * 2 ^ k" by (simp add: power_add)
    have "128 * 2 ^ k \<le> n * 2 ^ k" using False by simp
    with p7 "1.prems"(3) have "(2::nat) ^ (k + 7) < 2 ^ 64" by linarith
    then have k7: "k + 7 < 64" by (rule power_less_imp_less_exp [rotated]) simp
    note split = base128_split [of r n k]
    note r' = base128_low [OF "1.prems"(1), of n]
    have "(of_nat r :: u64) OR push_bit k (ucast (?b AND 0x7F)) = of_nat (r + n mod 128 * 2 ^ k)"
      using varint_decode_step [of r k ?b, where 'a = 64] "1.prems"(1,3) le b by simp
    moreover have "128 \<le> unat ?b" using b by simp
    ultimately have "varint_decode_loop (buf_istream (leb128 n @ xs) ys e :: 's pb_istream)
          (of_nat r) (of_nat k)
        = varint_decode_loop (buf_istream (leb128 (n div 128) @ xs) ys e)
            (of_nat (r + n mod 128 * 2 ^ k)) (of_nat (k + 7))"
      using False k
      by (subst varint_decode_loop.simps)
         (simp add: leb128_step word_and_80 del: of_nat_add of_nat_mult, simp)
    also have "\<dots> = (Some (of_nat (r + n mod 128 * 2 ^ k + n div 128 * 2 ^ (k + 7))),
        buf_istream xs ys e)"
      by (rule "1.IH" [OF False r' k7]) (use "1.prems"(3) split in linarith)
    finally show ?thesis by (simp only: split)
  qed
qed

lemma pb_decode_varint_leb128:
  assumes "n < 2 ^ 64"
  shows "pb_decode_varint (buf_istream (leb128 n @ xs) ys e) = (Some (of_nat n), buf_istream xs ys e)"
  using varint_decode_loop_leb128 [of 0 0 n] assms by (simp add: pb_decode_varint_def)

lemma length_leb128: "n < 128 ^ Suc k \<Longrightarrow> length (leb128 n) \<le> Suc k"
proof (induction k arbitrary: n)
  case 0
  then show ?case by (simp add: leb128_last)
next
  case (Suc k)
  then have "n div 128 < 128 ^ Suc k" by (simp add: less_mult_imp_div_less mult.commute)
  with Suc.IH [of "n div 128"] show ?case
    by (cases "n < 128") (simp_all add: leb128_last leb128_step)
qed

lemma length_leb128_u64: "n < 2 ^ 64 \<Longrightarrow> length (leb128 n) \<le> 10"
  using length_leb128 [of n 9] by simp

lemma varint_buffer_leb128: "v \<noteq> 0 \<Longrightarrow> varint_buffer v = leb128 (unat v)"
  using varint_loop_leb128 [of v] by (auto simp: varint_buffer_def Let_def last_conv_nth)

lemma emitter_varint: "emitter (\<lambda>s. pb_encode_varint s v) (leb128 (unat v))"
proof (cases "v \<le> 0x7F")
  case True
  then have "unat v < 128" by (simp add: word_le_nat_alt)
  then have "leb128 (unat v) = [ucast v]" by (simp add: leb128_last)
  with True emitter_write [of "[ucast v]"] show ?thesis
    by (simp add: pb_encode_varint_def SIZE_LIMIT_def)
next
  case False
  then have "v \<noteq> 0" by auto
  have "length (leb128 (unat v)) \<le> 10"
    using unsigned_less [of v, where 'a = nat] by (intro length_leb128_u64) simp
  with False emitter_write [of "leb128 (unat v)"] show ?thesis
    by (simp add: pb_encode_varint_def varint_buffer_leb128 [OF \<open>v \<noteq> 0\<close>] SIZE_LIMIT_def)
qed

interpretation varint_out: emitter "\<lambda>s. pb_encode_varint s v" "leb128 (unat v)" for v
  by (rule emitter_varint)

interpretation svarint_out: emitter "\<lambda>s. pb_encode_svarint s v" "leb128 (unat (zigzag v))" for v
  unfolding pb_encode_svarint_def by (rule emitter_varint)

lemma varint32_step:
  assumes "r < 2 ^ k" and "k < 32"
  shows "(of_nat r :: u32) OR push_bit k (ucast ((b::byte) AND 0x7F)) = of_nat (r + unat b mod 128 * 2 ^ k)"
proof -
  have p: "(2::nat) ^ k \<le> 2 ^ 32" using assms(2) by (intro power_increasing) simp_all
  with assms(1) have r: "unat (of_nat r :: u32) = r" by (simp add: unat_of_nat)
  have sum: "(of_nat r :: u32) OR push_bit k (ucast (b AND 0x7F))
      = of_nat r + push_bit k (ucast (b AND 0x7F))"
    using r assms(1) by (intro word_or_push_bit) simp
  have "push_bit k (ucast (b AND 0x7F) :: u32) = of_nat (unat b mod 128 * 2 ^ k)"
    by (simp only: word_unat_eq_iff unat_push_bit unat_of_nat unat_ucast word_and_mask_numeral unat_take_bit) simp
  then show ?thesis unfolding sum by simp
qed

lemma varint32_loop_more:
  assumes "r < 2 ^ k" and "k < 32" and "128 \<le> n"
  shows "varint32_loop (buf_istream (leb128 n @ xs) ys e :: 's pb_istream) (of_nat r) (of_nat k) =
     varint32_loop (buf_istream (leb128 (n div 128) @ xs) ys e) (of_nat (r + n mod 128 * 2 ^ k)) (of_nat (k + 7))"
proof -
  let ?b = "of_nat (n mod 128 + 128) :: byte"
  have "n mod 128 + 128 < 256" by simp
  then have b: "unat ?b = n mod 128 + 128" by (rule unat_leb128_byte)
  have k: "unat (of_nat k :: 8 word) = k" "\<not> 32 \<le> (of_nat k :: 8 word)"
    using assms(2) by (simp_all add: unat_of_nat word_le_nat_alt)
  have "(of_nat r :: u32) OR push_bit k (ucast (?b AND 0x7F)) = of_nat (r + n mod 128 * 2 ^ k)"
    using varint32_step [OF assms(1,2), of ?b] b by simp
  moreover have "128 \<le> unat ?b" using b by simp
  ultimately show ?thesis using assms(3) k
    by (subst varint32_loop.simps) (simp add: leb128_step word_and_80 del: of_nat_add of_nat_mult, simp)
qed

lemma varint32_loop_last:
  assumes "r < 2 ^ k" and "k < 32" and "n < 128"
  shows "varint32_loop (buf_istream (leb128 n @ xs) ys e :: 's pb_istream) (of_nat r) (of_nat k) =
     (Some (of_nat (r + n * 2 ^ k), of_nat n, of_nat (k + 7)), buf_istream xs ys e)"
proof -
  have b: "unat (of_nat n :: byte) = n" using assms(3) by (simp add: unat_of_nat)
  have k: "unat (of_nat k :: 8 word) = k" "\<not> 32 \<le> (of_nat k :: 8 word)"
    using assms(2) by (simp_all add: unat_of_nat word_le_nat_alt)
  show ?thesis using assms varint32_step [OF assms(1,2), of "of_nat n"] b k
    by (subst varint32_loop.simps) (simp add: leb128_last word_and_80)
qed

text \<open>Beyond bit 35 only sign extension is accepted, so a value below \<open>2 ^ 63\<close> is refused.\<close>

lemma varint32_loop_high:
  assumes "35 \<le> k" and "k \<le> 63" and "0 < n" and "n * 2 ^ k < 2 ^ 63"
  shows "fst (varint32_loop (buf_istream (leb128 n @ xs) ys e :: 's pb_istream) r (of_nat k)) = None"
  using assms
proof (induction n arbitrary: k rule: leb128.induct)
  case (1 n)
  have k: "unat (of_nat k :: 8 word) = k" "32 \<le> (of_nat k :: 8 word)"
    using "1.prems"(1,2) by (simp_all add: unat_of_nat word_le_nat_alt)
  have k63: "k < 63"
  proof (rule ccontr)
    assume "\<not> k < 63"
    with "1.prems"(2) have "k = 63" by simp
    with "1.prems"(3,4) show False by simp
  qed
  then have s: "(of_nat k :: 8 word) < 63" using k(1) by (simp add: word_less_nat_alt)
  show ?case
  proof (cases "n < 128")
    case True
    then have b: "unat (of_nat n :: byte) = n" by (simp add: unat_of_nat)
    then have "of_nat n AND 0x7F \<noteq> (0 :: byte)" "of_nat n \<noteq> (0xFF :: byte)"
      using True "1.prems"(3) by (simp_all add: word_and_mask_numeral word_unat_eq_iff unat_take_bit)
    with True k s show ?thesis
      by (subst varint32_loop.simps) (simp add: leb128_last)
  next
    case False
    let ?b = "of_nat (n mod 128 + 128) :: byte"
    have "n mod 128 + 128 < 256" by simp
    then have b: "unat ?b = n mod 128 + 128" by (rule unat_leb128_byte)
    have "n div 128 * 128 \<le> n" by simp
    then have "n div 128 * 128 * 2 ^ k \<le> n * 2 ^ k" by (rule mult_le_mono1)
    moreover have "n div 128 * 128 * 2 ^ k = n div 128 * 2 ^ (k + 7)" by (simp add: power_add)
    ultimately have "n div 128 * 2 ^ (k + 7) < 2 ^ 63" using "1.prems"(4) by linarith
    moreover from this have "k + 7 \<le> 63"
    proof -
      have "1 * 2 ^ (k + 7) \<le> n div 128 * 2 ^ (k + 7)" using False by (intro mult_le_mono1) simp
      with calculation have "(2::nat) ^ (k + 7) < 2 ^ 63" by linarith
      then have "k + 7 < 63" by (rule power_less_imp_less_exp [rotated]) simp
      then show ?thesis by simp
    qed
    ultimately have "fst (varint32_loop (buf_istream (leb128 (n div 128) @ xs) ys e :: 's pb_istream) r (of_nat (k + 7))) = None"
      using False "1.prems"(1) by (intro "1.IH") simp_all
    moreover have "128 \<le> unat ?b" using b by simp
    ultimately show ?thesis using False k s
      by (subst varint32_loop.simps) (simp add: leb128_step word_and_80 Let_def)
  qed
qed

text \<open>Values below \<open>2 ^ 32\<close>.\<close>

lemma varint32_loop_small:
  assumes "r < 2 ^ k" and "k < 32" and "r + n * 2 ^ k < 2 ^ 32"
  shows "\<exists>b p. varint32_loop (buf_istream (leb128 n @ xs) ys e :: 's pb_istream) (of_nat r) (of_nat k) =
     (Some (of_nat (r + n * 2 ^ k), b, of_nat p), buf_istream xs ys e) \<and> 7 \<le> p \<and> p < 39 \<and> unat b * 2 ^ (p - 7) < 2 ^ 32"
  using assms
proof (induction n arbitrary: r k rule: leb128.induct)
  case (1 n)
  show ?case
  proof (cases "n < 128")
    case True
    then have "unat (of_nat n :: byte) = n" by (simp add: unat_of_nat)
    with varint32_loop_last [OF "1.prems"(1,2) True, of xs ys e] "1.prems"(2,3) show ?thesis
      by (intro exI [of _ "of_nat n"] exI [of _ "k + 7"]) simp
  next
    case False
    have p7: "(2::nat) ^ (k + 7) = 128 * 2 ^ k" by (simp add: power_add)
    have "128 * 2 ^ k \<le> n * 2 ^ k" using False by simp
    with p7 "1.prems"(3) have "(2::nat) ^ (k + 7) < 2 ^ 32" by linarith
    then have k7: "k + 7 < 32" by (rule power_less_imp_less_exp [rotated]) simp
    note split = base128_split [of r n k]
    have "varint32_loop (buf_istream (leb128 n @ xs) ys e :: 's pb_istream) (of_nat r) (of_nat k) =
       varint32_loop (buf_istream (leb128 (n div 128) @ xs) ys e) (of_nat (r + n mod 128 * 2 ^ k)) (of_nat (k + 7))"
      by (rule varint32_loop_more [OF "1.prems"(1,2)]) (use False in simp)
    moreover have "r + n mod 128 * 2 ^ k + n div 128 * 2 ^ (k + 7) < 2 ^ 32" using "1.prems"(3) split by linarith
    ultimately show ?thesis
      using "1.IH" [OF False base128_low [OF "1.prems"(1)] k7] unfolding split by (simp only: simp_thms)
  qed
qed

lemma varint32_eof_first:
  assumes "128 \<le> n"
  shows "pb_decode_varint32_eof (buf_istream (leb128 n @ xs) ys e :: 's pb_istream) =
     (case varint32_loop (buf_istream (leb128 (n div 128) @ xs) ys e) (of_nat (n mod 128)) (of_nat 7) of
        (None, s'') \<Rightarrow> (None, False, s'')
      | (Some (result, last_byte, bitpos), s'') \<Rightarrow>
          if bitpos = 35 \<and> last_byte AND 0x70 \<noteq> 0
          then (None, False, PB_SET_ERROR s'' ''varint overflow'')
          else (Some result, False, s''))"
proof -
  let ?b = "of_nat (n mod 128 + 128) :: byte"
  have "n mod 128 + 128 < 256" by simp
  then have b: "unat ?b = n mod 128 + 128" by (rule unat_leb128_byte)
  then have 80: "\<not> ?b AND 0x80 = 0" using word_and_80 [of ?b] by simp
  have "ucast (?b AND 0x7F) = (of_nat (n mod 128) :: u32)"
    using b by (simp only: word_unat_eq_iff unat_ucast unat_of_nat word_and_mask_numeral unat_take_bit) simp
  with 80 show ?thesis
    by (simp add: pb_decode_varint32_eof_def leb128_step [OF assms] del: of_nat_add)
qed

lemma varint32_small:
  assumes "n < 2 ^ 32"
  shows "pb_decode_varint32_eof (buf_istream (leb128 n @ xs) ys e :: 's pb_istream) =
     (Some (of_nat n), False, buf_istream xs ys e)"
proof (cases "n < 128")
  case True
  then have "unat (of_nat n :: byte) = n" by (simp add: unat_of_nat)
  moreover from this have "ucast (of_nat n :: byte) = (of_nat n :: u32)" using True
    by (simp only: word_unat_eq_iff unat_ucast unat_of_nat)
  ultimately show ?thesis using True word_and_80 [of "of_nat n"]
    by (simp add: pb_decode_varint32_eof_def leb128_last)
next
  case False
  have eq: "n mod 128 + n div 128 * 2 ^ 7 = n" by simp
  obtain b p where l: "varint32_loop (buf_istream (leb128 (n div 128) @ xs) ys e :: 's pb_istream)
       (of_nat (n mod 128)) (of_nat 7) = (Some (of_nat n, b, of_nat p), buf_istream xs ys e)"
    and p: "7 \<le> p" "p < 39" "unat b * 2 ^ (p - 7) < 2 ^ 32"
    using varint32_loop_small [of "n mod 128" 7 "n div 128" xs ys e] assms unfolding eq by auto
  have "b AND 0x70 = 0" if "(of_nat p :: 8 word) = 35"
  proof -
    from that p(1,2) have "p = 35" by (simp add: word_unat_eq_iff unat_of_nat)
    with p(3) have "unat b < 16" by simp
    then show ?thesis by (simp add: byte_and_70)
  qed
  with l False show ?thesis by (subst varint32_eof_first) auto
qed

lemma varint32_after_28:
  assumes "2 ^ 28 \<le> n"
  shows "varint32_loop (buf_istream (leb128 (n div 128) @ xs) ys e :: 's pb_istream) (of_nat (n mod 128)) (of_nat 7)
     = varint32_loop (buf_istream (leb128 (n div 2 ^ 28) @ xs) ys e) (of_nat (n mod 2 ^ 28)) (of_nat 28)"
proof -
  have step: "varint32_loop (buf_istream (leb128 (n div 2 ^ k) @ xs) ys e :: 's pb_istream) (of_nat (n mod 2 ^ k)) (of_nat k)
     = varint32_loop (buf_istream (leb128 (n div 2 ^ (k + 7)) @ xs) ys e) (of_nat (n mod 2 ^ (k + 7))) (of_nat (k + 7))"
    if "k \<le> 21" for k
  proof -
    have "(2::nat) ^ (k + 7) \<le> 2 ^ 28" using that by (intro power_increasing) simp_all
    with assms have "2 ^ (k + 7) \<le> n" by linarith
    then have "128 * 2 ^ k \<le> n" by (simp add: power_add mult.commute)
    then have "128 \<le> n div 2 ^ k" by (simp add: less_eq_div_iff_mult_less_eq)
    moreover have "n mod 2 ^ (k + 7) = n mod 2 ^ k + n div 2 ^ k mod 128 * 2 ^ k"
      by (simp add: power_add mod_mult2_eq mult.commute)
    ultimately show ?thesis using varint32_loop_more [of "n mod 2 ^ k" k "n div 2 ^ k" xs ys e] that
      by (simp add: power_add div_mult2_eq del: of_nat_add of_nat_mult)
  qed
  from step [of 7] step [of 14] step [of 21] show ?thesis by simp
qed

lemma varint32_sign_tail:
  assumes "drop_bit 31 r \<noteq> 0"
  shows "varint32_loop (buf_istream (leb128 (2 ^ 29 - 1) @ xs) ys e :: 's pb_istream) r (of_nat 35) = (Some (r, 1, 70), buf_istream xs ys e)"
proof -
  have "leb128 (2 ^ 29 - 1) = [255, 255, 255, 255, 1]"
    by (simp add: leb128.simps)
  with assms show ?thesis by (simp add: varint32_loop.simps)
qed

lemma varint32_negative:
  assumes "2 ^ 64 - 2 ^ 31 \<le> n" and "n < 2 ^ 64"
  shows "pb_decode_varint32_eof (buf_istream (leb128 n @ xs) ys e :: 's pb_istream) =
     (Some (of_nat n), False, buf_istream xs ys e)"
proof -
  have n5: "n div 2 ^ 28 div 128 = 2 ^ 29 - 1"
    using assms by (simp add: div_mult2_eq [symmetric])
  have "128 \<le> n div 2 ^ 28" using assms(1) by (simp add: less_eq_div_iff_mult_less_eq)
  then have l28: "varint32_loop (buf_istream (leb128 (n div 2 ^ 28) @ xs) ys e :: 's pb_istream)
      (of_nat (n mod 2 ^ 28)) (of_nat 28)
    = varint32_loop (buf_istream (leb128 (2 ^ 29 - 1) @ xs) ys e)
      (of_nat (n mod 2 ^ 28 + n div 2 ^ 28 mod 128 * 2 ^ 28)) (of_nat 35)"
    using varint32_loop_more [of "n mod 2 ^ 28" 28 "n div 2 ^ 28" xs ys e] n5
    by (simp del: of_nat_add of_nat_mult)
  have sum: "n mod 2 ^ 28 + n div 2 ^ 28 mod 128 * 2 ^ 28 = n mod 2 ^ 35"
    using mod_mult2_eq [of n "2 ^ 28" 128] by simp
  have r: "(of_nat (n mod 2 ^ 35) :: u32) = of_nat n"
    by (simp only: word_unat_eq_iff unat_of_nat) (simp add: mod_mod_cancel)
  have neg: "drop_bit 31 (of_nat n :: u32) \<noteq> 0"
  proof -
    have "n = n - (2 ^ 64 - 2 ^ 32) + (2 ^ 32 - 1) * 2 ^ 32" using assms(1) by simp
    then have "n mod 2 ^ 32 = (n - (2 ^ 64 - 2 ^ 32)) mod 2 ^ 32"
      by (metis mod_mult_self2 mult.commute)
    also have "\<dots> = n - (2 ^ 64 - 2 ^ 32)" using assms by (intro mod_less) simp
    finally have "2 ^ 31 \<le> n mod 2 ^ 32" using assms(1) by simp
    then show ?thesis by (simp add: word_unat_eq_iff unat_drop_bit unat_of_nat div_eq_0_iff not_less)
  qed
  have "varint32_loop (buf_istream (leb128 (n div 128) @ xs) ys e :: 's pb_istream)
      (of_nat (n mod 128)) (of_nat 7)
    = varint32_loop (buf_istream (leb128 (n div 2 ^ 28) @ xs) ys e)
      (of_nat (n mod 2 ^ 28)) (of_nat 28)"
    by (rule varint32_after_28) (use assms(1) in simp)
  also have "\<dots> = (Some (of_nat n, 1, 70), buf_istream xs ys e)"
    unfolding l28 sum r by (rule varint32_sign_tail [OF neg])
  finally show ?thesis using assms(1) by (subst varint32_eof_first) simp_all
qed

lemma varint32_overflow:
  assumes "2 ^ 32 \<le> n" and "n < 2 ^ 63"
  shows "fst (pb_decode_varint32_eof (buf_istream (leb128 n @ xs) ys e :: 's pb_istream)) = None"
proof -
  let ?s = "buf_istream (leb128 (n div 2 ^ 28) @ xs) ys e :: 's pb_istream"
  have eq: "varint32_loop (buf_istream (leb128 (n div 128) @ xs) ys e :: 's pb_istream)
      (of_nat (n mod 128)) (of_nat 7) = varint32_loop ?s (of_nat (n mod 2 ^ 28)) (of_nat 28)"
    using assms(1) by (intro varint32_after_28) simp
  have 16: "16 \<le> n div 2 ^ 28" using assms(1) by (simp add: less_eq_div_iff_mult_less_eq)
  show ?thesis
  proof (cases "n div 2 ^ 28 < 128")
    case True
    have "unat (of_nat (n div 2 ^ 28) :: byte) = n div 2 ^ 28" using True by (simp add: unat_of_nat)
    then have "of_nat (n div 2 ^ 28) AND (0x70 :: byte) \<noteq> 0"
      using 16 True by (simp add: byte_and_70)
    moreover have "varint32_loop ?s (of_nat (n mod 2 ^ 28)) (of_nat 28)
      = (Some (of_nat (n mod 2 ^ 28 + n div 2 ^ 28 * 2 ^ 28), of_nat (n div 2 ^ 28), of_nat (28 + 7)),
         buf_istream xs ys e)"
      by (rule varint32_loop_last) (use True in simp_all)
    ultimately show ?thesis using eq assms(1)
      by (subst varint32_eof_first) (simp_all del: of_nat_add of_nat_mult)
  next
    case False
    have "n div 2 ^ 28 div 128 * 2 ^ 35 \<le> n"
      using times_div_less_eq_dividend [of "2 ^ 35" n] by (simp add: div_mult2_eq [symmetric])
    moreover have "0 < n div 2 ^ 28 div 128" using False by (simp add: div_greater_zero_iff)
    ultimately have "fst (varint32_loop (buf_istream (leb128 (n div 2 ^ 28 div 128) @ xs) ys e :: 's pb_istream)
        r (of_nat 35)) = None" for r
      using assms(2) by (intro varint32_loop_high) simp_all
    moreover have "varint32_loop ?s (of_nat (n mod 2 ^ 28)) (of_nat 28) =
       varint32_loop (buf_istream (leb128 (n div 2 ^ 28 div 128) @ xs) ys e)
         (of_nat (n mod 2 ^ 28 + n div 2 ^ 28 mod 128 * 2 ^ 28)) (of_nat (28 + 7))"
      by (rule varint32_loop_more) (use False in simp_all)
    ultimately have "fst (varint32_loop ?s (of_nat (n mod 2 ^ 28)) (of_nat 28)) = None" by simp
    then show ?thesis using eq assms(1)
      by (subst varint32_eof_first) (auto split: prod.splits option.splits)
  qed
qed
section \<open>Zigzag\<close>

lemma unzigzag_zigzag: "unzigzag (zigzag v) = v"
proof (cases "bit v 63")
  case True
  have "NOT (push_bit 1 v) AND 1 \<noteq> 0"
    using and_exp_eq_0_iff_not_bit [of "NOT (push_bit 1 v)" 0]
    by (simp only: bit_shift_simps) simp
  moreover have "NOT (drop_bit 1 (NOT (push_bit 1 v))) = v"
  proof (rule bit_word_eqI)
    fix n assume "n < LENGTH(64)"
    then have "n = 63 \<or> n < 63" by auto
    with True show "bit (NOT (drop_bit 1 (NOT (push_bit 1 v)))) n \<longleftrightarrow> bit v n"
      by (simp only: bit_shift_simps) auto
  qed
  ultimately show ?thesis using True unfolding zigzag_def unzigzag_def sint_negative_iff by simp
next
  case False
  have "push_bit 1 v AND 1 = 0"
    using and_exp_eq_0_iff_not_bit [of "push_bit 1 v" 0]
    by (simp only: bit_shift_simps) simp
  moreover have "drop_bit 1 (push_bit 1 v) = v"
  proof (rule bit_word_eqI)
    fix n assume "n < LENGTH(64)"
    then have "n = 63 \<or> n < 63" by auto
    with False show "bit (drop_bit 1 (push_bit 1 v)) n \<longleftrightarrow> bit v n"
      by (simp only: bit_shift_simps) auto
  qed
  ultimately show ?thesis using False unfolding zigzag_def unzigzag_def sint_negative_iff by simp
qed

lemma zigzag_value:
  "uint (zigzag v) = (if sint v < 0 then - 2 * sint v - 1 else 2 * sint v)"
proof (cases "bit v 63")
  case True
  have "- (2 ^ 63) \<le> sint v" using sint_ge [of v] by simp
  then have v: "2 ^ 63 \<le> uint v" "uint v < 2 ^ 64" using True uint_bounded [of v]
    by (simp_all add: sint_via_uint)
  have p: "uint (push_bit 1 v) = uint v * 2 mod 2 ^ 64"
    unfolding unsigned_push_bit_eq by (simp add: take_bit_eq_mod push_bit_eq_mult)
  have "uint v * 2 mod 2 ^ 64 = (uint v * 2 - 2 ^ 64) mod 2 ^ 64" by simp
  also have "\<dots> = uint v * 2 - 2 ^ 64" using v by (intro mod_pos_pos_trivial) simp_all
  finally have p: "uint (push_bit 1 v) = uint v * 2 - 2 ^ 64" unfolding p .
  have "take_bit 64 (uint v * 2 - 2 ^ 64) = uint v * 2 - 2 ^ 64"
    by (rule take_bit_int_eq_self) (use v in simp_all)
  then have "uint (NOT (push_bit 1 v)) = mask 64 - (uint v * 2 - 2 ^ 64)"
    unfolding unsigned_not_eq p using take_bit_not_eq_mask_diff [of 64 "uint v * 2 - 2 ^ 64"]
    by simp
  then have "uint (NOT (push_bit 1 v)) = 2 ^ 64 - 1 - (uint v * 2 - 2 ^ 64)"
    by (simp only: mask_eq_exp_minus_1)
  with True show ?thesis unfolding zigzag_def sint_negative_iff by (simp add: sint_via_uint)
next
  case False
  have "sint v < 2 ^ 63" using sint_lt [of v] by simp
  then have v: "0 \<le> uint v" "uint v < 2 ^ 63" using False uint_bounded [of v] by (simp_all add: sint_via_uint)
  have "uint (push_bit 1 v) = uint v * 2 mod 2 ^ 64"
    unfolding unsigned_push_bit_eq by (simp add: take_bit_eq_mod push_bit_eq_mult)
  also have "\<dots> = uint v * 2" using v by (intro mod_pos_pos_trivial) simp_all
  finally show ?thesis using False unfolding zigzag_def sint_negative_iff by (simp add: sint_via_uint)
qed
section \<open>No reader of varints looks past its stream\<close>

lemma varint32_loop_bounded: "bounded_reader (\<lambda>s. varint32_loop s r p)"
proof (rule bounded_readerI)
  fix xs e
  show "bounded_at (\<lambda>ys. varint32_loop (buf_istream xs ys e) r p) xs"
  proof (induction xs arbitrary: r p e)
    case Nil
    show ?case by (subst varint32_loop.simps) (simp add: bounded_intros)
  next
    case (Cons b xs)
    show ?case
      by (subst varint32_loop.simps)
         (simp only: pb_readbyte_buf prod.case option.case Let_def PB_RETURN_ERROR_buf,
          intro bounded_intros bounded_at_Cons Cons.IH)
  qed
qed

lemma varint_decode_loop_bounded: "bounded_reader (\<lambda>s. varint_decode_loop s r p)"
proof (rule bounded_readerI)
  fix xs e
  show "bounded_at (\<lambda>ys. varint_decode_loop (buf_istream xs ys e) r p) xs"
  proof (induction xs arbitrary: r p e)
    case Nil
    show ?case by (subst varint_decode_loop.simps) (simp add: bounded_intros)
  next
    case (Cons b xs)
    show ?case
      by (subst varint_decode_loop.simps)
         (simp only: pb_readbyte_buf prod.case option.case Let_def PB_RETURN_ERROR_buf,
          intro bounded_intros bounded_at_Cons Cons.IH)
  qed
qed

interpretation varint: bounded_reader pb_decode_varint
  unfolding pb_decode_varint_def [abs_def] by (rule varint_decode_loop_bounded)

interpretation svarint: bounded_reader pb_decode_svarint
  unfolding pb_decode_svarint_def by (intro bounded_reader_bind varint.bounded_reader_axioms bounded_reader_return)

lemma pb_decode_varint32_alt:
  "pb_decode_varint32 = istream_bind pb_readbyte
     (\<lambda>b. if b AND 0x80 = 0 then (\<lambda>s. (Some (ucast b), s))
          else istream_bind (\<lambda>s. varint32_loop s (ucast (b AND 0x7F)) 7)
                 (\<lambda>(result, last_byte, bitpos).
                    if bitpos = 35 \<and> last_byte AND 0x70 \<noteq> 0
                    then (\<lambda>s. PB_RETURN_ERROR s ''varint overflow'')
                    else (\<lambda>s. (Some result, s))))"
  by (rule ext) (auto simp: pb_decode_varint32_def pb_decode_varint32_eof_def istream_bind_def
      PB_RETURN_ERROR_def split: prod.splits option.splits)

interpretation varint32: bounded_reader pb_decode_varint32
  unfolding pb_decode_varint32_alt
  by (intro bounded_reader_bind readbyte.bounded_reader_axioms)
     (auto intro!: bounded_reader_bind varint32_loop_bounded)

lemma varint32_leb128: "n < 2 ^ 32 \<Longrightarrow> pb_decode_varint32 (buf_istream (leb128 n @ xs) ys e) = (Some (of_nat n), buf_istream xs ys e)"
  by (simp add: pb_decode_varint32_def varint32_small)

lemma fst_varint32: "fst (pb_decode_varint32 s) = fst (pb_decode_varint32_eof s)"
  by (simp add: pb_decode_varint32_def split: prod.splits)

section \<open>Properties\<close>

text \<open>
  C19: every 64 bit value fits the ten byte buffer of \<open>pb_encode_varint\<close>, and decoding what was
  written gives the value back and leaves the stream right behind it.
\<close>

theorem varint_roundtrip:
  "\<exists>bs. pb_encode_varint (pb_ostream_from_buffer 10) v = (True, buf_ostream [] bs 10 None) \<and>
     length bs \<le> 10 \<and>
     pb_decode_varint (buf_istream (bs @ xs) ys e) = (Some v, buf_istream xs ys e)"
proof (intro exI conjI)
  have lt: "unat v < 2 ^ 64" using unsigned_less [of v, where 'a = nat] by simp
  then show len: "length (leb128 (unat v)) \<le> 10" by (rule length_leb128_u64)
  then show "pb_encode_varint (pb_ostream_from_buffer 10) v = (True, buf_ostream [] (leb128 (unat v)) 10 None)"
    by (intro emitter_into_buffer emitter_varint) (simp_all add: SIZE_LIMIT_def)
  show "pb_decode_varint (buf_istream (leb128 (unat v) @ xs) ys e) = (Some v, buf_istream xs ys e)"
    using pb_decode_varint_leb128 [OF lt, of xs ys e] by simp
qed

text \<open>
  zigzag integers survive \<open>pb_encode_svarint\<close> followed by \<open>pb_decode_svarint\<close>, and values of
  small magnitude take a single byte.
\<close>

theorem svarint_roundtrip:
  "\<exists>bs. pb_encode_svarint (pb_ostream_from_buffer 10) v = (True, buf_ostream [] bs 10 None) \<and>
     pb_decode_svarint (buf_istream (bs @ xs) ys e) = (Some v, buf_istream xs ys e) \<and>
     (\<bar>sint v\<bar> < 64 \<longrightarrow> length bs = 1)"
proof -
  have lt: "unat (zigzag v) < 2 ^ 64" using unsigned_less [of "zigzag v", where 'a = nat] by simp
  then have len: "length (leb128 (unat (zigzag v))) \<le> 10" by (rule length_leb128_u64)
  have "pb_encode_svarint (pb_ostream_from_buffer 10) v
      = (True, buf_ostream [] (leb128 (unat (zigzag v))) 10 None)"
    unfolding pb_encode_svarint_def
    by (intro emitter_into_buffer emitter_varint) (use len in \<open>simp_all add: SIZE_LIMIT_def\<close>)
  moreover have "pb_decode_svarint (buf_istream (leb128 (unat (zigzag v)) @ xs) ys e)
      = (Some v, buf_istream xs ys e)"
    by (simp add: pb_decode_svarint_def istream_bind_def pb_decode_varint_leb128 [OF lt] unzigzag_zigzag)
  moreover have "length (leb128 (unat (zigzag v))) = 1" if "\<bar>sint v\<bar> < 64"
  proof -
    have "uint (zigzag v) < 128" using that unfolding zigzag_value by (cases "sint v < 0") simp_all
    then have "nat (uint (zigzag v)) < 128" by (simp only: nat_less_iff uint_ge_0)
    then have "unat (zigzag v) < 128" by (simp only: unat_eq_nat_uint)
    then show ?thesis by (simp add: leb128_last)
  qed
  ultimately show ?thesis by blast
qed

theorem svarint_roundtrip_witness:
  "\<exists>bs. pb_encode_svarint (pb_ostream_from_buffer 10 :: unit pb_ostream) (- 5)
       = (True, buf_ostream [] bs 10 None) \<and>
     pb_decode_svarint (buf_istream (bs @ [7]) [] None :: unit pb_istream)
       = (Some (- 5), buf_istream [7] [] None) \<and>
     length bs = 1"
proof -
  have "\<bar>sint (- 5 :: u64)\<bar> < 64" by simp
  with svarint_roundtrip [of "- 5" "[7]" "[]" None] show ?thesis by blast
qed


text \<open>
  C24: \<open>pb_decode_varint32\<close> on the encoding of a non-negative \<open>int64\<close> or of a sign-extended
  negative \<open>int32\<close>: it returns the low 32 bits exactly for the values that fit 32 bits and for
  the sign-extended ones, and refuses every other.
\<close>

theorem varint32_accepts:
  assumes "n < 2 ^ 63 \<or> 2 ^ 64 - 2 ^ 31 \<le> n \<and> n < 2 ^ 64"
  shows "fst (pb_decode_varint32 (buf_istream (leb128 n @ xs) ys e)) =
           (if n < 2 ^ 32 \<or> 2 ^ 63 \<le> n then Some (of_nat n) else None)"
proof -
  consider "n < 2 ^ 32" | "2 ^ 64 - 2 ^ 31 \<le> n" "n < 2 ^ 64" | "2 ^ 32 \<le> n" "n < 2 ^ 63"
    using assms by linarith
  then show ?thesis
    by cases (simp_all add: fst_varint32 varint32_small varint32_negative varint32_overflow)
qed

theorem varint32_accepts_witness:
  "fst (pb_decode_varint32 (buf_istream (leb128 (2 ^ 64 - 5) @ [7]) [] None :: unit pb_istream)) = Some (- 5)"
  using varint32_accepts [of "2 ^ 64 - 5" "[7]" "[]" None, where 'a = unit] by simp

text \<open>
  \<open>bitpos\<close> is 8 bits wide and not bounded in \<open>pb_decode_varint32_eof\<close>: 37 padding bytes wrap
  it back below 32, so that an overlong varint is accepted and its last group is placed at bit 3.
\<close>

theorem varint32_bitpos_wraps:
  assumes "x AND 0x80 = 0"
  shows "pb_decode_varint32 (buf_istream ((replicate 37 0x80 @ [x]) @ xs) ys e) =
    (Some (push_bit 3 (ucast (x AND 0x7F))), buf_istream xs ys e)"
proof -
  have r: "replicate 37 (0x80 :: byte) = 0x80 # replicate 36 0x80" "replicate 36 (0x80 :: byte) =
    [0x80, 0x80, 0x80, 0x80, 0x80, 0x80, 0x80, 0x80, 0x80, 0x80, 0x80, 0x80,
     0x80, 0x80, 0x80, 0x80, 0x80, 0x80, 0x80, 0x80, 0x80, 0x80, 0x80, 0x80,
     0x80, 0x80, 0x80, 0x80, 0x80, 0x80, 0x80, 0x80, 0x80, 0x80, 0x80, 0x80]"
    by (simp_all add: numeral_eq_Suc)
  show ?thesis unfolding r
    using assms by (simp add: pb_decode_varint32_def pb_decode_varint32_eof_def varint32_loop.simps)
qed

theorem varint32_bitpos_wraps_witness:
  "pb_decode_varint32 (buf_istream ((replicate 37 0x80 @ [1]) @ []) [] None :: unit pb_istream) = (Some 8, buf_istream [] [] None)"
  using varint32_bitpos_wraps [of 1 "[]" "[]" None, where 'a = unit] by simp

text \<open>
  A 64 bit value that is no sign extension of its low half can pass for one: only the groups
  0 and 127 and the last byte are checked, so this value is truncated instead of refused.
\<close>

theorem varint32_truncates: "pb_decode_varint32 (buf_istream (leb128 0x8000000080000000 @ xs) ys e) = (Some 0x80000000, buf_istream xs ys e)"
  by (simp add: leb128.simps pb_decode_varint32_def pb_decode_varint32_eof_def varint32_loop.simps)


end
