(* ===== verification/Pb_Wire.thy ===== *)
theory Pb_Wire
  imports Pb_Varint
begin

text \<open>
  The wire format of nanopb above varints: fixed width integers, tags, strings, skipping and
  length-delimited substreams, as \<open>pb_encode.c\<close> and \<open>pb_decode.c\<close> implement them.
\<close>

section \<open>Encoding\<close>

definition pb_encode_fixed32 :: "'s pb_ostream \<Rightarrow> u32 \<Rightarrow> bool \<times> 's pb_ostream" where
  "pb_encode_fixed32 s val =
     pb_write s
       [ucast (val AND 0xFF), ucast (drop_bit 8 val AND 0xFF),
        ucast (drop_bit 16 val AND 0xFF), ucast (drop_bit 24 val AND 0xFF)] 4"

definition pb_encode_fixed64 :: "'s pb_ostream \<Rightarrow> u64 \<Rightarrow> bool \<times> 's pb_ostream" where
  "pb_encode_fixed64 s val =
     pb_write s
       [ucast (val AND 0xFF), ucast (drop_bit 8 val AND 0xFF),
        ucast (drop_bit 16 val AND 0xFF), ucast (drop_bit 24 val AND 0xFF),
        ucast (drop_bit 32 val AND 0xFF), ucast (drop_bit 40 val AND 0xFF),
        ucast (drop_bit 48 val AND 0xFF), ucast (drop_bit 56 val AND 0xFF)] 8"

text \<open>Wire types are the integers of \<open>pb_wire_type_t\<close>; a tag read from the wire may hold others.\<close>

type_synonym pb_wire_type = nat

definition PB_WT_VARINT :: pb_wire_type where "PB_WT_VARINT = 0"
definition PB_WT_64BIT :: pb_wire_type where "PB_WT_64BIT = 1"
definition PB_WT_STRING :: pb_wire_type where "PB_WT_STRING = 2"
definition PB_WT_32BIT :: pb_wire_type where "PB_WT_32BIT = 5"

lemmas wire_type_defs = PB_WT_VARINT_def PB_WT_64BIT_def PB_WT_STRING_def PB_WT_32BIT_def

definition pb_encode_tag ::
  "'s pb_ostream \<Rightarrow> pb_wire_type \<Rightarrow> u32 \<Rightarrow> bool \<times> 's pb_ostream" where
  "pb_encode_tag s wiretype field_number =
     pb_encode_varint s (push_bit 3 (ucast field_number) OR of_nat wiretype)"

definition pb_encode_string :: "'s pb_ostream \<Rightarrow> bytes \<Rightarrow> bool \<times> 's pb_ostream" where
  "pb_encode_string s buffer =
     ostream_seq (\<lambda>s. pb_encode_varint s (of_nat (length buffer)))
                 (\<lambda>s. pb_write s buffer (length buffer)) s"

section \<open>Decoding\<close>

definition pb_decode_bool :: "'s pb_istream \<Rightarrow> bool option \<times> 's pb_istream" where
  "pb_decode_bool = istream_bind pb_decode_varint32 (\<lambda>v s. (Some (v \<noteq> 0), s))"

definition pb_decode_fixed32 :: "'s pb_istream \<Rightarrow> u32 option \<times> 's pb_istream" where
  "pb_decode_fixed32 =
     istream_bind (\<lambda>s. pb_read s True 4)
       (\<lambda>b s. (Some (ucast (b ! 0) OR push_bit 8 (ucast (b ! 1)) OR
                     push_bit 16 (ucast (b ! 2)) OR push_bit 24 (ucast (b ! 3))), s))"

definition pb_decode_fixed64 :: "'s pb_istream \<Rightarrow> u64 option \<times> 's pb_istream" where
  "pb_decode_fixed64 =
     istream_bind (\<lambda>s. pb_read s True 8)
       (\<lambda>b s. (Some (ucast (b ! 0) OR push_bit 8 (ucast (b ! 1)) OR
                     push_bit 16 (ucast (b ! 2)) OR push_bit 24 (ucast (b ! 3)) OR
                     push_bit 32 (ucast (b ! 4)) OR push_bit 40 (ucast (b ! 5)) OR
                     push_bit 48 (ucast (b ! 6)) OR push_bit 56 (ucast (b ! 7))), s))"

lemma pb_read_decreases:
  "pb_read s True (Suc n) = (Some bs, s') \<Longrightarrow> bytes_left s' < bytes_left s"
  by (auto simp: pb_read_def pb_read_into_def PB_RETURN_ERROR_def buf_read_def
      split: if_splits isource.splits read_result.splits prod.splits option.splits)

function pb_skip_varint :: "'s pb_istream \<Rightarrow> unit option \<times> 's pb_istream" where
  "pb_skip_varint s =
     (case pb_read s True (Suc 0) of
        (None, s') \<Rightarrow> (None, s')
      | (Some bs, s') \<Rightarrow> if (bs ! 0) AND 0x80 \<noteq> 0 then pb_skip_varint s' else (Some (), s'))"
  by pat_completeness auto
termination
  by (relation "measure bytes_left") (auto dest: pb_read_decreases [OF sym])

declare pb_skip_varint.simps [simp del]

definition pb_skip_string :: "'s pb_istream \<Rightarrow> unit option \<times> 's pb_istream" where
  "pb_skip_string =
     istream_bind pb_decode_varint32
       (\<lambda>len. istream_bind (\<lambda>s. pb_read s False (unat len)) (\<lambda>_ s. (Some (), s)))"

text \<open>\<open>pb_decode_tag\<close>: the wire type and the field number, the \<open>eof\<close> flag, the stream.\<close>

definition pb_decode_tag ::
  "'s pb_istream \<Rightarrow> (pb_wire_type \<times> u32) option \<times> bool \<times> 's pb_istream" where
  "pb_decode_tag s =
     (case pb_decode_varint32_eof s of
        (None, eof, s') \<Rightarrow> (None, eof, s')
      | (Some temp, eof, s') \<Rightarrow>
          if temp = 0 then (None, True, s')
          else (Some (unat (temp AND 7), drop_bit 3 temp), eof, s'))"

definition pb_skip_field :: "'s pb_istream \<Rightarrow> pb_wire_type \<Rightarrow> unit option \<times> 's pb_istream" where
  "pb_skip_field s wire_type =
     (if wire_type = PB_WT_VARINT then pb_skip_varint s
      else if wire_type = PB_WT_64BIT then
        istream_bind (\<lambda>s. pb_read s False 8) (\<lambda>_ s. (Some (), s)) s
      else if wire_type = PB_WT_STRING then pb_skip_string s
      else if wire_type = PB_WT_32BIT then
        istream_bind (\<lambda>s. pb_read s False 4) (\<lambda>_ s. (Some (), s)) s
      else PB_RETURN_ERROR s ''invalid wire_type'')"

text \<open>\<open>read_raw_value\<close>; the bytes stored in \<open>buf\<close> also give the size it returns.\<close>

fun raw_varint_loop :: "'s pb_istream \<Rightarrow> nat \<Rightarrow> bytes \<Rightarrow> bytes option \<times> 's pb_istream" where
  "raw_varint_loop s 0 buf = (None, s)"
| "raw_varint_loop s (Suc room) buf =
     (case pb_read s True 1 of
        (None, s') \<Rightarrow> (None, s')
      | (Some bs, s') \<Rightarrow>
          if (bs ! 0) AND 0x80 \<noteq> 0 then raw_varint_loop s' room (buf @ [bs ! 0])
          else (Some (buf @ [bs ! 0]), s'))"

definition read_raw_value ::
  "'s pb_istream \<Rightarrow> pb_wire_type \<Rightarrow> nat \<Rightarrow> bytes option \<times> 's pb_istream" where
  "read_raw_value s wire_type room =
     (if wire_type = PB_WT_VARINT then raw_varint_loop s room []
      else if wire_type = PB_WT_64BIT then pb_read s True 8
      else if wire_type = PB_WT_32BIT then pb_read s True 4
      else PB_RETURN_ERROR s ''invalid wire_type'')"

text \<open>\<open>pb_make_string_substream\<close> gives the substream and leaves the parent behind it.\<close>

definition pb_make_string_substream ::
  "'s pb_istream \<Rightarrow> 's pb_istream option \<times> 's pb_istream" where
  "pb_make_string_substream =
     istream_bind pb_decode_varint32
       (\<lambda>size s. if bytes_left s < unat size then PB_RETURN_ERROR s ''parent stream too short''
                 else (Some (s\<lparr>bytes_left := unat size\<rparr>),
                       s\<lparr>bytes_left := bytes_left s - unat size\<rparr>))"

definition pb_close_string_substream ::
  "'s pb_istream \<Rightarrow> 's pb_istream \<Rightarrow> unit option \<times> 's pb_istream" where
  "pb_close_string_substream s substream =
     (let (r, sub') =
        (if bytes_left substream \<noteq> 0 then pb_read substream False (bytes_left substream)
         else (Some [], substream))
      in case r of
           None \<Rightarrow> (None, s)
         | Some _ \<Rightarrow> (Some (), s\<lparr>isource := isource sub', ierrmsg := ierrmsg sub'\<rparr>))"

section \<open>What the encoders emit\<close>

lemma emitter_string:
  assumes "length bs < SIZE_LIMIT"
  shows "emitter (\<lambda>s. pb_encode_string s bs) (leb128 (length bs) @ bs)"
proof -
  have "unat (of_nat (length bs) :: u64) = length bs"
    using assms by (simp add: unat_of_nat SIZE_LIMIT_def)
  with emitter_seq [OF emitter_varint [of "of_nat (length bs)"] emitter_write [OF assms]]
  show ?thesis by (simp add: pb_encode_string_def [abs_def])
qed

lemma pb_encode_fixed32_le: "pb_encode_fixed32 s val = pb_write s (le_bytes 4 val) (length (le_bytes 4 val))"
  by (simp add: pb_encode_fixed32_def ucast_and_FF numeral_eq_Suc)

lemma pb_encode_fixed64_le: "pb_encode_fixed64 s val = pb_write s (le_bytes 8 val) (length (le_bytes 8 val))"
  by (simp add: pb_encode_fixed64_def ucast_and_FF numeral_eq_Suc)

lemma pb_decode_fixed32_buf:
  "length bs = 4 \<Longrightarrow> pb_decode_fixed32 (buf_istream (bs @ xs) ys e) = (Some (le_word bs), buf_istream xs ys e)"
  by (simp add: pb_decode_fixed32_def istream_bind_def pb_read_buf le_word_4)

lemma pb_decode_fixed64_buf:
  "length bs = 8 \<Longrightarrow> pb_decode_fixed64 (buf_istream (bs @ xs) ys e) = (Some (le_word bs), buf_istream xs ys e)"
  by (simp add: pb_decode_fixed64_def istream_bind_def pb_read_buf le_word_8)

interpretation fixed32_out: emitter "\<lambda>s. pb_encode_fixed32 s v" "le_bytes 4 v" for v
  unfolding pb_encode_fixed32_le by (rule emitter_write) (simp add: SIZE_LIMIT_def)

interpretation fixed64_out: emitter "\<lambda>s. pb_encode_fixed64 s v" "le_bytes 8 v" for v
  unfolding pb_encode_fixed64_le by (rule emitter_write) (simp add: SIZE_LIMIT_def)

lemma tag_value:
  assumes "wt < 8" and "unat fn < 2 ^ 29"
  shows "unat (push_bit 3 (ucast fn) OR of_nat wt :: u64) = 8 * unat (fn :: u32) + wt"
proof -
  have "push_bit 3 (ucast fn) OR of_nat wt = (of_nat wt + push_bit 3 (ucast fn) :: u64)"
    using word_or_push_bit [of "of_nat wt :: u64" 3 "ucast fn"] assms(1)
    by (simp add: unat_of_nat or.commute)
  then show ?thesis using assms
    by (simp add: unat_word_ariths unat_push_bit unat_ucast unat_of_nat)
qed

lemma pb_decode_tag_leb128:
  assumes "n < 2 ^ 32" and "0 < n"
  shows "pb_decode_tag (buf_istream (leb128 n @ xs) ys e) = (Some (n mod 8, of_nat (n div 8)), False, buf_istream xs ys e)"
proof -
  have "(of_nat n :: u32) \<noteq> 0" using assms by (simp add: word_unat_eq_iff unat_of_nat)
  moreover have "unat (of_nat n AND 7 :: u32) = n mod 8"
    using assms by (simp add: word_and_mask_numeral unat_take_bit unat_of_nat)
  moreover have "drop_bit 3 (of_nat n :: u32) = of_nat (n div 8)"
    using assms by (simp add: word_unat_eq_iff unat_drop_bit unat_of_nat)
  ultimately show ?thesis
    by (simp add: pb_decode_tag_def varint32_small [OF assms(1)])
qed

lemma pb_skip_varint_leb128:
  "pb_skip_varint (buf_istream (leb128 n @ xs) ys e) = (Some (), buf_istream xs ys e)"
proof (induction n rule: leb128.induct)
  case (1 n)
  show ?case
  proof (cases "n < 128")
    case True
    then have "unat (of_nat n :: byte) = n" by (simp add: unat_of_nat)
    with True show ?thesis
      by (subst pb_skip_varint.simps) (simp add: pb_read_buf leb128_last word_and_80)
  next
    case False
    have "unat (of_nat (n mod 128 + 128) :: byte) = n mod 128 + 128"
      by (rule unat_leb128_byte) simp
    with False "1.IH" show ?thesis
      by (subst pb_skip_varint.simps)
         (simp add: pb_read_buf leb128_step word_and_80 del: of_nat_add)
  qed
qed

lemma pb_skip_string_buf:
  assumes "length bs < 2 ^ 32"
  shows "pb_skip_string (buf_istream (leb128 (length bs) @ bs @ xs) ys e) = (Some (), buf_istream xs ys e)"
  using assms by (simp add: pb_skip_string_def istream_bind_def varint32_leb128 pb_read_buf unat_of_nat)



section \<open>Readers of the wire format\<close>

interpretation decode_bool: bounded_reader pb_decode_bool
  unfolding pb_decode_bool_def
  by (intro bounded_reader_bind varint32.bounded_reader_axioms bounded_reader_return)

interpretation fixed32: bounded_reader pb_decode_fixed32
  unfolding pb_decode_fixed32_def
  by (intro bounded_reader_bind read.bounded_reader_axioms bounded_reader_return)

interpretation fixed64: bounded_reader pb_decode_fixed64
  unfolding pb_decode_fixed64_def
  by (intro bounded_reader_bind read.bounded_reader_axioms bounded_reader_return)

interpretation skip_varint: bounded_reader pb_skip_varint
proof (rule bounded_readerI)
  fix xs e
  show "bounded_at (\<lambda>ys. pb_skip_varint (buf_istream xs ys e)) xs"
  proof (induction xs arbitrary: e)
    case Nil
    show ?case by (subst pb_skip_varint.simps) (simp add: pb_read_buf bounded_intros)
  next
    case (Cons b xs)
    have eq: "pb_skip_varint (buf_istream (b # xs) ys e) =
        (if b AND 0x80 \<noteq> 0 then pb_skip_varint (buf_istream xs ys e)
         else (Some (), buf_istream xs ys e))" for ys
      by (subst pb_skip_varint.simps) (simp add: pb_read_buf)
    show ?case unfolding eq by (intro bounded_intros bounded_at_Cons Cons.IH)
  qed
qed

interpretation skip_string: bounded_reader pb_skip_string
  unfolding pb_skip_string_def
  by (intro bounded_reader_bind varint32.bounded_reader_axioms read.bounded_reader_axioms
      bounded_reader_return)

interpretation skip_field: bounded_reader "\<lambda>s. pb_skip_field s wt" for wt
  unfolding pb_skip_field_def
  by (intro bounded_reader_if bounded_reader_bind skip_varint.bounded_reader_axioms
      skip_string.bounded_reader_axioms read.bounded_reader_axioms bounded_reader_return
      bounded_reader_error)

interpretation raw_value: bounded_reader "\<lambda>s. read_raw_value s wt room" for wt room
proof -
  have loop: "bounded_reader (\<lambda>s. raw_varint_loop s n buf)" for n buf
  proof (induction n arbitrary: buf)
    case 0
    show ?case by (simp add: bounded_reader_return)
  next
    case (Suc n)
    have eq: "(\<lambda>s. raw_varint_loop s (Suc n) buf) = istream_bind (\<lambda>s. pb_read s True 1)
        (\<lambda>bs. if (bs ! 0) AND 0x80 \<noteq> 0 then (\<lambda>s. raw_varint_loop s n (buf @ [bs ! 0]))
              else (\<lambda>s. (Some (buf @ [bs ! 0]), s)))"
      by (rule ext) (simp add: istream_bind_def split: prod.splits option.splits)
    show ?case
      unfolding eq
      by (intro bounded_reader_bind read.bounded_reader_axioms)
         (simp add: Suc.IH bounded_reader_return)
  qed
  show "bounded_reader (\<lambda>s. read_raw_value s wt room)"
    unfolding read_raw_value_def
    by (intro bounded_reader_if loop read.bounded_reader_axioms bounded_reader_error)
qed

section \<open>Length-delimited substreams\<close>

text \<open>
  The parent after \<open>pb_make_string_substream\<close>: its pointer is still before the delimited
  bytes, its \<open>bytes_left\<close> already excludes them.
\<close>

definition parent_of :: "bytes \<Rightarrow> bytes \<Rightarrow> bytes \<Rightarrow> string option \<Rightarrow> 's pb_istream" where
  "parent_of bs xs ys e =
     \<lparr>isource = Buf_read (bs @ xs @ ys), bytes_left = length xs, ierrmsg = e\<rparr>"

lemma make_substream_buf:
  assumes "length bs < 2 ^ 32"
  shows "pb_make_string_substream (buf_istream (leb128 (length bs) @ bs @ xs) ys e) =
     (Some (buf_istream bs (xs @ ys) e), parent_of bs xs ys e)"
  using assms
  by (simp add: pb_make_string_substream_def istream_bind_def varint32_leb128 unat_of_nat)
     (simp add: buf_istream_def parent_of_def)

lemma make_substream_short:
  assumes "length xs < n" and "n < 2 ^ 32"
  shows "pb_make_string_substream (buf_istream (leb128 n @ xs) ys e) =
     (None, buf_istream xs ys (first_error e ''parent stream too short''))"
  using assms
  by (simp add: pb_make_string_substream_def istream_bind_def varint32_leb128 unat_of_nat)

lemma close_substream_buf:
  "pb_close_string_substream (parent_of bs xs ys e) (buf_istream zs (xs @ ys) e') =
     (Some (), buf_istream xs ys e')"
  by (simp add: pb_close_string_substream_def pb_read_buf parent_of_def)

text \<open>
  Whatever a reader does inside the substream, closing it leaves the parent exactly behind
  the delimited bytes.
\<close>

lemma substream_framing:
  assumes "bounded_reader body" and "length bs < 2 ^ 32"
    and "pb_make_string_substream (buf_istream (leb128 (length bs) @ bs @ xs) ys e) = (Some sub, par)"
  shows "\<exists>e'. pb_close_string_substream par (snd (body sub)) = (Some (), buf_istream xs ys e')"
proof -
  from assms(2,3) have sub: "sub = buf_istream bs (xs @ ys) e" "par = parent_of bs xs ys e"
    by (simp_all add: make_substream_buf)
  obtain k e' where "snd (body sub) = buf_istream (drop k bs) (xs @ ys) e'"
    unfolding sub by (rule bounded_reader.obtain_suffix [OF assms(1)])
  then show ?thesis by (auto simp: sub close_substream_buf)
qed

section \<open>Properties\<close>

text \<open>
  a tag written by \<open>pb_encode_tag\<close> for a field number below \<open>2 ^ 29\<close> is read back by
  \<open>pb_decode_tag\<close>; no other tag than the terminator 0 ends the message.
\<close>

theorem tag_roundtrip:
  assumes "wt < 8" and "unat fn < 2 ^ 29" and "0 < unat fn \<or> 0 < wt"
  shows "\<exists>bs. pb_encode_tag (pb_ostream_from_buffer 5) wt fn = (True, buf_ostream [] bs 5 None) \<and>
    pb_decode_tag (buf_istream (bs @ xs) ys e) = (Some (wt, fn), False, buf_istream xs ys e)"
proof (intro exI conjI)
  let ?n = "8 * unat fn + wt"
  have n: "?n < 2 ^ 32" "0 < ?n" using assms by auto
  have "length (leb128 ?n) \<le> 5" using length_leb128 [of ?n 4] n(1) by simp
  then show "pb_encode_tag (pb_ostream_from_buffer 5) wt fn = (True, buf_ostream [] (leb128 ?n) 5 None)"
    unfolding pb_encode_tag_def tag_value [OF assms(1,2), symmetric]
    by (intro emitter_into_buffer [OF emitter_varint]) (simp_all add: SIZE_LIMIT_def)
  show "pb_decode_tag (buf_istream (leb128 ?n @ xs) ys e) = (Some (wt, fn), False, buf_istream xs ys e)"
    using assms(1) by (simp add: pb_decode_tag_leb128 [OF n])
qed

theorem tag_roundtrip_witness:
  "\<exists>bs. pb_encode_tag (pb_ostream_from_buffer 5) 2 (17 :: u32) = (True, buf_ostream [] bs 5 None) \<and>
    pb_decode_tag (buf_istream (bs @ [3]) [] None :: unit pb_istream) = (Some (2, 17), False, buf_istream [3] [] None)"
  using tag_roundtrip [of 2 17 "[3]" "[]" None] by simp

text \<open>The payloads of the four wire types and the encoder calls that write them.\<close>

datatype wire_value = W_varint u64 | W_64bit u64 | W_string bytes | W_32bit u32

fun wire_type_of :: "wire_value \<Rightarrow> pb_wire_type" where
  "wire_type_of (W_varint _) = PB_WT_VARINT"
| "wire_type_of (W_64bit _) = PB_WT_64BIT"
| "wire_type_of (W_string _) = PB_WT_STRING"
| "wire_type_of (W_32bit _) = PB_WT_32BIT"

fun wire_encode :: "'s pb_ostream \<Rightarrow> wire_value \<Rightarrow> bool \<times> 's pb_ostream" where
  "wire_encode s (W_varint v) = pb_encode_varint s v"
| "wire_encode s (W_64bit v) = pb_encode_fixed64 s v"
| "wire_encode s (W_string bs) = pb_encode_string s bs"
| "wire_encode s (W_32bit v) = pb_encode_fixed32 s v"

fun wire_bytes :: "wire_value \<Rightarrow> bytes" where
  "wire_bytes (W_varint v) = leb128 (unat v)"
| "wire_bytes (W_64bit v) = le_bytes 8 v"
| "wire_bytes (W_string bs) = leb128 (length bs) @ bs"
| "wire_bytes (W_32bit v) = le_bytes 4 v"

fun wire_ok :: "wire_value \<Rightarrow> bool" where
  "wire_ok (W_string bs) = (length bs < 2 ^ 32)"
| "wire_ok _ = True"

lemma wire_encode_emitter: "wire_ok w \<Longrightarrow> emitter (\<lambda>s. wire_encode s w) (wire_bytes w)"
  by (cases w) (simp_all add: varint_out.emitter_axioms fixed32_out.emitter_axioms
      fixed64_out.emitter_axioms emitter_string SIZE_LIMIT_def)

lemma skip_wire_bytes:
  assumes "wire_ok w"
  shows "pb_skip_field (buf_istream (wire_bytes w @ xs) ys e) (wire_type_of w) = (Some (), buf_istream xs ys e)"
  using assms
  by (cases w) (simp_all add: pb_skip_field_def wire_type_defs pb_skip_varint_leb128
      pb_skip_string_buf istream_bind_def pb_read_buf)

text \<open>
  C20: a field the decoder does not know is skipped exactly: after any payload written by the
  encoder, \<open>pb_skip_field\<close> stops at the first byte behind it.
\<close>

theorem skip_field_exact:
  assumes "wire_ok w" and "length (wire_bytes w) \<le> m" and "m < SIZE_LIMIT"
  shows "\<exists>bs. wire_encode (pb_ostream_from_buffer m) w = (True, buf_ostream [] bs m None) \<and>
    pb_skip_field (buf_istream (bs @ xs) ys e) (wire_type_of w) = (Some (), buf_istream xs ys e)"
  using emitter_into_buffer [OF wire_encode_emitter [OF assms(1)] assms(2,3)]
    skip_wire_bytes [OF assms(1)]
  by blast

theorem skip_field_exact_witness:
  "\<exists>bs. wire_encode (pb_ostream_from_buffer 4) (W_string [1, 2, 3]) = (True, buf_ostream [] bs 4 None) \<and>
    pb_skip_field (buf_istream (bs @ [9]) [8] None :: unit pb_istream) (wire_type_of (W_string [1, 2, 3]))
      = (Some (), buf_istream [9] [8] None)"
  using skip_field_exact [of "W_string [1, 2, 3]" 4 "[9]" "[8]" None]
  by (simp add: leb128.simps SIZE_LIMIT_def)

text \<open>
  the sizing pass and the writing pass agree: a sizing stream counts exactly the bytes that a
  buffer stream receives, and a buffer that is too small is refused without being overrun.
\<close>

theorem sizing_agrees:
  assumes "wire_ok w" and "m < SIZE_LIMIT"
  shows "bytes_written (snd (wire_encode (PB_OSTREAM_SIZING :: 's pb_ostream) w)) = length (wire_bytes w) mod SIZE_LIMIT \<and>
    (fst (wire_encode (pb_ostream_from_buffer m :: 's pb_ostream) w) \<longleftrightarrow> length (wire_bytes w) \<le> m) \<and>
    bytes_written (snd (wire_encode (pb_ostream_from_buffer m :: 's pb_ostream) w)) \<le> m"
  by (simp add: emitter_sizing [OF wire_encode_emitter [OF assms(1)]]
      emitter_buffer_fits [OF wire_encode_emitter [OF assms(1)] assms(2)]
      emitter_buffer_bound [OF wire_encode_emitter [OF assms(1)] assms(2)])

theorem sizing_agrees_witness:
  "bytes_written (snd (wire_encode (PB_OSTREAM_SIZING :: unit pb_ostream) (W_string [5, 6]))) = 3 \<and>
   \<not> fst (wire_encode (pb_ostream_from_buffer 2 :: unit pb_ostream) (W_string [5, 6])) \<and>
   bytes_written (snd (wire_encode (pb_ostream_from_buffer 2 :: unit pb_ostream) (W_string [5, 6]))) \<le> 2"
  using sizing_agrees [of "W_string [5, 6]" 2, where 's = unit] by (simp add: leb128.simps SIZE_LIMIT_def)

text \<open>
  no reader of the wire format depends on the bytes behind its stream's limit, and each one
  leaves a stream over a suffix of what it was given: it cannot read past \<open>bytes_left\<close>.
\<close>

theorem skip_field_bounded:
  "fst (pb_skip_field (buf_istream xs ys e :: 's pb_istream) wt)
     = fst (pb_skip_field (buf_istream xs zs e :: 's pb_istream) wt) \<and>
   (\<exists>k e'. snd (pb_skip_field (buf_istream xs ys e :: 's pb_istream) wt)
            = buf_istream (drop k xs) ys e')"
  using skip_field.no_overread [of xs ys e wt zs] by (auto intro: skip_field.obtain_suffix)

text \<open>
  C21: reading a length-delimited field in a substream frames the parent: whatever a bounded reader
  consumes inside, closing the substream leaves the parent exactly behind the delimited bytes.
\<close>

theorem substream_frames_parent:
  assumes "bounded_reader body" and "length bs < 2 ^ 32"
  shows "\<exists>sub par e'.
    pb_make_string_substream (buf_istream (leb128 (length bs) @ bs @ xs) ys e) = (Some sub, par) \<and>
    bytes_left sub = length bs \<and>
    pb_close_string_substream par (snd (body sub)) = (Some (), buf_istream xs ys e')"
  using substream_framing [OF assms] make_substream_buf [OF assms(2)] buf_istream_sel(2) by metis

theorem substream_frames_parent_witness:
  "\<exists>sub par e'.
    pb_make_string_substream (buf_istream (leb128 (length [1, 2, 3 :: byte]) @ [1, 2, 3] @ [4]) [5] None) = (Some sub, par) \<and>
    bytes_left sub = length [1, 2, 3 :: byte] \<and>
    pb_close_string_substream par (snd (pb_decode_varint sub)) = (Some (), buf_istream [4] [5] e')"
  using substream_frames_parent [OF varint.bounded_reader_axioms, of "[1, 2, 3]" "[4]" "[5]" None] by simp
end
