(* ===== verification/Pb_Fields.thy ===== *)
theory Pb_Fields
  imports Pb_Wire
begin

text \<open>
  Message descriptors of nanopb: \<open>pb_field_t\<close> and the type macros of \<open>pb.h\<close>, and the iterator over
  the fields of a message, \<open>pb_common.c\<close>. The build sets \<open>PB_FIELD_32BIT\<close> and
  \<open>PB_NO_PACKED_STRUCTS\<close>, so \<open>pb_size_t\<close> is \<open>uint32_t\<close>.
\<close>

unbundle bit_operations_syntax

section \<open>Descriptors\<close>

definition PB_LTYPE_BOOL :: byte where "PB_LTYPE_BOOL = 0x00"
definition PB_LTYPE_VARINT :: byte where "PB_LTYPE_VARINT = 0x01"
definition PB_LTYPE_UVARINT :: byte where "PB_LTYPE_UVARINT = 0x02"
definition PB_LTYPE_SVARINT :: byte where "PB_LTYPE_SVARINT = 0x03"
definition PB_LTYPE_FIXED32 :: byte where "PB_LTYPE_FIXED32 = 0x04"
definition PB_LTYPE_FIXED64 :: byte where "PB_LTYPE_FIXED64 = 0x05"
definition PB_LTYPE_LAST_PACKABLE :: byte where "PB_LTYPE_LAST_PACKABLE = 0x05"
definition PB_LTYPE_BYTES :: byte where "PB_LTYPE_BYTES = 0x06"
definition PB_LTYPE_STRING :: byte where "PB_LTYPE_STRING = 0x07"
definition PB_LTYPE_SUBMESSAGE :: byte where "PB_LTYPE_SUBMESSAGE = 0x08"
definition PB_LTYPE_EXTENSION :: byte where "PB_LTYPE_EXTENSION = 0x09"
definition PB_LTYPE_FIXED_LENGTH_BYTES :: byte where "PB_LTYPE_FIXED_LENGTH_BYTES = 0x0A"

definition PB_HTYPE_REQUIRED :: byte where "PB_HTYPE_REQUIRED = 0x00"
definition PB_HTYPE_OPTIONAL :: byte where "PB_HTYPE_OPTIONAL = 0x10"
definition PB_HTYPE_REPEATED :: byte where "PB_HTYPE_REPEATED = 0x20"
definition PB_HTYPE_ONEOF :: byte where "PB_HTYPE_ONEOF = 0x30"

definition PB_ATYPE_STATIC :: byte where "PB_ATYPE_STATIC = 0x00"
definition PB_ATYPE_POINTER :: byte where "PB_ATYPE_POINTER = 0x80"
definition PB_ATYPE_CALLBACK :: byte where "PB_ATYPE_CALLBACK = 0x40"

definition PB_ATYPE :: "byte \<Rightarrow> byte" where "PB_ATYPE x = x AND 0xC0"
definition PB_HTYPE :: "byte \<Rightarrow> byte" where "PB_HTYPE x = x AND 0x30"
definition PB_LTYPE :: "byte \<Rightarrow> byte" where "PB_LTYPE x = x AND 0x0F"

lemmas pb_types =
  PB_LTYPE_BOOL_def PB_LTYPE_VARINT_def PB_LTYPE_UVARINT_def PB_LTYPE_SVARINT_def PB_LTYPE_FIXED32_def
  PB_LTYPE_FIXED64_def PB_LTYPE_LAST_PACKABLE_def PB_LTYPE_BYTES_def PB_LTYPE_STRING_def PB_LTYPE_SUBMESSAGE_def
  PB_LTYPE_EXTENSION_def PB_LTYPE_FIXED_LENGTH_BYTES_def PB_HTYPE_REQUIRED_def PB_HTYPE_OPTIONAL_def
  PB_HTYPE_REPEATED_def PB_HTYPE_ONEOF_def PB_ATYPE_STATIC_def PB_ATYPE_POINTER_def PB_ATYPE_CALLBACK_def
  PB_ATYPE_def PB_HTYPE_def PB_LTYPE_def

definition PB_SIZE_MAX :: nat where "PB_SIZE_MAX = 2 ^ 32 - 1"

text \<open>
  The pointer of a descriptor is null, leads to the descriptors of a submessage or to the bytes of
  a default value. Descriptors refer to each other, so a message type is a number and a table
  gives its fields.
\<close>

datatype field_ptr = Null | Fields nat | Default bytes

record pb_field =
  f_tag :: u32
  f_type :: byte
  data_offset :: nat
  size_offset :: int
  data_size :: nat
  array_size :: nat
  f_ptr :: field_ptr

definition PB_LAST_FIELD :: pb_field where
  "PB_LAST_FIELD = \<lparr>f_tag = 0, f_type = 0, data_offset = 0, size_offset = 0, data_size = 0, array_size = 0, f_ptr = Null\<rparr>"

section \<open>The iterator\<close>

text \<open>
  Addresses are numbers, 0 is the null pointer. \<open>pSize\<close> points into memory, or to the local counter
  \<open>fixed_count_size\<close> of the decoder.
\<close>

datatype place = At nat | Fixed_count

record pb_field_iter =
  start :: "pb_field list"
  pos :: nat
  required_field_index :: nat
  dest_struct :: nat
  pData :: nat
  pSize :: place

definition field_at :: "pb_field_iter \<Rightarrow> pb_field" where
  "field_at iter = start iter ! pos iter"

definition ptr_offset :: "nat \<Rightarrow> int \<Rightarrow> nat" where
  "ptr_offset p d = nat (int p + d)"

definition pb_field_iter_begin :: "pb_field list \<Rightarrow> nat \<Rightarrow> bool \<times> pb_field_iter" where
  "pb_field_iter_begin fs dest =
     (let iter = \<lparr>start = fs, pos = 0, required_field_index = 0, dest_struct = dest,
            pData = (if dest = 0 then 0 else dest + data_offset (fs ! 0)),
            pSize = At (if dest = 0 then 0 else ptr_offset (dest + data_offset (fs ! 0)) (size_offset (fs ! 0)))\<rparr>
      in (f_tag (field_at iter) \<noteq> 0, iter))"

definition pb_field_iter_next :: "pb_field_iter \<Rightarrow> bool \<times> pb_field_iter" where
  "pb_field_iter_next iter =
     (let prev_field = field_at iter in
      if f_tag prev_field = 0 then (False, iter)
      else
        let iter = iter\<lparr>pos := pos iter + 1\<rparr>; field = field_at iter in
        if f_tag field = 0 then (False, snd (pb_field_iter_begin (start iter) (dest_struct iter)))
        else
          let prev_size = data_size prev_field in
          if PB_HTYPE (f_type prev_field) = PB_HTYPE_ONEOF \<and> PB_HTYPE (f_type field) = PB_HTYPE_ONEOF \<and>
             data_offset field = PB_SIZE_MAX
          then (True, iter)
          else
            let prev_size =
                  (if PB_ATYPE (f_type prev_field) = PB_ATYPE_STATIC \<and> PB_HTYPE (f_type prev_field) = PB_HTYPE_REPEATED
                   then prev_size * array_size prev_field
                   else if PB_ATYPE (f_type prev_field) = PB_ATYPE_POINTER then 8 else prev_size);
                iter = (if PB_HTYPE (f_type prev_field) = PB_HTYPE_REQUIRED
                        then iter\<lparr>required_field_index := required_field_index iter + 1\<rparr> else iter);
                data = pData iter + prev_size + data_offset field
            in (True, iter\<lparr>pData := data, pSize := At (ptr_offset data (size_offset field))\<rparr>))"

text \<open>
  The loop of \<open>pb_field_iter_find\<close>; \<open>first\<close> is the position the search started at. It is partial:
  \<open>None\<close> would be a search that never ends.
\<close>

partial_function (option) iter_find_loop :: "nat \<Rightarrow> pb_field_iter \<Rightarrow> u32 \<Rightarrow> (bool \<times> pb_field_iter) option" where
  "iter_find_loop first iter tag =
     (if f_tag (field_at iter) = tag \<and> PB_LTYPE (f_type (field_at iter)) \<noteq> PB_LTYPE_EXTENSION then Some (True, iter)
      else
        let iter = snd (pb_field_iter_next iter) in
        if pos iter \<noteq> first then iter_find_loop first iter tag else Some (False, iter))"

declare iter_find_loop.simps [code]

definition pb_field_iter_find :: "pb_field_iter \<Rightarrow> u32 \<Rightarrow> (bool \<times> pb_field_iter) option" where
  "pb_field_iter_find iter tag = iter_find_loop (pos iter) iter tag"

section \<open>The layout the iterator computes\<close>

text \<open>A descriptor table: fields with tags, closed by \<open>PB_LAST_FIELD\<close>.\<close>

definition table_ok :: "pb_field list \<Rightarrow> bool" where
  "table_ok fs \<longleftrightarrow> fs \<noteq> [] \<and> f_tag (List.last fs) = 0 \<and> (\<forall>f \<in> set (butlast fs). f_tag f \<noteq> 0)"

definition field_count :: "pb_field list \<Rightarrow> nat" where
  "field_count fs = length fs - 1"

text \<open>What a field takes in the structure, and where it and its counter are.\<close>

definition field_span :: "pb_field \<Rightarrow> nat" where
  "field_span f =
     (if PB_ATYPE (f_type f) = PB_ATYPE_STATIC \<and> PB_HTYPE (f_type f) = PB_HTYPE_REPEATED then data_size f * array_size f
      else if PB_ATYPE (f_type f) = PB_ATYPE_POINTER then 8 else data_size f)"

definition same_union :: "pb_field list \<Rightarrow> nat \<Rightarrow> bool" where
  "same_union fs i \<longleftrightarrow> PB_HTYPE (f_type (fs ! i)) = PB_HTYPE_ONEOF \<and>
     PB_HTYPE (f_type (fs ! Suc i)) = PB_HTYPE_ONEOF \<and> data_offset (fs ! Suc i) = PB_SIZE_MAX"

fun field_addr :: "pb_field list \<Rightarrow> nat \<Rightarrow> nat \<Rightarrow> nat" where
  "field_addr fs dest 0 = dest + data_offset (fs ! 0)"
| "field_addr fs dest (Suc i) =
     (if same_union fs i then field_addr fs dest i
      else field_addr fs dest i + field_span (fs ! i) + data_offset (fs ! Suc i))"

fun counter_addr :: "pb_field list \<Rightarrow> nat \<Rightarrow> nat \<Rightarrow> nat" where
  "counter_addr fs dest 0 = ptr_offset (field_addr fs dest 0) (size_offset (fs ! 0))"
| "counter_addr fs dest (Suc i) =
     (if same_union fs i then counter_addr fs dest i
      else ptr_offset (field_addr fs dest (Suc i)) (size_offset (fs ! Suc i)))"

definition required_before :: "pb_field list \<Rightarrow> nat \<Rightarrow> nat" where
  "required_before fs i = length (filter (\<lambda>f. PB_HTYPE (f_type f) = PB_HTYPE_REQUIRED) (take i fs))"

definition iter_at :: "pb_field list \<Rightarrow> nat \<Rightarrow> nat \<Rightarrow> pb_field_iter" where
  "iter_at fs dest i =
     \<lparr>start = fs, pos = i, required_field_index = required_before fs i, dest_struct = dest,
      pData = field_addr fs dest i, pSize = At (counter_addr fs dest i)\<rparr>"

lemma iter_at_sel [simp]:
  "start (iter_at fs dest i) = fs" "pos (iter_at fs dest i) = i" "dest_struct (iter_at fs dest i) = dest"
  "pData (iter_at fs dest i) = field_addr fs dest i" "pSize (iter_at fs dest i) = At (counter_addr fs dest i)"
  "required_field_index (iter_at fs dest i) = required_before fs i"
  "field_at (iter_at fs dest i) = fs ! i"
  by (simp_all add: iter_at_def field_at_def)

lemma table_tags:
  assumes "table_ok fs"
  shows "f_tag (fs ! field_count fs) = 0" and "i < field_count fs \<Longrightarrow> f_tag (fs ! i) \<noteq> 0"
    and "field_count fs < length fs"
proof -
  have l: "0 < length fs" using assms by (simp add: table_ok_def)
  then show "f_tag (fs ! field_count fs) = 0" "field_count fs < length fs"
    using assms by (simp_all add: table_ok_def field_count_def last_conv_nth)
  show "f_tag (fs ! i) \<noteq> 0" if "i < field_count fs"
  proof -
    have "i < length (butlast fs)" using that by (simp add: field_count_def)
    from nth_mem [OF this] nth_butlast [OF this] show ?thesis using assms unfolding table_ok_def by metis
  qed
qed

lemma iter_begin: "dest \<noteq> 0 \<Longrightarrow> pb_field_iter_begin fs dest = (f_tag (fs ! 0) \<noteq> 0, iter_at fs dest 0)"
  by (simp add: pb_field_iter_begin_def iter_at_def required_before_def field_at_def Let_def)

lemma required_before_Suc:
  "i < length fs \<Longrightarrow> required_before fs (Suc i) =
    required_before fs i + (if PB_HTYPE (f_type (fs ! i)) = PB_HTYPE_REQUIRED then 1 else 0)"
  by (simp add: required_before_def take_Suc_conv_app_nth)

lemma iter_next:
  assumes "table_ok fs" and "i < field_count fs" and "dest \<noteq> 0"
  shows "pb_field_iter_next (iter_at fs dest i) =
    (if Suc i < field_count fs then (True, iter_at fs dest (Suc i)) else (False, iter_at fs dest 0))"
proof -
  have i: "i < length fs" "Suc i < length fs" using assms(2) table_tags(3) [OF assms(1)] by simp_all
  have tag: "f_tag (fs ! i) \<noteq> 0" using table_tags(2) [OF assms(1,2)] .
  have at: "field_at (iter_at fs dest i\<lparr>pos := i + 1\<rparr>) = fs ! Suc i" by (simp add: field_at_def iter_at_def)
  show ?thesis
  proof (cases "Suc i < field_count fs")
    case False
    then have "Suc i = field_count fs" using assms(2) by simp
    then have "f_tag (fs ! Suc i) = 0" using table_tags(1) [OF assms(1)] by simp
    then show ?thesis using False tag iter_begin [OF assms(3), of fs]
      by (simp add: pb_field_iter_next_def Let_def at [simplified] iter_begin)
  next
    case True
    then have tag': "f_tag (fs ! Suc i) \<noteq> 0" by (rule table_tags(2) [OF assms(1)])
    note req = required_before_Suc [OF i(1)]
    show ?thesis
    proof (cases "same_union fs i")
      case u: True
      then have "PB_HTYPE (f_type (fs ! i)) \<noteq> PB_HTYPE_REQUIRED" by (simp add: same_union_def PB_HTYPE_ONEOF_def PB_HTYPE_REQUIRED_def)
      then show ?thesis
        using True tag tag' u by (simp add: pb_field_iter_next_def Let_def at [simplified])
          (simp add: iter_at_def same_union_def req)
    next
      case False
      then show ?thesis
        using True tag tag' by (simp add: pb_field_iter_next_def Let_def at [simplified] field_span_def)
          (auto simp: iter_at_def same_union_def req field_span_def)
    qed
  qed
qed

section \<open>Walking and searching\<close>

definition field_matches :: "pb_field list \<Rightarrow> u32 \<Rightarrow> nat \<Rightarrow> bool" where
  "field_matches fs tag i \<longleftrightarrow> f_tag (fs ! i) = tag \<and> PB_LTYPE (f_type (fs ! i)) \<noteq> PB_LTYPE_EXTENSION"

text \<open>The positions a search from \<open>first\<close> still has to look at when it is at \<open>p\<close>.\<close>

definition search_order :: "nat \<Rightarrow> nat \<Rightarrow> nat \<Rightarrow> nat list" where
  "search_order n first p = (if first \<le> p then [p..<n] @ [0..<first] else [p..<first])"

lemma search_order_step:
  assumes "p < n" and "first < n"
  shows "search_order n first p = p #
    (let q = (if Suc p < n then Suc p else 0) in if q = first then [] else search_order n first q)"
  using assms by (auto simp: search_order_def Let_def upt_conv_Cons not_le)

lemma iter_find_loop_order:
  assumes "table_ok fs" and "dest \<noteq> 0" and "first < field_count fs" and "p < field_count fs"
  shows "iter_find_loop first (iter_at fs dest p) tag =
    Some (case find (field_matches fs tag) (search_order (field_count fs) first p) of
            Some j \<Rightarrow> (True, iter_at fs dest j) | None \<Rightarrow> (False, iter_at fs dest first))"
  using assms(4)
proof (induction "length (search_order (field_count fs) first p)" arbitrary: p rule: less_induct)
  case less
  let ?n = "field_count fs" and ?q = "if Suc p < field_count fs then Suc p else 0"
  have q: "?q < ?n" using assms(3) by auto
  have nxt: "snd (pb_field_iter_next (iter_at fs dest p)) = iter_at fs dest ?q"
    using iter_next [OF assms(1) less.prems assms(2)] by simp
  note order = search_order_step [OF less.prems assms(3)]
  show ?case
  proof (cases "field_matches fs tag p")
    case True
    then show ?thesis
      unfolding order by (subst iter_find_loop.simps) (simp add: field_matches_def)
  next
    case False
    have step: "iter_find_loop first (iter_at fs dest p) tag =
        (if ?q \<noteq> first then iter_find_loop first (iter_at fs dest ?q) tag else Some (False, iter_at fs dest ?q))"
      using False by (subst iter_find_loop.simps) (auto simp: field_matches_def nxt Let_def)
    show ?thesis
    proof (cases "?q = first")
      case True
      then show ?thesis unfolding step order using False by (simp add: Let_def)
    next
      case nf: False
      have "length (search_order ?n first ?q) < length (search_order ?n first p)"
        unfolding order using nf by (simp add: Let_def)
      from less.hyps [OF this q] show ?thesis unfolding step order using nf False by (simp add: Let_def)
    qed
  qed
qed

lemma iter_find:
  assumes "table_ok fs" and "dest \<noteq> 0" and "i < field_count fs"
  shows "pb_field_iter_find (iter_at fs dest i) tag =
    Some (case find (field_matches fs tag) ([i..<field_count fs] @ [0..<i]) of
            Some j \<Rightarrow> (True, iter_at fs dest j) | None \<Rightarrow> (False, iter_at fs dest i))"
  using iter_find_loop_order [OF assms assms(3)] by (simp add: pb_field_iter_find_def search_order_def)

text \<open>
  the iterator over a message. Started on a table with fields it stands at the first one, and
  stepping visits the fields in order, at the addresses the layout gives them - inside a union the
  address stays - counting the required ones before each; behind the last field it is back where
  it began and says so.
\<close>

theorem field_iter_walk:
  assumes "table_ok fs" and "dest \<noteq> 0" and "i < field_count fs"
  shows "pb_field_iter_begin fs dest = (True, iter_at fs dest 0) \<and>
    ((\<lambda>it. snd (pb_field_iter_next it)) ^^ i) (iter_at fs dest 0) = iter_at fs dest i \<and>
    pb_field_iter_next (iter_at fs dest i) =
      (Suc i < field_count fs, iter_at fs dest (if Suc i < field_count fs then Suc i else 0))"
proof -
  have "((\<lambda>it. snd (pb_field_iter_next it)) ^^ k) (iter_at fs dest 0) = iter_at fs dest k" if "k < field_count fs" for k
    using that by (induction k) (simp_all add: iter_next [OF assms(1) _ assms(2)])
  moreover have "f_tag (fs ! 0) \<noteq> 0" using table_tags(2) [OF assms(1), of 0] assms(3) by simp
  ultimately show ?thesis
    using iter_next [OF assms(1,3,2)] iter_begin [OF assms(2), of fs] assms(3) by simp
qed

text \<open>The descriptors of \<open>google_protobuf_Timestamp\<close>: an \<open>int64\<close> at offset 0 and an \<open>int32\<close> behind it.\<close>

definition Timestamp_fields :: "pb_field list" where
  "Timestamp_fields =
     [\<lparr>f_tag = 1, f_type = 0x11, data_offset = 0, size_offset = 0, data_size = 8, array_size = 0, f_ptr = Null\<rparr>,
      \<lparr>f_tag = 2, f_type = 0x11, data_offset = 0, size_offset = 0, data_size = 4, array_size = 0, f_ptr = Null\<rparr>,
      PB_LAST_FIELD]"

lemma Timestamp_table: "table_ok Timestamp_fields" "field_count Timestamp_fields = 2"
  by (simp_all add: Timestamp_fields_def table_ok_def field_count_def PB_LAST_FIELD_def)

theorem field_iter_walk_witness:
  "pData (snd (pb_field_iter_next (snd (pb_field_iter_begin Timestamp_fields 4096)))) = 4104"
  using field_iter_walk [OF Timestamp_table(1), of 4096 0]
  by (simp add: Timestamp_table) (simp add: Timestamp_fields_def same_union_def pb_types field_span_def)

text \<open>
  the search. From whatever field it starts, \<open>pb_field_iter_find\<close> ends: at the first field with
  the tag, in the cyclic order from there, that is not an extension range, or, when there is none,
  with false and at the field it started from.
\<close>

theorem field_iter_find_returns:
  assumes "table_ok fs" and "dest \<noteq> 0" and "i < field_count fs"
  shows "pb_field_iter_find (iter_at fs dest i) tag =
    Some (case find (\<lambda>j. f_tag (fs ! j) = tag \<and> PB_LTYPE (f_type (fs ! j)) \<noteq> PB_LTYPE_EXTENSION)
                 ([i..<field_count fs] @ [0..<i]) of
            Some j \<Rightarrow> (True, iter_at fs dest j) | None \<Rightarrow> (False, iter_at fs dest i))"
  using iter_find [OF assms, of tag] by (simp add: field_matches_def [abs_def])

theorem field_iter_find_returns_witness:
  "pb_field_iter_find (iter_at Timestamp_fields 4096 1) 1 = Some (True, iter_at Timestamp_fields 4096 0)"
  using field_iter_find_returns [OF Timestamp_table(1), of 4096 1 1]
  by (simp add: Timestamp_table upt_rec) (simp add: Timestamp_fields_def pb_types)

end
