(* ===== verification/Pb_Encode.thy ===== *)
theory Pb_Encode
  imports Pb_Fields
begin

text \<open>
  The message level of \<open>pb_encode.c\<close>: the encoders of the field types, arrays, submessages, the
  check for proto3 default values, extensions and \<open>pb_encode\<close> itself, over a byte-addressed memory
  that holds the structures. The wire format of a message is defined without streams, and the
  encoder is proved to produce it.
\<close>

unbundle bit_operations_syntax

section \<open>Memory\<close>

type_synonym memory = "nat \<Rightarrow> byte"

definition rd_bytes :: "memory \<Rightarrow> nat \<Rightarrow> nat \<Rightarrow> bytes" where
  "rd_bytes m a n = map (\<lambda>i. m (a + i)) [0..<n]"

definition rd_word :: "memory \<Rightarrow> nat \<Rightarrow> 'a::len word" where
  "rd_word m a = le_word (rd_bytes m a (LENGTH('a) div 8))"

definition rd_size :: "memory \<Rightarrow> nat \<Rightarrow> nat" where
  "rd_size m a = unat (rd_word m a :: u32)"

definition rd_ptr :: "memory \<Rightarrow> nat \<Rightarrow> nat" where
  "rd_ptr m a = unat (rd_word m a :: u64)"

text \<open>
  What the library is given besides the message: the descriptor tables and the extension
  descriptors of the program, and the user's functions by their addresses.
\<close>

record 's pb_enc_prog =
  tables :: "nat \<Rightarrow> pb_field list"
  ext_field :: "nat \<Rightarrow> pb_field"
  callback_encode :: "nat \<Rightarrow> pb_field \<Rightarrow> nat \<Rightarrow> 's pb_ostream \<Rightarrow> bool \<times> 's pb_ostream"
  ext_encode :: "nat \<Rightarrow> nat \<Rightarrow> 's pb_ostream \<Rightarrow> bool \<times> 's pb_ostream"

text \<open>
  The descriptor table behind \<open>field->ptr\<close>. \<open>pb_encode_submessage\<close> and \<open>pb_dec_submessage\<close> refuse a null pointer before
  they follow it; the other functions would follow it, which C leaves undefined (the generator always sets it).
\<close>

fun ptr_table :: "(nat \<Rightarrow> pb_field list) \<Rightarrow> field_ptr \<Rightarrow> pb_field list" where
  "ptr_table T (Fields t) = T t"
| "ptr_table T _ = [PB_LAST_FIELD]"

section \<open>Sequencing\<close>

text \<open>
  Structures can be nested without bound, so the recursive functions take the depth they may
  descend; \<open>None\<close> is a computation that needs more.
\<close>

type_synonym 's encoder = "'s pb_ostream \<Rightarrow> (bool \<times> 's pb_ostream) option"

definition enc_lift :: "('s pb_ostream \<Rightarrow> bool \<times> 's pb_ostream) \<Rightarrow> 's encoder" where
  "enc_lift f s = Some (f s)"

definition enc_seq :: "'s encoder \<Rightarrow> 's encoder \<Rightarrow> 's encoder" where
  "enc_seq f g s = (case f s of None \<Rightarrow> None | Some (ok, s') \<Rightarrow> if ok then g s' else Some (False, s'))"

definition enc_ok :: "'s encoder" where
  "enc_ok s = Some (True, s)"

definition enc_error :: "string \<Rightarrow> 's encoder" where
  "enc_error msg s = Some (False, PB_SET_OERROR s msg)"

fun enc_all :: "('a \<Rightarrow> 's encoder) \<Rightarrow> 'a list \<Rightarrow> 's encoder" where
  "enc_all f [] = enc_ok"
| "enc_all f (x # xs) = enc_seq (f x) (enc_all f xs)"

text \<open>
  The fields \<open>do { \<dots> } while (pb_field_iter_next(&iter))\<close> visits. A step that returns true moves
  on by one field, so the length of the table bounds their number.
\<close>

fun iter_walk :: "nat \<Rightarrow> pb_field_iter \<Rightarrow> pb_field_iter list" where
  "iter_walk 0 iter = []"
| "iter_walk (Suc n) iter = iter # (case pb_field_iter_next iter of (moved, iter) \<Rightarrow> if moved then iter_walk n iter else [])"

definition message_walk :: "pb_field list \<Rightarrow> nat \<Rightarrow> pb_field_iter list" where
  "message_walk fs dest = (case pb_field_iter_begin fs dest of (some, iter) \<Rightarrow> if some then iter_walk (length fs) iter else [])"

section \<open>Field encoders\<close>

definition safe_read_bool :: "memory \<Rightarrow> nat \<Rightarrow> bool" where
  "safe_read_bool m p = list_ex (\<lambda>i. m (p + i) \<noteq> 0) [0..<1]"

definition pb_enc_bool :: "memory \<Rightarrow> pb_field \<Rightarrow> nat \<Rightarrow> 's pb_ostream \<Rightarrow> bool \<times> 's pb_ostream" where
  "pb_enc_bool m field src s = pb_encode_varint s (if safe_read_bool m src then 1 else 0)"

definition pb_enc_varint :: "memory \<Rightarrow> pb_field \<Rightarrow> nat \<Rightarrow> 's pb_ostream \<Rightarrow> bool \<times> 's pb_ostream" where
  "pb_enc_varint m field src s =
     (if data_size field = 1 then pb_encode_varint s (scast (rd_word m src :: byte))
      else if data_size field = 2 then pb_encode_varint s (scast (rd_word m src :: u16))
      else if data_size field = 4 then pb_encode_varint s (scast (rd_word m src :: u32))
      else if data_size field = 8 then pb_encode_varint s (rd_word m src)
      else (False, PB_SET_OERROR s ''invalid data_size''))"

definition pb_enc_uvarint :: "memory \<Rightarrow> pb_field \<Rightarrow> nat \<Rightarrow> 's pb_ostream \<Rightarrow> bool \<times> 's pb_ostream" where
  "pb_enc_uvarint m field src s =
     (if data_size field = 1 then pb_encode_varint s (ucast (rd_word m src :: byte))
      else if data_size field = 2 then pb_encode_varint s (ucast (rd_word m src :: u16))
      else if data_size field = 4 then pb_encode_varint s (ucast (rd_word m src :: u32))
      else if data_size field = 8 then pb_encode_varint s (rd_word m src)
      else (False, PB_SET_OERROR s ''invalid data_size''))"

definition pb_enc_svarint :: "memory \<Rightarrow> pb_field \<Rightarrow> nat \<Rightarrow> 's pb_ostream \<Rightarrow> bool \<times> 's pb_ostream" where
  "pb_enc_svarint m field src s =
     (if data_size field = 1 then pb_encode_svarint s (scast (rd_word m src :: byte))
      else if data_size field = 2 then pb_encode_svarint s (scast (rd_word m src :: u16))
      else if data_size field = 4 then pb_encode_svarint s (scast (rd_word m src :: u32))
      else if data_size field = 8 then pb_encode_svarint s (rd_word m src)
      else (False, PB_SET_OERROR s ''invalid data_size''))"

definition pb_enc_fixed32 :: "memory \<Rightarrow> pb_field \<Rightarrow> nat \<Rightarrow> 's pb_ostream \<Rightarrow> bool \<times> 's pb_ostream" where
  "pb_enc_fixed32 m field src s = pb_encode_fixed32 s (rd_word m src)"

definition pb_enc_fixed64 :: "memory \<Rightarrow> pb_field \<Rightarrow> nat \<Rightarrow> 's pb_ostream \<Rightarrow> bool \<times> 's pb_ostream" where
  "pb_enc_fixed64 m field src s = pb_encode_fixed64 s (rd_word m src)"

text \<open>\<open>pb_bytes_array_t\<close> is a count of four bytes and the bytes behind it.\<close>

definition pb_enc_bytes :: "memory \<Rightarrow> pb_field \<Rightarrow> nat \<Rightarrow> 's pb_ostream \<Rightarrow> bool \<times> 's pb_ostream" where
  "pb_enc_bytes m field src s =
     (if src = 0 then pb_encode_string s []
      else if PB_ATYPE (f_type field) = PB_ATYPE_STATIC \<and>
              (data_size field + SIZE_LIMIT - 4) mod SIZE_LIMIT < rd_size m src
      then (False, PB_SET_OERROR s ''bytes size exceeded'')
      else pb_encode_string s (rd_bytes m (src + 4) (rd_size m src)))"

function strnlen :: "memory \<Rightarrow> nat \<Rightarrow> nat \<Rightarrow> nat \<Rightarrow> nat" where
  "strnlen m p n maxlen = (if n < maxlen \<and> m p \<noteq> 0 then strnlen m (p + 1) (n + 1) maxlen else n)"
  by pat_completeness auto
termination by (relation "measure (\<lambda>(m, p, n, maxlen). maxlen - n)") auto
declare strnlen.simps [simp del]

definition pb_enc_string :: "memory \<Rightarrow> pb_field \<Rightarrow> nat \<Rightarrow> 's pb_ostream \<Rightarrow> bool \<times> 's pb_ostream" where
  "pb_enc_string m field src s =
     (let maxlen = (if PB_ATYPE (f_type field) = PB_ATYPE_POINTER then SIZE_LIMIT - 1 else data_size field);
          len = (if src = 0 then 0 else strnlen m src 0 maxlen)
      in pb_encode_string s (rd_bytes m src len))"

definition pb_enc_fixed_length_bytes :: "memory \<Rightarrow> pb_field \<Rightarrow> nat \<Rightarrow> 's pb_ostream \<Rightarrow> bool \<times> 's pb_ostream" where
  "pb_enc_fixed_length_bytes m field src s = pb_encode_string s (rd_bytes m src (data_size field))"

definition pb_encode_tag_for_field :: "pb_field \<Rightarrow> 's pb_ostream \<Rightarrow> bool \<times> 's pb_ostream" where
  "pb_encode_tag_for_field field s =
     (let lt = PB_LTYPE (f_type field) in
      if lt \<in> {PB_LTYPE_BOOL, PB_LTYPE_VARINT, PB_LTYPE_UVARINT, PB_LTYPE_SVARINT} then pb_encode_tag s PB_WT_VARINT (f_tag field)
      else if lt = PB_LTYPE_FIXED32 then pb_encode_tag s PB_WT_32BIT (f_tag field)
      else if lt = PB_LTYPE_FIXED64 then pb_encode_tag s PB_WT_64BIT (f_tag field)
      else if lt \<in> {PB_LTYPE_BYTES, PB_LTYPE_STRING, PB_LTYPE_SUBMESSAGE, PB_LTYPE_FIXED_LENGTH_BYTES}
        then pb_encode_tag s PB_WT_STRING (f_tag field)
      else (False, PB_SET_OERROR s ''invalid field type''))"

text \<open>\<open>enc\<close> stands for the recursive call of \<open>pb_encode\<close> here and below.\<close>

definition pb_encode_submessage ::
    "(pb_field list \<Rightarrow> nat \<Rightarrow> 's encoder) \<Rightarrow> pb_field list \<Rightarrow> nat \<Rightarrow> 's encoder" where
  "pb_encode_submessage enc fs src s =
     (case enc fs src PB_OSTREAM_SIZING of
        None \<Rightarrow> None
      | Some (False, substream) \<Rightarrow> Some (False, s\<lparr>oerrmsg := oerrmsg substream\<rparr>)
      | Some (True, substream) \<Rightarrow>
          (let n = bytes_written substream in
           case pb_encode_varint s (of_nat n) of
             (False, s) \<Rightarrow> Some (False, s)
           | (True, s) \<Rightarrow>
               if is_sizing (sink s) then Some (pb_write s [] n)
               else if max_size s < size_add (bytes_written s) n then enc_error ''stream full'' s
               else
                 (case enc fs src (substream\<lparr>sink := sink s, max_size := n, bytes_written := 0, oerrmsg := None\<rparr>) of
                    None \<Rightarrow> None
                  | Some (status, substream) \<Rightarrow>
                      (let s = s\<lparr>bytes_written := size_add (bytes_written s) (bytes_written substream),
                              sink := sink substream, oerrmsg := oerrmsg substream\<rparr>
                       in if bytes_written substream \<noteq> n then enc_error ''submsg size changed'' s else Some (status, s)))))"

definition pb_enc_submessage ::
    "(nat \<Rightarrow> pb_field list) \<Rightarrow> (pb_field list \<Rightarrow> nat \<Rightarrow> 's encoder) \<Rightarrow> pb_field \<Rightarrow> nat \<Rightarrow> 's encoder" where
  "pb_enc_submessage T enc field src s =
     (if f_ptr field = Null then enc_error ''invalid field descriptor'' s
      else pb_encode_submessage enc (ptr_table T (f_ptr field)) src s)"

text \<open>
  The table \<open>PB_ENCODERS\<close>. Its entry for extensions is null and never called: the caller treats them
  separately. The model has an error there.
\<close>

definition PB_ENCODERS ::
    "(nat \<Rightarrow> pb_field list) \<Rightarrow> (pb_field list \<Rightarrow> nat \<Rightarrow> 's encoder) \<Rightarrow> memory \<Rightarrow> byte \<Rightarrow> pb_field \<Rightarrow> nat \<Rightarrow> 's encoder" where
  "PB_ENCODERS T enc m lt field src =
     (if lt = PB_LTYPE_BOOL then enc_lift (pb_enc_bool m field src)
      else if lt = PB_LTYPE_VARINT then enc_lift (pb_enc_varint m field src)
      else if lt = PB_LTYPE_UVARINT then enc_lift (pb_enc_uvarint m field src)
      else if lt = PB_LTYPE_SVARINT then enc_lift (pb_enc_svarint m field src)
      else if lt = PB_LTYPE_FIXED32 then enc_lift (pb_enc_fixed32 m field src)
      else if lt = PB_LTYPE_FIXED64 then enc_lift (pb_enc_fixed64 m field src)
      else if lt = PB_LTYPE_BYTES then enc_lift (pb_enc_bytes m field src)
      else if lt = PB_LTYPE_STRING then enc_lift (pb_enc_string m field src)
      else if lt = PB_LTYPE_SUBMESSAGE then pb_enc_submessage T enc field src
      else if lt = PB_LTYPE_FIXED_LENGTH_BYTES then enc_lift (pb_enc_fixed_length_bytes m field src)
      else enc_error ''invalid field type'')"

section \<open>Arrays and default values\<close>

definition array_item :: "memory \<Rightarrow> pb_field \<Rightarrow> nat \<Rightarrow> nat" where
  "array_item m field p =
     (if PB_ATYPE (f_type field) = PB_ATYPE_POINTER \<and>
         (PB_LTYPE (f_type field) = PB_LTYPE_STRING \<or> PB_LTYPE (f_type field) = PB_LTYPE_BYTES)
      then rd_ptr m p else p)"

text \<open>The data of a packed array behind its tag: the size of all items and the items.\<close>

definition encode_packed :: "pb_field \<Rightarrow> nat \<Rightarrow> nat list \<Rightarrow> (pb_field \<Rightarrow> nat \<Rightarrow> 's encoder) \<Rightarrow> 's encoder" where
  "encode_packed field count items func s =
     (case (if PB_LTYPE (f_type field) = PB_LTYPE_FIXED32 then Some (Some (4 * count mod SIZE_LIMIT))
            else if PB_LTYPE (f_type field) = PB_LTYPE_FIXED64 then Some (Some (8 * count mod SIZE_LIMIT))
            else map_option (\<lambda>(ok, sizestream). if ok then Some (bytes_written sizestream) else None)
                   (enc_all (func field) items PB_OSTREAM_SIZING)) of
        None \<Rightarrow> None
      | Some None \<Rightarrow> Some (False, s)
      | Some (Some n) \<Rightarrow>
          enc_seq (enc_lift (\<lambda>s. pb_encode_varint s (of_nat n)))
            (\<lambda>s. if is_sizing (sink s) then Some (pb_write s [] n) else enc_all (func field) items s) s)"

definition encode_array ::
    "memory \<Rightarrow> pb_field \<Rightarrow> nat \<Rightarrow> nat \<Rightarrow> (pb_field \<Rightarrow> nat \<Rightarrow> 's encoder) \<Rightarrow> 's encoder" where
  "encode_array m field p count func s =
     (let items = map (\<lambda>i. p + i * data_size field) [0..<count] in
      if count = 0 then enc_ok s
      else if PB_ATYPE (f_type field) \<noteq> PB_ATYPE_POINTER \<and> array_size field < count
      then enc_error ''array max size exceeded'' s
      else if PB_LTYPE (f_type field) \<le> PB_LTYPE_LAST_PACKABLE then
        enc_seq (enc_lift (\<lambda>s. pb_encode_tag s PB_WT_STRING (f_tag field))) (encode_packed field count items func) s
      else enc_all (\<lambda>q. enc_seq (enc_lift (pb_encode_tag_for_field field)) (func field (array_item m field q))) items s)"

fun all_fields :: "('a \<Rightarrow> bool option) \<Rightarrow> 'a list \<Rightarrow> bool option" where
  "all_fields P [] = Some True"
| "all_fields P (x # xs) = (case P x of None \<Rightarrow> None | Some ok \<Rightarrow> if ok then all_fields P xs else Some False)"

fun pb_check_proto3_default_value :: "nat \<Rightarrow> (nat \<Rightarrow> pb_field list) \<Rightarrow> memory \<Rightarrow> pb_field \<Rightarrow> nat \<Rightarrow> bool option" where
  "pb_check_proto3_default_value 0 T m field p = None"
| "pb_check_proto3_default_value (Suc n) T m field p =
     (let ht = PB_HTYPE (f_type field); at = PB_ATYPE (f_type field); lt = PB_LTYPE (f_type field);
          pSize = ptr_offset p (size_offset field)
      in if ht = PB_HTYPE_REQUIRED then Some False
         else if ht = PB_HTYPE_REPEATED \<and> size_offset field \<noteq> 0 then Some (rd_size m pSize = 0)
         else if ht = PB_HTYPE_REPEATED \<and> at = PB_ATYPE_STATIC then Some False
         else if ht = PB_HTYPE_ONEOF then Some (rd_size m pSize = 0)
         else if ht = PB_HTYPE_OPTIONAL \<and> size_offset field \<noteq> 0 then Some (\<not> safe_read_bool m pSize)
         else if at = PB_ATYPE_STATIC \<and> lt = PB_LTYPE_BYTES then Some (rd_size m p = 0)
         else if at = PB_ATYPE_STATIC \<and> lt = PB_LTYPE_STRING then Some (m p = 0)
         else if at = PB_ATYPE_STATIC \<and> lt = PB_LTYPE_FIXED_LENGTH_BYTES then Some (data_size field = 0)
         else if at = PB_ATYPE_STATIC \<and> lt = PB_LTYPE_SUBMESSAGE then
           all_fields (\<lambda>iter. pb_check_proto3_default_value n T m (field_at iter) (pData iter))
             (message_walk (ptr_table T (f_ptr field)) p)
         else if at = PB_ATYPE_POINTER \<and> PB_LTYPE_LAST_PACKABLE < lt then Some (rd_ptr m p = 0)
         else Some (list_all (\<lambda>i. m (p + i) = 0) [0..<data_size field]))"

section \<open>Fields and messages\<close>

text \<open>
  Without an offset to a counter \<open>pSize\<close> points to the local \<open>implicit_has\<close>. A union always has its
  counter; read from the local it would be one byte of it.
\<close>

definition encode_basic_field ::
    "'s pb_enc_prog \<Rightarrow> nat \<Rightarrow> (pb_field list \<Rightarrow> nat \<Rightarrow> 's encoder) \<Rightarrow> memory \<Rightarrow> pb_field \<Rightarrow> nat \<Rightarrow> 's encoder" where
  "encode_basic_field P n enc m field p s =
     (let func = PB_ENCODERS (tables P) enc m (PB_LTYPE (f_type field));
          ht = PB_HTYPE (f_type field);
          pSize = ptr_offset p (size_offset field)
      in case (if size_offset field \<noteq> 0 then Some False
               else if ht = PB_HTYPE_OPTIONAL then map_option Not (pb_check_proto3_default_value n (tables P) m field p)
               else Some True) of
           None \<Rightarrow> None
         | Some implicit_has \<Rightarrow>
             (let pointer = PB_ATYPE (f_type field) = PB_ATYPE_POINTER;
                  p = (if pointer then rd_ptr m p else p);
                  implicit_has = (if pointer then p \<noteq> 0 else implicit_has);
                  has = (if size_offset field \<noteq> 0 then safe_read_bool m pSize else implicit_has);
                  which = (if size_offset field \<noteq> 0 then rd_word m pSize else if implicit_has then 1 else 0);
                  emit = enc_seq (enc_lift (pb_encode_tag_for_field field)) (func field p)
              in if ht = PB_HTYPE_REQUIRED then (if p = 0 then enc_error ''missing required field'' s else emit s)
                 else if ht = PB_HTYPE_OPTIONAL then (if has then emit s else enc_ok s)
                 else if ht = PB_HTYPE_REPEATED then
                   encode_array m field p (if size_offset field \<noteq> 0 then rd_size m pSize else array_size field) func s
                 else if which = f_tag field then emit s else enc_ok s))"

text \<open>A \<open>pb_callback_t\<close> is the function and, eight bytes on, its argument.\<close>

definition encode_callback_field :: "'s pb_enc_prog \<Rightarrow> memory \<Rightarrow> pb_field \<Rightarrow> nat \<Rightarrow> 's encoder" where
  "encode_callback_field P m field p s =
     (if rd_ptr m p \<noteq> 0 then
        (case callback_encode P (rd_ptr m p) field (p + 8) s of
           (False, s) \<Rightarrow> enc_error ''callback error'' s
         | (True, s) \<Rightarrow> enc_ok s)
      else enc_ok s)"

definition encode_field ::
    "'s pb_enc_prog \<Rightarrow> nat \<Rightarrow> (pb_field list \<Rightarrow> nat \<Rightarrow> 's encoder) \<Rightarrow> memory \<Rightarrow> pb_field \<Rightarrow> nat \<Rightarrow> 's encoder" where
  "encode_field P n enc m field p s =
     (let at = PB_ATYPE (f_type field) in
      if at = PB_ATYPE_STATIC \<or> at = PB_ATYPE_POINTER then encode_basic_field P n enc m field p s
      else if at = PB_ATYPE_CALLBACK then encode_callback_field P m field p s
      else enc_error ''invalid field type'' s)"

text \<open>A \<open>pb_extension_t\<close> has its type, \<open>dest\<close> and \<open>next\<close> at offsets 0, 8 and 16; its type the functions and \<open>arg\<close>.\<close>

definition default_extension_encoder ::
    "'s pb_enc_prog \<Rightarrow> nat \<Rightarrow> (pb_field list \<Rightarrow> nat \<Rightarrow> 's encoder) \<Rightarrow> memory \<Rightarrow> nat \<Rightarrow> 's encoder" where
  "default_extension_encoder P n enc m ext s =
     (let field = ext_field P (rd_ptr m (rd_ptr m ext + 16)) in
      if PB_ATYPE (f_type field) = PB_ATYPE_POINTER then encode_field P n enc m field (ext + 8) s
      else encode_field P n enc m field (rd_ptr m (ext + 8)) s)"

fun encode_extension_list ::
    "'s pb_enc_prog \<Rightarrow> nat \<Rightarrow> (pb_field list \<Rightarrow> nat \<Rightarrow> 's encoder) \<Rightarrow> memory \<Rightarrow> nat \<Rightarrow> nat \<Rightarrow> 's encoder" where
  "encode_extension_list P n enc m 0 ext s = None"
| "encode_extension_list P n enc m (Suc k) ext s =
     (if ext = 0 then enc_ok s
      else enc_seq
             (let encode = rd_ptr m (rd_ptr m ext + 8) in
              if encode \<noteq> 0 then enc_lift (ext_encode P encode ext) else default_extension_encoder P n enc m ext)
             (encode_extension_list P n enc m k (rd_ptr m (ext + 16))) s)"

definition encode_extension_field ::
    "'s pb_enc_prog \<Rightarrow> nat \<Rightarrow> (pb_field list \<Rightarrow> nat \<Rightarrow> 's encoder) \<Rightarrow> memory \<Rightarrow> nat \<Rightarrow> 's encoder" where
  "encode_extension_field P n enc m p s = encode_extension_list P n enc m n (rd_ptr m p) s"

fun pb_encode :: "'s pb_enc_prog \<Rightarrow> nat \<Rightarrow> memory \<Rightarrow> pb_field list \<Rightarrow> nat \<Rightarrow> 's encoder" where
  "pb_encode P 0 m fs src s = None"
| "pb_encode P (Suc n) m fs src s =
     enc_all (\<lambda>iter. if PB_LTYPE (f_type (field_at iter)) = PB_LTYPE_EXTENSION
                     then encode_extension_field P n (pb_encode P n m) m (pData iter)
                     else encode_field P n (pb_encode P n m) m (field_at iter) (pData iter))
       (message_walk fs src) s"

definition pb_encode_delimited :: "'s pb_enc_prog \<Rightarrow> nat \<Rightarrow> memory \<Rightarrow> pb_field list \<Rightarrow> nat \<Rightarrow> 's encoder" where
  "pb_encode_delimited P n m fs src s = pb_encode_submessage (pb_encode P n m) fs src s"

definition pb_encode_nullterminated :: "'s pb_enc_prog \<Rightarrow> nat \<Rightarrow> memory \<Rightarrow> pb_field list \<Rightarrow> nat \<Rightarrow> 's encoder" where
  "pb_encode_nullterminated P n m fs src s = enc_seq (pb_encode P n m fs src) (enc_lift (\<lambda>s. pb_write s [0] 1)) s"

definition pb_get_encoded_size :: "'s pb_enc_prog \<Rightarrow> nat \<Rightarrow> memory \<Rightarrow> pb_field list \<Rightarrow> nat \<Rightarrow> nat option option" where
  "pb_get_encoded_size P n m fs src =
     map_option (\<lambda>(ok, s). if ok then Some (bytes_written s) else None) (pb_encode P n m fs src PB_OSTREAM_SIZING)"

section \<open>The wire format of a message\<close>

text \<open>
  The bytes a message stands for: the present fields in the order of the table, each a tag and a
  payload. \<open>None\<close> where there is no encoding: a descriptor or a count that is out of range, a
  missing required field, a nesting deeper than \<open>n\<close>, or a part that user code would write.
\<close>

definition wire_type :: "pb_field \<Rightarrow> pb_wire_type option" where
  "wire_type field =
     (let lt = PB_LTYPE (f_type field) in
      if lt \<in> {PB_LTYPE_BOOL, PB_LTYPE_VARINT, PB_LTYPE_UVARINT, PB_LTYPE_SVARINT} then Some PB_WT_VARINT
      else if lt = PB_LTYPE_FIXED32 then Some PB_WT_32BIT
      else if lt = PB_LTYPE_FIXED64 then Some PB_WT_64BIT
      else if lt \<in> {PB_LTYPE_BYTES, PB_LTYPE_STRING, PB_LTYPE_SUBMESSAGE, PB_LTYPE_FIXED_LENGTH_BYTES} then Some PB_WT_STRING
      else None)"

definition tag_bytes :: "pb_field \<Rightarrow> pb_wire_type \<Rightarrow> bytes" where
  "tag_bytes field wt = leb128 (unat (f_tag field) * 8 + wt)"

definition delimited :: "bytes \<Rightarrow> bytes" where
  "delimited bs = leb128 (length bs) @ bs"

definition int_field :: "memory \<Rightarrow> pb_field \<Rightarrow> nat \<Rightarrow> u64 option" where
  "int_field m field p =
     (if data_size field = 1 then Some (scast (rd_word m p :: byte)) else if data_size field = 2 then Some (scast (rd_word m p :: u16))
      else if data_size field = 4 then Some (scast (rd_word m p :: u32)) else if data_size field = 8 then Some (rd_word m p) else None)"

definition uint_field :: "memory \<Rightarrow> pb_field \<Rightarrow> nat \<Rightarrow> u64 option" where
  "uint_field m field p =
     (if data_size field = 1 then Some (ucast (rd_word m p :: byte)) else if data_size field = 2 then Some (ucast (rd_word m p :: u16))
      else if data_size field = 4 then Some (ucast (rd_word m p :: u32)) else if data_size field = 8 then Some (rd_word m p) else None)"

text \<open>The payload of one value; \<open>sub\<close> gives the bytes of a submessage.\<close>

definition payload :: "(field_ptr \<Rightarrow> nat \<Rightarrow> bytes option) \<Rightarrow> memory \<Rightarrow> pb_field \<Rightarrow> nat \<Rightarrow> bytes option" where
  "payload sub m field p =
     (let lt = PB_LTYPE (f_type field) in
      if lt = PB_LTYPE_BOOL then Some (leb128 (if m p \<noteq> 0 then 1 else 0))
      else if lt = PB_LTYPE_VARINT then map_option (\<lambda>v. leb128 (unat v)) (int_field m field p)
      else if lt = PB_LTYPE_UVARINT then map_option (\<lambda>v. leb128 (unat v)) (uint_field m field p)
      else if lt = PB_LTYPE_SVARINT then map_option (\<lambda>v. leb128 (unat (zigzag v))) (int_field m field p)
      else if lt = PB_LTYPE_FIXED32 then Some (rd_bytes m p 4)
      else if lt = PB_LTYPE_FIXED64 then Some (rd_bytes m p 8)
      else if lt = PB_LTYPE_BYTES then
        (if p = 0 then Some (delimited [])
         else if PB_ATYPE (f_type field) = PB_ATYPE_STATIC \<and> (data_size field + SIZE_LIMIT - 4) mod SIZE_LIMIT < rd_size m p
         then None else Some (delimited (rd_bytes m (p + 4) (rd_size m p))))
      else if lt = PB_LTYPE_STRING then
        Some (delimited (if p = 0 then [] else rd_bytes m p
          (strnlen m p 0 (if PB_ATYPE (f_type field) = PB_ATYPE_POINTER then SIZE_LIMIT - 1 else data_size field))))
      else if lt = PB_LTYPE_SUBMESSAGE then map_option delimited (sub (f_ptr field) p)
      else if lt = PB_LTYPE_FIXED_LENGTH_BYTES then Some (delimited (rd_bytes m p (data_size field)))
      else None)"

definition tagged :: "pb_field \<Rightarrow> bytes option \<Rightarrow> bytes option" where
  "tagged field v = (case (wire_type field, v) of (Some wt, Some bs) \<Rightarrow> Some (tag_bytes field wt @ bs) | _ \<Rightarrow> None)"

fun concat_all :: "('a \<Rightarrow> bytes option) \<Rightarrow> 'a list \<Rightarrow> bytes option" where
  "concat_all f [] = Some []"
| "concat_all f (x # xs) = (case (f x, concat_all f xs) of (Some a, Some b) \<Rightarrow> Some (a @ b) | _ \<Rightarrow> None)"

definition repeated_bytes :: "(field_ptr \<Rightarrow> nat \<Rightarrow> bytes option) \<Rightarrow> memory \<Rightarrow> pb_field \<Rightarrow> nat \<Rightarrow> nat \<Rightarrow> bytes option" where
  "repeated_bytes sub m field p count =
     (let items = map (\<lambda>i. p + i * data_size field) [0..<count] in
      if count = 0 then Some []
      else if PB_ATYPE (f_type field) \<noteq> PB_ATYPE_POINTER \<and> array_size field < count then None
      else if PB_LTYPE (f_type field) \<le> PB_LTYPE_LAST_PACKABLE then
        map_option (\<lambda>bs. tag_bytes field PB_WT_STRING @ delimited bs) (concat_all (payload sub m field) items)
      else concat_all (\<lambda>q. tagged field (payload sub m field (array_item m field q))) items)"

definition field_bytes ::
    "nat \<Rightarrow> (nat \<Rightarrow> pb_field list) \<Rightarrow> (field_ptr \<Rightarrow> nat \<Rightarrow> bytes option) \<Rightarrow> memory \<Rightarrow> pb_field \<Rightarrow> nat \<Rightarrow> bytes option" where
  "field_bytes n T sub m field p =
     (let at = PB_ATYPE (f_type field); ht = PB_HTYPE (f_type field);
          pSize = ptr_offset p (size_offset field);
          q = (if at = PB_ATYPE_POINTER then rd_ptr m p else p);
          one = tagged field (payload sub m field q)
      in if PB_LTYPE (f_type field) = PB_LTYPE_EXTENSION then (if rd_ptr m p = 0 \<and> 0 < n then Some [] else None)
         else if at = PB_ATYPE_CALLBACK then (if rd_ptr m p = 0 then Some [] else None)
         else if at \<noteq> PB_ATYPE_STATIC \<and> at \<noteq> PB_ATYPE_POINTER then None
         else if ht = PB_HTYPE_REQUIRED then (if q = 0 then None else one)
         else if ht = PB_HTYPE_OPTIONAL then
           (if size_offset field \<noteq> 0 then (if safe_read_bool m pSize then one else Some [])
            else case pb_check_proto3_default_value n T m field p of
                   None \<Rightarrow> None
                 | Some d \<Rightarrow> (if (if at = PB_ATYPE_POINTER then q \<noteq> 0 else \<not> d) then one else Some []))
         else if ht = PB_HTYPE_REPEATED then
           repeated_bytes sub m field q (if size_offset field \<noteq> 0 then rd_size m pSize else array_size field)
         else if size_offset field = 0 then None
         else if rd_word m pSize = f_tag field then one else Some [])"

fun message_bytes :: "nat \<Rightarrow> (nat \<Rightarrow> pb_field list) \<Rightarrow> memory \<Rightarrow> pb_field list \<Rightarrow> nat \<Rightarrow> bytes option" where
  "message_bytes 0 T m fs src = None"
| "message_bytes (Suc n) T m fs src =
     concat_all (\<lambda>iter. field_bytes n T (\<lambda>ptr q. if ptr = Null then None else message_bytes n T m (ptr_table T ptr) q) m
         (field_at iter) (pData iter))
       (message_walk fs src)"

section \<open>The contract of a message encoder\<close>

text \<open>
  As for the encoders of single values, except that an encoder may leave another error message
  behind: a submessage replaces that of its parent.
\<close>

locale message_emitter =
  fixes wr :: "'s encoder" and out :: bytes
  assumes sizes: "n < SIZE_LIMIT \<Longrightarrow> wr (size_ostream n m e) = Some (True, size_ostream (size_add n (length out)) m e)"
    and emits: "length cur + length out \<le> m \<Longrightarrow> m < SIZE_LIMIT \<Longrightarrow>
        \<exists>e'. wr (buf_ostream pre cur m e) = Some (True, buf_ostream pre (cur @ out) m e')"
    and refuses: "length cur \<le> m \<Longrightarrow> m < length cur + length out \<Longrightarrow> length cur + length out < SIZE_LIMIT \<Longrightarrow>
        \<exists>k e'. length cur + k \<le> m \<and> k < length out \<and>
          wr (buf_ostream pre cur m e) = Some (False, buf_ostream pre (cur @ take k out) m e')"

lemma message_emitter_lift:
  assumes "emitter f out"
  shows "message_emitter (enc_lift f) out"
proof
  show "enc_lift f (size_ostream n m e) = Some (True, size_ostream (size_add n (length out)) m e)" if "n < SIZE_LIMIT" for n m e
    by (simp add: enc_lift_def emitter.sizes [OF assms])
  show "\<exists>e'. enc_lift f (buf_ostream pre cur m e) = Some (True, buf_ostream pre (cur @ out) m e')"
    if "length cur + length out \<le> m" "m < SIZE_LIMIT" for cur m pre e
    by (simp add: enc_lift_def emitter.emits [OF assms that]) blast
  show "\<exists>k e'. length cur + k \<le> m \<and> k < length out \<and>
      enc_lift f (buf_ostream pre cur m e) = Some (False, buf_ostream pre (cur @ take k out) m e')"
    if "length cur \<le> m" "m < length cur + length out" "length cur + length out < SIZE_LIMIT" for cur m pre e
    using emitter.refuses [OF assms that(1,2), of pre e] that by (auto simp: enc_lift_def)
qed

lemma message_emitter_ok: "message_emitter enc_ok []"
proof
  show "\<exists>k e'. length cur + k \<le> m \<and> k < length ([] :: bytes) \<and>
      enc_ok (buf_ostream pre cur m e) = Some (False, buf_ostream pre (cur @ take k []) m e')"
    if "length cur \<le> m" "m < length cur + length ([] :: bytes)" for cur pre :: bytes and m e
    using that by simp
qed (auto simp: enc_ok_def size_ostream_def size_add_def)

lemma message_emitter_seq:
  assumes "message_emitter f a" and "message_emitter g b"
  shows "message_emitter (enc_seq f g) (a @ b)"
proof
  show "enc_seq f g (size_ostream n m e) = Some (True, size_ostream (size_add n (length (a @ b))) m e)" if "n < SIZE_LIMIT" for n m e
    using that by (simp add: enc_seq_def message_emitter.sizes [OF assms(1)] message_emitter.sizes [OF assms(2)]
        size_add_def mod_simps add.assoc)
next
  fix cur pre :: bytes and m e
  assume "length cur + length (a @ b) \<le> m" "m < SIZE_LIMIT"
  then show "\<exists>e'. enc_seq f g (buf_ostream pre cur m e) = Some (True, buf_ostream pre (cur @ a @ b) m e')"
    using message_emitter.emits [OF assms(1), of cur m pre e] message_emitter.emits [OF assms(2), of "cur @ a" m pre]
    by (fastforce simp: enc_seq_def)
next
  fix cur pre :: bytes and m e
  assume a: "length cur \<le> m" "m < length cur + length (a @ b)" "length cur + length (a @ b) < SIZE_LIMIT"
  show "\<exists>k e'. length cur + k \<le> m \<and> k < length (a @ b) \<and>
      enc_seq f g (buf_ostream pre cur m e) = Some (False, buf_ostream pre (cur @ take k (a @ b)) m e')"
  proof (cases "length cur + length a \<le> m")
    case True
    then obtain e1 where e1: "f (buf_ostream pre cur m e) = Some (True, buf_ostream pre (cur @ a) m e1)"
      using message_emitter.emits [OF assms(1), of cur m pre e] a by auto
    obtain k e' where "length (cur @ a) + k \<le> m" "k < length b"
      "g (buf_ostream pre (cur @ a) m e1) = Some (False, buf_ostream pre ((cur @ a) @ take k b) m e')"
      using message_emitter.refuses [OF assms(2), of "cur @ a" m pre e1] a True by auto
    with e1 show ?thesis
      by (intro exI [of _ "length a + k"] exI [of _ e']) (simp add: enc_seq_def)
  next
    case False
    obtain k e' where "length cur + k \<le> m" "k < length a"
      "f (buf_ostream pre cur m e) = Some (False, buf_ostream pre (cur @ take k a) m e')"
      using message_emitter.refuses [OF assms(1), of cur m pre e] a False by auto
    then show ?thesis
      by (intro exI [of _ k] exI [of _ e']) (simp add: enc_seq_def)
  qed
qed

lemma message_emitter_all:
  assumes "concat_all g xs = Some out"
    and "\<And>x o'. x \<in> set xs \<Longrightarrow> g x = Some o' \<Longrightarrow> length o' \<le> length out \<Longrightarrow> message_emitter (f x) o'"
  shows "message_emitter (enc_all f xs) out"
  using assms
proof (induction xs arbitrary: out)
  case Nil
  then show ?case by (simp add: message_emitter_ok)
next
  case (Cons x xs)
  from Cons.prems(1) obtain a b where ab: "g x = Some a" "concat_all g xs = Some b" "out = a @ b"
    by (auto split: option.splits)
  have "message_emitter (f x) a" using Cons.prems(2) [of x a] ab by simp
  moreover have "message_emitter (enc_all f xs) b"
    by (rule Cons.IH [OF ab(2)]) (use Cons.prems(2) ab in auto)
  ultimately show ?case unfolding enc_all.simps ab(3) by (rule message_emitter_seq)
qed

text \<open>Data whose length has been written before it is only counted on a sizing stream.\<close>

lemma message_emitter_counted:
  assumes "message_emitter wr out"
  shows "message_emitter (\<lambda>s. if is_sizing (sink s) then Some (pb_write s [] (length out)) else wr s) out"
  using message_emitter.emits [OF assms] message_emitter.refuses [OF assms]
  by unfold_locales (simp_all add: pb_write_def size_ostream_def)

lemma emitter_size: "n < SIZE_LIMIT \<Longrightarrow> emitter (\<lambda>s. pb_encode_varint s (of_nat n)) (leb128 n)"
  using emitter_varint [of "of_nat n"] by (simp add: unat_of_nat SIZE_LIMIT_def)

lemma message_emitter_sizing:
  "message_emitter wr out \<Longrightarrow> length out < SIZE_LIMIT \<Longrightarrow>
   wr PB_OSTREAM_SIZING = Some (True, size_ostream (length out) 0 None)"
  using message_emitter.sizes [of wr out 0 0 None]
  by (simp add: PB_OSTREAM_SIZING_def size_ostream_def size_add_def)

lemma message_emitter_submessage:
  assumes "message_emitter (enc fs src) out" and n: "length out < SIZE_LIMIT"
  shows "message_emitter (pb_encode_submessage enc fs src) (delimited out)"
proof -
  let ?n = "length out"
  note var = emitter_size [OF n]
  have sub: "pb_encode_submessage enc fs src s =
      enc_seq (enc_lift (\<lambda>s. pb_encode_varint s (of_nat ?n)))
        (\<lambda>s. if is_sizing (sink s) then Some (pb_write s [] ?n)
             else if max_size s < size_add (bytes_written s) ?n then enc_error ''stream full'' s
             else (case enc fs src \<lparr>sink = sink s, max_size = ?n, bytes_written = 0, oerrmsg = None\<rparr> of
                     None \<Rightarrow> None
                   | Some (status, substream) \<Rightarrow>
                      (let s = s\<lparr>bytes_written := size_add (bytes_written s) (bytes_written substream),
                              sink := sink substream, oerrmsg := oerrmsg substream\<rparr>
                       in if bytes_written substream \<noteq> ?n then enc_error ''submsg size changed'' s else Some (status, s)))) s" for s
    by (cases "pb_encode_varint s (of_nat ?n)"; cases "fst (pb_encode_varint s (of_nat ?n))")
      (simp_all add: pb_encode_submessage_def message_emitter_sizing [OF assms] size_ostream_def enc_seq_def enc_lift_def Let_def
        split: option.split prod.split)
  have body: "message_emitter (\<lambda>s. if is_sizing (sink s) then Some (pb_write s [] ?n)
             else if max_size s < size_add (bytes_written s) ?n then enc_error ''stream full'' s
             else (case enc fs src \<lparr>sink = sink s, max_size = ?n, bytes_written = 0, oerrmsg = None\<rparr> of
                     None \<Rightarrow> None
                   | Some (status, substream) \<Rightarrow>
                      (let s = s\<lparr>bytes_written := size_add (bytes_written s) (bytes_written substream),
                              sink := sink substream, oerrmsg := oerrmsg substream\<rparr>
                       in if bytes_written substream \<noteq> ?n then enc_error ''submsg size changed'' s else Some (status, s)))) out"
    (is "message_emitter ?body out")
  proof
    show "?body (size_ostream n m e) = Some (True, size_ostream (size_add n ?n) m e)" if "n < SIZE_LIMIT" for n m e
      by (simp add: pb_write_def size_ostream_def)
  next
    fix cur pre :: bytes and m e
    assume a: "length cur + ?n \<le> m" "m < SIZE_LIMIT"
    have "\<exists>e'. enc fs src (buf_ostream (pre @ cur) [] ?n None) = Some (True, buf_ostream (pre @ cur) out ?n e')"
      using message_emitter.emits [OF assms(1), of "[]" ?n "pre @ cur" None] n by simp
    then show "\<exists>e'. ?body (buf_ostream pre cur m e) = Some (True, buf_ostream pre (cur @ out) m e')"
      using a by (auto simp: buf_ostream_def size_add_exact)
  next
    fix cur pre :: bytes and m e
    assume a: "length cur \<le> m" "m < length cur + ?n" "length cur + ?n < SIZE_LIMIT"
    then have "?body (buf_ostream pre cur m e) = Some (False, buf_ostream pre (cur @ take 0 out) m (first_error e ''stream full''))"
      by (simp add: buf_ostream_def size_add_exact enc_error_def PB_SET_OERROR_def first_error_def)
    then show "\<exists>k e'. length cur + k \<le> m \<and> k < ?n \<and>
        ?body (buf_ostream pre cur m e) = Some (False, buf_ostream pre (cur @ take k out) m e')"
      using a by (intro exI [of _ 0] exI [of _ "first_error e ''stream full''"]) auto
  qed
  show ?thesis
    unfolding delimited_def using message_emitter_seq [OF message_emitter_lift [OF var] body]
    by (simp add: sub [abs_def])
qed

section \<open>The encoders of the field types\<close>

lemma emitter_tag:
  assumes "wt < 8"
  shows "emitter (\<lambda>s. pb_encode_tag s wt (f_tag field)) (tag_bytes field wt)"
proof -
  have "push_bit 3 (ucast (f_tag field)) OR of_nat wt = (of_nat wt + push_bit 3 (ucast (f_tag field)) :: u64)"
    using word_or_push_bit [of "of_nat wt :: u64" 3 "ucast (f_tag field)"] assms by (simp add: unat_of_nat or.commute)
  moreover have "unat (f_tag field) < 2 ^ 32" using unsigned_less [of "f_tag field", where 'a = nat] by simp
  ultimately have "unat (push_bit 3 (ucast (f_tag field)) OR of_nat wt :: u64) = unat (f_tag field) * 8 + wt"
    using assms by (simp add: unat_word_ariths unat_push_bit unat_ucast unat_of_nat)
  then show ?thesis
    using emitter_varint [of "push_bit 3 (ucast (f_tag field)) OR of_nat wt"]
    by (simp add: pb_encode_tag_def [abs_def] tag_bytes_def)
qed

lemma emitter_field_tag:
  assumes "wire_type field = Some wt"
  shows "emitter (pb_encode_tag_for_field field :: 's pb_ostream \<Rightarrow> _) (tag_bytes field wt)"
proof -
  have "wt < 8" "pb_encode_tag_for_field field = (\<lambda>s :: 's pb_ostream. pb_encode_tag s wt (f_tag field))"
    using assms by (auto simp: wire_type_def pb_encode_tag_for_field_def [abs_def] Let_def wire_type_defs split: if_splits)
  then show ?thesis using emitter_tag [of wt field] by simp
qed

lemma length_rd_bytes [simp]: "length (rd_bytes m p n) = n"
  by (simp add: rd_bytes_def)

lemma le_bytes_take_bit: "8 * n \<le> k \<Longrightarrow> le_bytes n (take_bit k v) = le_bytes n v" for v :: "'a::len word"
proof (induction n arbitrary: k v)
  case (Suc n)
  have "(ucast (take_bit k v) :: byte) = ucast v" by (rule bit_word_eqI) (use Suc.prems in \<open>auto simp: bit_simps\<close>)
  then show ?case using Suc.IH [of "k - 8"] Suc.prems by (simp add: drop_bit_take_bit)
qed simp

lemma le_bytes_le_word: "8 * length bs \<le> LENGTH('a) \<Longrightarrow> le_bytes (length bs) (le_word bs :: 'a::len word) = bs"
proof (induction bs)
  case (Cons b bs)
  let ?w = "le_word bs :: 'a word"
  have "(ucast (ucast b OR push_bit 8 ?w) :: byte) = b"
    by (rule bit_word_eqI) (use Cons.prems in \<open>auto simp: bit_simps\<close>)
  moreover have "drop_bit 8 (ucast b OR push_bit 8 ?w) = take_bit (LENGTH('a) - 8) ?w"
    by (rule bit_word_eqI) (auto simp: bit_simps dest: bit_imp_le_length)
  ultimately show ?case using Cons le_bytes_take_bit [of "length bs" "LENGTH('a) - 8" ?w] by simp
qed simp

lemma le_bytes_rd_word:
  "le_bytes 4 (rd_word m p :: u32) = rd_bytes m p 4" "le_bytes 8 (rd_word m p :: u64) = rd_bytes m p 8"
  using le_bytes_le_word [of "rd_bytes m p 4", where 'a = 32] le_bytes_le_word [of "rd_bytes m p 8", where 'a = 64]
  by (simp_all add: rd_word_def)

lemma emitter_ints:
  "int_field m field p = Some v \<Longrightarrow> emitter (pb_enc_varint m field p) (leb128 (unat v))"
  "uint_field m field p = Some v \<Longrightarrow> emitter (pb_enc_uvarint m field p) (leb128 (unat v))"
  "int_field m field p = Some v \<Longrightarrow> emitter (pb_enc_svarint m field p) (leb128 (unat (zigzag v)))"
  using varint_out.emitter_axioms [of v] svarint_out.emitter_axioms [of v]
  by (auto simp: int_field_def uint_field_def pb_enc_varint_def [abs_def] pb_enc_uvarint_def [abs_def]
      pb_enc_svarint_def [abs_def] split: if_splits)

lemma emitter_bool: "emitter (pb_enc_bool m field p) (leb128 (if m p \<noteq> 0 then 1 else 0))"
  using emitter_varint [of "if m p \<noteq> 0 then 1 else 0"]
  by (auto simp: pb_enc_bool_def [abs_def] safe_read_bool_def)

lemma emitter_fixed:
  "emitter (pb_enc_fixed32 m field p) (rd_bytes m p 4)" "emitter (pb_enc_fixed64 m field p) (rd_bytes m p 8)"
  using fixed32_out.emitter_axioms [of "rd_word m p"] fixed64_out.emitter_axioms [of "rd_word m p"]
  by (simp_all add: pb_enc_fixed32_def [abs_def] pb_enc_fixed64_def [abs_def] le_bytes_rd_word)

interpretation nothing_out: message_emitter enc_ok "[]"
  by (rule message_emitter_ok)

interpretation bool_field_out: message_emitter "enc_lift (pb_enc_bool m field p)" "leb128 (if m p \<noteq> 0 then 1 else 0)" for m field p
  by (intro message_emitter_lift emitter_bool)

interpretation fixed32_field_out: message_emitter "enc_lift (pb_enc_fixed32 m field p)" "rd_bytes m p 4" for m field p
  by (intro message_emitter_lift emitter_fixed)

interpretation fixed64_field_out: message_emitter "enc_lift (pb_enc_fixed64 m field p)" "rd_bytes m p 8" for m field p
  by (intro message_emitter_lift emitter_fixed)

lemma emitter_delimited: "length bs < SIZE_LIMIT \<Longrightarrow> emitter (\<lambda>s. pb_encode_string s bs) (delimited bs)"
  unfolding delimited_def by (rule emitter_string)

lemma length_delimited: "length bs \<le> length (delimited bs)"
  by (simp add: delimited_def)

lemma payload_emitter:
  assumes v: "payload sub m field p = Some bs" and len: "length bs < SIZE_LIMIT"
    and sub: "\<And>t q out. t \<noteq> Null \<Longrightarrow> sub t q = Some out \<Longrightarrow> length out < SIZE_LIMIT \<Longrightarrow> message_emitter (enc (ptr_table T t) q) out"
    and null: "\<And>q. sub Null q = None"
  shows "message_emitter (PB_ENCODERS T enc m (PB_LTYPE (f_type field)) field p) bs"
proof -
  let ?lt = "PB_LTYPE (f_type field)"
  have bytes: "message_emitter (enc_lift (\<lambda>s. pb_encode_string s b)) (delimited b)" if "length (delimited b) < SIZE_LIMIT" for b
    using that length_delimited [of b] by (intro message_emitter_lift emitter_delimited) simp
  consider (byte) "?lt = PB_LTYPE_BYTES" | (str) "?lt = PB_LTYPE_STRING" | (msg) "?lt = PB_LTYPE_SUBMESSAGE"
    | (fixb) "?lt = PB_LTYPE_FIXED_LENGTH_BYTES"
    | (num) "?lt \<in> {PB_LTYPE_BOOL, PB_LTYPE_VARINT, PB_LTYPE_UVARINT, PB_LTYPE_SVARINT, PB_LTYPE_FIXED32, PB_LTYPE_FIXED64}"
    using v by (auto simp: payload_def Let_def split: if_splits)
  then show ?thesis
  proof cases
    case num
    then show ?thesis using v
      by (auto simp: payload_def PB_ENCODERS_def pb_types(1-13) intro!: message_emitter_lift emitter_ints emitter_bool emitter_fixed)
  next
    case byte
    then show ?thesis using v len bytes
      by (auto simp: payload_def PB_ENCODERS_def pb_types(1-13) pb_enc_bytes_def [abs_def] split: if_splits)
  next
    case str
    then show ?thesis using v len bytes
      by (auto simp: payload_def PB_ENCODERS_def pb_types(1-13) pb_enc_string_def [abs_def] Let_def rd_bytes_def split: if_splits)
  next
    case fixb
    then show ?thesis using v len bytes
      by (auto simp: payload_def PB_ENCODERS_def pb_types(1-13) pb_enc_fixed_length_bytes_def [abs_def] split: if_splits)
  next
    case msg
    then obtain out where out: "sub (f_ptr field) p = Some out" "bs = delimited out"
      using v by (auto simp: payload_def pb_types(1-13))
    then have nn: "f_ptr field \<noteq> Null" using null by auto
    have "length out < SIZE_LIMIT" using len out length_delimited [of out] by simp
    then have "message_emitter (pb_encode_submessage enc (ptr_table T (f_ptr field)) p) bs"
      unfolding out(2) by (intro message_emitter_submessage sub nn out(1))
    moreover have "PB_ENCODERS T enc m ?lt field p = pb_encode_submessage enc (ptr_table T (f_ptr field)) p"
      using msg nn by (simp add: PB_ENCODERS_def pb_types(1-13) pb_enc_submessage_def [abs_def])
    ultimately show ?thesis by simp
  qed
qed

section \<open>Arrays, fields and messages emit their wire format\<close>

lemma concat_all_length:
  "concat_all f xs = Some bs \<Longrightarrow> (\<And>x b. f x = Some b \<Longrightarrow> length b = k) \<Longrightarrow> length bs = k * length xs"
  by (induction xs arbitrary: bs) (auto split: option.splits)

lemma packed_emitter:
  assumes data: "concat_all (payload sub m field) items = Some out" and len: "length out < SIZE_LIMIT"
    and val: "\<And>q b. payload sub m field q = Some b \<Longrightarrow> length b < SIZE_LIMIT \<Longrightarrow> message_emitter (func field q) b"
    and items: "items = map (\<lambda>i. p + i * data_size field) [0..<count]"
  shows "message_emitter (encode_packed field count items func) (delimited out)"
proof -
  have all: "message_emitter (enc_all (func field) items) out"
    by (rule message_emitter_all [OF data]) (use val len in auto)
  let ?sz = "if PB_LTYPE (f_type field) = PB_LTYPE_FIXED32 then Some (Some (4 * count mod SIZE_LIMIT))
     else if PB_LTYPE (f_type field) = PB_LTYPE_FIXED64 then Some (Some (8 * count mod SIZE_LIMIT))
     else map_option (\<lambda>(ok, sizestream). if ok then Some (bytes_written sizestream) else None)
            (enc_all (func field) items PB_OSTREAM_SIZING)"
  have sz: "?sz = Some (Some (length out))"
  proof -
    have four: "length out = 4 * count" if lt: "PB_LTYPE (f_type field) = PB_LTYPE_FIXED32"
    proof -
      have "length b = 4" if "payload sub m field x = Some b" for x b
        using that lt by (auto simp: payload_def pb_types(1-13))
      from concat_all_length [OF data this] show ?thesis by (simp add: items)
    qed
    have eight: "length out = 8 * count" if lt: "PB_LTYPE (f_type field) = PB_LTYPE_FIXED64"
    proof -
      have "length b = 8" if "payload sub m field x = Some b" for x b
        using that lt by (auto simp: payload_def pb_types(1-13))
      from concat_all_length [OF data this] show ?thesis by (simp add: items)
    qed
    show ?thesis
      using four eight message_emitter_sizing [OF all len] len by (auto simp: size_ostream_def)
  qed
  show ?thesis
    unfolding delimited_def encode_packed_def [abs_def] sz
    using message_emitter_seq [OF message_emitter_lift [OF emitter_size [OF len]] message_emitter_counted [OF all]]
    by (simp add: enc_seq_def [abs_def] enc_lift_def)
qed

lemma array_emitter:
  assumes rep: "repeated_bytes sub m field p count = Some bs" and len: "length bs < SIZE_LIMIT"
    and val: "\<And>q b. payload sub m field q = Some b \<Longrightarrow> length b < SIZE_LIMIT \<Longrightarrow> message_emitter (func field q) b"
  shows "message_emitter (encode_array m field p count func :: 's encoder) bs"
proof -
  let ?items = "map (\<lambda>i. p + i * data_size field) [0..<count]"
  consider (none) "count = 0" "bs = []"
    | (packed) out where "0 < count" "\<not> (PB_ATYPE (f_type field) \<noteq> PB_ATYPE_POINTER \<and> array_size field < count)"
        "PB_LTYPE (f_type field) \<le> PB_LTYPE_LAST_PACKABLE" "concat_all (payload sub m field) ?items = Some out"
        "bs = tag_bytes field PB_WT_STRING @ delimited out"
    | (single) "0 < count" "\<not> (PB_ATYPE (f_type field) \<noteq> PB_ATYPE_POINTER \<and> array_size field < count)"
        "\<not> PB_LTYPE (f_type field) \<le> PB_LTYPE_LAST_PACKABLE"
        "concat_all (\<lambda>q. tagged field (payload sub m field (array_item m field q))) ?items = Some bs"
    using rep by (auto simp: repeated_bytes_def Let_def split: if_splits)
  then show ?thesis
  proof cases
    case none
    then show ?thesis using message_emitter_ok by (simp add: encode_array_def [abs_def] enc_ok_def [abs_def])
  next
    case packed
    have "length out < SIZE_LIMIT" using len packed(5) length_delimited [of out] by simp
    note body = packed_emitter [where func = func, OF packed(4) this val refl]
    have "wt < 8 \<Longrightarrow> message_emitter (enc_lift (\<lambda>s. pb_encode_tag s wt (f_tag field))) (tag_bytes field wt)" for wt
      by (intro message_emitter_lift emitter_tag)
    from message_emitter_seq [OF this [of PB_WT_STRING] body]
    have "message_emitter (enc_seq (enc_lift (\<lambda>s. pb_encode_tag s PB_WT_STRING (f_tag field)))
        (encode_packed field count ?items func)) bs"
      by (simp add: wire_type_defs packed(5))
    moreover have "encode_array m field p count func = enc_seq (enc_lift (\<lambda>s. pb_encode_tag s PB_WT_STRING (f_tag field)))
        (encode_packed field count ?items func)"
      using packed(1-3) by (intro ext) (auto simp: encode_array_def Let_def)
    ultimately show ?thesis by simp
  next
    case single
    have "message_emitter (enc_all (\<lambda>q. enc_seq (enc_lift (pb_encode_tag_for_field field)) (func field (array_item m field q))) ?items) bs"
    proof (rule message_emitter_all [OF single(4)])
      fix x o'
      assume "tagged field (payload sub m field (array_item m field x)) = Some o'" "length o' \<le> length bs"
      then show "message_emitter (enc_seq (enc_lift (pb_encode_tag_for_field field)) (func field (array_item m field x))) o'"
        using len by (auto simp: tagged_def split: option.splits
            intro!: message_emitter_seq message_emitter_lift emitter_field_tag val)
    qed
    moreover have "encode_array m field p count func =
        enc_all (\<lambda>q. enc_seq (enc_lift (pb_encode_tag_for_field field)) (func field (array_item m field q))) ?items"
      using single(1-3) by (intro ext) (auto simp: encode_array_def Let_def)
    ultimately show ?thesis by simp
  qed
qed

lemma tagged_emitter:
  assumes "tagged field v = Some bs" and "length bs < SIZE_LIMIT"
    and "\<And>b. v = Some b \<Longrightarrow> length b < SIZE_LIMIT \<Longrightarrow> message_emitter wr b"
  shows "message_emitter (enc_seq (enc_lift (pb_encode_tag_for_field field)) wr) bs"
  using assms by (auto simp: tagged_def split: option.splits
      intro!: message_emitter_seq message_emitter_lift emitter_field_tag)

lemma PB_HTYPE_cases: "PB_HTYPE t \<in> {PB_HTYPE_REQUIRED, PB_HTYPE_OPTIONAL, PB_HTYPE_REPEATED, PB_HTYPE_ONEOF}"
proof -
  let ?u = "take_bit 2 (drop_bit 4 t)"
  have m: "(0x30 :: byte) = push_bit 4 (mask 2)" by (simp add: push_bit_eq_mult mask_eq_exp_minus_1)
  have eq: "PB_HTYPE t = push_bit 4 ?u"
    unfolding PB_HTYPE_def m by (rule bit_word_eqI) (auto simp: bit_simps)
  have "unat ?u < 4" using take_bit_nat_less_exp [of 2 "unat (drop_bit 4 t)"] by (simp add: unat_take_bit)
  then consider "unat ?u = 0" | "unat ?u = 1" | "unat ?u = 2" | "unat ?u = 3" by linarith
  then have "?u = 0 \<or> ?u = 1 \<or> ?u = 2 \<or> ?u = 3"
    by cases (simp_all add: word_unat_eq_iff)
  moreover have "push_bit 4 1 = (16 :: byte)" "push_bit 4 2 = (32 :: byte)" "push_bit 4 3 = (48 :: byte)"
    by (simp_all add: push_bit_eq_mult)
  ultimately show ?thesis
    unfolding eq by (elim disjE) (simp_all only: pb_types(13-16) push_bit_of_0 insert_iff simp_thms)
qed

lemma basic_field_emitter:
  assumes bs: "field_bytes n (tables P) sub m field p = Some bs" and len: "length bs < SIZE_LIMIT"
    and at: "PB_ATYPE (f_type field) = PB_ATYPE_STATIC \<or> PB_ATYPE (f_type field) = PB_ATYPE_POINTER"
    and noext: "PB_LTYPE (f_type field) \<noteq> PB_LTYPE_EXTENSION"
    and val: "\<And>q b. payload sub m field q = Some b \<Longrightarrow> length b < SIZE_LIMIT \<Longrightarrow>
                message_emitter (PB_ENCODERS (tables P) enc m (PB_LTYPE (f_type field)) field q) b"
  shows "message_emitter (encode_basic_field P n enc m field p) bs"
proof -
  let ?ptr = "PB_ATYPE (f_type field) = PB_ATYPE_POINTER" and ?ht = "PB_HTYPE (f_type field)"
  let ?q = "if ?ptr then rd_ptr m p else p" and ?pSize = "ptr_offset p (size_offset field)"
  let ?func = "PB_ENCODERS (tables P) enc m (PB_LTYPE (f_type field))"
  let ?emit = "enc_seq (enc_lift (pb_encode_tag_for_field field)) (?func field ?q)"
  let ?one = "tagged field (payload sub m field ?q)"
  have emit: "message_emitter ?emit bs" if "?one = Some bs" using that len val by (intro tagged_emitter) auto
  have not_callback: "PB_ATYPE (f_type field) \<noteq> PB_ATYPE_CALLBACK" using at by (auto simp: pb_types)
  note fb = bs [unfolded field_bytes_def Let_def] and basic = encode_basic_field_def [abs_def] Let_def
  consider (req) "?ht = PB_HTYPE_REQUIRED" | (opt) "?ht = PB_HTYPE_OPTIONAL" | (rep) "?ht = PB_HTYPE_REPEATED" | (one) "?ht = PB_HTYPE_ONEOF"
    using PB_HTYPE_cases [of "f_type field"] by auto
  then show ?thesis
  proof cases
    case req
    then have "?q \<noteq> 0" "?one = Some bs" using fb at noext not_callback by (auto split: if_splits)
    moreover have "encode_basic_field P n enc m field p = ?emit"
      by (rule ext) (use \<open>?q \<noteq> 0\<close> req in \<open>auto simp: basic pb_types(1-19) split: if_splits\<close>)
    ultimately show ?thesis using emit by simp
  next
    case opt
    obtain d where d: "(if size_offset field \<noteq> 0 then Some False else map_option Not (pb_check_proto3_default_value n (tables P) m field p)) = Some d"
      and bs': "(if (if size_offset field \<noteq> 0 then safe_read_bool m ?pSize else if ?ptr then ?q \<noteq> 0 else d) then ?one else Some []) = Some bs"
      using fb at noext not_callback opt by (auto simp: pb_types(1-19) split: if_splits option.splits)
    have "encode_basic_field P n enc m field p =
        (if (if size_offset field \<noteq> 0 then safe_read_bool m ?pSize else if ?ptr then ?q \<noteq> 0 else d) then ?emit else enc_ok)"
      by (rule ext) (use opt d in \<open>auto simp: basic pb_types(1-19) split: if_splits\<close>)
    then show ?thesis using emit bs' message_emitter_ok by (auto split: if_splits)
  next
    case rep
    then have r: "repeated_bytes sub m field ?q (if size_offset field \<noteq> 0 then rd_size m ?pSize else array_size field) = Some bs"
      using fb at noext not_callback by (auto simp: pb_types(1-19) split: if_splits)
    have "encode_basic_field P n enc m field p =
        encode_array m field ?q (if size_offset field \<noteq> 0 then rd_size m ?pSize else array_size field) ?func"
      by (rule ext) (use rep in \<open>auto simp: basic pb_types(1-19) split: if_splits\<close>)
    then show ?thesis using array_emitter [OF r len, of ?func] val by simp
  next
    case one
    then have off: "size_offset field \<noteq> 0" and bs': "(if rd_word m ?pSize = f_tag field then ?one else Some []) = Some bs"
      using fb at noext not_callback by (auto simp: pb_types(1-19) split: if_splits)
    have "encode_basic_field P n enc m field p = (if rd_word m ?pSize = f_tag field then ?emit else enc_ok)"
      by (rule ext) (use one off in \<open>auto simp: basic pb_types(1-19) split: if_splits\<close>)
    then show ?thesis using emit bs' message_emitter_ok by (auto split: if_splits)
  qed
qed
lemma field_emitter:
  assumes bs: "field_bytes n (tables P) sub m field p = Some bs" and len: "length bs < SIZE_LIMIT"
    and val: "\<And>q b. payload sub m field q = Some b \<Longrightarrow> length b < SIZE_LIMIT \<Longrightarrow>
                message_emitter (PB_ENCODERS (tables P) enc m (PB_LTYPE (f_type field)) field q) b"
  shows "message_emitter (if PB_LTYPE (f_type field) = PB_LTYPE_EXTENSION then encode_extension_field P n enc m p
                          else encode_field P n enc m field p) bs"
proof -
  consider (ext) "PB_LTYPE (f_type field) = PB_LTYPE_EXTENSION" "rd_ptr m p = 0" "0 < n" "bs = []"
    | (call) "PB_LTYPE (f_type field) \<noteq> PB_LTYPE_EXTENSION" "PB_ATYPE (f_type field) = PB_ATYPE_CALLBACK" "rd_ptr m p = 0" "bs = []"
    | (basic) "PB_LTYPE (f_type field) \<noteq> PB_LTYPE_EXTENSION"
        "PB_ATYPE (f_type field) = PB_ATYPE_STATIC \<or> PB_ATYPE (f_type field) = PB_ATYPE_POINTER"
    using bs by (auto simp: field_bytes_def Let_def split: if_splits)
  then show ?thesis
  proof cases
    case ext
    then have "encode_extension_field P n enc m p = enc_ok"
      by (cases n) (simp_all add: encode_extension_field_def fun_eq_iff)
    then show ?thesis using ext message_emitter_ok by simp
  next
    case call
    then have "encode_field P n enc m field p = enc_ok"
      by (intro HOL.ext) (auto simp: encode_field_def encode_callback_field_def pb_types(1-19))
    then show ?thesis using call message_emitter_ok by simp
  next
    case basic
    then have "encode_field P n enc m field p = encode_basic_field P n enc m field p"
      by (intro HOL.ext) (simp add: encode_field_def)
    then show ?thesis using basic basic_field_emitter [OF bs len basic(2,1) val] by simp
  qed
qed

theorem message_emitter_pb_encode:
  assumes "message_bytes n (tables P) m fs src = Some bs" and "length bs < SIZE_LIMIT"
  shows "message_emitter (pb_encode P n m fs src) bs"
  using assms
proof (induction n arbitrary: fs src bs)
  case (Suc n)
  let ?sub = "\<lambda>ptr q. if ptr = Null then None else message_bytes n (tables P) m (ptr_table (tables P) ptr) q"
  have val: "message_emitter (PB_ENCODERS (tables P) (pb_encode P n m) m (PB_LTYPE (f_type field)) field q) b"
    if "payload ?sub m field q = Some b" "length b < SIZE_LIMIT" for field q b
    by (rule payload_emitter [OF that]) (use Suc.IH in auto)
  have "pb_encode P (Suc n) m fs src = enc_all (\<lambda>iter. if PB_LTYPE (f_type (field_at iter)) = PB_LTYPE_EXTENSION
                     then encode_extension_field P n (pb_encode P n m) m (pData iter)
                     else encode_field P n (pb_encode P n m) m (field_at iter) (pData iter)) (message_walk fs src)"
    by (rule ext) simp
  moreover have "message_emitter (enc_all (\<lambda>iter. if PB_LTYPE (f_type (field_at iter)) = PB_LTYPE_EXTENSION
                     then encode_extension_field P n (pb_encode P n m) m (pData iter)
                     else encode_field P n (pb_encode P n m) m (field_at iter) (pData iter)) (message_walk fs src)) bs"
    by (rule message_emitter_all [OF Suc.prems(1) [unfolded message_bytes.simps]])
       (rule field_emitter, assumption, use Suc.prems(2) val in auto)
  ultimately show ?case by simp
qed simp

section \<open>The fields of a message\<close>

lemma iter_walk_at:
  assumes "table_ok fs" and "dest \<noteq> 0" and "i < field_count fs" and "field_count fs \<le> i + k"
  shows "iter_walk k (iter_at fs dest i) = map (iter_at fs dest) [i..<field_count fs]"
  using assms(3,4)
proof (induction k arbitrary: i)
  case (Suc k)
  show ?case
  proof (cases "Suc i < field_count fs")
    case True
    then show ?thesis using Suc by (simp add: iter_next [OF assms(1) _ assms(2)] upt_conv_Cons)
  next
    case False
    then have "[i..<field_count fs] = [i]" using Suc.prems(1) by (simp add: upt_conv_Cons)
    with False show ?thesis by (simp add: iter_next [OF assms(1) Suc.prems(1) assms(2)])
  qed
qed simp

lemma message_walk_at:
  assumes "table_ok fs" and "dest \<noteq> 0"
  shows "message_walk fs dest = map (iter_at fs dest) [0..<field_count fs]"
proof (cases "field_count fs")
  case 0
  then show ?thesis using table_tags(1) [OF assms(1)] by (simp add: message_walk_def iter_begin [OF assms(2)])
next
  case (Suc n)
  then have "f_tag (fs ! 0) \<noteq> 0" using table_tags(2) [OF assms(1), of 0] by simp
  then show ?thesis
    using iter_walk_at [OF assms, of 0 "length fs"] Suc by (simp add: message_walk_def iter_begin [OF assms(2)] field_count_def)
qed

section \<open>Encoding ends\<close>

text \<open>
  A bound on the nesting of a message type: the tables are terminated, there is no extension range
  (their lists live in memory and may be cyclic) and submessages are nested less deep.
\<close>

fun depth_ok :: "nat \<Rightarrow> (nat \<Rightarrow> pb_field list) \<Rightarrow> pb_field list \<Rightarrow> bool" where
  "depth_ok 0 T fs = False"
| "depth_ok (Suc d) T fs \<longleftrightarrow> table_ok fs \<and> (\<forall>f \<in> set fs. PB_LTYPE (f_type f) \<noteq> PB_LTYPE_EXTENSION \<and>
     (PB_LTYPE (f_type f) = PB_LTYPE_SUBMESSAGE \<longrightarrow> depth_ok d T (ptr_table T (f_ptr f))))"

lemma pb_field_iter_next_inside:
  assumes "table_ok fs" and "start iter = fs" and "pos iter < field_count fs" and "pb_field_iter_next iter = (True, iter')"
  shows "start iter' = fs" and "pos iter' < field_count fs"
proof -
  have n: "start iter' = fs" "pos iter' = Suc (pos iter)" "f_tag (fs ! Suc (pos iter)) \<noteq> 0"
    using assms(2,4) by (auto simp: pb_field_iter_next_def Let_def field_at_def split: if_splits)
  then show "start iter' = fs" "pos iter' < field_count fs"
    using assms(3) table_tags(1) [OF assms(1)] Suc_lessI by (simp, metis)
qed

lemma message_walk_fields:
  assumes "table_ok fs" and "iter \<in> set (message_walk fs src)"
  shows "field_at iter \<in> set fs"
proof -
  have inside: "start it' = fs \<and> pos it' < field_count fs"
    if "it' \<in> set (iter_walk k it)" "start it = fs" "pos it < field_count fs" for k it it'
    using that
  proof (induction k arbitrary: it)
    case (Suc k)
    then show ?case using pb_field_iter_next_inside [OF assms(1), of it]
      by (cases "pb_field_iter_next it") (auto split: if_splits)
  qed simp
  have "f_tag (fs ! 0) \<noteq> 0 \<Longrightarrow> 0 < field_count fs"
    using table_tags(1) [OF assms(1)] by (cases "field_count fs") auto
  then have "start iter = fs \<and> pos iter < field_count fs"
    using assms(2) inside by (auto simp: message_walk_def pb_field_iter_begin_def field_at_def Let_def split: if_splits)
  then show ?thesis using table_tags(3) [OF assms(1)] by (simp add: field_at_def)
qed

lemma enc_seq_total: "f s \<noteq> None \<Longrightarrow> (\<And>s. g s \<noteq> None) \<Longrightarrow> enc_seq f g s \<noteq> None"
  by (auto simp: enc_seq_def)

lemma enc_total [simp]: "enc_lift h s \<noteq> None" "enc_ok s \<noteq> None" "enc_error msg s \<noteq> None"
  by (simp_all add: enc_lift_def enc_ok_def enc_error_def)

lemma enc_all_total: "(\<And>x s. x \<in> set xs \<Longrightarrow> f x s \<noteq> None) \<Longrightarrow> enc_all f xs s \<noteq> None"
proof (induction xs arbitrary: s)
  case (Cons x xs)
  then show ?case unfolding enc_all.simps by (intro enc_seq_total) auto
qed simp

lemma all_fields_total: "(\<And>x. x \<in> set xs \<Longrightarrow> P x \<noteq> None) \<Longrightarrow> all_fields P xs \<noteq> None"
  by (induction xs) (auto split: option.splits)

lemma submessage_total:
  assumes "\<And>s. enc fs src s \<noteq> None"
  shows "pb_encode_submessage enc fs src s \<noteq> None"
proof -
  have e: "enc fs src s = None \<longleftrightarrow> False" for s using assms by simp
  show ?thesis
    by (auto simp: pb_encode_submessage_def enc_error_def Let_def e split: option.split prod.split bool.split)
qed

lemma if_total: "(b \<Longrightarrow> x \<noteq> None) \<Longrightarrow> (\<not> b \<Longrightarrow> y \<noteq> None) \<Longrightarrow> (if b then x else y) \<noteq> None"
  by simp

lemma default_check_total:
  "depth_ok d T fs \<Longrightarrow> field \<in> set fs \<Longrightarrow> pb_check_proto3_default_value d T m field p \<noteq> None"
proof (induction d arbitrary: fs field p)
  case (Suc d)
  have sub: "all_fields (\<lambda>iter. pb_check_proto3_default_value d T m (field_at iter) (pData iter))
      (message_walk (ptr_table T (f_ptr field)) p) \<noteq> None" if lt: "PB_LTYPE (f_type field) = PB_LTYPE_SUBMESSAGE"
  proof -
    have dp: "depth_ok d T (ptr_table T (f_ptr field))" using Suc.prems lt by simp
    then have "table_ok (ptr_table T (f_ptr field))" by (cases d) simp_all
    then show ?thesis by (intro all_fields_total Suc.IH [OF dp] message_walk_fields)
  qed
  then show ?case
    unfolding pb_check_proto3_default_value.simps Let_def by (intro if_total) (simp_all del: not_None_eq)
qed simp

lemma encoders_total:
  assumes "PB_LTYPE (f_type field) = PB_LTYPE_SUBMESSAGE \<Longrightarrow> \<forall>src s. enc (ptr_table T (f_ptr field)) src s \<noteq> None"
  shows "(PB_ENCODERS T enc m (PB_LTYPE (f_type field)) field q :: 's encoder) s \<noteq> None"
proof -
  have app: "(if b then f else g) s = (if b then f s else g s)" for b and f g :: "'s encoder" by simp
  have sub: "pb_enc_submessage T enc field q s \<noteq> None" if "PB_LTYPE (f_type field) = PB_LTYPE_SUBMESSAGE"
    unfolding pb_enc_submessage_def by (intro if_total submessage_total) (use assms [OF that] in simp_all)
  show ?thesis
    unfolding PB_ENCODERS_def app by (intro if_total) (simp_all add: sub del: not_None_eq)
qed

lemma array_total:
  assumes "\<And>q s. func field q s \<noteq> None"
  shows "encode_array m field p count func s \<noteq> None"
proof -
  have all: "enc_all (func field) items s \<noteq> None" for items s using assms by (intro enc_all_total)
  have data: "enc_seq (enc_lift (\<lambda>s. pb_encode_varint s (of_nat k)))
      (\<lambda>s. if is_sizing (sink s) then Some (pb_write s [] k) else enc_all (func field) items s) s \<noteq> None" for items k s
    by (intro enc_seq_total if_total all) simp_all
  have packed: "encode_packed field count items func s \<noteq> None" for items s
    using all [of items PB_OSTREAM_SIZING] data [where items = items]
    by (auto simp: encode_packed_def simp del: not_None_eq split: option.split if_splits)
  show ?thesis
    unfolding encode_array_def Let_def using assms packed
    by (intro if_total enc_seq_total enc_all_total) (simp_all del: not_None_eq)
qed

lemma field_total:
  assumes check: "pb_check_proto3_default_value n (tables P) m field p \<noteq> None"
    and enc: "PB_LTYPE (f_type field) = PB_LTYPE_SUBMESSAGE \<Longrightarrow> \<forall>src s. enc (ptr_table (tables P) (f_ptr field)) src s \<noteq> None"
  shows "encode_field P n enc m field p s \<noteq> None"
proof -
  let ?func = "PB_ENCODERS (tables P) enc m (PB_LTYPE (f_type field))"
  have func: "?func field q s \<noteq> None" for q s
    by (rule encoders_total) (rule enc)
  have emit: "enc_seq (enc_lift (pb_encode_tag_for_field field)) (?func field q) s \<noteq> None" for q s
    by (intro enc_seq_total func) simp
  have "(if size_offset field \<noteq> 0 then Some False
      else if PB_HTYPE (f_type field) = PB_HTYPE_OPTIONAL then map_option Not (pb_check_proto3_default_value n (tables P) m field p)
      else Some True) \<noteq> None" (is "?implicit \<noteq> None")
    by (intro if_total) (use check in simp_all)
  then obtain d where d: "?implicit = Some d" by blast
  have "encode_basic_field P n enc m field p s \<noteq> None"
    unfolding encode_basic_field_def Let_def d option.case
    by (intro if_total emit array_total func) (simp_all del: not_None_eq)
  moreover have "encode_callback_field P m field p s \<noteq> None"
    unfolding encode_callback_field_def
    by (intro if_total) (auto simp: enc_error_def enc_ok_def split: prod.split bool.split)
  ultimately show ?thesis
    unfolding encode_field_def Let_def by (intro if_total) (simp_all del: not_None_eq)
qed

lemma pb_encode_total: "depth_ok d (tables P) fs \<Longrightarrow> pb_encode P (Suc d) m fs src s \<noteq> None"
proof (induction d arbitrary: fs src s)
  case (Suc d)
  have "encode_field P (Suc d) (pb_encode P (Suc d) m) m (field_at iter) (pData iter) s \<noteq> None"
    "PB_LTYPE (f_type (field_at iter)) \<noteq> PB_LTYPE_EXTENSION"
    if "iter \<in> set (message_walk fs src)" for iter s
  proof -
    have f: "field_at iter \<in> set fs" using message_walk_fields [OF _ that] Suc.prems by simp
    then show "PB_LTYPE (f_type (field_at iter)) \<noteq> PB_LTYPE_EXTENSION" using Suc.prems by simp
    show "encode_field P (Suc d) (pb_encode P (Suc d) m) m (field_at iter) (pData iter) s \<noteq> None"
      by (rule field_total [OF default_check_total [OF Suc.prems f]]) (use Suc.prems f Suc.IH in auto)
  qed
  then show ?case by (subst pb_encode.simps) (intro enc_all_total, simp)
qed simp

section \<open>The properties\<close>

text \<open>
  C3: the encoder writes the wire format. Whenever a structure has an encoding, the size that
  \<open>pb_get_encoded_size\<close> computes is its length, and \<open>pb_encode\<close> into a buffer with room for it stores
  exactly these bytes; \<open>pb_encode_delimited\<close> puts the length before them and
  \<open>pb_encode_nullterminated\<close> a zero byte behind them.
\<close>

theorem pb_encode_refines:
  assumes "message_bytes n (tables P) m fs src = Some bs" and "length bs + 10 < SIZE_LIMIT"
    and "length bs + 10 \<le> cap" and "cap < SIZE_LIMIT"
  shows "pb_get_encoded_size P n m fs src = Some (Some (length bs)) \<and>
    (\<exists>e. pb_encode P n m fs src (pb_ostream_from_buffer cap) = Some (True, buf_ostream [] bs cap e)) \<and>
    (\<exists>e. pb_encode_delimited P n m fs src (pb_ostream_from_buffer cap) =
       Some (True, buf_ostream [] (leb128 (length bs) @ bs) cap e)) \<and>
    (\<exists>e. pb_encode_nullterminated P n m fs src (pb_ostream_from_buffer cap) = Some (True, buf_ostream [] (bs @ [0]) cap e))"
proof -
  have len: "length bs < SIZE_LIMIT" using assms(2) by simp
  note enc = message_emitter_pb_encode [OF assms(1) len]
  have into: "\<exists>e. wr (buf_ostream [] [] cap None) = Some (True, buf_ostream [] out cap e)"
    if "message_emitter wr out" "length out \<le> cap" for wr out
    using message_emitter.emits [OF that(1), of "[]" cap "[]" None] that(2) assms(4) by simp
  have "length (leb128 (length bs)) \<le> 10"
    using len by (intro length_leb128_u64) (simp add: SIZE_LIMIT_def)
  then have "length (delimited bs) \<le> cap" using assms(3) by (simp add: delimited_def)
  moreover have "message_emitter (pb_encode_delimited P n m fs src) (delimited bs)"
    unfolding pb_encode_delimited_def [abs_def] by (rule message_emitter_submessage [of "pb_encode P n m", OF enc len])
  moreover have "message_emitter (pb_encode_nullterminated P n m fs src) (bs @ [0])"
    unfolding pb_encode_nullterminated_def [abs_def]
    using message_emitter_seq [OF enc message_emitter_lift [OF emitter_write [of "[0]"]]] by (simp add: SIZE_LIMIT_def)
  ultimately show ?thesis
    using into [OF enc] into [of "pb_encode_delimited P n m fs src"] into [of "pb_encode_nullterminated P n m fs src"] assms(3)
      message_emitter_sizing [OF enc len]
    by (simp add: pb_get_encoded_size_def size_ostream_def delimited_def pb_ostream_from_buffer_eq)
qed

text \<open>
  C16: the room of the buffer decides. \<open>pb_encode\<close> succeeds exactly when the encoding fits; otherwise
  it has stored a proper prefix of it, never more than the buffer holds.
\<close>

theorem pb_encode_fits:
  assumes "message_bytes n (tables P) m fs src = Some bs" and "length bs < SIZE_LIMIT" and "cap < SIZE_LIMIT"
  shows "\<exists>k e. pb_encode P n m fs src (pb_ostream_from_buffer cap) = Some (length bs \<le> cap, buf_ostream [] (take k bs) cap e) \<and>
    k \<le> cap \<and> k \<le> length bs \<and> (k = length bs \<longleftrightarrow> length bs \<le> cap)"
proof -
  note enc = message_emitter_pb_encode [OF assms(1,2)]
  show ?thesis
  proof (cases "length bs \<le> cap")
    case True
    then show ?thesis
      using message_emitter.emits [OF enc, of "[]" cap "[]" None] assms(3)
      by (auto simp: pb_ostream_from_buffer_eq intro!: exI [of _ "length bs"])
  next
    case False
    then show ?thesis
      using message_emitter.refuses [OF enc, of "[]" cap "[]" None] assms(2)
      by (force simp: pb_ostream_from_buffer_eq)
  qed
qed

text \<open>
  C36: encoding ends. On a message type without extension ranges whose submessages are nested less
  than \<open>d\<close> deep, whatever the memory holds - random counts, pointers and tags - and whatever the stream
  and the user's callbacks do, \<open>pb_encode\<close> returns a result within \<open>d + 1\<close> levels of recursion.
\<close>

theorem pb_encode_returns:
  assumes "depth_ok d (tables P) fs"
  shows "\<exists>ok s'. pb_encode P (Suc d) m fs src s = Some (ok, s')"
  using pb_encode_total [OF assms, of m src s] by auto

text \<open>A structure for the witnesses: a timestamp of 300 seconds at address 4096.\<close>

definition example_memory :: memory where
  "example_memory a = (if a = 4096 then 0x2C else if a = 4097 then 1 else 0)"

definition example_prog :: "unit pb_enc_prog" where
  "example_prog = \<lparr>tables = (\<lambda>_. Timestamp_fields), ext_field = (\<lambda>_. PB_LAST_FIELD),
     callback_encode = (\<lambda>_ _ _ s. (True, s)), ext_encode = (\<lambda>_ _ s. (True, s))\<rparr>"

lemma Timestamp_walk: "message_walk Timestamp_fields 4096 = [iter_at Timestamp_fields 4096 0, iter_at Timestamp_fields 4096 1]"
  by (simp add: message_walk_at Timestamp_table upt_rec)

lemma Timestamp_at:
  "Timestamp_fields ! 0 = \<lparr>f_tag = 1, f_type = 0x11, data_offset = 0, size_offset = 0, data_size = 8, array_size = 0, f_ptr = Null\<rparr>"
  "Timestamp_fields ! 1 = \<lparr>f_tag = 2, f_type = 0x11, data_offset = 0, size_offset = 0, data_size = 4, array_size = 0, f_ptr = Null\<rparr>"
  "field_addr Timestamp_fields 4096 0 = 4096" "field_addr Timestamp_fields 4096 1 = 4104"
  by (simp_all add: Timestamp_fields_def field_span_def same_union_def pb_types)

lemma example_bytes: "message_bytes 2 (tables example_prog) example_memory Timestamp_fields 4096 = Some [8, 0xAC, 2]"
proof -
  have "rd_word example_memory 4096 = (300 :: u64)"
    by (simp add: rd_word_def rd_bytes_def example_memory_def upt_rec push_bit_eq_mult)
  then have "field_bytes 1 T sub example_memory (Timestamp_fields ! 0) 4096 = Some [8, 0xAC, 2]" for T sub
    unfolding Timestamp_at by (simp add: field_bytes_def Let_def pb_types tagged_def wire_type_def tag_bytes_def payload_def int_field_def
        wire_type_defs example_memory_def leb128.simps upt_rec)
  moreover have "field_bytes 1 T sub example_memory (Timestamp_fields ! 1) 4104 = Some []" for T sub
    unfolding Timestamp_at by (simp add: field_bytes_def pb_types example_memory_def upt_rec Let_def)
  ultimately show ?thesis
    using Timestamp_at(3,4) by (simp add: numeral_2_eq_2 Timestamp_walk del: One_nat_def) (simp add: One_nat_def)
qed

theorem pb_encode_refines_witness:
  "pb_get_encoded_size example_prog 2 example_memory Timestamp_fields 4096 = Some (Some 3)"
  using pb_encode_refines [OF example_bytes, of 20] by (simp add: SIZE_LIMIT_def)

theorem pb_encode_fits_witness:
  "\<exists>k e. pb_encode example_prog 2 example_memory Timestamp_fields 4096 (pb_ostream_from_buffer 2) =
     Some (False, buf_ostream [] (take k [8, 0xAC, 2]) 2 e)"
  using pb_encode_fits [OF example_bytes, of 2] by (auto simp: SIZE_LIMIT_def)

theorem pb_encode_returns_witness:
  "pb_encode example_prog 2 (\<lambda>_. 255) Timestamp_fields 4096 PB_OSTREAM_SIZING \<noteq> None"
proof -
  have "depth_ok 1 (tables example_prog) Timestamp_fields"
    by (simp add: Timestamp_table) (simp add: Timestamp_fields_def PB_LAST_FIELD_def pb_types)
  from pb_encode_returns [OF this, of "\<lambda>_. 255" 4096 PB_OSTREAM_SIZING] show ?thesis by (auto simp: numeral_2_eq_2)
qed

text \<open>
  A proto3 message with one field \<open>bool *flag\<close> (\<open>FT_POINTER\<close>), and one that holds it as a static
  submessage without a \<open>has\<close> field.
\<close>

definition Flag_field :: pb_field where
  "Flag_field = \<lparr>f_tag = 1, f_type = PB_ATYPE_POINTER OR PB_HTYPE_OPTIONAL OR PB_LTYPE_BOOL, data_offset = 0, size_offset = 0,
     data_size = 1, array_size = 0, f_ptr = Null\<rparr>"

definition Holder_field :: pb_field where
  "Holder_field = \<lparr>f_tag = 1, f_type = PB_ATYPE_STATIC OR PB_HTYPE_OPTIONAL OR PB_LTYPE_SUBMESSAGE, data_offset = 0,
     size_offset = 0, data_size = 8, array_size = 0, f_ptr = Fields 0\<rparr>"

definition Flag_fields :: "pb_field list" where "Flag_fields = [Flag_field, PB_LAST_FIELD]"
definition Holder_fields :: "pb_field list" where "Holder_fields = [Holder_field, PB_LAST_FIELD]"

lemma Flag_Holder_sel:
  "f_tag Flag_field = 1" "f_type Flag_field = 0x90" "data_offset Flag_field = 0" "size_offset Flag_field = 0" "data_size Flag_field = 1"
  "f_tag Holder_field = 1" "f_type Holder_field = 0x18" "data_offset Holder_field = 0" "size_offset Holder_field = 0"
  "f_ptr Holder_field = Fields 0"
  by (simp_all add: Flag_field_def Holder_field_def pb_types)

lemma walk_single:
  assumes "src \<noteq> 0" and "f_tag f \<noteq> 0" and "data_offset f = 0"
  shows "\<exists>iter. message_walk [f, PB_LAST_FIELD] src = [iter] \<and> field_at iter = f \<and> pData iter = src"
  using assms by (simp add: message_walk_at table_ok_def field_count_def PB_LAST_FIELD_def)

text \<open>
  C37: the check for default values looks only at \<open>data_size\<close> bytes of a pointer to a number, although
  it means to compare the pointer with null. A submessage whose \<open>bool\<close> pointer is set, and whose own
  encoding has two bytes, is left out of the enclosing message when the low byte of the address is zero.
\<close>

theorem default_check_truncates_pointer:
  assumes "tables P 0 = Flag_fields" and "src \<noteq> 0" and "rd_ptr m src \<noteq> 0" and "m src = 0"
  shows "pb_get_encoded_size P (Suc (Suc (Suc n))) m Flag_fields src = Some (Some 2) \<and>
    pb_get_encoded_size P (Suc (Suc (Suc n))) m Holder_fields src = Some (Some 0)"
proof -
  note eval = Let_def pb_types Flag_Holder_sel and eval_bytes = field_bytes_def tagged_def wire_type_def wire_type_defs tag_bytes_def payload_def
  obtain fi hi where walks: "message_walk Flag_fields src = [fi]" "field_at fi = Flag_field" "pData fi = src"
      "message_walk Holder_fields src = [hi]" "field_at hi = Holder_field" "pData hi = src"
    using walk_single [OF assms(2), of Flag_field] walk_single [OF assms(2), of Holder_field]
    by (auto simp: Flag_fields_def Holder_fields_def Flag_Holder_sel)
  have flag: "pb_check_proto3_default_value (Suc k) T m Flag_field src = Some True" for k T
    using assms(4) by (simp add: eval)
  have holder: "pb_check_proto3_default_value (Suc (Suc n)) (tables P) m Holder_field src = Some True"
    by (subst pb_check_proto3_default_value.simps) (simp add: eval assms(1) walks flag del: pb_check_proto3_default_value.simps)
  have one: "length (leb128 v) = 1" if "v < 128" for v using that by (simp add: leb128.simps)
  obtain b where "field_bytes (Suc (Suc n)) (tables P) sub m Flag_field src = Some b" "length b = 2" for sub
    using assms(3) flag [of "Suc n" "tables P"] by (simp add: eval eval_bytes one del: pb_check_proto3_default_value.simps)
  then have b: "message_bytes (Suc (Suc (Suc n))) (tables P) m Flag_fields src = Some b" "length b = 2"
    by (simp_all add: walks)
  have "field_bytes (Suc (Suc n)) (tables P) sub m Holder_field src = Some []" for sub
    using holder by (simp add: eval eval_bytes del: pb_check_proto3_default_value.simps)
  then have h: "message_bytes (Suc (Suc (Suc n))) (tables P) m Holder_fields src = Some []"
    by (simp add: walks)
  show ?thesis
    using message_emitter_sizing [OF message_emitter_pb_encode [OF b(1)]] message_emitter_sizing [OF message_emitter_pb_encode [OF h]] b(2)
    by (simp add: pb_get_encoded_size_def size_ostream_def SIZE_LIMIT_def del: pb_encode.simps)
qed

theorem default_check_truncates_pointer_witness:
  "pb_get_encoded_size (example_prog\<lparr>tables := \<lambda>_. Flag_fields\<rparr>) 3 (\<lambda>a. if a = 4097 then 1 else 0) Holder_fields 4096 = Some (Some 0)"
proof -
  have "rd_ptr (\<lambda>a. if a = 4097 then 1 else 0) 4096 \<noteq> 0"
    by (simp add: rd_ptr_def rd_word_def rd_bytes_def upt_rec push_bit_eq_mult)
  then show ?thesis
    using default_check_truncates_pointer [of "example_prog\<lparr>tables := \<lambda>_. Flag_fields\<rparr>" 4096 "\<lambda>a. if a = 4097 then 1 else 0" 0]
    by (simp add: numeral_3_eq_3)
qed

end
