(* ===== verification/Pb_Decode.thy ===== *)
theory Pb_Decode
  imports Pb_Encode
begin

text \<open>
  The message level of \<open>pb_decode.c\<close>: the decoders of the field types, static, pointer and callback
  fields, unions, extensions, default values, the loop over the fields on the wire and the release
  of allocated fields, over the memory of \<open>Pb_Encode\<close> and a heap.
\<close>

unbundle bit_operations_syntax

section \<open>The world of the decoder\<close>

text \<open>
  Memory and heap. \<open>answers\<close> are the addresses the next calls of \<open>realloc\<close> give, 0 for failure;
  \<open>blocks\<close> the sizes of the live blocks; \<open>bad_free\<close> records a release of something that is no live
  block. \<open>fixed_count_size\<close> is the local variable of the running \<open>pb_decode_noinit\<close>.
\<close>

record pb_world =
  dmem :: memory
  blocks :: "nat \<Rightarrow> nat option"
  answers :: "nat list"
  bad_free :: bool
  fixed_count_size :: nat

definition wr_bytes :: "memory \<Rightarrow> nat \<Rightarrow> bytes \<Rightarrow> memory" where
  "wr_bytes m a bs = (\<lambda>x. if a \<le> x \<and> x < a + length bs then bs ! (x - a) else m x)"

definition store :: "nat \<Rightarrow> bytes \<Rightarrow> pb_world \<Rightarrow> pb_world" where
  "store a bs w = w\<lparr>dmem := wr_bytes (dmem w) a bs\<rparr>"

definition store_ptr :: "nat \<Rightarrow> nat \<Rightarrow> pb_world \<Rightarrow> pb_world" where
  "store_ptr a p = store a (le_bytes 8 (of_nat p :: u64))"

definition ptr_at :: "pb_world \<Rightarrow> nat \<Rightarrow> nat" where
  "ptr_at w a = rd_ptr (dmem w) a"

fun size_at :: "pb_world \<Rightarrow> place \<Rightarrow> nat" where
  "size_at w (At a) = rd_size (dmem w) a"
| "size_at w Fixed_count = fixed_count_size w"

fun store_size :: "place \<Rightarrow> nat \<Rightarrow> pb_world \<Rightarrow> pb_world" where
  "store_size (At a) v w = store a (le_bytes 4 (of_nat v :: u32)) w"
| "store_size Fixed_count v w = w\<lparr>fixed_count_size := v mod 2 ^ 32\<rparr>"

fun store_bool :: "place \<Rightarrow> bool \<Rightarrow> pb_world \<Rightarrow> pb_world" where
  "store_bool (At a) b w = store a [if b then 1 else 0] w"
| "store_bool Fixed_count b w = w\<lparr>fixed_count_size := fixed_count_size w div 256 * 256 + (if b then 1 else 0)\<rparr>"

definition memset_0 :: "nat \<Rightarrow> nat \<Rightarrow> pb_world \<Rightarrow> pb_world" where
  "memset_0 a n = store a (replicate n 0)"

definition pb_free :: "nat \<Rightarrow> pb_world \<Rightarrow> pb_world" where
  "pb_free p w =
     (if p = 0 then w
      else if blocks w p = None then w\<lparr>bad_free := True\<rparr>
      else w\<lparr>blocks := (blocks w)(p := None)\<rparr>)"

definition pb_realloc :: "nat \<Rightarrow> nat \<Rightarrow> pb_world \<Rightarrow> nat \<times> pb_world" where
  "pb_realloc p n w =
     (case answers w of
        [] \<Rightarrow> (0, w)
      | a # as \<Rightarrow>
          if a = 0 then (0, w\<lparr>answers := as\<rparr>)
          else
            let old = (case blocks w p of None \<Rightarrow> 0 | Some k \<Rightarrow> if p = 0 then 0 else k);
                w' = pb_free p (w\<lparr>answers := as\<rparr>)
            in (a, store a (rd_bytes (dmem w) p (min n old)) w'\<lparr>blocks := (blocks w')(a := Some n)\<rparr>))"

text \<open>The descriptor tables, and the user's functions by their addresses.\<close>

record 's pb_dec_prog =
  dec_tables :: "nat \<Rightarrow> pb_field list"
  ext_fields :: "nat \<Rightarrow> pb_field list"
  callback_decode :: "nat \<Rightarrow> pb_field \<Rightarrow> nat \<Rightarrow> 's pb_istream \<Rightarrow> pb_world \<Rightarrow> bool \<times> 's pb_istream \<times> pb_world"
  ext_decode :: "nat \<Rightarrow> nat \<Rightarrow> u32 \<Rightarrow> pb_wire_type \<Rightarrow> 's pb_istream \<Rightarrow> pb_world \<Rightarrow> bool \<times> 's pb_istream \<times> pb_world"

section \<open>Sequencing\<close>

text \<open>As in the encoder, \<open>None\<close> is a computation that needs more fuel.\<close>

type_synonym 's decoder = "'s pb_istream \<Rightarrow> pb_world \<Rightarrow> (bool \<times> 's pb_istream \<times> pb_world) option"

definition dec_ok :: "'s decoder" where
  "dec_ok s w = Some (True, s, w)"

definition dec_error :: "string \<Rightarrow> 's decoder" where
  "dec_error msg s w = Some (False, PB_SET_ERROR s msg, w)"

definition dec_upd :: "(pb_world \<Rightarrow> pb_world) \<Rightarrow> 's decoder \<Rightarrow> 's decoder" where
  "dec_upd f d s w = d s (f w)"

definition dec_world :: "(pb_world \<Rightarrow> pb_world option) \<Rightarrow> 's decoder \<Rightarrow> 's decoder" where
  "dec_world f d s w = (case f w of None \<Rightarrow> None | Some w' \<Rightarrow> d s w')"

definition dec_bind :: "('s pb_istream \<Rightarrow> 'a option \<times> 's pb_istream) \<Rightarrow> ('a \<Rightarrow> 's decoder) \<Rightarrow> 's decoder" where
  "dec_bind rd k s w = (case rd s of (None, s') \<Rightarrow> Some (False, s', w) | (Some v, s') \<Rightarrow> k v s' w)"

definition dec_seq :: "'s decoder \<Rightarrow> 's decoder \<Rightarrow> 's decoder" where
  "dec_seq f g s w = (case f s w of None \<Rightarrow> None | Some (ok, s', w') \<Rightarrow> if ok then g s' w' else Some (False, s', w'))"

definition dec_with :: "(pb_world \<Rightarrow> 's decoder) \<Rightarrow> 's decoder" where
  "dec_with f s w = f w s w"

fun world_all :: "('a \<Rightarrow> pb_world \<Rightarrow> pb_world option) \<Rightarrow> 'a list \<Rightarrow> pb_world \<Rightarrow> pb_world option" where
  "world_all f [] w = Some w"
| "world_all f (x # xs) w = (case f x w of None \<Rightarrow> None | Some w' \<Rightarrow> world_all f xs w')"

text \<open>
  A substream around \<open>body\<close>, which also says whether to close it: \<open>pb_make_string_substream\<close>, the body,
  \<open>pb_close_string_substream\<close> and the status of the body.
\<close>

datatype sub_end = Close bool | Stop string

definition in_substream ::
    "('s pb_istream \<Rightarrow> pb_world \<Rightarrow> (sub_end \<times> 's pb_istream \<times> pb_world) option) \<Rightarrow> 's decoder" where
  "in_substream body s w =
     (case pb_make_string_substream s of
        (None, s) \<Rightarrow> Some (False, s, w)
      | (Some substream, s) \<Rightarrow>
          (case body substream w of
             None \<Rightarrow> None
           | Some (Stop msg, substream, w) \<Rightarrow> dec_error msg s w
           | Some (Close status, substream, w) \<Rightarrow>
               (case pb_close_string_substream s substream of
                  (None, s) \<Rightarrow> Some (False, s, w)
                | (Some _, s) \<Rightarrow> Some (status, s, w))))"

definition closing :: "'s decoder \<Rightarrow> 's pb_istream \<Rightarrow> pb_world \<Rightarrow> (sub_end \<times> 's pb_istream \<times> pb_world) option" where
  "closing d s w = map_option (\<lambda>(ok, s, w). (Close ok, s, w)) (d s w)"

section \<open>Allocation\<close>

definition allocate_field :: "nat \<Rightarrow> nat \<Rightarrow> nat \<Rightarrow> 's decoder" where
  "allocate_field p elem_size count s w =
     (let check_limit = 2 ^ (8 * 4); size_max = SIZE_LIMIT - 1 in
      if elem_size = 0 \<or> count = 0 then dec_error ''invalid size'' s w
      else if (check_limit \<le> elem_size \<or> check_limit \<le> count) \<and> size_max div count < elem_size
      then dec_error ''size too large'' s w
      else
        (case pb_realloc (ptr_at w p) (count * elem_size mod SIZE_LIMIT) w of
           (ptr, w) \<Rightarrow> if ptr = 0 then dec_error ''realloc failed'' s w else dec_ok s (store_ptr p ptr w)))"

section \<open>Field decoders\<close>

definition pb_dec_bool :: "pb_field \<Rightarrow> nat \<Rightarrow> 's decoder" where
  "pb_dec_bool field dest = dec_bind pb_decode_varint32 (\<lambda>value. dec_upd (store dest [if value \<noteq> 0 then 1 else 0]) dec_ok)"

text \<open>\<open>narrow\<close>: what is stored in a signed field of \<open>n\<close> bytes, as 64 bits again.\<close>

definition narrow :: "nat \<Rightarrow> u64 \<Rightarrow> u64" where
  "narrow n v = (if n = 8 then v else if n = 4 then scast (ucast v :: u32) else if n = 2 then scast (ucast v :: u16)
                 else scast (ucast v :: byte))"

definition pb_dec_varint :: "pb_field \<Rightarrow> nat \<Rightarrow> 's decoder" where
  "pb_dec_varint field dest =
     dec_bind pb_decode_varint (\<lambda>value.
       let n = data_size field; svalue = (if n = 8 then value else scast (ucast value :: u32)) in
       if n \<in> {8, 4, 2, 1} then
         dec_upd (store dest (le_bytes n svalue))
           (if narrow n svalue \<noteq> svalue then dec_error ''integer too large'' else dec_ok)
       else dec_error ''invalid data_size'')"

definition pb_dec_uvarint :: "pb_field \<Rightarrow> nat \<Rightarrow> 's decoder" where
  "pb_dec_uvarint field dest =
     dec_bind pb_decode_varint (\<lambda>value.
       let n = data_size field in
       if n \<in> {8, 4, 2, 1} then
         dec_upd (store dest (le_bytes n value))
           (if take_bit (8 * n) value \<noteq> value then dec_error ''integer too large'' else dec_ok)
       else dec_error ''invalid data_size'')"

definition pb_dec_svarint :: "pb_field \<Rightarrow> nat \<Rightarrow> 's decoder" where
  "pb_dec_svarint field dest =
     dec_bind pb_decode_svarint (\<lambda>value.
       let n = data_size field in
       if n \<in> {8, 4, 2, 1} then
         dec_upd (store dest (le_bytes n value))
           (if narrow n value \<noteq> value then dec_error ''integer too large'' else dec_ok)
       else dec_error ''invalid data_size'')"

definition pb_dec_fixed32 :: "pb_field \<Rightarrow> nat \<Rightarrow> 's decoder" where
  "pb_dec_fixed32 field dest = dec_bind pb_decode_fixed32 (\<lambda>v. dec_upd (store dest (le_bytes 4 v)) dec_ok)"

definition pb_dec_fixed64 :: "pb_field \<Rightarrow> nat \<Rightarrow> 's decoder" where
  "pb_dec_fixed64 field dest = dec_bind pb_decode_fixed64 (\<lambda>v. dec_upd (store dest (le_bytes 8 v)) dec_ok)"

definition pb_dec_bytes :: "pb_field \<Rightarrow> nat \<Rightarrow> 's decoder" where
  "pb_dec_bytes field dest =
     dec_bind pb_decode_varint32 (\<lambda>v.
       let n = unat v; alloc_size = size_add n 4;
           finish = (\<lambda>bdest. dec_upd (store_size (At bdest) n)
                       (dec_bind (\<lambda>s. pb_read s True n) (\<lambda>bs. dec_upd (store (bdest + 4) bs) dec_ok)))
       in if PB_SIZE_MAX < n then dec_error ''bytes overflow''
          else if alloc_size < n then dec_error ''size too large''
          else if PB_ATYPE (f_type field) = PB_ATYPE_POINTER then
            (\<lambda>s. if bytes_left s < n then dec_error ''end-of-stream'' s
                 else dec_seq (allocate_field dest alloc_size 1) (dec_with (\<lambda>w. finish (ptr_at w dest))) s)
          else if data_size field < alloc_size then dec_error ''bytes overflow''
          else finish dest)"

text \<open>\<open>pb_dec_string\<close> stores the terminator also after a failed read.\<close>

definition pb_dec_string :: "pb_field \<Rightarrow> nat \<Rightarrow> 's decoder" where
  "pb_dec_string field dest =
     dec_bind pb_decode_varint32 (\<lambda>v.
       let n = unat v; alloc_size = unat (v + 1);
           finish = (\<lambda>d s w. case pb_read s True n of
                        (None, s) \<Rightarrow> Some (False, s, store (d + n) [0] w)
                      | (Some bs, s) \<Rightarrow> Some (True, s, store (d + n) [0] (store d bs w)))
       in if alloc_size < n then dec_error ''size too large''
          else if PB_ATYPE (f_type field) = PB_ATYPE_POINTER then
            (\<lambda>s. if bytes_left s < n then dec_error ''end-of-stream'' s
                 else dec_seq (allocate_field dest alloc_size 1) (dec_with (\<lambda>w. finish (ptr_at w dest))) s)
          else if data_size field < alloc_size then dec_error ''string overflow''
          else finish dest)"

text \<open>\<open>dec True\<close> stands for the recursive call of \<open>pb_decode\<close>, \<open>dec False\<close> for that of \<open>pb_decode_noinit\<close>.\<close>

definition pb_dec_submessage ::
    "(nat \<Rightarrow> pb_field list) \<Rightarrow> (bool \<Rightarrow> pb_field list \<Rightarrow> nat \<Rightarrow> 's decoder) \<Rightarrow> pb_field \<Rightarrow> nat \<Rightarrow> 's decoder" where
  "pb_dec_submessage T dec field dest =
     in_substream (\<lambda>s w.
       if f_ptr field = Null then Some (Stop ''invalid field descriptor'', s, w)
       else closing (dec (PB_HTYPE (f_type field) = PB_HTYPE_REPEATED) (ptr_table T (f_ptr field)) dest) s w)"

definition pb_dec_fixed_length_bytes :: "pb_field \<Rightarrow> nat \<Rightarrow> 's decoder" where
  "pb_dec_fixed_length_bytes field dest =
     dec_bind pb_decode_varint32 (\<lambda>v.
       if PB_SIZE_MAX < unat v then dec_error ''bytes overflow''
       else if v = 0 then dec_upd (memset_0 dest (data_size field)) dec_ok
       else if unat v \<noteq> data_size field then dec_error ''incorrect fixed length bytes size''
       else dec_bind (\<lambda>s. pb_read s True (data_size field)) (\<lambda>bs. dec_upd (store dest bs) dec_ok))"

text \<open>The table \<open>PB_DECODERS\<close>; its entry for extensions is null and the callers never use it.\<close>

definition PB_DECODERS ::
    "(nat \<Rightarrow> pb_field list) \<Rightarrow> (bool \<Rightarrow> pb_field list \<Rightarrow> nat \<Rightarrow> 's decoder) \<Rightarrow> byte \<Rightarrow> pb_field \<Rightarrow> nat \<Rightarrow> 's decoder" where
  "PB_DECODERS T dec lt =
     (if lt = PB_LTYPE_BOOL then pb_dec_bool
      else if lt = PB_LTYPE_VARINT then pb_dec_varint
      else if lt = PB_LTYPE_UVARINT then pb_dec_uvarint
      else if lt = PB_LTYPE_SVARINT then pb_dec_svarint
      else if lt = PB_LTYPE_FIXED32 then pb_dec_fixed32
      else if lt = PB_LTYPE_FIXED64 then pb_dec_fixed64
      else if lt = PB_LTYPE_BYTES then pb_dec_bytes
      else if lt = PB_LTYPE_STRING then pb_dec_string
      else if lt = PB_LTYPE_SUBMESSAGE then pb_dec_submessage T dec
      else if lt = PB_LTYPE_FIXED_LENGTH_BYTES then pb_dec_fixed_length_bytes
      else (\<lambda>_ _. dec_error ''invalid field type''))"

section \<open>Default values\<close>

text \<open>
  A \<open>pb_extension_t\<close> has its type, \<open>dest\<close>, \<open>next\<close> and the flag \<open>found\<close> at offsets 0, 8, 16 and 24; the
  type its two functions and \<open>arg\<close>.
\<close>

definition ext_arg :: "'s pb_dec_prog \<Rightarrow> pb_world \<Rightarrow> nat \<Rightarrow> pb_field list" where
  "ext_arg P w ext = ext_fields P (ptr_at w (ptr_at w ext + 16))"

definition iter_from_extension :: "'s pb_dec_prog \<Rightarrow> pb_world \<Rightarrow> nat \<Rightarrow> pb_field_iter" where
  "iter_from_extension P w ext =
     (let fs = ext_arg P w ext; dest = ptr_at w (ext + 8); iter = snd (pb_field_iter_begin fs dest)
      in iter\<lparr>pData := (if PB_ATYPE (f_type (fs ! 0)) = PB_ATYPE_POINTER then ext + 8 else dest), pSize := At (ext + 24)\<rparr>)"

definition default_bytes :: "pb_field \<Rightarrow> bytes" where
  "default_bytes field = (case f_ptr field of Default bs \<Rightarrow> take (data_size field) bs | _ \<Rightarrow> replicate (data_size field) 0)"

fun pb_field_set_to_default :: "nat \<Rightarrow> 's pb_dec_prog \<Rightarrow> pb_field_iter \<Rightarrow> pb_world \<Rightarrow> pb_world option"
and set_extensions_to_default :: "nat \<Rightarrow> 's pb_dec_prog \<Rightarrow> nat \<Rightarrow> pb_world \<Rightarrow> pb_world option"
and pb_message_set_to_defaults :: "nat \<Rightarrow> 's pb_dec_prog \<Rightarrow> pb_field list \<Rightarrow> nat \<Rightarrow> pb_world \<Rightarrow> pb_world option" where
  "pb_field_set_to_default 0 P iter w = None"
| "pb_field_set_to_default (Suc n) P iter w =
     (let field = field_at iter; ht = PB_HTYPE (f_type field); at = PB_ATYPE (f_type field) in
      if PB_LTYPE (f_type field) = PB_LTYPE_EXTENSION then set_extensions_to_default n P (ptr_at w (pData iter)) w
      else if at = PB_ATYPE_STATIC then
        (let has = ht = PB_HTYPE_OPTIONAL \<and> pSize iter \<noteq> At (pData iter);
             counted = \<not> has \<and> (ht = PB_HTYPE_REPEATED \<or> ht = PB_HTYPE_ONEOF);
             w = (if has then store_bool (pSize iter) False w else if counted then store_size (pSize iter) 0 w else w)
         in if counted then Some w
            else if PB_LTYPE (f_type field) = PB_LTYPE_SUBMESSAGE
            then pb_message_set_to_defaults n P (ptr_table (dec_tables P) (f_ptr field)) (pData iter) w
            else Some (store (pData iter) (default_bytes field) w))
      else if at = PB_ATYPE_POINTER then
        (let w = store_ptr (pData iter) 0 w in
         Some (if ht = PB_HTYPE_REPEATED \<or> ht = PB_HTYPE_ONEOF then store_size (pSize iter) 0 w else w))
      else Some w)"
| "set_extensions_to_default 0 P ext w = None"
| "set_extensions_to_default (Suc n) P ext w =
     (if ext = 0 then Some w
      else
        (let w = store (ext + 24) [0] w in
         case pb_field_set_to_default n P (iter_from_extension P w ext) w of
           None \<Rightarrow> None
         | Some w \<Rightarrow> set_extensions_to_default n P (ptr_at w (ext + 16)) w))"
| "pb_message_set_to_defaults 0 P fs dest w = None"
| "pb_message_set_to_defaults (Suc n) P fs dest w = world_all (pb_field_set_to_default n P) (message_walk fs dest) w"

section \<open>Releasing\<close>

text \<open>The loop that frees the entries of an array of pointers.\<close>

definition release_entries :: "nat \<Rightarrow> nat \<Rightarrow> pb_world \<Rightarrow> pb_world" where
  "release_entries p count w = fold (\<lambda>i w. store_ptr (p + 8 * i) 0 (pb_free (ptr_at w (p + 8 * i)) w)) [0..<count] w"

definition release_pointer :: "pb_field_iter \<Rightarrow> pb_world \<Rightarrow> pb_world" where
  "release_pointer iter w =
     (let type = f_type (field_at iter); repeated = PB_HTYPE type = PB_HTYPE_REPEATED;
          w = (if repeated \<and> (PB_LTYPE type = PB_LTYPE_STRING \<or> PB_LTYPE type = PB_LTYPE_BYTES)
               then release_entries (ptr_at w (pData iter)) (size_at w (pSize iter)) w else w);
          w = (if repeated then store_size (pSize iter) 0 w else w)
      in store_ptr (pData iter) 0 (pb_free (ptr_at w (pData iter)) w))"

definition release_count :: "pb_field_iter \<Rightarrow> pb_world \<Rightarrow> nat" where
  "release_count iter w =
     (let type = f_type (field_at iter); static = PB_ATYPE type = PB_ATYPE_STATIC; n = array_size (field_at iter) in
      if PB_HTYPE type \<noteq> PB_HTYPE_REPEATED then 1
      else
        let count = (if static \<and> pSize iter = At (pData iter) then n else size_at w (pSize iter))
        in if static \<and> n < count then n else count)"

fun pb_release_single_field :: "nat \<Rightarrow> 's pb_dec_prog \<Rightarrow> pb_field_iter \<Rightarrow> pb_world \<Rightarrow> pb_world option"
and release_extensions :: "nat \<Rightarrow> 's pb_dec_prog \<Rightarrow> nat \<Rightarrow> pb_world \<Rightarrow> pb_world option"
and pb_release :: "nat \<Rightarrow> 's pb_dec_prog \<Rightarrow> pb_field list \<Rightarrow> nat \<Rightarrow> pb_world \<Rightarrow> pb_world option" where
  "pb_release_single_field 0 P iter w = None"
| "pb_release_single_field (Suc n) P iter w =
     (let field = field_at iter; type = f_type field in
      if PB_HTYPE type = PB_HTYPE_ONEOF \<and> size_at w (pSize iter) \<noteq> unat (f_tag field) then Some w
      else
        map_option (\<lambda>w. if PB_ATYPE type = PB_ATYPE_POINTER then release_pointer iter w else w)
          (if PB_LTYPE type = PB_LTYPE_EXTENSION then release_extensions n P (ptr_at w (pData iter)) w
           else if PB_LTYPE type = PB_LTYPE_SUBMESSAGE \<and> PB_ATYPE type \<noteq> PB_ATYPE_CALLBACK then
             (let p = (if PB_ATYPE type = PB_ATYPE_POINTER then ptr_at w (pData iter) else pData iter) in
              if p = 0 then Some w
              else world_all (\<lambda>i. pb_release n P (ptr_table (dec_tables P) (f_ptr field)) (p + i * data_size field))
                     [0..<release_count iter w] w)
           else Some w))"
| "release_extensions 0 P ext w = None"
| "release_extensions (Suc n) P ext w =
     (if ext = 0 then Some w
      else case pb_release_single_field n P (iter_from_extension P w ext) w of
             None \<Rightarrow> None
           | Some w \<Rightarrow> release_extensions n P (ptr_at w (ext + 16)) w)"
| "pb_release 0 P fs dest w = None"
| "pb_release (Suc n) P fs dest w =
     (if dest = 0 then Some w else world_all (pb_release_single_field n P) (message_walk fs dest) w)"

text \<open>\<open>pb_release_union_field\<close> moves the iterator to the old field and back.\<close>

definition pb_release_union_field ::
    "nat \<Rightarrow> 's pb_dec_prog \<Rightarrow> 's pb_istream \<Rightarrow> pb_field_iter \<Rightarrow> pb_world \<Rightarrow> (bool \<times> 's pb_istream \<times> pb_field_iter \<times> pb_world) option" where
  "pb_release_union_field n P s iter w =
     (let old_tag = size_at w (pSize iter); new_tag = f_tag (field_at iter) in
      if old_tag = 0 \<or> old_tag = unat new_tag then Some (True, s, iter, w)
      else
        (case pb_field_iter_find iter (of_nat old_tag) of
           None \<Rightarrow> None
         | Some (False, iter) \<Rightarrow> Some (False, PB_SET_ERROR s ''invalid union tag'', iter, w)
         | Some (True, iter) \<Rightarrow>
             (case pb_release_single_field n P iter w of
                None \<Rightarrow> None
              | Some w \<Rightarrow>
                  (case pb_field_iter_find iter new_tag of
                     None \<Rightarrow> None
                   | Some (False, iter) \<Rightarrow> Some (False, PB_SET_ERROR s ''iterator error'', iter, w)
                   | Some (True, iter) \<Rightarrow>
                       Some (True, s, iter, (if PB_ATYPE (f_type (field_at iter)) = PB_ATYPE_POINTER
                                              then store_ptr (pData iter) 0 w else w))))))"

section \<open>Static fields\<close>

text \<open>Where an item of an array is: the product of two \<open>pb_size_t\<close>, 32 bits wide.\<close>

definition item_offset :: "pb_field \<Rightarrow> nat \<Rightarrow> nat" where
  "item_offset field k = data_size field * k mod 2 ^ 32"

text \<open>The loop over a packed array, up to the first item that fails.\<close>

fun packed_static_loop ::
    "nat \<Rightarrow> (pb_field \<Rightarrow> nat \<Rightarrow> 's decoder) \<Rightarrow> pb_field_iter \<Rightarrow> 's decoder" where
  "packed_static_loop 0 func iter s w = None"
| "packed_static_loop (Suc k) func iter s w =
     (let field = field_at iter; n = size_at w (pSize iter) in
      if 0 < bytes_left s \<and> n < array_size field then
        (case func field (pData iter + item_offset field n) s w of
           None \<Rightarrow> None
         | Some (False, s, w) \<Rightarrow> Some (False, s, w)
         | Some (True, s, w) \<Rightarrow> packed_static_loop k func iter s (store_size (pSize iter) (size_at w (pSize iter) + 1) w))
      else Some (True, s, w))"

definition packed_static :: "nat \<Rightarrow> (pb_field \<Rightarrow> nat \<Rightarrow> 's decoder) \<Rightarrow> pb_field_iter \<Rightarrow> 's decoder" where
  "packed_static k func iter =
     in_substream (\<lambda>s w. case packed_static_loop k func iter s w of
         None \<Rightarrow> None
       | Some (status, s, w) \<Rightarrow> Some (if bytes_left s \<noteq> 0 then Stop ''array overflow'' else Close status, s, w))"

definition decode_static_field ::
    "nat \<Rightarrow> 's pb_dec_prog \<Rightarrow> (bool \<Rightarrow> pb_field list \<Rightarrow> nat \<Rightarrow> 's decoder) \<Rightarrow> pb_wire_type \<Rightarrow> pb_field_iter \<Rightarrow> 's decoder" where
  "decode_static_field n P dec wt iter =
     (let field = field_at iter; lt = PB_LTYPE (f_type field); ht = PB_HTYPE (f_type field);
          func = PB_DECODERS (dec_tables P) dec lt
      in if ht = PB_HTYPE_REQUIRED then func field (pData iter)
         else if ht = PB_HTYPE_OPTIONAL then
           dec_upd (\<lambda>w. if pSize iter \<noteq> At (pData iter) then store_bool (pSize iter) True w else w) (func field (pData iter))
         else if ht = PB_HTYPE_REPEATED then
           (if wt = PB_WT_STRING \<and> lt \<le> PB_LTYPE_LAST_PACKABLE then packed_static n func iter
            else
              dec_with (\<lambda>w.
                let k = size_at w (pSize iter) in
                dec_upd (store_size (pSize iter) (k + 1))
                  (if array_size field \<le> k then dec_error ''array overflow'' else func field (pData iter + item_offset field k))))
         else
           dec_world (\<lambda>w.
             map_option (store_size (pSize iter) (unat (f_tag field)))
               (if lt = PB_LTYPE_SUBMESSAGE \<and> size_at w (pSize iter) \<noteq> unat (f_tag field)
                then pb_message_set_to_defaults n P (ptr_table (dec_tables P) (f_ptr field)) (pData iter)
                       (memset_0 (pData iter) (data_size field) w)
                else Some w))
             (func field (pData iter)))"

section \<open>Pointer fields\<close>

definition initialize_pointer_field :: "nat \<Rightarrow> 's pb_dec_prog \<Rightarrow> nat \<Rightarrow> pb_field_iter \<Rightarrow> pb_world \<Rightarrow> pb_world option" where
  "initialize_pointer_field n P item iter w =
     (let field = field_at iter; lt = PB_LTYPE (f_type field) in
      if lt = PB_LTYPE_STRING \<or> lt = PB_LTYPE_BYTES then Some (store_ptr item 0 w)
      else if lt = PB_LTYPE_SUBMESSAGE then
        pb_message_set_to_defaults n P (ptr_table (dec_tables P) (f_ptr field)) item (memset_0 item (data_size field) w)
      else Some w)"

fun packed_pointer_loop ::
    "nat \<Rightarrow> nat \<Rightarrow> 's pb_dec_prog \<Rightarrow> (pb_field \<Rightarrow> nat \<Rightarrow> 's decoder) \<Rightarrow> pb_field_iter \<Rightarrow> nat \<Rightarrow> 's decoder" where
  "packed_pointer_loop 0 n P func iter allocated s w = None"
| "packed_pointer_loop (Suc k) n P func iter allocated s w =
     (let field = field_at iter; count = size_at w (pSize iter) in
      if bytes_left s = 0 then Some (True, s, w)
      else if count = PB_SIZE_MAX then Some (False, s, w)
      else
        let grow = allocated < count + 1;
            remain = (bytes_left s - 1) div data_size field + 1;
            allocated =
              (if grow then
                 (if remain < (if allocated \<le> PB_SIZE_MAX then PB_SIZE_MAX - allocated else SIZE_LIMIT + PB_SIZE_MAX - allocated)
                  then size_add allocated remain else size_add allocated 1)
               else allocated)
        in
          (case (if grow then allocate_field (pData iter) (data_size field) allocated else dec_ok) s w of
             None \<Rightarrow> None
           | Some (False, s, w) \<Rightarrow> Some (False, s, w)
           | Some (True, s, w) \<Rightarrow>
               (let item = ptr_at w (pData iter) + item_offset field count in
                if item = 0 then Some (False, s, w)
                else case dec_world (initialize_pointer_field n P item iter) (func field item) s w of
                  None \<Rightarrow> None
                | Some (False, s, w) \<Rightarrow> Some (False, s, w)
                | Some (True, s, w) \<Rightarrow>
                    packed_pointer_loop k n P func iter allocated s (store_size (pSize iter) (size_at w (pSize iter) + 1) w))))"

text \<open>
  The message ``too many array entries'' goes to the parent stream, where closing the substream
  replaces it by that of the substream.
\<close>

definition decode_pointer_field ::
    "nat \<Rightarrow> 's pb_dec_prog \<Rightarrow> (bool \<Rightarrow> pb_field list \<Rightarrow> nat \<Rightarrow> 's decoder) \<Rightarrow> pb_wire_type \<Rightarrow> pb_field_iter \<Rightarrow> 's decoder" where
  "decode_pointer_field n P dec wt iter =
     (let field = field_at iter; lt = PB_LTYPE (f_type field); ht = PB_HTYPE (f_type field);
          func = PB_DECODERS (dec_tables P) dec lt;
          text = (lt = PB_LTYPE_STRING \<or> lt = PB_LTYPE_BYTES)
      in if ht \<noteq> PB_HTYPE_REPEATED then
           dec_world (\<lambda>w.
             map_option (\<lambda>w. if ht = PB_HTYPE_ONEOF then store_size (pSize iter) (unat (f_tag field)) w else w)
               (if lt = PB_LTYPE_SUBMESSAGE \<and> ptr_at w (pData iter) \<noteq> 0 then pb_release_single_field n P iter w else Some w))
             (if text then func field (pData iter)
              else
                dec_seq (allocate_field (pData iter) (data_size field) 1)
                  (dec_with (\<lambda>w. dec_world (initialize_pointer_field n P (ptr_at w (pData iter)) iter)
                     (dec_with (\<lambda>w. func field (ptr_at w (pData iter)))))))
         else if wt = PB_WT_STRING \<and> lt \<le> PB_LTYPE_LAST_PACKABLE then
           dec_with (\<lambda>w. in_substream (closing (packed_pointer_loop n n P func iter (size_at w (pSize iter)))))
         else
           dec_with (\<lambda>w.
             let k = size_at w (pSize iter) in
             if k = PB_SIZE_MAX then dec_error ''too many array entries''
             else
               dec_seq (allocate_field (pData iter) (data_size field) (k + 1))
                 (dec_with (\<lambda>w.
                   let k = size_at w (pSize iter); item = ptr_at w (pData iter) + item_offset field k in
                   dec_upd (store_size (pSize iter) (k + 1))
                     (dec_world (initialize_pointer_field n P item iter) (func field item))))))"

section \<open>Callback fields\<close>

fun callback_loop :: "nat \<Rightarrow> ('s pb_istream \<Rightarrow> pb_world \<Rightarrow> bool \<times> 's pb_istream \<times> pb_world) \<Rightarrow> 's decoder" where
  "callback_loop 0 f s w = None"
| "callback_loop (Suc k) f s w =
     (case f s w of
        (False, s, w) \<Rightarrow> Some (False, s, w)
      | (True, s, w) \<Rightarrow> if bytes_left s \<noteq> 0 then callback_loop k f s w else Some (True, s, w))"

text \<open>A \<open>pb_callback_t\<close> is the function and, eight bytes on, its argument.\<close>

definition decode_callback_field :: "nat \<Rightarrow> 's pb_dec_prog \<Rightarrow> pb_wire_type \<Rightarrow> pb_field_iter \<Rightarrow> 's decoder" where
  "decode_callback_field n P wt iter s w =
     (let f = (if pData iter = 0 then 0 else ptr_at w (pData iter));
          call = callback_decode P f (field_at iter) (pData iter + 8)
      in if f = 0 then dec_bind (\<lambda>s. pb_skip_field s wt) (\<lambda>_. dec_ok) s w
         else if wt = PB_WT_STRING then
           in_substream (\<lambda>s w. case callback_loop n call s w of
               None \<Rightarrow> None
             | Some (ok, s, w) \<Rightarrow> Some (if ok then Close True else Stop ''callback failed'', s, w)) s w
         else dec_bind (\<lambda>s. read_raw_value s wt 10)
                (\<lambda>buffer s w. case call (pb_istream_from_buffer buffer (length buffer)) w of
                   (ok, _, w) \<Rightarrow> Some (ok, s, w)) s w)"

section \<open>Fields and extensions\<close>

text \<open>The iterator may end up elsewhere, so these give it back.\<close>

definition decode_field ::
    "nat \<Rightarrow> 's pb_dec_prog \<Rightarrow> (bool \<Rightarrow> pb_field list \<Rightarrow> nat \<Rightarrow> 's decoder) \<Rightarrow> pb_wire_type \<Rightarrow> pb_field_iter \<Rightarrow>
     's pb_istream \<Rightarrow> pb_world \<Rightarrow> (bool \<times> 's pb_istream \<times> pb_field_iter \<times> pb_world) option" where
  "decode_field n P dec wt iter s w =
     (case (if PB_HTYPE (f_type (field_at iter)) = PB_HTYPE_ONEOF then pb_release_union_field n P s iter w
            else Some (True, s, iter, w)) of
        None \<Rightarrow> None
      | Some (False, s, iter, w) \<Rightarrow> Some (False, s, iter, w)
      | Some (True, s, iter, w) \<Rightarrow>
          (let at = PB_ATYPE (f_type (field_at iter)) in
           map_option (\<lambda>(ok, s, w). (ok, s, iter, w))
             ((if at = PB_ATYPE_STATIC then decode_static_field n P dec wt iter
               else if at = PB_ATYPE_POINTER then decode_pointer_field n P dec wt iter
               else if at = PB_ATYPE_CALLBACK then decode_callback_field n P wt iter
               else dec_error ''invalid field type'') s w)))"

definition default_extension_decoder ::
    "nat \<Rightarrow> 's pb_dec_prog \<Rightarrow> (bool \<Rightarrow> pb_field list \<Rightarrow> nat \<Rightarrow> 's decoder) \<Rightarrow> nat \<Rightarrow> u32 \<Rightarrow> pb_wire_type \<Rightarrow> 's decoder" where
  "default_extension_decoder n P dec ext tag wt s w =
     (if f_tag (ext_arg P w ext ! 0) \<noteq> tag then dec_ok s w
      else
        (let iter = iter_from_extension P w ext in
         map_option (\<lambda>(ok, s, _, w). (ok, s, w)) (decode_field n P dec wt iter s (store (ext + 24) [1] w))))"

fun decode_extension_loop ::
    "nat \<Rightarrow> nat \<Rightarrow> 's pb_dec_prog \<Rightarrow> (bool \<Rightarrow> pb_field list \<Rightarrow> nat \<Rightarrow> 's decoder) \<Rightarrow> nat \<Rightarrow> nat \<Rightarrow> u32 \<Rightarrow> pb_wire_type \<Rightarrow> 's decoder" where
  "decode_extension_loop 0 n P dec ext pos0 tag wt s w = None"
| "decode_extension_loop (Suc k) n P dec ext pos0 tag wt s w =
     (if ext \<noteq> 0 \<and> pos0 = bytes_left s then
        (let f = ptr_at w (ptr_at w ext) in
         case (if f \<noteq> 0 then Some (ext_decode P f ext tag wt s w) else default_extension_decoder n P dec ext tag wt s w) of
           None \<Rightarrow> None
         | Some (False, s, w) \<Rightarrow> Some (False, s, w)
         | Some (True, s, w) \<Rightarrow> decode_extension_loop k n P dec (ptr_at w (ext + 16)) pos0 tag wt s w)
      else Some (True, s, w))"

definition decode_extension ::
    "nat \<Rightarrow> 's pb_dec_prog \<Rightarrow> (bool \<Rightarrow> pb_field list \<Rightarrow> nat \<Rightarrow> 's decoder) \<Rightarrow> u32 \<Rightarrow> pb_wire_type \<Rightarrow> pb_field_iter \<Rightarrow> 's decoder" where
  "decode_extension n P dec tag wt iter s w =
     decode_extension_loop n n P dec (ptr_at w (pData iter)) (bytes_left s) tag wt s w"

partial_function (option) extension_find_loop :: "nat \<Rightarrow> pb_field_iter \<Rightarrow> (bool \<times> pb_field_iter) option" where
  "extension_find_loop first iter =
     (if PB_LTYPE (f_type (field_at iter)) = PB_LTYPE_EXTENSION then Some (True, iter)
      else
        let iter = snd (pb_field_iter_next iter) in
        if pos iter \<noteq> first then extension_find_loop first iter else Some (False, iter))"

declare extension_find_loop.simps [code]

definition find_extension_field :: "pb_field_iter \<Rightarrow> (bool \<times> pb_field_iter) option" where
  "find_extension_field iter = extension_find_loop (pos iter) iter"

section \<open>Messages\<close>

definition PB_MAX_REQUIRED_FIELDS :: nat where "PB_MAX_REQUIRED_FIELDS = 64"

text \<open>
  The locals of \<open>pb_decode_noinit\<close>: the iterator, the bits of the required fields seen, where
  extension ranges start, and the position of the last field with a fixed count.
\<close>

record dec_locals =
  dl_iter :: pb_field_iter
  fields_seen :: "u32 list"
  extension_range_start :: u32
  fixed_count_field :: "nat option"

type_synonym 's loop_result = "(bool \<times> dec_locals \<times> 's pb_istream \<times> pb_world) option"

definition wrong_fixed_count :: "dec_locals \<Rightarrow> pb_world \<Rightarrow> bool" where
  "wrong_fixed_count l w =
     (case fixed_count_field l of None \<Rightarrow> False | Some j \<Rightarrow> fixed_count_size w \<noteq> array_size (start (dl_iter l) ! j))"

definition skip_unknown :: "dec_locals \<Rightarrow> pb_wire_type \<Rightarrow> 's pb_istream \<Rightarrow> pb_world \<Rightarrow> 's loop_result" where
  "skip_unknown l wt s w = (case pb_skip_field s wt of (r, s) \<Rightarrow> Some (r \<noteq> None, l, s, w))"

definition decode_unknown ::
    "nat \<Rightarrow> 's pb_dec_prog \<Rightarrow> (bool \<Rightarrow> pb_field list \<Rightarrow> nat \<Rightarrow> 's decoder) \<Rightarrow> u32 \<Rightarrow> pb_wire_type \<Rightarrow> dec_locals \<Rightarrow>
     's pb_istream \<Rightarrow> pb_world \<Rightarrow> 's loop_result" where
  "decode_unknown n P dec tag wt l s w =
     (if extension_range_start l \<le> tag then
        (case find_extension_field (dl_iter l) of
           None \<Rightarrow> None
         | Some (found, iter) \<Rightarrow>
             (let from = (if found then f_tag (field_at iter) else - 1);
                  l = l\<lparr>dl_iter := iter, extension_range_start := from\<rparr>
              in if from \<le> tag then
                   (case decode_extension n P dec tag wt iter s w of
                      None \<Rightarrow> None
                    | Some (False, s', w) \<Rightarrow> Some (False, l, s', w)
                    | Some (True, s', w) \<Rightarrow> if bytes_left s \<noteq> bytes_left s' then Some (True, l, s', w) else skip_unknown l wt s' w)
                 else skip_unknown l wt s w))
      else skip_unknown l wt s w)"

definition see_required :: "dec_locals \<Rightarrow> dec_locals" where
  "see_required l =
     (let i = required_field_index (dl_iter l) in
      if PB_HTYPE (f_type (field_at (dl_iter l))) = PB_HTYPE_REQUIRED \<and> i < PB_MAX_REQUIRED_FIELDS
      then l\<lparr>fields_seen := (fields_seen l)[i div 32 := fields_seen l ! (i div 32) OR push_bit (i mod 32) 1]\<rparr> else l)"

definition decode_known ::
    "nat \<Rightarrow> 's pb_dec_prog \<Rightarrow> (bool \<Rightarrow> pb_field list \<Rightarrow> nat \<Rightarrow> 's decoder) \<Rightarrow> pb_wire_type \<Rightarrow> dec_locals \<Rightarrow>
     's pb_istream \<Rightarrow> pb_world \<Rightarrow> 's loop_result" where
  "decode_known n P dec wt l s w =
     (let iter = dl_iter l;
          fixed = PB_HTYPE (f_type (field_at iter)) = PB_HTYPE_REPEATED \<and> pSize iter = At (pData iter);
          enter = fixed \<and> fixed_count_field l \<noteq> Some (pos iter)
      in if enter \<and> wrong_fixed_count l w then Some (False, l, PB_SET_ERROR s ''wrong size for fixed count field'', w)
         else
           let l = (if enter then l\<lparr>fixed_count_field := Some (pos iter)\<rparr> else l);
               w = (if enter then w\<lparr>fixed_count_size := 0\<rparr> else w);
               iter = (if fixed then iter\<lparr>pSize := Fixed_count\<rparr> else iter);
               l = see_required (l\<lparr>dl_iter := iter\<rparr>)
           in map_option (\<lambda>(ok, s, iter, w). (ok, l\<lparr>dl_iter := iter\<rparr>, s, w)) (decode_field n P dec wt iter s w))"

fun decode_loop ::
    "nat \<Rightarrow> nat \<Rightarrow> 's pb_dec_prog \<Rightarrow> (bool \<Rightarrow> pb_field list \<Rightarrow> nat \<Rightarrow> 's decoder) \<Rightarrow> dec_locals \<Rightarrow>
     's pb_istream \<Rightarrow> pb_world \<Rightarrow> 's loop_result" where
  "decode_loop 0 n P dec l s w = None"
| "decode_loop (Suc k) n P dec l s w =
     (if bytes_left s = 0 then Some (True, l, s, w)
      else
        (case pb_decode_tag s of
           (None, eof, s) \<Rightarrow> Some (eof, l, s, w)
         | (Some (wt, tag), eof, s) \<Rightarrow>
             (case pb_field_iter_find (dl_iter l) tag of
                None \<Rightarrow> None
              | Some (found, iter) \<Rightarrow>
                  (let l = l\<lparr>dl_iter := iter\<rparr> in
                   case (if found then decode_known n P dec wt l s w else decode_unknown n P dec tag wt l s w) of
                     None \<Rightarrow> None
                   | Some (False, l, s, w) \<Rightarrow> Some (False, l, s, w)
                   | Some (True, l, s, w) \<Rightarrow> decode_loop k n P dec l s w))))"

definition missing_required :: "dec_locals \<Rightarrow> bool" where
  "missing_required l =
     (let last_iter = List.last (iter_walk (length (start (dl_iter l))) (dl_iter l));
          iter = snd (pb_field_iter_next last_iter);
          fixup = PB_HTYPE (f_type (field_at last_iter)) = PB_HTYPE_REQUIRED \<and> f_tag (field_at iter) \<noteq> 0;
          n = min (required_field_index last_iter + (if fixup then 1 else 0)) PB_MAX_REQUIRED_FIELDS
      in list_ex (\<lambda>i. fields_seen l ! i \<noteq> - 1) [0..<n div 32] \<or>
         (n mod 32 \<noteq> 0 \<and> fields_seen l ! (n div 32) \<noteq> drop_bit (32 - n mod 32) (- 1)))"

definition noinit_body ::
    "nat \<Rightarrow> 's pb_dec_prog \<Rightarrow> (bool \<Rightarrow> pb_field list \<Rightarrow> nat \<Rightarrow> 's decoder) \<Rightarrow> pb_field list \<Rightarrow> nat \<Rightarrow> 's decoder" where
  "noinit_body n P dec fs dest s w =
     (let l = \<lparr>dl_iter = snd (pb_field_iter_begin fs dest), fields_seen = [0, 0], extension_range_start = 0, fixed_count_field = None\<rparr> in
      case decode_loop n n P dec l s (w\<lparr>fixed_count_size := 0\<rparr>) of
        None \<Rightarrow> None
      | Some (ok, l, s', w') \<Rightarrow>
          (let w'' = w'\<lparr>fixed_count_size := fixed_count_size w\<rparr> in
           if \<not> ok then Some (False, s', w'')
           else if wrong_fixed_count l w' then Some (False, PB_SET_ERROR s' ''wrong size for fixed count field'', w'')
           else if missing_required l then Some (False, PB_SET_ERROR s' ''missing required field'', w'')
           else Some (True, s', w'')))"

text \<open>\<open>pb_decode\<close> around a given \<open>pb_decode_noinit\<close>.\<close>

definition with_defaults ::
    "nat \<Rightarrow> 's pb_dec_prog \<Rightarrow> (pb_field list \<Rightarrow> nat \<Rightarrow> 's decoder) \<Rightarrow> pb_field list \<Rightarrow> nat \<Rightarrow> 's decoder" where
  "with_defaults n P noinit fs dest =
     dec_world (pb_message_set_to_defaults n P fs dest)
       (\<lambda>s w. case noinit fs dest s w of
           None \<Rightarrow> None
         | Some (True, s, w) \<Rightarrow> Some (True, s, w)
         | Some (False, s, w) \<Rightarrow> map_option (\<lambda>w. (False, s, w)) (pb_release n P fs dest w))"

fun pb_decode_noinit :: "'s pb_dec_prog \<Rightarrow> nat \<Rightarrow> pb_field list \<Rightarrow> nat \<Rightarrow> 's decoder" where
  "pb_decode_noinit P 0 fs dest s w = None"
| "pb_decode_noinit P (Suc n) fs dest s w =
     noinit_body n P (\<lambda>init. if init then with_defaults n P (pb_decode_noinit P n) else pb_decode_noinit P n) fs dest s w"

definition pb_decode :: "'s pb_dec_prog \<Rightarrow> nat \<Rightarrow> pb_field list \<Rightarrow> nat \<Rightarrow> 's decoder" where
  "pb_decode P n = with_defaults n P (pb_decode_noinit P n)"

definition pb_decode_delimited_noinit :: "'s pb_dec_prog \<Rightarrow> nat \<Rightarrow> pb_field list \<Rightarrow> nat \<Rightarrow> 's decoder" where
  "pb_decode_delimited_noinit P n fs dest = in_substream (closing (pb_decode_noinit P n fs dest))"

definition pb_decode_delimited :: "'s pb_dec_prog \<Rightarrow> nat \<Rightarrow> pb_field list \<Rightarrow> nat \<Rightarrow> 's decoder" where
  "pb_decode_delimited P n fs dest = in_substream (closing (pb_decode P n fs dest))"

definition pb_decode_nullterminated :: "'s pb_dec_prog \<Rightarrow> nat \<Rightarrow> pb_field list \<Rightarrow> nat \<Rightarrow> 's decoder" where
  "pb_decode_nullterminated P n fs dest = pb_decode P n fs dest"

end
