(* ===== verification/Pb_Total.thy ===== *)
theory Pb_Total
  imports Pb_Decode
begin

text \<open>
  Decoding ends: every loop of \<open>pb_decode.c\<close> takes input away from the stream, and the recursion
  follows the nesting of the message types. The rules on \<open>eats\<close> and \<open>returns\<close> carry this through the
  combinators of the decoder.
\<close>

section \<open>Readers take bytes away\<close>

definition lowers :: "('s pb_istream \<Rightarrow> 'a option \<times> 's pb_istream) \<Rightarrow> bool" where
  "lowers rd \<longleftrightarrow> (\<forall>s r s'. rd s = (r, s') \<longrightarrow> bytes_left s' \<le> bytes_left s)"

definition eats :: "('s pb_istream \<Rightarrow> 'a option \<times> 's pb_istream) \<Rightarrow> bool" where
  "eats rd \<longleftrightarrow> (\<forall>s r s'. rd s = (r, s') \<longrightarrow> bytes_left s' \<le> bytes_left s \<and> (r \<noteq> None \<longrightarrow> bytes_left s' < bytes_left s))"

named_theorems takes

lemma eats_lowers: "eats rd \<Longrightarrow> lowers rd"
  unfolding eats_def lowers_def by blast

lemma eatsD: "eats rd \<Longrightarrow> rd s = (Some v, s') \<Longrightarrow> bytes_left s' < bytes_left s"
  unfolding eats_def by blast

lemma lowersD: "lowers rd \<Longrightarrow> rd s = (r, s') \<Longrightarrow> bytes_left s' \<le> bytes_left s"
  unfolding lowers_def by blast

lemma set_error_left [simp]: "bytes_left (PB_SET_ERROR s msg) = bytes_left s"
  by (simp add: PB_SET_ERROR_def)

lemma lowers_into [takes]: "lowers (\<lambda>s. pb_read_into s n)"
  by (auto simp: lowers_def pb_read_into_def PB_RETURN_ERROR_def buf_read_def
      split: if_splits isource.splits read_result.splits prod.splits option.splits)

lemma lowers_skip [takes]: "lowers (\<lambda>s :: 'a pb_istream. pb_read_skip s n)"
proof -
  have "pb_read_skip s n = (r, s') \<Longrightarrow> bytes_left s' \<le> bytes_left s" for s s' :: "'a pb_istream" and r
  proof (induction s n arbitrary: r s' rule: pb_read_skip.induct)
    case (1 s n)
    then show ?case
      by (subst (asm) (2) pb_read_skip.simps)
        (force split: if_splits prod.splits option.splits dest: lowersD [OF lowers_into])
  qed
  then show ?thesis by (simp add: lowers_def)
qed

lemma lowers_read [takes]: "lowers (\<lambda>s. pb_read s keep n)"
  using lowersD [OF lowers_skip] lowersD [OF lowers_into]
  by (force simp: lowers_def pb_read_def split: if_splits prod.splits option.splits)

lemma eats_readbyte [takes]: "eats (pb_readbyte :: 'a pb_istream \<Rightarrow> _)"
proof -
  have "pb_readbyte s = (None, s') \<Longrightarrow> bytes_left s' \<le> bytes_left s" for s s' :: "'a pb_istream"
    by (auto simp: pb_readbyte_def PB_RETURN_ERROR_def buf_read_def
      split: if_splits isource.splits read_result.splits prod.splits option.splits)
  then show ?thesis
    unfolding eats_def by (metis pb_readbyte_decreases less_imp_le not_None_eq)
qed

lemma eats_read [takes]: "0 < n \<Longrightarrow> eats (\<lambda>s. pb_read s True n)"
  using lowersD [OF lowers_read] pb_read_decreases [where n = "n - 1"] by (force simp: eats_def)

lemma eats_bind: "eats rd \<Longrightarrow> (\<And>v. lowers (f v)) \<Longrightarrow> eats (istream_bind rd f)"
  by (force simp: eats_def lowers_def istream_bind_def split: prod.splits option.splits)

lemma lowers_bind: "lowers rd \<Longrightarrow> (\<And>v. lowers (f v)) \<Longrightarrow> lowers (istream_bind rd f)"
  by (force simp: lowers_def istream_bind_def split: prod.splits option.splits)

lemma lowers_return [takes]: "lowers (\<lambda>s. (r, s))" "lowers (\<lambda>s. PB_RETURN_ERROR s msg)"
  by (simp_all add: lowers_def PB_RETURN_ERROR_def)

lemma varint32_loop_lowers: "varint32_loop s result bitpos = (r, s') \<Longrightarrow> bytes_left s' \<le> bytes_left s"
proof (induction s result bitpos rule: varint32_loop.induct)
  case (1 s result bitpos)
  then show ?case
    by (subst (asm) (2) varint32_loop.simps)
      (force simp: PB_RETURN_ERROR_def Let_def eats_def split: if_splits prod.splits option.splits
        dest: lowersD [OF eats_lowers [OF eats_readbyte]])
qed

lemma varint_loop_lowers: "varint_decode_loop s result bitpos = (r, s') \<Longrightarrow>
  bytes_left s' \<le> bytes_left s \<and> (r \<noteq> None \<longrightarrow> bytes_left s' < bytes_left s)"
proof (induction s result bitpos rule: varint_decode_loop.induct)
  case (1 s result bitpos)
  then show ?case
    by (subst (asm) (2) varint_decode_loop.simps)
      (force simp: PB_RETURN_ERROR_def Let_def split: if_splits prod.splits option.splits
        dest: lowersD [OF eats_lowers [OF eats_readbyte]] eatsD [OF eats_readbyte])
qed

lemma varint32_eof_takes: "pb_decode_varint32_eof s = (r, eof, s') \<Longrightarrow>
  bytes_left s' \<le> bytes_left s \<and> (r \<noteq> None \<longrightarrow> bytes_left s' < bytes_left s)"
  by (force simp: pb_decode_varint32_eof_def split: if_splits prod.splits option.splits
      dest: lowersD [OF eats_lowers [OF eats_readbyte]] eatsD [OF eats_readbyte] varint32_loop_lowers)

lemma eats_varint32 [takes]: "eats pb_decode_varint32"
  using varint32_eof_takes by (force simp: eats_def pb_decode_varint32_def split: prod.splits)

lemma eats_varint [takes]: "eats pb_decode_varint"
  using varint_loop_lowers by (force simp: eats_def pb_decode_varint_def)

lemma eats_numbers [takes]: "eats pb_decode_svarint" "eats pb_decode_fixed32" "eats pb_decode_fixed64"
  unfolding pb_decode_svarint_def pb_decode_fixed32_def pb_decode_fixed64_def by (intro eats_bind takes; simp)+

lemma decode_tag_takes: "pb_decode_tag s = (r, eof, s') \<Longrightarrow>
  bytes_left s' \<le> bytes_left s \<and> (r \<noteq> None \<longrightarrow> bytes_left s' < bytes_left s)"
  by (auto simp: pb_decode_tag_def split: prod.splits option.splits if_splits dest: varint32_eof_takes)

lemma lowers_if: "lowers f \<Longrightarrow> lowers g \<Longrightarrow> lowers (\<lambda>s. if b then f s else g s)"
  by (simp add: lowers_def)

lemma lowers_skip_varint [takes]: "lowers (pb_skip_varint :: 'a pb_istream \<Rightarrow> _)"
proof -
  have "pb_skip_varint s = (r, s') \<Longrightarrow> bytes_left s' \<le> bytes_left s" for s s' :: "'a pb_istream" and r
  proof (induction s rule: pb_skip_varint.induct)
    case (1 s)
    then show ?case
      by (subst (asm) (2) pb_skip_varint.simps)
        (force split: if_splits prod.splits option.splits dest: lowersD [OF lowers_read])
  qed
  then show ?thesis by (simp add: lowers_def)
qed

lemma lowers_skip_field [takes]: "lowers (\<lambda>s :: 'a pb_istream. pb_skip_field s wt)"
proof -
  have "lowers (pb_skip_string :: 'a pb_istream \<Rightarrow> _)"
    unfolding pb_skip_string_def by (intro lowers_bind eats_lowers [OF eats_varint32] takes)
  then have "lowers (\<lambda>s :: 'a pb_istream. if wt = PB_WT_VARINT then pb_skip_varint s
      else if wt = PB_WT_64BIT then istream_bind (\<lambda>s. pb_read s False 8) (\<lambda>_ s. (Some (), s)) s
      else if wt = PB_WT_STRING then pb_skip_string s
      else if wt = PB_WT_32BIT then istream_bind (\<lambda>s. pb_read s False 4) (\<lambda>_ s. (Some (), s)) s
      else PB_RETURN_ERROR s ''invalid wire_type'')"
    by (intro lowers_if lowers_bind takes)
  then show ?thesis by (simp add: pb_skip_field_def)
qed

lemma lowers_raw_value [takes]: "lowers (\<lambda>s :: 'a pb_istream. read_raw_value s wt room)"
proof -
  have "raw_varint_loop s room buf = (r, s') \<Longrightarrow> bytes_left s' \<le> bytes_left s" for s s' :: "'a pb_istream" and buf r
    by (induction s room buf rule: raw_varint_loop.induct)
      (force split: if_splits prod.splits option.splits dest: lowersD [OF lowers_read])+
  then have "lowers (\<lambda>s :: 'a pb_istream. raw_varint_loop s room [])" by (simp add: lowers_def)
  then have "lowers (\<lambda>s :: 'a pb_istream. if wt = PB_WT_VARINT then raw_varint_loop s room []
      else if wt = PB_WT_64BIT then pb_read s True 8
      else if wt = PB_WT_32BIT then pb_read s True 4
      else PB_RETURN_ERROR s ''invalid wire_type'')"
    by (intro lowers_if takes)
  then show ?thesis by (simp add: read_raw_value_def)
qed

lemma make_substream_takes:
  "pb_make_string_substream s = (Some sub, s') \<Longrightarrow> bytes_left sub + bytes_left s' < bytes_left s"
  "pb_make_string_substream s = (None, s') \<Longrightarrow> bytes_left s' \<le> bytes_left s"
  using eats_varint32 [unfolded eats_def]
  by (force simp: pb_make_string_substream_def istream_bind_def PB_RETURN_ERROR_def split: prod.splits option.splits if_splits)+

lemma close_substream_left: "pb_close_string_substream s sub = (r, s') \<Longrightarrow> bytes_left s' = bytes_left s"
  by (auto simp: pb_close_string_substream_def Let_def split: prod.splits option.splits if_splits)

section \<open>Decoders that return\<close>

text \<open>
  \<open>returns k d\<close>: on a stream of at most \<open>k\<close> bytes the decoder has a result and does not put bytes
  back; \<open>consumes k d\<close>: if it succeeds it has also taken some.
\<close>

definition returns :: "nat \<Rightarrow> 's decoder \<Rightarrow> bool" where
  "returns k d \<longleftrightarrow> (\<forall>s w. bytes_left s \<le> k \<longrightarrow> (\<exists>ok s' w'. d s w = Some (ok, s', w') \<and> bytes_left s' \<le> bytes_left s))"

definition consumes :: "nat \<Rightarrow> 's decoder \<Rightarrow> bool" where
  "consumes k d \<longleftrightarrow> (\<forall>s w. bytes_left s \<le> k \<longrightarrow>
     (\<exists>ok s' w'. d s w = Some (ok, s', w') \<and> bytes_left s' \<le> bytes_left s \<and> (ok \<longrightarrow> bytes_left s' < bytes_left s)))"

named_theorems ends

lemma returnsE:
  assumes "returns k d" and "bytes_left s \<le> k"
  obtains ok s' w' where "d s w = Some (ok, s', w')" "bytes_left s' \<le> bytes_left s"
  using assms unfolding returns_def by blast

lemma consumesE:
  assumes "consumes k d" and "bytes_left s \<le> k"
  obtains ok s' w' where "d s w = Some (ok, s', w')" "bytes_left s' \<le> bytes_left s" "ok \<Longrightarrow> bytes_left s' < bytes_left s"
  using assms unfolding consumes_def by blast

lemma consumes_returns: "consumes k d \<Longrightarrow> returns k d"
  unfolding returns_def consumes_def by blast

lemma returns_simple [ends]: "returns k dec_ok" "returns k (dec_error msg)" "consumes k (dec_error msg)"
  by (auto simp: returns_def consumes_def dec_ok_def dec_error_def)

lemma returns_upd [ends]: "returns k d \<Longrightarrow> returns k (dec_upd f d)" "consumes k d \<Longrightarrow> consumes k (dec_upd f d)"
  by (simp_all add: returns_def consumes_def dec_upd_def)

lemma returns_with [ends]: "(\<And>w. returns k (f w)) \<Longrightarrow> returns k (dec_with f)" "(\<And>w. consumes k (f w)) \<Longrightarrow> consumes k (dec_with f)"
  by (simp_all add: returns_def consumes_def dec_with_def)

lemma returns_if [ends]: "(b \<Longrightarrow> returns k f) \<Longrightarrow> (\<not> b \<Longrightarrow> returns k g) \<Longrightarrow> returns k (if b then f else g)"
  "(b \<Longrightarrow> consumes k f) \<Longrightarrow> (\<not> b \<Longrightarrow> consumes k g) \<Longrightarrow> consumes k (if b then f else g)"
  by simp_all

lemma returns_if_stream [ends]: "returns k f \<Longrightarrow> returns k g \<Longrightarrow> returns k (\<lambda>s. if b s then f s else g s)"
  by (simp add: returns_def)

lemma returns_world [ends]:
  "(\<And>w. f w \<noteq> None) \<Longrightarrow> returns k d \<Longrightarrow> returns k (dec_world f d)" "(\<And>w. f w \<noteq> None) \<Longrightarrow> consumes k d \<Longrightarrow> consumes k (dec_world f d)"
  by (auto simp: returns_def consumes_def dec_world_def split: option.split)

lemma returns_bind: "lowers rd \<Longrightarrow> (\<And>v. returns k (f v)) \<Longrightarrow> returns k (dec_bind rd f)"
  unfolding returns_def dec_bind_def by (auto split: prod.split option.split dest: lowersD) (meson le_trans lowersD)

lemma consumes_bind: "eats (rd :: 'a pb_istream \<Rightarrow> _) \<Longrightarrow> (\<And>v. returns k (f v)) \<Longrightarrow> consumes k (dec_bind rd f)"
  unfolding consumes_def
proof (intro allI impI)
  fix s :: "'a pb_istream" and w assume rd: "eats rd" and f: "\<And>v. returns k (f v)" and s: "bytes_left s \<le> k"
  show "\<exists>ok s' w'. dec_bind rd f s w = Some (ok, s', w') \<and> bytes_left s' \<le> bytes_left s \<and> (ok \<longrightarrow> bytes_left s' < bytes_left s)"
  proof (cases "rd s")
    case (Pair r s1)
    show ?thesis
    proof (cases r)
      case None
      then show ?thesis using Pair lowersD [OF eats_lowers [OF rd] Pair] by (auto simp: dec_bind_def)
    next
      case (Some v)
      then have lt: "bytes_left s1 < bytes_left s" using eatsD [OF rd] Pair by simp
      then have "bytes_left s1 \<le> k" using s by simp
      then obtain ok s' w' where "f v s1 w = Some (ok, s', w')" "bytes_left s' \<le> bytes_left s1" by (rule returnsE [OF f])
      then show ?thesis using Pair Some lt by (simp add: dec_bind_def)
    qed
  qed
qed

lemma returns_seq [ends]: "returns k (f :: 'a decoder) \<Longrightarrow> returns k g \<Longrightarrow> returns k (dec_seq f g)"
  unfolding returns_def
proof (intro allI impI)
  fix s :: "'a pb_istream" and w
  assume f: "\<forall>s w. bytes_left s \<le> k \<longrightarrow> (\<exists>ok s' w'. f s w = Some (ok, s', w') \<and> bytes_left s' \<le> bytes_left s)"
    and g: "\<forall>s w. bytes_left s \<le> k \<longrightarrow> (\<exists>ok s' w'. g s w = Some (ok, s', w') \<and> bytes_left s' \<le> bytes_left s)"
    and s: "bytes_left s \<le> k"
  then obtain ok s1 w1 where 1: "f s w = Some (ok, s1, w1)" "bytes_left s1 \<le> bytes_left s" by blast
  with s have "bytes_left s1 \<le> k" by simp
  with g obtain ok' s2 w2 where "g s1 w1 = Some (ok', s2, w2)" "bytes_left s2 \<le> bytes_left s1" by blast
  with 1 show "\<exists>ok s' w'. dec_seq f g s w = Some (ok, s', w') \<and> bytes_left s' \<le> bytes_left s" by (auto simp: dec_seq_def)
qed

lemma consumes_sub:
  assumes "\<And>s w. bytes_left (s :: 'a pb_istream) < k \<Longrightarrow> body s w \<noteq> None"
  shows "consumes k (in_substream body)"
  unfolding consumes_def
proof (intro allI impI)
  fix s :: "'a pb_istream" and w assume s: "bytes_left s \<le> k"
  show "\<exists>ok s' w'. in_substream body s w = Some (ok, s', w') \<and> bytes_left s' \<le> bytes_left s \<and> (ok \<longrightarrow> bytes_left s' < bytes_left s)"
  proof (cases "pb_make_string_substream s")
    case (Pair r s1)
    show ?thesis
    proof (cases r)
      case None
      then show ?thesis using Pair make_substream_takes(2) [of s s1] by (auto simp: in_substream_def)
    next
      case (Some sub)
      have sub: "bytes_left sub + bytes_left s1 < bytes_left s" using make_substream_takes(1) [of s sub s1] Pair Some by simp
      then have "body sub w \<noteq> None" using assms [of sub w] s by simp
      then obtain e sub' w' where body: "body sub w = Some (e, sub', w')" by (cases "body sub w") auto
      obtain r' s2 where close: "pb_close_string_substream s1 sub' = (r', s2)" by (cases "pb_close_string_substream s1 sub'")
      have left: "bytes_left s2 < bytes_left s" "bytes_left s1 < bytes_left s" using close_substream_left [OF close] sub by simp_all
      have "in_substream body s w = (case e of Stop msg \<Rightarrow> dec_error msg s1 w'
          | Close status \<Rightarrow> Some (if r' = None then False else status, s2, w'))"
        using Pair Some body close by (simp add: in_substream_def split: sub_end.split option.split)
      then show ?thesis using left by (cases e) (auto simp: dec_error_def)
    qed
  qed
qed

lemma closing_total: "d s w \<noteq> None \<Longrightarrow> closing d s w \<noteq> None"
  by (auto simp: closing_def)

section \<open>The decoders of the field types\<close>

lemma returns_allocate [ends]: "returns k (allocate_field p n c)"
  by (auto simp: returns_def allocate_field_def Let_def dec_error_def dec_ok_def split: prod.split)

lemma consumes_numbers [ends]:
  "consumes k (pb_dec_bool f p)" "consumes k (pb_dec_varint f p)" "consumes k (pb_dec_uvarint f p)" "consumes k (pb_dec_svarint f p)"
  "consumes k (pb_dec_fixed32 f p)" "consumes k (pb_dec_fixed64 f p)"
  unfolding pb_dec_bool_def pb_dec_varint_def pb_dec_uvarint_def pb_dec_svarint_def pb_dec_fixed32_def pb_dec_fixed64_def Let_def
  by (intro consumes_bind takes ends)+

lemma consumes_bytes [ends]: "consumes k (pb_dec_bytes f p)"
  unfolding pb_dec_bytes_def Let_def by (intro consumes_bind returns_bind takes ends)

lemma consumes_string [ends]: "consumes k (pb_dec_string f p)"
proof -
  have finish: "returns k (\<lambda>s w. case pb_read s True n of
      (None, s) \<Rightarrow> Some (False, s, store (d + n) [0] w)
    | (Some bs, s) \<Rightarrow> Some (True, s, store (d + n) [0] (store d bs w)))" for d n
    using lowersD [OF lowers_read] by (fastforce simp: returns_def split: prod.split option.split)
  show ?thesis
    unfolding pb_dec_string_def Let_def by (intro consumes_bind takes ends finish)
qed

lemma consumes_fixed_length [ends]: "consumes k (pb_dec_fixed_length_bytes f p)"
  unfolding pb_dec_fixed_length_bytes_def Let_def by (intro consumes_bind returns_bind takes ends)

lemma consumes_decoder:
  assumes "PB_LTYPE (f_type f) = PB_LTYPE_SUBMESSAGE \<Longrightarrow> \<forall>b q s w. bytes_left s < k \<longrightarrow> dec b (ptr_table T (f_ptr f)) q s w \<noteq> None"
  shows "consumes k (PB_DECODERS T dec (PB_LTYPE (f_type f)) f p)"
proof -
  have app: "(if b then g else h) f p = (if b then g f p else h f p)" for b and g h :: "pb_field \<Rightarrow> nat \<Rightarrow> 'a decoder" by simp
  have msg: "consumes k (pb_dec_submessage T dec f p)" if "PB_LTYPE (f_type f) = PB_LTYPE_SUBMESSAGE"
    unfolding pb_dec_submessage_def
    by (intro consumes_sub if_total closing_total) (use assms [OF that] in simp_all)
  show ?thesis unfolding PB_DECODERS_def app by (intro ends msg)
qed

section \<open>Searching the tables\<close>

text \<open>While a message is decoded the iterator stands in its table.\<close>

definition stands_in :: "pb_field list \<Rightarrow> pb_field_iter \<Rightarrow> bool" where
  "stands_in fs iter \<longleftrightarrow> start iter = fs \<and> (pos iter < field_count fs \<or> pos iter = 0)"

lemma stands_in_field: "table_ok fs \<Longrightarrow> stands_in fs iter \<Longrightarrow> field_at iter \<in> set fs"
  using table_tags(3) [of fs] by (auto simp: stands_in_def field_at_def intro!: nth_mem)

lemma stands_in_begin: "stands_in fs (snd (pb_field_iter_begin fs dest))"
  by (simp add: stands_in_def pb_field_iter_begin_def Let_def)

lemma stands_in_local [simp]: "stands_in fs (iter\<lparr>pSize := p\<rparr>) \<longleftrightarrow> stands_in fs iter"
  by (simp add: stands_in_def)

lemma next_position:
  assumes "table_ok fs" and "stands_in fs iter"
  shows "start (snd (pb_field_iter_next iter)) = fs"
    and "pos (snd (pb_field_iter_next iter)) = (if Suc (pos iter) < field_count fs then Suc (pos iter) else 0)"
proof -
  have fs: "start iter = fs" using assms(2) by (simp add: stands_in_def)
  show "start (snd (pb_field_iter_next iter)) = fs"
    by (simp add: pb_field_iter_next_def pb_field_iter_begin_def Let_def fs)
  show "pos (snd (pb_field_iter_next iter)) = (if Suc (pos iter) < field_count fs then Suc (pos iter) else 0)"
  proof (cases "pos iter < field_count fs")
    case True
    have "f_tag (fs ! Suc (pos iter)) = 0 \<longleftrightarrow> \<not> Suc (pos iter) < field_count fs"
      using table_tags(1,2) [OF assms(1)] True by (metis Suc_lessI)
    then show ?thesis
      using table_tags(2) [OF assms(1) True] fs
      by (simp add: pb_field_iter_next_def pb_field_iter_begin_def Let_def field_at_def)
  next
    case False
    then have "pos iter = 0" "field_count fs = 0" using assms(2) by (auto simp: stands_in_def)
    then show ?thesis using table_tags(1) [OF assms(1)] fs by (simp add: pb_field_iter_next_def field_at_def)
  qed
qed

text \<open>Both searches run once around the table.\<close>

lemma cyclic_search:
  assumes tab: "table_ok fs" and first: "first < field_count fs \<or> first = 0"
    and step: "\<And>iter. F iter = (if Q iter then Some (True, iter)
      else let iter = snd (pb_field_iter_next iter) in if pos iter \<noteq> first then F iter else Some (False, iter))"
  shows "stands_in fs iter \<Longrightarrow> \<exists>found iter'. F iter = Some (found, iter') \<and> stands_in fs iter' \<and> (found \<longrightarrow> Q iter')"
proof (induction "if pos iter < first then first - pos iter else field_count fs - pos iter + first" arbitrary: iter rule: less_induct)
  case less
  let ?next = "snd (pb_field_iter_next iter)"
  note p = next_position [OF tab less.prems]
  have next_in: "stands_in fs ?next" by (simp add: stands_in_def p)
  show ?case
  proof (cases "Q iter \<or> pos ?next = first")
    case True
    then show ?thesis using less.prems next_in by (subst step) (auto simp: Let_def)
  next
    case False
    have "(if pos ?next < first then first - pos ?next else field_count fs - pos ?next + first) <
        (if pos iter < first then first - pos iter else field_count fs - pos iter + first)"
      using False first less.prems p(2) by (auto simp: stands_in_def split: if_splits)
    from less.hyps [OF this next_in] show ?thesis using False by (subst step) (simp add: Let_def)
  qed
qed

lemma find_total:
  assumes "table_ok fs" and "stands_in fs iter"
  obtains found iter' where "pb_field_iter_find iter tag = Some (found, iter')" "stands_in fs iter'"
  using cyclic_search [OF assms(1) _ iter_find_loop.simps assms(2), of "pos iter" tag] assms(2) that
  by (auto simp: pb_field_iter_find_def stands_in_def)

lemma find_extension_total:
  assumes "table_ok fs" and "stands_in fs iter"
  obtains found iter' where "find_extension_field iter = Some (found, iter')" "stands_in fs iter'"
    "found \<Longrightarrow> PB_LTYPE (f_type (field_at iter')) = PB_LTYPE_EXTENSION"
  using cyclic_search [OF assms(1) _ extension_find_loop.simps assms(2), of "pos iter"] assms(2) that
  by (auto simp: find_extension_field_def stands_in_def)

section \<open>Default values and releasing\<close>

lemma world_all_total: "(\<And>x w. x \<in> set xs \<Longrightarrow> f x w \<noteq> None) \<Longrightarrow> world_all f xs w \<noteq> None"
  by (induction xs arbitrary: w) (auto split: option.split)

lemma depth_okD:
  assumes "depth_ok d T fs"
  shows "table_ok fs" and "0 < d" and "f \<in> set fs \<Longrightarrow> PB_LTYPE (f_type f) \<noteq> PB_LTYPE_EXTENSION"
    and "f \<in> set fs \<Longrightarrow> PB_LTYPE (f_type f) = PB_LTYPE_SUBMESSAGE \<Longrightarrow> depth_ok (d - 1) T (ptr_table T (f_ptr f))"
  using assms by (cases d; simp)+

lemma field_default_total:
  "depth_ok d (dec_tables P) fs \<Longrightarrow> field_at iter \<in> set fs \<Longrightarrow> 2 * d \<le> n \<Longrightarrow> pb_field_set_to_default n P iter w \<noteq> None"
proof (induction d arbitrary: fs iter n w)
  case (Suc d)
  obtain m where n: "n = Suc (Suc m)" "2 * d \<le> m" using Suc.prems(3) by (cases n; cases "n - 1") auto
  have sub: "pb_message_set_to_defaults (Suc m) P (ptr_table (dec_tables P) (f_ptr (field_at iter))) q w \<noteq> None"
    if "PB_LTYPE (f_type (field_at iter)) = PB_LTYPE_SUBMESSAGE" for q w
  proof -
    have dp: "depth_ok d (dec_tables P) (ptr_table (dec_tables P) (f_ptr (field_at iter)))" using Suc.prems that by simp
    show ?thesis
      unfolding pb_message_set_to_defaults.simps
      by (intro world_all_total Suc.IH [OF dp] message_walk_fields [OF depth_okD(1) [OF dp]] n(2))
  qed
  show ?case
    unfolding n(1) pb_field_set_to_default.simps(2) Let_def using depth_okD(3) [OF Suc.prems(1,2)]
    by (intro if_total sub) simp_all
qed simp

lemma defaults_total:
  assumes "depth_ok d (dec_tables P) fs" and "2 * d < n"
  shows "pb_message_set_to_defaults n P fs dest w \<noteq> None"
proof -
  obtain m where "n = Suc m" "2 * d \<le> m" using assms(2) by (cases n) auto
  then show ?thesis
    using field_default_total [OF assms(1)] message_walk_fields [OF depth_okD(1) [OF assms(1)]]
    by (simp add: world_all_total del: not_None_eq)
qed

lemma map_option_total: "x \<noteq> None \<Longrightarrow> map_option f x \<noteq> None"
  by simp

lemma field_release_total:
  "depth_ok d (dec_tables P) fs \<Longrightarrow> field_at iter \<in> set fs \<Longrightarrow> 2 * d \<le> n \<Longrightarrow> pb_release_single_field n P iter w \<noteq> None"
proof (induction d arbitrary: fs iter n w)
  case (Suc d)
  obtain m where n: "n = Suc (Suc m)" "2 * d \<le> m" using Suc.prems(3) by (cases n; cases "n - 1") auto
  have sub: "pb_release (Suc m) P (ptr_table (dec_tables P) (f_ptr (field_at iter))) q w \<noteq> None"
    if "PB_LTYPE (f_type (field_at iter)) = PB_LTYPE_SUBMESSAGE \<and> b" for q w b
  proof -
    have dp: "depth_ok d (dec_tables P) (ptr_table (dec_tables P) (f_ptr (field_at iter)))" using Suc.prems that by simp
    show ?thesis
      unfolding pb_release.simps
      by (intro if_total world_all_total Suc.IH [OF dp] message_walk_fields [OF depth_okD(1) [OF dp]] n(2)) simp_all
  qed
  show ?case
    unfolding n(1) pb_release_single_field.simps(2) Let_def using depth_okD(3) [OF Suc.prems(1,2)]
    by (intro if_total map_option_total world_all_total sub) simp_all
qed simp

lemma release_total:
  assumes "depth_ok d (dec_tables P) fs" and "2 * d < n"
  shows "pb_release n P fs dest w \<noteq> None"
proof -
  obtain m where "n = Suc m" "2 * d \<le> m" using assms(2) by (cases n) auto
  then show ?thesis
    using field_release_total [OF assms(1)] message_walk_fields [OF depth_okD(1) [OF assms(1)]]
    by (simp add: world_all_total del: not_None_eq)
qed

section \<open>Fields\<close>

lemma packed_static_total:
  assumes "\<And>q. consumes k (func (field_at iter) q)"
  shows "bytes_left s \<le> k \<Longrightarrow> bytes_left s < n \<Longrightarrow> packed_static_loop n func iter s w \<noteq> None"
proof (induction n arbitrary: s w)
  case (Suc n)
  let ?q = "pData iter + item_offset (field_at iter) (size_at w (pSize iter))"
  obtain ok s' w' where item: "func (field_at iter) ?q s w = Some (ok, s', w')" "bytes_left s' \<le> bytes_left s" "ok \<Longrightarrow> bytes_left s' < bytes_left s"
    by (rule consumesE [where k = k and d = "func (field_at iter) ?q" and s = s and w = w, OF assms Suc.prems(1)]) blast
  show ?case using item Suc.prems Suc.IH [of s'] by (cases ok) (auto simp: Let_def)
qed simp

lemma static_total:
  assumes sub: "PB_LTYPE (f_type (field_at iter)) = PB_LTYPE_SUBMESSAGE \<Longrightarrow>
      \<forall>b q s w. bytes_left s < k \<longrightarrow> dec b (ptr_table (dec_tables P) (f_ptr (field_at iter))) q s w \<noteq> None"
    and defaults: "PB_LTYPE (f_type (field_at iter)) = PB_LTYPE_SUBMESSAGE \<Longrightarrow>
      \<forall>q w. pb_message_set_to_defaults n P (ptr_table (dec_tables P) (f_ptr (field_at iter))) q w \<noteq> None"
    and fuel: "k \<le> n"
  shows "returns k (decode_static_field n P dec wt iter)"
proof -
  let ?func = "PB_DECODERS (dec_tables P) dec (PB_LTYPE (f_type (field_at iter)))"
  have func: "consumes j (?func (field_at iter) q)" if "j \<le> k" for j q
    by (rule consumes_decoder) (use sub that in \<open>meson less_le_trans\<close>)
  have packed: "returns k (packed_static n ?func iter)"
    unfolding packed_static_def
  proof (intro consumes_returns consumes_sub)
    fix s :: "'a pb_istream" and w assume s: "bytes_left s < k"
    have "packed_static_loop n ?func iter s w \<noteq> None"
      by (rule packed_static_total [where k = k]) (use func s fuel in auto)
    then show "(case packed_static_loop n ?func iter s w of None \<Rightarrow> None
        | Some (status, s, w) \<Rightarrow> Some (if bytes_left s \<noteq> 0 then Stop ''array overflow'' else Close status, s, w)) \<noteq> None"
      by auto
  qed
  note one = consumes_returns [OF func [OF le_refl]]
  show ?thesis
    unfolding decode_static_field_def Let_def
    by (intro returns_if(1) returns_upd(1) returns_with(1) returns_world(1) returns_simple(2) one packed map_option_total if_total)
      (use defaults in simp_all)
qed

lemma initialize_total:
  assumes "PB_LTYPE (f_type (field_at iter)) = PB_LTYPE_SUBMESSAGE \<Longrightarrow>
      \<forall>q w. pb_message_set_to_defaults n P (ptr_table (dec_tables P) (f_ptr (field_at iter))) q w \<noteq> None"
  shows "initialize_pointer_field n P item iter w \<noteq> None"
  unfolding initialize_pointer_field_def Let_def by (intro if_total) (use assms in simp_all)

lemma case_total:
  assumes "\<exists>ok s' w'. d = Some (ok, s', w') \<and> R ok s'" and "\<And>s' w'. R True s' \<Longrightarrow> g s' w' \<noteq> None"
  shows "(case d of None \<Rightarrow> None | Some (False, s, w) \<Rightarrow> Some (False, s, w) | Some (True, s, w) \<Rightarrow> g s w) \<noteq> None"
proof -
  from assms(1) obtain ok s' w' where "d = Some (ok, s', w')" "R ok s'" by blast
  then show ?thesis using assms(2) by (cases ok) auto
qed

lemma packed_pointer_total:
  assumes "\<And>q. consumes k (func (field_at iter) q)" and "\<And>q w. initialize_pointer_field m P q iter w \<noteq> None"
  shows "bytes_left s \<le> k \<Longrightarrow> bytes_left s < n \<Longrightarrow> packed_pointer_loop n m P func iter allocated s w \<noteq> None"
proof (induction n arbitrary: s w allocated)
  case (Suc n)
  have item: "\<exists>ok s'' w''. dec_world (initialize_pointer_field m P q iter) (func (field_at iter) q) s' w' = Some (ok, s'', w'') \<and>
      bytes_left s'' \<le> bytes_left s' \<and> (ok \<longrightarrow> bytes_left s'' < bytes_left s')" if "bytes_left s' \<le> bytes_left s" for q s' w'
    using returns_world(2) [where f = "initialize_pointer_field m P q iter" and k = k, OF assms(2) assms(1) [of q]] that Suc.prems(1)
    unfolding consumes_def by simp
  have cont: "(if q = 0 then Some (False, s', w')
      else case dec_world (initialize_pointer_field m P q iter) (func (field_at iter) q) s' w' of
        None \<Rightarrow> None
      | Some (False, s, w) \<Rightarrow> Some (False, s, w)
      | Some (True, s, w) \<Rightarrow> packed_pointer_loop n m P func iter al s (store_size (pSize iter) (size_at w (pSize iter) + 1) w)) \<noteq> None"
    if "bytes_left s' \<le> bytes_left s" for q s' w' al
    by (intro if_total case_total [where R = "\<lambda>ok s''. bytes_left s'' \<le> bytes_left s' \<and> (ok \<longrightarrow> bytes_left s'' < bytes_left s')"] item that)
      (use that Suc in \<open>simp_all\<close>)
  have alloc: "\<exists>ok s' w'. (if b then allocate_field p x c else dec_ok) s w = Some (ok, s', w') \<and> bytes_left s' \<le> bytes_left s" for b p x c
    using returns_allocate [of k p x c] returns_simple(1) [of k] Suc.prems(1) unfolding returns_def by auto
  show ?case
    unfolding packed_pointer_loop.simps Let_def
    by (intro if_total case_total [where R = "\<lambda>ok s'. bytes_left s' \<le> bytes_left s"] alloc cont) simp_all
qed simp


lemma pointer_total:
  assumes sub: "PB_LTYPE (f_type (field_at iter)) = PB_LTYPE_SUBMESSAGE \<Longrightarrow>
      \<forall>b q s w. bytes_left s < k \<longrightarrow> dec b (ptr_table (dec_tables P) (f_ptr (field_at iter))) q s w \<noteq> None"
    and defaults: "PB_LTYPE (f_type (field_at iter)) = PB_LTYPE_SUBMESSAGE \<Longrightarrow>
      \<forall>q w. pb_message_set_to_defaults n P (ptr_table (dec_tables P) (f_ptr (field_at iter))) q w \<noteq> None"
    and release: "\<And>w. pb_release_single_field n P iter w \<noteq> None" and fuel: "k \<le> n"
  shows "returns k (decode_pointer_field n P dec wt iter)"
proof -
  let ?func = "PB_DECODERS (dec_tables P) dec (PB_LTYPE (f_type (field_at iter)))"
  have func: "consumes j (?func (field_at iter) q)" if "j \<le> k" for j q
    by (rule consumes_decoder) (use sub that in \<open>meson less_le_trans\<close>)
  note init = initialize_total [where n = n and P = P and iter = iter, OF defaults]
  have packed: "returns k (in_substream (closing (packed_pointer_loop n n P ?func iter c)))" for c
    by (intro consumes_returns consumes_sub closing_total packed_pointer_total [where k = k] func init) (use fuel in simp_all)
  note one = consumes_returns [OF func [OF le_refl]]
  show ?thesis
    unfolding decode_pointer_field_def Let_def
    by (intro returns_if(1) returns_upd(1) returns_with(1) returns_world(1) returns_simple(2) returns_seq returns_allocate
        one packed map_option_total if_total init release) simp_all
qed

text \<open>What the loop over a callback field needs of the user's function: it takes bytes while there are some.\<close>

definition callbacks_consume :: "'s pb_dec_prog \<Rightarrow> bool" where
  "callbacks_consume P \<longleftrightarrow> (\<forall>f field arg s w ok s' w'. callback_decode P f field arg s w = (ok, s', w') \<longrightarrow>
     bytes_left s' \<le> bytes_left s \<and> (ok \<and> 0 < bytes_left s \<longrightarrow> bytes_left s' < bytes_left s))"

lemma callback_loop_total:
  assumes "\<And>s w ok s' w'. f s w = (ok, s', w') \<Longrightarrow> bytes_left s' \<le> bytes_left s \<and> (ok \<and> 0 < bytes_left s \<longrightarrow> bytes_left s' < bytes_left s)"
  shows "bytes_left s < n \<Longrightarrow> callback_loop n f s w \<noteq> None"
proof (induction n arbitrary: s w)
  case (Suc n)
  obtain ok s' w' where f: "f s w = (ok, s', w')" by (cases "f s w")
  note step = assms [OF f]
  show ?case
  proof (cases "ok \<and> bytes_left s' \<noteq> 0")
    case True
    then have "bytes_left s' < n" using step Suc.prems by auto
    then show ?thesis using Suc.IH f True by auto
  next
    case False
    then show ?thesis using f by (cases ok) auto
  qed
qed simp

lemma callback_total:
  assumes "callbacks_consume P" and fuel: "k \<le> n"
  shows "returns k (decode_callback_field n P wt iter)"
proof -
  have call: "bytes_left s' \<le> bytes_left s \<and> (ok \<and> 0 < bytes_left s \<longrightarrow> bytes_left s' < bytes_left s)"
    if "callback_decode P f field arg s w = (ok, s', w')" for f field arg s w ok s' w'
    using assms(1) that unfolding callbacks_consume_def by blast
  have skip: "returns k (dec_bind (\<lambda>s. pb_skip_field s wt) (\<lambda>_. dec_ok))"
    by (intro returns_bind takes ends)
  have many: "returns k (in_substream (\<lambda>s w. case callback_loop n (callback_decode P f field arg) s w of
      None \<Rightarrow> None | Some (ok, s, w) \<Rightarrow> Some (if ok then Close True else Stop ''callback failed'', s, w)))" for f field arg
  proof (intro consumes_returns consumes_sub)
    fix s :: "'a pb_istream" and w assume s: "bytes_left s < k"
    have "callback_loop n (callback_decode P f field arg) s w \<noteq> None"
      by (rule callback_loop_total [OF call]) (use s fuel in simp_all)
    then show "(case callback_loop n (callback_decode P f field arg) s w of
      None \<Rightarrow> None | Some (ok, s, w) \<Rightarrow> Some (if ok then Close True else Stop ''callback failed'', s, w)) \<noteq> None" by auto
  qed
  have one: "returns k (dec_bind (\<lambda>s. read_raw_value s wt 10) (\<lambda>buffer s w.
      case callback_decode P f field arg (pb_istream_from_buffer buffer (length buffer)) w of (ok, _, w) \<Rightarrow> Some (ok, s, w)))" for f field arg
    by (intro returns_bind takes) (auto simp: returns_def split: prod.split)
  let ?run = "\<lambda>f. if f = 0 then dec_bind (\<lambda>s. pb_skip_field s wt) (\<lambda>_. dec_ok)
    else if wt = PB_WT_STRING then in_substream (\<lambda>s w. case callback_loop n (callback_decode P f (field_at iter) (pData iter + 8)) s w of
        None \<Rightarrow> None | Some (ok, s, w) \<Rightarrow> Some (if ok then Close True else Stop ''callback failed'', s, w))
    else dec_bind (\<lambda>s. read_raw_value s wt 10) (\<lambda>buffer s w.
        case callback_decode P f (field_at iter) (pData iter + 8) (pb_istream_from_buffer buffer (length buffer)) w of
          (ok, _, w) \<Rightarrow> Some (ok, s, w))"
  have run: "returns k (?run f)" for f
    by (intro returns_if(1) skip many one)
  have "decode_callback_field n P wt iter s w = ?run (if pData iter = 0 then 0 else ptr_at w (pData iter)) s w" for s w
    by (simp add: decode_callback_field_def Let_def)
  then show ?thesis using run unfolding returns_def by simp
qed

text \<open>One field: what is needed of the rest of the decoder is collected in one condition.\<close>

definition subs_return :: "nat \<Rightarrow> nat \<Rightarrow> 's pb_dec_prog \<Rightarrow> (bool \<Rightarrow> pb_field list \<Rightarrow> nat \<Rightarrow> 's decoder) \<Rightarrow> pb_field list \<Rightarrow> bool" where
  "subs_return k n P dec fs \<longleftrightarrow> k \<le> n \<and> table_ok fs \<and>
     (\<forall>iter. stands_in fs iter \<longrightarrow> PB_LTYPE (f_type (field_at iter)) \<noteq> PB_LTYPE_EXTENSION \<and>
        (PB_ATYPE (f_type (field_at iter)) = PB_ATYPE_CALLBACK \<longrightarrow> callbacks_consume P) \<and>
        (\<forall>w. pb_release_single_field n P iter w \<noteq> None) \<and>
        (PB_LTYPE (f_type (field_at iter)) = PB_LTYPE_SUBMESSAGE \<longrightarrow>
           (\<forall>q w. pb_message_set_to_defaults n P (ptr_table (dec_tables P) (f_ptr (field_at iter))) q w \<noteq> None) \<and>
           (\<forall>b q s w. bytes_left s < k \<longrightarrow> dec b (ptr_table (dec_tables P) (f_ptr (field_at iter))) q s w \<noteq> None)))"

lemma union_total:
  assumes "subs_return k n P dec fs" and iter: "stands_in fs iter"
  shows "\<exists>ok s' iter' w'. pb_release_union_field n P s iter w = Some (ok, s', iter', w') \<and> bytes_left s' = bytes_left s \<and> stands_in fs iter'"
proof -
  have tab: "table_ok fs" and release: "pb_release_single_field n P it v \<noteq> None" if "stands_in fs it" for it v
    using assms(1) that unfolding subs_return_def by blast+
  let ?old = "size_at w (pSize iter)" and ?new = "f_tag (field_at iter)"
  obtain found it1 where find1: "pb_field_iter_find iter (of_nat ?old) = Some (found, it1)" "stands_in fs it1"
    using find_total [OF tab [OF iter] iter] .
  obtain v where rel: "pb_release_single_field n P it1 w = Some v" using release [OF find1(2), of w] by blast
  obtain found2 it2 where find2: "pb_field_iter_find it1 ?new = Some (found2, it2)" "stands_in fs it2"
    using find_total [OF tab [OF iter] find1(2)] .
  show ?thesis
    using find1 rel find2 iter by (cases found; cases found2) (auto simp: pb_release_union_field_def Let_def)
qed

lemma field_returns:
  assumes subs: "subs_return k n P dec fs" and iter: "stands_in fs iter" and s: "bytes_left s \<le> k"
  shows "\<exists>ok s' iter' w'. decode_field n P dec wt iter s w = Some (ok, s', iter', w') \<and> bytes_left s' \<le> bytes_left s \<and> stands_in fs iter'"
proof -
  have act: "returns k (if PB_ATYPE (f_type (field_at it)) = PB_ATYPE_STATIC then decode_static_field n P dec wt it
      else if PB_ATYPE (f_type (field_at it)) = PB_ATYPE_POINTER then decode_pointer_field n P dec wt it
      else if PB_ATYPE (f_type (field_at it)) = PB_ATYPE_CALLBACK then decode_callback_field n P wt it
      else dec_error ''invalid field type'')" if "stands_in fs it" for it
    by (intro returns_if(1) static_total pointer_total callback_total returns_simple(2))
      (use subs that in \<open>unfold subs_return_def, blast+\<close>)
  obtain ok1 s1 it1 w1 where pre: "(if PB_HTYPE (f_type (field_at iter)) = PB_HTYPE_ONEOF then pb_release_union_field n P s iter w
      else Some (True, s, iter, w)) = Some (ok1, s1, it1, w1)" "bytes_left s1 = bytes_left s" "stands_in fs it1"
    using union_total [OF subs iter, of s w] iter by (cases "PB_HTYPE (f_type (field_at iter)) = PB_HTYPE_ONEOF") auto
  have "bytes_left s1 \<le> k" using pre(2) s by simp
  from act [OF pre(3), unfolded returns_def, rule_format, OF this, of w1] show ?thesis
    unfolding decode_field_def pre(1) Let_def using pre(2,3) by (cases ok1) auto
qed


section \<open>Messages\<close>

lemma see_required_iter [simp]: "dl_iter (see_required l) = dl_iter l"
  by (simp add: see_required_def Let_def)

lemma known_returns:
  assumes "subs_return k n P dec fs" and iter: "stands_in fs (dl_iter l)" and s: "bytes_left s \<le> k"
  shows "\<exists>ok l' s' w'. decode_known n P dec wt l s w = Some (ok, l', s', w') \<and> bytes_left s' \<le> bytes_left s \<and> stands_in fs (dl_iter l')"
proof -
  note field = field_returns [OF assms(1) _ s]
  have local_iter: "stands_in fs (if b then dl_iter l\<lparr>pSize := Fixed_count\<rparr> else dl_iter l)" for b using iter by simp
  show ?thesis
    unfolding decode_known_def Let_def
  proof (split if_split, intro conjI impI, goal_cases)
    case 1
    then show ?case using iter by auto
  next
    case 2
    obtain ok s' it w' where
      "decode_field n P dec wt (if PB_HTYPE (f_type (field_at (dl_iter l))) = PB_HTYPE_REPEATED \<and> pSize (dl_iter l) = At (pData (dl_iter l))
         then dl_iter l\<lparr>pSize := Fixed_count\<rparr> else dl_iter l) s
       (if (PB_HTYPE (f_type (field_at (dl_iter l))) = PB_HTYPE_REPEATED \<and> pSize (dl_iter l) = At (pData (dl_iter l))) \<and>
           fixed_count_field l \<noteq> Some (pos (dl_iter l)) then w\<lparr>fixed_count_size := 0\<rparr> else w) = Some (ok, s', it, w')"
      "bytes_left s' \<le> bytes_left s" "stands_in fs it"
      using field [OF local_iter] by blast
    then show ?case by (auto split del: if_split)
  qed
qed

lemma unknown_returns:
  assumes "subs_return k n P dec fs" and iter: "stands_in fs (dl_iter l)" and tag: "tag \<noteq> - 1"
  shows "\<exists>ok l' s' w'. decode_unknown n P dec tag wt l s w = Some (ok, l', s', w') \<and> bytes_left s' \<le> bytes_left s \<and> stands_in fs (dl_iter l')"
proof -
  have tab: "table_ok fs" and no_ext: "stands_in fs it \<Longrightarrow> PB_LTYPE (f_type (field_at it)) \<noteq> PB_LTYPE_EXTENSION" for it
    using assms(1) unfolding subs_return_def by blast+
  obtain it where find: "find_extension_field (dl_iter l) = Some (False, it)" "stands_in fs it"
    using find_extension_total [OF tab iter] no_ext by metis
  have top: "\<not> - 1 \<le> tag" using tag by (simp add: word_order.extremum_unique)
  have skip: "\<exists>ok l'' s' w'. skip_unknown l' wt s w = Some (ok, l'', s', w') \<and> bytes_left s' \<le> bytes_left s \<and> stands_in fs (dl_iter l'')"
    if "stands_in fs (dl_iter l')" for l'
    using that lowersD [OF lowers_skip_field, of s wt] by (auto simp: skip_unknown_def split: prod.split)
  show ?thesis using skip [OF iter] skip [of "l\<lparr>dl_iter := it, extension_range_start := - 1\<rparr>"] find top
    by (simp add: decode_unknown_def Let_def)
qed

lemma decode_tag_small: "pb_decode_tag s = (Some (wt, tag), eof, s') \<Longrightarrow> tag \<noteq> - 1"
proof -
  assume "pb_decode_tag s = (Some (wt, tag), eof, s')"
  then obtain v :: u32 where "tag = drop_bit 3 v"
    by (auto simp: pb_decode_tag_def split: prod.splits option.splits if_splits)
  moreover have "\<not> bit (drop_bit 3 v) 31" by (auto simp: bit_simps dest: bit_imp_le_length)
  moreover have "bit (- 1 :: u32) 31" by simp
  ultimately show "tag \<noteq> - 1" by metis
qed

lemma loop_returns:
  assumes subs: "subs_return k n P dec fs"
  shows "stands_in fs (dl_iter l) \<Longrightarrow> bytes_left s \<le> Suc k \<Longrightarrow> bytes_left s < m \<Longrightarrow>
    \<exists>ok l' s' w'. decode_loop m n P dec l s w = Some (ok, l', s', w') \<and> bytes_left s' \<le> bytes_left s"
proof (induction m arbitrary: l s w)
  case (Suc m)
  have tab: "table_ok fs" using subs unfolding subs_return_def by blast
  show ?case
  proof (cases "bytes_left s = 0")
    case False
    obtain r eof s1 where tag: "pb_decode_tag s = (r, eof, s1)" by (cases "pb_decode_tag s")
    note t = decode_tag_takes [OF tag]
    show ?thesis
    proof (cases r)
      case None
      then show ?thesis using tag t False by auto
    next
      case (Some wt_tag)
      obtain wt tg where wt: "wt_tag = (wt, tg)" by (cases wt_tag)
      have s1: "bytes_left s1 < bytes_left s" "bytes_left s1 \<le> k" using t Some Suc.prems(2) by auto
      obtain found iter where find: "pb_field_iter_find (dl_iter l) tg = Some (found, iter)" "stands_in fs iter"
        using find_total [OF tab Suc.prems(1)] .
      let ?l = "l\<lparr>dl_iter := iter\<rparr>"
      have "\<exists>ok l' s' w'. (if found then decode_known n P dec wt ?l s1 w else decode_unknown n P dec tg wt ?l s1 w) =
          Some (ok, l', s', w') \<and> bytes_left s' \<le> bytes_left s1 \<and> stands_in fs (dl_iter l')"
        using known_returns [OF subs _ s1(2), of ?l wt w] unknown_returns [OF subs, of ?l tg wt s1 w]
          find(2) decode_tag_small [of s wt tg eof s1] tag Some wt by simp
      then obtain ok l' s' w' where step: "(if found then decode_known n P dec wt ?l s1 w else decode_unknown n P dec tg wt ?l s1 w) =
          Some (ok, l', s', w')" "bytes_left s' \<le> bytes_left s1" "stands_in fs (dl_iter l')" by blast
      show ?thesis
      proof (cases ok)
        case True
        obtain ok' l'' s'' w'' where "decode_loop m n P dec l' s' w' = Some (ok', l'', s'', w'')" "bytes_left s'' \<le> bytes_left s'"
          using Suc.IH [OF step(3), of s' w'] step(2) s1 Suc.prems(2,3) by auto
        then show ?thesis using False tag Some wt find step s1 True by (auto simp: Let_def)
      next
        case False
        then show ?thesis using \<open>bytes_left s \<noteq> 0\<close> tag Some wt find step s1 by (auto simp: Let_def)
      qed
    qed
  qed auto
qed simp

lemma noinit_returns:
  assumes "subs_return k n P dec fs" and "bytes_left s \<le> Suc k" and "bytes_left s < n"
  shows "\<exists>ok s' w'. noinit_body n P dec fs dest s w = Some (ok, s', w') \<and> bytes_left s' \<le> bytes_left s"
proof -
  let ?l = "\<lparr>dl_iter = snd (pb_field_iter_begin fs dest), fields_seen = [0, 0], extension_range_start = 0, fixed_count_field = None\<rparr>"
  have "stands_in fs (dl_iter ?l)" by (simp add: stands_in_begin)
  from loop_returns [OF assms(1) this assms(2,3), of "w\<lparr>fixed_count_size := 0\<rparr>"]
  obtain ok l' s' w' where "decode_loop n n P dec ?l s (w\<lparr>fixed_count_size := 0\<rparr>) = Some (ok, l', s', w')" "bytes_left s' \<le> bytes_left s"
    by blast
  then show ?thesis by (auto simp: noinit_body_def Let_def)
qed

lemma with_defaults_returns:
  assumes "depth_ok d (dec_tables P) fs" and "2 * d < n"
    and "\<And>w. \<exists>ok s' w'. noinit fs dest s w = Some (ok, s', w') \<and> bytes_left s' \<le> bytes_left s"
  shows "\<exists>ok s' w'. with_defaults n P noinit fs dest s w = Some (ok, s', w') \<and> bytes_left s' \<le> bytes_left s"
proof -
  obtain v where v: "pb_message_set_to_defaults n P fs dest w = Some v" using defaults_total [OF assms(1,2)] by blast
  obtain ok s' w' where run: "noinit fs dest s v = Some (ok, s', w')" "bytes_left s' \<le> bytes_left s" using assms(3) by blast
  obtain w'' where "pb_release n P fs dest w' = Some w''" using release_total [OF assms(1,2)] by blast
  then show ?thesis using v run by (cases ok) (auto simp: with_defaults_def dec_world_def)
qed

text \<open>Whether a message type has a callback field, itself or in a submessage.\<close>

fun reaches_callback :: "nat \<Rightarrow> (nat \<Rightarrow> pb_field list) \<Rightarrow> pb_field list \<Rightarrow> bool" where
  "reaches_callback 0 T fs = False"
| "reaches_callback (Suc d) T fs \<longleftrightarrow> (\<exists>f \<in> set fs. PB_ATYPE (f_type f) = PB_ATYPE_CALLBACK \<or>
     PB_LTYPE (f_type f) = PB_LTYPE_SUBMESSAGE \<and> reaches_callback d T (ptr_table T (f_ptr f)))"

lemma reaches_callbackI:
  "0 < d \<Longrightarrow> f \<in> set fs \<Longrightarrow> PB_ATYPE (f_type f) = PB_ATYPE_CALLBACK \<Longrightarrow> reaches_callback d T fs"
  "0 < d \<Longrightarrow> f \<in> set fs \<Longrightarrow> PB_LTYPE (f_type f) = PB_LTYPE_SUBMESSAGE \<Longrightarrow> reaches_callback (d - 1) T (ptr_table T (f_ptr f)) \<Longrightarrow>
   reaches_callback d T fs"
  by (cases d; auto)+

lemma pb_decode_noinit_returns:
  "depth_ok d (dec_tables P) fs \<Longrightarrow> bytes_left s + 2 * d < n \<Longrightarrow> (reaches_callback d (dec_tables P) fs \<Longrightarrow> callbacks_consume P) \<Longrightarrow>
    \<exists>ok s' w'. pb_decode_noinit P n fs dest s w = Some (ok, s', w') \<and> bytes_left s' \<le> bytes_left s"
proof (induction n arbitrary: d fs dest s w)
  case (Suc n)
  let ?dec = "\<lambda>init. if init then with_defaults n P (pb_decode_noinit P n) else pb_decode_noinit P n"
  let ?k = "bytes_left s - 1"
  note tab = depth_okD(1,2) [OF Suc.prems(1)]
  have sub: "?dec b gs q t v \<noteq> None" if "depth_ok (d - 1) (dec_tables P) gs" "bytes_left t < ?k"
      "reaches_callback (d - 1) (dec_tables P) gs \<Longrightarrow> callbacks_consume P" for b gs q t v
  proof -
    have "bytes_left t + 2 * (d - 1) < n" "2 * (d - 1) < n" using that(2) Suc.prems(2) by auto
    note f = this Suc.IH [OF that(1) this(1) that(3)]
    have "pb_decode_noinit P n gs q t v \<noteq> None" using f(3) [of q v] by auto
    moreover have "with_defaults n P (pb_decode_noinit P n) gs q t v \<noteq> None"
      using with_defaults_returns [OF that(1) f(2), of "pb_decode_noinit P n" q t v, OF f(3)] by auto
    ultimately show ?thesis by simp
  qed
  have "subs_return ?k n P ?dec fs"
    unfolding subs_return_def
  proof (intro conjI allI impI)
    fix iter assume "stands_in fs iter"
    then have f: "field_at iter \<in> set fs" by (rule stands_in_field [OF tab(1)])
    show "PB_LTYPE (f_type (field_at iter)) \<noteq> PB_LTYPE_EXTENSION" using depth_okD(3) [OF Suc.prems(1) f] .
    show "callbacks_consume P" if "PB_ATYPE (f_type (field_at iter)) = PB_ATYPE_CALLBACK"
      by (rule Suc.prems(3) [OF reaches_callbackI(1) [OF tab(2) f that]])
    show "pb_release_single_field n P iter v \<noteq> None" for v
      by (rule field_release_total [OF Suc.prems(1) f]) (use Suc.prems(2) in simp)
    assume lt: "PB_LTYPE (f_type (field_at iter)) = PB_LTYPE_SUBMESSAGE"
    note dp = depth_okD(4) [OF Suc.prems(1) f lt]
    show "pb_message_set_to_defaults n P (ptr_table (dec_tables P) (f_ptr (field_at iter))) q v \<noteq> None" for q v
      by (rule defaults_total [OF dp]) (use Suc.prems(2) tab(2) in simp)
    show "?dec b (ptr_table (dec_tables P) (f_ptr (field_at iter))) q t v \<noteq> None" if "bytes_left t < ?k" for b q t v
      by (rule sub [OF dp that Suc.prems(3) [OF reaches_callbackI(2) [OF tab(2) f lt]]])
  qed (use Suc.prems(2) tab in auto)
  from noinit_returns [OF this] Suc.prems(2) tab(2) show ?case by simp
qed simp

section \<open>The property\<close>

lemma pb_decode_ends:
  assumes "depth_ok d (dec_tables P) fs" and "reaches_callback d (dec_tables P) fs \<Longrightarrow> callbacks_consume P" and "bytes_left s + 2 * d < n"
  shows "\<exists>ok s' w'. pb_decode P n fs dest s w = Some (ok, s', w') \<and> bytes_left s' \<le> bytes_left s"
  unfolding pb_decode_def
  by (rule with_defaults_returns [OF assms(1)], use assms(3) in simp, rule pb_decode_noinit_returns [OF assms(1,3,2)])

text \<open>Why the callbacks have to take bytes: the loop calls again as long as there are some, and a callback that leaves them is called forever.\<close>

lemma callback_loop_stuck:
  assumes "\<And>w. \<exists>w'. f s w = (True, s, w')" and "bytes_left s \<noteq> 0"
  shows "callback_loop n f s w = None"
proof (induction n arbitrary: w)
  case (Suc n)
  obtain w' where "f s w = (True, s, w')" using assms(1) by blast
  then show ?case using Suc assms(2) by simp
qed simp

text \<open>
  C9: decoding ends. On a message type without extension ranges whose submessages are nested less than
  \<open>d\<close> deep - static and pointer fields, unions, packed arrays - whatever the bytes, the memory
  and the heap hold, and whether or not the stream fails, \<open>pb_decode\<close> returns: it needs one level of
  recursion and one turn of its loops for each byte left in the stream, and two for each level of
  nesting. It never gives bytes back to the stream. If the type has callback fields the same holds provided that
  the user's callbacks give no bytes back and, when they succeed, take some while there are some; without
  that the loop over a callback field need not end (\<open>callback_loop_stuck\<close>).
\<close>

theorem pb_decode_returns:
  assumes "depth_ok d (dec_tables P) fs" and "reaches_callback d (dec_tables P) fs \<longrightarrow> callbacks_consume P" and "bytes_left s + 2 * d < n"
  shows "\<exists>ok s' w'. pb_decode P n fs dest s w = Some (ok, s', w') \<and> bytes_left s' \<le> bytes_left s"
  by (rule pb_decode_ends [OF assms(1) _ assms(3)]) (use assms(2) in blast)

text \<open>For the witnesses: a decoder whose callbacks take all that is left, and a memory full of numbers.\<close>

definition example_decoder :: "unit pb_dec_prog" where
  "example_decoder = \<lparr>dec_tables = (\<lambda>_. Timestamp_fields), ext_fields = (\<lambda>_. [PB_LAST_FIELD]),
     callback_decode = (\<lambda>_ _ _ s w. (True, s\<lparr>bytes_left := 0\<rparr>, w)), ext_decode = (\<lambda>_ _ _ _ s w. (True, s, w))\<rparr>"

definition example_world :: pb_world where
  "example_world = \<lparr>dmem = (\<lambda>a. of_nat a), blocks = (\<lambda>_. None), answers = [], bad_free = False, fixed_count_size = 0\<rparr>"

theorem pb_decode_returns_witness:
  "\<exists>ok s' w'. pb_decode example_decoder 10 Timestamp_fields 4096 (pb_istream_from_buffer [26, 2, 7, 7, 8, 0xAC, 2] 7) example_world =
     Some (ok, s', w')"
proof -
  have "depth_ok 1 (dec_tables example_decoder) Timestamp_fields"
    by (simp add: Timestamp_table) (simp add: Timestamp_fields_def PB_LAST_FIELD_def pb_types)
  moreover have "callbacks_consume example_decoder" by (simp add: callbacks_consume_def example_decoder_def)
  ultimately show ?thesis
    using pb_decode_returns [of 1 example_decoder Timestamp_fields "pb_istream_from_buffer [26, 2, 7, 7, 8, 0xAC, 2] 7" 10 4096 example_world]
    by (auto simp: pb_istream_from_buffer_def)
qed

end
