(* ===== verification/Pb_Safe.thy ===== *)
theory Pb_Safe
  imports Pb_Total
begin

text \<open>
  Memory safety of the decoder: on message types with static allocation it writes nowhere outside
  the structure it is given.
\<close>

section \<open>Writing inside a region\<close>

named_theorems confined_intros

definition same_outside :: "nat \<Rightarrow> nat \<Rightarrow> pb_world \<Rightarrow> pb_world \<Rightarrow> bool" where
  "same_outside lo n w w' \<longleftrightarrow> (\<forall>a. a < lo \<or> lo + n \<le> a \<longrightarrow> dmem w' a = dmem w a) \<and>
     blocks w' = blocks w \<and> answers w' = answers w \<and> bad_free w' = bad_free w"

definition confined :: "nat \<Rightarrow> nat \<Rightarrow> 's decoder \<Rightarrow> bool" where
  "confined lo n d \<longleftrightarrow> (\<forall>s w ok s' w'. d s w = Some (ok, s', w') \<longrightarrow> same_outside lo n w w')"

lemma confinedD: "confined lo n d \<Longrightarrow> d s w = Some (ok, s', w') \<Longrightarrow> same_outside lo n w w'"
  by (simp add: confined_def)

lemma same_outside_refl [simp]: "same_outside lo n w w"
  by (simp add: same_outside_def)

lemma same_outside_trans: "same_outside lo n w w' \<Longrightarrow> same_outside lo n w' w'' \<Longrightarrow> same_outside lo n w w''"
  by (simp add: same_outside_def)

lemma same_outside_mono: "same_outside lo n w w' \<Longrightarrow> lo' \<le> lo \<Longrightarrow> lo + n \<le> lo' + n' \<Longrightarrow> same_outside lo' n' w w'"
  by (simp add: same_outside_def)

lemma confined_mono: "confined lo n d \<Longrightarrow> lo' \<le> lo \<Longrightarrow> lo + n \<le> lo' + n' \<Longrightarrow> confined lo' n' d"
  using same_outside_mono by (fastforce simp: confined_def)

lemma same_outside_store: "lo \<le> a \<Longrightarrow> a + length bs \<le> lo + n \<Longrightarrow> same_outside lo n w (store a bs w)"
  by (auto simp: same_outside_def store_def wr_bytes_def)

lemma same_outside_memset: "lo \<le> a \<Longrightarrow> a + k \<le> lo + n \<Longrightarrow> same_outside lo n w (memset_0 a k w)"
  by (simp add: memset_0_def same_outside_store)

lemma same_outside_place:
  "(\<forall>a. p = At a \<longrightarrow> lo \<le> a \<and> a + 4 \<le> lo + n) \<Longrightarrow> same_outside lo n w (store_size p v w)"
  "(\<forall>a. p = At a \<longrightarrow> lo \<le> a \<and> a + 1 \<le> lo + n) \<Longrightarrow> same_outside lo n w (store_bool p b w)"
  by (cases p; simp add: same_outside_store; simp add: same_outside_def)+

lemma confined_simple [confined_intros]: "confined lo n dec_ok" "confined lo n (dec_error msg)"
  by (simp_all add: confined_def dec_ok_def dec_error_def)

lemma confined_upd [confined_intros]:
  "(\<And>w. same_outside lo n w (f w)) \<Longrightarrow> confined lo n d \<Longrightarrow> confined lo n (dec_upd f d)"
  unfolding confined_def dec_upd_def using same_outside_trans by blast

lemma confined_world [confined_intros]:
  "(\<And>w w'. f w = Some w' \<Longrightarrow> same_outside lo n w w') \<Longrightarrow> confined lo n d \<Longrightarrow> confined lo n (dec_world f d)"
  unfolding confined_def dec_world_def by (fastforce split: option.splits intro: same_outside_trans)

lemma confined_bind [confined_intros]: "(\<And>v. confined lo n (k v)) \<Longrightarrow> confined lo n (dec_bind rd k)"
  unfolding confined_def dec_bind_def by (fastforce split: option.splits prod.splits)

lemma confined_with [confined_intros]: "(\<And>w. confined lo n (f w)) \<Longrightarrow> confined lo n (dec_with f)"
  unfolding confined_def dec_with_def by blast

lemma confined_if [confined_intros]: "(b \<Longrightarrow> confined lo n d) \<Longrightarrow> (\<not> b \<Longrightarrow> confined lo n d') \<Longrightarrow> confined lo n (if b then d else d')"
  by simp

lemma confined_sub:
  assumes "\<And>s w e s' w'. body s w = Some (e, s', w') \<Longrightarrow> same_outside lo n w w'"
  shows "confined lo n (in_substream body)"
  unfolding confined_def in_substream_def dec_error_def
  by (auto split: prod.splits option.splits sub_end.splits dest!: assms)

lemma confined_closing: "confined lo n d \<Longrightarrow> confined lo n (in_substream (closing d))"
  by (rule confined_sub) (auto simp: closing_def confined_def)

section \<open>The field decoders\<close>

text \<open>The sizes a descriptor must have for its type.\<close>

definition elem_ok :: "pb_field \<Rightarrow> bool" where
  "elem_ok f \<longleftrightarrow> PB_ATYPE (f_type f) = PB_ATYPE_STATIC \<and> PB_LTYPE (f_type f) \<noteq> PB_LTYPE_EXTENSION \<and>
     (PB_LTYPE (f_type f) = PB_LTYPE_BOOL \<longrightarrow> 1 \<le> data_size f) \<and>
     (PB_LTYPE (f_type f) = PB_LTYPE_FIXED32 \<longrightarrow> 4 \<le> data_size f) \<and>
     (PB_LTYPE (f_type f) = PB_LTYPE_FIXED64 \<longrightarrow> 8 \<le> data_size f)"

lemma elem_okD: "elem_ok f \<Longrightarrow> PB_ATYPE (f_type f) = PB_ATYPE_STATIC" "elem_ok f \<Longrightarrow> PB_LTYPE (f_type f) \<noteq> PB_LTYPE_EXTENSION"
  by (simp_all add: elem_ok_def)

lemma pb_read_length: "pb_read s True n = (Some bs, s') \<Longrightarrow> length bs \<le> n"
  by (auto simp: pb_read_def pb_read_into_def PB_RETURN_ERROR_def buf_read_def
      split: if_splits isource.splits read_result.splits prod.splits option.splits)

lemma confined_read:
  "(\<And>bs. length bs \<le> k \<Longrightarrow> confined lo n (g bs)) \<Longrightarrow> confined lo n (dec_bind (\<lambda>s. pb_read s True k) g)"
  unfolding confined_def dec_bind_def by (fastforce split: option.splits prod.splits dest: pb_read_length)

lemma confined_numbers:
  "1 \<le> data_size f \<Longrightarrow> confined q (data_size f) (pb_dec_bool f q)"
  "confined q (data_size f) (pb_dec_varint f q)"
  "confined q (data_size f) (pb_dec_uvarint f q)"
  "confined q (data_size f) (pb_dec_svarint f q)"
  "4 \<le> data_size f \<Longrightarrow> confined q (data_size f) (pb_dec_fixed32 f q)"
  "8 \<le> data_size f \<Longrightarrow> confined q (data_size f) (pb_dec_fixed64 f q)"
  unfolding pb_dec_bool_def pb_dec_varint_def pb_dec_uvarint_def pb_dec_svarint_def pb_dec_fixed32_def pb_dec_fixed64_def Let_def
  by (intro confined_intros same_outside_store; simp)+

lemma confined_fixed_length: "confined q (data_size f) (pb_dec_fixed_length_bytes f q)"
  unfolding pb_dec_fixed_length_bytes_def
  by (intro confined_intros confined_read same_outside_store same_outside_memset; simp)

lemma confined_bytes:
  assumes "PB_ATYPE (f_type f) = PB_ATYPE_STATIC"
  shows "confined q (data_size f) (pb_dec_bytes f q)"
proof -
  have st: "(PB_ATYPE (f_type f) = PB_ATYPE_POINTER) = False" using assms by (simp add: pb_types(17,18))
  have "size_add (unat v) 4 = unat v + 4" for v :: u32
    using unsigned_less [of v, where 'a = nat] by (simp add: size_add_exact SIZE_LIMIT_def)
  then show ?thesis
    unfolding pb_dec_bytes_def Let_def st if_False
    by (intro confined_intros confined_read same_outside_store same_outside_place) auto
qed

lemma confined_string:
  assumes "PB_ATYPE (f_type f) = PB_ATYPE_STATIC"
  shows "confined q (data_size f) (pb_dec_string f q)"
proof -
  have st: "(PB_ATYPE (f_type f) = PB_ATYPE_POINTER) = False" using assms by (simp add: pb_types(17,18))
  have room: "unat v + 1 \<le> data_size f" if "\<not> unat (v + 1) < unat v" "\<not> data_size f < unat (v + 1)" for v :: u32
  proof (cases "unat v + 1 < 2 ^ 32")
    case True
    then have "unat (v + 1) = unat v + 1" by (simp add: unat_word_ariths)
    then show ?thesis using that by simp
  next
    case False
    then have "unat v + 1 = 2 ^ 32" using unsigned_less [of v, where 'a = nat] by simp
    then have "unat (v + 1) = 0" "0 < unat v" by (simp_all add: unat_word_ariths)
    then show ?thesis using that by simp
  qed
  have finish: "confined q (data_size f) (\<lambda>s w. case pb_read s True n of
        (None, s) \<Rightarrow> Some (False, s, store (q + n) [0] w)
      | (Some bs, s) \<Rightarrow> Some (True, s, store (q + n) [0] (store q bs w)))" if "n + 1 \<le> data_size f" for n
  proof -
    have "same_outside q (data_size f) w (store (q + n) [0] w')" if "same_outside q (data_size f) w w'" for w w'
      by (rule same_outside_trans [OF that same_outside_store]) (use \<open>n + 1 \<le> data_size f\<close> in simp_all)
    moreover have "same_outside q (data_size f) w (store q bs w)" if "length bs \<le> n" for bs w
      by (rule same_outside_store) (use that \<open>n + 1 \<le> data_size f\<close> in simp_all)
    ultimately show ?thesis
      unfolding confined_def by (auto split: prod.splits option.splits dest!: pb_read_length)
  qed
  show ?thesis
    unfolding pb_dec_string_def Let_def st if_False
    by (intro confined_intros finish room)
qed

section \<open>Layouts\<close>

text \<open>Where the counter of a field is, relative to the structure.\<close>

fun counter_off :: "pb_field list \<Rightarrow> nat \<Rightarrow> int" where
  "counter_off fs 0 = int (field_addr fs 0 0) + size_offset (fs ! 0)"
| "counter_off fs (Suc i) =
     (if same_union fs i then counter_off fs i else int (field_addr fs 0 (Suc i)) + size_offset (fs ! Suc i))"

lemma field_addr_shift: "field_addr fs dest i = dest + field_addr fs 0 i"
  by (induction i) simp_all

lemma counter_addr_shift: "0 \<le> counter_off fs i \<Longrightarrow> counter_addr fs dest i = dest + nat (counter_off fs i)"
proof (induction i)
  case (Suc i)
  show ?case
  proof (cases "same_union fs i")
    case False
    have "counter_addr fs dest (Suc i) = nat (int (dest + field_addr fs 0 (Suc i)) + size_offset (fs ! Suc i))"
      using False by (simp add: ptr_offset_def field_addr_shift [of fs dest i])
    then show ?thesis using False Suc.prems by (simp add: nat_add_distrib)
  qed (use Suc in simp)
qed (simp add: ptr_offset_def)

text \<open>
  A message type whose layout fits a structure of \<open>sz\<close> bytes: its table is closed by \<open>PB_LAST_FIELD\<close>, its fields are static, their data and
  their counters lie inside, and its submessages fit the field that holds them. The counter of a
  repeated field or a union takes four bytes.
\<close>

definition field_fits :: "pb_field list \<Rightarrow> nat \<Rightarrow> nat \<Rightarrow> bool" where
  "field_fits fs sz i \<longleftrightarrow>
     (let f = fs ! i; ht = PB_HTYPE (f_type f) in
      elem_ok f \<and> field_addr fs 0 i + field_span f \<le> sz \<and>
      (ht = PB_HTYPE_OPTIONAL \<and> counter_off fs i \<noteq> int (field_addr fs 0 i) \<longrightarrow> 0 \<le> counter_off fs i \<and> counter_off fs i + 1 \<le> int sz) \<and>
      (ht = PB_HTYPE_REPEATED \<or> ht = PB_HTYPE_ONEOF \<longrightarrow> 0 \<le> counter_off fs i \<and> counter_off fs i + 4 \<le> int sz))"

fun fits :: "nat \<Rightarrow> (nat \<Rightarrow> pb_field list) \<Rightarrow> pb_field list \<Rightarrow> nat \<Rightarrow> bool" where
  "fits 0 T fs sz = False"
| "fits (Suc d) T fs sz \<longleftrightarrow> table_ok fs \<and> List.last fs = PB_LAST_FIELD \<and> 0 < field_count fs \<and>
     (\<forall>i < field_count fs. field_fits fs sz i \<and>
        (PB_LTYPE (f_type (fs ! i)) = PB_LTYPE_SUBMESSAGE \<longrightarrow>
           f_ptr (fs ! i) \<noteq> Null \<and> fits d T (ptr_table T (f_ptr (fs ! i))) (data_size (fs ! i))))"

lemma fitsD:
  assumes "fits d T fs sz"
  shows "table_ok fs" and "0 < field_count fs" and "i < field_count fs \<Longrightarrow> field_fits fs sz i"
    and "i < field_count fs \<Longrightarrow> PB_LTYPE (f_type (fs ! i)) = PB_LTYPE_SUBMESSAGE \<Longrightarrow>
      f_ptr (fs ! i) \<noteq> Null \<and> fits (d - 1) T (ptr_table T (f_ptr (fs ! i))) (data_size (fs ! i))"
  using assms by (cases d; simp)+

lemma field_fitsD:
  assumes "field_fits fs sz i" and iter: "iter = iter_at fs dest i \<or> iter = iter_at fs dest i\<lparr>pSize := Fixed_count\<rparr>"
  shows "elem_ok (field_at iter)"
    and "dest \<le> pData iter" and "pData iter + field_span (field_at iter) \<le> dest + sz"
    and "PB_HTYPE (f_type (field_at iter)) = PB_HTYPE_OPTIONAL \<Longrightarrow> pSize iter \<noteq> At (pData iter) \<Longrightarrow>
           \<forall>a. pSize iter = At a \<longrightarrow> dest \<le> a \<and> a + 1 \<le> dest + sz"
    and "PB_HTYPE (f_type (field_at iter)) \<in> {PB_HTYPE_REPEATED, PB_HTYPE_ONEOF} \<Longrightarrow>
           \<forall>a. pSize iter = At a \<longrightarrow> dest \<le> a \<and> a + 4 \<le> dest + sz"
proof -
  have at: "field_at iter = fs ! i" "pData iter = dest + field_addr fs 0 i"
    using iter by (auto simp: iter_at_def field_at_def field_addr_shift [of fs dest i])
  note f = assms(1) [unfolded field_fits_def Let_def]
  show "elem_ok (field_at iter)" "dest \<le> pData iter" "pData iter + field_span (field_at iter) \<le> dest + sz"
    using f at by simp_all
  have eq: "pSize iter = At a \<Longrightarrow> a = counter_addr fs dest i" for a using iter by (auto simp: iter_at_def)
  have same: "counter_addr fs dest i = dest + field_addr fs 0 i" if "counter_off fs i = int (field_addr fs 0 i)"
    using that counter_addr_shift [of fs i dest] by simp
  show "\<forall>a. pSize iter = At a \<longrightarrow> dest \<le> a \<and> a + 1 \<le> dest + sz"
    if "PB_HTYPE (f_type (field_at iter)) = PB_HTYPE_OPTIONAL" "pSize iter \<noteq> At (pData iter)"
    using f that at eq same counter_addr_shift [of fs i dest] by fastforce
  show "\<forall>a. pSize iter = At a \<longrightarrow> dest \<le> a \<and> a + 4 \<le> dest + sz"
    if "PB_HTYPE (f_type (field_at iter)) \<in> {PB_HTYPE_REPEATED, PB_HTYPE_ONEOF}"
    using f that at eq counter_addr_shift [of fs i dest] by fastforce
qed

section \<open>Defaults and releases\<close>

lemma world_all_same:
  assumes "\<And>x w w'. x \<in> set xs \<Longrightarrow> f x w = Some w' \<Longrightarrow> same_outside lo n w w'" and "world_all f xs w = Some w'"
  shows "same_outside lo n w w'"
  using assms
proof (induction xs arbitrary: w)
  case (Cons x xs)
  then show ?case by (fastforce split: option.splits intro: same_outside_trans)
qed simp

lemma span_static:
  "PB_ATYPE (f_type f) = PB_ATYPE_STATIC \<Longrightarrow> PB_HTYPE (f_type f) \<noteq> PB_HTYPE_REPEATED \<Longrightarrow> field_span f = data_size f"
  by (simp add: field_span_def pb_types(17,18))

lemma length_default_bytes: "length (default_bytes f) \<le> data_size f"
  by (simp add: default_bytes_def split: field_ptr.split)

lemma message_defaults_same:
  "fits d (dec_tables P) fs sz \<Longrightarrow> dest \<noteq> 0 \<Longrightarrow> pb_message_set_to_defaults n P fs dest w = Some w' \<Longrightarrow> same_outside dest sz w w'"
proof (induction d arbitrary: n fs sz dest w w')
  case (Suc d)
  then obtain n' where n: "n = Suc n'" by (cases n) auto
  note tab = fitsD(1) [OF Suc.prems(1)]
  have one: "same_outside dest sz v v'" if iter: "iter \<in> set (message_walk fs dest)" and set: "pb_field_set_to_default n' P iter v = Some v'" for iter v v'
  proof -
    from iter obtain i where i: "i < field_count fs" "iter = iter_at fs dest i"
      using message_walk_at [OF tab Suc.prems(2)] by auto
    note fit = field_fitsD [OF fitsD(3) [OF Suc.prems(1) i(1)], of iter dest]
    have st: "PB_ATYPE (f_type (field_at iter)) = PB_ATYPE_STATIC" "PB_LTYPE (f_type (field_at iter)) \<noteq> PB_LTYPE_EXTENSION"
      using fit(1) i(2) by (simp_all add: elem_ok_def)
    obtain n'' where n'': "n' = Suc n''" using set by (cases n') auto
    let ?ht = "PB_HTYPE (f_type (field_at iter))"
    define has where "has \<longleftrightarrow> ?ht = PB_HTYPE_OPTIONAL \<and> pSize iter \<noteq> At (pData iter)"
    define v1 where "v1 = (if has then store_bool (pSize iter) False v else v)"
    have "same_outside dest sz v v1"
      unfolding v1_def has_def using fit(4) i(2) by (auto intro!: same_outside_place same_outside_store)
    moreover have "same_outside dest sz v1 v'"
    proof (cases "\<not> has \<and> (?ht = PB_HTYPE_REPEATED \<or> ?ht = PB_HTYPE_ONEOF)")
      case True
      then have "v' = store_size (pSize iter) 0 v1"
        using set st unfolding n'' by (auto simp: Let_def has_def v1_def pb_types(17-19))
      then show ?thesis using fit(5) i(2) True by (auto intro!: same_outside_place same_outside_store)
    next
      case False
      then have "?ht \<noteq> PB_HTYPE_REPEATED" unfolding has_def by (auto simp: pb_types(13-16))
      then have span: "pData iter + data_size (field_at iter) \<le> dest + sz"
        using fit(3) i(2) span_static [OF st(1)] by simp
      show ?thesis
      proof (cases "PB_LTYPE (f_type (field_at iter)) = PB_LTYPE_SUBMESSAGE")
        case True
        then have "pb_message_set_to_defaults n'' P (ptr_table (dec_tables P) (f_ptr (field_at iter))) (pData iter) v1 = Some v'"
          using set st False unfolding n'' by (auto simp: Let_def has_def v1_def pb_types(17-19) split: if_splits)
        moreover have "fits d (dec_tables P) (ptr_table (dec_tables P) (f_ptr (field_at iter))) (data_size (field_at iter))"
          using Suc.prems(1) i True by simp
        ultimately have "same_outside (pData iter) (data_size (field_at iter)) v1 v'"
          using Suc.IH fit(2) i(2) Suc.prems(2) by fastforce
        then show ?thesis by (rule same_outside_mono) (use fit(2) i(2) span in auto)
      next
        case no: False
        then have "v' = store (pData iter) (default_bytes (field_at iter)) v1"
          using set st False unfolding n'' by (auto simp: Let_def has_def v1_def pb_types(17-19) split: if_splits)
        then show ?thesis
          using fit(2) i(2) span length_default_bytes [of "field_at iter"] by (auto intro!: same_outside_store)
      qed
    qed
    ultimately show ?thesis by (rule same_outside_trans)
  qed
  show ?case using Suc.prems(3) unfolding n pb_message_set_to_defaults.simps
    by (rule world_all_same [rotated]) (rule one)
qed simp

text \<open>A static message has nothing to release.\<close>

lemma world_all_id: "(\<And>x w w'. x \<in> set xs \<Longrightarrow> f x w = Some w' \<Longrightarrow> w' = w) \<Longrightarrow> world_all f xs w = Some w' \<Longrightarrow> w' = w"
proof (induction xs arbitrary: w)
  case (Cons x xs)
  then show ?case by (fastforce split: option.splits)
qed simp

lemma release_single_id:
  assumes "elem_ok (field_at iter)" and "pb_release_single_field n P iter w = Some w'"
    and sub: "\<And>n q w w'. PB_LTYPE (f_type (field_at iter)) = PB_LTYPE_SUBMESSAGE \<Longrightarrow>
      pb_release n P (ptr_table (dec_tables P) (f_ptr (field_at iter))) q w = Some w' \<Longrightarrow> w' = w"
  shows "w' = w"
proof -
  obtain k where n: "n = Suc k" using assms(2) by (cases n) auto
  have st: "PB_ATYPE (f_type (field_at iter)) = PB_ATYPE_STATIC" "PB_LTYPE (f_type (field_at iter)) \<noteq> PB_LTYPE_EXTENSION"
    using assms(1) by (simp_all add: elem_ok_def)
  show ?thesis
  proof (cases "PB_LTYPE (f_type (field_at iter)) = PB_LTYPE_SUBMESSAGE")
    case True
    have all: "w'' = w" if "world_all (\<lambda>i. pb_release k P (ptr_table (dec_tables P) (f_ptr (field_at iter)))
        (pData iter + i * data_size (field_at iter))) xs w = Some w''" for xs w''
      by (rule world_all_id [OF _ that]) (rule sub [OF True])
    show ?thesis
      using assms(2) st True unfolding n by (auto simp: Let_def pb_types(17-19) split: if_splits dest: all)
  next
    case False
    then show ?thesis using assms(2) st unfolding n by (auto simp: Let_def pb_types(17-19) split: if_splits)
  qed
qed

lemma release_id: "fits d (dec_tables P) fs sz \<Longrightarrow> pb_release n P fs dest w = Some w' \<Longrightarrow> w' = w"
proof (induction d arbitrary: n fs sz dest w w')
  case (Suc d)
  then obtain n' where n: "n = Suc n'" by (cases n) auto
  show ?case
  proof (cases "dest = 0")
    case False
    have "v' = v" if iter: "iter \<in> set (message_walk fs dest)" and rel: "pb_release_single_field n' P iter v = Some v'" for iter v v'
    proof -
      from iter obtain i where i: "i < field_count fs" "field_at iter = fs ! i"
        using message_walk_at [OF fitsD(1) [OF Suc.prems(1)] False] by auto
      then have "elem_ok (field_at iter)" using Suc.prems(1) by (simp add: field_fits_def Let_def)
      then show ?thesis
        by (rule release_single_id [OF _ rel]) (use Suc.prems(1) i Suc.IH in fastforce)
    qed
    then show ?thesis using Suc.prems(2) False unfolding n by (auto dest: world_all_id [rotated])
  qed (use Suc.prems(2) n in simp)
qed simp

section \<open>Static fields\<close>

lemma decoder_confined:
  assumes "elem_ok f"
    and sub: "PB_LTYPE (f_type f) = PB_LTYPE_SUBMESSAGE \<Longrightarrow> f_ptr f \<noteq> Null \<and>
      (\<forall>b. confined q (data_size f) (dec b (ptr_table T (f_ptr f)) q))"
  shows "confined q (data_size f) (PB_DECODERS T dec (PB_LTYPE (f_type f)) f q)"
proof -
  have app: "(if b then g else h) f q = (if b then g f q else h f q)" for b and g h :: "pb_field \<Rightarrow> nat \<Rightarrow> 'a decoder" by simp
  have msg: "confined q (data_size f) (pb_dec_submessage T dec f q)" if "PB_LTYPE (f_type f) = PB_LTYPE_SUBMESSAGE"
    using sub [OF that] by (auto simp: pb_dec_submessage_def intro!: confined_closing)
  show ?thesis
    unfolding PB_DECODERS_def app using assms(1) msg
    by (intro confined_if confined_simple confined_numbers confined_bytes confined_string confined_fixed_length)
       (auto simp: elem_ok_def)
qed

lemma packed_loop_same:
  assumes func: "\<And>k. k < array_size (field_at iter) \<Longrightarrow> confined lo n (func (field_at iter) (pData iter + item_offset (field_at iter) k))"
    and counter: "\<forall>a. pSize iter = At a \<longrightarrow> lo \<le> a \<and> a + 4 \<le> lo + n"
    and "packed_static_loop k func iter s w = Some (ok, s', w')"
  shows "same_outside lo n w w'"
  using assms(3)
proof (induction k arbitrary: s w)
  case (Suc k)
  let ?c = "size_at w (pSize iter)"
  show ?case
  proof (cases "0 < bytes_left s \<and> ?c < array_size (field_at iter)")
    case True
    then obtain b s1 w1 where d: "func (field_at iter) (pData iter + item_offset (field_at iter) ?c) s w = Some (b, s1, w1)"
      using Suc.prems by (auto simp: Let_def split: option.splits)
    have w1: "same_outside lo n w w1" using confinedD [OF func d] True by simp
    show ?thesis
    proof (cases b)
      case True
      then have "packed_static_loop k func iter s1 (store_size (pSize iter) (size_at w1 (pSize iter) + 1) w1) = Some (ok, s', w')"
        using Suc.prems d \<open>0 < bytes_left s \<and> _\<close> by (simp add: Let_def)
      from Suc.IH [OF this] show ?thesis
        using w1 same_outside_place(1) [OF counter] by (blast intro: same_outside_trans)
    next
      case False
      then show ?thesis using Suc.prems d w1 \<open>0 < bytes_left s \<and> _\<close> by (simp add: Let_def)
    qed
  next
    case False
    then show ?thesis using Suc.prems by (auto simp: Let_def)
  qed
qed simp

lemma static_field_confined:
  assumes ok: "elem_ok (field_at iter)" and inside: "dest \<le> pData iter" "pData iter + field_span (field_at iter) \<le> dest + sz"
    and has: "PB_HTYPE (f_type (field_at iter)) = PB_HTYPE_OPTIONAL \<Longrightarrow> pSize iter \<noteq> At (pData iter) \<Longrightarrow>
           \<forall>a. pSize iter = At a \<longrightarrow> dest \<le> a \<and> a + 1 \<le> dest + sz"
    and counter: "PB_HTYPE (f_type (field_at iter)) \<in> {PB_HTYPE_REPEATED, PB_HTYPE_ONEOF} \<Longrightarrow>
           \<forall>a. pSize iter = At a \<longrightarrow> dest \<le> a \<and> a + 4 \<le> dest + sz"
    and sub: "PB_LTYPE (f_type (field_at iter)) = PB_LTYPE_SUBMESSAGE \<Longrightarrow> f_ptr (field_at iter) \<noteq> Null \<and>
      fits d (dec_tables P) (ptr_table (dec_tables P) (f_ptr (field_at iter))) (data_size (field_at iter)) \<and>
      (\<forall>b q. q \<noteq> 0 \<longrightarrow> confined q (data_size (field_at iter)) (dec b (ptr_table (dec_tables P) (f_ptr (field_at iter))) q))"
    and dest: "dest \<noteq> 0"
  shows "confined dest sz (decode_static_field n P dec wt iter)"
proof -
  let ?f = "field_at iter" and ?func = "PB_DECODERS (dec_tables P) dec (PB_LTYPE (f_type (field_at iter)))"
  have func: "confined q (data_size ?f) (?func ?f q)" if "q \<noteq> 0" for q
    by (rule decoder_confined [OF ok]) (use sub that in blast)
  have data: "confined dest sz (?func ?f (pData iter))" if "PB_HTYPE (f_type ?f) \<noteq> PB_HTYPE_REPEATED"
    using span_static [OF _ that] ok inside dest by (intro confined_mono [OF func]) (auto simp: elem_ok_def)
  have item: "confined dest sz (?func ?f (pData iter + item_offset ?f k))"
    if "k < array_size ?f" "PB_HTYPE (f_type ?f) = PB_HTYPE_REPEATED" for k
  proof -
    have "item_offset ?f k \<le> data_size ?f * k" by (simp add: item_offset_def)
    moreover have "data_size ?f * k + data_size ?f \<le> data_size ?f * array_size ?f"
      using that(1) by (metis Suc_leI mult_Suc_right mult_le_mono2 add.commute)
    ultimately show ?thesis
      using that(2) ok inside dest by (intro confined_mono [OF func]) (auto simp: elem_ok_def field_span_def)
  qed
  consider (req) "PB_HTYPE (f_type ?f) = PB_HTYPE_REQUIRED" | (opt) "PB_HTYPE (f_type ?f) = PB_HTYPE_OPTIONAL"
    | (rep) "PB_HTYPE (f_type ?f) = PB_HTYPE_REPEATED" | (one) "PB_HTYPE (f_type ?f) = PB_HTYPE_ONEOF"
    using PB_HTYPE_cases [of "f_type ?f"] by auto
  then show ?thesis
  proof cases
    case req
    then show ?thesis using data by (simp add: decode_static_field_def Let_def pb_types(13-16))
  next
    case opt
    have "same_outside dest sz w (if pSize iter \<noteq> At (pData iter) then store_bool (pSize iter) True w else w)" for w
      using has [OF opt] by (auto intro!: same_outside_place)
    then show ?thesis
      using opt data by (simp add: decode_static_field_def Let_def pb_types(13-16) confined_upd)
  next
    case rep
    then have c: "\<forall>a. pSize iter = At a \<longrightarrow> dest \<le> a \<and> a + 4 \<le> dest + sz" using counter by simp
    have packed: "confined dest sz (packed_static n ?func iter)"
    proof -
      have "same_outside dest sz w w'" if "packed_static_loop n ?func iter s w = Some (ok, s', w')" for s w ok s' w'
        by (rule packed_loop_same [where func = ?func, OF _ c that]) (rule item [OF _ rep])
      then show ?thesis
        unfolding packed_static_def by (intro confined_sub) (auto split: option.splits if_splits)
    qed
    have single: "confined dest sz (dec_with (\<lambda>w. dec_upd (store_size (pSize iter) (size_at w (pSize iter) + 1))
        (if array_size ?f \<le> size_at w (pSize iter) then dec_error ''array overflow''
         else ?func ?f (pData iter + item_offset ?f (size_at w (pSize iter))))))"
      by (intro confined_intros same_outside_place(1) [OF c] item rep) simp
    show ?thesis
      using rep packed single by (simp add: decode_static_field_def Let_def pb_types(13-16))
  next
    case one
    then have c: "\<forall>a. pSize iter = At a \<longrightarrow> dest \<le> a \<and> a + 4 \<le> dest + sz" using counter by simp
    have span: "pData iter + data_size ?f \<le> dest + sz"
      using span_static [of ?f] ok inside one by (auto simp: elem_ok_def pb_types(13-16))
    have reset: "same_outside dest sz w w'"
      if "pb_message_set_to_defaults n P (ptr_table (dec_tables P) (f_ptr ?f)) (pData iter) (memset_0 (pData iter) (data_size ?f) w) = Some w'"
        "PB_LTYPE (f_type ?f) = PB_LTYPE_SUBMESSAGE" for w w'
    proof -
      have "same_outside (pData iter) (data_size ?f) (memset_0 (pData iter) (data_size ?f) w) w'"
        by (rule message_defaults_same [OF _ _ that(1)]) (use sub [OF that(2)] inside dest in auto)
      then have "same_outside (pData iter) (data_size ?f) w w'"
        by (rule same_outside_trans [rotated]) (simp add: same_outside_memset)
      then show ?thesis by (rule same_outside_mono) (use inside span in auto)
    qed
    have upd: "same_outside dest sz w (store_size (pSize iter) v z)" if "same_outside dest sz w z" for w v z
      using that same_outside_place(1) [OF c] by (rule same_outside_trans)
    have "confined dest sz (decode_static_field n P dec wt iter) \<longleftrightarrow> confined dest sz (dec_world (\<lambda>w.
             map_option (store_size (pSize iter) (unat (f_tag ?f)))
               (if PB_LTYPE (f_type ?f) = PB_LTYPE_SUBMESSAGE \<and> size_at w (pSize iter) \<noteq> unat (f_tag ?f)
                then pb_message_set_to_defaults n P (ptr_table (dec_tables P) (f_ptr ?f)) (pData iter)
                       (memset_0 (pData iter) (data_size ?f) w)
                else Some w))
             (?func ?f (pData iter)))"
      using one by (simp add: decode_static_field_def Let_def pb_types(13-16))
    also have "\<dots>"
      by (intro confined_world data)
         (use one reset upd in \<open>auto simp: pb_types(13-16) split: if_splits\<close>)
    finally show ?thesis .
  qed
qed

section \<open>The iterator during decoding\<close>

text \<open>While a message is decoded the iterator stands at a field, possibly with the local counter.\<close>

definition iter_ok :: "pb_field list \<Rightarrow> nat \<Rightarrow> pb_field_iter \<Rightarrow> bool" where
  "iter_ok fs dest iter \<longleftrightarrow> (\<exists>i < field_count fs. iter = iter_at fs dest i \<or>
     (iter = iter_at fs dest i\<lparr>pSize := Fixed_count\<rparr> \<and> PB_HTYPE (f_type (fs ! i)) = PB_HTYPE_REPEATED))"

lemma iter_ok_next:
  assumes "table_ok fs" and "dest \<noteq> 0" and "iter_ok fs dest iter"
  shows "iter_ok fs dest (snd (pb_field_iter_next iter))"
    and "iter = iter_at fs dest i\<lparr>pSize := Fixed_count\<rparr> \<Longrightarrow> i < field_count fs \<Longrightarrow> PB_HTYPE (f_type (fs ! i)) = PB_HTYPE_REPEATED \<Longrightarrow>
      pb_field_iter_next iter = pb_field_iter_next (iter_at fs dest i)"
proof -
  have fixed: "pb_field_iter_next (iter_at fs dest i\<lparr>pSize := Fixed_count\<rparr>) = pb_field_iter_next (iter_at fs dest i)"
    if "i < field_count fs" "PB_HTYPE (f_type (fs ! i)) = PB_HTYPE_REPEATED" for i
    using that table_tags(2) [OF assms(1), of i] by (simp add: pb_field_iter_next_def iter_at_def field_at_def Let_def pb_types(13-16))
  then show "iter = iter_at fs dest i\<lparr>pSize := Fixed_count\<rparr> \<Longrightarrow> i < field_count fs \<Longrightarrow> PB_HTYPE (f_type (fs ! i)) = PB_HTYPE_REPEATED \<Longrightarrow>
      pb_field_iter_next iter = pb_field_iter_next (iter_at fs dest i)" by simp
  from assms(3) obtain i where i: "i < field_count fs" "pb_field_iter_next iter = pb_field_iter_next (iter_at fs dest i)"
    using fixed by (auto simp: iter_ok_def)
  show "iter_ok fs dest (snd (pb_field_iter_next iter))"
    unfolding i(2) iter_next [OF assms(1) i(1) assms(2)] using i(1)
    by (auto simp: iter_ok_def intro: exI [of _ 0] exI [of _ "Suc i"])
qed

lemma iter_ok_find:
  assumes "table_ok fs" and "dest \<noteq> 0" and "iter_ok fs dest iter" and "pb_field_iter_find iter tag = Some (found, iter')"
  shows "iter_ok fs dest iter'"
proof -
  have "iter_find_loop first iter tag = Some r \<Longrightarrow> iter_ok fs dest iter \<longrightarrow> iter_ok fs dest (snd r)" for first r
  proof (rule iter_find_loop.raw_induct [where P = "\<lambda>first iter tag r. iter_ok fs dest iter \<longrightarrow> iter_ok fs dest (snd r)"], goal_cases)
    case (1 loop first iter tag r)
    then show ?case using iter_ok_next(1) [OF assms(1,2), of iter] by (fastforce simp: Let_def split: if_splits)
  qed
  from this [of "pos iter" "(found, iter')"] show ?thesis using assms(3,4) by (simp add: pb_field_iter_find_def)
qed

lemma find_loop_step:
  assumes nxt: "P iter \<Longrightarrow> P (snd (pb_field_iter_next iter))"
    and ih: "\<And>iter b y. loop iter b = Some y \<Longrightarrow> P b \<longrightarrow> P (snd y) \<and> (fst y \<longrightarrow> Q (snd y))"
    and body: "(if Q iter then Some (True, iter)
      else let iter = snd (pb_field_iter_next iter)
           in if pos iter \<noteq> first then loop first iter else Some (False, iter)) = Some r"
  shows "P iter \<longrightarrow> P (snd r) \<and> (fst r \<longrightarrow> Q (snd r))"
proof (cases "Q iter")
  case True
  then show ?thesis using body by auto
next
  case False
  let ?next = "snd (pb_field_iter_next iter)"
  show ?thesis
  proof (cases "pos ?next = first")
    case True
    then have "r = (False, ?next)" using body False by (simp add: Let_def)
    then show ?thesis using nxt by simp
  next
    case f: False
    then have "loop first ?next = Some r" using body False by (simp add: Let_def)
    from ih [OF this] nxt show ?thesis by blast
  qed
qed

lemma extension_find_loop_ok:
  assumes "table_ok fs" and "dest \<noteq> 0" and "extension_find_loop first iter = Some r"
  shows "iter_ok fs dest iter \<longrightarrow>
      iter_ok fs dest (snd r) \<and> (fst r \<longrightarrow> PB_LTYPE (f_type (field_at (snd r))) = PB_LTYPE_EXTENSION)"
  by (rule extension_find_loop.raw_induct [where P = "\<lambda>first iter r. iter_ok fs dest iter \<longrightarrow>
      iter_ok fs dest (snd r) \<and> (fst r \<longrightarrow> PB_LTYPE (f_type (field_at (snd r))) = PB_LTYPE_EXTENSION)", OF _ assms(3)])
     (rule find_loop_step [where Q = "\<lambda>it. PB_LTYPE (f_type (field_at it)) = PB_LTYPE_EXTENSION"], rule iter_ok_next(1) [OF assms(1,2)], assumption+)

lemma iter_ok_find_extension:
  assumes "table_ok fs" and "dest \<noteq> 0" and "iter_ok fs dest iter" and "find_extension_field iter = Some (found, iter')"
  shows "iter_ok fs dest iter' \<and> (found \<longrightarrow> PB_LTYPE (f_type (field_at iter')) = PB_LTYPE_EXTENSION)"
  using extension_find_loop_ok [OF assms(1,2), of "pos iter" iter "(found, iter')"] assms(3,4) by (simp add: find_extension_field_def)

lemma iter_ok_begin: "table_ok fs \<Longrightarrow> dest \<noteq> 0 \<Longrightarrow> 0 < field_count fs \<Longrightarrow> iter_ok fs dest (snd (pb_field_iter_begin fs dest))"
  by (auto simp: iter_begin iter_ok_def intro: exI [of _ 0])

lemma iter_okD:
  assumes "iter_ok fs dest iter"
  obtains i where "i < field_count fs" "iter = iter_at fs dest i \<or> iter = iter_at fs dest i\<lparr>pSize := Fixed_count\<rparr>" "field_at iter = fs ! i"
  using assms by (auto simp: iter_ok_def iter_at_def field_at_def)

lemma iter_ok_local: "iter_ok fs dest iter \<Longrightarrow> PB_HTYPE (f_type (field_at iter)) = PB_HTYPE_REPEATED \<Longrightarrow>
  iter_ok fs dest (iter\<lparr>pSize := Fixed_count\<rparr>)"
  by (auto simp: iter_ok_def field_at_def iter_at_def)

section \<open>Messages\<close>

text \<open>What the recursion over nested messages provides.\<close>

definition subs_confined :: "'s pb_dec_prog \<Rightarrow> nat \<Rightarrow> (bool \<Rightarrow> pb_field list \<Rightarrow> nat \<Rightarrow> 's decoder) \<Rightarrow> bool" where
  "subs_confined P d dec \<longleftrightarrow> (\<forall>b fs sz q. fits d (dec_tables P) fs sz \<longrightarrow> q \<noteq> 0 \<longrightarrow> confined q sz (dec b fs q))"

lemma fits_static:
  assumes "fits (Suc d) (dec_tables P) fs sz" and "dest \<noteq> 0" and "iter_ok fs dest iter" and "subs_confined P d dec"
  shows "elem_ok (field_at iter)" and "confined dest sz (decode_static_field n P dec wt iter)"
    and "pb_release_single_field n P iter w = Some w' \<Longrightarrow> w' = w"
proof -
  obtain i where i: "i < field_count fs" "iter = iter_at fs dest i \<or> iter = iter_at fs dest i\<lparr>pSize := Fixed_count\<rparr>" "field_at iter = fs ! i"
    using iter_okD [OF assms(3)] .
  note fit = field_fitsD [OF fitsD(3) [OF assms(1) i(1)] i(2)]
  show ok: "elem_ok (field_at iter)" by (rule fit(1))
  have sub: "PB_LTYPE (f_type (field_at iter)) = PB_LTYPE_SUBMESSAGE \<Longrightarrow> f_ptr (field_at iter) \<noteq> Null \<and>
      fits d (dec_tables P) (ptr_table (dec_tables P) (f_ptr (field_at iter))) (data_size (field_at iter))"
    using fitsD(4) [OF assms(1) i(1)] i(3) by simp
  then have subs: "PB_LTYPE (f_type (field_at iter)) = PB_LTYPE_SUBMESSAGE \<Longrightarrow> f_ptr (field_at iter) \<noteq> Null \<and>
      fits d (dec_tables P) (ptr_table (dec_tables P) (f_ptr (field_at iter))) (data_size (field_at iter)) \<and>
      (\<forall>b q. q \<noteq> 0 \<longrightarrow> confined q (data_size (field_at iter)) (dec b (ptr_table (dec_tables P) (f_ptr (field_at iter))) q))"
    using assms(4) by (simp add: subs_confined_def)
  show "confined dest sz (decode_static_field n P dec wt iter)"
    by (rule static_field_confined [where d = d and dec = dec and P = P, OF fit(1-5) subs assms(2)])
  show "pb_release_single_field n P iter w = Some w' \<Longrightarrow> w' = w"
    by (rule release_single_id [OF ok]) (use sub release_id in blast)+
qed

lemma decode_field_same:
  assumes fit: "fits (Suc d) (dec_tables P) fs sz" and dest: "dest \<noteq> 0" and subs: "subs_confined P d dec"
    and iter: "iter_ok fs dest iter" and run: "decode_field n P dec wt iter s w = Some (ok, s', iter', w')"
  shows "same_outside dest sz w w' \<and> iter_ok fs dest iter'"
proof -
  note tab = fitsD(1) [OF fit]
  have act: "(if PB_ATYPE (f_type (field_at it)) = PB_ATYPE_STATIC then decode_static_field n P dec wt it
               else if PB_ATYPE (f_type (field_at it)) = PB_ATYPE_POINTER then decode_pointer_field n P dec wt it
               else if PB_ATYPE (f_type (field_at it)) = PB_ATYPE_CALLBACK then decode_callback_field n P wt it
               else dec_error ''invalid field type'') = decode_static_field n P dec wt it" if "iter_ok fs dest it" for it
    using elem_okD(1) [OF fits_static(1) [OF fit dest that subs]] by simp
  have static: "same_outside dest sz v v'" if "iter_ok fs dest it" "decode_static_field n P dec wt it t v = Some (ok, s', v')" for it t v v'
    using confinedD [OF fits_static(2) [OF fit dest that(1) subs] that(2)] .
  show ?thesis
  proof (cases "PB_HTYPE (f_type (field_at iter)) = PB_HTYPE_ONEOF")
    case False
    then have "decode_static_field n P dec wt iter s w = Some (ok, s', w')" "iter' = iter"
      using run by (auto simp: decode_field_def Let_def act [OF iter])
    then show ?thesis using static [OF iter] iter by simp
  next
    case True
    have "same_outside dest sz w v \<and> iter_ok fs dest it" if rel: "pb_release_union_field n P s iter w = Some (b, t, it, v)" for b t it v
    proof -
      have step: "iter_ok fs dest it1" if "pb_field_iter_find it0 tag = Some (f, it1)" "iter_ok fs dest it0" for it0 it1 tag f
        using iter_ok_find [OF tab dest that(2,1)] .
      have rel1: "w1 = w" if "pb_release_single_field n P it0 w = Some w1" "iter_ok fs dest it0" for it0 w1
        using fits_static(3) [OF fit dest that(2) subs that(1)] .
      have not_pointer: "PB_ATYPE (f_type (field_at it0)) \<noteq> PB_ATYPE_POINTER" if "iter_ok fs dest it0" for it0
        using elem_okD(1) [OF fits_static(1) [OF fit dest that subs]] by (simp add: pb_types(17,18))
      show ?thesis
        using rel iter
        by (auto simp: pb_release_union_field_def Let_def split: if_splits option.splits prod.splits bool.splits
            dest: step rel1 not_pointer)
    qed
    note release = this
    from run True obtain b t it v where rel: "pb_release_union_field n P s iter w = Some (b, t, it, v)"
      by (auto simp: decode_field_def split: option.splits)
    note r = release [OF rel]
    show ?thesis
    proof (cases b)
      case True
      then have "decode_static_field n P dec wt it t v = Some (ok, s', w')" "iter' = it"
        using run rel \<open>PB_HTYPE _ = _\<close> act [OF conjunct2 [OF r]] by (auto simp: decode_field_def Let_def)
      then show ?thesis using static r by (blast intro: same_outside_trans)
    next
      case False
      then show ?thesis using run rel \<open>PB_HTYPE _ = _\<close> r by (simp add: decode_field_def)
    qed
  qed
qed

lemma same_outside_local [simp]: "same_outside lo n w (w'\<lparr>fixed_count_size := v\<rparr>) \<longleftrightarrow> same_outside lo n w w'"
  "same_outside lo n (w\<lparr>fixed_count_size := v\<rparr>) w' \<longleftrightarrow> same_outside lo n w w'"
  by (simp_all add: same_outside_def)

lemma decode_known_same:
  assumes fit: "fits (Suc d) (dec_tables P) fs sz" and dest: "dest \<noteq> 0" and subs: "subs_confined P d dec"
    and iter: "iter_ok fs dest (dl_iter l)" and run: "decode_known n P dec wt l s w = Some (ok, l', s', w')"
  shows "same_outside dest sz w w' \<and> iter_ok fs dest (dl_iter l')"
proof -
  let ?iter = "dl_iter l"
  let ?fixed = "PB_HTYPE (f_type (field_at ?iter)) = PB_HTYPE_REPEATED \<and> pSize ?iter = At (pData ?iter)"
  have inner: "same_outside dest sz v v' \<and> iter_ok fs dest it'"
    if "decode_field n P dec wt (if ?fixed then ?iter\<lparr>pSize := Fixed_count\<rparr> else ?iter) s v = Some (ok, s', it', v')" for v it' v'
    by (rule decode_field_same [OF fit dest subs _ that]) (use iter iter_ok_local [OF iter] in simp)
  show ?thesis
  proof (cases "?fixed \<and> fixed_count_field l \<noteq> Some (pos ?iter) \<and> wrong_fixed_count l w")
    case True
    then show ?thesis using run iter by (simp add: decode_known_def Let_def)
  next
    case False
    then obtain v it' where "decode_field n P dec wt (if ?fixed then ?iter\<lparr>pSize := Fixed_count\<rparr> else ?iter) s v = Some (ok, s', it', w')"
      "dl_iter l' = it'" "v = w \<or> v = w\<lparr>fixed_count_size := 0\<rparr>"
      using run unfolding decode_known_def Let_def by (auto split: if_splits)
    then show ?thesis using inner by (metis same_outside_local(2))
  qed
qed

lemma decode_unknown_same:
  assumes fit: "fits (Suc d) (dec_tables P) fs sz" and dest: "dest \<noteq> 0" and subs: "subs_confined P d dec"
    and iter: "iter_ok fs dest (dl_iter l)" and tag: "tag \<noteq> - 1"
    and run: "decode_unknown n P dec tag wt l s w = Some (ok, l', s', w')"
  shows "w' = w \<and> iter_ok fs dest (dl_iter l')"
proof -
  have none: "iter_ok fs dest it \<and> \<not> found" if "find_extension_field (dl_iter l) = Some (found, it)" for found it
    using iter_ok_find_extension [OF fitsD(1) [OF fit] dest iter that] elem_okD(2) [OF fits_static(1) [OF fit dest _ subs]] by blast
  have top: "\<not> - 1 \<le> tag" using tag by (simp add: word_order.extremum_unique)
  show ?thesis
    using run iter top none by (auto simp: decode_unknown_def skip_unknown_def Let_def split: if_splits option.splits prod.splits)
qed

lemma decode_loop_same:
  assumes fit: "fits (Suc d) (dec_tables P) fs sz" and dest: "dest \<noteq> 0" and subs: "subs_confined P d dec"
  shows "iter_ok fs dest (dl_iter l) \<Longrightarrow> decode_loop k n P dec l s w = Some (ok, l', s', w') \<Longrightarrow> same_outside dest sz w w'"
proof (induction k arbitrary: l s w)
  case (Suc k)
  show ?case
  proof (cases "bytes_left s = 0 \<or> fst (pb_decode_tag s) = None")
    case True
    then show ?thesis using Suc.prems(2) by (auto split: prod.splits if_splits)
  next
    case False
    then obtain wt tag eof s1 where tag: "bytes_left s \<noteq> 0" "pb_decode_tag s = (Some (wt, tag), eof, s1)"
      by (cases "pb_decode_tag s") auto
    then obtain found iter where find: "pb_field_iter_find (dl_iter l) tag = Some (found, iter)"
      using Suc.prems(2) by (auto split: option.splits)
    have ok: "iter_ok fs dest (dl_iter (l\<lparr>dl_iter := iter\<rparr>))"
      using iter_ok_find [OF fitsD(1) [OF fit] dest Suc.prems(1) find] by simp
    obtain b l1 s2 w1 where step: "(if found then decode_known n P dec wt (l\<lparr>dl_iter := iter\<rparr>) s1 w
        else decode_unknown n P dec tag wt (l\<lparr>dl_iter := iter\<rparr>) s1 w) = Some (b, l1, s2, w1)"
      using Suc.prems(2) tag find by (auto simp: Let_def split: option.splits if_splits)
    have w1: "same_outside dest sz w w1" "iter_ok fs dest (dl_iter l1)"
      using step decode_known_same [OF fit dest subs ok] decode_unknown_same [OF fit dest subs ok decode_tag_small [OF tag(2)]]
      by (cases found; fastforce)+
    show ?thesis
    proof (cases b)
      case True
      then have "decode_loop k n P dec l1 s2 w1 = Some (ok, l', s', w')"
        using Suc.prems(2) tag find step by (simp add: Let_def)
      from Suc.IH [OF w1(2) this] w1(1) show ?thesis by (rule same_outside_trans [rotated])
    next
      case False
      then show ?thesis using Suc.prems(2) tag find step w1(1) by (simp add: Let_def)
    qed
  qed
qed simp

lemma noinit_confined:
  assumes fit: "fits (Suc d) (dec_tables P) fs sz" and dest: "dest \<noteq> 0" and subs: "subs_confined P d dec"
  shows "confined dest sz (noinit_body n P dec fs dest)"
  unfolding confined_def
proof (intro allI impI)
  fix s w ok s' w'
  let ?l = "\<lparr>dl_iter = snd (pb_field_iter_begin fs dest), fields_seen = [0, 0], extension_range_start = 0, fixed_count_field = None\<rparr>"
  assume run: "noinit_body n P dec fs dest s w = Some (ok, s', w')"
  then obtain b l s1 w1 where loop: "decode_loop n n P dec ?l s (w\<lparr>fixed_count_size := 0\<rparr>) = Some (b, l, s1, w1)"
    by (auto simp: noinit_body_def Let_def split: option.splits)
  have "iter_ok fs dest (dl_iter ?l)" using iter_ok_begin [OF fitsD(1) [OF fit] dest fitsD(2) [OF fit]] by simp
  from decode_loop_same [OF fit dest subs this loop] have "same_outside dest sz w w1" by simp
  moreover have "w' = w1\<lparr>fixed_count_size := fixed_count_size w\<rparr>"
    using run loop by (auto simp: noinit_body_def Let_def split: if_splits)
  ultimately show "same_outside dest sz w w'" by simp
qed

lemma with_defaults_confined:
  assumes "fits d (dec_tables P) fs sz" and "dest \<noteq> 0" and "confined dest sz (noinit fs dest)"
  shows "confined dest sz (with_defaults n P noinit fs dest)"
proof -
  have "confined dest sz (\<lambda>s w. case noinit fs dest s w of None \<Rightarrow> None | Some (True, s, w) \<Rightarrow> Some (True, s, w)
      | Some (False, s, w) \<Rightarrow> map_option (\<lambda>w. (False, s, w)) (pb_release n P fs dest w))"
    using assms(3) unfolding confined_def
    by (auto split: option.splits prod.splits bool.splits dest!: release_id [OF assms(1)])
  then show ?thesis
    unfolding with_defaults_def by (intro confined_world message_defaults_same [OF assms(1,2)])
qed

lemma pb_decode_confined:
  "fits d (dec_tables P) fs sz \<Longrightarrow> dest \<noteq> 0 \<Longrightarrow> confined dest sz (pb_decode_noinit P n fs dest)"
proof (induction n arbitrary: d fs sz dest)
  case 0
  then show ?case by (simp add: confined_def)
next
  case (Suc n)
  then obtain d' where d: "d = Suc d'" by (cases d) auto
  have "subs_confined P d' (\<lambda>init. if init then with_defaults n P (pb_decode_noinit P n) else pb_decode_noinit P n)"
    using Suc.IH by (auto simp: subs_confined_def intro: with_defaults_confined)
  from noinit_confined [OF _ Suc.prems(2) this] Suc.prems(1) d
  have "confined dest sz (noinit_body n P (\<lambda>init. if init then with_defaults n P (pb_decode_noinit P n) else pb_decode_noinit P n) fs dest)"
    by blast
  then show ?case by (simp add: confined_def)
qed

section \<open>The properties\<close>

text \<open>Such a type has no callbacks and no extensions, so that decoding it ends.\<close>

lemma table_member:
  assumes "table_ok fs" and "f \<in> set fs"
  obtains i where "i < field_count fs" "f = fs ! i" | "f = List.last fs"
proof -
  have ne: "fs \<noteq> []" using assms(1) by (simp add: table_ok_def)
  obtain i where i: "i < length fs" "f = fs ! i" using assms(2) by (auto simp: in_set_conv_nth)
  show ?thesis
  proof (cases "i < field_count fs")
    case False
    then have "i = length fs - 1" using i(1) by (simp add: field_count_def)
    then show ?thesis using that(2) i(2) ne by (simp add: last_conv_nth)
  qed (use that(1) i(2) in blast)
qed

lemma last_field_types:
  "PB_LTYPE (f_type PB_LAST_FIELD) \<noteq> PB_LTYPE_EXTENSION" "PB_LTYPE (f_type PB_LAST_FIELD) \<noteq> PB_LTYPE_SUBMESSAGE"
  "PB_ATYPE (f_type PB_LAST_FIELD) \<noteq> PB_ATYPE_CALLBACK"
  by (simp_all add: PB_LAST_FIELD_def pb_types)

lemma fits_member:
  assumes "fits d T fs sz" and "f \<in> set fs"
  shows "PB_LTYPE (f_type f) \<noteq> PB_LTYPE_EXTENSION" and "PB_ATYPE (f_type f) \<noteq> PB_ATYPE_CALLBACK"
    and "PB_LTYPE (f_type f) = PB_LTYPE_SUBMESSAGE \<Longrightarrow> fits (d - 1) T (ptr_table T (f_ptr f)) (data_size f)"
proof -
  have tab: "table_ok fs" "List.last fs = PB_LAST_FIELD" using assms(1) by (cases d; simp)+
  consider i where "i < field_count fs" "f = fs ! i" | "f = PB_LAST_FIELD"
    using table_member [OF tab(1) assms(2)] tab(2) by metis
  then have "PB_LTYPE (f_type f) \<noteq> PB_LTYPE_EXTENSION \<and> PB_ATYPE (f_type f) \<noteq> PB_ATYPE_CALLBACK \<and>
      (PB_LTYPE (f_type f) = PB_LTYPE_SUBMESSAGE \<longrightarrow> fits (d - 1) T (ptr_table T (f_ptr f)) (data_size f))"
  proof cases
    case (1 i)
    then have "elem_ok f" using fitsD(3) [OF assms(1) 1(1)] by (simp add: field_fits_def Let_def)
    then have "PB_LTYPE (f_type f) \<noteq> PB_LTYPE_EXTENSION" "PB_ATYPE (f_type f) = PB_ATYPE_STATIC" by (simp_all add: elem_ok_def)
    moreover have "PB_ATYPE_STATIC \<noteq> PB_ATYPE_CALLBACK" by (simp add: pb_types)
    ultimately show ?thesis using fitsD(4) [OF assms(1) 1(1)] 1(2) by simp
  qed (use last_field_types in simp)
  then show "PB_LTYPE (f_type f) \<noteq> PB_LTYPE_EXTENSION" "PB_ATYPE (f_type f) \<noteq> PB_ATYPE_CALLBACK"
    "PB_LTYPE (f_type f) = PB_LTYPE_SUBMESSAGE \<Longrightarrow> fits (d - 1) T (ptr_table T (f_ptr f)) (data_size f)" by blast+
qed

lemma fits_types: "fits d T fs sz \<Longrightarrow> depth_ok d T fs \<and> \<not> reaches_callback d T fs"
proof (induction d arbitrary: fs sz)
  case (Suc d)
  note f = fits_member [OF Suc.prems]
  have "depth_ok d T (ptr_table T (f_ptr f)) \<and> \<not> reaches_callback d T (ptr_table T (f_ptr f))"
    if "f \<in> set fs" "PB_LTYPE (f_type f) = PB_LTYPE_SUBMESSAGE" for f
    using Suc.IH f(3) [OF that] by simp
  then show ?case using f(1,2) fitsD(1) [OF Suc.prems] by auto
qed simp

text \<open>
  C2: no input makes the decoder write outside the structure. For a message type whose fields are all
  static, in its submessages too, and whose layout fits \<open>sz\<close> bytes, \<open>pb_decode\<close> - on any bytes, from any stream,
  with whatever garbage in the structure - returns, and whether it succeeds or fails it leaves every byte outside
  \<open>dest .. dest + sz\<close> and the heap as they were.
\<close>

theorem pb_decode_stays_inside:
  assumes "fits d (dec_tables P) fs sz" and "dest \<noteq> 0" and "bytes_left s + 2 * d < n"
  shows "\<exists>ok s' w'. pb_decode P n fs dest s w = Some (ok, s', w') \<and>
    (\<forall>a. a < dest \<or> dest + sz \<le> a \<longrightarrow> dmem w' a = dmem w a) \<and>
    blocks w' = blocks w \<and> answers w' = answers w \<and> bad_free w' = bad_free w"
proof -
  obtain ok s' w' where run: "pb_decode P n fs dest s w = Some (ok, s', w')"
    using pb_decode_ends [OF _ _ assms(3), of P fs] fits_types [OF assms(1)] by blast
  moreover have "same_outside dest sz w w'"
    using confinedD [OF with_defaults_confined [OF assms(1,2), of "pb_decode_noinit P n", OF pb_decode_confined [OF assms(1,2)]]] run
    by (simp add: pb_decode_def)
  ultimately show ?thesis by (simp add: same_outside_def)
qed

end
