(* ===== verification/Pb_Roundtrip.thy ===== *)
theory Pb_Roundtrip
  imports Pb_Safe
begin

text \<open>
  What the encoder writes the decoder reads back: round trips of whole messages between two
  structures, for the messages of numbers that proto3 compiles to plain structures.
\<close>

section \<open>Messages of numbers\<close>

definition scalar_ok :: "pb_field \<Rightarrow> bool" where
  "scalar_ok f \<longleftrightarrow> PB_ATYPE (f_type f) = PB_ATYPE_STATIC \<and> PB_HTYPE (f_type f) = PB_HTYPE_OPTIONAL \<and>
     size_offset f = 0 \<and> f_ptr f = Null \<and> f_tag f \<noteq> 0 \<and> unat (f_tag f) < 2 ^ 29 \<and>
     (PB_LTYPE (f_type f) \<in> {PB_LTYPE_VARINT, PB_LTYPE_UVARINT, PB_LTYPE_SVARINT} \<and> data_size f \<in> {1, 2, 4, 8} \<or>
      PB_LTYPE (f_type f) = PB_LTYPE_BOOL \<and> data_size f = 1 \<or>
      PB_LTYPE (f_type f) = PB_LTYPE_FIXED32 \<and> data_size f = 4 \<or>
      PB_LTYPE (f_type f) = PB_LTYPE_FIXED64 \<and> data_size f = 8)"

definition number_table :: "pb_field list \<Rightarrow> bool" where
  "number_table fs \<longleftrightarrow> table_ok fs \<and> 0 < field_count fs \<and> (\<forall>i < field_count fs. scalar_ok (fs ! i)) \<and>
     (\<forall>i < field_count fs. \<forall>j < field_count fs. f_tag (fs ! i) = f_tag (fs ! j) \<longrightarrow> i = j)"

definition field_value :: "memory \<Rightarrow> pb_field list \<Rightarrow> nat \<Rightarrow> nat \<Rightarrow> bytes" where
  "field_value m fs p i = rd_bytes m (field_addr fs p i) (data_size (fs ! i))"

section \<open>One value\<close>

lemma nth_le_bytes: "i < k \<Longrightarrow> le_bytes k v ! i = ucast (drop_bit (8 * i) v)" for v :: "'a::len word"
proof (induction k arbitrary: i v)
  case (Suc k)
  then show ?case by (cases i) (simp_all add: drop_bit_drop_bit add.commute)
qed simp

lemma le_bytes_ucast: "8 * k \<le> LENGTH('a) \<Longrightarrow> le_bytes k (ucast v :: 'a::len word) = le_bytes k v" for v :: "'b::len word"
  by (rule nth_equalityI) (auto simp: nth_le_bytes bit_simps intro!: bit_word_eqI)

lemma ucast_scast: "LENGTH('a) \<le> LENGTH('b) \<Longrightarrow> (ucast (scast w :: 'b::len word) :: 'a word) = w" for w :: "'a::len word"
proof (rule bit_word_eqI)
  fix n assume "LENGTH('a) \<le> LENGTH('b)" "n < LENGTH('a)"
  moreover from this have "min n (LENGTH('a) - Suc 0) = n" by simp
  ultimately show "bit (ucast (scast w :: 'b word) :: 'a word) n = bit w n" by (simp add: bit_simps)
qed

lemma scast_through_32: "LENGTH('a) \<le> 32 \<Longrightarrow> scast (ucast (scast w :: u64) :: u32) = (scast w :: u64)" for w :: "'a::len word"
  by (rule bit_word_eqI) (auto simp: bit_simps min_def)

lemma le_bytes_rd_word_gen: "LENGTH('a) = 8 * k \<Longrightarrow> le_bytes k (rd_word m p :: 'a::len word) = rd_bytes m p k"
  using le_bytes_le_word [of "rd_bytes m p k", where 'a = 'a] by (simp add: rd_word_def)

lemma le_bytes_signed: "LENGTH('a) = 8 * k \<Longrightarrow> LENGTH('a) \<le> 64 \<Longrightarrow> le_bytes k (scast (rd_word m p :: 'a::len word) :: u64) = rd_bytes m p k"
  using le_bytes_ucast [where 'a = 'a and k = k and v = "scast (rd_word m p :: 'a word) :: u64"]
  by (simp add: ucast_scast le_bytes_rd_word_gen)

lemma le_bytes_unsigned: "LENGTH('a) = 8 * k \<Longrightarrow> LENGTH('a) \<le> 64 \<Longrightarrow> le_bytes k (ucast (rd_word m p :: 'a::len word) :: u64) = rd_bytes m p k"
  using le_bytes_ucast [where 'a = 64 and k = k and v = "rd_word m p :: 'a word"] by (simp add: le_bytes_rd_word_gen)

text \<open>Integers come back as the bytes they were read from.\<close>

lemma int_field_bytes:
  assumes "int_field m f p = Some v" and "data_size f \<in> {1, 2, 4, 8}"
  shows "le_bytes (data_size f) v = rd_bytes m p (data_size f)" and "narrow (data_size f) v = v"
    and "data_size f \<noteq> 8 \<Longrightarrow> scast (ucast v :: u32) = v"
  using assms by (auto simp: int_field_def narrow_def le_bytes_signed le_bytes_rd_word_gen ucast_scast scast_through_32 simp del: One_nat_def le_bytes.simps)

lemma take_bit_wide: "take_bit (LENGTH('a)) (ucast w :: u64) = ucast w" for w :: "'a::len word"
  by (rule bit_word_eqI) (auto simp: bit_simps dest: bit_imp_le_length)

lemma uint_field_bytes:
  assumes "uint_field m f p = Some v" and "data_size f \<in> {1, 2, 4, 8}"
  shows "le_bytes (data_size f) v = rd_bytes m p (data_size f)" and "take_bit (8 * data_size f) v = v"
proof -
  show "le_bytes (data_size f) v = rd_bytes m p (data_size f)"
    using assms by (auto simp: uint_field_def le_bytes_unsigned le_bytes_rd_word_gen simp del: One_nat_def le_bytes.simps)
  from take_bit_wide [where 'a = 8] take_bit_wide [where 'a = 16] take_bit_wide [where 'a = 32] show "take_bit (8 * data_size f) v = v"
    using assms by (auto simp: uint_field_def take_bit_word_eq_self)
qed

lemma svarint_leb128: "pb_decode_svarint (buf_istream (leb128 (unat (zigzag v)) @ xs) ys e) = (Some v, buf_istream xs ys e)"
  using unsigned_less [of "zigzag v", where 'a = nat]
  by (simp add: pb_decode_svarint_def istream_bind_def pb_decode_varint_leb128 unzigzag_zigzag)

lemma varint_leb128: "pb_decode_varint (buf_istream (leb128 (unat v) @ xs) ys e) = (Some v, buf_istream xs ys e)"
  using unsigned_less [of v, where 'a = nat] by (simp add: pb_decode_varint_leb128)

text \<open>\<open>bool\<close> variables hold 0 or 1.\<close>

definition bools_ok :: "memory \<Rightarrow> pb_field \<Rightarrow> nat \<Rightarrow> bool" where
  "bools_ok m f p \<longleftrightarrow> (PB_LTYPE (f_type f) = PB_LTYPE_BOOL \<longrightarrow> m p = 0 \<or> m p = 1)"

lemma value_decodes:
  assumes "scalar_ok f" and "payload sub m f p = Some bs" and "bools_ok m f p"
  shows "PB_DECODERS T dec (PB_LTYPE (f_type f)) f q (buf_istream (bs @ xs) ys e) w =
    Some (True, buf_istream xs ys e, store q (rd_bytes m p (data_size f)) w)"
proof -
  let ?lt = "PB_LTYPE (f_type f)"
  consider (b) "?lt = PB_LTYPE_BOOL" "data_size f = 1" | (v) "?lt = PB_LTYPE_VARINT" "data_size f \<in> {1, 2, 4, 8}"
    | (u) "?lt = PB_LTYPE_UVARINT" "data_size f \<in> {1, 2, 4, 8}" | (s) "?lt = PB_LTYPE_SVARINT" "data_size f \<in> {1, 2, 4, 8}"
    | (f32) "?lt = PB_LTYPE_FIXED32" "data_size f = 4" | (f64) "?lt = PB_LTYPE_FIXED64" "data_size f = 8"
    using assms(1) by (auto simp: scalar_ok_def)
  then show ?thesis
  proof cases
    case b
    then have "bs = leb128 (if m p \<noteq> 0 then 1 else 0)" using assms(2) by (simp add: payload_def)
    then show ?thesis
      using b assms(3)
      by (auto simp: PB_DECODERS_def pb_dec_bool_def dec_bind_def dec_upd_def dec_ok_def varint32_leb128 bools_ok_def rd_bytes_def)
  next
    case v
    then obtain val where val: "int_field m f p = Some val" "bs = leb128 (unat val)"
      using assms(2) by (auto simp: payload_def pb_types(1-6))
    note facts = int_field_bytes [OF val(1) v(2)]
    have "(if data_size f = 8 then val else scast (ucast val :: u32)) = val" using facts(3) by simp
    then show ?thesis
      using v facts by (auto simp: PB_DECODERS_def pb_types(1-6) pb_dec_varint_def dec_bind_def val(2) varint_leb128 Let_def dec_upd_def dec_ok_def)
  next
    case u
    then obtain val where val: "uint_field m f p = Some val" "bs = leb128 (unat val)"
      using assms(2) by (auto simp: payload_def pb_types(1-6))
    note facts = uint_field_bytes [OF val(1) u(2)]
    show ?thesis
      using u facts by (auto simp: PB_DECODERS_def pb_types(1-6) pb_dec_uvarint_def dec_bind_def val(2) varint_leb128 Let_def dec_upd_def dec_ok_def)
  next
    case s
    then obtain val where val: "int_field m f p = Some val" "bs = leb128 (unat (zigzag val))"
      using assms(2) by (auto simp: payload_def pb_types(1-6))
    note facts = int_field_bytes [OF val(1) s(2)]
    show ?thesis
      using s facts by (auto simp: PB_DECODERS_def pb_types(1-6) pb_dec_svarint_def dec_bind_def val(2) svarint_leb128 Let_def dec_upd_def dec_ok_def)
  next
    case f32
    then have "bs = rd_bytes m p 4" using assms(2) by (simp add: payload_def pb_types(1-6))
    then show ?thesis
      using f32 le_bytes_le_word [of bs, where 'a = 32]
      by (simp add: PB_DECODERS_def pb_types(1-6) pb_dec_fixed32_def dec_bind_def pb_decode_fixed32_buf dec_upd_def dec_ok_def)
  next
    case f64
    then have "bs = rd_bytes m p 8" using assms(2) by (simp add: payload_def pb_types(1-6))
    then show ?thesis
      using f64 le_bytes_le_word [of bs, where 'a = 64]
      by (simp add: PB_DECODERS_def pb_types(1-6) pb_dec_fixed64_def dec_bind_def pb_decode_fixed64_buf dec_upd_def dec_ok_def)
  qed
qed

section \<open>The layout of the structures\<close>

lemma number_tableD:
  assumes "number_table fs"
  shows "table_ok fs" and "0 < field_count fs" and "i < field_count fs \<Longrightarrow> scalar_ok (fs ! i)"
    and "i < field_count fs \<Longrightarrow> j < field_count fs \<Longrightarrow> f_tag (fs ! i) = f_tag (fs ! j) \<Longrightarrow> i = j"
  using assms by (auto simp: number_table_def)

lemma scalar_types:
  assumes "scalar_ok f"
  shows "PB_ATYPE (f_type f) = PB_ATYPE_STATIC" and "PB_HTYPE (f_type f) = PB_HTYPE_OPTIONAL" and "size_offset f = 0"
    and "PB_LTYPE (f_type f) \<le> PB_LTYPE_LAST_PACKABLE" and "PB_LTYPE (f_type f) \<noteq> PB_LTYPE_EXTENSION"
    and "PB_LTYPE (f_type f) \<noteq> PB_LTYPE_SUBMESSAGE" and "f_ptr f = Null"
  using assms by (auto simp: scalar_ok_def pb_types(1-12))

lemma number_addr_Suc:
  assumes "number_table fs" and "Suc i < field_count fs"
  shows "field_addr fs p (Suc i) = field_addr fs p i + data_size (fs ! i) + data_offset (fs ! Suc i)"
proof -
  note sc = scalar_types [OF number_tableD(3) [OF assms(1)]]
  have nu: "\<not> same_union fs j" if "j < field_count fs" for j
    using sc(2) [OF that] by (simp add: same_union_def pb_types(13-16))
  show "field_addr fs p (Suc i) = field_addr fs p i + data_size (fs ! i) + data_offset (fs ! Suc i)"
    using nu [of i] sc(1,2) [of i] assms(2) by (simp add: field_span_def pb_types(13-19))
qed

lemma number_counter:
  assumes "number_table fs" and "i < field_count fs"
  shows "counter_addr fs p i = field_addr fs p i"
proof -
  note sc = scalar_types [OF number_tableD(3) [OF assms(1)]]
  show ?thesis
  proof (cases i)
    case (Suc j)
    then have "\<not> same_union fs j" using sc(2) [of j] assms(2) by (simp add: same_union_def pb_types(13-16))
    then show ?thesis using Suc sc(3) [OF assms(2)] by (simp add: ptr_offset_def del: field_addr.simps)
  qed (use sc(3) [of 0] assms(2) in \<open>simp add: ptr_offset_def\<close>)
qed

lemma number_disjoint:
  assumes "number_table fs" and "i < j" and "j < field_count fs"
  shows "field_addr fs p i + data_size (fs ! i) \<le> field_addr fs p j"
  using assms(2,3)
proof (induction j)
  case (Suc j)
  then show ?case using number_addr_Suc [OF assms(1) Suc.prems(2), of p] by (cases "i = j") auto
qed simp

lemma rd_store: "rd_bytes (dmem (store a bs w)) a (length bs) = bs"
  by (rule nth_equalityI) (simp_all add: rd_bytes_def store_def wr_bytes_def)

lemma rd_store_other: "b + n \<le> a \<or> a + length bs \<le> b \<Longrightarrow> rd_bytes (dmem (store a bs w)) b n = rd_bytes (dmem w) b n"
  by (auto simp: rd_bytes_def store_def wr_bytes_def)

definition put_fields :: "pb_field list \<Rightarrow> nat \<Rightarrow> (nat \<Rightarrow> bytes) \<Rightarrow> nat list \<Rightarrow> pb_world \<Rightarrow> pb_world" where
  "put_fields fs dest val js w = fold (\<lambda>j. store (field_addr fs dest j) (val j)) js w"

lemma field_value_put:
  assumes tab: "number_table fs" and i: "i < field_count fs" and js: "\<forall>j \<in> set js. j < field_count fs" "distinct js"
    and len: "\<And>j. j < field_count fs \<Longrightarrow> length (val j) = data_size (fs ! j)"
  shows "field_value (dmem (put_fields fs dest val js w)) fs dest i = (if i \<in> set js then val i else field_value (dmem w) fs dest i)"
  using js
proof (induction js rule: rev_induct)
  case (snoc j js)
  have put: "put_fields fs dest val (js @ [j]) w = store (field_addr fs dest j) (val j) (put_fields fs dest val js w)"
    by (simp add: put_fields_def)
  show ?case
  proof (cases "i = j")
    case True
    then show ?thesis unfolding put field_value_def using rd_store [of _ "val j"] len [OF i] by simp
  next
    case False
    then have "i < j \<or> j < i" by auto
    then have "field_value (dmem (put_fields fs dest val (js @ [j]) w)) fs dest i = field_value (dmem (put_fields fs dest val js w)) fs dest i"
      unfolding put field_value_def using number_disjoint [OF tab] snoc.prems i len [of j] by (intro rd_store_other) auto
    then show ?thesis using snoc False by simp
  qed
qed (simp add: put_fields_def)

section \<open>The two directions\<close>

definition is_zero :: "bytes \<Rightarrow> bool" where
  "is_zero bs \<longleftrightarrow> list_all (\<lambda>b. b = 0) bs"

lemma is_zero_replicate: "is_zero bs \<Longrightarrow> bs = replicate (length bs) 0"
  unfolding is_zero_def by (induction bs) auto

definition number_bytes :: "memory \<Rightarrow> pb_field list \<Rightarrow> nat \<Rightarrow> nat \<Rightarrow> bytes option" where
  "number_bytes m fs p i =
     (if is_zero (field_value m fs p i) then Some []
      else tagged (fs ! i) (payload (\<lambda>_ _. None) m (fs ! i) (field_addr fs p i)))"

lemma payload_scalar: "scalar_ok f \<Longrightarrow> payload sub m f p = payload sub' m f p"
  using scalar_types(6) [of f] by (simp add: payload_def Let_def)

lemma field_bytes_scalar:
  assumes "scalar_ok f"
  shows "field_bytes (Suc n) T sub m f p =
    (if is_zero (rd_bytes m p (data_size f)) then Some [] else tagged f (payload (\<lambda>_ _. None) m f p))"
proof -
  note t = scalar_types [OF assms]
  have "PB_LTYPE (f_type f) \<notin> {PB_LTYPE_BYTES, PB_LTYPE_STRING, PB_LTYPE_FIXED_LENGTH_BYTES}"
    using assms by (auto simp: scalar_ok_def pb_types(1-12))
  then have "pb_check_proto3_default_value (Suc n) T m f p = Some (is_zero (rd_bytes m p (data_size f)))"
    using t by (simp add: Let_def pb_types(13-19) is_zero_def rd_bytes_def list_all_iff)
  then show ?thesis
    using t payload_scalar [OF assms, of sub m p "\<lambda>_ _. None"]
    by (simp add: field_bytes_def Let_def pb_types(13-19) del: pb_check_proto3_default_value.simps)
qed

lemma concat_all_map: "concat_all f (map g xs) = concat_all (\<lambda>x. f (g x)) xs"
  by (induction xs) auto

lemma concat_all_cong: "(\<And>x. x \<in> set xs \<Longrightarrow> f x = g x) \<Longrightarrow> concat_all f xs = concat_all g xs"
  by (induction xs) auto

lemma message_bytes_number:
  assumes "number_table fs" and "p \<noteq> 0"
  shows "message_bytes (Suc (Suc n)) T m fs p = concat_all (number_bytes m fs p) [0..<field_count fs]"
proof -
  have "concat_all (\<lambda>iter. field_bytes (Suc n) T sub m (field_at iter) (pData iter)) (message_walk fs p) =
      concat_all (number_bytes m fs p) [0..<field_count fs]" for sub
    unfolding message_walk_at [OF number_tableD(1) [OF assms(1)] assms(2)] concat_all_map
    by (rule concat_all_cong) (simp add: number_bytes_def field_value_def field_bytes_scalar number_tableD(3) [OF assms(1)])
  then show ?thesis by (subst message_bytes.simps)
qed

lemma scalar_cases:
  assumes "scalar_ok f"
  obtains (bool) "PB_LTYPE (f_type f) = PB_LTYPE_BOOL" "data_size f = 1"
    | (int) "PB_LTYPE (f_type f) = PB_LTYPE_VARINT" "data_size f \<in> {1, 2, 4, 8}"
    | (uint) "PB_LTYPE (f_type f) = PB_LTYPE_UVARINT" "data_size f \<in> {1, 2, 4, 8}"
    | (sint) "PB_LTYPE (f_type f) = PB_LTYPE_SVARINT" "data_size f \<in> {1, 2, 4, 8}"
    | (fixed32) "PB_LTYPE (f_type f) = PB_LTYPE_FIXED32" "data_size f = 4"
    | (fixed64) "PB_LTYPE (f_type f) = PB_LTYPE_FIXED64" "data_size f = 8"
  using assms by (auto simp: scalar_ok_def)

lemma scalar_payload:
  assumes "scalar_ok f"
  shows "\<exists>v. payload sub m f p = Some v \<and> length v \<le> 10"
proof -
  have l: "length (leb128 (unat (w :: u64))) \<le> 10" for w
    using unsigned_less [of w, where 'a = nat] by (intro length_leb128_u64) simp
  have one: "length (leb128 (if b then 1 else 0)) \<le> 10" for b by (rule length_leb128_u64) simp
  have ints: "\<exists>v. int_field m f p = Some v" "\<exists>v. uint_field m f p = Some v" if "data_size f \<in> {1, 2, 4, 8}"
    using that by (auto simp: int_field_def uint_field_def)
  show ?thesis
    using assms
  proof (cases rule: scalar_cases)
    case int
    then show ?thesis using ints(1) l by (force simp: payload_def pb_types(1-6))
  next
    case uint
    then show ?thesis using ints(2) l by (force simp: payload_def pb_types(1-6))
  next
    case sint
    then show ?thesis using ints(1) l by (force simp: payload_def pb_types(1-6))
  qed (use one in \<open>simp_all add: payload_def pb_types(1-6)\<close>)
qed

lemma scalar_wire_type: "scalar_ok f \<Longrightarrow> \<exists>wt. wire_type f = Some wt \<and> wt < 8"
  by (erule scalar_cases) (simp_all add: wire_type_def wire_type_defs pb_types(1-6))

lemma number_bytes_Some:
  assumes "number_table fs" and "i < field_count fs"
  shows "\<exists>bs. number_bytes m fs p i = Some bs \<and> length bs \<le> 15"
proof -
  let ?f = "fs ! i"
  note sc = number_tableD(3) [OF assms]
  obtain wt where wt: "wire_type ?f = Some wt" "wt < 8" using scalar_wire_type [OF sc] by blast
  obtain v where v: "payload (\<lambda>_ _. None) m ?f (field_addr fs p i) = Some v" "length v \<le> 10"
    using scalar_payload [OF sc] by blast
  have "unat (f_tag ?f) * 8 + wt < 128 ^ Suc 4" using sc wt(2) by (simp add: scalar_ok_def)
  then have "length (tag_bytes ?f wt) \<le> 5" unfolding tag_bytes_def using length_leb128 [of _ 4] by simp
  then show ?thesis using wt v by (simp add: number_bytes_def tagged_def)
qed

lemma concat_all_bound:
  "(\<And>x. x \<in> set xs \<Longrightarrow> \<exists>b. g x = Some b \<and> length b \<le> k) \<Longrightarrow> \<exists>bs. concat_all g xs = Some bs \<and> length bs \<le> k * length xs"
  by (induction xs) fastforce+

lemma defaults_number:
  assumes "number_table fs" and "dest \<noteq> 0"
  shows "pb_message_set_to_defaults (Suc (Suc n)) P fs dest w =
    Some (put_fields fs dest (\<lambda>j. replicate (data_size (fs ! j)) 0) [0..<field_count fs] w)"
proof -
  have one: "pb_field_set_to_default (Suc n) P (iter_at fs dest i) w = Some (store (field_addr fs dest i) (replicate (data_size (fs ! i)) 0) w)"
    if "i < field_count fs" for i w
  proof -
    note sc = number_tableD(3) [OF assms(1) that]
    show ?thesis
      using scalar_types [OF sc] number_counter [OF assms(1) that]
      by (simp add: Let_def pb_types(13-19) default_bytes_def)
  qed
  have "world_all (pb_field_set_to_default (Suc n) P) (map (iter_at fs dest) js) w =
      Some (put_fields fs dest (\<lambda>j. replicate (data_size (fs ! j)) 0) js w)" if "\<forall>j \<in> set js. j < field_count fs" for js
    using that
  proof (induction js arbitrary: w)
    case (Cons j js)
    then show ?case by (simp add: one put_fields_def del: pb_field_set_to_default.simps)
  qed (simp add: put_fields_def)
  then show ?thesis
    by (subst pb_message_set_to_defaults.simps) (simp add: message_walk_at [OF number_tableD(1) [OF assms(1)] assms(2)] del: pb_field_set_to_default.simps)
qed

section \<open>Decoding what was encoded\<close>

lemma leb128_ne: "leb128 n \<noteq> []"
  by (subst leb128.simps) simp

lemma number_find:
  assumes tab: "number_table fs" and dest: "dest \<noteq> 0" and ij: "i < field_count fs" "j < field_count fs"
  shows "pb_field_iter_find (iter_at fs dest j) (f_tag (fs ! i)) = Some (True, iter_at fs dest i)"
proof -
  have matches: "field_matches fs (f_tag (fs ! i)) k \<longleftrightarrow> k = i" if "k < field_count fs" for k
    using number_tableD(4) [OF tab that ij(1)] scalar_types(5) [OF number_tableD(3) [OF tab ij(1)]] by (auto simp: field_matches_def)
  have "find (field_matches fs (f_tag (fs ! i))) js = (if i \<in> set js then Some i else None)" if "\<forall>k \<in> set js. k < field_count fs" for js
    using that matches by (induction js) auto
  moreover have "i \<in> set ([j..<field_count fs] @ [0..<j])" "\<forall>k \<in> set ([j..<field_count fs] @ [0..<j]). k < field_count fs"
    using ij by auto
  ultimately have "find (field_matches fs (f_tag (fs ! i))) ([j..<field_count fs] @ [0..<j]) = Some i" by presburger
  then show ?thesis
    using iter_find [OF number_tableD(1) [OF tab] dest ij(2), of "f_tag (fs ! i)"] by simp
qed

lemma same_iter: "dl_iter l = it \<Longrightarrow> l\<lparr>dl_iter := it\<rparr> = l"
  by (cases l) simp

lemma decode_number:
  assumes tab: "number_table fs" and i: "i < field_count fs" and val: "payload (\<lambda>_ _. None) m (fs ! i) (field_addr fs src i) = Some v"
    and bools: "bools_ok m (fs ! i) (field_addr fs src i)" and l: "dl_iter l = iter_at fs dest i"
  shows "decode_known n P dec wt l (buf_istream (v @ xs) ys e) w =
    Some (True, l, buf_istream xs ys e, store (field_addr fs dest i) (field_value m fs src i) w)"
proof -
  note sc = number_tableD(3) [OF tab i] and t = scalar_types [OF number_tableD(3) [OF tab i]]
  have static: "decode_static_field n P dec wt (iter_at fs dest i) (buf_istream (v @ xs) ys e) w =
      Some (True, buf_istream xs ys e, store (field_addr fs dest i) (field_value m fs src i) w)"
    using value_decodes [OF sc val bools] t number_counter [OF tab i]
    by (simp add: decode_static_field_def Let_def pb_types(13-16) dec_upd_def field_value_def)
  have "see_required l = l" using t(2) l by (simp add: see_required_def Let_def pb_types(13-16))
  then show ?thesis
    using t static by (simp add: decode_known_def decode_field_def Let_def l same_iter [OF l] pb_types(13-19))
qed

lemma decode_numbers:
  assumes tab: "number_table fs" and dest: "dest \<noteq> 0"
    and bools: "\<And>i. i < field_count fs \<Longrightarrow> bools_ok m (fs ! i) (field_addr fs src i)"
  shows "concat_all (number_bytes m fs src) js = Some bs \<Longrightarrow> \<forall>j \<in> set js. j < field_count fs \<Longrightarrow> length js < k \<Longrightarrow>
    j < field_count fs \<Longrightarrow> dl_iter l = iter_at fs dest j \<Longrightarrow>
    \<exists>j'. j' < field_count fs \<and> decode_loop k n P dec l (buf_istream bs ys e) w =
      Some (True, l\<lparr>dl_iter := iter_at fs dest j'\<rparr>, buf_istream [] ys e,
        put_fields fs dest (field_value m fs src) (filter (\<lambda>i. \<not> is_zero (field_value m fs src i)) js) w)"
proof (induction js arbitrary: bs k j l w)
  case Nil
  then obtain k' where "k = Suc k'" by (cases k) auto
  then show ?case using Nil by (auto simp: put_fields_def intro!: exI [of _ j] same_iter [symmetric])
next
  case (Cons i js)
  then obtain k' where k: "k = Suc k'" by (cases k) auto
  have i: "i < field_count fs" using Cons.prems(2) by simp
  obtain a b where ab: "number_bytes m fs src i = Some a" "concat_all (number_bytes m fs src) js = Some b" "bs = a @ b"
    using Cons.prems(1) by (auto split: option.splits)
  show ?case
  proof (cases "is_zero (field_value m fs src i)")
    case True
    then have "bs = b" using ab by (simp add: number_bytes_def)
    then show ?thesis using Cons.IH [OF ab(2) _ _ Cons.prems(4,5), of k w] Cons.prems(2,3) True by auto
  next
    case False
    then obtain wt v where wv: "wire_type (fs ! i) = Some wt" "payload (\<lambda>_ _. None) m (fs ! i) (field_addr fs src i) = Some v"
      "a = tag_bytes (fs ! i) wt @ v"
      using ab(1) by (auto simp: number_bytes_def tagged_def split: option.splits)
    let ?f = "fs ! i"
    note sc = number_tableD(3) [OF tab i]
    have wt: "wt < 8" using scalar_wire_type [OF sc] wv(1) by simp
    have tag: "pb_decode_tag (buf_istream bs ys e) = (Some (wt, f_tag ?f), False, buf_istream (v @ b) ys e)"
    proof -
      have "unat (f_tag ?f) * 8 + wt < 2 ^ 32" "0 < unat (f_tag ?f) * 8 + wt" using sc wt by (auto simp: scalar_ok_def unat_gt_0)
      from pb_decode_tag_leb128 [OF this, of "v @ b" ys e] show ?thesis
        using wt by (simp add: ab(3) wv(3) tag_bytes_def)
    qed
    have left: "bytes_left (buf_istream bs ys e) \<noteq> 0" using leb128_ne by (simp add: ab(3) wv(3) tag_bytes_def)
    let ?l = "l\<lparr>dl_iter := iter_at fs dest i\<rparr>" and ?w = "store (field_addr fs dest i) (field_value m fs src i) w"
    have known: "decode_known n P dec wt ?l (buf_istream (v @ b) ys e) w = Some (True, ?l, buf_istream b ys e, ?w)"
      by (rule decode_number [OF tab i wv(2) bools [OF i]]) simp
    obtain j' where "j' < field_count fs" "decode_loop k' n P dec ?l (buf_istream b ys e) ?w =
      Some (True, ?l\<lparr>dl_iter := iter_at fs dest j'\<rparr>, buf_istream [] ys e,
        put_fields fs dest (field_value m fs src) (filter (\<lambda>i. \<not> is_zero (field_value m fs src i)) js) ?w)"
      using Cons.IH [OF ab(2) _ _ i, of k' ?l ?w] Cons.prems(2,3) k by auto
    then show ?thesis
      using left known False unfolding k
      by (intro exI [of _ j'] conjI) (simp_all add: tag number_find [OF tab dest i Cons.prems(4)] Cons.prems(5) Let_def put_fields_def)
  qed
qed

lemma number_required: "number_table fs \<Longrightarrow> i \<le> field_count fs \<Longrightarrow> required_before fs i = 0"
proof -
  assume tab: "number_table fs" and i: "i \<le> field_count fs"
  have "PB_HTYPE (f_type f) \<noteq> PB_HTYPE_REQUIRED" if "f \<in> set (take i fs)" for f
  proof -
    obtain j where "j < i" "f = fs ! j" using \<open>f \<in> set (take i fs)\<close> by (auto simp: in_set_conv_nth)
    then show ?thesis using scalar_types(2) [OF number_tableD(3) [OF tab, of j]] i by (simp add: pb_types(13-16))
  qed
  then show ?thesis by (simp add: required_before_def filter_empty_conv)
qed

lemma number_complete:
  assumes tab: "number_table fs" and dest: "dest \<noteq> 0" and j: "j < field_count fs" and l: "dl_iter l = iter_at fs dest j"
  shows "\<not> missing_required l"
proof -
  let ?z = "field_count fs - 1"
  note t = number_tableD(1,2) [OF tab]
  have z: "?z < field_count fs" using j by simp
  have "iter_walk (length fs) (iter_at fs dest j) = map (iter_at fs dest) [j..<field_count fs]"
    by (rule iter_walk_at [OF t(1) dest j]) (simp add: field_count_def)
  moreover have "[j..<field_count fs] = [j..<?z] @ [?z]" using j upt_Suc [of j ?z] by simp
  ultimately have last: "List.last (iter_walk (length fs) (iter_at fs dest j)) = iter_at fs dest ?z" by simp
  have "PB_HTYPE (f_type (fs ! ?z)) \<noteq> PB_HTYPE_REQUIRED"
    using scalar_types(2) [OF number_tableD(3) [OF tab z]] by (simp add: pb_types(13-16))
  then show ?thesis
    using number_required [OF tab, of ?z] by (simp add: missing_required_def l last Let_def)
qed

lemma decode_number_bytes:
  assumes tab: "number_table fs" and dest: "dest \<noteq> 0"
    and bools: "\<forall>i < field_count fs. bools_ok m (fs ! i) (field_addr fs src i)"
    and bs: "concat_all (number_bytes m fs src) [0..<field_count fs] = Some bs" and fuel: "field_count fs + 2 < n"
  shows "\<exists>w'. pb_decode Q n fs dest (buf_istream bs ys None) w = Some (True, buf_istream [] ys None, w') \<and>
    (\<forall>i < field_count fs. field_value (dmem w') fs dest i = field_value m fs src i)"
proof -
  obtain k where n: "n = Suc (Suc k)" "field_count fs < k" using fuel by (intro that [of "n - 2"]) auto
  let ?js = "[0..<field_count fs]" and ?nz = "\<lambda>i. \<not> is_zero (field_value m fs src i)"
  define w1 where "w1 = put_fields fs dest (\<lambda>j. replicate (data_size (fs ! j)) 0) ?js w"
  have defaults: "pb_message_set_to_defaults n Q fs dest w = Some w1"
    unfolding w1_def n(1) by (rule defaults_number [OF tab dest])
  let ?l = "\<lparr>dl_iter = snd (pb_field_iter_begin fs dest), fields_seen = [0, 0], extension_range_start = 0, fixed_count_field = None\<rparr>"
  let ?w = "put_fields fs dest (field_value m fs src) (filter ?nz ?js) (w1\<lparr>fixed_count_size := 0\<rparr>)"
  have noinit: "pb_decode_noinit Q n fs dest (buf_istream bs ys None) w1 =
      Some (True, buf_istream [] ys None, ?w\<lparr>fixed_count_size := fixed_count_size w1\<rparr>)"
  proof -
    have "\<exists>j' < field_count fs. decode_loop (Suc k) (Suc k) Q
        (\<lambda>init. if init then with_defaults (Suc k) Q (pb_decode_noinit Q (Suc k)) else pb_decode_noinit Q (Suc k))
        ?l (buf_istream bs ys None) (w1\<lparr>fixed_count_size := 0\<rparr>) =
      Some (True, ?l\<lparr>dl_iter := iter_at fs dest j'\<rparr>, buf_istream [] ys None, ?w)"
      using decode_numbers [OF tab dest, where js = ?js and l = ?l and j = 0 and k = "Suc k", OF _ bs] bools number_tableD(2) [OF tab] n(2)
      by (simp add: iter_begin [OF dest] del: decode_loop.simps)
    then obtain j' where j': "j' < field_count fs" "decode_loop (Suc k) (Suc k) Q
        (\<lambda>init. if init then with_defaults (Suc k) Q (pb_decode_noinit Q (Suc k)) else pb_decode_noinit Q (Suc k))
        ?l (buf_istream bs ys None) (w1\<lparr>fixed_count_size := 0\<rparr>) =
      Some (True, ?l\<lparr>dl_iter := iter_at fs dest j'\<rparr>, buf_istream [] ys None, ?w)"
      by blast
    have "\<not> missing_required (?l\<lparr>dl_iter := iter_at fs dest j'\<rparr>)" by (rule number_complete [OF tab dest j'(1)]) simp
    then show ?thesis
      unfolding n(1) pb_decode_noinit.simps noinit_body_def Let_def j'(2) by (simp add: wrong_fixed_count_def)
  qed
  have "field_value (dmem ?w) fs dest i = field_value m fs src i" if i: "i < field_count fs" for i
  proof -
    have "field_value (dmem w1) fs dest i = replicate (data_size (fs ! i)) 0"
      unfolding w1_def using field_value_put [OF tab i, of ?js "\<lambda>j. replicate (data_size (fs ! j)) 0"] i by simp
    moreover have "field_value (dmem ?w) fs dest i =
        (if ?nz i then field_value m fs src i else field_value (dmem w1) fs dest i)"
      using field_value_put [OF tab i, of "filter ?nz ?js" "field_value m fs src"] i by (simp add: field_value_def)
    ultimately show ?thesis
      using is_zero_replicate [of "field_value m fs src i"] by (auto simp: field_value_def)
  qed
  then show ?thesis by (simp add: pb_decode_def with_defaults_def dec_world_def defaults noinit)
qed

text \<open>
  C1: what \<open>pb_encode\<close> writes, \<open>pb_decode\<close> reads. For a proto3 message of numbers, in a buffer with room
  for fifteen bytes a field, encoding the structure at \<open>src\<close> and decoding the bytes into the structure
  at \<open>dest\<close> - whatever it and the memory around it held, and whatever lies behind the bytes - succeeds,
  consumes all the bytes, and leaves every field of \<open>dest\<close> with the bytes the field of \<open>src\<close> had.
\<close>

theorem pb_encode_decode_roundtrip:
  assumes "number_table fs" and "src \<noteq> 0" and "dest \<noteq> 0"
    and "\<forall>i < field_count fs. bools_ok m (fs ! i) (field_addr fs src i)"
    and "15 * field_count fs + 10 \<le> cap" and "cap < SIZE_LIMIT" and "field_count fs + 2 < n"
  shows "\<exists>bs e s w'. pb_encode P n m fs src (pb_ostream_from_buffer cap) = Some (True, buf_ostream [] bs cap e) \<and>
    pb_decode Q n fs dest (buf_istream bs ys None) w = Some (True, s, w') \<and> bytes_left s = 0 \<and>
    (\<forall>i < field_count fs. field_value (dmem w') fs dest i = field_value m fs src i)"
proof -
  obtain bs where bs: "concat_all (number_bytes m fs src) [0..<field_count fs] = Some bs" "length bs \<le> 15 * field_count fs"
    using concat_all_bound [of "[0..<field_count fs]" "number_bytes m fs src" 15] number_bytes_Some [OF assms(1)] by auto
  obtain k where "n = Suc (Suc k)" using assms(7) by (intro that [of "n - 2"]) auto
  then have "message_bytes n (tables P) m fs src = Some bs" using message_bytes_number [OF assms(1,2)] bs(1) by simp
  then obtain e where "pb_encode P n m fs src (pb_ostream_from_buffer cap) = Some (True, buf_ostream [] bs cap e)"
    using message_emitter.emits [OF message_emitter_pb_encode, of n P m fs src bs "[]" cap "[]" None] bs(2) assms(5,6)
    by (auto simp: pb_ostream_from_buffer_eq)
  then show ?thesis using decode_number_bytes [OF assms(1,3,4) bs(1) assms(7)] by fastforce
qed

section \<open>Witnesses\<close>

lemma Timestamp_numbers: "number_table Timestamp_fields"
proof -
  have "scalar_ok (Timestamp_fields ! i)" if "i < 2" for i
    using that by (auto simp: less_2_cases_iff Timestamp_at[simplified] scalar_ok_def pb_types)
  moreover have "f_tag (Timestamp_fields ! i) = f_tag (Timestamp_fields ! j) \<Longrightarrow> i = j" if "i < 2" "j < 2" for i j
    using that by (auto simp: less_2_cases_iff Timestamp_at[simplified])
  ultimately show ?thesis by (simp add: number_table_def Timestamp_table)
qed

lemma Timestamp_bools: "\<forall>i < field_count Timestamp_fields. bools_ok m (Timestamp_fields ! i) (p i)"
  by (auto simp: Timestamp_table less_2_cases_iff Timestamp_at[simplified] bools_ok_def pb_types)

theorem pb_encode_decode_roundtrip_witness:
  "\<exists>bs e s w'. pb_encode example_prog 5 example_memory Timestamp_fields 4096 (pb_ostream_from_buffer 64) = Some (True, buf_ostream [] bs 64 e) \<and>
    pb_decode example_decoder 5 Timestamp_fields 8192 (buf_istream bs [1, 2, 3] None) example_world = Some (True, s, w') \<and>
    field_value (dmem w') Timestamp_fields 8192 0 = [0x2C, 1, 0, 0, 0, 0, 0, 0]"
proof -
  have "field_value example_memory Timestamp_fields 4096 0 = [0x2C, 1, 0, 0, 0, 0, 0, 0]"
    by (simp add: field_value_def Timestamp_at[simplified] rd_bytes_def example_memory_def upt_rec)
  then show ?thesis
    using pb_encode_decode_roundtrip [of Timestamp_fields 4096 8192 example_memory 64 5 example_prog example_decoder "[1, 2, 3]" example_world,
        OF Timestamp_numbers] Timestamp_bools
    by (fastforce simp: Timestamp_table SIZE_LIMIT_def)
qed

theorem pb_decode_stays_inside_witness:
  "\<exists>ok s w'. pb_decode example_decoder 6 Timestamp_fields 4096 (buf_istream [8, 0xAC, 2] [] None) example_world = Some (ok, s, w') \<and>
    dmem w' 4095 = 255 \<and> dmem w' 4108 = 12 \<and> blocks w' 7 = None"
proof -
  have "fits 1 (dec_tables example_decoder) Timestamp_fields 12"
    by (simp add: Timestamp_table less_2_cases_iff field_fits_def Timestamp_at[simplified] elem_ok_def field_span_def same_union_def pb_types Let_def)
      (simp add: Timestamp_fields_def)
  from pb_decode_stays_inside [OF this, of 4096 "buf_istream [8, 0xAC, 2] [] None" 6 example_world]
  obtain ok s w' where "pb_decode example_decoder 6 Timestamp_fields 4096 (buf_istream [8, 0xAC, 2] [] None) example_world = Some (ok, s, w')"
    "\<forall>a. a < 4096 \<or> 4096 + 12 \<le> a \<longrightarrow> dmem w' a = dmem example_world a" "blocks w' = blocks example_world"
    by auto
  then show ?thesis by (simp add: example_world_def)
qed

end
