(* ===== verification/Pb_Corners.thy ===== *)
theory Pb_Corners
  imports Pb_Roundtrip
begin

text \<open>
  The corners of the decoder: the sizes \<open>allocate_field\<close> asks the heap for, the count \<open>pb_decode\<close> resets
  in arrays of a fixed count, and messages without fields.
\<close>

section \<open>Allocation\<close>

lemma product_overflows:
  fixes e c :: nat
  assumes "0 < c" and "e < SIZE_LIMIT" and "c < SIZE_LIMIT"
  shows "(2 ^ 32 \<le> e \<or> 2 ^ 32 \<le> c) \<and> (SIZE_LIMIT - 1) div c < e \<longleftrightarrow> SIZE_LIMIT \<le> c * e"
proof
  assume "(2 ^ 32 \<le> e \<or> 2 ^ 32 \<le> c) \<and> (SIZE_LIMIT - 1) div c < e"
  then have "SIZE_LIMIT - 1 < e * c" using assms(1) by (simp add: div_less_iff_less_mult)
  then show "SIZE_LIMIT \<le> c * e" by (simp add: mult.commute)
next
  assume big: "SIZE_LIMIT \<le> c * e"
  then have "SIZE_LIMIT - 1 < e * c" using assms(2) by (simp add: mult.commute)
  then have "(SIZE_LIMIT - 1) div c < e" using assms(1) by (simp add: div_less_iff_less_mult)
  moreover have "2 ^ 32 \<le> e \<or> 2 ^ 32 \<le> c"
  proof (rule ccontr)
    assume "\<not> (2 ^ 32 \<le> e \<or> 2 ^ 32 \<le> c)"
    then have "c * e < 2 ^ 32 * 2 ^ 32" by (intro mult_strict_mono) auto
    then show False using big by (simp add: SIZE_LIMIT_def)
  qed
  ultimately show "(2 ^ 32 \<le> e \<or> 2 ^ 32 \<le> c) \<and> (SIZE_LIMIT - 1) div c < e" by simp
qed

text \<open>
  C38: \<open>allocate_field\<close> never asks for less than it needs. For any element size and count that fit
  \<open>size_t\<close>, it refuses exactly the empty requests and those whose product does not fit, leaving the
  world alone; every other request reaches \<open>realloc\<close> with the exact product, and when memory is there
  the pointer is stored and its block has that size.
\<close>

theorem allocate_field_exact:
  assumes "elem_size < SIZE_LIMIT" and "count < SIZE_LIMIT"
  shows "allocate_field p elem_size count s w =
    (if elem_size = 0 \<or> count = 0 then Some (False, PB_SET_ERROR s ''invalid size'', w)
     else if SIZE_LIMIT \<le> count * elem_size then Some (False, PB_SET_ERROR s ''size too large'', w)
     else case pb_realloc (ptr_at w p) (count * elem_size) w of
       (q, w') \<Rightarrow> if q = 0 then Some (False, PB_SET_ERROR s ''realloc failed'', w') else Some (True, s, store_ptr p q w')) \<and>
    (case pb_realloc (ptr_at w p) (count * elem_size) w of
       (q, w') \<Rightarrow> if q = 0 then dmem w' = dmem w \<and> blocks w' = blocks w else blocks w' q = Some (count * elem_size))"
proof (cases "elem_size = 0 \<or> count = 0 \<or> SIZE_LIMIT \<le> count * elem_size")
  case True
  then show ?thesis
    using product_overflows [OF _ assms, of] assms
    by (auto simp: allocate_field_def Let_def dec_error_def pb_realloc_def store_def split: list.split)
next
  case False
  then have "\<not> ((2 ^ 32 \<le> elem_size \<or> 2 ^ 32 \<le> count) \<and> (SIZE_LIMIT - 1) div count < elem_size)"
    using product_overflows [OF _ assms] by auto
  then show ?thesis
    using False by (auto simp: allocate_field_def Let_def dec_error_def dec_ok_def pb_realloc_def store_def split: list.split)
qed

theorem allocate_field_exact_witness:
  "allocate_field 64 (2 ^ 33) (2 ^ 31) (pb_istream_from_buffer [] 0 :: unit pb_istream) example_world =
    Some (False, PB_SET_ERROR (pb_istream_from_buffer [] 0) ''size too large'', example_world)"
proof -
  have "2 ^ 33 < SIZE_LIMIT" "2 ^ 31 < SIZE_LIMIT" "SIZE_LIMIT \<le> 2 ^ 31 * 2 ^ 33" by (simp_all add: SIZE_LIMIT_def)
  from allocate_field_exact [OF this(1,2), of 64 "pb_istream_from_buffer [] 0 :: unit pb_istream" example_world] this(3) show ?thesis by simp
qed


text \<open>
  The array then has room for the new item, but its address is computed from a product of two
  \<open>pb_size_t\<close>. Once the items before it fill a multiple of 4 GB, a new item - its clearing and its
  decoding - goes to the address of the first one.
\<close>

lemma pointer_item_wraps:
  assumes "PB_HTYPE (f_type (field_at iter)) = PB_HTYPE_REPEATED" and "PB_LTYPE (f_type (field_at iter)) = PB_LTYPE_SUBMESSAGE"
    and "size_at w (pSize iter) = k" and "k < PB_SIZE_MAX" and "data_size (field_at iter) * k = 2 ^ 32"
    and "allocate_field (pData iter) (data_size (field_at iter)) (k + 1) s w = Some (True, s, w1)" and "size_at w1 (pSize iter) = k"
  shows "decode_pointer_field n P dec wt iter s w =
    dec_world (initialize_pointer_field n P (ptr_at w1 (pData iter)) iter)
      (pb_dec_submessage (dec_tables P) dec (field_at iter) (ptr_at w1 (pData iter))) s (store_size (pSize iter) (k + 1) w1)"
proof -
  have lt: "\<not> PB_LTYPE_SUBMESSAGE \<le> PB_LTYPE_LAST_PACKABLE" by (simp add: pb_types)
  have "PB_DECODERS T dec PB_LTYPE_SUBMESSAGE = pb_dec_submessage T dec" for T by (simp add: PB_DECODERS_def pb_types(1-12))
  moreover have "item_offset (field_at iter) k = 0" using assms(5) by (simp add: item_offset_def)
  ultimately show ?thesis
    using assms lt by (simp add: decode_pointer_field_def Let_def dec_with_def dec_seq_def dec_upd_def)
qed

section \<open>Arrays of a fixed count\<close>

lemma single_table: "f_tag f \<noteq> 0 \<Longrightarrow> table_ok [f, PB_LAST_FIELD]" "field_count [f, PB_LAST_FIELD] = 1"
  by (simp_all add: table_ok_def field_count_def PB_LAST_FIELD_def)

lemma single_walk:
  assumes "f_tag f \<noteq> 0" and "dest \<noteq> 0"
  shows "message_walk [f, PB_LAST_FIELD] dest = [iter_at [f, PB_LAST_FIELD] dest 0]"
    and "iter_walk 2 (iter_at [f, PB_LAST_FIELD] dest 0) = [iter_at [f, PB_LAST_FIELD] dest 0]"
  using message_walk_at [OF single_table(1) [OF assms(1)] assms(2)] iter_walk_at [OF single_table(1) [OF assms(1)] assms(2), of 0 2]
  by (simp_all add: single_table)

lemma single_complete:
  assumes "f_tag f \<noteq> 0" and "dest \<noteq> 0" and "PB_HTYPE (f_type f) \<noteq> PB_HTYPE_REQUIRED"
    and "dl_iter l = iter_at [f, PB_LAST_FIELD] dest 0"
  shows "\<not> missing_required l"
  using single_walk(2) [OF assms(1,2)] assms(3,4) by (simp add: missing_required_def Let_def numeral_2_eq_2 required_before_def)

text \<open>
  C39: \<open>pb_decode\<close> resets the count of a repeated field through the counter's address, which for an
  array of a fixed count is the array itself. Where the array is shorter than the four bytes of a
  \<open>pb_size_t\<close> - two \<open>bool\<close>s, say - already the empty message clears the bytes behind it, up to the
  fourth.
\<close>

theorem fixed_array_reset_overruns:
  assumes "PB_ATYPE (f_type f) = PB_ATYPE_STATIC" and "PB_HTYPE (f_type f) = PB_HTYPE_REPEATED"
    and "PB_LTYPE (f_type f) \<noteq> PB_LTYPE_EXTENSION" and "f_tag f \<noteq> 0" and "data_offset f = 0" and "size_offset f = 0"
    and "dest \<noteq> 0" and "data_size f * array_size f < 4"
  shows "\<exists>w'. pb_decode P (Suc (Suc (Suc n))) [f, PB_LAST_FIELD] dest (pb_istream_from_buffer [] 0) w =
      Some (True, pb_istream_from_buffer [] 0, w') \<and>
    (\<forall>a. dest + data_size f * array_size f \<le> a \<and> a < dest + 4 \<longrightarrow> dmem w' a = 0)"
proof -
  let ?fs = "[f, PB_LAST_FIELD]" and ?s = "pb_istream_from_buffer [] 0 :: 'a pb_istream"
  let ?w = "store dest [0, 0, 0, 0] w"
  let ?l = "\<lparr>dl_iter = snd (pb_field_iter_begin ?fs dest), fields_seen = [0, 0], extension_range_start = 0, fixed_count_field = None\<rparr>"
  have at: "pSize (iter_at ?fs dest 0) = At dest" "pData (iter_at ?fs dest 0) = dest" "field_at (iter_at ?fs dest 0) = f"
    using assms(5,6) by (simp_all add: ptr_offset_def)
  have "le_bytes 4 (0 :: u32) = [0, 0, 0, 0]" by (simp add: numeral_eq_Suc)
  then have "pb_field_set_to_default (Suc (Suc n)) P (iter_at ?fs dest 0) w = Some ?w"
    unfolding pb_field_set_to_default.simps(2) Let_def at using assms(1-3) by (simp add: pb_types(13-19))
  then have defaults: "pb_message_set_to_defaults (Suc (Suc (Suc n))) P ?fs dest w = Some ?w"
    by (subst pb_message_set_to_defaults.simps) (simp add: single_walk(1) [OF assms(4,7)] del: pb_field_set_to_default.simps)
  have l: "dl_iter ?l = iter_at ?fs dest 0" using iter_begin [OF assms(7), of ?fs] by simp
  have "PB_HTYPE (f_type f) \<noteq> PB_HTYPE_REQUIRED" using assms(2) by (simp add: pb_types(13-16))
  note complete = single_complete [OF assms(4,7) this l]
  have "pb_decode_noinit P (Suc (Suc (Suc n))) ?fs dest ?s ?w = Some (True, ?s, ?w)"
    using complete by (simp add: noinit_body_def Let_def wrong_fixed_count_def pb_istream_from_buffer_def)
  then have "pb_decode P (Suc (Suc (Suc n))) ?fs dest ?s w = Some (True, ?s, ?w)"
    unfolding pb_decode_def with_defaults_def dec_world_def defaults by simp
  moreover have "dmem ?w a = 0" if "dest \<le> a" "a < dest + 4" for a
  proof -
    have "[0, 0, 0, 0 :: byte] = replicate 4 0" by (simp add: numeral_eq_Suc)
    then show ?thesis using that by (simp add: store_def wr_bytes_def)
  qed
  ultimately show ?thesis by fastforce
qed

definition Flags_field :: pb_field where
  "Flags_field = \<lparr>f_tag = 1, f_type = PB_ATYPE_STATIC OR PB_HTYPE_REPEATED OR PB_LTYPE_BOOL, data_offset = 0, size_offset = 0,
     data_size = 1, array_size = 2, f_ptr = Null\<rparr>"

theorem fixed_array_reset_overruns_witness:
  "\<exists>w'. pb_decode example_decoder 3 [Flags_field, PB_LAST_FIELD] 4095 (pb_istream_from_buffer [] 0) example_world =
      Some (True, pb_istream_from_buffer [] 0, w') \<and> dmem example_world 4098 = 2 \<and> dmem w' 4098 = 0"
  using fixed_array_reset_overruns [of Flags_field 4095 example_decoder 0 example_world]
  by (fastforce simp: Flags_field_def pb_types example_world_def numeral_3_eq_3)

section \<open>Messages without fields\<close>

lemma empty_message_find: "dest \<noteq> 0 \<Longrightarrow> pb_field_iter_find (snd (pb_field_iter_begin [PB_LAST_FIELD] dest)) 0 =
   Some (True, snd (pb_field_iter_begin [PB_LAST_FIELD] dest))"
  by (subst pb_field_iter_find_def, subst iter_find_loop.simps)
     (simp add: pb_field_iter_begin_def Let_def field_at_def PB_LAST_FIELD_def pb_types)

text \<open>
  \<open>pb_decode_noinit\<close> trusts \<open>pb_field_iter_find\<close> with messages that have no fields. But there the search
  starts at \<open>PB_LAST_FIELD\<close>, whose tag is zero: a field with the tag zero, which no message may have and
  other messages skip, is decoded as a required \<open>bool\<close> and its value stored at the structure.
\<close>

lemma empty_message_takes_tag_zero:
  assumes "dest \<noteq> 0" and "0 < b" and "b < 128"
  shows "\<exists>s'. pb_decode P (Suc (Suc (Suc n))) [PB_LAST_FIELD] dest (pb_istream_from_buffer [1, of_nat b] 2) w =
    Some (True, s', store dest [1] w) \<and> bytes_left s' = 0"
proof -
  let ?fs = "[PB_LAST_FIELD]" and ?it = "snd (pb_field_iter_begin [PB_LAST_FIELD] dest)"
  let ?l = "\<lparr>dl_iter = ?it, fields_seen = [0, 0], extension_range_start = 0, fixed_count_field = None\<rparr>"
  have it: "field_at ?it = PB_LAST_FIELD" "pData ?it = dest" "start ?it = ?fs" "required_field_index ?it = 0"
      "pb_field_iter_next ?it = (False, ?it)"
    using assms(1) by (simp_all add: pb_field_iter_begin_def Let_def field_at_def pb_field_iter_next_def PB_LAST_FIELD_def)
  have last: "f_type PB_LAST_FIELD = 0" "f_tag PB_LAST_FIELD = 0" by (simp_all add: PB_LAST_FIELD_def)
  have s: "pb_istream_from_buffer [1, of_nat b] 2 = buf_istream (leb128 1 @ leb128 b) [] None"
    using assms(3) by (simp add: pb_istream_from_buffer_eq [symmetric] leb128.simps numeral_2_eq_2)
  have tag: "pb_decode_tag (buf_istream (leb128 1 @ leb128 b) [] None) = (Some (1, 0), False, buf_istream (leb128 b) [] None)"
    using pb_decode_tag_leb128 [of 1 "leb128 b" "[]" None] by simp
  have val: "pb_decode_varint32 (buf_istream (leb128 b) [] None) = (Some (of_nat b), buf_istream [] [] None)"
    using varint32_leb128 [of b "[]" "[]" None] assms(3) by simp
  have defaults: "pb_message_set_to_defaults (Suc (Suc (Suc n))) P ?fs dest w = Some w"
    by (subst pb_message_set_to_defaults.simps) (simp add: message_walk_def pb_field_iter_begin_def Let_def field_at_def PB_LAST_FIELD_def)
  have known: "decode_known m P dec 1 ?l (buf_istream (leb128 b) [] None) v =
      Some (True, ?l\<lparr>fields_seen := [1, 0]\<rparr>, buf_istream [] [] None, store dest [1] v)" for m dec v
  proof -
    have "(of_nat b :: u32) \<noteq> 0" using assms(2,3) by (simp add: word_unat_eq_iff unat_of_nat)
    then have "decode_static_field m P dec 1 ?it (buf_istream (leb128 b) [] None) v = Some (True, buf_istream [] [] None, store dest [1] v)"
      by (simp add: decode_static_field_def Let_def it last pb_types PB_DECODERS_def pb_dec_bool_def dec_bind_def dec_upd_def dec_ok_def val)
    then show ?thesis
      by (simp add: decode_known_def decode_field_def see_required_def Let_def it last pb_types PB_MAX_REQUIRED_FIELDS_def)
  qed
  have "decode_loop (Suc (Suc n)) (Suc (Suc n)) P dec ?l (buf_istream (leb128 1 @ leb128 b) [] None) v =
      Some (True, ?l\<lparr>fields_seen := [1, 0]\<rparr>, buf_istream [] [] None, store dest [1] v)" for dec v
    using known empty_message_find [OF assms(1)] leb128_ne [of b] by (simp add: tag Let_def del: One_nat_def)
  moreover have "\<not> missing_required (?l\<lparr>fields_seen := [1, 0]\<rparr>)"
    by (simp add: missing_required_def Let_def it last pb_types)
  ultimately have "pb_decode_noinit P (Suc (Suc (Suc n))) ?fs dest (buf_istream (leb128 1 @ leb128 b) [] None) w =
      Some (True, buf_istream [] [] None, store dest [1] w)"
    by (simp add: noinit_body_def Let_def wrong_fixed_count_def store_def del: decode_loop.simps)
  then show ?thesis
    unfolding s pb_decode_def with_defaults_def dec_world_def defaults by simp
qed

end
