(* ===== verification/Ssl_Mem.thy ===== *)
theory Ssl_Mem
  imports Enmart_Prelude
begin

text \<open>
  Memory as BoringSSL sees it and the helpers of \<open>crypto/mem.c\<close> and \<open>crypto/internal.h\<close> that
  the byte string code calls. Memory is a total map from addresses to bytes; an operation that
  must not look at an address is shown not to depend on it. The C library's \<open>malloc\<close> is the
  parameter \<open>ma\<close>: whether a request of that size is served.
\<close>

section \<open>Memory\<close>

type_synonym mem = "nat \<Rightarrow> byte"

definition region :: "mem \<Rightarrow> nat \<Rightarrow> nat \<Rightarrow> bytes" where
  "region m p n = map m [p..<p + n]"

definition mem_write :: "mem \<Rightarrow> nat \<Rightarrow> bytes \<Rightarrow> mem" where
  "mem_write m p bs = (\<lambda>i. if p \<le> i \<and> i < p + length bs then bs ! (i - p) else m i)"

text \<open>The bytes \<open>xs\<close> are stored at \<open>p\<close>.\<close>

definition bytes_at :: "mem \<Rightarrow> nat \<Rightarrow> bytes \<Rightarrow> bool" where
  "bytes_at m p xs \<longleftrightarrow> region m p (length xs) = xs"

section \<open>Operations of mem.c\<close>

definition OPENSSL_MALLOC_PREFIX :: nat where
  "OPENSSL_MALLOC_PREFIX = 8"

text \<open>No \<open>OPENSSL_memory_alloc\<close> is linked in: the C library's \<open>malloc\<close> serves the request.\<close>

definition OPENSSL_malloc :: "(nat \<Rightarrow> bool) \<Rightarrow> nat \<Rightarrow> bool" where
  "OPENSSL_malloc ma sz =
     (if size_add sz OPENSSL_MALLOC_PREFIX < sz then False
      else ma (size_add sz OPENSSL_MALLOC_PREFIX))"

text \<open>The answers of the next calls of \<open>malloc\<close>.\<close>

type_synonym answers = "bool list"

definition ask_malloc :: "nat \<Rightarrow> answers \<Rightarrow> bool \<times> answers" where
  "ask_malloc n as =
     (if OPENSSL_malloc (\<lambda>_. True) n then (case as of [] \<Rightarrow> (False, []) | a # as \<Rightarrow> (a, as)) else (False, as))"

definition OPENSSL_memdup :: "(nat \<Rightarrow> bool) \<Rightarrow> mem \<Rightarrow> nat \<Rightarrow> nat \<Rightarrow> bytes option" where
  "OPENSSL_memdup ma m p sz =
     (if sz = 0 then None
      else if \<not> OPENSSL_malloc ma sz then None
      else Some (region m p sz))"

text \<open>
  A block is the list of its bytes; the ones \<open>malloc\<close> leaves undefined are those of \<open>fresh\<close>.
  Without \<open>OPENSSL_memory_get_size\<close> the old size is the one kept in the prefix.
\<close>

definition OPENSSL_realloc :: "(nat \<Rightarrow> bool) \<Rightarrow> mem \<Rightarrow> bytes option \<Rightarrow> nat \<Rightarrow> bytes option" where
  "OPENSSL_realloc ma fresh orig_ptr new_size =
     (case orig_ptr of
        None \<Rightarrow> if OPENSSL_malloc ma new_size then Some (region fresh 0 new_size) else None
      | Some old \<Rightarrow>
          if \<not> OPENSSL_malloc ma new_size then None
          else let to_copy = (if length old < new_size then length old else new_size)
               in Some (take to_copy old @ region fresh to_copy (new_size - to_copy)))"

fun CRYPTO_memcmp_loop :: "bytes \<Rightarrow> bytes \<Rightarrow> byte \<Rightarrow> byte" where
  "CRYPTO_memcmp_loop (a # as) (b # bs) x = CRYPTO_memcmp_loop as bs (x OR (a XOR b))"
| "CRYPTO_memcmp_loop _ _ x = x"

text \<open>Both arrays are read for the same \<open>len\<close> bytes; the result is the \<open>int\<close> of the last \<open>x\<close>.\<close>

definition CRYPTO_memcmp :: "bytes \<Rightarrow> bytes \<Rightarrow> int" where
  "CRYPTO_memcmp a b = uint (CRYPTO_memcmp_loop a b 0)"

fun OPENSSL_hash32_loop :: "bytes \<Rightarrow> u32 \<Rightarrow> u32" where
  "OPENSSL_hash32_loop [] h = h"
| "OPENSSL_hash32_loop (b # bs) h = OPENSSL_hash32_loop bs ((h XOR ucast b) * 16777619)"

definition OPENSSL_hash32 :: "bytes \<Rightarrow> u32" where
  "OPENSSL_hash32 bs = OPENSSL_hash32_loop bs 2166136261"

fun strnlen_loop :: "mem \<Rightarrow> nat \<Rightarrow> nat \<Rightarrow> nat \<Rightarrow> nat" where
  "strnlen_loop m s i 0 = i"
| "strnlen_loop m s i (Suc n) = (if m (s + i) = 0 then i else strnlen_loop m s (Suc i) n)"

definition OPENSSL_strnlen :: "mem \<Rightarrow> nat \<Rightarrow> nat \<Rightarrow> nat" where
  "OPENSSL_strnlen m s len = strnlen_loop m s 0 len"

text \<open>The result is the allocated array, its terminating zero included.\<close>

definition OPENSSL_strndup :: "(nat \<Rightarrow> bool) \<Rightarrow> mem \<Rightarrow> nat \<Rightarrow> nat \<Rightarrow> bytes option" where
  "OPENSSL_strndup ma m str sz0 =
     (let sz = OPENSSL_strnlen m str sz0; alloc_size = size_add sz 1
      in if alloc_size < sz then None
         else if \<not> OPENSSL_malloc ma alloc_size then None
         else Some (region m str sz @ [0]))"

text \<open>
  A C string is the list of its bytes before the terminating zero; \<open>char\<close> is signed on the
  target, so the comparisons below are those of \<open>sint\<close>.
\<close>

definition OPENSSL_tolower :: "int \<Rightarrow> int" where
  "OPENSSL_tolower c = (if 65 \<le> c \<and> c \<le> 90 then c + (97 - 65) else c)"

fun cstr_head :: "bytes \<Rightarrow> byte" where
  "cstr_head [] = 0"
| "cstr_head (b # _) = b"

function OPENSSL_strcasecmp :: "bytes \<Rightarrow> bytes \<Rightarrow> int" where
  "OPENSSL_strcasecmp a b =
     (let aa = OPENSSL_tolower (sint (cstr_head a)); bb = OPENSSL_tolower (sint (cstr_head b))
      in if aa < bb then - 1 else if bb < aa then 1
         else if aa = 0 then 0
         else OPENSSL_strcasecmp (tl a) (tl b))"
  by pat_completeness auto
termination
proof (relation "measure (\<lambda>(a, _). length a)")
  fix a b :: bytes and x xa
  assume x: "x = OPENSSL_tolower (sint (cstr_head a))" and "x \<noteq> 0"
  then have "a \<noteq> []" by (auto simp: OPENSSL_tolower_def)
  then show "((tl a, tl b), a, b) \<in> measure (\<lambda>(a, _). length a)" by (cases a) auto
qed simp

declare OPENSSL_strcasecmp.simps [simp del]

fun OPENSSL_strncasecmp :: "bytes \<Rightarrow> bytes \<Rightarrow> nat \<Rightarrow> int" where
  "OPENSSL_strncasecmp a b 0 = 0"
| "OPENSSL_strncasecmp a b (Suc n) =
     (let aa = OPENSSL_tolower (sint (cstr_head a)); bb = OPENSSL_tolower (sint (cstr_head b))
      in if aa < bb then - 1 else if bb < aa then 1
         else if aa = 0 then 0
         else OPENSSL_strncasecmp (tl a) (tl b) n)"

text \<open>
  \<open>OPENSSL_strlcpy\<close> and \<open>OPENSSL_strlcat\<close> give the bytes they store from \<open>dst\<close> on, terminating
  zero included, and the length they return. The first result of \<open>strlcat\<close> starts at \<open>dst\<close>:
  the bytes skipped are the ones that were there.
\<close>

fun strlcpy_loop :: "bytes \<Rightarrow> nat \<Rightarrow> bytes \<times> bytes \<times> nat" where
  "strlcpy_loop (c # src) (Suc (Suc n)) =
     (case strlcpy_loop src (Suc n) of (stored, rest, sz) \<Rightarrow> (c # stored, rest, sz))"
| "strlcpy_loop src n = ([], src, n)"

definition OPENSSL_strlcpy :: "bytes \<Rightarrow> nat \<Rightarrow> bytes \<times> nat" where
  "OPENSSL_strlcpy src dst_size =
     (case strlcpy_loop src dst_size of (stored, rest, sz) \<Rightarrow>
        (stored @ (if sz \<noteq> 0 then [0] else []), length stored + length rest))"

fun OPENSSL_strlcat :: "bytes \<Rightarrow> bytes \<Rightarrow> nat \<Rightarrow> bytes \<times> nat" where
  "OPENSSL_strlcat (d # dst) src (Suc n) =
     (case OPENSSL_strlcat dst src n of (stored, l) \<Rightarrow> (d # stored, Suc l))"
| "OPENSSL_strlcat _ src n = OPENSSL_strlcpy src n"

section \<open>Operations of internal.h\<close>

definition CRYPTO_bswap2 :: "u16 \<Rightarrow> u16" where
  "CRYPTO_bswap2 x = drop_bit 8 x OR push_bit 8 x"

definition CRYPTO_bswap4 :: "u32 \<Rightarrow> u32" where
  "CRYPTO_bswap4 x0 =
     (let x = drop_bit 16 x0 OR push_bit 16 x0
      in drop_bit 8 (x AND 0xff00ff00) OR push_bit 8 (x AND 0x00ff00ff))"

definition CRYPTO_bswap8 :: "u64 \<Rightarrow> u64" where
  "CRYPTO_bswap8 x =
     ucast (CRYPTO_bswap4 (ucast (drop_bit 32 x))) OR push_bit 32 (ucast (CRYPTO_bswap4 (ucast x)))"

fun OPENSSL_memchr :: "mem \<Rightarrow> nat \<Rightarrow> byte \<Rightarrow> nat \<Rightarrow> nat option" where
  "OPENSSL_memchr m s c 0 = None"
| "OPENSSL_memchr m s c (Suc n) = (if m s = c then Some s else OPENSSL_memchr m (Suc s) c n)"

text \<open>The sign of the C library's \<open>memcmp\<close>: the first difference decides, bytes are unsigned.\<close>

fun OPENSSL_memcmp :: "bytes \<Rightarrow> bytes \<Rightarrow> int" where
  "OPENSSL_memcmp (a # as) (b # bs) =
     (if a < b then - 1 else if b < a then 1 else OPENSSL_memcmp as bs)"
| "OPENSSL_memcmp _ _ = 0"

definition INT_MAX :: nat where "INT_MAX = 2 ^ 31 - 1"

section \<open>Reference counts\<close>

definition CRYPTO_REFCOUNT_MAX :: u32 where "CRYPTO_REFCOUNT_MAX = 0xffffffff"

definition CRYPTO_refcount_inc :: "u32 \<Rightarrow> u32" where
  "CRYPTO_refcount_inc n = (if n \<noteq> CRYPTO_REFCOUNT_MAX then n + 1 else n)"

text \<open>\<open>None\<close> is \<open>abort\<close>.\<close>

definition CRYPTO_refcount_dec_and_test_zero :: "u32 \<Rightarrow> (bool \<times> u32) option" where
  "CRYPTO_refcount_dec_and_test_zero n =
     (if n = 0 then None
      else if n = CRYPTO_REFCOUNT_MAX then Some (False, n)
      else Some (n - 1 = 0, n - 1))"

section \<open>Facts\<close>

lemma ask_malloc_answer: "n + 8 < SIZE_LIMIT \<Longrightarrow> ask_malloc n (a # as) = (a, as)"
  by (simp add: ask_malloc_def OPENSSL_malloc_def size_add_exact OPENSSL_MALLOC_PREFIX_def)

lemma region_simps [simp]:
  "region m p 0 = []" "region m p (Suc n) = m p # region m (Suc p) n"
  by (simp_all add: region_def upt_conv_Cons del: upt_Suc)

lemma length_region [simp]: "length (region m p n) = n"
  by (simp add: region_def)

lemma region_append: "region m p (a + b) = region m p a @ region m (p + a) b"
  by (induction a arbitrary: p) simp_all

lemma nth_region: "i < n \<Longrightarrow> region m p n ! i = m (p + i)"
  by (simp add: region_def)

lemma take_region: "take k (region m p n) = region m p (min k n)"
  by (simp add: region_def take_map min_def)

lemma drop_region: "drop k (region m p n) = region m (p + k) (n - k)"
  by (cases "k \<le> n") (simp_all add: region_def drop_map)

lemma region_cong: "(\<And>i. p \<le> i \<Longrightarrow> i < p + n \<Longrightarrow> m i = m' i) \<Longrightarrow> region m p n = region m' p n"
  by (simp add: region_def)

lemma bytes_at_simps [simp]:
  "bytes_at m p []" "bytes_at m p (x # xs) \<longleftrightarrow> m p = x \<and> bytes_at m (Suc p) xs"
  "bytes_at m p (xs @ ys) \<longleftrightarrow> bytes_at m p xs \<and> bytes_at m (p + length xs) ys"
  by (auto simp: bytes_at_def region_append)

lemma bytes_at_region [simp]: "bytes_at m p (region m p n)"
  by (simp add: bytes_at_def)

lemma bytes_atD: "bytes_at m p xs \<Longrightarrow> region m p (length xs) = xs"
  by (simp add: bytes_at_def)

lemma region_write_same: "length bs = n \<Longrightarrow> region (mem_write m p bs) p n = bs"
  by (rule nth_equalityI) (simp_all add: nth_region mem_write_def)

lemma region_write_before: "p + n \<le> q \<Longrightarrow> region (mem_write m q bs) p n = region m p n"
  by (rule region_cong) (simp add: mem_write_def)

lemma region_write_append:
  "region (mem_write m (p + n) bs) p (n + length bs) = region m p n @ bs"
  by (simp add: region_append region_write_same region_write_before)

lemma memcmp_loop_eq_0:
  "length a = length b \<Longrightarrow> CRYPTO_memcmp_loop a b x = 0 \<longleftrightarrow> x = 0 \<and> a = b"
proof (induction a b arbitrary: x rule: list_induct2)
  case (Cons p ps q qs)
  have "x OR (p XOR q) = 0 \<longleftrightarrow> x = 0 \<and> p = q"
    by (auto simp: bit_eq_iff bit_simps)
  with Cons show ?case by simp
qed simp

lemma CRYPTO_memcmp_eq_0: "length a = length b \<Longrightarrow> CRYPTO_memcmp a b = 0 \<longleftrightarrow> a = b"
  using memcmp_loop_eq_0 [of a b 0] by (simp add: CRYPTO_memcmp_def unsigned_eq_0_iff)

end
