(* ===== verification/Ssl_Cbs.thy ===== *)
theory Ssl_Cbs
  imports Ssl_Mem
begin

text \<open>
  The byte string parser of BoringSSL, \<open>crypto/bytestring/cbs.c\<close>. A \<open>CBS\<close> is a pointer and a
  length; parsing functions advance it and return 0 on malformed input, which is \<open>None\<close> here.
  The \<open>CBS\<close> handed back on failure is the one the C code leaves behind, partly advanced where
  the code does so. What a function stores through its out-pointers before it fails is not kept.
\<close>

section \<open>Operations\<close>

record cbs =
  cbs_data :: nat
  cbs_len :: nat

definition CBS_init :: "nat \<Rightarrow> nat \<Rightarrow> cbs" where
  "CBS_init p n = \<lparr>cbs_data = p, cbs_len = n\<rparr>"

text \<open>\<open>if (!f(cbs, &v)) return 0;\<close> followed by the rest of a function.\<close>

fun cbs_then :: "'a option \<times> cbs \<Rightarrow> ('a \<Rightarrow> cbs \<Rightarrow> 'b option \<times> cbs) \<Rightarrow> 'b option \<times> cbs" where
  "cbs_then (None, c) g = (None, c)"
| "cbs_then (Some v, c) g = g v c"

definition cbs_get :: "cbs \<Rightarrow> nat \<Rightarrow> nat option \<times> cbs" where
  "cbs_get c n =
     (if cbs_len c < n then (None, c)
      else (Some (cbs_data c), \<lparr>cbs_data = cbs_data c + n, cbs_len = cbs_len c - n\<rparr>))"

definition CBS_skip :: "cbs \<Rightarrow> nat \<Rightarrow> unit option \<times> cbs" where
  "CBS_skip c n = cbs_then (cbs_get c n) (\<lambda>_ c. (Some (), c))"

text \<open>\<open>CBS_stow\<close> frees \<open>*out_ptr\<close>, then stores a copy of the contents: no array when they are empty.\<close>

definition CBS_stow :: "(nat \<Rightarrow> bool) \<Rightarrow> mem \<Rightarrow> cbs \<Rightarrow> bytes option option" where
  "CBS_stow ma m c =
     (if cbs_len c = 0 then Some None
      else case OPENSSL_memdup ma m (cbs_data c) (cbs_len c) of
             None \<Rightarrow> None
           | Some bs \<Rightarrow> Some (Some bs))"

definition CBS_strdup :: "(nat \<Rightarrow> bool) \<Rightarrow> mem \<Rightarrow> cbs \<Rightarrow> bytes option" where
  "CBS_strdup ma m c = OPENSSL_strndup ma m (cbs_data c) (cbs_len c)"

definition CBS_contains_zero_byte :: "mem \<Rightarrow> cbs \<Rightarrow> bool" where
  "CBS_contains_zero_byte m c \<longleftrightarrow> OPENSSL_memchr m (cbs_data c) 0 (cbs_len c) \<noteq> None"

definition CBS_mem_equal :: "mem \<Rightarrow> cbs \<Rightarrow> bytes \<Rightarrow> bool" where
  "CBS_mem_equal m c bs =
     (if length bs \<noteq> cbs_len c then False
      else CRYPTO_memcmp (region m (cbs_data c) (length bs)) bs = 0)"

fun get_u_loop :: "bytes \<Rightarrow> u64 \<Rightarrow> u64" where
  "get_u_loop [] result = result"
| "get_u_loop (b # bs) result = get_u_loop bs (push_bit 8 result OR ucast b)"

definition cbs_get_u :: "mem \<Rightarrow> cbs \<Rightarrow> nat \<Rightarrow> u64 option \<times> cbs" where
  "cbs_get_u m c n = cbs_then (cbs_get c n) (\<lambda>p c. (Some (get_u_loop (region m p n) 0), c))"

definition CBS_get_u8 :: "mem \<Rightarrow> cbs \<Rightarrow> byte option \<times> cbs" where
  "CBS_get_u8 m c = cbs_then (cbs_get c 1) (\<lambda>p c. (Some (m p), c))"

definition CBS_get_u16 :: "mem \<Rightarrow> cbs \<Rightarrow> u16 option \<times> cbs" where
  "CBS_get_u16 m c = cbs_then (cbs_get_u m c 2) (\<lambda>v c. (Some (ucast v), c))"

definition CBS_get_u16le :: "mem \<Rightarrow> cbs \<Rightarrow> u16 option \<times> cbs" where
  "CBS_get_u16le m c = cbs_then (CBS_get_u16 m c) (\<lambda>v c. (Some (CRYPTO_bswap2 v), c))"

definition CBS_get_u24 :: "mem \<Rightarrow> cbs \<Rightarrow> u32 option \<times> cbs" where
  "CBS_get_u24 m c = cbs_then (cbs_get_u m c 3) (\<lambda>v c. (Some (ucast v), c))"

definition CBS_get_u32 :: "mem \<Rightarrow> cbs \<Rightarrow> u32 option \<times> cbs" where
  "CBS_get_u32 m c = cbs_then (cbs_get_u m c 4) (\<lambda>v c. (Some (ucast v), c))"

definition CBS_get_u32le :: "mem \<Rightarrow> cbs \<Rightarrow> u32 option \<times> cbs" where
  "CBS_get_u32le m c = cbs_then (CBS_get_u32 m c) (\<lambda>v c. (Some (CRYPTO_bswap4 v), c))"

definition CBS_get_u64 :: "mem \<Rightarrow> cbs \<Rightarrow> u64 option \<times> cbs" where
  "CBS_get_u64 m c = cbs_get_u m c 8"

definition CBS_get_u64le :: "mem \<Rightarrow> cbs \<Rightarrow> u64 option \<times> cbs" where
  "CBS_get_u64le m c = cbs_then (cbs_get_u m c 8) (\<lambda>v c. (Some (CRYPTO_bswap8 v), c))"

definition CBS_get_last_u8 :: "mem \<Rightarrow> cbs \<Rightarrow> byte option \<times> cbs" where
  "CBS_get_last_u8 m c =
     (if cbs_len c = 0 then (None, c)
      else (Some (m (cbs_data c + (cbs_len c - 1))), c\<lparr>cbs_len := cbs_len c - 1\<rparr>))"

definition CBS_get_bytes :: "cbs \<Rightarrow> nat \<Rightarrow> cbs option \<times> cbs" where
  "CBS_get_bytes c n = cbs_then (cbs_get c n) (\<lambda>p c. (Some (CBS_init p n), c))"

definition CBS_copy_bytes :: "mem \<Rightarrow> cbs \<Rightarrow> nat \<Rightarrow> bytes option \<times> cbs" where
  "CBS_copy_bytes m c n = cbs_then (cbs_get c n) (\<lambda>p c. (Some (region m p n), c))"

definition cbs_get_length_prefixed :: "mem \<Rightarrow> cbs \<Rightarrow> nat \<Rightarrow> cbs option \<times> cbs" where
  "cbs_get_length_prefixed m c len_len =
     cbs_then (cbs_get_u m c len_len) (\<lambda>len c. CBS_get_bytes c (unat len))"

definition CBS_get_u8_length_prefixed :: "mem \<Rightarrow> cbs \<Rightarrow> cbs option \<times> cbs" where
  "CBS_get_u8_length_prefixed m c = cbs_get_length_prefixed m c 1"

definition CBS_get_u16_length_prefixed :: "mem \<Rightarrow> cbs \<Rightarrow> cbs option \<times> cbs" where
  "CBS_get_u16_length_prefixed m c = cbs_get_length_prefixed m c 2"

definition CBS_get_u24_length_prefixed :: "mem \<Rightarrow> cbs \<Rightarrow> cbs option \<times> cbs" where
  "CBS_get_u24_length_prefixed m c = cbs_get_length_prefixed m c 3"

definition CBS_get_until_first :: "mem \<Rightarrow> cbs \<Rightarrow> byte \<Rightarrow> cbs option \<times> cbs" where
  "CBS_get_until_first m c b =
     (case OPENSSL_memchr m (cbs_data c) b (cbs_len c) of
        None \<Rightarrow> (None, c)
      | Some split \<Rightarrow> CBS_get_bytes c (split - cbs_data c))"

lemma cbs_get_decreases: "cbs_get c (Suc n) = (Some p, c') \<Longrightarrow> cbs_len c' < cbs_len c"
  by (auto simp: cbs_get_def split: if_splits)

lemma CBS_get_u8_decreases: "CBS_get_u8 m c = (Some b, c') \<Longrightarrow> cbs_len c' < cbs_len c"
  by (auto simp: CBS_get_u8_def cbs_get_def split: if_splits)

function base128_loop :: "mem \<Rightarrow> cbs \<Rightarrow> u64 \<Rightarrow> u64 option \<times> cbs" where
  "base128_loop m c v =
     (case CBS_get_u8 m c of
        (None, c') \<Rightarrow> (None, c')
      | (Some b, c') \<Rightarrow>
          if drop_bit (64 - 7) v \<noteq> 0 then (None, c')
          else if v = 0 \<and> b = 0x80 then (None, c')
          else
            let v' = push_bit 7 v OR ucast (b AND 0x7f)
            in if b AND 0x80 \<noteq> 0 then base128_loop m c' v' else (Some v', c'))"
  by pat_completeness auto
termination
  by (relation "measure (\<lambda>(_, c, _). cbs_len c)") (auto dest: CBS_get_u8_decreases [OF sym])

declare base128_loop.simps [simp del]

definition parse_base128_integer :: "mem \<Rightarrow> cbs \<Rightarrow> u64 option \<times> cbs" where
  "parse_base128_integer m c = base128_loop m c 0"

definition CBS_ASN1_TAG_SHIFT :: nat where "CBS_ASN1_TAG_SHIFT = 24"
definition CBS_ASN1_CONSTRUCTED :: u32 where "CBS_ASN1_CONSTRUCTED = 0x20000000"
definition CBS_ASN1_TAG_NUMBER_MASK :: u32 where "CBS_ASN1_TAG_NUMBER_MASK = 0x1fffffff"
definition CBS_ASN1_BOOLEAN :: u32 where "CBS_ASN1_BOOLEAN = 0x1"
definition CBS_ASN1_INTEGER :: u32 where "CBS_ASN1_INTEGER = 0x2"
definition CBS_ASN1_OCTETSTRING :: u32 where "CBS_ASN1_OCTETSTRING = 0x4"

lemmas asn1_tag_defs = CBS_ASN1_TAG_SHIFT_def CBS_ASN1_CONSTRUCTED_def
  CBS_ASN1_TAG_NUMBER_MASK_def CBS_ASN1_BOOLEAN_def CBS_ASN1_INTEGER_def CBS_ASN1_OCTETSTRING_def

definition parse_asn1_tag :: "mem \<Rightarrow> cbs \<Rightarrow> u32 option \<times> cbs" where
  "parse_asn1_tag m c =
     cbs_then (CBS_get_u8 m c) (\<lambda>tag_byte c.
       let tag = push_bit CBS_ASN1_TAG_SHIFT (ucast tag_byte AND 0xe0);
           tag_number = ucast (tag_byte AND 0x1f)
       in if tag_number = (0x1f :: u32) then
            cbs_then (parse_base128_integer m c) (\<lambda>v c.
              if ucast CBS_ASN1_TAG_NUMBER_MASK < v \<or> v < 0x1f then (None, c)
              else (Some (tag OR ucast v), c))
          else (Some (tag OR tag_number), c))"

text \<open>
  \<open>cbs_get_any_asn1_element\<close>: the element, its tag, the length of its header and whether BER
  was found. The copy \<open>header\<close> is parsed; \<open>c\<close> itself moves only with the final \<open>CBS_get_bytes\<close>.
\<close>

definition asn1_element ::
  "cbs \<Rightarrow> nat \<Rightarrow> u32 \<Rightarrow> nat \<Rightarrow> bool \<Rightarrow> (cbs \<times> u32 \<times> nat \<times> bool) option \<times> cbs" where
  "asn1_element c len tag header_len ber_found =
     cbs_then (CBS_get_bytes c len) (\<lambda>out c. (Some (out, tag, header_len, ber_found), c))"

definition cbs_get_any_asn1_element ::
  "mem \<Rightarrow> cbs \<Rightarrow> bool \<Rightarrow> (cbs \<times> u32 \<times> nat \<times> bool) option \<times> cbs" where
  "cbs_get_any_asn1_element m c ber_ok =
     (case parse_asn1_tag m c of
        (None, _) \<Rightarrow> (None, c)
      | (Some tag, header) \<Rightarrow>
     (case CBS_get_u8 m header of
        (None, _) \<Rightarrow> (None, c)
      | (Some length_byte, header) \<Rightarrow>
          let header_len = cbs_len c - cbs_len header in
          if length_byte AND 0x80 = 0 then
            asn1_element c (size_add (unat length_byte) header_len) tag header_len False
          else
            let num_bytes = unat (length_byte AND 0x7f) in
            if ber_ok \<and> tag AND CBS_ASN1_CONSTRUCTED \<noteq> 0 \<and> num_bytes = 0 then
              asn1_element c header_len tag header_len True
            else if num_bytes = 0 \<or> 4 < num_bytes then (None, c)
            else
     (case cbs_get_u m header num_bytes of
        (None, _) \<Rightarrow> (None, c)
      | (Some len64, header) \<Rightarrow>
          let use_short_form = len64 < 128;
              too_many_bytes = drop_bit ((num_bytes - 1) * 8) len64 = 0 in
          if use_short_form \<and> \<not> ber_ok then (None, c)
          else if too_many_bytes \<and> \<not> ber_ok then (None, c)
          else
            let len = unat len64 in
            if size_add (size_add len header_len) num_bytes < len then (None, c)
            else asn1_element c (size_add len (size_add header_len num_bytes)) tag
                   (size_add header_len num_bytes) (use_short_form \<or> too_many_bytes))))"

definition CBS_get_any_asn1_element :: "mem \<Rightarrow> cbs \<Rightarrow> (cbs \<times> u32 \<times> nat) option \<times> cbs" where
  "CBS_get_any_asn1_element m c =
     cbs_then (cbs_get_any_asn1_element m c False)
       (\<lambda>(out, tag, header_len, _) c. (Some (out, tag, header_len), c))"

definition CBS_get_any_ber_asn1_element ::
  "mem \<Rightarrow> cbs \<Rightarrow> (cbs \<times> u32 \<times> nat \<times> bool) option \<times> cbs" where
  "CBS_get_any_ber_asn1_element m c = cbs_get_any_asn1_element m c True"

definition CBS_get_any_asn1 :: "mem \<Rightarrow> cbs \<Rightarrow> (cbs \<times> u32) option \<times> cbs" where
  "CBS_get_any_asn1 m c =
     cbs_then (CBS_get_any_asn1_element m c) (\<lambda>(out, tag, header_len) c.
       case CBS_skip out header_len of
         (None, _) \<Rightarrow> (None, c)
       | (Some _, out) \<Rightarrow> (Some (out, tag), c))"

definition cbs_get_asn1 :: "mem \<Rightarrow> cbs \<Rightarrow> u32 \<Rightarrow> bool \<Rightarrow> cbs option \<times> cbs" where
  "cbs_get_asn1 m c tag_value skip_header =
     cbs_then (CBS_get_any_asn1_element m c) (\<lambda>(out, tag, header_len) c.
       if tag \<noteq> tag_value then (None, c)
       else if skip_header then
         (case CBS_skip out header_len of (None, _) \<Rightarrow> (None, c) | (Some _, out) \<Rightarrow> (Some out, c))
       else (Some out, c))"

definition CBS_get_asn1 :: "mem \<Rightarrow> cbs \<Rightarrow> u32 \<Rightarrow> cbs option \<times> cbs" where
  "CBS_get_asn1 m c tag_value = cbs_get_asn1 m c tag_value True"

definition CBS_get_asn1_element :: "mem \<Rightarrow> cbs \<Rightarrow> u32 \<Rightarrow> cbs option \<times> cbs" where
  "CBS_get_asn1_element m c tag_value = cbs_get_asn1 m c tag_value False"

definition CBS_peek_asn1_tag :: "mem \<Rightarrow> cbs \<Rightarrow> u32 \<Rightarrow> bool" where
  "CBS_peek_asn1_tag m c tag_value =
     (if cbs_len c < 1 then False else fst (parse_asn1_tag m c) = Some tag_value)"

text \<open>\<open>Some is_negative\<close> for a valid integer.\<close>

definition CBS_is_valid_asn1_integer :: "mem \<Rightarrow> cbs \<Rightarrow> bool option" where
  "CBS_is_valid_asn1_integer m c =
     (case CBS_get_u8 m c of
        (None, _) \<Rightarrow> None
      | (Some first_byte, c') \<Rightarrow>
          let is_negative = (first_byte AND 0x80 \<noteq> 0) in
          (case CBS_get_u8 m c' of
             (None, _) \<Rightarrow> Some is_negative
           | (Some second_byte, _) \<Rightarrow>
               if (first_byte = 0x00 \<and> second_byte AND 0x80 = 0) \<or>
                  (first_byte = 0xff \<and> second_byte AND 0x80 \<noteq> 0)
               then None else Some is_negative))"

definition CBS_is_unsigned_asn1_integer :: "mem \<Rightarrow> cbs \<Rightarrow> bool" where
  "CBS_is_unsigned_asn1_integer m c \<longleftrightarrow> CBS_is_valid_asn1_integer m c = Some False"

fun asn1_uint64_loop :: "bytes \<Rightarrow> u64 \<Rightarrow> u64 option" where
  "asn1_uint64_loop [] out = Some out"
| "asn1_uint64_loop (b # bs) out =
     (if drop_bit 56 out \<noteq> 0 then None else asn1_uint64_loop bs (push_bit 8 out OR ucast b))"

definition CBS_get_asn1_uint64 :: "mem \<Rightarrow> cbs \<Rightarrow> u64 option \<times> cbs" where
  "CBS_get_asn1_uint64 m c =
     cbs_then (CBS_get_asn1 m c CBS_ASN1_INTEGER) (\<lambda>bytes c.
       if \<not> CBS_is_unsigned_asn1_integer m bytes then (None, c)
       else (asn1_uint64_loop (region m (cbs_data bytes) (cbs_len bytes)) 0, c))"

text \<open>The \<open>int64_t\<close> is kept as its 64 bits; the target is little-endian.\<close>

definition CBS_get_asn1_int64 :: "mem \<Rightarrow> cbs \<Rightarrow> u64 option \<times> cbs" where
  "CBS_get_asn1_int64 m c =
     cbs_then (CBS_get_asn1 m c CBS_ASN1_INTEGER) (\<lambda>bytes c.
       case CBS_is_valid_asn1_integer m bytes of
         None \<Rightarrow> (None, c)
       | Some is_negative \<Rightarrow>
           let len = cbs_len bytes in
           if 8 < len then (None, c)
           else (Some (le_word (rev (region m (cbs_data bytes) len) @
                        replicate (8 - len) (if is_negative then 0xff else 0))), c))"

definition CBS_get_asn1_bool :: "mem \<Rightarrow> cbs \<Rightarrow> bool option \<times> cbs" where
  "CBS_get_asn1_bool m c =
     cbs_then (CBS_get_asn1 m c CBS_ASN1_BOOLEAN) (\<lambda>bytes c.
       if cbs_len bytes \<noteq> 1 then (None, c)
       else
         let v = m (cbs_data bytes) in
         if v \<noteq> 0 \<and> v \<noteq> 0xff then (None, c) else (Some (v \<noteq> 0), c))"

text \<open>\<open>None\<close> inside the result: the element is not present.\<close>

definition CBS_get_optional_asn1 :: "mem \<Rightarrow> cbs \<Rightarrow> u32 \<Rightarrow> cbs option option \<times> cbs" where
  "CBS_get_optional_asn1 m c tag =
     (if CBS_peek_asn1_tag m c tag then
        cbs_then (CBS_get_asn1 m c tag) (\<lambda>out c. (Some (Some out), c))
      else (Some None, c))"

definition CBS_get_optional_asn1_octet_string ::
  "mem \<Rightarrow> cbs \<Rightarrow> u32 \<Rightarrow> (cbs \<times> bool) option \<times> cbs" where
  "CBS_get_optional_asn1_octet_string m c tag =
     cbs_then (CBS_get_optional_asn1 m c tag) (\<lambda>child c.
       case child of
         Some child \<Rightarrow>
           (case CBS_get_asn1 m child CBS_ASN1_OCTETSTRING of
              (None, _) \<Rightarrow> (None, c)
            | (Some out, child) \<Rightarrow>
                if cbs_len child \<noteq> 0 then (None, c) else (Some (out, True), c))
       | None \<Rightarrow> (Some (CBS_init 0 0, False), c))"

definition CBS_get_optional_asn1_uint64 ::
  "mem \<Rightarrow> cbs \<Rightarrow> u32 \<Rightarrow> u64 \<Rightarrow> u64 option \<times> cbs" where
  "CBS_get_optional_asn1_uint64 m c tag default_value =
     cbs_then (CBS_get_optional_asn1 m c tag) (\<lambda>child c.
       case child of
         Some child \<Rightarrow>
           (case CBS_get_asn1_uint64 m child of
              (None, _) \<Rightarrow> (None, c)
            | (Some out, child) \<Rightarrow> if cbs_len child \<noteq> 0 then (None, c) else (Some out, c))
       | None \<Rightarrow> (Some default_value, c))"

definition CBS_get_optional_asn1_bool ::
  "mem \<Rightarrow> cbs \<Rightarrow> u32 \<Rightarrow> bool \<Rightarrow> bool option \<times> cbs" where
  "CBS_get_optional_asn1_bool m c tag default_value =
     cbs_then (CBS_get_optional_asn1 m c tag) (\<lambda>child c.
       case child of
         Some child \<Rightarrow>
           (case CBS_get_asn1 m child CBS_ASN1_BOOLEAN of
              (None, _) \<Rightarrow> (None, c)
            | (Some child2, child) \<Rightarrow>
                if cbs_len child2 \<noteq> 1 \<or> cbs_len child \<noteq> 0 then (None, c)
                else
                  let boolean = m (cbs_data child2) in
                  if boolean = 0 then (Some False, c)
                  else if boolean = 0xff then (Some True, c)
                  else (None, c))
       | None \<Rightarrow> (Some default_value, c))"

definition CBS_is_valid_asn1_bitstring :: "mem \<Rightarrow> cbs \<Rightarrow> bool" where
  "CBS_is_valid_asn1_bitstring m c =
     (case CBS_get_u8 m c of
        (None, _) \<Rightarrow> False
      | (Some num_unused_bits, c') \<Rightarrow>
          if 7 < num_unused_bits then False
          else if num_unused_bits = 0 then True
          else (case CBS_get_last_u8 m c' of
                  (None, _) \<Rightarrow> False
                | (Some last_byte, _) \<Rightarrow> last_byte AND (push_bit (unat num_unused_bits) 1 - 1) = 0))"

definition CBS_asn1_bitstring_has_bit :: "mem \<Rightarrow> cbs \<Rightarrow> u32 \<Rightarrow> bool" where
  "CBS_asn1_bitstring_has_bit m c bit_index =
     (if \<not> CBS_is_valid_asn1_bitstring m c then False
      else
        let byte_num = drop_bit 3 bit_index + 1; bit_num = 7 - (bit_index AND 7)
        in unat byte_num < cbs_len c \<and>
           m (cbs_data c + unat byte_num) AND push_bit (unat bit_num) 1 \<noteq> 0)"

section \<open>Locality\<close>

definition sub_cbs :: "cbs \<Rightarrow> cbs \<Rightarrow> bool" where
  "sub_cbs c' c \<longleftrightarrow> cbs_data c \<le> cbs_data c' \<and> cbs_data c' + cbs_len c' \<le> cbs_data c + cbs_len c"

definition agree_on :: "cbs \<Rightarrow> mem \<Rightarrow> mem \<Rightarrow> bool" where
  "agree_on c m m' \<longleftrightarrow> (\<forall>i. cbs_data c \<le> i \<and> i < cbs_data c + cbs_len c \<longrightarrow> m i = m' i)"

lemma sub_cbs_refl [simp]: "sub_cbs c c"
  by (simp add: sub_cbs_def)

lemma sub_cbs_trans [trans]: "sub_cbs a b \<Longrightarrow> sub_cbs b c \<Longrightarrow> sub_cbs a c"
  by (auto simp: sub_cbs_def)

lemma agree_on_sub: "agree_on c m m' \<Longrightarrow> sub_cbs c' c \<Longrightarrow> agree_on c' m m'"
  by (auto simp: agree_on_def sub_cbs_def)

lemma agree_on_region:
  "agree_on c m m' \<Longrightarrow> region m (cbs_data c) (cbs_len c) = region m' (cbs_data c) (cbs_len c)"
  by (rule region_cong) (auto simp: agree_on_def)

text \<open>
  What every parser promises: its outcome depends on nothing but the bytes of the \<open>CBS\<close> it is
  given, and the \<open>CBS\<close> it leaves behind lies within the old one.
\<close>

locale cbs_reader =
  fixes rd :: "mem \<Rightarrow> cbs \<Rightarrow> 'a option \<times> cbs"
  assumes local: "agree_on c m m' \<Longrightarrow> rd m c = rd m' c"
    and within: "sub_cbs (snd (rd m c)) c"
begin

lemma no_overread:
  assumes "region m (cbs_data c) (cbs_len c) = region m' (cbs_data c) (cbs_len c)"
  shows "rd m c = rd m' c"
proof (rule local)
  have "m i = m' i" if "cbs_data c \<le> i" "i < cbs_data c + cbs_len c" for i
    using arg_cong [OF assms, of "\<lambda>xs. xs ! (i - cbs_data c)"] that by (simp add: nth_region)
  then show "agree_on c m m'" by (simp add: agree_on_def)
qed

lemma shrinks: "rd m c = (r, c') \<Longrightarrow> cbs_len c' \<le> cbs_len c"
  using within [of m c] by (simp add: sub_cbs_def)

end

text \<open>A parser that hands out pieces of its input, each lying before the rest.\<close>

locale cbs_splitter = cbs_reader rd
  for rd :: "mem \<Rightarrow> cbs \<Rightarrow> 'a option \<times> cbs" +
  fixes piece :: "'a \<Rightarrow> cbs"
  assumes piece_within: "rd m c = (Some v, c') \<Longrightarrow> sub_cbs (piece v) c"
    and piece_before: "rd m c = (Some v, c') \<Longrightarrow> cbs_data (piece v) + cbs_len (piece v) \<le> cbs_data c'"
begin

lemma pieces_disjoint:
  assumes "rd m c = (Some v, c1)" and "rd m c1 = (Some w, c2)"
  shows "cbs_data (piece v) + cbs_len (piece v) \<le> cbs_data (piece w)"
  using piece_before [OF assms(1)] piece_within [OF assms(2)] by (simp add: sub_cbs_def)

end

lemma cbs_reader_bind:
  assumes "cbs_reader f" and "\<And>v. cbs_reader (g v)"
  shows "cbs_reader (\<lambda>m c. cbs_then (f m c) (\<lambda>v. g v m))"
proof
  fix c m m'
  assume a: "agree_on c m m'"
  obtain r c1 where f: "f m c = (r, c1)" by fastforce
  with cbs_reader.local [OF assms(1) a] have f': "f m' c = (r, c1)" by simp
  have "agree_on c1 m m'"
    using agree_on_sub [OF a] cbs_reader.within [OF assms(1), of m c] f by simp
  with f f' show "cbs_then (f m c) (\<lambda>v. g v m) = cbs_then (f m' c) (\<lambda>v. g v m')"
    by (cases r) (simp_all add: cbs_reader.local [OF assms(2)])
next
  fix m c
  obtain r c1 where f: "f m c = (r, c1)" by fastforce
  with cbs_reader.within [OF assms(1), of m c] have "sub_cbs c1 c" by simp
  with f show "sub_cbs (snd (cbs_then (f m c) (\<lambda>v. g v m))) c"
    using sub_cbs_trans [OF cbs_reader.within [OF assms(2)]] by (cases r) auto
qed

lemma cbs_reader_result: "cbs_reader (\<lambda>m c. (r, c))"
  by unfold_locales simp_all

interpretation get_u8: cbs_reader CBS_get_u8
  by unfold_locales (auto simp: CBS_get_u8_def cbs_get_def agree_on_def sub_cbs_def)

interpretation get_u: cbs_reader "\<lambda>m c. cbs_get_u m c n" for n
  by unfold_locales
    (auto simp: cbs_get_u_def cbs_get_def agree_on_def sub_cbs_def
      intro!: arg_cong2 [where f = get_u_loop] region_cong)

interpretation get_bytes: cbs_splitter "\<lambda>m c. CBS_get_bytes c n" "\<lambda>out. out" for n
  by unfold_locales (auto simp: CBS_get_bytes_def CBS_init_def cbs_get_def sub_cbs_def split: if_splits)

interpretation get_last_u8: cbs_reader CBS_get_last_u8
  by unfold_locales (auto simp: CBS_get_last_u8_def agree_on_def sub_cbs_def)

lemma cbs_splitter_bind:
  assumes "cbs_reader f" and "\<And>v. cbs_splitter (g v) piece"
  shows "cbs_splitter (\<lambda>m c. cbs_then (f m c) (\<lambda>v. g v m)) piece"
proof -
  have g: "cbs_reader (g v)" for v
    using assms(2) [of v] by (simp add: cbs_splitter_def)
  have *: "\<exists>v c1. sub_cbs c1 c \<and> g v m c1 = (Some w, c')"
    if "cbs_then (f m c) (\<lambda>v. g v m) = (Some w, c')" for m c w c'
  proof -
    obtain r c1 where f: "f m c = (r, c1)" by fastforce
    with that cbs_reader.within [OF assms(1), of m c] show ?thesis by (cases r) auto
  qed
  show ?thesis
  proof (intro cbs_splitter.intro cbs_splitter_axioms.intro cbs_reader_bind assms(1) g)
    fix m c w c'
    assume "cbs_then (f m c) (\<lambda>v. g v m) = (Some w, c')"
    then obtain v c1 where "sub_cbs c1 c" "g v m c1 = (Some w, c')" using * by blast
    then show "sub_cbs (piece w) c" "cbs_data (piece w) + cbs_len (piece w) \<le> cbs_data c'"
      using cbs_splitter.piece_within [OF assms(2)] cbs_splitter.piece_before [OF assms(2)]
        sub_cbs_trans by blast+
  qed
qed

interpretation length_prefixed: cbs_splitter "\<lambda>m c. cbs_get_length_prefixed m c k" "\<lambda>out. out" for k
  unfolding cbs_get_length_prefixed_def
  by (intro cbs_splitter_bind get_u.cbs_reader_axioms get_bytes.cbs_splitter_axioms)

lemma base128_loop_local: "agree_on c m m' \<Longrightarrow> base128_loop m c v = base128_loop m' c v"
proof (induction m c v rule: base128_loop.induct)
  case (1 m c v)
  obtain r c1 where u8: "CBS_get_u8 m c = (r, c1)" by fastforce
  with get_u8.local [OF "1.prems"] have "CBS_get_u8 m' c = (r, c1)" by simp
  moreover have "agree_on c1 m m'"
    using agree_on_sub [OF "1.prems"] get_u8.within [of m c] u8 by simp
  ultimately show ?case
    using "1.IH" u8
    by (subst (1 2) base128_loop.simps) (auto simp: Let_def split: option.splits)
qed

lemma base128_loop_within: "sub_cbs (snd (base128_loop m c v)) c"
proof (induction m c v rule: base128_loop.induct)
  case (1 m c v)
  obtain r c1 where u8: "CBS_get_u8 m c = (r, c1)" by fastforce
  with get_u8.within [of m c] have sub: "sub_cbs c1 c" by simp
  show ?case
    using "1.IH" u8 sub
    by (subst base128_loop.simps) (auto simp: Let_def split: option.splits intro: sub_cbs_trans)
qed

interpretation base128: cbs_reader parse_base128_integer
  by unfold_locales (simp_all add: parse_base128_integer_def base128_loop_local base128_loop_within)

lemma cbs_reader_if:
  "cbs_reader f \<Longrightarrow> cbs_reader g \<Longrightarrow> cbs_reader (\<lambda>m c. if b then f m c else g m c)"
  by (cases b) simp_all

interpretation asn1_tag: cbs_reader parse_asn1_tag
  unfolding parse_asn1_tag_def Let_def
  by (intro cbs_reader_bind cbs_reader_if cbs_reader_result get_u8.cbs_reader_axioms
      base128.cbs_reader_axioms)

lemma asn1_element_split:
  "asn1_element c n tag h b = (Some v, c') \<Longrightarrow>
     v = (CBS_init (cbs_data c) n, tag, h, b) \<and> n \<le> cbs_len c \<and>
     c' = \<lparr>cbs_data = cbs_data c + n, cbs_len = cbs_len c - n\<rparr>"
  by (auto simp: asn1_element_def CBS_get_bytes_def cbs_get_def split: if_splits)

lemma asn1_element_within: "sub_cbs (snd (asn1_element c n tag h b)) c"
  by (auto simp: asn1_element_def CBS_get_bytes_def cbs_get_def sub_cbs_def)

lemma any_element_result:
  assumes "cbs_get_any_asn1_element m c ber_ok = (Some v, c')"
  shows "\<exists>n tag h b. v = (CBS_init (cbs_data c) n, tag, h, b) \<and> n \<le> cbs_len c \<and>
     c' = \<lparr>cbs_data = cbs_data c + n, cbs_len = cbs_len c - n\<rparr>"
  using assms
  by (auto simp: cbs_get_any_asn1_element_def Let_def dest!: asn1_element_split
      split: prod.splits option.splits if_splits)

interpretation any_element: cbs_splitter "\<lambda>m c. cbs_get_any_asn1_element m c ber_ok" fst for ber_ok
proof
  fix c m m'
  assume a: "agree_on c m m'"
  obtain r h1 where t: "parse_asn1_tag m c = (r, h1)" by fastforce
  with asn1_tag.local [OF a] have t': "parse_asn1_tag m' c = (r, h1)" by simp
  have a1: "agree_on h1 m m'" using agree_on_sub [OF a] asn1_tag.within [of m c] t by simp
  obtain b h2 where u: "CBS_get_u8 m h1 = (b, h2)" by fastforce
  with get_u8.local [OF a1] have u': "CBS_get_u8 m' h1 = (b, h2)" by simp
  have a2: "agree_on h2 m m'" using agree_on_sub [OF a1] get_u8.within [of m h1] u by simp
  show "cbs_get_any_asn1_element m c ber_ok = cbs_get_any_asn1_element m' c ber_ok"
    unfolding cbs_get_any_asn1_element_def t t' u u' prod.case get_u.local [OF a2] ..
next
  fix m c
  show "sub_cbs (snd (cbs_get_any_asn1_element m c ber_ok)) c"
    by (auto simp: cbs_get_any_asn1_element_def Let_def asn1_element_within
        split: prod.splits option.splits)
next
  fix m c v c'
  assume "cbs_get_any_asn1_element m c ber_ok = (Some v, c')"
  from any_element_result [OF this] show "sub_cbs (fst v) c"
    "cbs_data (fst v) + cbs_len (fst v) \<le> cbs_data c'"
    by (auto simp: sub_cbs_def CBS_init_def)
qed

text \<open>A splitter whose piece is processed further.\<close>

lemma cbs_reader_piece:
  assumes "cbs_splitter f piece"
    and "\<And>m m' v c. agree_on (piece v) m m' \<Longrightarrow> g m v c = g m' v c"
    and "\<And>m v c. sub_cbs (snd (g m v c)) c"
  shows "cbs_reader (\<lambda>m c. cbs_then (f m c) (g m))"
proof -
  have f: "cbs_reader f" using assms(1) by (simp add: cbs_splitter_def)
  show ?thesis
  proof
    fix c m m'
    assume a: "agree_on c m m'"
    obtain r c1 where m: "f m c = (r, c1)" by fastforce
    with cbs_reader.local [OF f a] have "f m' c = (r, c1)" by simp
    moreover have "agree_on (piece v) m m'" if "r = Some v" for v
      using agree_on_sub [OF a cbs_splitter.piece_within [OF assms(1)]] m that by simp
    ultimately show "cbs_then (f m c) (g m) = cbs_then (f m' c) (g m')"
      using m by (cases r) (simp_all add: assms(2))
  next
    fix m c
    obtain r c1 where m: "f m c = (r, c1)" by fastforce
    with cbs_reader.within [OF f, of m c] have "sub_cbs c1 c" by simp
    with m show "sub_cbs (snd (cbs_then (f m c) (g m))) c"
      using sub_cbs_trans [OF assms(3)] by (cases r) auto
  qed
qed

lemma cbs_splitter_mapped:
  assumes "cbs_splitter f piece" and "\<And>v w c1 c2. g v c1 = (Some w, c2) \<Longrightarrow> c2 = c1 \<and> sub_cbs (piece' w) (piece v)"
    and "\<And>v c. snd (g v c) = c"
  shows "cbs_splitter (\<lambda>m c. cbs_then (f m c) g) piece'"
proof (intro cbs_splitter.intro cbs_splitter_axioms.intro)
  show "cbs_reader (\<lambda>m c. cbs_then (f m c) g)"
    by (rule cbs_reader_piece [OF assms(1)]) (simp_all add: assms(3))
  fix m c w c'
  assume a: "cbs_then (f m c) g = (Some w, c')"
  then obtain v where v: "f m c = (Some v, c')" "g v c' = (Some w, c')"
    using assms(2) by (cases "f m c"; cases "fst (f m c)") auto
  with assms(2) have "sub_cbs (piece' w) (piece v)" by blast
  with cbs_splitter.piece_within [OF assms(1) v(1)] cbs_splitter.piece_before [OF assms(1) v(1)]
  show "sub_cbs (piece' w) c" "cbs_data (piece' w) + cbs_len (piece' w) \<le> cbs_data c'"
    by (auto simp: sub_cbs_def)
qed

interpretation der_element: cbs_splitter CBS_get_any_asn1_element fst
  unfolding CBS_get_any_asn1_element_def [abs_def]
  by (rule cbs_splitter_mapped [OF any_element.cbs_splitter_axioms]) auto

lemma CBS_skip_sub: "CBS_skip c n = (r, c') \<Longrightarrow> sub_cbs c' c"
  by (auto simp: CBS_skip_def cbs_get_def sub_cbs_def split: if_splits)

interpretation get_asn1: cbs_splitter "\<lambda>m c. cbs_get_asn1 m c tag skip_header" "\<lambda>out. out" for tag skip_header
  unfolding cbs_get_asn1_def [abs_def]
  by (rule cbs_splitter_mapped [OF der_element.cbs_splitter_axioms])
     (auto dest: CBS_skip_sub split: if_splits option.splits prod.splits)

interpretation get_any_asn1: cbs_splitter CBS_get_any_asn1 fst
  unfolding CBS_get_any_asn1_def [abs_def]
  by (rule cbs_splitter_mapped [OF der_element.cbs_splitter_axioms])
     (auto dest: CBS_skip_sub split: if_splits option.splits prod.splits)

lemma is_valid_asn1_integer_local:
  assumes "agree_on c m m'"
  shows "CBS_is_valid_asn1_integer m c = CBS_is_valid_asn1_integer m' c"
proof -
  obtain r c1 where u8: "CBS_get_u8 m c = (r, c1)" by fastforce
  with get_u8.local [OF assms] have u8': "CBS_get_u8 m' c = (r, c1)" by simp
  have "agree_on c1 m m'"
    using agree_on_sub [OF assms] get_u8.within [of m c] u8 by simp
  then show ?thesis
    unfolding CBS_is_valid_asn1_integer_def u8 u8' prod.case by (simp only: get_u8.local)
qed

lemmas get_asn1_splitter = get_asn1.cbs_splitter_axioms [where skip_header = True, folded CBS_get_asn1_def]

interpretation asn1_uint64: cbs_reader CBS_get_asn1_uint64
  unfolding CBS_get_asn1_uint64_def [abs_def]
  by (rule cbs_reader_piece [OF get_asn1_splitter])
     (auto simp: CBS_is_unsigned_asn1_integer_def is_valid_asn1_integer_local agree_on_region)

interpretation asn1_int64: cbs_reader CBS_get_asn1_int64
  unfolding CBS_get_asn1_int64_def [abs_def]
  by (rule cbs_reader_piece [OF get_asn1_splitter])
     (auto simp: is_valid_asn1_integer_local agree_on_region Let_def split: option.splits)

interpretation asn1_bool: cbs_reader CBS_get_asn1_bool
  unfolding CBS_get_asn1_bool_def [abs_def]
  by (rule cbs_reader_piece [OF get_asn1_splitter])
     (auto simp: agree_on_def Let_def)

interpretation optional_asn1: cbs_reader "\<lambda>m c. CBS_get_optional_asn1 m c tag" for tag
proof
  fix c m m' assume a: "agree_on c m m'"
  show "CBS_get_optional_asn1 m c tag = CBS_get_optional_asn1 m' c tag"
    using get_asn1.local [OF a] asn1_tag.local [OF a]
    by (simp add: CBS_get_optional_asn1_def CBS_peek_asn1_tag_def CBS_get_asn1_def)
next
  fix m c
  show "sub_cbs (snd (CBS_get_optional_asn1 m c tag)) c"
    using get_asn1.within [of m c tag True]
    by (cases "CBS_get_asn1 m c tag"; cases "fst (CBS_get_asn1 m c tag)")
       (auto simp: CBS_get_optional_asn1_def CBS_get_asn1_def)
qed

end
