(* ===== verification/Ssl_Der.thy ===== *)
theory Ssl_Der
  imports Ssl_Cbs
begin

text \<open>
  The distinguished encoding rules as \<open>cbs.c\<close> reads them: reference encodings of identifiers,
  lengths and elements, and the proof that the parser accepts exactly these.
\<close>

section \<open>Big-endian numbers\<close>

fun be_bytes :: "nat \<Rightarrow> nat \<Rightarrow> bytes" where
  "be_bytes 0 n = []"
| "be_bytes (Suc k) n = be_bytes k (n div 256) @ [of_nat n]"

definition be_value :: "bytes \<Rightarrow> nat" where
  "be_value bs = foldl (\<lambda>v b. v * 256 + unat b) 0 bs"

lemma be_value_simps [simp]:
  "be_value [] = 0" "be_value (bs @ [b]) = be_value bs * 256 + unat b"
  by (simp_all add: be_value_def)

lemma be_value_less: "be_value bs < 256 ^ length bs"
proof (induction bs rule: rev_induct)
  case (snoc b bs)
  have "unat b < 256" using unsigned_less [of b, where 'a = nat] by simp
  moreover from snoc have "(be_value bs + 1) * 256 \<le> 256 ^ length bs * 256" by (intro mult_le_mono1) simp
  ultimately show ?case by simp
qed simp

lemma length_be_bytes [simp]: "length (be_bytes k n) = k"
  by (induction k arbitrary: n) simp_all

lemma be_bytes_value: "be_bytes (length bs) (be_value bs) = bs"
proof (induction bs rule: rev_induct)
  case (snoc b bs)
  have "unat b < 256" using unsigned_less [of b, where 'a = nat] by simp
  then have "(be_value bs * 256 + unat b) div 256 = be_value bs" by simp
  moreover have "(of_nat (be_value bs * 256 + unat b) :: byte) = b"
    by (simp add: word_unat_eq_iff unat_of_nat \<open>unat b < 256\<close> del: of_nat_add of_nat_mult)
  ultimately show ?case using snoc by simp
qed simp

lemma be_value_bytes: "n < 256 ^ k \<Longrightarrow> be_value (be_bytes k n) = n"
proof (induction k arbitrary: n)
  case (Suc k)
  then have "n div 256 < 256 ^ k" by (simp add: less_mult_imp_div_less mult.commute)
  with Suc.IH show ?case by (simp add: unat_of_nat)
qed simp

lemma word_of_unat: "unat x = n \<Longrightarrow> x = of_nat n" for x :: "'a::len word"
  by (metis of_nat_unat ucast_id)

lemma unat_push_or:
  fixes v x :: "'a::len word"
  assumes "unat x < 2 ^ k" and "unat v * 2 ^ k + unat x < 2 ^ LENGTH('a)"
  shows "unat (push_bit k v OR x) = unat v * 2 ^ k + unat x"
proof -
  have "push_bit k v OR x = x + push_bit k v"
    using word_or_push_bit [OF assms(1), of v] by (simp add: or.commute)
  with assms(2) show ?thesis by (simp add: unat_word_ariths unat_push_bit)
qed

lemma unat_get_u_loop:
  assumes "unat r * 256 ^ length bs + be_value bs < 2 ^ 64"
  shows "unat (get_u_loop bs r) = unat r * 256 ^ length bs + be_value bs"
proof -
  have gen: "unat (get_u_loop bs r) = foldl (\<lambda>v b. v * 256 + unat b) (unat r) bs"
    if "foldl (\<lambda>v b. v * 256 + unat b) (unat r) bs < 2 ^ 64" for r bs
    using that
  proof (induction bs arbitrary: r)
    case (Cons b bs)
    have mono: "x \<le> foldl (\<lambda>v b. v * 256 + unat b) x bs" for x :: nat and bs :: bytes
    proof (induction bs arbitrary: x)
      case (Cons a bs)
      have "x \<le> x * 256 + unat a" by simp
      also note Cons.IH [of "x * 256 + unat a"]
      finally show ?case by simp
    qed simp
    have b: "unat b < 256" using unsigned_less [of b, where 'a = nat] by simp
    then have ub: "unat (ucast b :: u64) = unat b" by (simp add: unat_ucast)
    from Cons.prems mono [of "unat r * 256 + unat b" bs] have "unat r * 2 ^ 8 + unat b < 2 ^ 64" by simp
    then have "unat (push_bit 8 r OR ucast b) = unat r * 256 + unat b"
      using unat_push_or [of "ucast b :: u64" 8 r] b ub by simp
    with Cons.prems Cons.IH [of "push_bit 8 r OR ucast b"] show ?case by simp
  qed simp
  have "foldl (\<lambda>v b. v * 256 + unat b) k bs = k * 256 ^ length bs + be_value bs" for k
    by (induction bs rule: rev_induct) (simp_all add: algebra_simps)
  with gen [of r bs] assms show ?thesis by simp
qed

lemma get_u_loop_be:
  assumes "length bs \<le> 8"
  shows "unat (get_u_loop bs 0) = be_value bs"
proof -
  have "(256 :: nat) ^ length bs \<le> 256 ^ 8" using assms by (intro power_increasing) simp_all
  with be_value_less [of bs] have "be_value bs < 2 ^ 64" by simp
  then show ?thesis using unat_get_u_loop [of 0 bs] by simp
qed

section \<open>Reading from a known place\<close>

abbreviation cbs_at :: "nat \<Rightarrow> nat \<Rightarrow> cbs" where
  "cbs_at d l \<equiv> \<lparr>cbs_data = d, cbs_len = l\<rparr>"

lemma cbs_get_at: "cbs_get (cbs_at d l) n = (if l < n then (None, cbs_at d l) else (Some d, cbs_at (d + n) (l - n)))"
  by (simp add: cbs_get_def)

lemma CBS_get_u8_at:
  "CBS_get_u8 m (cbs_at d l) = (if l = 0 then (None, cbs_at d l) else (Some (m d), cbs_at (Suc d) (l - 1)))"
  by (simp add: CBS_get_u8_def cbs_get_at)

lemma CBS_get_bytes_at:
  "CBS_get_bytes (cbs_at d l) n =
     (if l < n then (None, cbs_at d l) else (Some (cbs_at d n), cbs_at (d + n) (l - n)))"
  by (simp add: CBS_get_bytes_def cbs_get_at CBS_init_def)

lemma cbs_get_u_at:
  assumes "bytes_at m d bs" and "length bs = n" and "n \<le> l"
  shows "cbs_get_u m (cbs_at d l) n = (Some (get_u_loop bs 0), cbs_at (d + n) (l - n))"
  using assms by (simp add: cbs_get_u_def cbs_get_at bytes_at_def)

section \<open>Base 128\<close>

fun base128_hi :: "nat \<Rightarrow> bytes" where
  "base128_hi n = (if n = 0 then [] else base128_hi (n div 128) @ [of_nat (n mod 128 + 128)])"
declare base128_hi.simps [simp del]

definition base128 :: "nat \<Rightarrow> bytes" where
  "base128 n = base128_hi (n div 128) @ [of_nat (n mod 128)]"

lemma base128_hi_0 [simp]: "base128_hi 0 = []"
  by (subst base128_hi.simps) simp

lemma base128_hi_step: "0 < n \<Longrightarrow> base128_hi n = base128_hi (n div 128) @ [of_nat (n mod 128 + 128)]"
  by (subst base128_hi.simps) simp

lemma unat_base128_step:
  fixes v :: u64
  assumes "unat v < 2 ^ 57"
  shows "unat (push_bit 7 v OR ucast ((b :: byte) AND 0x7f)) = unat v * 128 + unat b mod 128"
proof -
  have x: "unat (ucast (b AND 0x7f) :: u64) = unat b mod 128"
    by (simp add: unat_ucast word_and_mask_numeral unat_take_bit)
  have "unat b mod 128 < 128" by simp
  with assms have "unat v * 2 ^ 7 + unat b mod 128 < 2 ^ 64" by simp
  with unat_push_or [of "ucast (b AND 0x7f) :: u64" 7 v] x show ?thesis by simp
qed

lemma drop_bit_57: "drop_bit 57 v = 0 \<longleftrightarrow> unat v < 2 ^ 57" for v :: u64
  by (simp add: word_unat_eq_iff unat_drop_bit div_eq_0_iff)

lemma base128_loop_at:
  "base128_loop m (cbs_at d l) v =
     (if l = 0 then (None, cbs_at d l)
      else if \<not> unat v < 2 ^ 57 \<or> v = 0 \<and> m d = 0x80 then (None, cbs_at (Suc d) (l - 1))
      else if 128 \<le> unat (m d)
           then base128_loop m (cbs_at (Suc d) (l - 1)) (push_bit 7 v OR ucast (m d AND 0x7f))
      else (Some (push_bit 7 v OR ucast (m d AND 0x7f)), cbs_at (Suc d) (l - 1)))"
  by (subst base128_loop.simps) (auto simp add: CBS_get_u8_at drop_bit_57 word_and_80 Let_def)

lemma base128_step_word:
  assumes "unat v = n div 128" and "n < 2 ^ 64" and "unat b mod 128 = n mod 128"
  shows "push_bit 7 v OR ucast ((b :: byte) AND 0x7f) = (of_nat n :: u64)"
proof (rule word_of_unat)
  have "unat v < 2 ^ 57" using assms(1,2) by simp
  from unat_base128_step [OF this, of b] assms(1,3)
  show "unat (push_bit 7 v OR ucast (b AND 0x7f)) = n" by simp
qed

lemma base128_loop_hi:
  assumes "bytes_at m d (base128_hi k)" and "length (base128_hi k) \<le> l" and "k < 2 ^ 64"
  shows "base128_loop m (cbs_at d l) 0 =
           base128_loop m (cbs_at (d + length (base128_hi k)) (l - length (base128_hi k))) (of_nat k)"
  using assms
proof (induction k rule: base128_hi.induct)
  case (1 k)
  show ?case
  proof (cases "k = 0")
    case False
    let ?hi = "base128_hi (k div 128)" and ?b = "of_nat (k mod 128 + 128) :: byte"
    let ?d = "d + length ?hi" and ?l = "l - length ?hi" and ?v = "of_nat (k div 128) :: u64"
    have hi: "base128_hi k = ?hi @ [?b]" using False by (simp add: base128_hi_step)
    have b: "unat ?b = k mod 128 + 128" by (simp add: unat_of_nat del: of_nat_add)
    have k: "k div 128 < 2 ^ 57" using "1.prems"(3) by simp
    then have uk: "unat ?v = k div 128" by (simp add: unat_of_nat)
    have md: "m ?d = ?b" and l: "0 < ?l" using "1.prems"(1,2) hi by simp_all
    have nz: "\<not> (?v = 0 \<and> ?b = 0x80)"
    proof
      assume "?v = 0 \<and> ?b = 0x80"
      with uk have "k div 128 = 0" "unat ?b = 128" by simp_all
      with False b show False by (simp add: div_eq_0_iff)
    qed
    have w: "push_bit 7 ?v OR ucast (?b AND 0x7f) = (of_nat k :: u64)"
      by (rule base128_step_word [OF uk "1.prems"(3)]) (simp only: b, simp)
    have "base128_loop m (cbs_at d l) 0 = base128_loop m (cbs_at ?d ?l) ?v"
      using "1.IH" [OF False] "1.prems" hi by simp
    also have "\<dots> = base128_loop m (cbs_at (Suc ?d) (?l - 1)) (of_nat k)"
      by (subst base128_loop_at) (use uk k l nz in \<open>simp only: md w b, simp\<close>)
    finally show ?thesis using hi by simp
  qed simp
qed

lemma parse_base128_complete:
  assumes "bytes_at m d (base128 n)" and "length (base128 n) \<le> l" and "n < 2 ^ 64"
  shows "parse_base128_integer m (cbs_at d l) =
           (Some (of_nat n), cbs_at (d + length (base128 n)) (l - length (base128 n)))"
proof -
  let ?hi = "base128_hi (n div 128)" and ?b = "of_nat (n mod 128) :: byte"
  let ?d = "d + length ?hi" and ?l = "l - length ?hi" and ?v = "of_nat (n div 128) :: u64"
  have n: "n div 128 < 2 ^ 57" using assms(3) by simp
  then have un: "unat ?v = n div 128" by (simp add: unat_of_nat)
  have md: "m ?d = ?b" and l: "0 < ?l" using assms(1,2) by (simp_all add: base128_def)
  have b: "unat ?b = n mod 128" and lt: "\<not> 128 \<le> n mod 128" by (simp_all add: unat_of_nat)
  then have nz: "\<not> (?v = 0 \<and> ?b = 0x80)" by auto
  have w: "push_bit 7 ?v OR ucast (?b AND 0x7f) = (of_nat n :: u64)"
    by (rule base128_step_word [OF un assms(3)]) (simp add: b)
  have "base128_loop m (cbs_at d l) 0 = base128_loop m (cbs_at ?d ?l) ?v"
    using assms n by (intro base128_loop_hi) (simp_all add: base128_def)
  also have "\<dots> = (Some (of_nat n), cbs_at (Suc ?d) (?l - 1))"
    by (subst base128_loop_at) (use un n l nz lt in \<open>simp only: md w b, simp\<close>)
  finally show ?thesis by (simp add: parse_base128_integer_def base128_def)
qed

lemma base128_loop_sound:
  assumes "base128_loop m c v = (Some r, c')"
  shows "\<exists>bs. bs \<noteq> [] \<and> bytes_at m (cbs_data c) bs \<and> length bs \<le> cbs_len c \<and>
           c' = cbs_at (cbs_data c + length bs) (cbs_len c - length bs) \<and>
           base128_hi (unat v) @ bs = base128 (unat r)"
  using assms
proof (induction "cbs_len c" arbitrary: c v rule: less_induct)
  case less
  obtain d l where c: "c = cbs_at d l" by (cases c)
  let ?b = "m d"
  let ?v' = "push_bit 7 v OR ucast (?b AND 0x7f)" and ?c = "cbs_at (Suc d) (l - 1)"
  note run = less.prems [unfolded c base128_loop_at [of m d l v]]
  from run have l: "0 < l" and v: "unat v < 2 ^ 57" and nz: "\<not> (v = 0 \<and> ?b = 0x80)"
    by (auto split: if_splits)
  have v': "unat ?v' = unat v * 128 + unat ?b mod 128" by (rule unat_base128_step [OF v])
  have div: "unat ?v' div 128 = unat v" "unat ?v' mod 128 = unat ?b mod 128" unfolding v' by simp_all
  have b256: "unat ?b < 256" using unsigned_less [of ?b, where 'a = nat] by simp
  show ?case
  proof (cases "128 \<le> unat ?b")
    case True
    have b: "unat ?b mod 128 + 128 = unat ?b" using True b256 by (simp add: le_mod_geq)
    have "unat ?v' \<noteq> 0"
    proof
      assume "unat ?v' = 0"
      then have "unat v = 0" "unat ?b mod 128 = 0" using v' by simp_all
      then have "v = 0" "unat ?b = unat (0x80 :: byte)" using b by (simp_all add: unat_eq_0)
      with nz show False by (simp only: word_unat_eq_iff) simp
    qed
    then have "base128_hi (unat ?v') = base128_hi (unat v) @ [of_nat (unat ?b)]"
      using base128_hi_step [of "unat ?v'"] div b by simp
    then have hi: "base128_hi (unat ?v') = base128_hi (unat v) @ [?b]"
      using word_of_unat [of ?b] by simp
    have "base128_loop m ?c ?v' = (Some r, c')" using run l v nz True by simp
    from less.hyps [OF _ this] obtain bs where "bs \<noteq> []" "bytes_at m (Suc d) bs" "length bs \<le> l - 1"
      "c' = cbs_at (Suc d + length bs) (l - 1 - length bs)" "base128_hi (unat ?v') @ bs = base128 (unat r)"
      using l c by auto
    with hi l show ?thesis unfolding c by (intro exI [of _ "?b # bs"]) auto
  next
    case False
    then have "unat ?b mod 128 = unat ?b" by simp
    then have "base128 (unat ?v') = base128_hi (unat v) @ [of_nat (unat ?b)]"
      by (simp only: base128_def div)
    then have "base128 (unat ?v') = base128_hi (unat v) @ [?b]" using word_of_unat [of ?b] by simp
    moreover have "r = ?v'" "c' = ?c" using run l v nz False by simp_all
    ultimately show ?thesis using l unfolding c by (intro exI [of _ "[?b]"]) auto
  qed
qed

lemma parse_base128_sound:
  assumes "parse_base128_integer m c = (Some r, c')"
  shows "bytes_at m (cbs_data c) (base128 (unat r)) \<and> length (base128 (unat r)) \<le> cbs_len c \<and>
     c' = cbs_at (cbs_data c + length (base128 (unat r))) (cbs_len c - length (base128 (unat r)))"
  using base128_loop_sound [OF assms [unfolded parse_base128_integer_def]] by auto

lemma unat_byte_less [simp]: "unat (b :: byte) < 256"
  using unsigned_less [of b, where 'a = nat] by simp

lemma mod128_high: "128 \<le> n \<Longrightarrow> n < 256 \<Longrightarrow> 128 + n mod 128 = n" for n :: nat
  by (simp add: le_mod_geq)

section \<open>Identifiers\<close>

definition der_ident :: "u32 \<Rightarrow> bytes" where
  "der_ident tag =
     (let tag_bits = ucast (drop_bit CBS_ASN1_TAG_SHIFT tag) AND 0xe0;
          tag_number = unat (tag AND CBS_ASN1_TAG_NUMBER_MASK)
      in if 0x1f \<le> tag_number then (tag_bits OR 0x1f) # base128 tag_number
         else [tag_bits OR of_nat tag_number])"

lemma tag_masks:
  "(0xe0 :: byte) = push_bit 5 (mask 3)" "(0xe0 :: u32) = push_bit 5 (mask 3)"
  "(0x1f :: byte) = mask 5" "CBS_ASN1_TAG_NUMBER_MASK = mask 29"
  by (simp_all add: mask_eq_exp_minus_1 CBS_ASN1_TAG_NUMBER_MASK_def)

lemma small_bits: "unat x < 2 ^ k \<Longrightarrow> bit x n \<Longrightarrow> n < k" for x :: "'a::len word"
  by (metis bit_take_bit_iff less_imp_le mod_less unat_take_bit word_unat_eq_iff)

lemma ident_low: "(y AND 0xe0 OR x) AND 0x1f = x" if "unat x < 32" for x y :: byte
  using small_bits [of x 5] that unfolding tag_masks
  by (intro bit_word_eqI) (auto simp: bit_simps)

definition tag_hi :: "byte \<Rightarrow> u32" where
  "tag_hi b = push_bit 24 (ucast b AND 0xe0)"

lemma ident_high: "tag_hi (y AND 0xe0 OR x) = tag_hi y"
  if "unat x < 32" for x y :: byte
proof -
  have "bit x n \<Longrightarrow> n < 5" for n using small_bits [of x 5] that by simp
  then show ?thesis unfolding tag_masks tag_hi_def by (intro bit_word_eqI) (force simp: bit_simps)
qed

lemma tag_split: "tag_hi (ucast (drop_bit 24 tag)) OR (tag AND CBS_ASN1_TAG_NUMBER_MASK) = tag"
  for tag :: u32
  unfolding tag_masks tag_hi_def
  by (intro bit_word_eqI) (auto simp: bit_simps)

lemma tag_parts:
  assumes "unat x < 2 ^ 29"
  shows "ucast (drop_bit 24 (tag_hi tb OR x)) AND 0xe0 = (tb AND 0xe0 :: byte)"
    and "(tag_hi tb OR x) AND CBS_ASN1_TAG_NUMBER_MASK = (x :: u32)"
  using small_bits [OF assms] unfolding tag_masks tag_hi_def
  by (intro bit_word_eqI; force simp: bit_simps)+

lemma byte_split: "(tb AND 0xe0) OR (tb AND 0x1f) = tb" for tb :: byte
  unfolding tag_masks by (intro bit_word_eqI) (auto simp: bit_simps)


lemma tag_number_less: "unat (tag AND CBS_ASN1_TAG_NUMBER_MASK) < 2 ^ 29"
proof -
  have "tag AND CBS_ASN1_TAG_NUMBER_MASK = take_bit 29 tag"
    by (simp add: tag_masks take_bit_eq_mask)
  then show ?thesis by (simp only: unat_take_bit) simp
qed

lemma parse_asn1_tag_at:
  "parse_asn1_tag m (cbs_at d l) =
     (if l = 0 then (None, cbs_at d l)
      else if m d AND 0x1f = 0x1f then
        cbs_then (parse_base128_integer m (cbs_at (Suc d) (l - 1))) (\<lambda>v c.
          if \<not> (unat v < 2 ^ 29 \<and> 31 \<le> unat v) then (None, c)
          else (Some (tag_hi (m d) OR ucast v), c))
      else (Some (tag_hi (m d) OR ucast (m d AND 0x1f)), cbs_at (Suc d) (l - 1)))"
proof -
  have "ucast (m d AND 0x1f) = (0x1f :: u32) \<longleftrightarrow> m d AND 0x1f = 0x1f"
  proof
    assume "ucast (m d AND 0x1f) = (0x1f :: u32)"
    then have "unat (ucast (m d AND 0x1f) :: u32) = 31" by simp
    then show "m d AND 0x1f = 0x1f" using unat_byte_less [of "m d AND 0x1f"] by (simp add: unat_ucast word_unat_eq_iff)
  qed simp
  moreover have "(ucast CBS_ASN1_TAG_NUMBER_MASK < v \<or> v < 0x1f) = (\<not> (unat v < 2 ^ 29 \<and> 31 \<le> unat v))"
    for v :: u64
    by (auto simp: CBS_ASN1_TAG_NUMBER_MASK_def word_less_nat_alt not_less)
  ultimately show ?thesis
    unfolding parse_asn1_tag_def CBS_get_u8_at Let_def CBS_ASN1_TAG_SHIFT_def tag_hi_def
    by (cases "l = 0") (simp_all only: cbs_then.simps if_True if_False simp_thms)
qed

lemma parse_asn1_tag_complete:
  assumes "bytes_at m d (der_ident tag)" and "length (der_ident tag) \<le> l"
  shows "parse_asn1_tag m (cbs_at d l) =
     (Some tag, cbs_at (d + length (der_ident tag)) (l - length (der_ident tag)))"
proof -
  let ?bits = "ucast (drop_bit 24 tag) AND 0xe0 :: byte" and ?w = "tag AND CBS_ASN1_TAG_NUMBER_MASK"
  define k where "k = unat ?w"
  have n: "k < 2 ^ 29" unfolding k_def by (rule tag_number_less)
  show ?thesis
  proof (cases "31 \<le> k")
    case True
    then have id: "der_ident tag = (?bits OR 0x1f) # base128 k"
      by (simp add: der_ident_def CBS_ASN1_TAG_SHIFT_def Let_def k_def)
    have md: "m d = ?bits OR 0x1f" and rest: "bytes_at m (Suc d) (base128 k)" "length (base128 k) \<le> l - 1"
      using assms by (simp_all add: id)
    have p: "parse_base128_integer m (cbs_at (Suc d) (l - 1)) = (Some (of_nat k),
        cbs_at (Suc d + length (base128 k)) (l - 1 - length (base128 k)))"
      using n by (intro parse_base128_complete rest) simp
    have u: "unat (of_nat k :: u64) = k" using n by (simp add: unat_of_nat)
    have "ucast (of_nat k :: u64) = ?w"
      using u n by (simp only: word_unat_eq_iff unat_ucast k_def [symmetric]) simp
    with assms(2) p u n True tag_split [of tag] show ?thesis
      by (simp add: parse_asn1_tag_at md ident_low ident_high id)
  next
    case False
    then have id: "der_ident tag = [?bits OR of_nat k]"
      by (simp add: der_ident_def CBS_ASN1_TAG_SHIFT_def Let_def k_def)
    have md: "m d = ?bits OR of_nat k" using assms by (simp add: id)
    have u: "unat (of_nat k :: byte) = k" using False by (simp add: unat_of_nat)
    with False have "of_nat k \<noteq> (0x1f :: byte)" by (simp add: word_unat_eq_iff)
    moreover have "ucast (of_nat k :: byte) = ?w"
      using u n by (simp only: word_unat_eq_iff unat_ucast k_def [symmetric]) simp
    ultimately show ?thesis
      using assms(2) u False tag_split [of tag]
      by (simp add: parse_asn1_tag_at md ident_low ident_high id)
  qed
qed

lemma parse_asn1_tag_sound:
  assumes "parse_asn1_tag m c = (Some tag, c')"
  shows "bytes_at m (cbs_data c) (der_ident tag) \<and> length (der_ident tag) \<le> cbs_len c \<and>
     c' = cbs_at (cbs_data c + length (der_ident tag)) (cbs_len c - length (der_ident tag))"
proof -
  obtain d l where c: "c = cbs_at d l" by (cases c)
  let ?b = "m d" and ?hi = "tag_hi (m d)"
  note run = assms [unfolded c parse_asn1_tag_at]
  from run have l: "0 < l" by (auto split: if_splits)
  show ?thesis
  proof (cases "?b AND 0x1f = 0x1f")
    case True
    with run l obtain v c1 where p: "parse_base128_integer m (cbs_at (Suc d) (l - 1)) = (Some v, c1)"
      by (cases "parse_base128_integer m (cbs_at (Suc d) (l - 1))";
          cases "fst (parse_base128_integer m (cbs_at (Suc d) (l - 1)))") auto
    with run l True have v: "unat v < 2 ^ 29" "31 \<le> unat v" and tag: "tag = ?hi OR ucast v" "c' = c1"
      by (auto split: if_splits)
    have uv: "unat (ucast v :: u32) = unat v" using v(1) by (simp add: unat_ucast)
    have "unat (tag AND CBS_ASN1_TAG_NUMBER_MASK) = unat v"
      "ucast (drop_bit 24 tag) AND 0xe0 = ?b AND 0xe0"
      using tag_parts [of "ucast v" ?b] v(1) uv unfolding tag by simp_all
    moreover have "(?b AND 0xe0) OR 0x1f = ?b" using byte_split [of ?b] True by simp
    ultimately have id: "der_ident tag = ?b # base128 (unat v)"
      using v(2) by (simp add: der_ident_def CBS_ASN1_TAG_SHIFT_def Let_def)
    show ?thesis using parse_base128_sound [OF p] l unfolding id tag(2) c by auto
  next
    case False
    with run l have tag: "tag = ?hi OR ucast (?b AND 0x1f)" and c': "c' = cbs_at (Suc d) (l - 1)"
      by (auto split: if_splits)
    let ?x = "ucast (?b AND 0x1f) :: u32"
    have b: "?b AND 0x1f = take_bit 5 ?b" by (simp add: tag_masks take_bit_eq_mask)
    have "unat (?b AND 0x1f) < 32" unfolding b by (simp only: unat_take_bit) simp
    with False have lt: "unat (?b AND 0x1f) < 31" by (cases "unat (?b AND 0x1f) = 31") (auto simp: word_unat_eq_iff)
    then have ux: "unat ?x = unat (?b AND 0x1f)" by (simp add: unat_ucast)
    with lt have "tag AND CBS_ASN1_TAG_NUMBER_MASK = ?x" "ucast (drop_bit 24 tag) AND 0xe0 = ?b AND 0xe0"
      using tag_parts [of ?x ?b] unfolding tag by simp_all
    then have "der_ident tag = [(?b AND 0xe0) OR of_nat (unat (?b AND 0x1f))]"
      using lt ux by (simp add: der_ident_def CBS_ASN1_TAG_SHIFT_def Let_def)
    then have "der_ident tag = [?b]" using byte_split [of ?b] word_of_unat [of "?b AND 0x1f"] by simp
    with l c' show ?thesis unfolding c by simp
  qed
qed


section \<open>Lengths and elements\<close>

definition der_len_len :: "nat \<Rightarrow> nat" where
  "der_len_len n = (if n \<le> 0xff then 1 else if n \<le> 0xffff then 2 else if n \<le> 0xffffff then 3 else 4)"

definition der_length :: "nat \<Rightarrow> bytes" where
  "der_length n =
     (if n < 0x80 then [of_nat n] else of_nat (0x80 + der_len_len n) # be_bytes (der_len_len n) n)"

definition der_header :: "u32 \<Rightarrow> nat \<Rightarrow> bytes" where
  "der_header tag n = der_ident tag @ der_length n"

definition der_element :: "u32 \<Rightarrow> bytes \<Rightarrow> bytes" where
  "der_element tag body = der_header tag (length body) @ body"

lemma der_len_len_range: "1 \<le> der_len_len n" "der_len_len n \<le> 4"
  by (auto simp: der_len_len_def)

lemma der_len_len_bound: "n < 2 ^ 32 \<Longrightarrow> n < 256 ^ der_len_len n"
  by (auto simp: der_len_len_def)

lemma der_len_len_minimal: "256 ^ (k - 1) \<le> n \<Longrightarrow> n < 256 ^ k \<Longrightarrow> 1 \<le> k \<Longrightarrow> k \<le> 4 \<Longrightarrow> der_len_len n = k"
proof -
  assume a: "256 ^ (k - 1) \<le> n" "n < 256 ^ k" "1 \<le> k" "k \<le> 4"
  then consider "k = 1" | "k = 2" | "k = 3" | "k = 4" by linarith
  then show ?thesis using a(1,2) by cases (simp_all add: der_len_len_def)
qed

lemma der_length_pos: "1 \<le> length (der_length n)"
  by (simp add: der_length_def)

lemma base128_hi_length: "n < 128 ^ k \<Longrightarrow> length (base128_hi n) \<le> k"
proof (induction k arbitrary: n)
  case (Suc k)
  then have "n div 128 < 128 ^ k" by (simp add: less_mult_imp_div_less mult.commute)
  with Suc.IH [of "n div 128"] show ?case by (cases "n = 0") (simp_all add: base128_hi_step)
qed simp

lemma base128_length: "n < 2 ^ 29 \<Longrightarrow> length (base128 n) \<le> 5"
  using base128_hi_length [of "n div 128" 4] by (simp add: base128_def)

lemma der_ident_length: "1 \<le> length (der_ident tag)" "length (der_ident tag) \<le> 6"
  using base128_length [OF tag_number_less, of tag] by (auto simp: der_ident_def Let_def)

lemma der_header_length: "length (der_header tag n) \<le> 11"
  using der_ident_length(2) [of tag] der_len_len_range(2) [of n] by (simp add: der_header_def der_length_def)

lemma take_bit_7F: "unat (b AND 0x7f) = unat b mod 128" for b :: byte
  by (simp only: word_and_mask_numeral unat_take_bit) simp

lemma drop_bit_zero_iff: "drop_bit (k * 8) v = 0 \<longleftrightarrow> unat v < 256 ^ k" for v :: "'a::len word"
proof -
  have "(2::nat) ^ (k * 8) = 256 ^ k" using power_mult [of "2::nat" 8 k] by (simp add: mult.commute)
  then show ?thesis by (simp add: word_unat_eq_iff unat_drop_bit div_eq_0_iff)
qed

text \<open>The length octets behind the tag, as the DER parser sees them.\<close>

lemma any_element_der_at:
  assumes "parse_asn1_tag m (cbs_at d l) = (Some tag, cbs_at (d + t) (l - t))" and "t \<le> l"
  shows "cbs_get_any_asn1_element m (cbs_at d l) False =
    (if l = t then (None, cbs_at d l)
     else let b = unat (m (d + t)); k = b mod 128 in
       if b < 128 then asn1_element (cbs_at d l) (size_add b (t + 1)) tag (t + 1) False
       else if k = 0 \<or> 4 < k \<or> l - t - 1 < k then (None, cbs_at d l)
       else let len = be_value (region m (d + t + 1) k) in
         if len < 128 \<or> len < 256 ^ (k - 1) \<or> size_add (size_add len (t + 1)) k < len
         then (None, cbs_at d l)
         else asn1_element (cbs_at d l) (size_add len (size_add (t + 1) k)) tag (size_add (t + 1) k) False)"
proof (cases "l = t")
  case True
  with assms show ?thesis by (simp add: cbs_get_any_asn1_element_def CBS_get_u8_at)
next
  case False
  let ?k = "unat (m (d + t) AND 0x7f)" and ?L = "cbs_at (Suc (d + t)) (l - Suc t)"
  have u8: "CBS_get_u8 m (cbs_at (d + t) (l - t)) = (Some (m (d + t)), ?L)"
    using False assms(2) by (simp add: CBS_get_u8_at)
  have h: "l - (l - Suc t) = Suc t" using False assms(2) by simp
  have gu: "cbs_get_u m ?L ?k = (if l - Suc t < ?k then (None, ?L)
      else (Some (get_u_loop (region m (Suc (d + t)) ?k) 0), cbs_at (Suc (d + t) + ?k) (l - Suc t - ?k)))"
    by (simp add: cbs_get_u_def cbs_get_at)
  have val: "unat (get_u_loop (region m (Suc (d + t)) ?k) 0) = be_value (region m (Suc (d + t)) ?k)"
    if "?k \<le> 4" using that by (intro get_u_loop_be) simp
  have k: "?k = unat (m (d + t)) mod 128" by (rule take_bit_7F)
  consider "unat (m (d + t)) < 128" | "128 \<le> unat (m (d + t))" "?k = 0 \<or> 4 < ?k"
    | "128 \<le> unat (m (d + t))" "\<not> (?k = 0 \<or> 4 < ?k)" "l - Suc t < ?k"
    | "128 \<le> unat (m (d + t))" "\<not> (?k = 0 \<or> 4 < ?k)" "\<not> l - Suc t < ?k" by linarith
  then show ?thesis
  proof cases
    case 1
    then have "m (d + t) AND 0x80 = 0" using word_and_80 [of "m (d + t)"] by auto
    with 1 False show ?thesis
      by (simp add: cbs_get_any_asn1_element_def assms(1) u8 h Let_def)
  next
    case 2
    then have "m (d + t) AND 0x80 \<noteq> 0" using word_and_80 [of "m (d + t)"] by auto
    with 2 False show ?thesis
      by (auto simp: cbs_get_any_asn1_element_def assms(1) u8 h Let_def k)
  next
    case 3
    then have "m (d + t) AND 0x80 \<noteq> 0" using word_and_80 [of "m (d + t)"] by auto
    with 3 False show ?thesis
      by (simp add: cbs_get_any_asn1_element_def assms(1) u8 h Let_def gu) (simp add: k)
  next
    case 4
    then have b: "m (d + t) AND 0x80 \<noteq> 0" using word_and_80 [of "m (d + t)"] by auto
    show ?thesis
      using 4 False b val
      by (simp add: cbs_get_any_asn1_element_def assms(1) u8 h Let_def gu drop_bit_zero_iff word_less_nat_alt) (simp add: k)
  qed
qed


lemma asn1_element_at:
  "n \<le> l \<Longrightarrow> asn1_element (cbs_at d l) n tag h b = (Some (cbs_at d n, tag, h, b), cbs_at (d + n) (l - n))"
  by (simp add: asn1_element_def CBS_get_bytes_at)

lemma der_element_complete:
  assumes "bytes_at m d (der_element tag body)" and "length (der_element tag body) \<le> l"
    and "length body < 2 ^ 32"
  shows "cbs_get_any_asn1_element m (cbs_at d l) False =
     (Some (cbs_at d (length (der_element tag body)), tag, length (der_header tag (length body)), False),
      cbs_at (d + length (der_element tag body)) (l - length (der_element tag body)))"
proof -
  let ?t = "length (der_ident tag)" and ?n = "length body"
  have t: "?t \<le> 6" by (rule der_ident_length)
  have tl: "?t < l" using assms(2) der_length_pos [of "length body"] by (simp add: der_element_def der_header_def)
  have "parse_asn1_tag m (cbs_at d l) = (Some tag, cbs_at (d + ?t) (l - ?t))"
    using assms(1) tl by (intro parse_asn1_tag_complete) (simp_all add: der_element_def der_header_def)
  note el = any_element_der_at [OF this less_imp_le [OF tl]]
  show ?thesis
  proof (cases "?n < 0x80")
    case True
    then have "unat (m (d + ?t)) = ?n"
      using assms(1) by (simp add: der_element_def der_header_def der_length_def unat_of_nat)
    with True tl t assms(2) show ?thesis
      by (simp add: el size_add_exact SIZE_LIMIT_def asn1_element_at der_element_def der_header_def
          der_length_def Let_def add.commute)
  next
    case False
    let ?k = "der_len_len ?n"
    note k = der_len_len_range [of ?n]
    have "m (d + ?t) = of_nat (0x80 + ?k)" and be: "bytes_at m (Suc (d + ?t)) (be_bytes ?k ?n)"
      using False assms(1) by (simp_all add: der_element_def der_header_def der_length_def)
    with k have b: "unat (m (d + ?t)) = 128 + ?k" by (simp add: unat_of_nat del: of_nat_add)
    from be have "region m (Suc (d + ?t)) ?k = be_bytes ?k ?n" using bytes_atD by fastforce
    then have len: "be_value (region m (Suc (d + ?t)) ?k) = ?n"
      using der_len_len_bound [OF assms(3)] by (simp add: be_value_bytes)
    have min: "\<not> ?n < 256 ^ (?k - 1)" using False by (cases body) (auto simp: der_len_len_def)
    have room: "length (der_element tag body) = ?n + (?t + 1 + ?k)"
      using False by (simp add: der_element_def der_header_def der_length_def)
    have s: "size_add ?n (Suc ?t) = Suc (?n + ?t)"
      "size_add (Suc (?n + ?t)) ?k = Suc (?n + (?t + ?k))"
      "size_add (Suc ?t) ?k = Suc (?t + ?k)" "size_add ?n (Suc (?t + ?k)) = Suc (?n + (?t + ?k))"
      using t k assms(3) by (simp_all add: size_add_exact SIZE_LIMIT_def)
    have kmod: "(128 + ?k) mod 128 = ?k" using k by simp
    show ?thesis
      using tl False assms(2) k min unfolding el Let_def
      by (simp add: b kmod len s room asn1_element_at) (simp add: der_header_def der_length_def)
  qed
qed

lemma der_element_sound:
  assumes "cbs_get_any_asn1_element m (cbs_at d l) False = (Some (out, tag, h, ber), c')"
  shows "\<exists>body. length body < 2 ^ 32 \<and> bytes_at m d (der_element tag body) \<and>
     length (der_element tag body) \<le> l \<and> h = length (der_header tag (length body)) \<and>
     out = cbs_at d (length (der_element tag body)) \<and>
     c' = cbs_at (d + length (der_element tag body)) (l - length (der_element tag body))"
proof -
  from assms(1) obtain tag' c1 where "parse_asn1_tag m (cbs_at d l) = (Some tag', c1)"
    by (auto simp: cbs_get_any_asn1_element_def split: prod.splits option.splits)
  moreover from this assms(1) have "tag' = tag"
    by (auto simp: cbs_get_any_asn1_element_def Let_def dest!: asn1_element_split
        split: prod.splits option.splits if_splits)
  ultimately have p: "parse_asn1_tag m (cbs_at d l) = (Some tag, c1)" by simp
  let ?t = "length (der_ident tag)"
  from parse_asn1_tag_sound [OF p] have id: "bytes_at m d (der_ident tag)" "?t \<le> l"
    and c1: "c1 = cbs_at (d + ?t) (l - ?t)" by simp_all
  note t = der_ident_length(2) [of tag]
  note run = assms(1) [unfolded any_element_der_at [OF p [unfolded c1] id(2)]]
  let ?b = "unat (m (d + ?t))"
  from run have tl: "?t < l" using id(2) by (auto split: if_splits)
  show ?thesis
  proof (cases "?b < 128")
    case True
    define body where "body = region m (Suc (d + ?t)) ?b"
    then have body: "bytes_at m (Suc (d + ?t)) body" "length body = ?b" by simp_all
    have n: "size_add ?b (Suc ?t) = ?b + Suc ?t" using True t by (simp add: size_add_exact SIZE_LIMIT_def)
    from run tl True have e: "asn1_element (cbs_at d l) (?b + Suc ?t) tag (Suc ?t) False = (Some (out, tag, h, ber), c')"
      by (simp add: n)
    have hd: "der_length ?b = [m (d + ?t)]"
      using True word_of_unat [of "m (d + ?t)" ?b] by (simp add: der_length_def)
    have el: "der_element tag body = der_ident tag @ m (d + ?t) # body"
      by (simp add: der_element_def der_header_def hd body)
    show ?thesis
      using asn1_element_split [OF e] True id body
      by (intro exI [of _ body]) (auto simp: el der_header_def hd CBS_init_def add.commute)
  next
    case False
    let ?k = "?b mod 128"
    define ls where "ls = region m (d + ?t + 1) ?k"
    let ?len = "be_value ls"
    define body where "body = region m (d + ?t + 1 + ?k) ?len"
    have ls: "bytes_at m (Suc (d + ?t)) ls" "length ls = ?k" by (simp_all add: ls_def)
    have body: "bytes_at m (Suc (d + ?t) + ?k) body" "length body = ?len" by (simp_all add: body_def)
    from run tl False have k: "1 \<le> ?k" "?k \<le> 4" and room: "?k \<le> l - ?t - 1"
      and len: "\<not> ?len < 128" "\<not> ?len < 256 ^ (?k - 1)"
      and e: "asn1_element (cbs_at d l) (size_add ?len (size_add (?t + 1) ?k)) tag (size_add (?t + 1) ?k) False
                = (Some (out, tag, h, ber), c')"
      by (auto simp: Let_def ls_def split: if_splits)
    have lt: "?len < 256 ^ ?k" using be_value_less [of ls] ls by simp
    also have "(256::nat) ^ ?k \<le> 256 ^ 4" using k(2) by (intro power_increasing) simp_all
    finally have len32: "?len < 2 ^ 32" by simp
    have s: "size_add (?t + 1) ?k = ?t + 1 + ?k" "size_add ?len (?t + 1 + ?k) = ?len + (?t + 1 + ?k)"
      using t k len32 by (simp_all add: size_add_exact SIZE_LIMIT_def)
    have ll: "der_len_len ?len = ?k"
      using len(2) lt k by (intro der_len_len_minimal) simp_all
    have "128 + ?k = ?b" by (rule mod128_high) (use False in simp_all)
    with word_of_unat [of "m (d + ?t)"] have b: "of_nat (128 + ?k) = m (d + ?t)" by simp
    have hd: "der_length ?len = m (d + ?t) # ls"
      using len(1) be_bytes_value [of ls] b ls by (simp add: der_length_def ll)
    have el: "der_element tag body = der_ident tag @ m (d + ?t) # ls @ body"
      by (simp add: der_element_def der_header_def hd body)
    show ?thesis
      using asn1_element_split [OF e [unfolded s]] id len32 room tl ls body
      by (intro exI [of _ body]) (auto simp: el der_header_def hd CBS_init_def ac_simps)
  qed
qed


lemma der_element_length: "2 \<le> length (der_element tag body)"
  using der_ident_length(1) [of tag] der_length_pos [of "length body"]
  by (simp add: der_element_def der_header_def)

lemma any_asn1_element_decreases:
  assumes "CBS_get_any_asn1_element m c = (Some v, c')"
  shows "cbs_len c' < cbs_len c"
proof -
  obtain d l where c: "c = cbs_at d l" by (cases c)
  from assms obtain out tag h ber where
    "cbs_get_any_asn1_element m (cbs_at d l) False = (Some (out, tag, h, ber), c')"
    unfolding c CBS_get_any_asn1_element_def
    by (cases "cbs_get_any_asn1_element m (cbs_at d l) False";
        cases "fst (cbs_get_any_asn1_element m (cbs_at d l) False)") auto
  from der_element_sound [OF this] obtain body where
    "length (der_element tag body) \<le> l" "c' = cbs_at (d + length (der_element tag body)) (l - length (der_element tag body))"
    by blast
  with der_element_length [of tag body] show ?thesis unfolding c by simp
qed

section \<open>Properties\<close>

text \<open>
  C6: the DER parser accepts an element exactly when the input starts with the distinguished
  encoding of its tag, its length and its contents: no other encoding of a tag or a length is
  accepted, and every distinguished one (contents below \<open>2 ^ 32\<close> bytes) is.
\<close>

theorem der_parser_canonical:
  "CBS_get_any_asn1_element m (cbs_at d l) = (Some (out, tag, h), c') \<longleftrightarrow>
     (\<exists>body. length body < 2 ^ 32 \<and> bytes_at m d (der_element tag body) \<and>
        length (der_element tag body) \<le> l \<and> h = length (der_header tag (length body)) \<and>
        out = cbs_at d (length (der_element tag body)) \<and>
        c' = cbs_at (d + length (der_element tag body)) (l - length (der_element tag body)))"
proof
  assume "CBS_get_any_asn1_element m (cbs_at d l) = (Some (out, tag, h), c')"
  then obtain ber where "cbs_get_any_asn1_element m (cbs_at d l) False = (Some (out, tag, h, ber), c')"
    unfolding CBS_get_any_asn1_element_def
    by (cases "cbs_get_any_asn1_element m (cbs_at d l) False";
        cases "fst (cbs_get_any_asn1_element m (cbs_at d l) False)") auto
  from der_element_sound [OF this]
  show "\<exists>body. length body < 2 ^ 32 \<and> bytes_at m d (der_element tag body) \<and>
        length (der_element tag body) \<le> l \<and> h = length (der_header tag (length body)) \<and>
        out = cbs_at d (length (der_element tag body)) \<and>
        c' = cbs_at (d + length (der_element tag body)) (l - length (der_element tag body))" .
next
  assume "\<exists>body. length body < 2 ^ 32 \<and> bytes_at m d (der_element tag body) \<and>
        length (der_element tag body) \<le> l \<and> h = length (der_header tag (length body)) \<and>
        out = cbs_at d (length (der_element tag body)) \<and>
        c' = cbs_at (d + length (der_element tag body)) (l - length (der_element tag body))"
  then show "CBS_get_any_asn1_element m (cbs_at d l) = (Some (out, tag, h), c')"
    using der_element_complete [of m d tag _ l] by (auto simp: CBS_get_any_asn1_element_def)
qed

section \<open>Nothing outside the input\<close>

text \<open>
  A reader reads inside \<open>c\<close> if it does the same in two memories that agree on the bytes of \<open>c\<close> and leaves a part of
  \<open>c\<close>; it cuts inside \<open>c\<close> if what it hands out is a part of \<open>c\<close>, before what it leaves.
\<close>

definition reads_inside :: "(mem \<Rightarrow> cbs \<Rightarrow> 'a option \<times> cbs) \<Rightarrow> mem \<Rightarrow> mem \<Rightarrow> cbs \<Rightarrow> bool" where
  "reads_inside rd m m' c \<longleftrightarrow> rd m c = rd m' c \<and> sub_cbs (snd (rd m c)) c"

definition cuts_inside :: "(mem \<Rightarrow> cbs \<Rightarrow> 'a option \<times> cbs) \<Rightarrow> ('a \<Rightarrow> cbs) \<Rightarrow> mem \<Rightarrow> mem \<Rightarrow> cbs \<Rightarrow> bool" where
  "cuts_inside rd piece m m' c \<longleftrightarrow> reads_inside rd m m' c \<and>
     (case rd m c of
        (Some v, c') \<Rightarrow> sub_cbs (piece v) c \<and> cbs_data (piece v) + cbs_len (piece v) \<le> cbs_data c'
      | (None, c') \<Rightarrow> True)"

lemma reader_inside:
  assumes "cbs_reader rd" and "region m (cbs_data c) (cbs_len c) = region m' (cbs_data c) (cbs_len c)"
  shows "reads_inside rd m m' c"
  unfolding reads_inside_def using cbs_reader.no_overread [OF assms] cbs_reader.within [OF assms(1)] by blast

lemma splitter_inside:
  assumes sp: "cbs_splitter rd piece" and eq: "region m (cbs_data c) (cbs_len c) = region m' (cbs_data c) (cbs_len c)"
  shows "cuts_inside rd piece m m' c"
proof -
  have "reads_inside rd m m' c" by (rule reader_inside [OF cbs_splitter.axioms(1) [OF sp] eq])
  then show ?thesis
    using cbs_splitter.piece_within [OF sp] cbs_splitter.piece_before [OF sp]
    by (cases "rd m c"; cases "fst (rd m c)") (simp_all add: cuts_inside_def)
qed

lemma optional_piece:
  "CBS_get_optional_asn1 m c tag = (Some (Some out), c') \<Longrightarrow> sub_cbs out c \<and> cbs_data out + cbs_len out \<le> cbs_data c'"
  using get_asn1.piece_within [of m c tag True out c'] get_asn1.piece_before [of m c tag True out c']
  by (cases "CBS_get_asn1 m c tag"; cases "fst (CBS_get_asn1 m c tag)")
     (auto simp: CBS_get_optional_asn1_def CBS_get_asn1_def split: if_splits)

text \<open>
  C29: the ASN.1 readers look at no byte outside the \<open>CBS\<close> they are given and leave a \<open>CBS\<close> inside it. Those that
  hand out an element or its contents hand out a \<open>CBS\<close> inside it, before what is left.
\<close>

theorem asn1_readers_stay_inside:
  assumes "region m (cbs_data c) (cbs_len c) = region m' (cbs_data c) (cbs_len c)"
  shows "cuts_inside CBS_get_any_asn1_element fst m m' c \<and>
    cuts_inside CBS_get_any_ber_asn1_element fst m m' c \<and>
    cuts_inside CBS_get_any_asn1 fst m m' c \<and>
    cuts_inside (\<lambda>m c. CBS_get_asn1 m c tag) (\<lambda>out. out) m m' c \<and>
    cuts_inside (\<lambda>m c. CBS_get_asn1_element m c tag) (\<lambda>out. out) m m' c \<and>
    reads_inside CBS_get_asn1_int64 m m' c \<and>
    reads_inside CBS_get_asn1_uint64 m m' c \<and>
    reads_inside CBS_get_asn1_bool m m' c \<and>
    reads_inside (\<lambda>m c. CBS_get_optional_asn1 m c tag) m m' c \<and>
    (\<forall>out c'. CBS_get_optional_asn1 m c tag = (Some (Some out), c') \<longrightarrow>
       sub_cbs out c \<and> cbs_data out + cbs_len out \<le> cbs_data c')"
  unfolding CBS_get_any_ber_asn1_element_def [abs_def] CBS_get_asn1_def CBS_get_asn1_element_def
  by (intro conjI allI impI splitter_inside [OF _ assms] reader_inside [OF _ assms] optional_piece
      der_element.cbs_splitter_axioms any_element.cbs_splitter_axioms get_any_asn1.cbs_splitter_axioms
      get_asn1.cbs_splitter_axioms asn1_int64.cbs_reader_axioms asn1_uint64.cbs_reader_axioms asn1_bool.cbs_reader_axioms
      optional_asn1.cbs_reader_axioms)
    (simp_all add: optional_piece)

theorem asn1_readers_stay_inside_witness:
  "cuts_inside (\<lambda>m c. CBS_get_asn1 m c 2) (\<lambda>out. out) (\<lambda>i. [2, 1, 5, 7] ! i) (\<lambda>i. [2, 1, 5, 8] ! i) (cbs_at 0 3)"
  using asn1_readers_stay_inside [of "\<lambda>i. [2, 1, 5, 7] ! i" "cbs_at 0 3" "\<lambda>i. [2, 1, 5, 8] ! i" 2]
  by (simp add: numeral_eq_Suc)

end
