(* ===== verification/Ssl_Cbb.thy ===== *)
theory Ssl_Cbb
  imports Ssl_Der
begin

text \<open>
  The byte string builder of BoringSSL, \<open>crypto/bytestring/cbb.c\<close>. All \<open>CBB\<close>s of one output
  share one buffer; each has at most one child, whose length prefix is pending. The state keeps
  the buffer and the chain of linked \<open>CBB\<close>s, innermost child first; a \<open>CBB\<close> is named by its
  depth in the chain, 0 for the top-level one. A \<open>CBB\<close> that has been flushed has a null \<open>base\<close>
  pointer in C and is beyond the end of the chain here: every operation on it fails.
\<close>

section \<open>State\<close>

record cbb_buffer =
  bbuf :: mem
  blen :: nat
  bcap :: nat
  can_resize :: bool
  berror :: bool

record cbb =
  cbb_offset :: nat
  pending_len_len :: nat
  pending_is_asn1 :: bool

record cbb_state =
  cbb_base :: "cbb_buffer option"
  cbb_chain :: "cbb list"

definition CBB_zero :: cbb where
  "CBB_zero = \<lparr>cbb_offset = 0, pending_len_len = 0, pending_is_asn1 = False\<rparr>"

text \<open>\<open>cbb_init\<close>: the allocation of the \<open>cbb_buffer_st\<close> itself (40 bytes) may fail as well.\<close>

definition cbb_init :: "(nat \<Rightarrow> bool) \<Rightarrow> mem \<Rightarrow> nat \<Rightarrow> cbb_state option" where
  "cbb_init ma buf cap =
     (if \<not> OPENSSL_malloc ma 40 then None
      else Some \<lparr>cbb_base = Some \<lparr>bbuf = buf, blen = 0, bcap = cap, can_resize = True, berror = False\<rparr>,
                 cbb_chain = [CBB_zero]\<rparr>)"

definition CBB_init :: "(nat \<Rightarrow> bool) \<Rightarrow> mem \<Rightarrow> nat \<Rightarrow> cbb_state option" where
  "CBB_init ma buf initial_capacity =
     (if 0 < initial_capacity \<and> \<not> OPENSSL_malloc ma initial_capacity then None
      else cbb_init ma buf initial_capacity)"

definition CBB_init_fixed :: "(nat \<Rightarrow> bool) \<Rightarrow> mem \<Rightarrow> nat \<Rightarrow> cbb_state option" where
  "CBB_init_fixed ma buf len =
     (case cbb_init ma buf len of
        None \<Rightarrow> None
      | Some s \<Rightarrow> Some (s\<lparr>cbb_base := map_option (\<lambda>b. b\<lparr>can_resize := False\<rparr>) (cbb_base s)\<rparr>))"

text \<open>\<open>CBB_cleanup\<close> of the top-level \<open>CBB\<close>; it does nothing on a child.\<close>

definition CBB_cleanup :: "nat \<Rightarrow> cbb_state \<Rightarrow> cbb_state" where
  "CBB_cleanup d s = (if d \<noteq> 0 then s else s\<lparr>cbb_base := None, cbb_chain := []\<rparr>)"

section \<open>The buffer\<close>

definition cbb_buffer_reserve :: "(nat \<Rightarrow> bool) \<Rightarrow> cbb_buffer \<Rightarrow> nat \<Rightarrow> bool \<times> cbb_buffer" where
  "cbb_buffer_reserve ma b n =
     (let newlen = size_add (blen b) n; err = (False, b\<lparr>berror := True\<rparr>) in
      if newlen < blen b then err
      else if bcap b < newlen then
        let newcap0 = size_add (bcap b) (bcap b);
            newcap = (if newcap0 < bcap b \<or> newcap0 < newlen then newlen else newcap0)
        in if \<not> can_resize b then err
           else if \<not> OPENSSL_malloc ma newcap then err
           else (True, b\<lparr>bcap := newcap\<rparr>)
      else (True, b))"

definition cbb_buffer_add :: "(nat \<Rightarrow> bool) \<Rightarrow> cbb_buffer \<Rightarrow> nat \<Rightarrow> bool \<times> cbb_buffer" where
  "cbb_buffer_add ma b n =
     (case cbb_buffer_reserve ma b n of
        (False, b') \<Rightarrow> (False, b')
      | (True, b') \<Rightarrow> (True, b'\<lparr>blen := size_add (blen b') n\<rparr>))"

text \<open>
  The loops \<open>for (i = n - 1; i < n; i--) { buf[p + i] = v; v >>= 8; }\<close>: the memory and what is
  left of \<open>v\<close>.
\<close>

fun put_be :: "mem \<Rightarrow> nat \<Rightarrow> nat \<Rightarrow> nat \<Rightarrow> mem \<times> nat" where
  "put_be m p 0 v = (m, v)"
| "put_be m p (Suc i) v = put_be (m(p + i := of_nat v)) p i (v div 256)"

definition cbb_buffer_add_u :: "(nat \<Rightarrow> bool) \<Rightarrow> cbb_buffer \<Rightarrow> nat \<Rightarrow> nat \<Rightarrow> bool \<times> cbb_buffer" where
  "cbb_buffer_add_u ma b v len_len =
     (if len_len = 0 then (True, b)
      else case cbb_buffer_add ma b len_len of
             (False, b') \<Rightarrow> (False, b')
           | (True, b') \<Rightarrow>
               (case put_be (bbuf b') (blen b) len_len v of
                  (buf, rest) \<Rightarrow>
                    if rest \<noteq> 0 then (False, b'\<lparr>bbuf := buf, berror := True\<rparr>)
                    else (True, b'\<lparr>bbuf := buf\<rparr>)))"

section \<open>Flushing\<close>

definition cbb_child :: "nat \<Rightarrow> cbb_state \<Rightarrow> cbb option" where
  "cbb_child d s =
     (let n = length (cbb_chain s) in if Suc d < n then Some (cbb_chain s ! (n - 2 - d)) else None)"

text \<open>Unlinks everything below depth \<open>d\<close>.\<close>

definition cbb_unlink :: "nat \<Rightarrow> cbb_state \<Rightarrow> cbb_state" where
  "cbb_unlink d s = s\<lparr>cbb_chain := drop (length (cbb_chain s) - Suc d) (cbb_chain s)\<rparr>"

text \<open>The number of length octets and the first of them, for the contents' length \<open>len\<close>.\<close>

definition asn1_len_octets :: "nat \<Rightarrow> nat \<times> byte" where
  "asn1_len_octets len =
     (if 0xffffff < len then (5, 0x80 OR 4)
      else if 0xffff < len then (4, 0x80 OR 3)
      else if 0xff < len then (3, 0x80 OR 2)
      else if 0x7f < len then (2, 0x80 OR 1)
      else (1, of_nat len))"

text \<open>
  The \<open>pending_is_asn1\<close> branch of \<open>CBB_flush\<close>: the buffer, the child's new \<open>offset\<close> and
  \<open>pending_len_len\<close> and what is left of \<open>len\<close>; \<open>None\<close> for \<open>goto err\<close>.
\<close>

definition flush_asn1 ::
  "(nat \<Rightarrow> bool) \<Rightarrow> cbb_buffer \<Rightarrow> cbb \<Rightarrow> nat \<Rightarrow> nat \<Rightarrow> (nat \<times> nat \<times> nat) option \<times> cbb_buffer" where
  "flush_asn1 ma b child child_start len =
     (if 0xfffffffe < len then (None, b)
      else
        let (len_len, initial_length_byte) = asn1_len_octets len;
            extra_bytes = len_len - 1;
            (ok, b1) = (if len_len \<noteq> 1 then cbb_buffer_add ma b extra_bytes else (True, b))
        in if \<not> ok then (None, b1)
           else
             let moved = (if len_len \<noteq> 1
                          then mem_write (bbuf b1) (child_start + extra_bytes) (region (bbuf b1) child_start len)
                          else bbuf b1)
             in (Some (Suc (cbb_offset child), len_len - 1, if len_len \<noteq> 1 then len else 0),
                 b1\<lparr>bbuf := moved(cbb_offset child := initial_length_byte)\<rparr>))"

definition cbb_fail :: "cbb_state \<Rightarrow> bool \<times> cbb_state" where
  "cbb_fail s = (False, s\<lparr>cbb_base := map_option (\<lambda>b. b\<lparr>berror := True\<rparr>) (cbb_base s)\<rparr>)"

text \<open>The part of \<open>CBB_flush\<close> behind the recursive call, for the buffer \<open>b\<close> and the child.\<close>

definition flush_child ::
  "(nat \<Rightarrow> bool) \<Rightarrow> nat \<Rightarrow> cbb_state \<Rightarrow> cbb_buffer \<Rightarrow> cbb \<Rightarrow> bool \<times> cbb_state" where
  "flush_child ma d s b child =
     (let child_start = size_add (cbb_offset child) (pending_len_len child) in
      if child_start < cbb_offset child \<or> blen b < child_start then cbb_fail s
      else
        let len = blen b - child_start;
            (r, b1) = (if pending_is_asn1 child then flush_asn1 ma b child child_start len
                       else (Some (cbb_offset child, pending_len_len child, len), b))
        in case r of
             None \<Rightarrow> cbb_fail (s\<lparr>cbb_base := Some b1\<rparr>)
           | Some (offset, pending, rest) \<Rightarrow>
               (case put_be (bbuf b1) offset pending rest of
                  (buf, rest') \<Rightarrow>
                    let s1 = s\<lparr>cbb_base := Some (b1\<lparr>bbuf := buf\<rparr>)\<rparr> in
                    if rest' \<noteq> 0 then cbb_fail s1 else (True, cbb_unlink d s1)))"

function CBB_flush :: "(nat \<Rightarrow> bool) \<Rightarrow> nat \<Rightarrow> cbb_state \<Rightarrow> bool \<times> cbb_state" where
  "CBB_flush ma d s =
     (if length (cbb_chain s) \<le> d then (False, s)
      else case cbb_base s of
        None \<Rightarrow> (False, s)
      | Some b \<Rightarrow>
          if berror b then (False, s)
          else case cbb_child d s of
            None \<Rightarrow> (True, s)
          | Some child \<Rightarrow>
              if pending_len_len child = 0 then (True, s)
              else
                (case CBB_flush ma (Suc d) s of
                   (False, s1) \<Rightarrow> cbb_fail s1
                 | (True, s1) \<Rightarrow>
                     (case cbb_base s1 of
                        None \<Rightarrow> (False, s1)
                      | Some b1 \<Rightarrow> flush_child ma d s1 b1 child)))"
  by pat_completeness auto
termination
  by (relation "measure (\<lambda>(_, d, s). length (cbb_chain s) - d)") auto

declare CBB_flush.simps [simp del]

section \<open>Adding\<close>

text \<open>\<open>if (!CBB_flush(cbb)) return 0;\<close> followed by an operation on the buffer.\<close>

definition cbb_with :: "(cbb_buffer \<Rightarrow> bool \<times> cbb_buffer) \<Rightarrow> cbb_state \<Rightarrow> bool \<times> cbb_state" where
  "cbb_with f s =
     (case cbb_base s of
        None \<Rightarrow> (False, s)
      | Some b \<Rightarrow> (case f b of (ok, b') \<Rightarrow> (ok, s\<lparr>cbb_base := Some b'\<rparr>)))"

fun cbb_seq :: "bool \<times> cbb_state \<Rightarrow> (cbb_state \<Rightarrow> bool \<times> cbb_state) \<Rightarrow> bool \<times> cbb_state" where
  "cbb_seq (False, s) g = (False, s)"
| "cbb_seq (True, s) g = g s"

definition CBB_add_u8 :: "(nat \<Rightarrow> bool) \<Rightarrow> nat \<Rightarrow> byte \<Rightarrow> cbb_state \<Rightarrow> bool \<times> cbb_state" where
  "CBB_add_u8 ma d v s =
     cbb_seq (CBB_flush ma d s) (cbb_with (\<lambda>b. cbb_buffer_add_u ma b (unat v) 1))"

definition CBB_add_u16 :: "(nat \<Rightarrow> bool) \<Rightarrow> nat \<Rightarrow> u16 \<Rightarrow> cbb_state \<Rightarrow> bool \<times> cbb_state" where
  "CBB_add_u16 ma d v s =
     cbb_seq (CBB_flush ma d s) (cbb_with (\<lambda>b. cbb_buffer_add_u ma b (unat v) 2))"

definition CBB_add_u16le :: "(nat \<Rightarrow> bool) \<Rightarrow> nat \<Rightarrow> u16 \<Rightarrow> cbb_state \<Rightarrow> bool \<times> cbb_state" where
  "CBB_add_u16le ma d v s = CBB_add_u16 ma d (CRYPTO_bswap2 v) s"

definition CBB_add_u24 :: "(nat \<Rightarrow> bool) \<Rightarrow> nat \<Rightarrow> u32 \<Rightarrow> cbb_state \<Rightarrow> bool \<times> cbb_state" where
  "CBB_add_u24 ma d v s =
     cbb_seq (CBB_flush ma d s) (cbb_with (\<lambda>b. cbb_buffer_add_u ma b (unat v) 3))"

definition CBB_add_u32 :: "(nat \<Rightarrow> bool) \<Rightarrow> nat \<Rightarrow> u32 \<Rightarrow> cbb_state \<Rightarrow> bool \<times> cbb_state" where
  "CBB_add_u32 ma d v s =
     cbb_seq (CBB_flush ma d s) (cbb_with (\<lambda>b. cbb_buffer_add_u ma b (unat v) 4))"

definition CBB_add_u32le :: "(nat \<Rightarrow> bool) \<Rightarrow> nat \<Rightarrow> u32 \<Rightarrow> cbb_state \<Rightarrow> bool \<times> cbb_state" where
  "CBB_add_u32le ma d v s = CBB_add_u32 ma d (CRYPTO_bswap4 v) s"

definition CBB_add_u64 :: "(nat \<Rightarrow> bool) \<Rightarrow> nat \<Rightarrow> u64 \<Rightarrow> cbb_state \<Rightarrow> bool \<times> cbb_state" where
  "CBB_add_u64 ma d v s =
     cbb_seq (CBB_flush ma d s) (cbb_with (\<lambda>b. cbb_buffer_add_u ma b (unat v) 8))"

definition CBB_add_u64le :: "(nat \<Rightarrow> bool) \<Rightarrow> nat \<Rightarrow> u64 \<Rightarrow> cbb_state \<Rightarrow> bool \<times> cbb_state" where
  "CBB_add_u64le ma d v s = CBB_add_u64 ma d (CRYPTO_bswap8 v) s"

text \<open>\<open>memcpy\<close> of \<open>bs\<close> to the space \<open>cbb_buffer_add\<close> has made.\<close>

definition buffer_append :: "(nat \<Rightarrow> bool) \<Rightarrow> bytes \<Rightarrow> cbb_buffer \<Rightarrow> bool \<times> cbb_buffer" where
  "buffer_append ma bs b =
     (case cbb_buffer_add ma b (length bs) of
        (False, b') \<Rightarrow> (False, b')
      | (True, b') \<Rightarrow> (True, b'\<lparr>bbuf := mem_write (bbuf b') (blen b) bs\<rparr>))"

definition CBB_add_bytes :: "(nat \<Rightarrow> bool) \<Rightarrow> nat \<Rightarrow> bytes \<Rightarrow> cbb_state \<Rightarrow> bool \<times> cbb_state" where
  "CBB_add_bytes ma d bs s = cbb_seq (CBB_flush ma d s) (cbb_with (buffer_append ma bs))"

text \<open>\<open>*out_data\<close> points at the old length of the buffer; the caller fills the space.\<close>

definition CBB_add_space :: "(nat \<Rightarrow> bool) \<Rightarrow> nat \<Rightarrow> nat \<Rightarrow> cbb_state \<Rightarrow> bool \<times> cbb_state" where
  "CBB_add_space ma d n s = cbb_seq (CBB_flush ma d s) (cbb_with (\<lambda>b. cbb_buffer_add ma b n))"

definition CBB_add_zeros :: "(nat \<Rightarrow> bool) \<Rightarrow> nat \<Rightarrow> nat \<Rightarrow> cbb_state \<Rightarrow> bool \<times> cbb_state" where
  "CBB_add_zeros ma d n s =
     cbb_seq (CBB_add_space ma d n s)
       (cbb_with (\<lambda>b. (True, b\<lparr>bbuf := mem_write (bbuf b) (blen b - n) (replicate n 0)\<rparr>)))"

definition CBB_reserve :: "(nat \<Rightarrow> bool) \<Rightarrow> nat \<Rightarrow> nat \<Rightarrow> cbb_state \<Rightarrow> bool \<times> cbb_state" where
  "CBB_reserve ma d n s = cbb_seq (CBB_flush ma d s) (cbb_with (\<lambda>b. cbb_buffer_reserve ma b n))"

definition CBB_did_write :: "nat \<Rightarrow> nat \<Rightarrow> cbb_state \<Rightarrow> bool \<times> cbb_state" where
  "CBB_did_write d n s =
     cbb_with (\<lambda>b.
       let newlen = size_add (blen b) n
       in if cbb_child d s \<noteq> None \<or> newlen < blen b \<or> bcap b < newlen then (False, b)
          else (True, b\<lparr>blen := newlen\<rparr>)) s"

text \<open>Links a new child with the given \<open>offset\<close>.\<close>

definition cbb_link :: "nat \<Rightarrow> cbb \<Rightarrow> cbb_state \<Rightarrow> cbb_state" where
  "cbb_link d child s = (cbb_unlink d s)\<lparr>cbb_chain := child # cbb_chain (cbb_unlink d s)\<rparr>"

definition buffer_length :: "cbb_state \<Rightarrow> nat" where
  "buffer_length s = (case cbb_base s of None \<Rightarrow> 0 | Some b \<Rightarrow> blen b)"

definition cbb_add_length_prefixed ::
  "(nat \<Rightarrow> bool) \<Rightarrow> nat \<Rightarrow> nat \<Rightarrow> cbb_state \<Rightarrow> bool \<times> cbb_state" where
  "cbb_add_length_prefixed ma d len_len s =
     cbb_seq (CBB_flush ma d s) (\<lambda>s.
       let offset = buffer_length s in
       cbb_seq (cbb_with (buffer_append ma (replicate len_len 0)) s) (\<lambda>s.
         (True, cbb_link d \<lparr>cbb_offset = offset, pending_len_len = len_len, pending_is_asn1 = False\<rparr> s)))"

definition CBB_add_u8_length_prefixed :: "(nat \<Rightarrow> bool) \<Rightarrow> nat \<Rightarrow> cbb_state \<Rightarrow> bool \<times> cbb_state" where
  "CBB_add_u8_length_prefixed ma d = cbb_add_length_prefixed ma d 1"

definition CBB_add_u16_length_prefixed :: "(nat \<Rightarrow> bool) \<Rightarrow> nat \<Rightarrow> cbb_state \<Rightarrow> bool \<times> cbb_state" where
  "CBB_add_u16_length_prefixed ma d = cbb_add_length_prefixed ma d 2"

definition CBB_add_u24_length_prefixed :: "(nat \<Rightarrow> bool) \<Rightarrow> nat \<Rightarrow> cbb_state \<Rightarrow> bool \<times> cbb_state" where
  "CBB_add_u24_length_prefixed ma d = cbb_add_length_prefixed ma d 3"

function base128_len_loop :: "u64 \<Rightarrow> nat" where
  "base128_len_loop copy = (if copy = 0 then 0 else Suc (base128_len_loop (drop_bit 7 copy)))"
  by pat_completeness auto
termination
  by (relation "measure unat") (simp_all add: drop_bit_less_word)

declare base128_len_loop.simps [simp del]

fun add_base128_loop :: "(nat \<Rightarrow> bool) \<Rightarrow> nat \<Rightarrow> u64 \<Rightarrow> nat \<Rightarrow> cbb_state \<Rightarrow> bool \<times> cbb_state" where
  "add_base128_loop ma d v 0 s = (True, s)"
| "add_base128_loop ma d v (Suc i) s =
     (let b = ucast (drop_bit (7 * i) v AND 0x7f) :: byte;
          b' = (if i \<noteq> 0 then b OR 0x80 else b)
      in cbb_seq (CBB_add_u8 ma d b' s) (add_base128_loop ma d v i))"

definition add_base128_integer :: "(nat \<Rightarrow> bool) \<Rightarrow> nat \<Rightarrow> u64 \<Rightarrow> cbb_state \<Rightarrow> bool \<times> cbb_state" where
  "add_base128_integer ma d v s =
     (let len_len = base128_len_loop v
      in add_base128_loop ma d v (if len_len = 0 then 1 else len_len) s)"

definition CBB_add_asn1 :: "(nat \<Rightarrow> bool) \<Rightarrow> nat \<Rightarrow> u32 \<Rightarrow> cbb_state \<Rightarrow> bool \<times> cbb_state" where
  "CBB_add_asn1 ma d tag s =
     cbb_seq (CBB_flush ma d s) (\<lambda>s.
       let tag_bits = ucast (drop_bit CBS_ASN1_TAG_SHIFT tag) AND 0xe0 :: byte;
           tag_number = tag AND CBS_ASN1_TAG_NUMBER_MASK
       in cbb_seq
            (if 0x1f \<le> tag_number
             then cbb_seq (CBB_add_u8 ma d (tag_bits OR 0x1f) s) (add_base128_integer ma d (ucast tag_number))
             else CBB_add_u8 ma d (tag_bits OR ucast tag_number) s)
            (\<lambda>s.
               let offset = buffer_length s in
               cbb_seq (CBB_add_u8 ma d 0 s) (\<lambda>s.
                 (True, cbb_link d \<lparr>cbb_offset = offset, pending_len_len = 1, pending_is_asn1 = True\<rparr> s))))"

definition CBB_discard_child :: "nat \<Rightarrow> cbb_state \<Rightarrow> cbb_state" where
  "CBB_discard_child d s =
     (case cbb_child d s of
        None \<Rightarrow> s
      | Some child \<Rightarrow>
          cbb_unlink d (s\<lparr>cbb_base := map_option (\<lambda>b. b\<lparr>blen := cbb_offset child\<rparr>) (cbb_base s)\<rparr>))"

text \<open>\<open>CBB_finish\<close> with non-null out-pointers: the finished bytes.\<close>

definition CBB_finish :: "(nat \<Rightarrow> bool) \<Rightarrow> nat \<Rightarrow> cbb_state \<Rightarrow> bytes option \<times> cbb_state" where
  "CBB_finish ma d s =
     (if d \<noteq> 0 then (None, s)
      else case CBB_flush ma d s of
        (False, s') \<Rightarrow> (None, s')
      | (True, s') \<Rightarrow>
          (case cbb_base s' of
             None \<Rightarrow> (None, s')
           | Some b \<Rightarrow> (Some (region (bbuf b) 0 (blen b)), CBB_cleanup d s')))"

definition CBB_data :: "nat \<Rightarrow> cbb_state \<Rightarrow> nat" where
  "CBB_data d s =
     (let c = cbb_chain s ! (length (cbb_chain s) - Suc d) in cbb_offset c + pending_len_len c)"

definition CBB_len :: "nat \<Rightarrow> cbb_state \<Rightarrow> nat" where
  "CBB_len d s = buffer_length s - CBB_data d s"

section \<open>Abstract builder\<close>

text \<open>
  What the builder stands for: a stack of open frames, innermost first, each with the kind of
  length prefix it waits for and the contents written so far.
\<close>

datatype frame_kind = Top | Prefix nat | Asn1

type_synonym frame = "frame_kind \<times> bytes"

fun kind_len :: "frame_kind \<Rightarrow> nat" where
  "kind_len Top = 0"
| "kind_len (Prefix n) = n"
| "kind_len Asn1 = 1"

fun close_frame :: "frame_kind \<Rightarrow> bytes \<Rightarrow> bytes" where
  "close_frame Top c = c"
| "close_frame (Prefix n) c = be_bytes n (length c) @ c"
| "close_frame Asn1 c = der_length (length c) @ c"

fun frame_fits :: "frame_kind \<Rightarrow> bytes \<Rightarrow> bool" where
  "frame_fits Top c = True"
| "frame_fits (Prefix n) c = (length c < 256 ^ n)"
| "frame_fits Asn1 c = (length c \<le> 0xfffffffe)"

fun pop_frame :: "frame list \<Rightarrow> frame list" where
  "pop_frame ((k, c) # (k', c') # fs) = (k', c' @ close_frame k c) # fs"
| "pop_frame fs = fs"

fun pops_fit :: "nat \<Rightarrow> frame list \<Rightarrow> bool" where
  "pops_fit 0 fs = True"
| "pops_fit (Suc n) fs = (pops_fit n fs \<and> (case (pop_frame ^^ n) fs of [] \<Rightarrow> False | (k, c) # _ \<Rightarrow> frame_fits k c))"

fun add_to_frame :: "bytes \<Rightarrow> frame list \<Rightarrow> frame list" where
  "add_to_frame bs ((k, c) # fs) = (k, c @ bs) # fs"
| "add_to_frame bs [] = []"

fun frames_ok :: "frame list \<Rightarrow> bool" where
  "frames_ok [] = False"
| "frames_ok [(k, c)] = (k = Top)"
| "frames_ok ((k, c) # fs) = (0 < kind_len k \<and> kind_len k \<le> 3 \<and> frames_ok fs)"

definition frames_size :: "frame list \<Rightarrow> nat" where
  "frames_size fs = sum_list (map (\<lambda>(k, c). kind_len k + length c) fs)"

section \<open>Representation\<close>

fun stack_rep :: "mem \<Rightarrow> nat \<Rightarrow> frame list \<Rightarrow> cbb list \<Rightarrow> bool" where
  "stack_rep m e [] [] = (e = 0)"
| "stack_rep m e ((k, c) # fs) (n # ns) =
     (length c + kind_len k \<le> e \<and> bytes_at m (e - length c) c \<and>
      cbb_offset n = e - length c - kind_len k \<and> pending_len_len n = kind_len k \<and>
      (pending_is_asn1 n \<longleftrightarrow> k = Asn1) \<and> stack_rep m (cbb_offset n) fs ns)"
| "stack_rep m e _ _ = False"

definition buffer_ok :: "cbb_buffer \<Rightarrow> bool" where
  "buffer_ok b \<longleftrightarrow> \<not> berror b \<and> blen b \<le> bcap b \<and> bcap b < SIZE_LIMIT"

definition cbb_rep :: "cbb_state \<Rightarrow> cbb_buffer \<Rightarrow> frame list \<Rightarrow> bool" where
  "cbb_rep s b fs \<longleftrightarrow> cbb_base s = Some b \<and> buffer_ok b \<and> frames_ok fs \<and>
     stack_rep (bbuf b) (blen b) fs (cbb_chain s)"

text \<open>The buffer can grow to \<open>n\<close> bytes.\<close>

definition roomy :: "(nat \<Rightarrow> bool) \<Rightarrow> nat \<Rightarrow> cbb_buffer \<Rightarrow> bool" where
  "roomy ma n b \<longleftrightarrow> n \<le> bcap b \<or> can_resize b \<and> n < 2 ^ 62 \<and> (\<forall>k. ma k)"

lemma bytes_at_cong: "bytes_at m p xs \<Longrightarrow> (\<And>i. p \<le> i \<Longrightarrow> i < p + length xs \<Longrightarrow> m' i = m i) \<Longrightarrow> bytes_at m' p xs"
  unfolding bytes_at_def using region_cong [of p "length xs" m' m] by simp

lemma stack_rep_cong: "stack_rep m e fs ns \<Longrightarrow> (\<And>i. i < e \<Longrightarrow> m' i = m i) \<Longrightarrow> stack_rep m' e fs ns"
proof (induction m e fs ns rule: stack_rep.induct)
  case (2 m e k c fs n ns)
  then have "bytes_at m' (e - length c) c" by (auto intro: bytes_at_cong)
  with 2 show ?case by auto
qed auto

lemma stack_rep_length: "stack_rep m e fs ns \<Longrightarrow> length fs = length ns"
  by (induction m e fs ns rule: stack_rep.induct) auto

lemma stack_rep_size: "stack_rep m e fs ns \<Longrightarrow> e = frames_size fs"
  by (induction m e fs ns rule: stack_rep.induct) (auto simp: frames_size_def)

lemma stack_rep_pop:
  assumes "stack_rep m e ((k, c) # (k', c') # fs) (n # n' # ns)"
    and "\<And>i. i < cbb_offset n \<Longrightarrow> m' i = m i" and "bytes_at m' (cbb_offset n) x"
  shows "stack_rep m' (cbb_offset n + length x) ((k', c' @ x) # fs) (n' # ns)"
proof -
  let ?o = "cbb_offset n"
  from assms(1) have r: "length c' + kind_len k' \<le> ?o" "bytes_at m (?o - length c') c'"
    "cbb_offset n' = ?o - length c' - kind_len k'" "pending_len_len n' = kind_len k'"
    "pending_is_asn1 n' = (k' = Asn1)" "stack_rep m (cbb_offset n') fs ns" by auto
  have "stack_rep m' (cbb_offset n') fs ns"
    by (rule stack_rep_cong [OF r(6)]) (use r(3) assms(2) in simp)
  moreover have "bytes_at m' (?o - length c') c'"
    by (rule bytes_at_cong [OF r(2)]) (use r(1) assms(2) in simp)
  ultimately show ?thesis using r assms(3) by simp
qed

lemma stack_rep_add:
  assumes "stack_rep m e fs ns" and "fs \<noteq> []"
  shows "stack_rep (mem_write m e bs) (e + length bs) (add_to_frame bs fs) ns"
proof -
  from assms obtain k c fs' n ns' where fs: "fs = (k, c) # fs'" "ns = n # ns'"
    by (cases fs; cases ns) auto
  from assms(1) fs have r: "length c + kind_len k \<le> e" "bytes_at m (e - length c) c"
    "cbb_offset n = e - length c - kind_len k" "stack_rep m (cbb_offset n) fs' ns'" by auto
  have "stack_rep (mem_write m e bs) (cbb_offset n) fs' ns'"
    by (rule stack_rep_cong [OF r(4)]) (use r in \<open>auto simp: mem_write_def\<close>)
  moreover have "bytes_at (mem_write m e bs) (e - length c) c"
    by (rule bytes_at_cong [OF r(2)]) (use r(1) in \<open>simp add: mem_write_def\<close>)
  moreover have "bytes_at (mem_write m e bs) e bs"
    by (simp add: bytes_at_def region_write_same)
  ultimately show ?thesis using assms(1) fs by simp
qed

lemma put_be_eq: "put_be m p n v = (mem_write m p (be_bytes n v), v div 256 ^ n)"
proof (induction n arbitrary: m v)
  case 0
  show ?case by (auto simp: mem_write_def fun_eq_iff)
next
  case (Suc n)
  have "mem_write (m(p + n := of_nat v)) p (be_bytes n (v div 256)) = mem_write m p (be_bytes (Suc n) v)"
    by (rule ext) (auto simp: mem_write_def nth_append)
  then show ?case by (simp only: put_be.simps Suc.IH div_mult2_eq power_Suc)
qed

section \<open>The buffer\<close>

lemma reserve_ok:
  assumes "buffer_ok b" and "roomy ma N b" and "blen b + n \<le> N"
  shows "\<exists>cap. cbb_buffer_reserve ma b n = (True, b\<lparr>bcap := cap\<rparr>) \<and> bcap b \<le> cap \<and>
           blen b + n \<le> cap \<and> cap < SIZE_LIMIT"
proof -
  have b: "blen b \<le> bcap b" "bcap b < SIZE_LIMIT" using assms(1) by (simp_all add: buffer_ok_def)
  show ?thesis
  proof (cases "blen b + n \<le> bcap b")
    case True
    with b have "size_add (blen b) n = blen b + n" by (intro size_add_exact) simp
    with True b show ?thesis
      by (intro exI [of _ "bcap b"]) (simp add: cbb_buffer_reserve_def Let_def)
  next
    case False
    with assms(2,3) have r: "can_resize b" "N < 2 ^ 62" "\<And>k. ma k" by (auto simp: roomy_def)
    have n: "blen b + n < 2 ^ 62" using r(2) assms(3) by simp
    then have s: "size_add (blen b) n = blen b + n" "size_add (bcap b) (bcap b) = 2 * bcap b"
      using False by (simp_all add: size_add_exact SIZE_LIMIT_def)
    let ?cap = "if 2 * bcap b < blen b + n then blen b + n else 2 * bcap b"
    have cap: "?cap < 2 ^ 63" "blen b + n \<le> ?cap" "bcap b \<le> ?cap" using n False by auto
    then have "OPENSSL_malloc ma ?cap"
      using r(3) by (simp add: OPENSSL_malloc_def OPENSSL_MALLOC_PREFIX_def size_add_exact SIZE_LIMIT_def)
    with cap s r(1) False show ?thesis
      by (intro exI [of _ ?cap]) (auto simp: cbb_buffer_reserve_def Let_def SIZE_LIMIT_def)
  qed
qed

lemma add_ok:
  assumes "buffer_ok b" and "roomy ma N b" and "blen b + n \<le> N"
  shows "\<exists>cap. cbb_buffer_add ma b n = (True, b\<lparr>blen := blen b + n, bcap := cap\<rparr>) \<and>
           bcap b \<le> cap \<and> blen b + n \<le> cap \<and> cap < SIZE_LIMIT"
proof -
  obtain cap where c: "cbb_buffer_reserve ma b n = (True, b\<lparr>bcap := cap\<rparr>)" "bcap b \<le> cap"
    "blen b + n \<le> cap" "cap < SIZE_LIMIT" using reserve_ok [OF assms] by blast
  then have "size_add (blen b) n = blen b + n" by (simp add: size_add_exact)
  with c show ?thesis by (intro exI [of _ cap]) (simp add: cbb_buffer_add_def)
qed

lemma roomy_grow: "roomy ma N b \<Longrightarrow> bcap b \<le> cap \<Longrightarrow> can_resize b' = can_resize b \<Longrightarrow> bcap b' = cap \<Longrightarrow> roomy ma N b'"
  by (auto simp: roomy_def)

lemma append_ok:
  assumes "buffer_ok b" and "roomy ma N b" and "blen b + length bs \<le> N"
  shows "\<exists>b'. buffer_append ma bs b = (True, b') \<and> buffer_ok b' \<and> roomy ma N b' \<and>
           blen b' = blen b + length bs \<and> bbuf b' = mem_write (bbuf b) (blen b) bs"
proof -
  obtain cap where "cbb_buffer_add ma b (length bs) = (True, b\<lparr>blen := blen b + length bs, bcap := cap\<rparr>)"
    "bcap b \<le> cap" "blen b + length bs \<le> cap" "cap < SIZE_LIMIT"
    using add_ok [OF assms] by blast
  with assms show ?thesis
    by (intro exI [of _ "b\<lparr>blen := blen b + length bs, bcap := cap, bbuf := mem_write (bbuf b) (blen b) bs\<rparr>"])
       (auto simp: buffer_append_def buffer_ok_def intro: roomy_grow)
qed

lemma add_u_append:
  assumes "v < 256 ^ n" and "0 < n"
  shows "cbb_buffer_add_u ma b v n = buffer_append ma (be_bytes n v) b"
  using assms by (auto simp: cbb_buffer_add_u_def buffer_append_def put_be_eq split: prod.splits bool.splits)


section \<open>Flushing closes frames\<close>

lemma mem_write_single: "m(p := x) = mem_write m p [x]"
  by (auto simp: mem_write_def)

lemma mem_write_below: "i < p \<Longrightarrow> mem_write m p bs i = m i"
  by (simp add: mem_write_def)

lemma bytes_at_write: "bytes_at (mem_write m p bs) p bs"
  by (simp add: bytes_at_def region_write_same)

lemma bytes_at_write_above:
  "bytes_at m q xs \<Longrightarrow> p + length bs \<le> q \<Longrightarrow> bytes_at (mem_write m p bs) q xs"
  by (rule bytes_at_cong) (auto simp: mem_write_def)

lemma asn1_len_octets_eq:
  assumes "len \<le> 0xfffffffe"
  shows "asn1_len_octets len =
     (if len < 0x80 then (1, of_nat len) else (Suc (der_len_len len), of_nat (0x80 + der_len_len len)))"
  using assms by (auto simp: asn1_len_octets_def der_len_len_def)

text \<open>What \<open>flush_asn1\<close> and the length loop leave behind for contents \<open>c\<close> behind one octet.\<close>

lemma flush_asn1_ok:
  assumes "buffer_ok b" and "roomy ma N b" and "length c \<le> 0xfffffffe"
    and "blen b = Suc (cbb_offset n) + length c" and "bytes_at (bbuf b) (Suc (cbb_offset n)) c"
    and "cbb_offset n + length (der_length (length c)) + length c \<le> N"
  shows "\<exists>off pend rest b1.
     flush_asn1 ma b n (Suc (cbb_offset n)) (length c) = (Some (off, pend, rest), b1) \<and>
     rest < 256 ^ pend \<and> buffer_ok b1 \<and> roomy ma N b1 \<and>
     blen b1 = cbb_offset n + length (der_length (length c) @ c) \<and>
     (\<forall>i < cbb_offset n. mem_write (bbuf b1) off (be_bytes pend rest) i = bbuf b i) \<and>
     bytes_at (mem_write (bbuf b1) off (be_bytes pend rest)) (cbb_offset n) (der_length (length c) @ c)"
proof (cases "length c < 0x80")
  case True
  let ?b = "b\<lparr>bbuf := (bbuf b)(cbb_offset n := of_nat (length c))\<rparr>"
  have "flush_asn1 ma b n (Suc (cbb_offset n)) (length c) = (Some (Suc (cbb_offset n), 0, 0), ?b)"
    using True by (simp add: flush_asn1_def asn1_len_octets_eq)
  moreover have "bytes_at (mem_write (bbuf ?b) (Suc (cbb_offset n)) (be_bytes 0 0)) (Suc (cbb_offset n)) c"
    by (rule bytes_at_cong [OF assms(5)]) (simp add: mem_write_def)
  ultimately show ?thesis
    using assms True
    by (intro exI [of _ "Suc (cbb_offset n)"] exI [of _ 0] exI [of _ ?b])
       (auto simp: der_length_def buffer_ok_def roomy_def mem_write_def)
next
  case False
  let ?k = "der_len_len (length c)" and ?o = "cbb_offset n"
  let ?init = "of_nat (0x80 + ?k) :: byte"
  have k: "1 \<le> ?k" "?k \<le> 4" by (rule der_len_len_range)+
  have lt: "length c < 256 ^ ?k" using assms(3) by (intro der_len_len_bound) simp
  have dl: "der_length (length c) = ?init # be_bytes ?k (length c)" using False by (simp add: der_length_def)
  obtain cap where add: "cbb_buffer_add ma b ?k = (True, b\<lparr>blen := blen b + ?k, bcap := cap\<rparr>)"
    and cap: "bcap b \<le> cap" "blen b + ?k \<le> cap" "cap < SIZE_LIMIT"
    using add_ok [OF assms(1,2), of ?k] assms(4,6) dl by auto
  let ?m1 = "(mem_write (bbuf b) (Suc ?o + ?k) c)(?o := ?init)"
  let ?b1 = "b\<lparr>blen := blen b + ?k, bcap := cap, bbuf := ?m1\<rparr>"
  let ?m2 = "mem_write ?m1 (Suc ?o) (be_bytes ?k (length c))"
  have run: "flush_asn1 ma b n (Suc ?o) (length c) = (Some (Suc ?o, ?k, length c), ?b1)"
    using False k assms(3) bytes_atD [OF assms(5)]
    by (simp add: flush_asn1_def asn1_len_octets_eq add Let_def del: of_nat_add)
  have c: "bytes_at ?m2 (Suc ?o + ?k) c"
    by (rule bytes_at_cong [OF bytes_at_write [of "bbuf b" "Suc ?o + ?k" c]]) (auto simp: mem_write_def)
  have "bytes_at ?m2 (Suc ?o) (be_bytes ?k (length c))" by (rule bytes_at_write)
  moreover have "?m2 ?o = ?init" by (simp add: mem_write_def)
  ultimately have "bytes_at ?m2 ?o (der_length (length c) @ c)" using c by (simp add: dl)
  moreover have "\<forall>i < ?o. ?m2 i = bbuf b i" by (simp add: mem_write_def)
  ultimately show ?thesis
    using run lt assms(1,2,4) cap dl
    by (intro exI [of _ "Suc ?o"] exI [of _ ?k] exI [of _ "length c"] exI [of _ ?b1])
       (auto simp: buffer_ok_def intro: roomy_grow)
qed



lemma frames_ok_content: "frames_ok ((k', c') # fs) \<Longrightarrow> frames_ok ((k', c'') # fs)"
  by (cases fs) auto

lemma frames_ok_pop: "frames_ok ((k, c) # (k', c') # fs) \<Longrightarrow> frames_ok ((k', c'') # fs)"
  by (cases fs) auto

lemma frames_ok_kind: "frames_ok ((k, c) # f # fs) \<Longrightarrow> 0 < kind_len k \<and> kind_len k \<le> 3"
  by (cases f) auto

lemma flush_child_ok:
  assumes rep: "cbb_rep s b ((k, c) # (k', c') # fs)" and d: "length fs = d"
    and fits: "frame_fits k c" and room: "roomy ma N b"
    and size: "frames_size ((k', c' @ close_frame k c) # fs) \<le> N"
  shows "\<exists>s' b'. flush_child ma d s b (hd (cbb_chain s)) = (True, s') \<and> roomy ma N b' \<and>
     cbb_rep s' b' ((k', c' @ close_frame k c) # fs) \<and> cbb_chain s' = tl (cbb_chain s)"
proof -
  from rep have base: "cbb_base s = Some b" and bok: "buffer_ok b"
    and fok: "frames_ok ((k, c) # (k', c') # fs)"
    and stk: "stack_rep (bbuf b) (blen b) ((k, c) # (k', c') # fs) (cbb_chain s)"
    by (simp_all add: cbb_rep_def)
  from stk obtain n n' ns where ch: "cbb_chain s = n # n' # ns"
    by (cases "cbb_chain s"; cases "tl (cbb_chain s)") auto
  note stk = stk [unfolded ch]
  have ns: "length ns = d" using stack_rep_length [OF stk] d by simp
  let ?o = "cbb_offset n"
  from stk [unfolded stack_rep.simps(2) [of _ _ k c]] have n: "length c + kind_len k \<le> blen b" "bytes_at (bbuf b) (blen b - length c) c"
    "?o = blen b - length c - kind_len k" "pending_len_len n = kind_len k" "pending_is_asn1 n = (k = Asn1)"
    "stack_rep (bbuf b) ?o ((k', c') # fs) (n' # ns)"
    by blast+
  have bl: "blen b < SIZE_LIMIT" using bok unfolding buffer_ok_def by linarith
  have st: "size_add ?o (kind_len k) = ?o + kind_len k" by (rule size_add_exact) (use n(1,3) bl in linarith)
  have e: "blen b = ?o + kind_len k + length c" using n(1,3) by linarith
  have osz: "?o = frames_size ((k', c') # fs)" using stack_rep_size [OF n(6)] .
  have sz: "?o + length (close_frame k c) \<le> N"
    using size unfolding osz by (simp add: frames_size_def)
  have fok': "frames_ok ((k', c' @ close_frame k c) # fs)" by (rule frames_ok_pop [OF fok])
  have fin: ?thesis
    if "flush_child ma d s b n = (True, cbb_unlink d (s\<lparr>cbb_base := Some b'\<rparr>))" and "buffer_ok b'"
      and "roomy ma N b'" and "blen b' = ?o + length (close_frame k c)"
      and "\<And>i. i < ?o \<Longrightarrow> bbuf b' i = bbuf b i" and "bytes_at (bbuf b') ?o (close_frame k c)" for b'
  proof -
    have "cbb_chain (cbb_unlink d (s\<lparr>cbb_base := Some b'\<rparr>)) = n' # ns"
      using ns by (simp add: cbb_unlink_def ch)
    moreover have "cbb_base (cbb_unlink d (s\<lparr>cbb_base := Some b'\<rparr>)) = Some b'"
      by (simp add: cbb_unlink_def)
    moreover have "stack_rep (bbuf b') (blen b') ((k', c' @ close_frame k c) # fs) (n' # ns)"
      unfolding that(4) by (rule stack_rep_pop [OF stk that(5,6)])
    ultimately show ?thesis using that(1,2,3) fok' by (auto simp: cbb_rep_def ch)
  qed
  show ?thesis
  proof (cases k)
    case Top
    with frames_ok_kind [OF fok] show ?thesis by simp
  next
    case (Prefix j)
    let ?b = "b\<lparr>bbuf := mem_write (bbuf b) ?o (be_bytes j (length c))\<rparr>"
    have lt: "length c < 256 ^ j" using fits Prefix by simp
    show ?thesis
    proof (rule fin [of ?b])
      show "flush_child ma d s b n = (True, cbb_unlink d (s\<lparr>cbb_base := Some ?b\<rparr>))"
        using n(4,5) e st lt Prefix by (simp add: flush_child_def put_be_eq Let_def)
      have "bytes_at (bbuf ?b) (?o + j) c"
        using n(2) e Prefix by (auto intro!: bytes_at_write_above)
      then show "bytes_at (bbuf ?b) ?o (close_frame k c)"
        using Prefix bytes_at_write [of "bbuf b" ?o "be_bytes j (length c)"] by simp
    qed (use bok room e Prefix in \<open>auto simp: buffer_ok_def roomy_def mem_write_def\<close>)
  next
    case Asn1
    have e': "blen b = Suc ?o + length c" and c': "bytes_at (bbuf b) (Suc ?o) c" and le: "length c \<le> 0xfffffffe"
      and sz': "?o + length (der_length (length c)) + length c \<le> N"
      using e n(2) Asn1 fits sz by simp_all
    obtain off pend rest b1 where f:
      "flush_asn1 ma b n (Suc ?o) (length c) = (Some (off, pend, rest), b1)"
      "rest < 256 ^ pend" "buffer_ok b1" "roomy ma N b1" "blen b1 = ?o + length (der_length (length c) @ c)"
      "\<forall>i < ?o. mem_write (bbuf b1) off (be_bytes pend rest) i = bbuf b i"
      "bytes_at (mem_write (bbuf b1) off (be_bytes pend rest)) ?o (der_length (length c) @ c)"
      using flush_asn1_ok [OF bok room le e' c' sz'] by blast
    show ?thesis
    proof (rule fin [of "b1\<lparr>bbuf := mem_write (bbuf b1) off (be_bytes pend rest)\<rparr>"])
      show "flush_child ma d s b n =
          (True, cbb_unlink d (s\<lparr>cbb_base := Some (b1\<lparr>bbuf := mem_write (bbuf b1) off (be_bytes pend rest)\<rparr>)\<rparr>))"
        using n(4,5) e' st f(1,2) Asn1 by (simp add: flush_child_def put_be_eq Let_def)
    qed (use f Asn1 in \<open>auto simp: buffer_ok_def roomy_def\<close>)
  qed
qed

lemma frames_size_pop:
  assumes "frames_ok fs"
  shows "frames_size fs \<le> frames_size (pop_frame fs)"
proof (cases fs rule: pop_frame.cases)
  case (1 k c k' c' fs')
  then show ?thesis using der_length_pos [of "length c"] assms by (cases k) (auto simp: frames_size_def)
qed simp_all

lemma frames_ok_pops: "frames_ok fs \<Longrightarrow> frames_ok ((pop_frame ^^ n) fs)"
proof (induction n)
  case (Suc n)
  then show ?case
    by (cases "(pop_frame ^^ n) fs" rule: pop_frame.cases) (auto intro: frames_ok_content)
qed simp

lemma length_pop_frame: "length (pop_frame fs) = (if length fs \<le> 1 then length fs else length fs - 1)"
  by (cases fs rule: pop_frame.cases) simp_all

lemma length_pops: "n < length fs \<Longrightarrow> length ((pop_frame ^^ n) fs) = length fs - n"
  by (induction n) (simp_all add: length_pop_frame)

lemma CBB_flush_leaf:
  assumes "cbb_base s = Some b" and "\<not> berror b" and "length (cbb_chain s) = Suc d"
  shows "CBB_flush ma d s = (True, s)"
proof -
  have "cbb_child d s = None" using assms(3) by (simp add: cbb_child_def Let_def)
  with assms show ?thesis by (subst CBB_flush.simps) simp
qed

lemma CBB_flush_inner:
  assumes "cbb_base s = Some b" and "\<not> berror b" and "length (cbb_chain s) = Suc (Suc d) + n"
    and "pending_len_len (cbb_chain s ! n) \<noteq> 0"
    and "CBB_flush ma (Suc d) s = (True, s1)" and "cbb_base s1 = Some b1"
  shows "CBB_flush ma d s = flush_child ma d s1 b1 (cbb_chain s ! n)"
proof -
  have "cbb_child d s = Some (cbb_chain s ! n)" using assms(3) by (simp add: cbb_child_def Let_def)
  with assms show ?thesis by (subst CBB_flush.simps) simp
qed

lemma stack_rep_pending: "stack_rep m e ((k, c) # fs) ns \<Longrightarrow> pending_len_len (hd ns) = kind_len k"
  by (cases ns) (simp, simp only: stack_rep.simps list.sel)

lemma two_frames:
  "length fs = Suc (Suc d) \<Longrightarrow> \<exists>k c k' c' gs. (fs :: frame list) = (k, c) # (k', c') # gs \<and> length gs = d"
  by (auto simp: length_Suc_conv)

lemma CBB_flush_ok:
  assumes "cbb_rep s b fs" and "length fs = Suc d + n" and "pops_fit n fs" and "roomy ma N b"
    and "frames_size ((pop_frame ^^ n) fs) \<le> N"
  shows "\<exists>s' b'. CBB_flush ma d s = (True, s') \<and> roomy ma N b' \<and>
     cbb_rep s' b' ((pop_frame ^^ n) fs) \<and> cbb_chain s' = drop n (cbb_chain s)"
  using assms
proof (induction n arbitrary: d)
  case 0
  have "length (cbb_chain s) = Suc d" "cbb_base s = Some b" "\<not> berror b"
    using 0(1,2) stack_rep_length [of "bbuf b" "blen b" fs "cbb_chain s"]
    by (simp_all add: cbb_rep_def buffer_ok_def)
  then have "CBB_flush ma d s = (True, s)" by (intro CBB_flush_leaf)
  with 0(1,4) show ?case by (intro exI [of _ s] exI [of _ b]) simp
next
  case (Suc n)
  let ?fs = "(pop_frame ^^ n) fs"
  have fok: "frames_ok fs" using Suc.prems(1) by (simp add: cbb_rep_def)
  have len: "length (cbb_chain s) = Suc (Suc d) + n"
    using Suc.prems(1,2) stack_rep_length [of "bbuf b" "blen b" fs "cbb_chain s"] by (simp add: cbb_rep_def)
  have "length ?fs = Suc (Suc d)" using Suc.prems(2) by (simp add: length_pops)
  then obtain k c k' c' fs' where fs: "?fs = (k, c) # (k', c') # fs'" "length fs' = d"
    using two_frames by blast
  have le: "frames_size ?fs \<le> N"
    using frames_size_pop [OF frames_ok_pops [OF fok, of n]] Suc.prems(5) by simp
  have pf: "pops_fit n fs" and fit: "frame_fits k c" using Suc.prems(3) fs(1) by simp_all
  have ld: "length fs = Suc (Suc d) + n" using Suc.prems(2) by simp
  obtain s1 b1 where s1: "CBB_flush ma (Suc d) s = (True, s1)" "roomy ma N b1" "cbb_rep s1 b1 ?fs"
    "cbb_chain s1 = drop n (cbb_chain s)"
    using Suc.IH [OF Suc.prems(1) ld pf Suc.prems(4) le] by blast
  have hd: "hd (cbb_chain s1) = cbb_chain s ! n" using s1(4) len by (simp add: hd_drop_conv_nth)
  have "stack_rep (bbuf b1) (blen b1) ((k, c) # (k', c') # fs') (cbb_chain s1)"
    using s1(3) unfolding cbb_rep_def fs(1) by blast
  from stack_rep_pending [OF this] have pk: "pending_len_len (cbb_chain s ! n) = kind_len k"
    unfolding hd .
  have "0 < kind_len k"
    using frames_ok_kind [OF frames_ok_pops [OF fok, of n, unfolded fs(1)]] by blast
  with pk have pend: "pending_len_len (cbb_chain s ! n) \<noteq> 0" by linarith
  have sz: "frames_size ((k', c' @ close_frame k c) # fs') \<le> N" using Suc.prems(5) fs(1) by simp
  obtain s' b' where s': "flush_child ma d s1 b1 (hd (cbb_chain s1)) = (True, s')" "roomy ma N b'"
     "cbb_rep s' b' ((k', c' @ close_frame k c) # fs')" "cbb_chain s' = tl (cbb_chain s1)"
    using flush_child_ok [OF s1(3) [unfolded fs(1)] fs(2) fit s1(2) sz] by blast
  have base: "cbb_base s = Some b" "\<not> berror b" "cbb_base s1 = Some b1"
    using Suc.prems(1) s1(3) by (simp_all add: cbb_rep_def buffer_ok_def)
  have "CBB_flush ma d s = (True, s')"
    unfolding CBB_flush_inner [OF base(1,2) len pend s1(1) base(3)] hd [symmetric] by (rule s'(1))
  moreover have "(pop_frame ^^ Suc n) fs = (k', c' @ close_frame k c) # fs'" using fs(1) by simp
  moreover have "cbb_chain s' = drop (Suc n) (cbb_chain s)"
    unfolding s'(4) s1(4) by (simp only: drop_Suc tl_drop)
  ultimately show ?case using s'(2,3) by (intro exI [of _ s'] exI [of _ b'] conjI) simp_all
qed


section \<open>Operations that append\<close>

definition cbb_builds :: "(nat \<Rightarrow> bool) \<Rightarrow> nat \<Rightarrow> cbb_state \<Rightarrow> frame list \<Rightarrow> bool" where
  "cbb_builds ma N s fs \<longleftrightarrow> (\<exists>b. cbb_rep s b fs \<and> roomy ma N b)"

text \<open>All frames below depth \<open>d\<close> closed.\<close>

definition closed :: "nat \<Rightarrow> frame list \<Rightarrow> frame list" where
  "closed d fs = (pop_frame ^^ (length fs - Suc d)) fs"

definition can_close :: "nat \<Rightarrow> frame list \<Rightarrow> bool" where
  "can_close d fs \<longleftrightarrow> d < length fs \<and> pops_fit (length fs - Suc d) fs"

lemma length_closed: "d < length fs \<Longrightarrow> length (closed d fs) = Suc d"
  by (simp add: closed_def length_pops)

lemma closed_id: "length fs = Suc d \<Longrightarrow> closed d fs = fs"
  by (simp add: closed_def)

lemma can_close_id: "length fs = Suc d \<Longrightarrow> can_close d fs"
  by (simp add: can_close_def)

lemma closed_inner: "length fs = Suc d \<Longrightarrow> closed d (closed (Suc d) (f # fs)) = pop_frame (f # fs)"
  by (simp add: closed_def)

lemma length_add_to_frame [simp]: "length (add_to_frame bs fs) = length fs"
  by (cases fs) auto

lemma add_to_frame_add [simp]: "add_to_frame b (add_to_frame a fs) = add_to_frame (a @ b) fs"
  by (cases fs) auto

lemma add_to_frame_Nil [simp]: "add_to_frame [] fs = fs"
  by (cases fs) auto

lemma frames_size_add: "fs \<noteq> [] \<Longrightarrow> frames_size (add_to_frame bs fs) = frames_size fs + length bs"
  by (cases fs) (auto simp: frames_size_def)

lemma frames_ok_add: "frames_ok fs \<Longrightarrow> frames_ok (add_to_frame bs fs)"
  by (cases fs) (auto intro: frames_ok_content)

lemma frames_size_closed: "frames_ok fs \<Longrightarrow> frames_size fs \<le> frames_size (closed d fs)"
proof -
  assume "frames_ok fs"
  then have "frames_size fs \<le> frames_size ((pop_frame ^^ n) fs)" for n
    by (induction n) (auto intro: order_trans frames_size_pop frames_ok_pops)
  then show ?thesis by (simp add: closed_def)
qed

lemma cbb_builds_length: "cbb_builds ma N s fs \<Longrightarrow> buffer_length s = frames_size fs"
  by (auto simp: cbb_builds_def cbb_rep_def buffer_length_def dest: stack_rep_size)

lemma flush_builds:
  assumes "cbb_builds ma N s fs" and "can_close d fs" and "frames_size (closed d fs) \<le> N"
  shows "\<exists>s'. CBB_flush ma d s = (True, s') \<and> cbb_builds ma N s' (closed d fs)"
proof -
  from assms(1) obtain b where b: "cbb_rep s b fs" "roomy ma N b" by (auto simp: cbb_builds_def)
  from assms(2) have "length fs = Suc d + (length fs - Suc d)" "pops_fit (length fs - Suc d) fs"
    by (auto simp: can_close_def)
  from CBB_flush_ok [OF b(1) this b(2) assms(3) [unfolded closed_def]]
  show ?thesis by (auto simp: cbb_builds_def closed_def)
qed

lemma with_append_builds:
  assumes "cbb_builds ma N s fs" and "frames_size fs + length bs \<le> N"
    and "\<And>b. f b = buffer_append ma bs b"
  shows "\<exists>s'. cbb_with f s = (True, s') \<and> cbb_builds ma N s' (add_to_frame bs fs)"
proof -
  from assms(1) obtain b where b: "cbb_base s = Some b" "buffer_ok b" "frames_ok fs"
    "stack_rep (bbuf b) (blen b) fs (cbb_chain s)" "roomy ma N b"
    by (auto simp: cbb_builds_def cbb_rep_def)
  have "blen b + length bs \<le> N" using stack_rep_size [OF b(4)] assms(2) by simp
  then obtain b' where b': "buffer_append ma bs b = (True, b')" "buffer_ok b'" "roomy ma N b'"
    "blen b' = blen b + length bs" "bbuf b' = mem_write (bbuf b) (blen b) bs"
    using append_ok [OF b(2,5)] by blast
  have "fs \<noteq> []" using b(3) by auto
  with b b' have "stack_rep (bbuf b') (blen b') (add_to_frame bs fs) (cbb_chain s)"
    by (simp add: stack_rep_add)
  with b b' frames_ok_add [OF b(3)] show ?thesis
    by (auto simp: cbb_with_def assms(3) cbb_builds_def cbb_rep_def)
qed

text \<open>
  The contract of an operation of the builder at the innermost depth \<open>d\<close>: it appends \<open>out\<close> to
  the contents there, as long as the buffer can hold the result. The stronger contract is that
  of an operation which first closes what is open below \<open>d\<close>.
\<close>

locale open_appender =
  fixes ma :: "nat \<Rightarrow> bool" and d :: nat and oper :: "cbb_state \<Rightarrow> bool \<times> cbb_state" and out :: bytes
  assumes appends_open:
    "cbb_builds ma N s fs \<Longrightarrow> length fs = Suc d \<Longrightarrow> frames_size fs + length out \<le> N \<Longrightarrow>
     \<exists>s'. oper s = (True, s') \<and> cbb_builds ma N s' (add_to_frame out fs)"

locale appender =
  fixes ma :: "nat \<Rightarrow> bool" and d :: nat and oper :: "cbb_state \<Rightarrow> bool \<times> cbb_state" and out :: bytes
  assumes appends:
    "cbb_builds ma N s fs \<Longrightarrow> can_close d fs \<Longrightarrow> frames_size (closed d fs) + length out \<le> N \<Longrightarrow>
     \<exists>s'. oper s = (True, s') \<and> cbb_builds ma N s' (add_to_frame out (closed d fs))"
begin

lemma succeeds:
  "cbb_builds ma N s fs \<Longrightarrow> can_close d fs \<Longrightarrow> frames_size (closed d fs) + length out \<le> N \<Longrightarrow> fst (oper s)"
  using appends by fastforce

end

sublocale appender \<subseteq> open_appender
proof
  fix N s fs
  assume s: "cbb_builds ma N s fs" "length fs = Suc d" "frames_size fs + length out \<le> N"
  from appends [OF s(1) can_close_id [OF s(2)]] s(3)
  show "\<exists>s'. oper s = (True, s') \<and> cbb_builds ma N s' (add_to_frame out fs)"
    by (simp add: closed_id [OF s(2)])
qed

lemma appender_with:
  assumes "\<And>b. f b = buffer_append ma bs b"
  shows "appender ma d (\<lambda>s. cbb_seq (CBB_flush ma d s) (cbb_with f)) bs"
proof
  fix N s fs
  assume s: "cbb_builds ma N s fs" "can_close d fs" "frames_size (closed d fs) + length bs \<le> N"
  then obtain s1 where s1: "CBB_flush ma d s = (True, s1)" "cbb_builds ma N s1 (closed d fs)"
    using flush_builds [OF s(1,2)] by auto
  from with_append_builds [OF s1(2) s(3) assms] s1(1)
  show "\<exists>s'. cbb_seq (CBB_flush ma d s) (cbb_with f) = (True, s') \<and>
      cbb_builds ma N s' (add_to_frame bs (closed d fs))" by auto
qed

lemma appender_is_open: "appender ma d f a \<Longrightarrow> open_appender ma d f a"
  unfolding open_appender_def
  by (metis appender.appends can_close_id closed_id)

lemma open_appender_skip: "open_appender ma d (\<lambda>s. (True, s)) []"
  by unfold_locales simp

lemma open_appender_seq:
  assumes "open_appender ma d f a" and "open_appender ma d g b"
  shows "open_appender ma d (\<lambda>s. cbb_seq (f s) g) (a @ b)"
proof
  fix N s fs
  assume s: "cbb_builds ma N s fs" "length fs = Suc d" "frames_size fs + length (a @ b) \<le> N"
  have ne: "fs \<noteq> []" using s(2) by auto
  obtain s1 where s1: "f s = (True, s1)" "cbb_builds ma N s1 (add_to_frame a fs)"
    using open_appender.appends_open [OF assms(1) s(1,2)] s(3) by auto
  obtain s2 where "g s1 = (True, s2)" "cbb_builds ma N s2 (add_to_frame b (add_to_frame a fs))"
    using open_appender.appends_open [OF assms(2) s1(2)] s(2,3) by (auto simp: frames_size_add [OF ne])
  with s1 show "\<exists>s'. cbb_seq (f s) g = (True, s') \<and> cbb_builds ma N s' (add_to_frame (a @ b) fs)"
    by simp
qed

lemma appender_seq:
  assumes "appender ma d f a" and "open_appender ma d g b"
  shows "appender ma d (\<lambda>s. cbb_seq (f s) g) (a @ b)"
proof
  fix N s fs
  assume s: "cbb_builds ma N s fs" "can_close d fs" "frames_size (closed d fs) + length (a @ b) \<le> N"
  have len: "length (closed d fs) = Suc d" using s(2) by (simp add: can_close_def length_closed)
  obtain s1 where s1: "f s = (True, s1)" "cbb_builds ma N s1 (add_to_frame a (closed d fs))"
    using appender.appends [OF assms(1) s(1,2)] s(3) by auto
  have ne: "closed d fs \<noteq> []" using len by auto
  obtain s2 where "g s1 = (True, s2)" "cbb_builds ma N s2 (add_to_frame b (add_to_frame a (closed d fs)))"
    using open_appender.appends_open [OF assms(2) s1(2)] len s(3) by (auto simp: frames_size_add [OF ne])
  with s1 show "\<exists>s'. cbb_seq (f s) g = (True, s') \<and> cbb_builds ma N s' (add_to_frame (a @ b) (closed d fs))"
    by simp
qed

interpretation add_bytes: appender ma d "CBB_add_bytes ma d bs" bs for ma d bs
  unfolding CBB_add_bytes_def by (rule appender_with) simp

interpretation add_u8: appender ma d "CBB_add_u8 ma d v" "[v]" for ma d v
proof -
  have "cbb_buffer_add_u ma b (unat v) 1 = buffer_append ma [v] b" for b
    using add_u_append [of "unat v" 1 ma b] by (simp add: word_of_unat)
  then show "appender ma d (CBB_add_u8 ma d v) [v]"
    unfolding CBB_add_u8_def by (rule appender_with)
qed

lemma unat_less_256: "unat v < 256 ^ k" if "LENGTH('a) \<le> 8 * k" for v :: "'a::len word"
proof -
  have "unat v < 2 ^ LENGTH('a)" by simp
  also have "\<dots> \<le> 2 ^ (8 * k)" using that by (intro power_increasing) simp_all
  also have "\<dots> = 256 ^ k" by (simp add: power_mult)
  finally show ?thesis .
qed

interpretation add_u16: appender ma d "CBB_add_u16 ma d v" "be_bytes 2 (unat v)" for ma d v
  unfolding CBB_add_u16_def by (rule appender_with) (intro add_u_append unat_less_256; simp)

interpretation add_u32: appender ma d "CBB_add_u32 ma d v" "be_bytes 4 (unat v)" for ma d v
  unfolding CBB_add_u32_def by (rule appender_with) (intro add_u_append unat_less_256; simp)

interpretation add_u64: appender ma d "CBB_add_u64 ma d v" "be_bytes 8 (unat v)" for ma d v
  unfolding CBB_add_u64_def by (rule appender_with) (intro add_u_append unat_less_256; simp)

section \<open>Children\<close>

text \<open>The contract of an operation that opens a child of depth \<open>d\<close> behind the bytes \<open>out\<close>.\<close>

locale opener =
  fixes ma :: "nat \<Rightarrow> bool" and d :: nat and oper :: "cbb_state \<Rightarrow> bool \<times> cbb_state"
    and out :: bytes and kind :: frame_kind
  assumes opens:
    "cbb_builds ma N s fs \<Longrightarrow> can_close d fs \<Longrightarrow>
     frames_size (closed d fs) + length out + kind_len kind \<le> N \<Longrightarrow>
     \<exists>s'. oper s = (True, s') \<and> cbb_builds ma N s' ((kind, []) # add_to_frame out (closed d fs))"

lemma link_builds:
  assumes "cbb_builds ma N s fs" and "length fs = Suc d"
    and "frames_size fs + kind_len k \<le> N" and "0 < kind_len k" and "kind_len k \<le> 3"
    and "\<And>b. f b = buffer_append ma (replicate (kind_len k) 0) b"
    and "child = \<lparr>cbb_offset = buffer_length s, pending_len_len = kind_len k, pending_is_asn1 = (k = Asn1)\<rparr>"
  shows "\<exists>s'. cbb_with f s = (True, s') \<and> cbb_builds ma N (cbb_link d child s') ((k, []) # fs)"
proof -
  from assms(1) obtain b where b: "cbb_base s = Some b" "buffer_ok b" "frames_ok fs"
    "stack_rep (bbuf b) (blen b) fs (cbb_chain s)" "roomy ma N b"
    by (auto simp: cbb_builds_def cbb_rep_def)
  have bl: "buffer_length s = blen b" using b(1) by (simp add: buffer_length_def)
  have "blen b + length (replicate (kind_len k) (0 :: byte)) \<le> N"
    using stack_rep_size [OF b(4)] assms(3) by simp
  then obtain b' where b': "buffer_append ma (replicate (kind_len k) 0) b = (True, b')" "buffer_ok b'"
    "roomy ma N b'" "blen b' = blen b + kind_len k"
    "bbuf b' = mem_write (bbuf b) (blen b) (replicate (kind_len k) 0)"
    using append_ok [OF b(2,5), of "replicate (kind_len k) 0"] by auto
  have ch: "length (cbb_chain s) = Suc d" using stack_rep_length [OF b(4)] assms(2) by simp
  have "stack_rep (bbuf b') (blen b) fs (cbb_chain s)"
    by (rule stack_rep_cong [OF b(4)]) (simp add: b' mem_write_below)
  then have "stack_rep (bbuf b') (blen b') ((k, []) # fs) (child # cbb_chain s)"
    by (simp add: assms(7) bl b')
  moreover have "frames_ok ((k, []) # fs)" using b(3) assms(4,5) by (cases fs) auto
  ultimately show ?thesis
    using b b' ch by (auto simp: cbb_with_def assms(6) cbb_builds_def cbb_rep_def cbb_link_def cbb_unlink_def)
qed

lemma opener_seq:
  assumes "appender ma d f a"
    and "\<And>N s fs. cbb_builds ma N s fs \<Longrightarrow> length fs = Suc d \<Longrightarrow> frames_size fs + kind_len k \<le> N \<Longrightarrow>
          \<exists>s'. g s = (True, s') \<and> cbb_builds ma N s' ((k, []) # fs)"
  shows "opener ma d (\<lambda>s. cbb_seq (f s) g) a k"
proof
  fix N s fs
  assume s: "cbb_builds ma N s fs" "can_close d fs" "frames_size (closed d fs) + length a + kind_len k \<le> N"
  have len: "length (closed d fs) = Suc d" using s(2) by (simp add: can_close_def length_closed)
  then have ne: "closed d fs \<noteq> []" by auto
  obtain s1 where s1: "f s = (True, s1)" "cbb_builds ma N s1 (add_to_frame a (closed d fs))"
    using appender.appends [OF assms(1) s(1,2)] s(3) by auto
  obtain s2 where "g s1 = (True, s2)" "cbb_builds ma N s2 ((k, []) # add_to_frame a (closed d fs))"
    using assms(2) [OF s1(2)] len s(3) by (auto simp: frames_size_add [OF ne])
  with s1 show "\<exists>s'. cbb_seq (f s) g = (True, s') \<and> cbb_builds ma N s' ((k, []) # add_to_frame a (closed d fs))"
    by simp
qed

lemma appender_flush: "appender ma d (CBB_flush ma d) []"
  by unfold_locales (use flush_builds in simp)

lemma opener_length_prefixed:
  assumes "0 < n" and "n \<le> 3"
  shows "opener ma d (cbb_add_length_prefixed ma d n) [] (Prefix n)"
proof -
  have "opener ma d (\<lambda>s. cbb_seq (CBB_flush ma d s) (\<lambda>s.
       let offset = buffer_length s in
       cbb_seq (cbb_with (buffer_append ma (replicate n 0)) s) (\<lambda>s.
         (True, cbb_link d \<lparr>cbb_offset = offset, pending_len_len = n, pending_is_asn1 = False\<rparr> s)))) [] (Prefix n)"
  proof (rule opener_seq [OF appender_flush])
    fix N s fs assume a: "cbb_builds ma N s fs" "length fs = Suc d" "frames_size fs + kind_len (Prefix n) \<le> N"
    from link_builds [OF a, of "buffer_append ma (replicate n 0)"] assms
    show "\<exists>s'. (let offset = buffer_length s in
       cbb_seq (cbb_with (buffer_append ma (replicate n 0)) s) (\<lambda>s.
         (True, cbb_link d \<lparr>cbb_offset = offset, pending_len_len = n, pending_is_asn1 = False\<rparr> s))) = (True, s') \<and>
       cbb_builds ma N s' ((Prefix n, []) # fs)" by (auto simp: Let_def)
  qed
  then show ?thesis unfolding cbb_add_length_prefixed_def .
qed

interpretation u8_child: opener ma d "CBB_add_u8_length_prefixed ma d" "[]" "Prefix 1" for ma d
  unfolding CBB_add_u8_length_prefixed_def by (rule opener_length_prefixed) simp_all

interpretation u16_child: opener ma d "CBB_add_u16_length_prefixed ma d" "[]" "Prefix 2" for ma d
  unfolding CBB_add_u16_length_prefixed_def by (rule opener_length_prefixed) simp_all

interpretation u24_child: opener ma d "CBB_add_u24_length_prefixed ma d" "[]" "Prefix 3" for ma d
  unfolding CBB_add_u24_length_prefixed_def by (rule opener_length_prefixed) simp_all

text \<open>A child opened, filled and closed again.\<close>

lemma appender_child:
  assumes "opener ma d f a k" and "open_appender ma (Suc d) g c" and "frame_fits k c"
    and "appender ma d h e"
  shows "appender ma d (\<lambda>s. cbb_seq (cbb_seq (f s) g) h) (a @ close_frame k c @ e)"
proof
  fix N s fs
  assume s: "cbb_builds ma N s fs" "can_close d fs"
    "frames_size (closed d fs) + length (a @ close_frame k c @ e) \<le> N"
  let ?fs = "add_to_frame a (closed d fs)"
  have len: "length ?fs = Suc d" using s(2) by (simp add: can_close_def length_closed)
  then obtain k' c' gs where fs: "?fs = (k', c') # gs" "length gs = d" by (cases ?fs) auto
  have ne: "closed d fs \<noteq> []" using len by auto
  have kl: "length c + kind_len k \<le> length (close_frame k c)"
    using der_length_pos [of "length c"] by (cases k) auto
  have sz: "frames_size ?fs + length (close_frame k c) + length e \<le> N"
    using s(3) by (simp add: frames_size_add [OF ne])
  obtain s1 where s1: "f s = (True, s1)" "cbb_builds ma N s1 ((k, []) # ?fs)"
    using opener.opens [OF assms(1) s(1,2)] s(3) kl by auto
  have szk: "frames_size ((k, []) # ?fs) + length c \<le> N" using sz kl by (simp add: frames_size_def)
  obtain s2 where s2: "g s1 = (True, s2)" "cbb_builds ma N s2 ((k, c) # ?fs)"
    using open_appender.appends_open [OF assms(2) s1(2) _ szk] len by auto
  have cl: "closed d ((k, c) # ?fs) = add_to_frame (close_frame k c) ?fs"
    unfolding fs by (simp add: closed_def fs(2))
  have cc: "can_close d ((k, c) # ?fs)" using len assms(3) by (simp add: can_close_def)
  obtain s3 where "h s2 = (True, s3)" "cbb_builds ma N s3 (add_to_frame e (add_to_frame (close_frame k c) ?fs))"
    using appender.appends [OF assms(4) s2(2) cc] sz by (auto simp: cl frames_size_add [OF ne])
  with s1 s2 show "\<exists>s'. cbb_seq (cbb_seq (f s) g) h = (True, s') \<and>
      cbb_builds ma N s' (add_to_frame (a @ close_frame k c @ e) (closed d fs))" by simp
qed

lemma appender_child_flush:
  assumes "opener ma d f a k" and "open_appender ma (Suc d) g c" and "frame_fits k c"
  shows "appender ma d (\<lambda>s. cbb_seq (cbb_seq (f s) g) (CBB_flush ma d)) (a @ close_frame k c)"
  using appender_child [OF assms appender_flush] by simp

section \<open>Base 128 and identifiers\<close>

lemma base128_len_loop_pos: "v \<noteq> 0 \<Longrightarrow> 0 < base128_len_loop v"
  by (subst base128_len_loop.simps) simp

lemma base128_len_loop_hi: "base128_len_loop v = length (base128_hi (unat v))"
proof (induction v rule: base128_len_loop.induct)
  case (1 v)
  then show ?case
    by (subst base128_len_loop.simps) (simp add: base128_hi_step unat_drop_bit unat_gt_0)
qed

text \<open>The octets the loop writes, most significant group first.\<close>

fun base128_out :: "nat \<Rightarrow> nat \<Rightarrow> bytes" where
  "base128_out n 0 = []"
| "base128_out n (Suc i) = of_nat (n div 128 ^ i mod 128 + (if i \<noteq> 0 then 128 else 0)) # base128_out n i"

lemma base128_out_hi:
  "base128_out n (Suc i) = map (\<lambda>j. of_nat (n div 128 ^ Suc j mod 128 + 128)) (rev [0..<i]) @ [of_nat (n mod 128)]"
  by (induction i) (simp_all add: div_mult2_eq)

lemma base128_hi_map: "base128_hi n = map (\<lambda>j. of_nat (n div 128 ^ j mod 128 + 128)) (rev [0..<length (base128_hi n)])"
proof (induction n rule: base128_hi.induct)
  case (1 n)
  show ?case
  proof (cases "n = 0")
    case False
    let ?l = "length (base128_hi (n div 128))"
    have "map (\<lambda>j. of_nat (n div 128 ^ j mod 128 + 128) :: byte) (rev [0..<Suc ?l]) =
      map (\<lambda>j. of_nat (n div 128 ^ Suc j mod 128 + 128)) (rev [0..<?l]) @ [of_nat (n mod 128 + 128)]"
      by (simp only: upt_conv_Cons [of 0 "Suc ?l"] zero_less_Suc if_True map_Suc_upt [symmetric] rev_map rev.simps)
         (simp add: comp_def)
    with 1 False show ?thesis by (simp add: base128_hi_step div_mult2_eq)
  qed simp
qed


lemma base128_out_base128:
  "base128_out n (if base128_hi n = [] then 1 else length (base128_hi n)) = base128 n"
proof (cases "n = 0")
  case True
  then show ?thesis by (simp add: base128_def)
next
  case False
  then have hi: "base128_hi n = base128_hi (n div 128) @ [of_nat (n mod 128 + 128)]"
    by (rule base128_hi_step [OF neq0_conv [THEN iffD1]])
  let ?l = "length (base128_hi (n div 128))"
  have "base128_out n (Suc ?l) = base128_hi (n div 128) @ [of_nat (n mod 128)]"
    by (subst (2) base128_hi_map) (simp only: base128_out_hi, simp add: div_mult2_eq)
  then show ?thesis by (simp add: hi base128_def)
qed

lemma base128_octet:
  "ucast (drop_bit (7 * i) v AND 0x7f) = (of_nat (unat v div 128 ^ i mod 128) :: byte)" for v :: u64
proof -
  have "(2::nat) ^ (7 * i) = 128 ^ i" by (simp add: power_mult)
  then show ?thesis
    by (simp add: word_unat_eq_iff unat_ucast unat_of_nat word_and_mask_numeral unat_take_bit unat_drop_bit)
qed

lemma or_80: "unat x < 128 \<Longrightarrow> x OR 0x80 = x + 0x80" for x :: byte
  using word_or_push_bit [of x 7 1] by simp

lemma appender_base128_loop:
  "0 < i \<Longrightarrow> appender ma d (add_base128_loop ma d v i) (base128_out (unat v) i)"
proof (induction i)
  case (Suc i)
  let ?g = "unat v div 128 ^ i mod 128"
  let ?b = "of_nat (?g + (if i \<noteq> 0 then 128 else 0)) :: byte"
  have "unat (of_nat ?g :: byte) = ?g" by (simp add: unat_of_nat)
  then have b: "add_base128_loop ma d v (Suc i) = (\<lambda>s. cbb_seq (CBB_add_u8 ma d ?b s) (add_base128_loop ma d v i))"
    by (auto simp: fun_eq_iff base128_octet or_80 Let_def)
  show ?case
  proof (cases "i = 0")
    case True
    have "add_base128_loop ma d v (Suc i) = CBB_add_u8 ma d ?b"
    proof
      fix s
      show "add_base128_loop ma d v (Suc i) s = CBB_add_u8 ma d ?b s"
        unfolding b using True by (cases "CBB_add_u8 ma d ?b s"; cases "fst (CBB_add_u8 ma d ?b s)") auto
    qed
    with True show ?thesis using add_u8.appender_axioms [of ma d ?b] by simp
  next
    case False
    then show ?thesis
      unfolding b using appender_seq [OF add_u8.appender_axioms [of ma d ?b] appender_is_open [OF Suc.IH]] by simp
  qed
qed simp

interpretation add_base128: appender ma d "add_base128_integer ma d v" "base128 (unat v)" for ma d v
proof -
  have "add_base128_integer ma d v =
      add_base128_loop ma d v (if base128_hi (unat v) = [] then 1 else length (base128_hi (unat v)))"
    by (auto simp: add_base128_integer_def base128_len_loop_hi Let_def fun_eq_iff)
  then show "appender ma d (add_base128_integer ma d v) (base128 (unat v))"
    using appender_base128_loop [of "if base128_hi (unat v) = [] then 1 else length (base128_hi (unat v))" ma d v]
    by (simp only: base128_out_base128) (simp split: if_splits)
qed

lemma add_u8_zero: "cbb_buffer_add_u ma b (unat (0 :: byte)) 1 = buffer_append ma [0] b"
  using add_u_append [of 0 1 ma b] by simp

lemma cbb_seq_assoc: "cbb_seq r (\<lambda>s. cbb_seq (f s) g) = cbb_seq (cbb_seq r f) g"
  by (cases r; cases "fst r") auto

lemma appender_ident:
  assumes "num = tag AND CBS_ASN1_TAG_NUMBER_MASK"
    and "hi = (ucast (drop_bit CBS_ASN1_TAG_SHIFT tag) AND 0xe0 :: byte)"
  shows "appender ma d (\<lambda>s. if 0x1f \<le> num
      then cbb_seq (CBB_add_u8 ma d (hi OR 0x1f) s) (add_base128_integer ma d (ucast num))
      else CBB_add_u8 ma d (hi OR ucast num) s) (der_ident tag)"
proof -
  have un: "unat (ucast num :: u64) = unat num"
    using tag_number_less [of tag] unfolding assms(1) by (simp add: unat_ucast)
  have un8: "(ucast num :: byte) = of_nat (unat num)"
    by (simp only: word_unat_eq_iff unat_ucast unat_of_nat)
  show ?thesis
  proof (cases "0x1f \<le> num")
    case True
    then have "0x1f \<le> unat num" by (simp add: word_le_nat_alt)
    then have "der_ident tag = [hi OR 0x1f] @ base128 (unat (ucast num :: u64))"
      unfolding der_ident_def Let_def assms [symmetric] un by simp
    with True show ?thesis
      using appender_seq [OF add_u8.appender_axioms add_base128.open_appender_axioms, of ma d "hi OR 0x1f" "ucast num"]
      by (simp only: if_True)
  next
    case False
    then have "\<not> 0x1f \<le> unat num" by (simp add: word_le_nat_alt)
    then have "der_ident tag = [hi OR ucast num]"
      unfolding der_ident_def Let_def assms [symmetric] un8 by (simp only: if_False)
    with False show ?thesis
      using add_u8.appender_axioms [of ma d "hi OR ucast num"] by (simp only: if_False)
  qed
qed

lemma asn1_link_builds:
  assumes "cbb_builds ma N s fs" and "length fs = Suc d" and "frames_size fs + kind_len Asn1 \<le> N"
  shows "\<exists>s'. (let offset = buffer_length s in
      cbb_seq (CBB_add_u8 ma d 0 s) (\<lambda>s.
        (True, cbb_link d \<lparr>cbb_offset = offset, pending_len_len = 1, pending_is_asn1 = True\<rparr> s))) = (True, s') \<and>
      cbb_builds ma N s' ((Asn1, []) # fs)"
proof -
  from assms(1) obtain b where b: "cbb_base s = Some b" "\<not> berror b"
    "stack_rep (bbuf b) (blen b) fs (cbb_chain s)"
    by (auto simp: cbb_builds_def cbb_rep_def buffer_ok_def)
  have "length (cbb_chain s) = Suc d" using stack_rep_length [OF b(3)] assms(2) by simp
  with b have f: "CBB_flush ma d s = (True, s)" by (intro CBB_flush_leaf)
  from link_builds [OF assms, of "\<lambda>b. cbb_buffer_add_u ma b (unat (0 :: byte)) 1"] add_u8_zero
  show ?thesis by (auto simp: CBB_add_u8_def f Let_def)
qed

interpretation asn1_child: opener ma d "CBB_add_asn1 ma d tag" "der_ident tag" Asn1 for ma d tag
proof -
  note id = appender_seq [OF appender_flush appender_is_open [OF appender_ident [OF refl refl]], of ma d tag]
  show "opener ma d (CBB_add_asn1 ma d tag) (der_ident tag) Asn1"
    unfolding CBB_add_asn1_def Let_def [of "ucast (drop_bit CBS_ASN1_TAG_SHIFT tag) AND 0xe0"]
      Let_def [of "tag AND CBS_ASN1_TAG_NUMBER_MASK"] cbb_seq_assoc
    by (rule opener_seq [OF id [unfolded append_Nil]]) (rule asn1_link_builds)
qed

end
