(* ===== verification/Ssl_Asn1.thy ===== *)
theory Ssl_Asn1
  imports Ssl_Cbb "HOL-Library.Multiset"
begin

text \<open>
  The ASN.1 values \<open>cbb.c\<close> writes and \<open>cbs.c\<close> reads: integers, booleans, octet strings, object
  identifiers and sets, with the properties that relate the two directions.
\<close>

section \<open>Writing values\<close>

text \<open>
  The loop of \<open>CBB_add_asn1_uint64\<close> with \<open>k\<close> bytes to go, and the single zero written when
  nothing was.
\<close>

fun add_uint64_loop :: "(nat \<Rightarrow> bool) \<Rightarrow> nat \<Rightarrow> u64 \<Rightarrow> nat \<Rightarrow> bool \<Rightarrow> cbb_state \<Rightarrow> bool \<times> cbb_state" where
  "add_uint64_loop ma d v 0 started s = (if \<not> started then CBB_add_u8 ma d 0 s else (True, s))"
| "add_uint64_loop ma d v (Suc k) started s =
     (let b = ucast (drop_bit (8 * k) v AND 0xff) :: byte in
      if \<not> started then
        if b = 0 then add_uint64_loop ma d v k False s
        else cbb_seq (if b AND 0x80 \<noteq> 0 then CBB_add_u8 ma d 0 s else (True, s))
               (\<lambda>s. cbb_seq (CBB_add_u8 ma d b s) (add_uint64_loop ma d v k True))
      else cbb_seq (CBB_add_u8 ma d b s) (add_uint64_loop ma d v k True))"

definition CBB_add_asn1_uint64 :: "(nat \<Rightarrow> bool) \<Rightarrow> nat \<Rightarrow> u64 \<Rightarrow> cbb_state \<Rightarrow> bool \<times> cbb_state" where
  "CBB_add_asn1_uint64 ma d v s =
     cbb_seq (cbb_seq (CBB_add_asn1 ma d CBS_ASN1_INTEGER s) (add_uint64_loop ma (Suc d) v 8 False))
       (CBB_flush ma d)"

text \<open>The bytes of the \<open>int64_t\<close> as they lie in memory, and the search for the first one to write.\<close>

fun int64_start :: "bytes \<Rightarrow> nat \<Rightarrow> nat" where
  "int64_start u 0 = 0"
| "int64_start u (Suc start) =
     (if u ! Suc start = 0xff \<and> (u ! start) AND 0x80 \<noteq> 0 then int64_start u start else Suc start)"

fun add_int64_loop :: "(nat \<Rightarrow> bool) \<Rightarrow> nat \<Rightarrow> bytes \<Rightarrow> nat \<Rightarrow> cbb_state \<Rightarrow> bool \<times> cbb_state" where
  "add_int64_loop ma d u 0 s = (True, s)"
| "add_int64_loop ma d u (Suc i) s = cbb_seq (CBB_add_u8 ma d (u ! i) s) (add_int64_loop ma d u i)"

definition CBB_add_asn1_int64 :: "(nat \<Rightarrow> bool) \<Rightarrow> nat \<Rightarrow> u64 \<Rightarrow> cbb_state \<Rightarrow> bool \<times> cbb_state" where
  "CBB_add_asn1_int64 ma d v s =
     (if 0 \<le> sint v then CBB_add_asn1_uint64 ma d v s
      else
        let u = le_bytes 8 v; start = int64_start u 7
        in cbb_seq (cbb_seq (CBB_add_asn1 ma d CBS_ASN1_INTEGER s) (add_int64_loop ma (Suc d) u (Suc start)))
             (CBB_flush ma d))"

definition CBB_add_asn1_octet_string ::
  "(nat \<Rightarrow> bool) \<Rightarrow> nat \<Rightarrow> bytes \<Rightarrow> cbb_state \<Rightarrow> bool \<times> cbb_state" where
  "CBB_add_asn1_octet_string ma d bs s =
     cbb_seq (cbb_seq (CBB_add_asn1 ma d CBS_ASN1_OCTETSTRING s) (CBB_add_bytes ma (Suc d) bs))
       (CBB_flush ma d)"

definition CBB_add_asn1_bool :: "(nat \<Rightarrow> bool) \<Rightarrow> nat \<Rightarrow> bool \<Rightarrow> cbb_state \<Rightarrow> bool \<times> cbb_state" where
  "CBB_add_asn1_bool ma d value s =
     cbb_seq (cbb_seq (CBB_add_asn1 ma d CBS_ASN1_BOOLEAN s)
                (CBB_add_u8 ma (Suc d) (if value then 0xff else 0)))
       (CBB_flush ma d)"

section \<open>Object identifiers\<close>

text \<open>The decimal digits \<open>BIO_snprintf\<close> writes for \<open>PRIu64\<close>.\<close>

fun decimal :: "nat \<Rightarrow> bytes" where
  "decimal n = (if n < 10 then [of_nat (48 + n)] else decimal (n div 10) @ [of_nat (48 + n mod 10)])"
declare decimal.simps [simp del]

definition add_decimal :: "(nat \<Rightarrow> bool) \<Rightarrow> nat \<Rightarrow> u64 \<Rightarrow> cbb_state \<Rightarrow> bool \<times> cbb_state" where
  "add_decimal ma d v s = CBB_add_bytes ma d (decimal (unat v)) s"

lemma base128_loop_decreases: "base128_loop m c v = (Some r, c') \<Longrightarrow> cbs_len c' < cbs_len c"
  by (auto dest!: base128_loop_sound simp: neq_Nil_conv)

lemma parse_base128_decreases: "parse_base128_integer m c = (Some r, c') \<Longrightarrow> cbs_len c' < cbs_len c"
  by (simp add: parse_base128_integer_def base128_loop_decreases)

text \<open>The components behind the first two, separated by dots.\<close>

function oid_to_text_loop :: "(nat \<Rightarrow> bool) \<Rightarrow> mem \<Rightarrow> cbs \<Rightarrow> cbb_state \<Rightarrow> bool \<times> cbb_state" where
  "oid_to_text_loop ma m c s =
     (if cbs_len c = 0 then (True, s)
      else case parse_base128_integer m c of
             (None, _) \<Rightarrow> (False, s)
           | (Some v, c') \<Rightarrow>
               cbb_seq (cbb_seq (CBB_add_u8 ma 0 0x2e s) (add_decimal ma 0 v)) (oid_to_text_loop ma m c'))"
  by pat_completeness auto
termination
  by (relation "measure (\<lambda>(_, _, c, _). cbs_len c)") (auto dest: parse_base128_decreases [OF sym])

declare oid_to_text_loop.simps [simp del]

text \<open>The string with its terminating zero; \<open>buf\<close> is the fresh memory of \<open>CBB_init\<close>.\<close>

definition CBS_asn1_oid_to_text :: "(nat \<Rightarrow> bool) \<Rightarrow> mem \<Rightarrow> mem \<Rightarrow> cbs \<Rightarrow> bytes option" where
  "CBS_asn1_oid_to_text ma buf m c =
     (case CBB_init ma buf 32 of
        None \<Rightarrow> None
      | Some s \<Rightarrow>
     (case parse_base128_integer m c of
        (None, _) \<Rightarrow> None
      | (Some v, c') \<Rightarrow>
          let first =
            (if 80 \<le> v then cbb_seq (CBB_add_bytes ma 0 [0x32, 0x2e] s) (add_decimal ma 0 (v - 80))
             else cbb_seq (cbb_seq (add_decimal ma 0 (v div 40) s) (CBB_add_u8 ma 0 0x2e))
                    (add_decimal ma 0 (v mod 40)))
          in (case cbb_seq (cbb_seq first (oid_to_text_loop ma m c')) (CBB_add_u8 ma 0 0) of
                (False, _) \<Rightarrow> None
              | (True, s) \<Rightarrow> fst (CBB_finish ma 0 s))))"

text \<open>The loop of \<open>parse_dotted_decimal\<close>; the value and \<open>seen_digit\<close>.\<close>

function dotted_decimal_loop :: "mem \<Rightarrow> cbs \<Rightarrow> u64 \<Rightarrow> bool \<Rightarrow> u64 option \<times> cbs" where
  "dotted_decimal_loop m c out seen_digit =
     (let stop = (\<lambda>c'. (if seen_digit then Some out else None, c')) in
      case CBS_get_u8 m c of
        (None, c') \<Rightarrow> stop c'
      | (Some u, c') \<Rightarrow>
          if u = 0x2e \<and> 0 < cbs_len c' then stop c'
          else if u < 0x30 \<or> 0x39 < u \<or> (seen_digit \<and> out = 0) \<or> 0xffffffffffffffff div 10 < out \<or>
                  0xffffffffffffffff - ucast (u - 0x30) < out * 10
          then (None, c')
          else dotted_decimal_loop m c' (out * 10 + ucast (u - 0x30)) True)"
  by pat_completeness auto
termination
  by (relation "measure (\<lambda>(_, c, _). cbs_len c)") (auto dest: CBS_get_u8_decreases [OF sym])

declare dotted_decimal_loop.simps [simp del]

definition parse_dotted_decimal :: "mem \<Rightarrow> cbs \<Rightarrow> u64 option \<times> cbs" where
  "parse_dotted_decimal m c = dotted_decimal_loop m c 0 False"

lemma dotted_decimal_loop_decreases:
  "dotted_decimal_loop m c out seen = (Some r, c') \<Longrightarrow> 0 < cbs_len c \<Longrightarrow> cbs_len c' < cbs_len c"
proof (induction m c out seen rule: dotted_decimal_loop.induct)
  case (1 m c out seen)
  obtain b c1 where u8: "CBS_get_u8 m c = (Some b, c1)" and l: "cbs_len c1 < cbs_len c"
    using "1.prems"(2) CBS_get_u8_decreases
    by (cases "CBS_get_u8 m c"; cases "fst (CBS_get_u8 m c)") (auto simp: CBS_get_u8_def cbs_get_def)
  have stop: ?case if "cbs_len c1 = 0" "dotted_decimal_loop m c1 o' True = (Some r, c')" for o'
    using that l by (subst (asm) dotted_decimal_loop.simps) (auto simp: CBS_get_u8_def cbs_get_def)
  show ?case
    using "1.prems"(1) "1.IH" [OF _ u8 [symmetric]] u8 l stop
    by (subst (asm) dotted_decimal_loop.simps)
       (auto simp: Let_def split: if_splits; cases "cbs_len c1 = 0"; fastforce)
qed

text \<open>The components behind the second.\<close>

function oid_from_text_loop :: "(nat \<Rightarrow> bool) \<Rightarrow> nat \<Rightarrow> mem \<Rightarrow> cbs \<Rightarrow> cbb_state \<Rightarrow> bool \<times> cbb_state" where
  "oid_from_text_loop ma d m c s =
     (if cbs_len c = 0 then (True, s)
      else case parse_dotted_decimal m c of
             (None, _) \<Rightarrow> (False, s)
           | (Some a, c') \<Rightarrow> cbb_seq (add_base128_integer ma d a s) (oid_from_text_loop ma d m c'))"
  by pat_completeness auto
termination
  by (relation "measure (\<lambda>(_, _, _, c, _). cbs_len c)")
     (auto simp: parse_dotted_decimal_def dest: dotted_decimal_loop_decreases [OF sym])

declare oid_from_text_loop.simps [simp del]

definition CBB_add_asn1_oid_from_text ::
  "(nat \<Rightarrow> bool) \<Rightarrow> nat \<Rightarrow> mem \<Rightarrow> nat \<Rightarrow> nat \<Rightarrow> cbb_state \<Rightarrow> bool \<times> cbb_state" where
  "CBB_add_asn1_oid_from_text ma d m text len s =
     cbb_seq (CBB_flush ma d s) (\<lambda>s.
       case parse_dotted_decimal m (CBS_init text len) of
         (None, _) \<Rightarrow> (False, s)
       | (Some a, c1) \<Rightarrow>
      (case parse_dotted_decimal m c1 of
         (None, _) \<Rightarrow> (False, s)
       | (Some b, c2) \<Rightarrow>
           if 2 < a \<or> (a < 2 \<and> 39 < b) \<or> 0xffffffffffffffff - 80 < b then (False, s)
           else cbb_seq (add_base128_integer ma d (40 * a + b) s) (oid_from_text_loop ma d m c2)))"

section \<open>Sets\<close>

text \<open>X.690, section 11.6: ascending order of the encodings.\<close>

definition compare_set_of_element :: "bytes \<Rightarrow> bytes \<Rightarrow> int" where
  "compare_set_of_element a b =
     (let min_len = min (length a) (length b);
          ret = OPENSSL_memcmp (take min_len a) (take min_len b)
      in if ret \<noteq> 0 then ret
         else if length a = length b then 0
         else if length a < length b then - 1 else 1)"

text \<open>The counting loop; \<open>None\<close> when an element does not parse.\<close>

function count_elements :: "mem \<Rightarrow> cbs \<Rightarrow> nat \<Rightarrow> nat option" where
  "count_elements m c num_children =
     (if cbs_len c = 0 then Some num_children
      else case CBS_get_any_asn1_element m c of
             (None, _) \<Rightarrow> None
           | (Some _, c') \<Rightarrow>
               count_elements m c' (Suc num_children))"
  by pat_completeness auto
termination
  by (relation "measure (\<lambda>(_, c, _). cbs_len c)") (auto dest: any_asn1_element_decreases [OF sym])

declare count_elements.simps [simp del]

fun split_elements :: "mem \<Rightarrow> cbs \<Rightarrow> nat \<Rightarrow> bytes list option" where
  "split_elements m c 0 = Some []"
| "split_elements m c (Suc n) =
     (case CBS_get_any_asn1_element m c of
        (None, _) \<Rightarrow> None
      | (Some (child, _, _), c') \<Rightarrow>
          map_option (Cons (region m (cbs_data child) (cbs_len child))) (split_elements m c' n))"

text \<open>The C library's \<open>qsort\<close>; elements it leaves in either order are equal here.\<close>

fun qsort_insert :: "('a \<Rightarrow> 'a \<Rightarrow> int) \<Rightarrow> 'a \<Rightarrow> 'a list \<Rightarrow> 'a list" where
  "qsort_insert cmp x [] = [x]"
| "qsort_insert cmp x (y # ys) = (if cmp x y \<le> 0 then x # y # ys else y # qsort_insert cmp x ys)"

definition qsort :: "('a \<Rightarrow> 'a \<Rightarrow> int) \<Rightarrow> 'a list \<Rightarrow> 'a list" where
  "qsort cmp xs = foldr (qsort_insert cmp) xs []"

fun add_all :: "(nat \<Rightarrow> bool) \<Rightarrow> nat \<Rightarrow> bytes list \<Rightarrow> cbb_state \<Rightarrow> bool \<times> cbb_state" where
  "add_all ma d [] s = (True, s)"
| "add_all ma d (c # cs) s = cbb_seq (CBB_add_bytes ma d c s) (add_all ma d cs)"

definition CBB_flush_asn1_set_of :: "(nat \<Rightarrow> bool) \<Rightarrow> nat \<Rightarrow> cbb_state \<Rightarrow> bool \<times> cbb_state" where
  "CBB_flush_asn1_set_of ma d s =
     cbb_seq (CBB_flush ma d s) (\<lambda>s.
       case cbb_base s of
         None \<Rightarrow> (False, s)
       | Some b \<Rightarrow>
      (case count_elements (bbuf b) (CBS_init (CBB_data d s) (CBB_len d s)) 0 of
         None \<Rightarrow> (False, s)
       | Some num_children \<Rightarrow>
           if num_children < 2 then (True, s)
           else if (SIZE_LIMIT - 1) div 16 < num_children then (False, s)
           else
             let buf_len = CBB_len d s in
             case OPENSSL_memdup ma (bbuf b) (CBB_data d s) buf_len of
               None \<Rightarrow> (False, s)
             | Some copy \<Rightarrow>
                 if \<not> OPENSSL_malloc ma (num_children * 16) then (False, s)
                 else
                (case split_elements (\<lambda>i. copy ! i) (CBS_init 0 buf_len) num_children of
                   None \<Rightarrow> (False, s)
                 | Some children \<Rightarrow>
                     add_all ma d (qsort compare_set_of_element children)
                       (s\<lparr>cbb_base := Some (b\<lparr>blen := CBB_data d s\<rparr>)\<rparr>))))"

lemma word_and_80_eq: "b AND 0x80 = 0 \<longleftrightarrow> unat b < 128" for b :: byte
  using word_and_80 [of b] by (auto simp: not_le)

lemma shift8_bound: "v < 2 ^ 56 \<Longrightarrow> b < 256 \<Longrightarrow> v * 2 ^ 8 + b < (2 :: nat) ^ 64"
  by simp

lemma word_of_int_unat: "int (unat w) = i \<Longrightarrow> w = word_of_int i" for w :: "'a::len word"
  by auto

lemma unat_ucast_byte: "unat (ucast b :: u64) = unat b" for b :: byte
  using unat_byte_less [of b] by (simp only: unat_ucast) (simp del: unat_byte_less)

section \<open>Integers\<close>

text \<open>Two's complement reading, and the minimality X.690 asks for.\<close>

fun asn1_negative :: "bytes \<Rightarrow> bool" where
  "asn1_negative [] = False"
| "asn1_negative (b # _) = (128 \<le> unat b)"

fun asn1_minimal :: "bytes \<Rightarrow> bool" where
  "asn1_minimal [] = False"
| "asn1_minimal [b] = True"
| "asn1_minimal (a # b # _) = (\<not> (a = 0 \<and> unat b < 128) \<and> \<not> (a = 0xff \<and> 128 \<le> unat b))"

definition asn1_int :: "bytes \<Rightarrow> int" where
  "asn1_int bs = int (be_value bs) - (if asn1_negative bs then 256 ^ length bs else 0)"

lemma is_valid_asn1_integer_at:
  assumes "bytes_at m d bs"
  shows "CBS_is_valid_asn1_integer m (cbs_at d (length bs)) =
     (if asn1_minimal bs then Some (asn1_negative bs) else None)"
  using assms
  by (cases bs rule: asn1_minimal.cases)
     (auto simp: CBS_is_valid_asn1_integer_def CBS_get_u8_at word_and_80 word_and_80_eq Let_def)

lemma drop_bit_56: "drop_bit 56 v = 0 \<longleftrightarrow> unat v < 2 ^ 56" for v :: u64
  by (simp add: word_unat_eq_iff unat_drop_bit div_eq_0_iff)

lemma asn1_uint64_loop_eq:
  "asn1_uint64_loop bs v =
     (if unat v * 256 ^ length bs + be_value bs < 2 ^ 64
      then Some (of_nat (unat v * 256 ^ length bs + be_value bs)) else None)"
proof (induction bs arbitrary: v)
  case Nil
  have "unat v < 2 ^ 64" using unsigned_less [of v, where 'a = nat] by simp
  then show ?case using word_of_unat [of v] by simp
next
  case (Cons b bs)
  have bv: "be_value (b # bs) = unat b * 256 ^ length bs + be_value bs"
    by (induction bs rule: rev_induct) (simp_all add: be_value_def algebra_simps)
  show ?case
  proof (cases "unat v < 2 ^ 56")
    case True
    have ub: "unat (ucast b :: u64) = unat b" by (rule unat_ucast_byte)
    have "unat v * 2 ^ 8 + unat b < 2 ^ 64" by (rule shift8_bound [OF True unat_byte_less])
    then have "unat (push_bit 8 v OR ucast b) = unat v * 256 + unat b"
      using unat_push_or [of "ucast b :: u64" 8 v] ub by simp
    with True Cons.IH show ?thesis
      by (simp add: drop_bit_56 bv algebra_simps)
  next
    case False
    then have "2 ^ 56 * 256 \<le> unat v * (256 :: nat)" by (intro mult_le_mono1) simp
    also have "\<dots> \<le> unat v * 256 ^ length (b # bs)" by simp
    finally have "\<not> unat v * 256 ^ length (b # bs) + be_value (b # bs) < 2 ^ 64" by simp
    with False show ?thesis by (simp add: drop_bit_56)
  qed
qed

text \<open>Reading an element whose contents are known.\<close>

lemma CBS_get_asn1_at:
  assumes "bytes_at m d (der_element tag body)" and "length (der_element tag body) \<le> l"
    and "length body < 2 ^ 32"
  shows "CBS_get_asn1 m (cbs_at d l) tag =
     (Some (cbs_at (d + length (der_header tag (length body))) (length body)),
      cbs_at (d + length (der_element tag body)) (l - length (der_element tag body)))"
  using der_element_complete [OF assms]
  by (simp add: CBS_get_asn1_def cbs_get_asn1_def CBS_get_any_asn1_element_def CBS_skip_def cbs_get_at
      der_element_def)

lemma body_at: "bytes_at m d (der_element tag body) \<Longrightarrow> bytes_at m (d + length (der_header tag (length body))) body"
  by (simp add: der_element_def)

lemma CBS_get_asn1_uint64_at:
  assumes "bytes_at m d (der_element CBS_ASN1_INTEGER body)" and "length (der_element CBS_ASN1_INTEGER body) \<le> l"
    and "length body < 2 ^ 32"
  shows "CBS_get_asn1_uint64 m (cbs_at d l) =
     (if asn1_minimal body \<and> \<not> asn1_negative body \<and> be_value body < 2 ^ 64
      then Some (of_nat (be_value body)) else None,
      cbs_at (d + length (der_element CBS_ASN1_INTEGER body)) (l - length (der_element CBS_ASN1_INTEGER body)))"
  using bytes_atD [OF body_at [OF assms(1)]]
  by (simp add: CBS_get_asn1_uint64_def CBS_get_asn1_at [OF assms] CBS_is_unsigned_asn1_integer_def
      is_valid_asn1_integer_at [OF body_at [OF assms(1)]] asn1_uint64_loop_eq)

lemma le_word_append: "le_word (xs @ ys) = le_word xs OR push_bit (8 * length xs) (le_word ys)"
  by (induction xs) (simp_all add: push_bit_or or.assoc)

lemma unat_le_word: "length bs \<le> 8 \<Longrightarrow> unat (le_word bs :: u64) = be_value (rev bs)"
proof (induction bs)
  case (Cons b bs)
  let ?w = "le_word bs :: u64"
  have "be_value (rev bs) < 256 ^ length bs" using be_value_less [of "rev bs"] by simp
  also have "\<dots> \<le> 256 ^ 7" using Cons.prems by (intro power_increasing) simp_all
  finally have lt: "be_value (rev bs) < 2 ^ 56" by simp
  have ub: "unat (ucast b :: u64) = unat b" by (rule unat_ucast_byte)
  have uw: "unat ?w = be_value (rev bs)" using Cons by simp
  have "unat ?w * 2 ^ 8 + unat b < 2 ^ 64" by (rule shift8_bound [OF _ unat_byte_less]) (use lt uw in simp)
  then have "unat (push_bit 8 ?w OR ucast b) = unat ?w * 256 + unat b"
    using unat_push_or [of "ucast b :: u64" 8 ?w] ub by simp
  then show ?case using uw by (simp add: or.commute)
qed simp

lemma be_value_append: "be_value (xs @ ys) = be_value xs * 256 ^ length ys + be_value ys"
  by (induction ys rule: rev_induct) (simp_all add: algebra_simps append_assoc [symmetric] del: append_assoc)

lemma be_value_replicate_0 [simp]: "be_value (replicate n 0) = 0"
proof (induction n)
  case (Suc n)
  have "replicate (Suc n) (0 :: byte) = replicate n 0 @ [0]" by (simp add: replicate_append_same)
  with Suc show ?case by simp
qed simp

lemma be_value_replicate_ff: "be_value (replicate n 0xff) = 256 ^ n - 1"
proof (induction n)
  case (Suc n)
  have "replicate (Suc n) (0xff :: byte) = replicate n 0xff @ [0xff]" by (simp add: replicate_append_same)
  then have "be_value (replicate (Suc n) (0xff :: byte)) = (256 ^ n - 1) * 256 + 255" using Suc by simp
  also have "\<dots> = 256 ^ Suc n - 1"
    using one_le_power [of "256 :: nat" n] by (simp add: diff_mult_distrib)
  finally show ?case .
qed simp


lemma CBS_get_asn1_int64_at:
  assumes "bytes_at m d (der_element CBS_ASN1_INTEGER body)" and "length (der_element CBS_ASN1_INTEGER body) \<le> l"
    and "length body < 2 ^ 32"
  shows "CBS_get_asn1_int64 m (cbs_at d l) =
     (if asn1_minimal body \<and> length body \<le> 8 then Some (word_of_int (asn1_int body)) else None,
      cbs_at (d + length (der_element CBS_ASN1_INTEGER body)) (l - length (der_element CBS_ASN1_INTEGER body)))"
proof -
  let ?n = "length body" and ?s = "if asn1_negative body then 0xff else (0 :: byte)"
  have "le_word (rev body @ replicate (8 - ?n) ?s) = (word_of_int (asn1_int body) :: u64)" if "?n \<le> 8"
  proof -
    have p: "(256 :: nat) ^ (8 - ?n) * 256 ^ ?n = 2 ^ 64"
      using that by (simp flip: power_add)
    have pi: "(256 :: int) ^ (8 - ?n) * 256 ^ ?n = 2 ^ 64"
      using arg_cong [OF p, of int] by simp
    have "unat (le_word (rev body @ replicate (8 - ?n) ?s) :: u64) = be_value (replicate (8 - ?n) ?s @ body)"
      using unat_le_word [of "rev body @ replicate (8 - ?n) ?s"] that by simp
    also have "\<dots> = be_value (replicate (8 - ?n) ?s) * 256 ^ ?n + be_value body"
      by (rule be_value_append)
    finally have u: "unat (le_word (rev body @ replicate (8 - ?n) ?s) :: u64) =
        be_value (replicate (8 - ?n) ?s) * 256 ^ ?n + be_value body" .
    have "int (unat (le_word (rev body @ replicate (8 - ?n) ?s) :: u64)) =
        asn1_int body + (if asn1_negative body then 2 ^ 64 else 0)"
    proof (cases "asn1_negative body")
      case True
      have "1 \<le> (256 :: nat) ^ (8 - ?n)" by simp
      then have "int (256 ^ (8 - ?n) - 1) * 256 ^ ?n = 2 ^ 64 - 256 ^ ?n"
        using pi by (simp add: of_nat_diff left_diff_distrib)
      with True u show ?thesis by (simp add: asn1_int_def be_value_replicate_ff)
    next
      case False
      with u show ?thesis by (simp add: asn1_int_def)
    qed
    then have "le_word (rev body @ replicate (8 - ?n) ?s) =
        (word_of_int (asn1_int body + (if asn1_negative body then 2 ^ 64 else 0)) :: u64)"
      by (rule word_of_int_unat)
    also have "\<dots> = word_of_int (asn1_int body)" by (simp flip: word_of_int_2p_len)
    finally show ?thesis .
  qed
  then show ?thesis
    using bytes_atD [OF body_at [OF assms(1)]]
    by (simp add: CBS_get_asn1_int64_def CBS_get_asn1_at [OF assms]
        is_valid_asn1_integer_at [OF body_at [OF assms(1)]] Let_def)
qed

text \<open>The octets \<open>CBB_add_asn1_uint64\<close> writes.\<close>

fun uint64_out :: "nat \<Rightarrow> nat \<Rightarrow> bool \<Rightarrow> bytes" where
  "uint64_out v 0 started = (if started then [] else [0])"
| "uint64_out v (Suc k) started =
     (let b = of_nat (v div 256 ^ k) :: byte in
      if started then b # uint64_out v k True
      else if b = 0 then uint64_out v k False
      else (if 128 \<le> unat b then [0] else []) @ b # uint64_out v k True)"

lemma uint64_octet: "ucast (drop_bit (8 * k) v AND 0xff) = (of_nat (unat v div 256 ^ k) :: byte)" for v :: u64
proof -
  have "(2::nat) ^ (8 * k) = 256 ^ k" by (simp add: power_mult)
  then show ?thesis
    by (simp add: ucast_and_FF word_unat_eq_iff unat_ucast unat_of_nat unat_drop_bit)
qed

lemma appender_uint64_loop:
  "open_appender ma d (add_uint64_loop ma d v k started) (uint64_out (unat v) k started)"
proof (induction k arbitrary: started)
  case 0
  show ?case
    using open_appender_skip [of ma d] add_u8.open_appender_axioms [of ma d 0]
    by (cases started) (simp_all cong: open_appender_def)
next
  case (Suc k)
  let ?b = "of_nat (unat v div 256 ^ k) :: byte"
  have later: "open_appender ma d (\<lambda>s. cbb_seq (CBB_add_u8 ma d ?b s) (add_uint64_loop ma d v k True))
      ([?b] @ uint64_out (unat v) k True)"
    by (rule open_appender_seq [OF add_u8.open_appender_axioms Suc.IH])
  have pad: "open_appender ma d (\<lambda>s. if ?b AND 0x80 \<noteq> 0 then CBB_add_u8 ma d 0 s else (True, s))
      (if 128 \<le> unat ?b then [0] else [])"
    using open_appender_skip [of ma d] add_u8.open_appender_axioms [of ma d 0]
    by (cases "128 \<le> unat ?b") (simp_all only: word_and_80 if_True if_False simp_thms)
  note first = open_appender_seq [OF pad later]
  consider "started" | "\<not> started" "?b = 0" | "\<not> started" "?b \<noteq> 0" by blast
  then show ?case
  proof cases
    case 1
    then show ?thesis using later by (simp add: uint64_octet Let_def)
  next
    case 2
    then show ?thesis using Suc.IH [of False] by (simp add: uint64_octet Let_def)
  next
    case 3
    then show ?thesis using first by (simp add: uint64_octet Let_def)
  qed
qed


lemma be_value_Cons: "be_value (b # bs) = unat b * 256 ^ length bs + be_value bs"
  using be_value_append [of "[b]" bs] by (simp add: be_value_def)

lemma uint64_out_started:
  "length (uint64_out v k True) = k \<and> be_value (uint64_out v k True) = v mod 256 ^ k"
proof (induction k)
  case (Suc k)
  have "v mod 256 ^ Suc k = v div 256 ^ k mod 256 * 256 ^ k + v mod 256 ^ k"
    using mod_mult2_eq [of v "256 ^ k" 256] by (simp add: mult.commute)
  with Suc show ?case by (simp add: be_value_Cons unat_of_nat Let_def)
qed simp

lemma uint64_out_first:
  "be_value (uint64_out v k False) = v mod 256 ^ k \<and> asn1_minimal (uint64_out v k False) \<and>
   \<not> asn1_negative (uint64_out v k False) \<and> length (uint64_out v k False) \<le> Suc k"
proof (induction k)
  case (Suc k)
  let ?b = "of_nat (v div 256 ^ k) :: byte" and ?rest = "uint64_out v k True"
  note rest = uint64_out_started [of v k]
  have split: "v mod 256 ^ Suc k = v div 256 ^ k mod 256 * 256 ^ k + v mod 256 ^ k"
    using mod_mult2_eq [of v "256 ^ k" 256] by (simp add: mult.commute)
  have b: "unat ?b = v div 256 ^ k mod 256" by (simp add: unat_of_nat)
  show ?case
  proof (cases "?b = 0")
    case True
    then have "unat ?b = 0" by simp
    with b have "v mod 256 ^ Suc k = v mod 256 ^ k" unfolding split by simp
    with True Suc show ?thesis by (simp add: Let_def)
  next
    case False
    then have nz: "unat ?b \<noteq> 0" by (simp add: unat_eq_0)
    have val: "be_value (?b # ?rest) = v mod 256 ^ Suc k"
      unfolding split be_value_Cons using rest b by simp
    show ?thesis
    proof (cases "128 \<le> unat ?b")
      case True
      have "uint64_out v (Suc k) False = 0 # ?b # ?rest" using False True by (simp add: Let_def)
      then show ?thesis using val True rest by (simp add: be_value_Cons)
    next
      case small: False
      have eq: "uint64_out v (Suc k) False = ?b # ?rest" using False small by (simp add: Let_def)
      have "?b \<noteq> 0xff" using small by auto
      then have "asn1_minimal (?b # ?rest)" using False by (cases ?rest) auto
      then show ?thesis using val small rest unfolding eq by simp
    qed
  qed
qed (simp add: be_value_def)

lemma uint64_out_8:
  fixes v :: u64
  shows "be_value (uint64_out (unat v) 8 False) = unat v"
    and "asn1_minimal (uint64_out (unat v) 8 False)" and "\<not> asn1_negative (uint64_out (unat v) 8 False)"
    and "length (uint64_out (unat v) 8 False) \<le> 9"
  using uint64_out_first [of "unat v" 8] unsigned_less [of v, where 'a = nat] by simp_all

interpretation add_asn1_uint64: appender ma d "CBB_add_asn1_uint64 ma d v"
  "der_element CBS_ASN1_INTEGER (uint64_out (unat v) 8 False)" for ma d v
proof -
  have "frame_fits Asn1 (uint64_out (unat v) 8 False)" using uint64_out_8(4) [of v] by simp
  from appender_child_flush [OF asn1_child.opener_axioms [of ma d CBS_ASN1_INTEGER] appender_uint64_loop this]
  show "appender ma d (CBB_add_asn1_uint64 ma d v) (der_element CBS_ASN1_INTEGER (uint64_out (unat v) 8 False))"
    by (simp add: CBB_add_asn1_uint64_def [abs_def] der_element_def der_header_def)
qed

text \<open>Negative numbers.\<close>

definition sign_extended :: "bytes \<Rightarrow> nat \<Rightarrow> bool" where
  "sign_extended u k \<longleftrightarrow> 128 \<le> unat (u ! k) \<and> (\<forall>j. k < j \<and> j < length u \<longrightarrow> u ! j = 0xff)"

lemma int64_start_minimal:
  assumes "sign_extended u k" and "k < length u"
  shows "int64_start u k \<le> k \<and> sign_extended u (int64_start u k) \<and>
    (\<forall>i. int64_start u k = Suc i \<longrightarrow> \<not> (u ! Suc i = 0xff \<and> 128 \<le> unat (u ! i)))"
  using assms
proof (induction k)
  case (Suc k)
  show ?case
  proof (cases "u ! Suc k = 0xff \<and> 128 \<le> unat (u ! k)")
    case True
    with Suc.prems have "sign_extended u k"
      by (auto simp: sign_extended_def) (metis Suc_lessI)
    with Suc True show ?thesis by (auto simp: word_and_80)
  next
    case False
    with Suc show ?thesis by (auto simp: word_and_80 word_and_80_eq)
  qed
qed simp

lemma add_int64_loop_out: "open_appender ma d (add_int64_loop ma d u k) (map ((!) u) (rev [0..<k]))"
proof (induction k)
  case 0
  show ?case by (rule open_appender.intro) simp
next
  case (Suc k)
  from open_appender_seq [OF add_u8.open_appender_axioms [of ma d "u ! k"] Suc]
  show ?case by simp
qed

lemma negative_octets:
  assumes "length u = n" and "k < n" and "sign_extended u k"
  shows "int (be_value (map ((!) u) (rev [0..<Suc k]))) - 256 ^ Suc k = int (be_value (rev u)) - 256 ^ n"
proof -
  have "rev u = map ((!) u) (rev [0..<n])" using assms(1) by (metis map_nth rev_map)
  also have "[0..<n] = [0..<Suc k] @ [Suc k..<n]" using assms(2) upt_add_eq_append [of 0 "Suc k" "n - Suc k"] by simp
  also have "map ((!) u) (rev ([0..<Suc k] @ [Suc k..<n])) = replicate (n - Suc k) 0xff @ map ((!) u) (rev [0..<Suc k])"
    using assms by (auto simp: sign_extended_def rev_map intro!: replicate_eqI)
  finally have "be_value (rev u) = (256 ^ (n - Suc k) - 1) * 256 ^ Suc k + be_value (map ((!) u) (rev [0..<Suc k]))"
    by (simp add: be_value_append be_value_replicate_ff del: upt_Suc)
  moreover have "int ((256 ^ (n - Suc k) - 1) * 256 ^ Suc k) = 256 ^ n - 256 ^ Suc k"
  proof -
    have "(256 :: int) ^ (n - Suc k) * 256 ^ Suc k = 256 ^ n"
      using assms(2) by (simp only: power_add [symmetric]) simp
    moreover have "1 \<le> (256 :: nat) ^ (n - Suc k)" by simp
    ultimately show ?thesis by (simp add: of_nat_diff left_diff_distrib del: power_Suc)
  qed
  ultimately show ?thesis by simp
qed


definition int64_out :: "u64 \<Rightarrow> bytes" where
  "int64_out v =
     (if 0 \<le> sint v then uint64_out (unat v) 8 False
      else map ((!) (le_bytes 8 v)) (rev [0..<Suc (int64_start (le_bytes 8 v) 7)]))"

lemma sint_unat: "sint v = int (unat v) - (if sint v < 0 then 2 ^ 64 else 0)" for v :: u64
  unfolding sint_negative_iff using sint_via_uint [of v] by simp

lemma le_bytes_7: "128 \<le> unat (le_bytes 8 v ! 7) \<longleftrightarrow> sint v < 0" for v :: u64
proof -
  have "le_bytes 8 v ! 7 = ucast (drop_bit 56 v)" by (simp add: numeral_eq_Suc)
  moreover have "128 \<le> unat (ucast (drop_bit 56 v) :: byte) \<longleftrightarrow> bit (ucast (drop_bit 56 v) :: byte) 7"
    using word_and_80 [of "ucast (drop_bit 56 v)"] and_exp_eq_0_iff_not_bit [of "ucast (drop_bit 56 v) :: byte" 7]
    by simp
  moreover have "bit (ucast (drop_bit 56 v) :: byte) 7 \<longleftrightarrow> bit v 63" by (simp add: bit_simps)
  ultimately show ?thesis by (simp add: sint_negative_iff)
qed

lemma uint64_out_short:
  "v < 128 * 256 ^ k \<Longrightarrow> length (uint64_out v (Suc k) False) \<le> Suc k"
proof -
  assume v: "v < 128 * 256 ^ k"
  let ?b = "of_nat (v div 256 ^ k) :: byte"
  have lt: "v div 256 ^ k < 128" using v by (simp add: less_mult_imp_div_less)
  then have "unat ?b = v div 256 ^ k" by (simp add: unat_of_nat)
  with lt have "\<not> 128 \<le> unat ?b" by simp
  then show ?thesis
    using uint64_out_first [of v k] uint64_out_started [of v k] by (simp add: Let_def)
qed

lemma rev_le_bytes_value: "be_value (rev (le_bytes 8 v)) = unat v" for v :: u64
  using unat_le_word [of "le_bytes 8 v"] le_word_le_bytes_full [of 8 v] by simp

lemma int64_out_nonneg:
  assumes "0 \<le> sint v"
  shows "asn1_int (int64_out v) = sint v" "asn1_minimal (int64_out v)" "length (int64_out v) \<le> 8"
proof -
  have v: "sint v = int (unat v)" using sint_unat [of v] assms by simp
  have "sint v < 2 ^ 63" using sint_less [of v] by simp
  then have "int (unat v) < int (128 * 256 ^ 7)" unfolding v [symmetric] by simp
  then have "unat v < 128 * 256 ^ 7" by (simp only: of_nat_less_iff)
  from uint64_out_short [OF this] have "length (uint64_out (unat v) 8 False) \<le> 8" by simp
  with uint64_out_8 [of v] assms v show "asn1_int (int64_out v) = sint v" "asn1_minimal (int64_out v)"
    "length (int64_out v) \<le> 8"
    by (simp_all add: int64_out_def asn1_int_def)
qed

lemma int64_out_negative:
  assumes "sint v < 0"
  shows "asn1_int (int64_out v) = sint v" "asn1_minimal (int64_out v)" "length (int64_out v) \<le> 8"
proof -
  define u where "u = le_bytes 8 v"
  define k where "k = int64_start u 7"
  have out: "int64_out v = map ((!) u) (rev [0..<Suc k])"
    using assms unfolding int64_out_def u_def k_def by simp
  have lu: "length u = 8" by (simp add: u_def)
  have "128 \<le> unat (u ! 7)" unfolding u_def le_bytes_7 by (rule assms)
  then have "sign_extended u 7" using lu by (auto simp: sign_extended_def)
  from int64_start_minimal [OF this] lu have k: "k \<le> 7" "sign_extended u k"
    and min: "\<And>i. k = Suc i \<Longrightarrow> \<not> (u ! Suc i = 0xff \<and> 128 \<le> unat (u ! i))"
    by (auto simp: k_def)
  show "length (int64_out v) \<le> 8" using k(1) by (simp add: out)
  have hd: "128 \<le> unat (u ! k)" using k(2) by (simp add: sign_extended_def)
  have neg: "asn1_negative (int64_out v)" using hd by (simp add: out)
  have "int (be_value (int64_out v)) - 256 ^ Suc k = int (unat v) - 256 ^ 8"
    using negative_octets [OF lu _ k(2)] k(1) rev_le_bytes_value [of v] unfolding out u_def by simp
  moreover have "length (int64_out v) = Suc k" by (simp add: out)
  ultimately show "asn1_int (int64_out v) = sint v"
    using neg sint_unat [of v] assms by (simp add: asn1_int_def)
  show "asn1_minimal (int64_out v)"
  proof (cases k)
    case (Suc i)
    have "u ! k \<noteq> 0" using hd by auto
    with Suc min [OF Suc] show ?thesis by (auto simp: out)
  qed (simp add: out)
qed

interpretation add_asn1_int64: appender ma d "CBB_add_asn1_int64 ma d v"
  "der_element CBS_ASN1_INTEGER (int64_out v)" for ma d v
proof -
  show "appender ma d (CBB_add_asn1_int64 ma d v) (der_element CBS_ASN1_INTEGER (int64_out v))"
  proof (cases "0 \<le> sint v")
  case True
  then have "CBB_add_asn1_int64 ma d v = CBB_add_asn1_uint64 ma d v"
    by (simp add: CBB_add_asn1_int64_def fun_eq_iff)
  with True add_asn1_uint64.appender_axioms [of ma d v] show ?thesis by (simp add: int64_out_def)
next
  case False
  then have "frame_fits Asn1 (int64_out v)" using int64_out_negative(3) [of v] by simp
  moreover have "int64_out v = map ((!) (le_bytes 8 v)) (rev [0..<Suc (int64_start (le_bytes 8 v) 7)])"
    using False by (simp only: int64_out_def if_False)
  ultimately show ?thesis
    using False appender_child_flush [OF asn1_child.opener_axioms [of ma d CBS_ASN1_INTEGER]
        add_int64_loop_out [of ma "Suc d" "le_bytes 8 v" "Suc (int64_start (le_bytes 8 v) 7)"]]
    by (simp add: CBB_add_asn1_int64_def [abs_def] der_element_def der_header_def Let_def del: upt_Suc map_append)
qed
qed

section \<open>Strings and booleans\<close>

lemma add_octet_string_appender:
  assumes "length bs \<le> 0xfffffffe"
  shows "appender ma d (CBB_add_asn1_octet_string ma d bs) (der_element CBS_ASN1_OCTETSTRING bs)"
proof -
  have "frame_fits Asn1 bs" using assms by simp
  from appender_child_flush [OF asn1_child.opener_axioms [of ma d CBS_ASN1_OCTETSTRING]
      add_bytes.open_appender_axioms this]
  show ?thesis by (simp add: CBB_add_asn1_octet_string_def [abs_def] der_element_def der_header_def)
qed

interpretation add_asn1_bool: appender ma d "CBB_add_asn1_bool ma d b"
  "der_element CBS_ASN1_BOOLEAN [if b then 0xff else 0]" for ma d b
proof -
  have "frame_fits Asn1 [if b then 0xff else (0 :: byte)]" by simp
  from appender_child_flush [OF asn1_child.opener_axioms [of ma d CBS_ASN1_BOOLEAN]
      add_u8.open_appender_axioms this]
  show "appender ma d (CBB_add_asn1_bool ma d b) (der_element CBS_ASN1_BOOLEAN [if b then 0xff else 0])"
    by (simp add: CBB_add_asn1_bool_def [abs_def] der_element_def der_header_def)
qed

section \<open>Whole outputs\<close>

text \<open>The client that opens a builder with \<open>CBB_init\<close>, runs \<open>oper\<close> and calls \<open>CBB_finish\<close>.\<close>

definition cbb_output :: "(nat \<Rightarrow> bool) \<Rightarrow> mem \<Rightarrow> nat \<Rightarrow> (cbb_state \<Rightarrow> bool \<times> cbb_state) \<Rightarrow> bytes option" where
  "cbb_output ma buf cap oper =
     (case CBB_init ma buf cap of
        None \<Rightarrow> None
      | Some s \<Rightarrow> (case oper s of (False, _) \<Rightarrow> None | (True, s') \<Rightarrow> fst (CBB_finish ma 0 s')))"

lemma cbb_output_builds:
  assumes "\<And>n. ma n" and "cap < 2 ^ 62" and "N < 2 ^ 62"
    and "\<And>s. cbb_builds ma N s [(Top, [])] \<Longrightarrow>
           \<exists>s' fs. oper s = (True, s') \<and> cbb_builds ma N s' fs \<and> can_close 0 fs \<and>
             closed 0 fs = [(Top, out)] \<and> length out \<le> N"
  shows "cbb_output ma buf cap oper = Some out"
proof -
  have mal: "OPENSSL_malloc ma k" if "k < 2 ^ 62" for k
    using that assms(1) by (simp add: OPENSSL_malloc_def OPENSSL_MALLOC_PREFIX_def size_add_exact SIZE_LIMIT_def)
  define b where "b = \<lparr>bbuf = buf, blen = 0, bcap = cap, can_resize = True, berror = False\<rparr>"
  define s where "s = \<lparr>cbb_base = Some b, cbb_chain = [CBB_zero]\<rparr>"
  have init: "CBB_init ma buf cap = Some s"
    using mal [of cap] mal [of 40] assms(2) by (simp add: CBB_init_def cbb_init_def s_def b_def)
  have "cbb_rep s b [(Top, [])]"
    using assms(2) by (simp add: cbb_rep_def s_def b_def buffer_ok_def CBB_zero_def SIZE_LIMIT_def)
  moreover have "roomy ma N b" using assms(1,3) by (simp add: roomy_def b_def)
  ultimately have "cbb_builds ma N s [(Top, [])]" by (auto simp: cbb_builds_def)
  from assms(4) [OF this] obtain s' fs where s': "oper s = (True, s')" "cbb_builds ma N s' fs"
    "can_close 0 fs" "closed 0 fs = [(Top, out)]" "length out \<le> N" by blast
  have "frames_size (closed 0 fs) \<le> N" using s'(4,5) by (simp add: frames_size_def)
  from flush_builds [OF s'(2,3) this] obtain s2 b2 where s2: "CBB_flush ma 0 s' = (True, s2)"
    "cbb_rep s2 b2 [(Top, out)]" unfolding s'(4) by (auto simp: cbb_builds_def)
  then have "cbb_base s2 = Some b2" "stack_rep (bbuf b2) (blen b2) [(Top, out)] (cbb_chain s2)"
    by (simp_all add: cbb_rep_def)
  then have "blen b2 = length out" "bytes_at (bbuf b2) 0 out"
    using stack_rep_size [of "bbuf b2" "blen b2" "[(Top, out)]"]
    by (auto simp: frames_size_def; cases "cbb_chain s2"; auto)+
  with \<open>cbb_base s2 = Some b2\<close> s2(1) bytes_atD [of "bbuf b2" 0 out] have "fst (CBB_finish ma 0 s') = Some out"
    by (simp add: CBB_finish_def)
  with init s'(1) show ?thesis by (simp add: cbb_output_def)
qed

lemma cbb_output_appender:
  assumes "open_appender ma 0 oper out" and "\<And>n. ma n" and "cap < 2 ^ 62" and "length out < 2 ^ 62"
  shows "cbb_output ma buf cap oper = Some out"
proof (rule cbb_output_builds [OF assms(2,3,4)])
  fix s assume "cbb_builds ma (length out) s [(Top, [])]"
  from open_appender.appends_open [OF assms(1) this]
  obtain s' where "oper s = (True, s')" "cbb_builds ma (length out) s' [(Top, out)]"
    by (auto simp: frames_size_def)
  then show "\<exists>s' fs. oper s = (True, s') \<and> cbb_builds ma (length out) s' fs \<and> can_close 0 fs \<and>
      closed 0 fs = [(Top, out)] \<and> length out \<le> length out"
    by (auto simp: can_close_id closed_id)
qed

section \<open>Nested outputs\<close>

text \<open>
  A client of the builder: raw bytes, length-prefixed groups and ASN.1 elements, nested as it
  likes. A child is never flushed by the client: the next operation on its parent does it.
\<close>

datatype item = Raw bytes | Group nat "item list" | Element u32 "item list"

fun item_bytes :: "item \<Rightarrow> bytes" where
  "item_bytes (Raw bs) = bs"
| "item_bytes (Group n is) = close_frame (Prefix n) (concat (map item_bytes is))"
| "item_bytes (Element tag is) = der_element tag (concat (map item_bytes is))"

fun item_fits :: "item \<Rightarrow> bool" where
  "item_fits (Raw bs) = True"
| "item_fits (Group n is) =
     (0 < n \<and> n \<le> 3 \<and> list_all item_fits is \<and> frame_fits (Prefix n) (concat (map item_bytes is)))"
| "item_fits (Element tag is) =
     (list_all item_fits is \<and> frame_fits Asn1 (concat (map item_bytes is)))"

fun emit :: "(nat \<Rightarrow> bool) \<Rightarrow> nat \<Rightarrow> item \<Rightarrow> cbb_state \<Rightarrow> bool \<times> cbb_state"
  and emit_items :: "(nat \<Rightarrow> bool) \<Rightarrow> nat \<Rightarrow> item list \<Rightarrow> cbb_state \<Rightarrow> bool \<times> cbb_state" where
  "emit ma d (Raw bs) s = CBB_add_bytes ma d bs s"
| "emit ma d (Group n is) s = cbb_seq (cbb_add_length_prefixed ma d n s) (emit_items ma (Suc d) is)"
| "emit ma d (Element tag is) s = cbb_seq (CBB_add_asn1 ma d tag s) (emit_items ma (Suc d) is)"
| "emit_items ma d [] s = (True, s)"
| "emit_items ma d (i # is) s = cbb_seq (emit ma d i s) (emit_items ma d is)"

definition emits_at :: "(nat \<Rightarrow> bool) \<Rightarrow> nat \<Rightarrow> (cbb_state \<Rightarrow> bool \<times> cbb_state) \<Rightarrow> bytes \<Rightarrow> bool" where
  "emits_at ma d oper out \<longleftrightarrow>
     (\<forall>N s fs. cbb_builds ma N s fs \<and> can_close d fs \<and> frames_size (closed d fs) + length out \<le> N \<longrightarrow>
        (\<exists>s' fs'. oper s = (True, s') \<and> cbb_builds ma N s' fs' \<and> can_close d fs' \<and>
           closed d fs' = add_to_frame out (closed d fs)))"

lemma emits_at_appender: "appender ma d oper out \<Longrightarrow> emits_at ma d oper out"
  unfolding emits_at_def
  by (metis appender.appends can_close_def can_close_id closed_id length_add_to_frame length_closed)

lemma emits_atD:
  "emits_at ma d oper out \<Longrightarrow> cbb_builds ma N s fs \<Longrightarrow> can_close d fs \<Longrightarrow>
   frames_size (closed d fs) + length out \<le> N \<Longrightarrow>
   \<exists>s' fs'. oper s = (True, s') \<and> cbb_builds ma N s' fs' \<and> can_close d fs' \<and>
     closed d fs' = add_to_frame out (closed d fs)"
  unfolding emits_at_def by blast

lemma emits_at_skip: "emits_at ma d (\<lambda>s. (True, s)) []"
  unfolding emits_at_def by auto

lemma emits_at_seq:
  assumes "emits_at ma d f a" and "emits_at ma d g b"
  shows "emits_at ma d (\<lambda>s. cbb_seq (f s) g) (a @ b)"
  unfolding emits_at_def
proof (intro allI impI, elim conjE)
  fix N s fs
  assume s: "cbb_builds ma N s fs" "can_close d fs" "frames_size (closed d fs) + length (a @ b) \<le> N"
  have ne: "closed d fs \<noteq> []" using s(2) length_closed [of d fs] by (auto simp: can_close_def)
  obtain s1 fs1 where 1: "f s = (True, s1)" "cbb_builds ma N s1 fs1" "can_close d fs1"
    "closed d fs1 = add_to_frame a (closed d fs)"
    using emits_atD [OF assms(1) s(1,2)] s(3) by auto
  have "frames_size (closed d fs1) + length b \<le> N" using s(3) by (simp add: 1(4) frames_size_add [OF ne])
  then obtain s2 fs2 where "g s1 = (True, s2)" "cbb_builds ma N s2 fs2" "can_close d fs2"
    "closed d fs2 = add_to_frame b (closed d fs1)"
    using emits_atD [OF assms(2) 1(2,3)] by blast
  with 1 show "\<exists>s' fs'. cbb_seq (f s) g = (True, s') \<and> cbb_builds ma N s' fs' \<and> can_close d fs' \<and>
      closed d fs' = add_to_frame (a @ b) (closed d fs)" by (intro exI [of _ s2] exI [of _ fs2]) simp
qed

lemma closed_outer:
  assumes "can_close (Suc d) fs" and "closed (Suc d) fs = (k, c) # F" and "frame_fits k c"
  shows "can_close d fs" "closed d fs = pop_frame ((k, c) # F)"
proof -
  have n: "length fs - Suc d = Suc (length fs - Suc (Suc d))" using assms(1) by (auto simp: can_close_def)
  show "can_close d fs" using assms by (simp add: can_close_def closed_def n)
  show "closed d fs = pop_frame ((k, c) # F)" using assms(2) unfolding closed_def n by simp
qed

lemma emits_at_child:
  assumes "opener ma d f a k" and "emits_at ma (Suc d) g c" and "frame_fits k c"
  shows "emits_at ma d (\<lambda>s. cbb_seq (f s) g) (a @ close_frame k c)"
  unfolding emits_at_def
proof (intro allI impI, elim conjE)
  fix N s fs
  assume s: "cbb_builds ma N s fs" "can_close d fs"
    "frames_size (closed d fs) + length (a @ close_frame k c) \<le> N"
  define F where "F = add_to_frame a (closed d fs)"
  have len: "length F = Suc d" using s(2) by (simp add: can_close_def length_closed F_def)
  have ne: "closed d fs \<noteq> []" using s(2) length_closed [of d fs] by (auto simp: can_close_def)
  have kl: "length c + kind_len k \<le> length (close_frame k c)"
    using der_length_pos [of "length c"] by (cases k) auto
  have sz: "frames_size F + length (close_frame k c) \<le> N"
    using s(3) by (simp add: F_def frames_size_add [OF ne])
  obtain s1 where s1: "f s = (True, s1)" "cbb_builds ma N s1 ((k, []) # F)"
    using opener.opens [OF assms(1) s(1,2)] s(3) kl by (auto simp: F_def)
  have id: "can_close (Suc d) ((k, []) # F)" "closed (Suc d) ((k, []) # F) = (k, []) # F"
    using len by (simp_all add: can_close_id closed_id)
  have "frames_size ((k, []) # F) + length c \<le> N" using sz kl by (simp add: frames_size_def)
  then obtain s2 fs2 where 2: "g s1 = (True, s2)" "cbb_builds ma N s2 fs2" "can_close (Suc d) fs2"
    "closed (Suc d) fs2 = add_to_frame c ((k, []) # F)"
    using emits_atD [OF assms(2) s1(2) id(1)] unfolding id(2) by blast
  then have cl: "closed (Suc d) fs2 = (k, c) # F" by simp
  obtain k' c' F' where F: "F = (k', c') # F'" using len by (cases F) auto
  have "closed d fs2 = add_to_frame (close_frame k c) F"
    unfolding closed_outer(2) [OF 2(3) cl assms(3)] by (simp add: F)
  then have "closed d fs2 = add_to_frame (a @ close_frame k c) (closed d fs)" by (simp add: F_def)
  with closed_outer(1) [OF 2(3) cl assms(3)] s1(1) 2(1,2)
  show "\<exists>s' fs'. cbb_seq (f s) g = (True, s') \<and> cbb_builds ma N s' fs' \<and> can_close d fs' \<and>
      closed d fs' = add_to_frame (a @ close_frame k c) (closed d fs)"
    by (intro exI [of _ s2] exI [of _ fs2]) simp
qed

lemma emit_items_emits:
  assumes "\<And>i d. i \<in> set is \<Longrightarrow> emits_at ma d (emit ma d i) (item_bytes i)"
  shows "emits_at ma d (emit_items ma d is) (concat (map item_bytes is))"
  using assms
proof (induction "is")
  case Nil
  have "emit_items ma d [] = (\<lambda>s. (True, s))" by (simp add: fun_eq_iff)
  then show ?case using emits_at_skip [of ma d] by simp
next
  case (Cons i "is")
  have "emit_items ma d (i # is) = (\<lambda>s. cbb_seq (emit ma d i s) (emit_items ma d is))"
    by (simp add: fun_eq_iff)
  with emits_at_seq [OF Cons.prems [of i] Cons.IH] Cons.prems show ?case by simp
qed

lemma emit_emits: "item_fits i \<Longrightarrow> emits_at ma d (emit ma d i) (item_bytes i)"
proof (induction i arbitrary: d)
  case (Raw bs)
  have "emit ma d (Raw bs) = CBB_add_bytes ma d bs" by (simp add: fun_eq_iff)
  with emits_at_appender [OF add_bytes.appender_axioms] show ?case by simp
next
  case (Group n "is")
  have c: "emits_at ma (Suc d) (emit_items ma (Suc d) is) (concat (map item_bytes is))"
    by (rule emit_items_emits) (use Group in \<open>auto simp: list_all_iff\<close>)
  have "emit ma d (Group n is) = (\<lambda>s. cbb_seq (cbb_add_length_prefixed ma d n s) (emit_items ma (Suc d) is))"
    by (simp add: fun_eq_iff)
  with emits_at_child [OF opener_length_prefixed c] Group.prems show ?case by simp
next
  case (Element tag "is")
  have c: "emits_at ma (Suc d) (emit_items ma (Suc d) is) (concat (map item_bytes is))"
    by (rule emit_items_emits) (use Element in \<open>auto simp: list_all_iff\<close>)
  have "emit ma d (Element tag is) = (\<lambda>s. cbb_seq (CBB_add_asn1 ma d tag s) (emit_items ma (Suc d) is))"
    by (simp add: fun_eq_iff)
  with emits_at_child [OF asn1_child.opener_axioms c] Element.prems show ?case
    by (simp add: der_element_def der_header_def)
qed

lemma emitted_output:
  assumes "list_all item_fits is" and "\<And>n. ma n" and "cap < 2 ^ 62"
    and "length (concat (map item_bytes is)) < 2 ^ 62"
  shows "cbb_output ma buf cap (emit_items ma 0 is) = Some (concat (map item_bytes is))"
proof (rule cbb_output_builds [OF assms(2-4)])
  let ?out = "concat (map item_bytes is)"
  fix s assume s: "cbb_builds ma (length ?out) s [(Top, [])]"
  have "emits_at ma 0 (emit_items ma 0 is) ?out"
    by (rule emit_items_emits) (use assms(1) in \<open>auto simp: list_all_iff intro: emit_emits\<close>)
  from emits_atD [OF this s] show "\<exists>s' fs. emit_items ma 0 is s = (True, s') \<and>
      cbb_builds ma (length ?out) s' fs \<and> can_close 0 fs \<and> closed 0 fs = [(Top, ?out)] \<and> length ?out \<le> length ?out"
    by (simp add: can_close_id closed_id frames_size_def)
qed

text \<open>
  C5: whatever a client writes with nested \<open>CBB\<close>s, flushed only implicitly by the operations on
  their parents, \<open>CBB_finish\<close> delivers the specified encoding; and when it is an ASN.1 element,
  \<open>CBS_get_asn1\<close> hands out exactly the contents that were written, wherever it is read from.
\<close>

theorem nested_builder_roundtrip:
  assumes "item_fits (Element tag is)" and "cap < 2 ^ 62"
  shows "\<exists>bs. cbb_output (\<lambda>_. True) buf cap (emit (\<lambda>_. True) 0 (Element tag is)) = Some bs \<and>
     bs = item_bytes (Element tag is) \<and>
     (\<forall>m d l. bytes_at m d bs \<longrightarrow>
        (\<exists>body c'. CBS_get_asn1 m (cbs_at d (length bs + l)) tag = (Some body, c') \<and>
           region m (cbs_data body) (cbs_len body) = concat (map item_bytes is) \<and>
           c' = cbs_at (d + length bs) l))"
proof -
  let ?c = "concat (map item_bytes is)"
  let ?el = "der_element tag ?c"
  have lc: "length ?c < 2 ^ 32" using assms(1) by simp
  then have "length ?el < 2 ^ 62" using der_header_length [of tag "length ?c"] by (simp add: der_element_def)
  then have out: "cbb_output (\<lambda>_. True) buf cap (emit_items (\<lambda>_. True) 0 [Element tag is]) = Some ?el"
    using emitted_output [of "[Element tag is]" "\<lambda>_. True" cap buf] assms by simp
  have "emit_items (\<lambda>_. True) 0 [Element tag is] s = emit (\<lambda>_. True) 0 (Element tag is) s" for s
    by (cases "emit (\<lambda>_. True) 0 (Element tag is) s"; cases "fst (emit (\<lambda>_. True) 0 (Element tag is) s)")
       auto
  then have "emit_items (\<lambda>_. True) 0 [Element tag is] = emit (\<lambda>_. True) 0 (Element tag is)" by blast
  with out have "cbb_output (\<lambda>_. True) buf cap (emit (\<lambda>_. True) 0 (Element tag is)) = Some ?el" by simp
  moreover have "\<exists>body c'. CBS_get_asn1 m (cbs_at d (length ?el + l)) tag = (Some body, c') \<and>
      region m (cbs_data body) (cbs_len body) = ?c \<and> c' = cbs_at (d + length ?el) l"
    if "bytes_at m d ?el" for m d l
    using CBS_get_asn1_at [OF that _ lc, of "length ?el + l"] bytes_atD [OF body_at [OF that]] by simp
  ultimately show ?thesis by simp
qed

theorem nested_builder_roundtrip_witness:
  "\<exists>bs. cbb_output (\<lambda>_. True) (\<lambda>_. 0) 1
       (emit (\<lambda>_. True) 0 (Element 0x20000010 [Element 2 [Raw [5]], Group 1 [Raw [7, 7]]])) = Some bs \<and>
     bs = [0x30, 6, 2, 1, 5, 2, 7, 7] \<and>
     (\<forall>m d l. bytes_at m d bs \<longrightarrow>
        (\<exists>body c'. CBS_get_asn1 m (cbs_at d (length bs + l)) 0x20000010 = (Some body, c') \<and>
           region m (cbs_data body) (cbs_len body) = [2, 1, 5, 2, 7, 7] \<and> c' = cbs_at (d + length bs) l))"
proof -
  have "item_bytes (Element 0x20000010 [Element 2 [Raw [5]], Group 1 [Raw [7, 7]]]) = [0x30, 6, 2, 1, 5, 2, 7, 7]"
    by (simp add: der_element_def der_header_def der_ident_def der_length_def asn1_tag_defs Let_def)
  with nested_builder_roundtrip [of "0x20000010" "[Element 2 [Raw [5]], Group 1 [Raw [7, 7]]]" 1 "\<lambda>_. 0"]
  show ?thesis
    by (simp add: der_element_def der_header_def der_ident_def der_length_def asn1_tag_defs Let_def)
qed

section \<open>Object identifiers and their text\<close>

text \<open>Components as numbers, their dotted decimal text and their encoding.\<close>

fun oid_text :: "nat list \<Rightarrow> bytes" where
  "oid_text [] = []"
| "oid_text [n] = decimal n"
| "oid_text (n # cs) = decimal n @ 0x2e # oid_text cs"

fun oid_der :: "nat list \<Rightarrow> bytes" where
  "oid_der (a # b # cs) = base128 (40 * a + b) @ concat (map base128 cs)"
| "oid_der _ = []"

fun oid_ok :: "nat list \<Rightarrow> bool" where
  "oid_ok (a # b # cs) =
     (a \<le> 2 \<and> (a < 2 \<longrightarrow> b < 40) \<and> b + 80 < 2 ^ 64 \<and> list_all (\<lambda>n. n < 2 ^ 64) cs)"
| "oid_ok _ = False"

lemma decimal_step: "10 \<le> n \<Longrightarrow> decimal n = decimal (n div 10) @ [of_nat (48 + n mod 10)]"
  by (subst decimal.simps) simp

lemma decimal_last: "n < 10 \<Longrightarrow> decimal n = [of_nat (48 + n)]"
  by (subst decimal.simps) simp

lemma decimal_ne [simp]: "decimal n \<noteq> []"
  by (subst decimal.simps) simp

lemma decimal_length: "n < 10 ^ Suc k \<Longrightarrow> length (decimal n) \<le> Suc k"
proof (induction k arbitrary: n)
  case (Suc k)
  then have "n div 10 < 10 ^ Suc k" by (simp add: less_mult_imp_div_less mult.commute)
  with Suc.IH [of "n div 10"] show ?case
    by (cases "n < 10") (simp_all add: decimal_last decimal_step)
qed (simp add: decimal_last)

lemma digit_byte:
  assumes "k < 10"
  shows "(of_nat (48 + k) :: byte) \<noteq> 0x2e" "\<not> (of_nat (48 + k) :: byte) < 0x30"
    "\<not> 0x39 < (of_nat (48 + k) :: byte)" "unat (ucast (of_nat (48 + k) - 0x30 :: byte) :: u64) = k"
proof -
  have u: "unat (of_nat (48 + k) :: byte) = 48 + k" using assms by (simp add: unat_of_nat del: of_nat_add)
  have "unat (0x2e :: byte) = 46" by simp
  with u have "unat (of_nat (48 + k) :: byte) \<noteq> unat (0x2e :: byte)" by simp
  then show "(of_nat (48 + k) :: byte) \<noteq> 0x2e" by (simp only: word_unat_eq_iff not_False_eq_True)
  show "\<not> (of_nat (48 + k) :: byte) < 0x30" "\<not> 0x39 < (of_nat (48 + k) :: byte)"
    using assms unfolding word_less_nat_alt u by simp_all
  have "of_nat (48 + k) - 0x30 = (of_nat k :: byte)" by simp
  then show "unat (ucast (of_nat (48 + k) - 0x30 :: byte) :: u64) = k"
    using assms by (simp add: unat_ucast unat_of_nat)
qed

lemma dotted_digit:
  assumes "0 < l" and "m d = of_nat (48 + k)" and "k < 10" and "seen \<longrightarrow> unat out \<noteq> 0"
    and "unat out * 10 + k < 2 ^ 64"
  shows "dotted_decimal_loop m (cbs_at d l) out seen =
    dotted_decimal_loop m (cbs_at (Suc d) (l - 1)) (of_nat (unat out * 10 + k)) True"
proof -
  note dg = digit_byte [OF assms(3)]
  let ?k = "ucast (of_nat (48 + k) - 0x30 :: byte) :: u64"
  have o10: "unat (out * 10) = unat out * 10" using assms(5) by (simp add: unat_word_ariths)
  have "out * 10 + ?k = of_nat (unat out * 10 + k)"
    by (rule word_of_unat) (use assms(5) o10 dg(4) in \<open>simp add: unat_word_ariths\<close>)
  moreover have "\<not> 0xffffffffffffffff div 10 < out"
    using assms(5) by (simp add: word_less_nat_alt unat_div)
  moreover have "unat (0xffffffffffffffff - ?k) = 0xffffffffffffffff - k"
    using dg(4) assms(3) by (simp add: unat_sub word_le_nat_alt)
  then have "\<not> 0xffffffffffffffff - ?k < out * 10"
    unfolding word_less_nat_alt o10 using assms(3,5) by simp
  moreover have "\<not> (seen \<and> out = 0)" using assms(4) by auto
  ultimately show ?thesis
    using assms(1) dg(1-3)
    by (subst dotted_decimal_loop.simps) (auto simp: CBS_get_u8_at assms(2) Let_def simp del: of_nat_add)
qed


lemma dotted_digits:
  assumes "bytes_at m d (decimal n)" and "length (decimal n) \<le> l" and "n < 2 ^ 64"
  shows "dotted_decimal_loop m (cbs_at d l) 0 False =
    dotted_decimal_loop m (cbs_at (d + length (decimal n)) (l - length (decimal n))) (of_nat n) True"
  using assms
proof (induction n rule: decimal.induct)
  case (1 n)
  show ?case
  proof (cases "n < 10")
    case True
    with 1 dotted_digit [of l m d n False 0] show ?thesis by (simp add: decimal_last del: of_nat_add)
  next
    case False
    then have n: "decimal n = decimal (n div 10) @ [of_nat (48 + n mod 10)]" by (simp add: decimal_step)
    let ?d = "d + length (decimal (n div 10))" and ?l = "l - length (decimal (n div 10))"
    have u: "unat (of_nat (n div 10) :: u64) = n div 10" using "1.prems"(3) by (simp add: unat_of_nat)
    have "dotted_decimal_loop m (cbs_at d l) 0 False = dotted_decimal_loop m (cbs_at ?d ?l) (of_nat (n div 10)) True"
      using "1.IH" False "1.prems" n by simp
    also have "\<dots> = dotted_decimal_loop m (cbs_at (Suc ?d) (?l - 1)) (of_nat (n div 10 * 10 + n mod 10)) True"
      using dotted_digit [of ?l m ?d "n mod 10" True "of_nat (n div 10)"] "1.prems" n False u
      by (simp del: of_nat_add add: div_eq_0_iff)
    finally show ?thesis using n by (simp del: of_nat_add)
  qed
qed

lemma dotted_end: "dotted_decimal_loop m (cbs_at d 0) out True = (Some out, cbs_at d 0)"
  by (subst dotted_decimal_loop.simps) (simp add: CBS_get_u8_at)

lemma dotted_dot:
  "m d = 0x2e \<Longrightarrow> 1 < l \<Longrightarrow> dotted_decimal_loop m (cbs_at d l) out True = (Some out, cbs_at (Suc d) (l - 1))"
  by (subst dotted_decimal_loop.simps) (simp add: CBS_get_u8_at)

lemma oid_text_ne: "oid_text (n # cs) \<noteq> []"
  by (cases cs) simp_all

lemma oid_text_length: "length (oid_text cs) \<le> length (oid_text (n # cs))"
  by (cases cs) simp_all

text \<open>One component is read, its dot included.\<close>

lemma parse_component:
  assumes "bytes_at m d (oid_text (n # cs))" and "n < 2 ^ 64" and "l = length (oid_text (n # cs))"
  shows "\<exists>d'. parse_dotted_decimal m (cbs_at d l) = (Some (of_nat n), cbs_at d' (length (oid_text cs))) \<and>
           bytes_at m d' (oid_text cs)"
proof (cases cs)
  case Nil
  with assms show ?thesis
    using dotted_digits [of m d n l] by (simp add: parse_dotted_decimal_def dotted_end)
next
  case (Cons k ks)
  let ?d = "d + length (decimal n)"
  have b: "bytes_at m d (decimal n)" "m ?d = 0x2e" "bytes_at m (Suc ?d) (oid_text cs)"
    and l: "l = length (decimal n) + Suc (length (oid_text cs))"
    using assms(1,3) Cons by simp_all
  have "oid_text cs \<noteq> []" using Cons oid_text_ne by simp
  then have "1 < l - length (decimal n)" using l by simp
  with dotted_digits [OF b(1) _ assms(2), of l] dotted_dot [of m ?d "l - length (decimal n)" "of_nat n"] b l
  show ?thesis by (simp add: parse_dotted_decimal_def)
qed

lemma oid_from_text_loop_out:
  assumes "bytes_at m p (oid_text cs)" and "l = length (oid_text cs)" and "list_all (\<lambda>n. n < 2 ^ 64) cs"
  shows "open_appender ma d (oid_from_text_loop ma d m (cbs_at p l)) (concat (map base128 cs))"
  using assms
proof (induction cs arbitrary: p l)
  case Nil
  then have "oid_from_text_loop ma d m (cbs_at p l) s = (True, s)" for s
    by (subst oid_from_text_loop.simps) simp
  then have "oid_from_text_loop ma d m (cbs_at p l) = (\<lambda>s. (True, s))" by blast
  then show ?case using open_appender_skip [of ma d] by simp
next
  case (Cons n cs)
  have n: "n < 2 ^ 64" using Cons.prems(3) by simp
  obtain p' where p': "parse_dotted_decimal m (cbs_at p l) = (Some (of_nat n), cbs_at p' (length (oid_text cs)))"
    "bytes_at m p' (oid_text cs)"
    using parse_component [OF Cons.prems(1) n Cons.prems(2)] by blast
  have "l \<noteq> 0" using Cons.prems(2) oid_text_ne [of n cs] by simp
  then have "oid_from_text_loop ma d m (cbs_at p l) s =
      cbb_seq (add_base128_integer ma d (of_nat n) s) (oid_from_text_loop ma d m (cbs_at p' (length (oid_text cs))))" for s
    using p'(1) by (subst oid_from_text_loop.simps) simp
  then have eq: "oid_from_text_loop ma d m (cbs_at p l) =
      (\<lambda>s. cbb_seq (add_base128_integer ma d (of_nat n) s) (oid_from_text_loop ma d m (cbs_at p' (length (oid_text cs)))))"
    by blast
  have "unat (of_nat n :: u64) = n" using n by (simp add: unat_of_nat)
  with open_appender_seq [OF add_base128.open_appender_axioms [of ma d "of_nat n"] Cons.IH [OF p'(2) refl]]
    Cons.prems(3)
  show ?case unfolding eq by simp
qed

lemma oid_value:
  assumes "oid_ok (a # b # cs)"
  shows "40 * a + b < 2 ^ 64" "unat (of_nat a :: u64) = a" "unat (of_nat b :: u64) = b"
    "40 * of_nat a + of_nat b = (of_nat (40 * a + b) :: u64)"
  using assms by (simp_all add: unat_of_nat)

lemma oid_from_text_appender:
  assumes "oid_ok cs" and "bytes_at m p (oid_text cs)" and "l = length (oid_text cs)"
  shows "appender ma d (CBB_add_asn1_oid_from_text ma d m p l) (oid_der cs)"
proof -
  obtain a b ks where cs: "cs = a # b # ks" using assms(1) by (cases cs rule: oid_ok.cases) auto
  note ok = assms(1) [unfolded cs]
  note v = oid_value [OF ok]
  have a: "a < 2 ^ 64" and b: "b < 2 ^ 64" and ks: "list_all (\<lambda>n. n < 2 ^ 64) ks" using ok by auto
  obtain p1 where p1: "parse_dotted_decimal m (cbs_at p l) = (Some (of_nat a), cbs_at p1 (length (oid_text (b # ks))))"
    "bytes_at m p1 (oid_text (b # ks))"
    using parse_component [OF assms(2) [unfolded cs] a assms(3) [unfolded cs]] by blast
  obtain p2 where p2: "parse_dotted_decimal m (cbs_at p1 (length (oid_text (b # ks)))) =
      (Some (of_nat b), cbs_at p2 (length (oid_text ks)))" "bytes_at m p2 (oid_text ks)"
    using parse_component [OF p1(2) b refl] by blast
  have guard: "(2 < (of_nat a :: u64) \<or> ((of_nat a :: u64) < 2 \<and> 39 < (of_nat b :: u64)) \<or>
      0xffffffffffffffff - 80 < (of_nat b :: u64)) = False"
    using ok v(2,3) unfolding word_less_nat_alt by auto
  have "CBB_add_asn1_oid_from_text ma d m p l =
      (\<lambda>s. cbb_seq (CBB_flush ma d s) (\<lambda>s. cbb_seq (add_base128_integer ma d (of_nat (40 * a + b)) s)
         (oid_from_text_loop ma d m (cbs_at p2 (length (oid_text ks))))))"
    by (simp only: CBB_add_asn1_oid_from_text_def [abs_def] CBS_init_def p1(1) p2(1) prod.case
        option.case guard if_False v(4))
  moreover have "unat (of_nat (40 * a + b) :: u64) = 40 * a + b" using v(1) by (simp only: unat_of_nat) simp
  moreover note open_appender_seq [OF add_base128.open_appender_axioms [of ma d "of_nat (40 * a + b)"]
      oid_from_text_loop_out [OF p2(2) refl ks, of ma d]]
  ultimately show ?thesis
    using appender_seq [OF appender_flush [of ma d]] unfolding cs by (simp del: of_nat_add of_nat_mult)
qed


lemma oid_to_text_loop_out:
  assumes "bytes_at m p (concat (map base128 cs))" and "l = length (concat (map base128 cs))"
    and "list_all (\<lambda>n. n < 2 ^ 64) cs"
  shows "open_appender ma 0 (oid_to_text_loop ma m (cbs_at p l)) (concat (map (\<lambda>n. 0x2e # decimal n) cs))"
  using assms
proof (induction cs arbitrary: p l)
  case Nil
  then have "oid_to_text_loop ma m (cbs_at p l) s = (True, s)" for s
    by (subst oid_to_text_loop.simps) simp
  then have "oid_to_text_loop ma m (cbs_at p l) = (\<lambda>s. (True, s))" by blast
  then show ?case using open_appender_skip [of ma 0] by simp
next
  case (Cons n cs)
  let ?c = "cbs_at (p + length (base128 n)) (length (concat (map base128 cs)))"
  have n: "n < 2 ^ 64" using Cons.prems(3) by simp
  have b: "bytes_at m p (base128 n)" "bytes_at m (p + length (base128 n)) (concat (map base128 cs))"
    using Cons.prems(1) by simp_all
  have p: "parse_base128_integer m (cbs_at p l) = (Some (of_nat n), ?c)"
    using parse_base128_complete [OF b(1) _ n, of l] Cons.prems(2) by simp
  have "l \<noteq> 0" using Cons.prems(2) by (simp add: base128_def)
  then have "oid_to_text_loop ma m (cbs_at p l) s =
      cbb_seq (cbb_seq (CBB_add_u8 ma 0 0x2e s) (add_decimal ma 0 (of_nat n))) (oid_to_text_loop ma m ?c)" for s
    using p by (subst oid_to_text_loop.simps) simp
  then have eq: "oid_to_text_loop ma m (cbs_at p l) =
      (\<lambda>s. cbb_seq (cbb_seq (CBB_add_u8 ma 0 0x2e s) (add_decimal ma 0 (of_nat n))) (oid_to_text_loop ma m ?c))"
    by blast
  have "unat (of_nat n :: u64) = n" using n by (simp add: unat_of_nat)
  then have d: "open_appender ma 0 (add_decimal ma 0 (of_nat n)) (decimal n)"
    using add_bytes.open_appender_axioms [of ma 0 "decimal n"] by (simp add: add_decimal_def [abs_def])
  have "open_appender ma 0 (oid_to_text_loop ma m ?c) (concat (map (\<lambda>n. 0x2e # decimal n) cs))"
    using Cons.IH [OF b(2) refl] Cons.prems(3) by simp
  from open_appender_seq [OF open_appender_seq [OF add_u8.open_appender_axioms d] this]
  show ?case unfolding eq by simp
qed

lemma oid_text_cons: "oid_text (n # cs) = decimal n @ concat (map (\<lambda>n. 0x2e # decimal n) cs)"
  by (induction cs arbitrary: n) simp_all

lemma add_decimal_appender:
  "n < 2 ^ 64 \<Longrightarrow> open_appender ma 0 (add_decimal ma 0 (of_nat n)) (decimal n)"
  using add_bytes.open_appender_axioms [of ma 0 "decimal n"] unat_of_nat [of n, where 'a = 64]
  by (simp add: add_decimal_def [abs_def])

text \<open>The first component splits into two.\<close>

lemma oid_first_out:
  assumes "oid_ok (a # b # cs)" and "v = of_nat (40 * a + b)"
  shows "open_appender ma 0 (\<lambda>s.
      if 80 \<le> v then cbb_seq (CBB_add_bytes ma 0 [0x32, 0x2e] s) (add_decimal ma 0 (v - 80))
      else cbb_seq (cbb_seq (add_decimal ma 0 (v div 40) s) (CBB_add_u8 ma 0 0x2e)) (add_decimal ma 0 (v mod 40)))
    (decimal a @ 0x2e # decimal b)"
proof -
  note val = oid_value(1) [OF assms(1)]
  have ok: "a \<le> 2" "a < 2 \<longrightarrow> b < 40" "b < 2 ^ 64" using assms(1) by simp_all
  have uv: "unat v = 40 * a + b" using val unfolding assms(2) by (simp only: unat_of_nat) simp
  show ?thesis
  proof (cases "80 \<le> v")
    case True
    then have "80 \<le> 40 * a + b" by (simp add: word_le_nat_alt uv)
    then have a: "a = 2" using ok(1,2) by linarith
    have "decimal a = [0x32]" by (simp add: a decimal_last)
    moreover have "v - 80 = of_nat b"
      by (rule word_of_unat) (use True uv a in \<open>simp add: unat_sub word_le_nat_alt\<close>)
    ultimately show ?thesis
      using True ok(3) open_appender_seq [OF add_bytes.open_appender_axioms [of ma 0 "[0x32, 0x2e]"] add_decimal_appender [of b ma]]
      by simp
  next
    case False
    then have lt: "40 * a + b < 80" by (simp add: word_le_nat_alt uv)
    then have ab: "b < 40" "a < 2" using ok(1,2) by linarith+
    then have "v div 40 = of_nat a" "v mod 40 = of_nat b"
      by (intro word_of_unat; simp add: unat_div unat_mod uv)+
    with False ab open_appender_seq [OF open_appender_seq [OF add_decimal_appender [of a ma]
        add_u8.open_appender_axioms [of ma 0 "0x2e"]] add_decimal_appender [of b ma]]
    show ?thesis by simp
  qed
qed


lemma oid_to_text_eq:
  assumes "oid_ok cs" and "bytes_at m p (oid_der cs)" and "\<And>n. ma n"
    and "length (oid_text cs) < 2 ^ 61"
  shows "CBS_asn1_oid_to_text ma buf m (cbs_at p (length (oid_der cs))) = Some (oid_text cs @ [0])"
proof -
  obtain a b ks where cs: "cs = a # b # ks" using assms(1) by (cases cs rule: oid_ok.cases) auto
  note ok = assms(1) [unfolded cs]
  let ?v = "of_nat (40 * a + b) :: u64" and ?rest = "concat (map base128 ks)"
  let ?c = "cbs_at (p + length (base128 (40 * a + b))) (length ?rest)"
  let ?first = "\<lambda>s. if 80 \<le> ?v then cbb_seq (CBB_add_bytes ma 0 [0x32, 0x2e] s) (add_decimal ma 0 (?v - 80))
      else cbb_seq (cbb_seq (add_decimal ma 0 (?v div 40) s) (CBB_add_u8 ma 0 0x2e)) (add_decimal ma 0 (?v mod 40))"
  have b: "bytes_at m p (base128 (40 * a + b))" "bytes_at m (p + length (base128 (40 * a + b))) ?rest"
    using assms(2) by (simp_all add: cs)
  have ks: "list_all (\<lambda>n. n < 2 ^ 64) ks" using ok by simp
  have parse: "parse_base128_integer m (cbs_at p (length (oid_der cs))) = (Some ?v, ?c)"
    using parse_base128_complete [OF b(1) _ oid_value(1) [OF ok], of "length (oid_der cs)"]
    by (simp add: cs del: of_nat_add of_nat_mult)
  have eq: "CBS_asn1_oid_to_text ma buf m (cbs_at p (length (oid_der cs))) =
      cbb_output ma buf 32 (\<lambda>s. cbb_seq (cbb_seq (?first s) (oid_to_text_loop ma m ?c)) (CBB_add_u8 ma 0 0))"
    unfolding CBS_asn1_oid_to_text_def cbb_output_def Let_def by (simp only: parse prod.case option.case)
  have tx: "oid_text cs = (decimal a @ 0x2e # decimal b) @ concat (map (\<lambda>n. 0x2e # decimal n) ks)"
    unfolding cs by (simp add: oid_text_cons)
  have "open_appender ma 0 (\<lambda>s. cbb_seq (cbb_seq (?first s) (oid_to_text_loop ma m ?c)) (CBB_add_u8 ma 0 0))
      (oid_text cs @ [0])"
    unfolding tx
    by (intro open_appender_seq oid_first_out [OF ok refl] oid_to_text_loop_out [OF b(2) refl ks]
        add_u8.open_appender_axioms)
  then show ?thesis unfolding eq by (rule cbb_output_appender) (use assms(3,4) in simp_all)
qed

lemma base128_length_u64: "n < 2 ^ 64 \<Longrightarrow> length (base128 n) \<le> 10"
  using base128_hi_length [of "n div 128" 9] by (simp add: base128_def)

lemma oid_lengths:
  assumes "oid_ok cs"
  shows "length (oid_der cs) \<le> 10 * length cs" "length (oid_text cs) \<le> 21 * length cs"
proof -
  obtain a b ks where cs: "cs = a # b # ks" using assms by (cases cs rule: oid_ok.cases) auto
  have ks: "list_all (\<lambda>n. n < 2 ^ 64) ks" and ab: "a < 2 ^ 64" "b < 2 ^ 64" using assms by (auto simp: cs)
  have dec: "length (decimal n) \<le> 20" if "n < 2 ^ 64" for n using decimal_length [of n 19] that by simp
  have "length (concat (map base128 ks)) \<le> 10 * length ks"
    using ks
  proof (induction ks)
    case (Cons n ks)
    then show ?case using base128_length_u64 [of n] by simp
  qed simp
  then show "length (oid_der cs) \<le> 10 * length cs"
    using base128_length_u64 [OF oid_value(1) [OF assms [unfolded cs]]] by (simp add: cs)
  have "length (concat (map (\<lambda>n. 0x2e # decimal n) ks)) \<le> 21 * length ks"
    using ks
  proof (induction ks)
    case (Cons n ks)
    then show ?case using dec [of n] by simp
  qed simp
  then show "length (oid_text cs) \<le> 21 * length cs"
    using dec [OF ab(1)] dec [OF ab(2)] by (simp add: cs oid_text_cons)
qed

text \<open>
  C26: for every object identifier (components below \<open>2 ^ 64\<close>, the first two within the bounds of
  X.660), \<open>CBB_add_asn1_oid_from_text\<close> writes its DER encoding for its dotted text, and
  \<open>CBS_asn1_oid_to_text\<close> gives the text back, zero-terminated.
\<close>

theorem oid_text_roundtrip:
  assumes "oid_ok cs" and "length cs < 2 ^ 32" and "bytes_at m p (oid_text cs)" and "cap < 2 ^ 62"
    and "bytes_at m' p' (oid_der cs)"
  shows "cbb_output (\<lambda>_. True) buf cap (CBB_add_asn1_oid_from_text (\<lambda>_. True) 0 m p (length (oid_text cs)))
           = Some (oid_der cs) \<and>
         CBS_asn1_oid_to_text (\<lambda>_. True) buf' m' (cbs_at p' (length (oid_der cs))) = Some (oid_text cs @ [0])"
proof
  have len: "length (oid_der cs) < 2 ^ 62" "length (oid_text cs) < 2 ^ 61"
    using oid_lengths [OF assms(1)] assms(2) by simp_all
  show "cbb_output (\<lambda>_. True) buf cap (CBB_add_asn1_oid_from_text (\<lambda>_. True) 0 m p (length (oid_text cs)))
      = Some (oid_der cs)"
    by (rule cbb_output_appender [OF appender_is_open [OF oid_from_text_appender [OF assms(1,3) refl]]])
       (use assms(4) len(1) in simp_all)
  show "CBS_asn1_oid_to_text (\<lambda>_. True) buf' m' (cbs_at p' (length (oid_der cs))) = Some (oid_text cs @ [0])"
    by (rule oid_to_text_eq [OF assms(1,5)]) (use len(2) in simp_all)
qed

theorem oid_text_roundtrip_witness:
  "cbb_output (\<lambda>_. True) (\<lambda>_. 0) 0 (CBB_add_asn1_oid_from_text (\<lambda>_. True) 0
       (\<lambda>i. [0x31, 0x2e, 0x32, 0x2e, 0x38, 0x34, 0x30] ! i) 0 7) = Some [0x2a, 0x86, 0x48] \<and>
   CBS_asn1_oid_to_text (\<lambda>_. True) (\<lambda>_. 0) (\<lambda>i. [0x2a, 0x86, 0x48] ! i) (cbs_at 0 3)
     = Some [0x31, 0x2e, 0x32, 0x2e, 0x38, 0x34, 0x30, 0]"
proof -
  have tx: "oid_text [1, 2, 840] = [0x31, 0x2e, 0x32, 0x2e, 0x38, 0x34, 0x30]"
    by (simp add: decimal_step decimal_last)
  have der: "oid_der [1, 2, 840] = [0x2a, 0x86, 0x48]"
    by (simp add: base128_def base128_hi_step)
  have l: "length [0x31, 0x2e, 0x32, 0x2e, 0x38, 0x34, 0x30 :: byte] = 7" "length [0x2a, 0x86, 0x48 :: byte] = 3"
    by simp_all
  have b: "bytes_at ((!) [0x31, 0x2e, 0x32, 0x2e, 0x38, 0x34, 0x30]) 0 [0x31, 0x2e, 0x32, 0x2e, 0x38, 0x34, 0x30]"
    "bytes_at ((!) [0x2a, 0x86, 0x48]) 0 [0x2a, 0x86, 0x48]"
    by simp_all
  show ?thesis
    using oid_text_roundtrip [of "[1, 2, 840]", unfolded tx der l, OF _ _ b(1) _ b(2), of 0 "\<lambda>_. 0" "\<lambda>_. 0"]
    by (simp only: append_Cons append_Nil) simp
qed

section \<open>Sorted sets\<close>

fun bytes_le :: "bytes \<Rightarrow> bytes \<Rightarrow> bool" where
  "bytes_le [] _ = True"
| "bytes_le (x # xs) [] = False"
| "bytes_le (x # xs) (y # ys) = (x < y \<or> x = y \<and> bytes_le xs ys)"

lemma compare_Cons:
  "compare_set_of_element (x # xs) (y # ys) =
     (if x < y then - 1 else if y < x then 1 else compare_set_of_element xs ys)"
  by (simp add: compare_set_of_element_def Let_def)

lemma compare_le: "compare_set_of_element a b \<le> 0 \<longleftrightarrow> bytes_le a b"
  by (induction a b rule: bytes_le.induct)
     (auto simp: compare_Cons, simp_all add: compare_set_of_element_def)

lemma bytes_le_total: "bytes_le a b \<or> bytes_le b a"
  by (induction a b rule: bytes_le.induct) auto

lemma bytes_le_trans: "bytes_le a b \<Longrightarrow> bytes_le b c \<Longrightarrow> bytes_le a c"
proof (induction a b arbitrary: c rule: bytes_le.induct)
  case (3 x xs y ys)
  then show ?case by (cases c) (auto intro: less_trans)
qed auto

lemma mset_qsort: "mset (qsort cmp xs) = mset xs"
proof -
  have "mset (qsort_insert cmp x ys) = add_mset x (mset ys)" for x ys
    by (induction ys) auto
  then show ?thesis by (induction xs) (simp_all add: qsort_def)
qed

lemma set_qsort_insert: "set (qsort_insert cmp x ys) = insert x (set ys)"
  by (induction ys) auto

lemma sorted_qsort: "sorted_wrt bytes_le (qsort compare_set_of_element xs)"
proof -
  have "sorted_wrt bytes_le (qsort_insert compare_set_of_element x ys)" if "sorted_wrt bytes_le ys" for x ys
    using that
  proof (induction ys)
    case (Cons y ys)
    show ?case
    proof (cases "bytes_le x y")
      case True
      with Cons.prems show ?thesis by (auto simp: compare_le intro: bytes_le_trans)
    next
      case False
      with bytes_le_total have "bytes_le y x" by blast
      with Cons False show ?thesis by (auto simp: compare_le set_qsort_insert)
    qed
  qed simp
  then show ?thesis by (induction xs) (simp_all add: qsort_def)
qed

definition is_element :: "bytes \<Rightarrow> bool" where
  "is_element x \<longleftrightarrow> (\<exists>tag body. x = der_element tag body \<and> length body < 2 ^ 32)"

lemma any_element_at:
  assumes "is_element x" and "bytes_at m p x" and "length x \<le> l"
  shows "\<exists>tag h. CBS_get_any_asn1_element m (cbs_at p l) =
    (Some (cbs_at p (length x), tag, h), cbs_at (p + length x) (l - length x))"
proof -
  obtain tag body where x: "x = der_element tag body" "length body < 2 ^ 32"
    using assms(1) by (auto simp: is_element_def)
  then show ?thesis
    using der_element_complete [of m p tag body l] assms(2,3) by (auto simp: CBS_get_any_asn1_element_def)
qed

lemma is_element_length: "is_element x \<Longrightarrow> 2 \<le> length x"
  using der_element_length by (auto simp: is_element_def)

lemma count_elements_at:
  assumes "list_all is_element xs" and "bytes_at m p (concat xs)"
  shows "count_elements m (cbs_at p (length (concat xs))) k = Some (k + length xs)"
  using assms
proof (induction xs arbitrary: p k)
  case Nil
  show ?case by (subst count_elements.simps) simp
next
  case (Cons x xs)
  from Cons.prems obtain tag h where e: "CBS_get_any_asn1_element m (cbs_at p (length (concat (x # xs)))) =
    (Some (cbs_at p (length x), tag, h), cbs_at (p + length x) (length (concat xs)))"
    using any_element_at [of x m p "length (concat (x # xs))"] by auto
  have "0 < length x" using is_element_length [of x] Cons.prems(1) by auto
  with e Cons show ?case by (subst count_elements.simps) simp
qed

lemma split_elements_at:
  assumes "list_all is_element xs" and "bytes_at m p (concat xs)"
  shows "split_elements m (cbs_at p (length (concat xs))) (length xs) = Some xs"
  using assms
proof (induction xs arbitrary: p)
  case (Cons x xs)
  from Cons.prems obtain tag h where e: "CBS_get_any_asn1_element m (cbs_at p (length (concat (x # xs)))) =
    (Some (cbs_at p (length x), tag, h), cbs_at (p + length x) (length (concat xs)))"
    using any_element_at [of x m p "length (concat (x # xs))"] by auto
  with Cons show ?case using bytes_atD [of m p x] by simp
qed simp

lemma add_all_appends: "open_appender ma d (add_all ma d xs) (concat xs)"
proof (induction xs)
  case Nil
  have "add_all ma d [] = (\<lambda>s. (True, s))" by (simp add: fun_eq_iff)
  then show ?case using open_appender_skip [of ma d] by simp
next
  case (Cons x xs)
  have "add_all ma d (x # xs) = (\<lambda>s. cbb_seq (CBB_add_bytes ma d x s) (add_all ma d xs))"
    by (simp add: fun_eq_iff)
  with open_appender_seq [OF add_bytes.open_appender_axioms Cons] show ?case by simp
qed

lemma length_concat_mset: "mset xs = mset ys \<Longrightarrow> length (concat xs) = length (concat ys)"
  by (metis length_concat mset_map sum_mset_sum_list)

lemma rewind_builds:
  assumes "cbb_rep s b ((k, c) # fs)" and "roomy ma N b" and "length fs = d"
  shows "CBB_data d s = blen b - length c" "CBB_len d s = length c"
    "cbb_builds ma N (s\<lparr>cbb_base := Some (b\<lparr>blen := CBB_data d s\<rparr>)\<rparr>) ((k, []) # fs)"
    "bytes_at (bbuf b) (CBB_data d s) c"
proof -
  from assms(1) have base: "cbb_base s = Some b" "buffer_ok b" "frames_ok ((k, c) # fs)"
    and stk: "stack_rep (bbuf b) (blen b) ((k, c) # fs) (cbb_chain s)" by (simp_all add: cbb_rep_def)
  then obtain n ns where ch: "cbb_chain s = n # ns" by (cases "cbb_chain s") auto
  have len: "length (cbb_chain s) = Suc d" using stack_rep_length [OF stk] assms(3) by simp
  from stk [unfolded ch stack_rep.simps(2) [of _ _ k c]] have n: "length c + kind_len k \<le> blen b"
    "bytes_at (bbuf b) (blen b - length c) c" "cbb_offset n = blen b - length c - kind_len k"
    "pending_len_len n = kind_len k" "pending_is_asn1 n = (k = Asn1)" "stack_rep (bbuf b) (cbb_offset n) fs ns"
    by blast+
  show data: "CBB_data d s = blen b - length c"
    using len n(1,3,4) ch by (simp add: CBB_data_def)
  show "CBB_len d s = length c" using n(1) by (simp add: CBB_len_def data buffer_length_def base(1))
  show "bytes_at (bbuf b) (CBB_data d s) c" using n(2) by (simp add: data)
  have fok: "frames_ok ((k, []) # fs)" using base(3) by (rule frames_ok_content)
  have st2: "stack_rep (bbuf b) (blen b - length c) ((k, []) # fs) (n # ns)"
    using n by (simp add: stack_rep.simps(2) [of _ _ k "[]"])
  have bok: "buffer_ok (b\<lparr>blen := blen b - length c\<rparr>)" using base(2) by (auto simp: buffer_ok_def)
  have rm: "roomy ma N (b\<lparr>blen := blen b - length c\<rparr>)" using assms(2) by (auto simp: roomy_def)
  show "cbb_builds ma N (s\<lparr>cbb_base := Some (b\<lparr>blen := CBB_data d s\<rparr>)\<rparr>) ((k, []) # fs)"
    unfolding cbb_builds_def data
    by (intro exI [of _ "b\<lparr>blen := blen b - length c\<rparr>"] conjI rm)
       (use fok st2 bok ch in \<open>simp add: cbb_rep_def del: stack_rep.simps\<close>)
qed

lemma set_of_sorts:
  assumes "cbb_builds ma N s fs" and "can_close d fs" and "closed d fs = (k, concat xs) # gs"
    and "list_all is_element xs" and "frames_size (closed d fs) \<le> N" and "\<And>n. ma n" and "N < 2 ^ 56"
  shows "\<exists>s'. CBB_flush_asn1_set_of ma d s = (True, s') \<and>
     cbb_builds ma N s' ((k, concat (if length xs < 2 then xs else qsort compare_set_of_element xs)) # gs)"
proof -
  let ?ys = "qsort compare_set_of_element xs"
  obtain s1 where f: "CBB_flush ma d s = (True, s1)" "cbb_builds ma N s1 ((k, concat xs) # gs)"
    using flush_builds [OF assms(1,2,5)] unfolding assms(3) by blast
  then obtain b where b: "cbb_rep s1 b ((k, concat xs) # gs)" "roomy ma N b" by (auto simp: cbb_builds_def)
  have base: "cbb_base s1 = Some b" using b(1) by (simp add: cbb_rep_def)
  have gs: "length gs = d" using length_closed [of d fs] assms(2,3) by (simp add: can_close_def)
  note rw = rewind_builds [OF b gs]
  let ?n = "length (concat xs)"
  have N: "frames_size ((k, concat xs) # gs) \<le> N" using assms(3,5) by simp
  then have n: "?n < 2 ^ 56" using assms(7) by (simp add: frames_size_def)
  have count: "count_elements (bbuf b) (CBS_init (CBB_data d s1) (CBB_len d s1)) 0 = Some (length xs)"
    using count_elements_at [OF assms(4) rw(4), of 0] by (simp add: CBS_init_def rw(2))
  show ?thesis
  proof (cases "length xs < 2")
    case True
    then show ?thesis
      using f by (intro exI [of _ s1]) (simp add: CBB_flush_asn1_set_of_def base count)
  next
    case False
    have "2 * length xs \<le> ?n"
      using assms(4) by (induction xs) (auto dest: is_element_length)
    then have le: "length xs < 2 ^ 55" using n by simp
    have pos: "?n \<noteq> 0" using \<open>2 * length xs \<le> ?n\<close> False by linarith
    have mal: "OPENSSL_malloc ma j" if "j < 2 ^ 60" for j
      using that assms(6) by (simp add: OPENSSL_malloc_def OPENSSL_MALLOC_PREFIX_def size_add_exact SIZE_LIMIT_def)
    have limit: "\<not> (SIZE_LIMIT - 1) div 16 < length xs" using le by (simp add: SIZE_LIMIT_def)
    have dup: "OPENSSL_memdup ma (bbuf b) (CBB_data d s1) ?n = Some (concat xs)"
      using pos mal [of ?n] n bytes_atD [OF rw(4)] by (simp add: OPENSSL_memdup_def)
    have "bytes_at ((!) (concat xs)) 0 (concat xs)"
      by (simp add: bytes_at_def region_def map_nth)
    from split_elements_at [OF assms(4) this]
    have split: "split_elements ((!) (concat xs)) (CBS_init 0 ?n) (length xs) = Some xs"
      by (simp add: CBS_init_def)
    have "mset (qsort compare_set_of_element xs) = mset xs" by (rule mset_qsort)
    then have "length (concat ?ys) = ?n" by (rule length_concat_mset)
    with N have "frames_size ((k, []) # gs) + length (concat ?ys) \<le> N" by (simp add: frames_size_def)
    with open_appender.appends_open [OF add_all_appends rw(3)] gs obtain s2 where
      s2: "add_all ma d ?ys (s1\<lparr>cbb_base := Some (b\<lparr>blen := CBB_data d s1\<rparr>)\<rparr>) = (True, s2)"
      "cbb_builds ma N s2 ((k, concat ?ys) # gs)" by auto
    have "OPENSSL_malloc ma (length xs * 16)" using mal [of "length xs * 16"] le by simp
    with s2(1) dup split limit False count f(1) base
    have "CBB_flush_asn1_set_of ma d s = (True, s2)"
      by (simp add: CBB_flush_asn1_set_of_def rw(2) Let_def)
    with s2(2) False show ?thesis by (intro exI [of _ s2]) simp
  qed
qed


fun is_element_item :: "item \<Rightarrow> bool" where
  "is_element_item (Element _ _) = True"
| "is_element_item _ = False"

lemma element_item_bytes: "item_fits i \<Longrightarrow> is_element_item i \<Longrightarrow> is_element (item_bytes i)"
proof (cases i)
  case (Element tag els)
  assume "item_fits i"
  with Element have "length (concat (map item_bytes els)) < 2 ^ 32" by simp
  with Element show ?thesis unfolding is_element_def by auto
qed simp_all

text \<open>A client that writes a set: opens it, writes its elements and sorts them.\<close>

definition emit_set :: "(nat \<Rightarrow> bool) \<Rightarrow> u32 \<Rightarrow> item list \<Rightarrow> cbb_state \<Rightarrow> bool \<times> cbb_state" where
  "emit_set ma tag els s =
     cbb_seq (cbb_seq (CBB_add_asn1 ma 0 tag s) (emit_items ma 1 els)) (CBB_flush_asn1_set_of ma 1)"

lemma emit_set_output:
  assumes "list_all item_fits els" and "list_all is_element_item els"
    and "xs = map item_bytes els" and "length (concat xs) \<le> 0xfffffffe" and "cap < 2 ^ 62"
    and "ys = (if length xs < 2 then xs else qsort compare_set_of_element xs)"
  shows "cbb_output (\<lambda>_. True) buf cap (emit_set (\<lambda>_. True) tag els) = Some (der_element tag (concat ys))"
proof -
  let ?ma = "\<lambda>_ :: nat. True" and ?out = "der_element tag (concat ys)"
  have ms: "mset ys = mset xs" by (simp add: assms(6) mset_qsort)
  then have ly: "length (concat ys) = length (concat xs)" by (rule length_concat_mset)
  have lo: "length ?out < 2 ^ 56"
    using der_header_length [of tag "length (concat ys)"] ly assms(4) by (simp add: der_element_def)
  have el: "list_all is_element xs"
    using assms(1,2) unfolding assms(3) list_all_iff by (auto intro: element_item_bytes)
  show ?thesis
  proof (rule cbb_output_builds [of ?ma cap "length ?out"])
    fix s assume s: "cbb_builds ?ma (length ?out) s [(Top, [])]"
    have sz: "length ?out = length (der_ident tag) + length (der_length (length (concat xs))) + length (concat xs)"
      by (simp add: der_element_def der_header_def ly)
    note dl = der_length_pos [of "length (concat xs)"]
    obtain s1 where s1: "CBB_add_asn1 ?ma 0 tag s = (True, s1)"
      "cbb_builds ?ma (length ?out) s1 [(Asn1, []), (Top, der_ident tag)]"
      using opener.opens [OF asn1_child.opener_axioms s, of 0 tag] sz dl
      by (auto simp: can_close_id closed_id frames_size_def)
    have emits: "emits_at ?ma 1 (emit_items ?ma 1 els) (concat xs)"
      unfolding assms(3)
      by (rule emit_items_emits) (use assms(1) in \<open>auto simp: list_all_iff intro: emit_emits\<close>)
    have "frames_size [(Asn1, []), (Top, der_ident tag)] + length (concat xs) \<le> length ?out"
      using sz dl by (simp add: frames_size_def)
    then obtain s2 fs2 where s2: "emit_items ?ma 1 els s1 = (True, s2)" "cbb_builds ?ma (length ?out) s2 fs2"
      "can_close 1 fs2" "closed 1 fs2 = [(Asn1, concat xs), (Top, der_ident tag)]"
      using emits_atD [OF emits s1(2)] by (auto simp: can_close_id closed_id)
    have "frames_size (closed 1 fs2) \<le> length ?out" unfolding s2(4) using sz dl by (simp add: frames_size_def)
    from set_of_sorts [OF s2(2,3,4) el this TrueI lo] obtain s3 where
      s3: "CBB_flush_asn1_set_of ?ma 1 s2 = (True, s3)"
      "cbb_builds ?ma (length ?out) s3 [(Asn1, concat ys), (Top, der_ident tag)]"
      unfolding assms(6) by blast
    let ?fs = "[(Asn1, concat ys), (Top, der_ident tag)]"
    have "can_close 0 ?fs" using ly assms(4) by (simp add: can_close_def)
    moreover have "closed 0 ?fs = [(Top, ?out)]" by (simp add: closed_def der_element_def der_header_def)
    ultimately show "\<exists>s' fs. emit_set ?ma tag els s = (True, s') \<and> cbb_builds ?ma (length ?out) s' fs \<and>
        can_close 0 fs \<and> closed 0 fs = [(Top, ?out)] \<and> length ?out \<le> length ?out"
      using s1(1) s2(1) s3 by (intro exI [of _ s3] exI [of _ ?fs]) (simp add: emit_set_def)
  qed (use assms(5) lo in simp_all)
qed

text \<open>
  C27: a set written with \<open>CBB_flush_asn1_set_of\<close> holds a permutation of the elements the client
  wrote, in ascending order of their encodings, as DER demands.
\<close>

theorem set_of_sorted_permutation:
  assumes "list_all item_fits els" and "list_all is_element_item els"
    and "length (concat (map item_bytes els)) \<le> 0xfffffffe" and "cap < 2 ^ 62"
  shows "\<exists>ys. cbb_output (\<lambda>_. True) buf cap (emit_set (\<lambda>_. True) tag els) = Some (der_element tag (concat ys)) \<and>
     mset ys = mset (map item_bytes els) \<and> sorted_wrt bytes_le ys"
proof -
  let ?xs = "map item_bytes els"
  let ?ys = "if length ?xs < 2 then ?xs else qsort compare_set_of_element ?xs"
  have "sorted_wrt bytes_le ?ys"
    using sorted_qsort [of ?xs] by (cases els; cases "tl els") auto
  then show ?thesis
    using emit_set_output [OF assms(1,2) refl assms(3,4) refl] by (intro exI [of _ ?ys]) (simp add: mset_qsort)
qed

theorem set_of_sorted_permutation_witness:
  "\<exists>ys. cbb_output (\<lambda>_. True) (\<lambda>_. 0) 0
       (emit_set (\<lambda>_. True) 0x20000011 [Element 2 [Raw [9]], Element 2 [Raw [3]]])
         = Some (der_element 0x20000011 (concat ys)) \<and>
     mset ys = mset [[2, 1, 9], [2, 1, 3]] \<and> sorted_wrt bytes_le ys"
  using set_of_sorted_permutation [of "[Element 2 [Raw [9]], Element 2 [Raw [3]]]" 0 "\<lambda>_. 0" "0x20000011"]
  by (simp add: der_element_def der_header_def der_ident_def der_length_def asn1_tag_defs Let_def)

section \<open>Integers, both ways\<close>

text \<open>
  C25: every \<open>int64_t\<close> written by \<open>CBB_add_asn1_int64\<close> is read back by \<open>CBS_get_asn1_int64\<close>, which
  stops right behind it; its contents octets are the minimal two's complement ones.
\<close>

theorem asn1_int64_roundtrip:
  assumes "cap < 2 ^ 62"
  shows "\<exists>body. cbb_output (\<lambda>_. True) buf cap (CBB_add_asn1_int64 (\<lambda>_. True) 0 v)
           = Some (der_element CBS_ASN1_INTEGER body) \<and>
     asn1_minimal body \<and> asn1_int body = sint v \<and>
     (\<forall>m d l. bytes_at m d (der_element CBS_ASN1_INTEGER body) \<longrightarrow>
        CBS_get_asn1_int64 m (cbs_at d (length (der_element CBS_ASN1_INTEGER body) + l)) =
          (Some v, cbs_at (d + length (der_element CBS_ASN1_INTEGER body)) l))"
proof (intro exI conjI allI impI)
  let ?b = "int64_out v" and ?el = "der_element CBS_ASN1_INTEGER (int64_out v)"
  have props: "asn1_int ?b = sint v" "asn1_minimal ?b" "length ?b \<le> 8"
    using int64_out_nonneg [of v] int64_out_negative [of v] by (cases "0 \<le> sint v"; simp)+
  then show "asn1_minimal ?b" "asn1_int ?b = sint v" by simp_all
  have "length ?el < 2 ^ 62"
    using props(3) der_header_length [of CBS_ASN1_INTEGER "length ?b"] by (simp add: der_element_def)
  then show "cbb_output (\<lambda>_. True) buf cap (CBB_add_asn1_int64 (\<lambda>_. True) 0 v) = Some ?el"
    by (intro cbb_output_appender [OF add_asn1_int64.open_appender_axioms] assms) simp_all
  fix m d l
  assume at: "bytes_at m d ?el"
  have "word_of_int (sint v) = v" by simp
  then show "CBS_get_asn1_int64 m (cbs_at d (length ?el + l)) = (Some v, cbs_at (d + length ?el) l)"
    using CBS_get_asn1_int64_at [OF at, of "length ?el + l"] props by simp
qed

theorem asn1_int64_roundtrip_witness:
  "\<exists>body. cbb_output (\<lambda>_. True) (\<lambda>_. 0) 2 (CBB_add_asn1_int64 (\<lambda>_. True) 0 (- 129))
           = Some (der_element CBS_ASN1_INTEGER body) \<and> asn1_minimal body \<and> asn1_int body = - 129"
  using asn1_int64_roundtrip [of 2 "\<lambda>_. 0" "- 129"] by auto

text \<open>
  C28: on an INTEGER element \<open>CBS_get_asn1_uint64\<close> and \<open>CBS_get_asn1_int64\<close> accept exactly the minimal
  encodings whose value fits the type, give that value, and in any case leave the \<open>CBS\<close> behind
  the element.
\<close>

theorem asn1_integer_readers_exact:
  assumes "bytes_at m d (der_element CBS_ASN1_INTEGER body)" and "length body < 2 ^ 32"
    and "length (der_element CBS_ASN1_INTEGER body) \<le> l"
  shows "CBS_get_asn1_int64 m (cbs_at d l) =
       (if asn1_minimal body \<and> length body \<le> 8 then Some (word_of_int (asn1_int body)) else None,
        cbs_at (d + length (der_element CBS_ASN1_INTEGER body)) (l - length (der_element CBS_ASN1_INTEGER body))) \<and>
     CBS_get_asn1_uint64 m (cbs_at d l) =
       (if asn1_minimal body \<and> 0 \<le> asn1_int body \<and> asn1_int body < 2 ^ 64
        then Some (word_of_int (asn1_int body)) else None,
        cbs_at (d + length (der_element CBS_ASN1_INTEGER body)) (l - length (der_element CBS_ASN1_INTEGER body)))"
proof -
  have nn: "asn1_negative body \<longleftrightarrow> asn1_int body < 0"
    using be_value_less [of body] by (simp add: asn1_int_def of_nat_less_iff [symmetric] del: of_nat_less_iff)
  have "asn1_int body = int (be_value body)" if "\<not> asn1_negative body" using that by (simp add: asn1_int_def)
  then show ?thesis
    using CBS_get_asn1_int64_at [OF assms(1,3,2)] CBS_get_asn1_uint64_at [OF assms(1,3,2)] nn by auto
qed

theorem asn1_integer_readers_exact_witness:
  "CBS_get_asn1_int64 (\<lambda>i. [2, 2, 0xff, 0x7f, 1] ! i) (cbs_at 0 5) = (Some (- 129), cbs_at 4 1) \<and>
   CBS_get_asn1_uint64 (\<lambda>i. [2, 2, 0xff, 0x7f, 1] ! i) (cbs_at 0 5) = (None, cbs_at 4 1)"
proof -
  have el: "der_element CBS_ASN1_INTEGER [0xff, 0x7f] = [2, 2, 0xff, 0x7f]"
    by (simp add: der_element_def der_header_def der_ident_def der_length_def asn1_tag_defs Let_def)
  have "asn1_int [0xff, 0x7f] = - 129" by (simp add: asn1_int_def be_value_def)
  with asn1_integer_readers_exact [of "\<lambda>i. [2, 2, 0xff, 0x7f, 1] ! i" 0 "[0xff, 0x7f]" 5, unfolded el]
  show ?thesis by simp
qed

end
