(* ===== verification/Ssl_Unicode.thy ===== *)
theory Ssl_Unicode
  imports Ssl_Asn1
begin

text \<open>
  The character encodings of \<open>crypto/bytestring/unicode.c\<close>: UTF-8, Latin-1, UCS-2 and UTF-32
  readers over a \<open>CBS\<close> and writers into a \<open>CBB\<close>.
\<close>

section \<open>Operations\<close>

definition is_valid_code_point :: "u32 \<Rightarrow> bool" where
  "is_valid_code_point v =
     (if 0x10ffff < v \<or> v AND 0xfffe = 0xfffe \<or> (0xfdd0 \<le> v \<and> v \<le> 0xfdef) \<or>
         (0xd800 \<le> v \<and> v \<le> 0xdfff)
      then False else True)"

definition BOTTOM_BITS :: "nat \<Rightarrow> byte" where
  "BOTTOM_BITS n = push_bit n 1 - 1"

definition TOP_BITS :: "nat \<Rightarrow> byte" where
  "TOP_BITS n = NOT (BOTTOM_BITS (8 - n))"

fun utf8_loop :: "mem \<Rightarrow> cbs \<Rightarrow> u32 \<Rightarrow> nat \<Rightarrow> u32 option \<times> cbs" where
  "utf8_loop m c v 0 = (Some v, c)"
| "utf8_loop m c v (Suc n) =
     (case CBS_get_u8 m c of
        (None, c') \<Rightarrow> (None, c')
      | (Some b, c') \<Rightarrow>
          if b AND TOP_BITS 2 \<noteq> TOP_BITS 1 then (None, c')
          else utf8_loop m c' (push_bit 6 v OR ucast (b AND BOTTOM_BITS 6)) n)"

text \<open>The start value, the number of further bytes and the lower bound, by the first byte.\<close>

definition utf8_start :: "byte \<Rightarrow> (u32 \<times> nat \<times> u32) option" where
  "utf8_start c =
     (if c AND TOP_BITS 3 = TOP_BITS 2 then Some (ucast (c AND BOTTOM_BITS 5), 1, 0x80)
      else if c AND TOP_BITS 4 = TOP_BITS 3 then Some (ucast (c AND BOTTOM_BITS 4), 2, 0x800)
      else if c AND TOP_BITS 5 = TOP_BITS 4 then Some (ucast (c AND BOTTOM_BITS 3), 3, 0x10000)
      else None)"

definition cbs_get_utf8 :: "mem \<Rightarrow> cbs \<Rightarrow> u32 option \<times> cbs" where
  "cbs_get_utf8 m cbs =
     cbs_then (CBS_get_u8 m cbs) (\<lambda>c cbs.
       if c \<le> 0x7f then (Some (ucast c), cbs)
       else case utf8_start c of
              None \<Rightarrow> (None, cbs)
            | Some (v, len, lower_bound) \<Rightarrow>
                cbs_then (utf8_loop m cbs v len) (\<lambda>v cbs.
                  if \<not> is_valid_code_point v \<or> v < lower_bound then (None, cbs) else (Some v, cbs)))"

definition cbs_get_latin1 :: "mem \<Rightarrow> cbs \<Rightarrow> u32 option \<times> cbs" where
  "cbs_get_latin1 m cbs = cbs_then (CBS_get_u8 m cbs) (\<lambda>c cbs. (Some (ucast c), cbs))"

definition cbs_get_ucs2_be :: "mem \<Rightarrow> cbs \<Rightarrow> u32 option \<times> cbs" where
  "cbs_get_ucs2_be m cbs =
     cbs_then (CBS_get_u16 m cbs) (\<lambda>c cbs.
       if \<not> is_valid_code_point (ucast c) then (None, cbs) else (Some (ucast c), cbs))"

definition cbs_get_utf32_be :: "mem \<Rightarrow> cbs \<Rightarrow> u32 option \<times> cbs" where
  "cbs_get_utf32_be m cbs =
     cbs_then (CBS_get_u32 m cbs) (\<lambda>v cbs. if is_valid_code_point v then (Some v, cbs) else (None, cbs))"

definition cbb_get_utf8_len :: "u32 \<Rightarrow> nat" where
  "cbb_get_utf8_len u = (if u \<le> 0x7f then 1 else if u \<le> 0x7ff then 2 else if u \<le> 0xffff then 3 else 4)"

definition cbb_add_utf8 :: "(nat \<Rightarrow> bool) \<Rightarrow> nat \<Rightarrow> u32 \<Rightarrow> cbb_state \<Rightarrow> bool \<times> cbb_state" where
  "cbb_add_utf8 ma d u s =
     (let bottom = (\<lambda>n. drop_bit n u AND ucast (BOTTOM_BITS 6));
          add = (\<lambda>(v :: u32) s. CBB_add_u8 ma d (ucast v) s)
      in if \<not> is_valid_code_point u then (False, s)
         else if u \<le> 0x7f then add u s
         else if u \<le> 0x7ff then
           cbb_seq (add (ucast (TOP_BITS 2) OR drop_bit 6 u) s)
             (add (ucast (TOP_BITS 1) OR bottom 0))
         else if u \<le> 0xffff then
           cbb_seq (add (ucast (TOP_BITS 3) OR drop_bit 12 u) s) (\<lambda>s.
             cbb_seq (add (ucast (TOP_BITS 1) OR bottom 6) s)
               (add (ucast (TOP_BITS 1) OR bottom 0)))
         else if u \<le> 0x10ffff then
           cbb_seq (add (ucast (TOP_BITS 4) OR drop_bit 18 u) s) (\<lambda>s.
             cbb_seq (add (ucast (TOP_BITS 1) OR bottom 12) s) (\<lambda>s.
               cbb_seq (add (ucast (TOP_BITS 1) OR bottom 6) s)
                 (add (ucast (TOP_BITS 1) OR bottom 0))))
         else (False, s))"

definition cbb_add_latin1 :: "(nat \<Rightarrow> bool) \<Rightarrow> nat \<Rightarrow> u32 \<Rightarrow> cbb_state \<Rightarrow> bool \<times> cbb_state" where
  "cbb_add_latin1 ma d u s = (if u \<le> 0xff then CBB_add_u8 ma d (ucast u) s else (False, s))"

definition cbb_add_ucs2_be :: "(nat \<Rightarrow> bool) \<Rightarrow> nat \<Rightarrow> u32 \<Rightarrow> cbb_state \<Rightarrow> bool \<times> cbb_state" where
  "cbb_add_ucs2_be ma d u s =
     (if u \<le> 0xffff \<and> is_valid_code_point u then CBB_add_u16 ma d (ucast u) s else (False, s))"

definition cbb_add_utf32_be :: "(nat \<Rightarrow> bool) \<Rightarrow> nat \<Rightarrow> u32 \<Rightarrow> cbb_state \<Rightarrow> bool \<times> cbb_state" where
  "cbb_add_utf32_be ma d u s = (if is_valid_code_point u then CBB_add_u32 ma d u s else (False, s))"

section \<open>The reference encoding\<close>

text \<open>The shortest form of RFC 3629.\<close>

definition utf8_bytes :: "nat \<Rightarrow> bytes" where
  "utf8_bytes u =
     (if u < 0x80 then [of_nat u]
      else if u < 0x800 then [of_nat (0xc0 + u div 64), of_nat (0x80 + u mod 64)]
      else if u < 0x10000 then
        [of_nat (0xe0 + u div 4096), of_nat (0x80 + u div 64 mod 64), of_nat (0x80 + u mod 64)]
      else
        [of_nat (0xf0 + u div 262144), of_nat (0x80 + u div 4096 mod 64),
         of_nat (0x80 + u div 64 mod 64), of_nat (0x80 + u mod 64)])"

section \<open>Bits of the leading and continuation bytes\<close>

lemma bottom_bits: "BOTTOM_BITS 3 = 0x7" "BOTTOM_BITS 4 = 0xf" "BOTTOM_BITS 5 = 0x1f" "BOTTOM_BITS 6 = 0x3f"
  "TOP_BITS 1 = 0x80" "TOP_BITS (Suc 0) = 0x80" "TOP_BITS 2 = 0xc0" "TOP_BITS 3 = 0xe0" "TOP_BITS 4 = 0xf0" "TOP_BITS 5 = 0xf8"
  by (simp_all add: BOTTOM_BITS_def TOP_BITS_def)

lemma unat_and_mask: "unat (b AND mask k) = unat b mod 2 ^ k" for b :: "'a::len word"
  by (simp only: take_bit_eq_mask [symmetric] unat_take_bit)

lemma unat_and_top: "unat (b AND push_bit k (mask (8 - k))) = unat b div 2 ^ k * 2 ^ k" if "k \<le> 8" for b :: byte
proof -
  have "b AND push_bit k (mask (8 - k)) = push_bit k (drop_bit k b)"
    using that by (intro bit_word_eqI) (auto simp: bit_simps)
  then have "unat (b AND push_bit k (mask (8 - k))) = unat b div 2 ^ k * 2 ^ k mod 256"
    by (simp add: unat_push_bit unat_drop_bit)
  also have "unat b div 2 ^ k * 2 ^ k \<le> unat b" by simp
  then have "unat b div 2 ^ k * 2 ^ k < 256" using unat_byte_less [of b] by (rule le_less_trans)
  then have "unat b div 2 ^ k * 2 ^ k mod 256 = unat b div 2 ^ k * 2 ^ k" by simp
  finally show ?thesis .
qed

lemma top_masks: "(0xc0 :: byte) = push_bit 6 (mask (8 - 6))" "(0xe0 :: byte) = push_bit 5 (mask (8 - 5))"
  "(0xf0 :: byte) = push_bit 4 (mask (8 - 4))" "(0xf8 :: byte) = push_bit 3 (mask (8 - 3))"
  by (simp_all add: mask_eq_exp_minus_1)

lemma top_tests:
  fixes b :: byte
  shows "b AND 0xc0 = 0x80 \<longleftrightarrow> unat b div 64 = 2" "b AND 0xe0 = 0xc0 \<longleftrightarrow> unat b div 32 = 6"
    "b AND 0xf0 = 0xe0 \<longleftrightarrow> unat b div 16 = 14" "b AND 0xf8 = 0xf0 \<longleftrightarrow> unat b div 8 = 30"
  using unat_and_top [of 6 b] unat_and_top [of 5 b] unat_and_top [of 4 b] unat_and_top [of 3 b]
  unfolding top_masks [symmetric] by (simp_all add: word_unat_eq_iff)

lemma bottom_values:
  fixes b :: byte
  shows "unat (b AND 0x3f) = unat b mod 64" "unat (b AND 0x1f) = unat b mod 32"
    "unat (b AND 0xf) = unat b mod 16" "unat (b AND 0x7) = unat b mod 8"
  using unat_and_mask [of b 6] unat_and_mask [of b 5] unat_and_mask [of b 4] unat_and_mask [of b 3]
  by (simp_all add: mask_eq_exp_minus_1)

lemma utf8_step:
  assumes "unat v < 2 ^ 26"
  shows "unat (push_bit 6 v OR ucast (b AND 0x3f) :: u32) = unat v * 64 + unat (b :: byte) mod 64"
proof -
  have x: "unat (ucast (b AND 0x3f) :: u32) = unat b mod 64"
    by (simp add: unat_ucast bottom_values)
  have "unat b mod 64 < 64" by simp
  with assms have "unat v * 2 ^ 6 + unat b mod 64 < 2 ^ 32" by simp
  with unat_push_or [of "ucast (b AND 0x3f) :: u32" 6 v] x show ?thesis by simp
qed


lemma utf8_loop_at:
  assumes "unat v < 67108864"
  shows "utf8_loop m (cbs_at d l) v (Suc n) =
    (if l = 0 then (None, cbs_at d l)
     else if unat (m d) div 64 \<noteq> 2 then (None, cbs_at (Suc d) (l - 1))
     else utf8_loop m (cbs_at (Suc d) (l - 1)) (of_nat (unat v * 64 + unat (m d) mod 64)) n)"
proof -
  have "push_bit 6 v OR ucast (m d AND 0x3f) = (of_nat (unat v * 64 + unat (m d) mod 64) :: u32)"
    by (rule word_of_unat, rule utf8_step) (simp add: assms)
  then show ?thesis by (simp add: CBS_get_u8_at bottom_bits top_tests del: of_nat_add of_nat_mult)
qed

lemma unat_of_nat_u32: "n < 2 ^ 32 \<Longrightarrow> unat (of_nat n :: u32) = n"
  by (simp add: unat_of_nat)

lemma lead_arith:
  fixes x :: nat
  shows "x < 64 \<Longrightarrow> (0x80 + x) mod 64 = x"
    "x < 32 \<Longrightarrow> (0xc0 + x) div 32 = 6" "x < 32 \<Longrightarrow> (0xc0 + x) mod 32 = x"
    "x < 16 \<Longrightarrow> (0xe0 + x) div 32 = 7" "x < 16 \<Longrightarrow> (0xe0 + x) div 16 = 14" "x < 16 \<Longrightarrow> (0xe0 + x) mod 16 = x"
    "x < 8 \<Longrightarrow> (0xf0 + x) div 32 = 7" "x < 8 \<Longrightarrow> (0xf0 + x) div 16 = 15"
    "x < 8 \<Longrightarrow> (0xf0 + x) div 8 = 30" "x < 8 \<Longrightarrow> (0xf0 + x) mod 8 = x"
  by (auto intro!: div_nat_eqI mod_nat_eqI)

lemma sextets:
  fixes u :: nat
  shows "u div 4096 * 64 + u div 64 mod 64 = u div 64" "u div 262144 * 64 + u div 4096 mod 64 = u div 4096"
  using div_mult_mod_eq [of "u div 64" 64] div_mult_mod_eq [of "u div 4096" 64]
  by (simp_all add: div_mult2_eq [symmetric])

text \<open>Leading and continuation bytes as numbers.\<close>

lemma continuation_byte:
  "unat (of_nat (0x80 + x mod 64) :: byte) div 64 = 2" "unat (of_nat (0x80 + x mod 64) :: byte) mod 64 = x mod 64"
proof -
  have "x mod 64 < 64" by simp
  then have u: "unat (of_nat (0x80 + x mod 64) :: byte) = 128 + x mod 64"
    by (simp add: unat_of_nat del: of_nat_add)
  show "unat (of_nat (0x80 + x mod 64) :: byte) div 64 = 2" unfolding u by simp
  show "unat (of_nat (0x80 + x mod 64) :: byte) mod 64 = x mod 64" unfolding u by (rule lead_arith) simp
qed

lemma continuation_of: "unat b div 64 = 2 \<Longrightarrow> of_nat (0x80 + unat b mod 64) = b" for b :: byte
proof -
  assume "unat b div 64 = 2"
  then have "unat b = 0x80 + unat b mod 64" using div_mult_mod_eq [of "unat b" 64] by simp
  from word_of_unat [OF this] show ?thesis by simp
qed

lemma leading_of:
  fixes b :: byte
  shows "unat b div 32 = 6 \<Longrightarrow> of_nat (0xc0 + unat b mod 32) = b"
    "unat b div 16 = 14 \<Longrightarrow> of_nat (0xe0 + unat b mod 16) = b"
    "unat b div 8 = 30 \<Longrightarrow> of_nat (0xf0 + unat b mod 8) = b"
proof -
  show "unat b div 32 = 6 \<Longrightarrow> of_nat (0xc0 + unat b mod 32) = b"
    using word_of_unat [of b "0xc0 + unat b mod 32"] div_mult_mod_eq [of "unat b" 32] by simp
  show "unat b div 16 = 14 \<Longrightarrow> of_nat (0xe0 + unat b mod 16) = b"
    using word_of_unat [of b "0xe0 + unat b mod 16"] div_mult_mod_eq [of "unat b" 16] by simp
  show "unat b div 8 = 30 \<Longrightarrow> of_nat (0xf0 + unat b mod 8) = b"
    using word_of_unat [of b "0xf0 + unat b mod 8"] div_mult_mod_eq [of "unat b" 8] by simp
qed

lemma leading_byte:
  "x < 32 \<Longrightarrow> unat (of_nat (0xc0 + x) :: byte) = 0xc0 + x"
  "x < 16 \<Longrightarrow> unat (of_nat (0xe0 + x) :: byte) = 0xe0 + x"
  "x < 8 \<Longrightarrow> unat (of_nat (0xf0 + x) :: byte) = 0xf0 + x"
  by (simp_all add: unat_of_nat del: of_nat_add)

lemma valid_bound: "is_valid_code_point v \<Longrightarrow> unat v \<le> 0x10ffff"
  by (auto simp: is_valid_code_point_def word_less_nat_alt split: if_splits)

lemma valid_ascii: "unat v < 0x80 \<Longrightarrow> is_valid_code_point v"
proof -
  assume v: "unat v < 0x80"
  have "v AND 0xfffe \<noteq> 0xfffe"
  proof
    assume "v AND 0xfffe = 0xfffe"
    then have "bit (v AND 0xfffe) 8" by (simp add: bit_numeral_rec)
    then have "bit v 8" by (simp add: bit_and_iff)
    with small_bits [of v 7 8] v show False by simp
  qed
  with v show ?thesis by (simp add: is_valid_code_point_def word_less_nat_alt word_le_nat_alt)
qed

lemma cbs_get_utf8_at:
  "cbs_get_utf8 m (cbs_at d l) =
    (if l = 0 then (None, cbs_at d l)
     else if unat (m d) < 128 then (Some (of_nat (unat (m d))), cbs_at (Suc d) (l - 1))
     else let b = unat (m d); rest = cbs_at (Suc d) (l - 1);
              fin = (\<lambda>low v c. if is_valid_code_point v \<and> low \<le> unat v then (Some v, c) else (None, c)) in
       if b div 32 = 6 then cbs_then (utf8_loop m rest (of_nat (b mod 32)) 1) (fin 0x80)
       else if b div 16 = 14 then cbs_then (utf8_loop m rest (of_nat (b mod 16)) 2) (fin 0x800)
       else if b div 8 = 30 then cbs_then (utf8_loop m rest (of_nat (b mod 8)) 3) (fin 0x10000)
       else (None, rest))"
proof (cases "l = 0 \<or> unat (m d) < 128")
  case True
  have "m d \<le> 0x7f \<longleftrightarrow> unat (m d) < 128" by (auto simp: word_le_nat_alt)
  then show ?thesis using True by (auto simp: cbs_get_utf8_def CBS_get_u8_at)
next
  case False
  have le: "\<not> m d \<le> 0x7f" using False by (simp add: word_le_nat_alt)
  have u: "ucast (m d AND 0x1f) = (of_nat (unat (m d) mod 32) :: u32)"
    "ucast (m d AND 0xf) = (of_nat (unat (m d) mod 16) :: u32)"
    "ucast (m d AND 0x7) = (of_nat (unat (m d) mod 8) :: u32)"
    by (rule word_of_unat; simp add: unat_ucast bottom_values)+
  have swap: "(if \<not> is_valid_code_point v \<or> v < low then (None, c) else (Some v, c)) =
      (if is_valid_code_point v \<and> unat low \<le> unat v then (Some v, c) else (None, c))" for v low :: u32 and c :: cbs
    by (auto simp: word_less_nat_alt)
  show ?thesis
    using False le
    by (simp add: cbs_get_utf8_def CBS_get_u8_at utf8_start_def bottom_bits top_tests u swap Let_def
        del: disj_not1)
qed

lemma utf8_loop_count:
  "utf8_loop m c v 2 = utf8_loop m c v (Suc (Suc 0))" "utf8_loop m c v 3 = utf8_loop m c v (Suc (Suc (Suc 0)))"
  by (simp_all only: numeral_2_eq_2 numeral_3_eq_3)

lemma utf8_complete:
  assumes "is_valid_code_point v" and "bytes_at m d (utf8_bytes (unat v))" and "length (utf8_bytes (unat v)) \<le> l"
  shows "cbs_get_utf8 m (cbs_at d l) =
    (Some v, cbs_at (d + length (utf8_bytes (unat v))) (l - length (utf8_bytes (unat v))))"
proof -
  define u where "u = unat v"
  have v: "of_nat u = v" and u: "u \<le> 0x10ffff"
    using word_of_unat [of v u] valid_bound [OF assms(1)] by (simp_all add: u_def)
  note at = assms(2,3) [folded u_def]
  note fold = v u_def [symmetric] assms(1)
  have u32: "unat (of_nat (u div k) :: u32) = u div k" for k
    by (intro unat_of_nat_u32 le_less_trans [OF div_le_dividend] le_less_trans [OF u]) simp
  have small: "u div k < 67108864" for k
    using u by (intro le_less_trans [OF div_le_dividend] le_less_trans [OF u]) simp
  note step = cbs_get_utf8_at utf8_loop_count utf8_loop_at continuation_byte small
  consider "u < 0x80" | "0x80 \<le> u" "u < 0x800" | "0x800 \<le> u" "u < 0x10000" | "0x10000 \<le> u" by linarith
  then show ?thesis
  proof cases
    case 1
    with at have md: "m d = of_nat u" "0 < l" by (simp_all add: utf8_bytes_def)
    then have "unat (m d) = u" using 1 by (simp add: unat_of_nat)
    with 1 md(2) show ?thesis by (simp add: cbs_get_utf8_at utf8_bytes_def fold)
  next
    case 2
    then have x: "u div 64 < 32" by (simp add: less_mult_imp_div_less)
    note b0 = leading_byte(1) [OF x]
    from 2 at have m: "m d = of_nat (0xc0 + u div 64)" "m (Suc d) = of_nat (0x80 + u mod 64)" "2 \<le> l"
      by (simp_all add: utf8_bytes_def)
    note ar = lead_arith(2,3) [OF x]
    with b0 2 m u32 x show ?thesis
      by (simp add: step utf8_bytes_def fold del: of_nat_add of_nat_mult utf8_loop.simps(2))
  next
    case 3
    then have x: "u div 4096 < 16" by (simp add: less_mult_imp_div_less)
    note b0 = leading_byte(2) [OF x]
    from 3 at have m: "m d = of_nat (0xe0 + u div 4096)" "m (Suc d) = of_nat (0x80 + u div 64 mod 64)"
      "m (Suc (Suc d)) = of_nat (0x80 + u mod 64)" "3 \<le> l"
      by (simp_all add: utf8_bytes_def)
    note ar = lead_arith(4-6) [OF x] sextets [of u]
    then show ?thesis
      using b0 3 m u32 x u
      by (simp add: step utf8_bytes_def fold del: of_nat_add of_nat_mult utf8_loop.simps(2))
  next
    case 4
    then have x: "u div 262144 < 8" using u by (simp add: less_mult_imp_div_less)
    note b0 = leading_byte(3) [OF x]
    from 4 at have m: "m d = of_nat (0xf0 + u div 262144)" "m (Suc d) = of_nat (0x80 + u div 4096 mod 64)"
      "m (Suc (Suc d)) = of_nat (0x80 + u div 64 mod 64)" "m (Suc (Suc (Suc d))) = of_nat (0x80 + u mod 64)" "4 \<le> l"
      by (simp_all add: utf8_bytes_def)
    have "utf8_loop m (cbs_at (Suc d) (l - 1)) (of_nat (u div 262144)) 3 = (Some v, cbs_at (d + 4) (l - Suc (Suc (Suc (Suc 0)))))"
      using m(2-5) sextets [of u] u32
      by (simp add: utf8_loop_count utf8_loop_at continuation_byte small v
          del: of_nat_add of_nat_mult utf8_loop.simps(2))
    moreover have "unat (m d) = 0xf0 + u div 262144" unfolding m(1) by (rule b0)
    ultimately show ?thesis
      using lead_arith(7-10) [OF x] 4 m(5)
      by (simp add: cbs_get_utf8_at utf8_bytes_def fold)
  qed
qed


lemma u32_lt: "x < 2 ^ 26 \<Longrightarrow> unat (of_nat (x * 64 + y mod 64) :: u32) = x * 64 + y mod 64"
proof -
  assume "x < 2 ^ 26"
  then have "x * 64 + y mod 64 < 2 ^ 32" using mod_less_divisor [of 64 y] by simp
  then show ?thesis by (rule unat_of_nat_u32)
qed

text \<open>A step of the loop read backwards: the byte it took.\<close>

lemma utf8_loop_step:
  assumes "utf8_loop m (cbs_at d l) (of_nat x) (Suc n) = (Some w, c)" and "x < 67108864"
  obtains y where "y < 64" "m d = of_nat (0x80 + y)" "0 < l"
    "utf8_loop m (cbs_at (Suc d) (l - 1)) (of_nat (x * 64 + y)) n = (Some w, c)"
proof
  have x: "unat (of_nat x :: u32) = x" using assms(2) by (simp add: unat_of_nat)
  have s: "0 < l \<and> unat (m d) div 64 = 2 \<and>
      utf8_loop m (cbs_at (Suc d) (l - 1)) (of_nat (x * 64 + unat (m d) mod 64)) n = (Some w, c)"
    using assms utf8_loop_at [of "of_nat x" m d l n, unfolded x]
    by (simp split: if_splits del: of_nat_add of_nat_mult utf8_loop.simps(2))
  then show "m d = of_nat (0x80 + unat (m d) mod 64)" "0 < l"
    "utf8_loop m (cbs_at (Suc d) (l - 1)) (of_nat (x * 64 + unat (m d) mod 64)) n = (Some w, c)"
    using continuation_of [of "m d"] by simp_all
qed simp

lemma utf8_loop_end: "utf8_loop m c' v 0 = (Some w, c) \<Longrightarrow> w = v \<and> c = c'"
  by simp

lemma cbs_then_Some: "cbs_then r g = (Some w, c) \<longleftrightarrow> (\<exists>v c'. r = (Some v, c') \<and> g v c' = (Some w, c))"
proof -
  obtain o' c' where r: "r = (o', c')" by (cases r)
  show ?thesis unfolding r by (cases o') auto
qed

lemma digits64:
  fixes a b :: nat
  shows "b < 64 \<Longrightarrow> (a * 64 + b) div 64 = a" "b < 64 \<Longrightarrow> (a * 64 + b) mod 64 = b"
  by simp_all

lemma digits64_less: "a < k \<Longrightarrow> b < 64 \<Longrightarrow> a * 64 + b < k * 64" for a b k :: nat
  using mult_le_mono1 [of "Suc a" k 64] by simp

definition utf8_read :: "mem \<Rightarrow> nat \<Rightarrow> nat \<Rightarrow> u32 \<Rightarrow> cbs \<Rightarrow> bool" where
  "utf8_read m d l w c \<longleftrightarrow>
     bytes_at m d (utf8_bytes (unat w)) \<and> length (utf8_bytes (unat w)) \<le> l \<and>
     c = cbs_at (d + length (utf8_bytes (unat w))) (l - length (utf8_bytes (unat w)))"

lemma utf8_sound2:
  assumes "utf8_loop m (cbs_at (Suc d) l) (of_nat x) 1 = (Some w, c)" and x: "x < 32" "m d = of_nat (0xc0 + x)"
    and "0x80 \<le> unat w"
  shows "utf8_read m d (Suc l) w c"
proof -
  from assms(1) x(1) obtain y where y: "y < 64" "m (Suc d) = of_nat (0x80 + y)" "0 < l"
      and e: "w = of_nat (x * 64 + y)" "c = cbs_at (Suc (Suc d)) (l - 1)"
    by (auto elim!: utf8_loop_step simp del: of_nat_add of_nat_mult utf8_loop.simps(2))
  have lt: "x * 64 + y < 0x800" using x(1) y(1) by simp
  then have w: "unat w = x * 64 + y" by (simp add: e unat_of_nat del: of_nat_add of_nat_mult)
  have "utf8_bytes (unat w) = [of_nat (0xc0 + x), of_nat (0x80 + y)]"
    using assms(4) lt digits64 [OF y(1), of x] unfolding utf8_bytes_def w by simp
  with x(2) y(2,3) e(2) show ?thesis by (simp add: utf8_read_def del: of_nat_add of_nat_mult)
qed

lemma utf8_sound3:
  assumes "utf8_loop m (cbs_at (Suc d) l) (of_nat x) 2 = (Some w, c)" and x: "x < 16" "m d = of_nat (0xe0 + x)"
    and "0x800 \<le> unat w"
  shows "utf8_read m d (Suc l) w c"
proof -
  from assms(1) [unfolded utf8_loop_count] obtain y where y: "y < 64" "m (Suc d) = of_nat (0x80 + y)" "0 < l"
      "utf8_loop m (cbs_at (Suc (Suc d)) (l - 1)) (of_nat (x * 64 + y)) (Suc 0) = (Some w, c)"
    by (rule utf8_loop_step) (use x(1) in simp)
  have xy: "x * 64 + y < 1024" using x(1) y(1) by simp
  from y(4) obtain z where z: "z < 64" "m (Suc (Suc d)) = of_nat (0x80 + z)" "0 < l - 1"
      and e: "w = of_nat ((x * 64 + y) * 64 + z)" "c = cbs_at (Suc (Suc (Suc d))) (l - 1 - 1)"
    by (rule utf8_loop_step) (use xy in \<open>auto simp del: of_nat_add of_nat_mult\<close>)
  have lt: "(x * 64 + y) * 64 + z < 0x10000" using digits64_less [OF xy z(1)] by simp
  then have w: "unat w = (x * 64 + y) * 64 + z" by (simp add: e unat_of_nat del: of_nat_add of_nat_mult)
  have dm: "unat w div 64 = x * 64 + y" "unat w mod 64 = z" unfolding w by (rule digits64 [OF z(1)])+
  then have "unat w div 4096 = x" "unat w div 64 mod 64 = y"
    using digits64 [OF y(1), of x] div_mult2_eq [of "unat w" 64 64] by simp_all
  with dm have "utf8_bytes (unat w) = [of_nat (0xe0 + x), of_nat (0x80 + y), of_nat (0x80 + z)]"
    using assms(4) lt w unfolding utf8_bytes_def by simp
  with x(2) y(2,3) z(2,3) e(2) show ?thesis by (simp add: utf8_read_def del: of_nat_add of_nat_mult)
qed

lemma utf8_sound4:
  assumes "utf8_loop m (cbs_at (Suc d) l) (of_nat x) 3 = (Some w, c)" and x: "x < 8" "m d = of_nat (0xf0 + x)"
    and "0x10000 \<le> unat w"
  shows "utf8_read m d (Suc l) w c"
proof -
  from assms(1) [unfolded utf8_loop_count] obtain y where y: "y < 64" "m (Suc d) = of_nat (0x80 + y)" "0 < l"
      "utf8_loop m (cbs_at (Suc (Suc d)) (l - 1)) (of_nat (x * 64 + y)) (Suc (Suc 0)) = (Some w, c)"
    by (rule utf8_loop_step) (use x(1) in simp)
  define p where "p = x * 64 + y"
  have p: "p < 512" using x(1) y(1) by (simp add: p_def)
  from y(4) [folded p_def] obtain z where z: "z < 64" "m (Suc (Suc d)) = of_nat (0x80 + z)" "0 < l - 1"
      "utf8_loop m (cbs_at (Suc (Suc (Suc d))) (l - 1 - 1)) (of_nat (p * 64 + z)) (Suc 0) = (Some w, c)"
    by (rule utf8_loop_step) (use p in simp)
  define q where "q = p * 64 + z"
  have q: "q < 32768" using p z(1) by (simp add: q_def)
  from z(4) [folded q_def] obtain u where u: "u < 64" "m (Suc (Suc (Suc d))) = of_nat (0x80 + u)" "0 < l - 1 - 1"
      and e: "w = of_nat (q * 64 + u)" "c = cbs_at (Suc (Suc (Suc (Suc d)))) (l - 1 - 1 - 1)"
    by (rule utf8_loop_step) (use q in \<open>auto simp del: of_nat_add of_nat_mult\<close>)
  have w: "unat w = q * 64 + u" using q u(1) by (simp add: e unat_of_nat del: of_nat_add of_nat_mult)
  have d1: "unat w div 64 = q" "unat w mod 64 = u" unfolding w using digits64 [OF u(1)] by simp_all
  have d2: "q div 64 = p" "q mod 64 = z" unfolding q_def using digits64 [OF z(1)] by simp_all
  have d3: "p div 64 = x" "p mod 64 = y" unfolding p_def using digits64 [OF y(1)] by simp_all
  have "unat w div 4096 = p" using d1 d2 div_mult2_eq [of "unat w" 64 64] by simp
  moreover then have "unat w div 262144 = x" using d3 div_mult2_eq [of "unat w" 4096 64] by simp
  ultimately have "utf8_bytes (unat w) = [of_nat (0xf0 + x), of_nat (0x80 + y), of_nat (0x80 + z), of_nat (0x80 + u)]"
    using assms(4) d1 d2 d3 unfolding utf8_bytes_def by simp
  moreover have "l - Suc (Suc (Suc 0)) = l - 1 - 1 - 1" "Suc (Suc (Suc 0)) \<le> l" using u(3) by simp_all
  ultimately show ?thesis using x(2) y(2) z(2) u(2) e(2)
    by (simp add: utf8_read_def del: of_nat_add of_nat_mult)
qed

lemma utf8_sound:
  assumes "cbs_get_utf8 m (cbs_at d l) = (Some w, c)"
  shows "is_valid_code_point w \<and> utf8_read m d l w c"
proof (cases "l = 0 \<or> unat (m d) < 128")
  case True
  then have l: "0 < l" "unat (m d) < 128" and w: "w = of_nat (unat (m d))" "c = cbs_at (Suc d) (l - 1)"
    using assms by (auto simp: cbs_get_utf8_at split: if_splits)
  have u: "unat w = unat (m d)" unfolding w by (rule unat_of_nat_u32) (use l(2) in simp)
  from l u w(2) valid_ascii [of w] show ?thesis by (simp add: utf8_read_def utf8_bytes_def)
next
  case False
  then obtain l' where l: "l = Suc l'" by (cases l) auto
  define b where "b = unat (m d)"
  note r = assms [unfolded cbs_get_utf8_at Let_def]
  consider (two) "b div 32 = 6" | (three) "b div 32 \<noteq> 6" "b div 16 = 14"
    | (four) "b div 32 \<noteq> 6" "b div 16 \<noteq> 14" "b div 8 = 30"
    using r False by (auto simp: b_def split: if_splits)
  then show ?thesis
  proof cases
    case two
    with r False have "utf8_loop m (cbs_at (Suc d) l') (of_nat (b mod 32)) 1 = (Some w, c)"
        "is_valid_code_point w" "0x80 \<le> unat w"
      by (auto simp: b_def l cbs_then_Some split: if_splits)
    note f = this
    have "unat (m d) mod 32 < 32" by simp
    from utf8_sound2 [OF f(1) [unfolded b_def] this leading_of(1) [symmetric] f(3)] two f(2) show ?thesis
      by (simp add: b_def l)
  next
    case three
    with r False have "utf8_loop m (cbs_at (Suc d) l') (of_nat (b mod 16)) 2 = (Some w, c)"
        "is_valid_code_point w" "0x800 \<le> unat w"
      by (auto simp: b_def l cbs_then_Some split: if_splits)
    note f = this
    have "unat (m d) mod 16 < 16" by simp
    from utf8_sound3 [OF f(1) [unfolded b_def] this leading_of(2) [symmetric] f(3)] three f(2) show ?thesis
      by (simp add: b_def l)
  next
    case four
    with r False have "utf8_loop m (cbs_at (Suc d) l') (of_nat (b mod 8)) 3 = (Some w, c)"
        "is_valid_code_point w" "0x10000 \<le> unat w"
      by (auto simp: b_def l cbs_then_Some split: if_splits)
    note f = this
    have "unat (m d) mod 8 < 8" by simp
    from utf8_sound4 [OF f(1) [unfolded b_def] this leading_of(3) [symmetric] f(3)] four f(2) show ?thesis
      by (simp add: b_def l)
  qed
qed

section \<open>The writer\<close>

lemma utf8_exact:
  "cbs_get_utf8 m (cbs_at d l) = (Some v, c) \<longleftrightarrow> is_valid_code_point v \<and> utf8_read m d l v c"
proof
  assume "is_valid_code_point v \<and> utf8_read m d l v c"
  then show "cbs_get_utf8 m (cbs_at d l) = (Some v, c)"
    using utf8_complete [of v m d l] by (simp add: utf8_read_def)
qed (rule utf8_sound)

lemma utf8_len: "length (utf8_bytes (unat u)) = cbb_get_utf8_len u"
  by (auto simp: utf8_bytes_def cbb_get_utf8_len_def word_le_nat_alt)

lemma unat_or_low:
  fixes x :: "'a::len word"
  assumes "unat x < 2 ^ k" and "n * 2 ^ k + unat x < 2 ^ LENGTH('a)"
  shows "unat (push_bit k (of_nat n) OR x) = n * 2 ^ k + unat x"
proof -
  have "n * 1 \<le> n * 2 ^ k" by (intro mult_le_mono2) simp
  also have "n * 2 ^ k \<le> n * 2 ^ k + unat x" by simp
  finally have "n < 2 ^ LENGTH('a)" using assms(2) by linarith
  then have "unat (of_nat n :: 'a word) = n" by (simp add: unat_of_nat)
  then show ?thesis using unat_push_or [of x k "of_nat n"] assms by simp
qed

lemma ucast_byte_of: "unat x = n \<Longrightarrow> ucast x = (of_nat n :: byte)" for x :: u32
  by (metis of_nat_unat)

lemma lead_masks: "(0xc0 :: u32) = push_bit 5 (of_nat 6)" "(0xe0 :: u32) = push_bit 4 (of_nat 14)"
  "(0xf0 :: u32) = push_bit 3 (of_nat 30)" "(0x80 :: u32) = push_bit 6 (of_nat 2)"
  by simp_all

lemma lead_ors:
  fixes x :: u32
  shows "unat x < 32 \<Longrightarrow> ucast (0xc0 OR x) = (of_nat (0xc0 + unat x) :: byte)"
    "unat x < 16 \<Longrightarrow> ucast (0xe0 OR x) = (of_nat (0xe0 + unat x) :: byte)"
    "unat x < 8 \<Longrightarrow> ucast (0xf0 OR x) = (of_nat (0xf0 + unat x) :: byte)"
    "unat x < 64 \<Longrightarrow> ucast (0x80 OR x) = (of_nat (0x80 + unat x) :: byte)"
  using unat_or_low [of x 5 6] unat_or_low [of x 4 14] unat_or_low [of x 3 30] unat_or_low [of x 6 2]
  unfolding lead_masks [symmetric] by - (rule ucast_byte_of, simp)+

lemma utf8_parts:
  fixes u :: u32
  shows "unat u < 0x800 \<Longrightarrow> ucast (0xc0 OR drop_bit 6 u) = (of_nat (0xc0 + unat u div 64) :: byte)"
    "unat u < 0x10000 \<Longrightarrow> ucast (0xe0 OR drop_bit 12 u) = (of_nat (0xe0 + unat u div 4096) :: byte)"
    "unat u < 0x200000 \<Longrightarrow> ucast (0xf0 OR drop_bit 18 u) = (of_nat (0xf0 + unat u div 262144) :: byte)"
    "ucast (0x80 OR drop_bit k u AND 0x3f) = (of_nat (0x80 + unat u div 2 ^ k mod 64) :: byte)"
proof -
  have d: "unat (drop_bit 6 u) = unat u div 64" "unat (drop_bit 12 u) = unat u div 4096"
    "unat (drop_bit 18 u) = unat u div 262144" by (simp_all add: unat_drop_bit)
  show "unat u < 0x800 \<Longrightarrow> ucast (0xc0 OR drop_bit 6 u) = (of_nat (0xc0 + unat u div 64) :: byte)"
    using lead_ors(1) [of "drop_bit 6 u"] unfolding d by (simp add: less_mult_imp_div_less)
  show "unat u < 0x10000 \<Longrightarrow> ucast (0xe0 OR drop_bit 12 u) = (of_nat (0xe0 + unat u div 4096) :: byte)"
    using lead_ors(2) [of "drop_bit 12 u"] unfolding d by (simp add: less_mult_imp_div_less)
  show "unat u < 0x200000 \<Longrightarrow> ucast (0xf0 OR drop_bit 18 u) = (of_nat (0xf0 + unat u div 262144) :: byte)"
    using lead_ors(3) [of "drop_bit 18 u"] unfolding d by (simp add: less_mult_imp_div_less)
  have "unat (drop_bit k u AND 0x3f) = unat u div 2 ^ k mod 64"
    using unat_and_mask [of "drop_bit k u" 6] by (simp add: mask_eq_exp_minus_1 unat_drop_bit)
  with lead_ors(4) [of "drop_bit k u AND 0x3f"]
  show "ucast (0x80 OR drop_bit k u AND 0x3f) = (of_nat (0x80 + unat u div 2 ^ k mod 64) :: byte)"
    by simp
qed

lemma utf8_appender:
  assumes "is_valid_code_point u"
  shows "appender ma d (cbb_add_utf8 ma d u) (utf8_bytes (unat u))"
proof -
  have a: "appender ma d (\<lambda>s. CBB_add_u8 ma d (ucast (v :: u32)) s) [ucast v]" for v
    by (rule add_u8.appender_axioms)
  note a1 = appender_seq [OF a appender_is_open [OF a]]
  note a2 = appender_seq [OF a appender_is_open [OF a1]]
  note a3 = appender_seq [OF a appender_is_open [OF a2]]
  note p = utf8_parts(1-3) [of u] utf8_parts(4) [of 0 u, simplified] utf8_parts(4) [of 6 u, simplified]
    utf8_parts(4) [of 12 u, simplified]
  have masks: "ucast (TOP_BITS 2) = (0xc0 :: u32)" "ucast (TOP_BITS 3) = (0xe0 :: u32)"
    "ucast (TOP_BITS 4) = (0xf0 :: u32)" "ucast (TOP_BITS (Suc 0)) = (0x80 :: u32)" "ucast (BOTTOM_BITS 6) = (0x3f :: u32)"
    by (simp_all add: bottom_bits)
  have le: "u \<le> 0x7f \<longleftrightarrow> unat u < 0x80" "u \<le> 0x7ff \<longleftrightarrow> unat u < 0x800" "u \<le> 0xffff \<longleftrightarrow> unat u < 0x10000"
    "u \<le> 0x10ffff"
    using valid_bound [OF assms] by (auto simp: word_le_nat_alt)
  consider "unat u < 0x80" | "0x80 \<le> unat u" "unat u < 0x800" | "0x800 \<le> unat u" "unat u < 0x10000"
    | "0x10000 \<le> unat u" by linarith
  then show ?thesis
  proof cases
    case 1
    with assms a [of u] show ?thesis
      by (simp add: cbb_add_utf8_def [abs_def] utf8_bytes_def le)
  next
    case 2
    with assms a1 [of "0xc0 OR drop_bit 6 u" "0x80 OR u AND 0x3f"] p show ?thesis
      by (simp add: cbb_add_utf8_def [abs_def] utf8_bytes_def le masks Let_def)
  next
    case 3
    with assms a2 [of "0xe0 OR drop_bit 12 u" "0x80 OR drop_bit 6 u AND 0x3f" "0x80 OR u AND 0x3f"] p show ?thesis
      by (simp add: cbb_add_utf8_def [abs_def] utf8_bytes_def le masks Let_def)
  next
    case 4
    have "unat u < 0x200000" using valid_bound [OF assms] by simp
    with 4 assms a3 [of "0xf0 OR drop_bit 18 u" "0x80 OR drop_bit 12 u AND 0x3f" "0x80 OR drop_bit 6 u AND 0x3f"
        "0x80 OR u AND 0x3f"] p show ?thesis
      by (simp add: cbb_add_utf8_def [abs_def] utf8_bytes_def le masks Let_def)
  qed
qed

section \<open>The four encodings\<close>

text \<open>
  What a client relies on: the reader accepts exactly the encodings of the code points the
  writer takes, and the writer appends the encoding.
\<close>

locale code_point_codec =
  fixes valid :: "u32 \<Rightarrow> bool" and enc :: "u32 \<Rightarrow> bytes"
    and reader :: "mem \<Rightarrow> cbs \<Rightarrow> u32 option \<times> cbs"
    and writer :: "(nat \<Rightarrow> bool) \<Rightarrow> nat \<Rightarrow> u32 \<Rightarrow> cbb_state \<Rightarrow> bool \<times> cbb_state"
  assumes reads: "reader m (cbs_at d l) = (Some v, c) \<longleftrightarrow> valid v \<and> length (enc v) \<le> l \<and>
      bytes_at m d (enc v) \<and> c = cbs_at (d + length (enc v)) (l - length (enc v))"
    and writes: "valid v \<Longrightarrow> appender ma d (writer ma d v) (enc v)"
    and refuses: "\<not> valid v \<Longrightarrow> writer ma d v s = (False, s)"
    and enc_length: "valid v \<Longrightarrow> 0 < length (enc v) \<and> length (enc v) \<le> 4"

text \<open>Reading up to the end of the \<open>CBS\<close>; every read takes a byte at least, so its length is fuel enough.\<close>

fun read_all :: "(cbs \<Rightarrow> u32 option \<times> cbs) \<Rightarrow> nat \<Rightarrow> cbs \<Rightarrow> u32 list option" where
  "read_all r fuel c =
     (if cbs_len c = 0 then Some []
      else case fuel of
        0 \<Rightarrow> None
      | Suc f \<Rightarrow> (case r c of (None, _) \<Rightarrow> None | (Some v, c') \<Rightarrow> map_option (Cons v) (read_all r f c')))"
declare read_all.simps [simp del]

context code_point_codec
begin

lemma read_all_exact:
  "l \<le> fuel \<Longrightarrow> read_all (reader m) fuel (cbs_at d l) = Some vs \<longleftrightarrow>
     list_all valid vs \<and> region m d l = concat (map enc vs)"
proof (induction fuel arbitrary: d l vs)
  case 0
  then show ?case by (cases vs) (use enc_length in \<open>auto simp: read_all.simps\<close>)
next
  case (Suc f)
  show ?case
  proof (cases "l = 0")
    case True
    then show ?thesis by (cases vs) (use enc_length in \<open>auto simp: read_all.simps\<close>)
  next
    case False
    show ?thesis
    proof (cases vs)
      case Nil
      have "length (region m d l) = l" by simp
      with False Nil show ?thesis
        by (auto simp: read_all.simps simp del: length_region split: prod.splits option.splits)
    next
      case (Cons v ws)
      let ?k = "length (enc v)"
      have split: "region m d l = region m d ?k @ region m (d + ?k) (l - ?k)" if "?k \<le> l"
        using that region_append [of m d ?k "l - ?k"] by simp
      have less: "l - ?k \<le> f" if "valid v"
        using enc_length [OF that] Suc.prems by linarith
      have "read_all (reader m) (Suc f) (cbs_at d l) = Some vs \<longleftrightarrow>
          (\<exists>c. reader m (cbs_at d l) = (Some v, c) \<and> read_all (reader m) f c = Some ws)"
        using False Cons
        by (cases "reader m (cbs_at d l)") (auto simp: read_all.simps [of _ "Suc f"] split: option.splits)
      also have "\<dots> \<longleftrightarrow> valid v \<and> ?k \<le> l \<and> bytes_at m d (enc v) \<and> list_all valid ws \<and>
          region m (d + ?k) (l - ?k) = concat (map enc ws)"
        using Suc.IH [of "l - ?k" "d + ?k" ws] less by (auto simp: reads)
      also have "\<dots> \<longleftrightarrow> list_all valid vs \<and> region m d l = concat (map enc vs)"
      proof
        assume "valid v \<and> ?k \<le> l \<and> bytes_at m d (enc v) \<and> list_all valid ws \<and>
          region m (d + ?k) (l - ?k) = concat (map enc ws)"
        then show "list_all valid vs \<and> region m d l = concat (map enc vs)"
          using split bytes_atD [of m d "enc v"] by (simp add: Cons)
      next
        assume a: "list_all valid vs \<and> region m d l = concat (map enc vs)"
        then have "length (region m d l) = length (concat (map enc vs))" by simp
        then have k: "?k \<le> l" by (simp add: Cons)
        with a split have "region m d ?k = enc v \<and> region m (d + ?k) (l - ?k) = concat (map enc ws)"
          by (simp add: Cons)
        with a k show "valid v \<and> ?k \<le> l \<and> bytes_at m d (enc v) \<and> list_all valid ws \<and>
          region m (d + ?k) (l - ?k) = concat (map enc ws)" by (simp add: Cons bytes_at_def)
      qed
      finally show ?thesis .
    qed
  qed
qed

end

lemma cbs_get_u_exact:
  assumes "k \<le> 8"
  shows "cbs_get_u m (cbs_at d l) k = (Some v, c) \<longleftrightarrow>
    k \<le> l \<and> unat v < 256 ^ k \<and> bytes_at m d (be_bytes k (unat v)) \<and> c = cbs_at (d + k) (l - k)"
proof (cases "k \<le> l")
  case True
  let ?R = "region m d k"
  have u: "unat (get_u_loop ?R 0) = be_value ?R" using get_u_loop_be [of ?R] assms by simp
  have "get_u_loop ?R 0 = v \<longleftrightarrow> unat v < 256 ^ k \<and> ?R = be_bytes k (unat v)"
  proof
    assume "get_u_loop ?R 0 = v"
    then show "unat v < 256 ^ k \<and> ?R = be_bytes k (unat v)"
      using u be_value_less [of ?R] be_bytes_value [of ?R] by auto
  next
    assume "unat v < 256 ^ k \<and> ?R = be_bytes k (unat v)"
    then have "unat (get_u_loop ?R 0) = unat v" unfolding u using be_value_bytes [of "unat v" k] by simp
    then show "get_u_loop ?R 0 = v" by (simp add: word_unat_eq_iff)
  qed
  then show ?thesis using True by (auto simp: cbs_get_u_def cbs_get_at bytes_at_def)
next
  case False
  then show ?thesis by (simp add: cbs_get_u_def cbs_get_at)
qed

text \<open>The word a fixed width reader hands out, for \<open>k\<close> bytes that fill it.\<close>

lemma unat_ucast_fits: "unat v < 2 ^ LENGTH('b) \<Longrightarrow> unat (ucast v :: 'b::len word) = unat v" for v :: "'a::len word"
  by (simp add: unat_ucast)

lemma cbs_get_word_exact:
  assumes "LENGTH('a) = 8 * k" and "k \<le> 8"
  shows "cbs_then (cbs_get_u m (cbs_at d l) k) (\<lambda>v c. (Some (ucast v :: 'a::len word), c)) = (Some w, c) \<longleftrightarrow>
    k \<le> l \<and> bytes_at m d (be_bytes k (unat w)) \<and> c = cbs_at (d + k) (l - k)"
proof -
  have p: "(256 :: nat) ^ k = 2 ^ LENGTH('a)" using assms(1) by (simp add: power_mult)
  have w: "unat w < 256 ^ k" unfolding p by simp
  have "LENGTH('a) \<le> 64" using assms by simp
  then have "2 ^ LENGTH('a) \<le> (2 :: nat) ^ 64" by (intro power_increasing) simp_all
  then have up: "unat (ucast w :: u64) = unat w"
    using less_le_trans [OF unsigned_less [of w, where 'a = nat]] by (intro unat_ucast_fits) auto
  have "(\<exists>v :: u64. unat v < 256 ^ k \<and> bytes_at m d (be_bytes k (unat v)) \<and> ucast v = w) \<longleftrightarrow>
      bytes_at m d (be_bytes k (unat w))" (is "?l = ?r")
  proof
    assume ?l
    then obtain v :: u64 where v: "unat v < 2 ^ LENGTH('a)" "bytes_at m d (be_bytes k (unat v))" "w = ucast v"
      unfolding p by auto
    then have "unat w = unat v" by (simp add: unat_ucast_fits)
    with v(2) show ?r by simp
  next
    assume ?r
    with w up have "unat (ucast w :: u64) < 256 ^ k \<and> bytes_at m d (be_bytes k (unat (ucast w :: u64))) \<and>
        ucast (ucast w :: u64) = w"
      by (metis of_nat_unat word_of_unat)
    then show ?l by blast
  qed
  then show ?thesis unfolding cbs_then_Some using cbs_get_u_exact [OF assms(2), of m d l] by auto
qed

definition latin1_valid :: "u32 \<Rightarrow> bool" where
  "latin1_valid v \<longleftrightarrow> v \<le> 0xff"

definition ucs2_valid :: "u32 \<Rightarrow> bool" where
  "ucs2_valid v \<longleftrightarrow> v \<le> 0xffff \<and> is_valid_code_point v"

interpretation utf8: code_point_codec is_valid_code_point "\<lambda>v. utf8_bytes (unat v)" cbs_get_utf8 cbb_add_utf8
proof (rule code_point_codec.intro)
  show "cbs_get_utf8 m (cbs_at d l) = (Some v, c) \<longleftrightarrow> is_valid_code_point v \<and> length (utf8_bytes (unat v)) \<le> l \<and>
      bytes_at m d (utf8_bytes (unat v)) \<and>
      c = cbs_at (d + length (utf8_bytes (unat v))) (l - length (utf8_bytes (unat v)))" for m d l v c
    unfolding utf8_exact utf8_read_def by blast
  show "is_valid_code_point v \<Longrightarrow> appender ma d (cbb_add_utf8 ma d v) (utf8_bytes (unat v))" for ma d v
    by (rule utf8_appender)
qed (simp_all add: cbb_add_utf8_def utf8_bytes_def)

interpretation utf32: code_point_codec is_valid_code_point "\<lambda>v. be_bytes 4 (unat v)" cbs_get_utf32_be cbb_add_utf32_be
proof (rule code_point_codec.intro)
  show "cbs_get_utf32_be m (cbs_at d l) = (Some v, c) \<longleftrightarrow> is_valid_code_point v \<and> length (be_bytes 4 (unat v)) \<le> l \<and>
      bytes_at m d (be_bytes 4 (unat v)) \<and>
      c = cbs_at (d + length (be_bytes 4 (unat v))) (l - length (be_bytes 4 (unat v)))" for m d l v c
    using cbs_get_word_exact [where k = 4 and 'a = 32 and m = m and d = d and l = l]
    unfolding cbs_get_utf32_be_def CBS_get_u32_def cbs_then_Some [of "cbs_then _ _"]
    by (auto split: if_splits)
qed (simp_all add: cbb_add_utf32_be_def [abs_def] add_u32.appender_axioms)

lemma ucs2_read:
  "cbs_get_ucs2_be m (cbs_at d l) = (Some v, c) \<longleftrightarrow>
     ucs2_valid v \<and> 2 \<le> l \<and> bytes_at m d (be_bytes 2 (unat v)) \<and> c = cbs_at (d + 2) (l - 2)"
proof -
  have "(\<exists>w :: u16. bytes_at m d (be_bytes 2 (unat w)) \<and> is_valid_code_point (ucast w) \<and> v = ucast w) \<longleftrightarrow>
      ucs2_valid v \<and> bytes_at m d (be_bytes 2 (unat v))" (is "?l = ?r")
  proof
    assume ?l
    then obtain w :: u16 where w: "bytes_at m d (be_bytes 2 (unat w))" "is_valid_code_point (ucast w)" "v = ucast w"
      by blast
    have "unat w < 2 ^ LENGTH(16)" by (rule unsigned_less)
    then have "unat v = unat w" "unat v \<le> 0xffff" unfolding w(3) by (simp_all add: unat_ucast_fits)
    with w show ?r by (simp add: ucs2_valid_def word_le_nat_alt)
  next
    assume r: ?r
    then have "unat v < 2 ^ LENGTH(16)" by (simp add: ucs2_valid_def word_le_nat_alt)
    then have u: "unat (ucast v :: u16) = unat v" by (rule unat_ucast_fits)
    have "ucast (ucast v :: u16) = v" by (metis u r ucs2_valid_def of_nat_unat word_of_unat)
    with r u show ?l by (intro exI [of _ "ucast v"]) (simp add: ucs2_valid_def)
  qed
  then show ?thesis
    using cbs_get_word_exact [where k = 2 and 'a = 16 and m = m and d = d and l = l]
    unfolding cbs_get_ucs2_be_def CBS_get_u16_def cbs_then_Some [of "cbs_then _ _"]
    by (auto split: if_splits)
qed

interpretation ucs2: code_point_codec ucs2_valid "\<lambda>v. be_bytes 2 (unat v)" cbs_get_ucs2_be cbb_add_ucs2_be
proof (rule code_point_codec.intro)
  show "ucs2_valid v \<Longrightarrow> appender ma d (cbb_add_ucs2_be ma d v) (be_bytes 2 (unat v))" for ma d v
    using add_u16.appender_axioms [of ma d "ucast v"]
    by (simp add: cbb_add_ucs2_be_def [abs_def] ucs2_valid_def word_le_nat_alt unat_ucast_fits)
qed (auto simp: ucs2_read cbb_add_ucs2_be_def ucs2_valid_def)

interpretation latin1: code_point_codec latin1_valid "\<lambda>v. [of_nat (unat v)]" cbs_get_latin1 cbb_add_latin1
proof (rule code_point_codec.intro)
  show "cbs_get_latin1 m (cbs_at d l) = (Some v, c) \<longleftrightarrow> latin1_valid v \<and> length [of_nat (unat v) :: byte] \<le> l \<and>
      bytes_at m d [of_nat (unat v)] \<and>
      c = cbs_at (d + length [of_nat (unat v) :: byte]) (l - length [of_nat (unat v) :: byte])" for m d l v c
  proof -
    have "ucast b = v \<longleftrightarrow> latin1_valid v \<and> b = of_nat (unat v)" for b :: byte
    proof
      assume "ucast b = v"
      moreover have "unat (ucast b :: u32) = unat b" 
        by (rule unat_ucast_fits, rule less_trans [OF unat_byte_less]) simp
      ultimately have "unat v = unat b" by simp
      moreover have "unat b \<le> 255" by (rule less_Suc_eq_le [THEN iffD1]) simp
      ultimately show "latin1_valid v \<and> b = of_nat (unat v)"
        by (simp add: latin1_valid_def word_le_nat_alt)
    next
      assume "latin1_valid v \<and> b = of_nat (unat v)"
      then show "ucast b = v"
        by (simp add: latin1_valid_def word_le_nat_alt word_unat_eq_iff unat_ucast unat_of_nat)
    qed
    then show ?thesis by (auto simp: cbs_get_latin1_def CBS_get_u8_at)
  qed
qed (use add_u8.appender_axioms in \<open>simp_all add: cbb_add_latin1_def [abs_def] latin1_valid_def\<close>)

text \<open>
  C30: \<open>cbs_get_utf8\<close> accepts exactly the shortest-form encodings of valid code points (surrogates,
  noncharacters, values above 10FFFF, overlong and truncated forms are refused) and stops right
  behind the one it read.
\<close>

theorem utf8_reader_exact:
  "cbs_get_utf8 m (cbs_at d l) = (Some v, c) \<longleftrightarrow>
     is_valid_code_point v \<and> length (utf8_bytes (unat v)) \<le> l \<and> bytes_at m d (utf8_bytes (unat v)) \<and>
     c = cbs_at (d + length (utf8_bytes (unat v))) (l - length (utf8_bytes (unat v)))"
  by (rule utf8.reads)

end
