(* ===== verification/Ssl_Mbstring.thy ===== *)
theory Ssl_Mbstring
  imports Ssl_Unicode
begin

text \<open>
  \<open>ASN1_mbstring_ncopy\<close> of \<open>crypto/asn1/a_mbstr.c\<close>, which chooses the smallest ASN.1 string type
  for a text and transcodes it, with \<open>ASN1_STRING_set\<close> of \<open>asn1_lib.c\<close>. It reads with the readers
  and writes with the writers of \<open>Ssl_Unicode\<close>.
\<close>

section \<open>Strings\<close>

record asn1_string =
  as_type :: int
  as_length :: int
  as_data :: "bytes option"
  as_flags :: int

definition ASN1_STRING_type_new :: "(nat \<Rightarrow> bool) \<Rightarrow> int \<Rightarrow> asn1_string option" where
  "ASN1_STRING_type_new ma ty =
     (if \<not> OPENSSL_malloc ma 24 then None
      else Some \<lparr>as_type = ty, as_length = 0, as_data = None, as_flags = 0\<rparr>)"

text \<open>The C library's \<open>strlen\<close>; addresses end at \<open>SIZE_LIMIT\<close>.\<close>

function c_strlen :: "mem \<Rightarrow> nat \<Rightarrow> nat" where
  "c_strlen m p = (if m p = 0 \<or> SIZE_LIMIT \<le> p then 0 else Suc (c_strlen m (Suc p)))"
  by pat_completeness auto
termination by (relation "measure (\<lambda>(_, p). SIZE_LIMIT - p)") auto
declare c_strlen.simps [simp del]

text \<open>A length is an \<open>int\<close>: that of \<open>strlen\<close> is cut to 32 bits, and as a \<open>size_t\<close> it is taken modulo \<open>2 ^ 64\<close>.\<close>

definition ASN1_STRING_set ::
    "(nat \<Rightarrow> bool) \<Rightarrow> mem \<Rightarrow> mem \<Rightarrow> asn1_string \<Rightarrow> nat option \<Rightarrow> int \<Rightarrow> bool \<times> asn1_string" where
  "ASN1_STRING_set ma fresh m str data len0 =
     (let set = (\<lambda>len str. let str = str\<lparr>as_length := len\<rparr> in
          case (data, as_data str) of
            (Some p, Some buf) \<Rightarrow>
              (True, str\<lparr>as_data := Some (region m p (nat (len mod 2 ^ 64)) @ [0] @ drop (Suc (nat (len mod 2 ^ 64))) buf)\<rparr>)
          | _ \<Rightarrow> (True, str));
        go = (\<lambda>len.
          if as_length str \<le> len \<or> as_data str = None then
            case OPENSSL_realloc ma fresh (as_data str) (nat (signed_take_bit 31 (len + 1) mod 2 ^ 64)) of
              None \<Rightarrow> (False, str)
            | Some buf \<Rightarrow> set len (str\<lparr>as_data := Some buf\<rparr>)
          else set len str)
      in if len0 < 0 then
           (case data of None \<Rightarrow> (False, str) | Some p \<Rightarrow> go (signed_take_bit 31 (int (c_strlen m p))))
         else go len0)"

section \<open>Choosing a type\<close>

datatype mb_error =
    MB_UNKNOWN_FORMAT | MB_INVALID_BMPSTRING | MB_INVALID_UNIVERSALSTRING | MB_INVALID_UTF8STRING
  | MB_ILLEGAL_CHARACTERS | MB_STRING_TOO_SHORT | MB_STRING_TOO_LONG | MB_MALLOC_FAILURE | MB_INTERNAL_ERROR

definition MBSTRING_UTF8 :: int where "MBSTRING_UTF8 = 0x1000"
definition MBSTRING_ASC :: int where "MBSTRING_ASC = 0x1001"
definition MBSTRING_BMP :: int where "MBSTRING_BMP = 0x1002"
definition MBSTRING_UNIV :: int where "MBSTRING_UNIV = 0x1004"

definition B_ASN1_PRINTABLESTRING :: u64 where "B_ASN1_PRINTABLESTRING = 0x0002"
definition B_ASN1_T61STRING :: u64 where "B_ASN1_T61STRING = 0x0004"
definition B_ASN1_IA5STRING :: u64 where "B_ASN1_IA5STRING = 0x0010"
definition B_ASN1_UNIVERSALSTRING :: u64 where "B_ASN1_UNIVERSALSTRING = 0x0100"
definition B_ASN1_BMPSTRING :: u64 where "B_ASN1_BMPSTRING = 0x0800"
definition B_ASN1_UTF8STRING :: u64 where "B_ASN1_UTF8STRING = 0x2000"

definition DIRSTRING_TYPE :: u64 where
  "DIRSTRING_TYPE = B_ASN1_PRINTABLESTRING OR B_ASN1_T61STRING OR B_ASN1_BMPSTRING OR B_ASN1_UTF8STRING"

definition V_ASN1_UTF8STRING :: int where "V_ASN1_UTF8STRING = 12"
definition V_ASN1_PRINTABLESTRING :: int where "V_ASN1_PRINTABLESTRING = 19"
definition V_ASN1_T61STRING :: int where "V_ASN1_T61STRING = 20"
definition V_ASN1_IA5STRING :: int where "V_ASN1_IA5STRING = 22"
definition V_ASN1_UNIVERSALSTRING :: int where "V_ASN1_UNIVERSALSTRING = 28"
definition V_ASN1_BMPSTRING :: int where "V_ASN1_BMPSTRING = 30"

definition asn1_is_printable :: "u32 \<Rightarrow> bool" where
  "asn1_is_printable v =
     (if 0x7f < v then False
      else (0x61 \<le> v \<and> v \<le> 0x7a) \<or> (0x41 \<le> v \<and> v \<le> 0x5a) \<or> (0x30 \<le> v \<and> v \<le> 0x39) \<or>
        v = 0x20 \<or> v = 0x27 \<or> v = 0x28 \<or> v = 0x29 \<or> v = 0x2b \<or> v = 0x2c \<or> v = 0x2d \<or> v = 0x2e \<or>
        v = 0x2f \<or> v = 0x3a \<or> v = 0x3d \<or> v = 0x3f)"

definition mb_decoder :: "int \<Rightarrow> ((mem \<Rightarrow> cbs \<Rightarrow> u32 option \<times> cbs) \<times> mb_error) option" where
  "mb_decoder inform =
     (if inform = MBSTRING_BMP then Some (cbs_get_ucs2_be, MB_INVALID_BMPSTRING)
      else if inform = MBSTRING_UNIV then Some (cbs_get_utf32_be, MB_INVALID_UNIVERSALSTRING)
      else if inform = MBSTRING_UTF8 then Some (cbs_get_utf8, MB_INVALID_UTF8STRING)
      else if inform = MBSTRING_ASC then Some (cbs_get_latin1, MB_INTERNAL_ERROR)
      else None)"

definition mb_drop :: "u64 \<Rightarrow> bool \<Rightarrow> u64 \<Rightarrow> u64" where
  "mb_drop b no msk = (if msk AND b \<noteq> 0 \<and> no then msk AND NOT b else msk)"

definition mb_narrow :: "u64 \<Rightarrow> u32 \<Rightarrow> u64" where
  "mb_narrow msk c =
     mb_drop B_ASN1_BMPSTRING (0xffff < c)
       (mb_drop B_ASN1_T61STRING (0xff < c)
         (mb_drop B_ASN1_IA5STRING (127 < c)
           (mb_drop B_ASN1_PRINTABLESTRING (\<not> asn1_is_printable c) msk)))"

text \<open>
  The first loop, \<open>nchar\<close> and \<open>utf8_len\<close> starting at 0. Both stay below \<open>5 * len\<close>, far from
  the limit of \<open>size_t\<close>. Each turn reads a byte or fails, so \<open>len\<close> turns are enough: \<open>None\<close>, the
  fuel running out, is never the result.
\<close>

fun mb_scan :: "int \<Rightarrow> (cbs \<Rightarrow> u32 option \<times> cbs) \<Rightarrow> mb_error \<Rightarrow> nat \<Rightarrow> cbs \<Rightarrow> u64 \<Rightarrow> nat \<Rightarrow> nat \<Rightarrow>
    (mb_error + u64 \<times> nat \<times> nat) option" where
  "mb_scan inform reader error fuel cbs msk nchar utf8_len =
     (if cbs_len cbs = 0 then Some (Inr (msk, nchar, utf8_len))
      else case fuel of
        0 \<Rightarrow> None
      | Suc f \<Rightarrow>
          (case reader cbs of
             (None, _) \<Rightarrow> Some (Inl error)
           | (Some c, cbs) \<Rightarrow>
               if nchar = 0 \<and> (inform = MBSTRING_BMP \<or> inform = MBSTRING_UNIV) \<and> c = 0xfeff
               then Some (Inl MB_ILLEGAL_CHARACTERS)
               else let msk = mb_narrow msk c in
                 if msk = 0 then Some (Inl MB_ILLEGAL_CHARACTERS)
                 else mb_scan inform reader error f cbs msk (nchar + 1) (utf8_len + cbb_get_utf8_len c)))"
declare mb_scan.simps [simp del]

text \<open>The type, the output format, its writer and the size estimate.\<close>

definition mb_output_type ::
    "u64 \<Rightarrow> nat \<Rightarrow> nat \<Rightarrow> (int \<times> int \<times> ((nat \<Rightarrow> bool) \<Rightarrow> nat \<Rightarrow> u32 \<Rightarrow> cbb_state \<Rightarrow> bool \<times> cbb_state) \<times> nat) option" where
  "mb_output_type msk nchar utf8_len =
     (if msk AND B_ASN1_PRINTABLESTRING \<noteq> 0 then Some (V_ASN1_PRINTABLESTRING, MBSTRING_ASC, cbb_add_latin1, nchar)
      else if msk AND B_ASN1_IA5STRING \<noteq> 0 then Some (V_ASN1_IA5STRING, MBSTRING_ASC, cbb_add_latin1, nchar)
      else if msk AND B_ASN1_T61STRING \<noteq> 0 then Some (V_ASN1_T61STRING, MBSTRING_ASC, cbb_add_latin1, nchar)
      else if msk AND B_ASN1_BMPSTRING \<noteq> 0 then Some (V_ASN1_BMPSTRING, MBSTRING_BMP, cbb_add_ucs2_be, 2 * nchar)
      else if msk AND B_ASN1_UNIVERSALSTRING \<noteq> 0
      then Some (V_ASN1_UNIVERSALSTRING, MBSTRING_UNIV, cbb_add_utf32_be, 4 * nchar)
      else if msk AND B_ASN1_UTF8STRING \<noteq> 0 then Some (V_ASN1_UTF8STRING, MBSTRING_UTF8, cbb_add_utf8, utf8_len)
      else None)"

section \<open>Copying\<close>

fun mb_transcode :: "(cbs \<Rightarrow> u32 option \<times> cbs) \<Rightarrow> (u32 \<Rightarrow> cbb_state \<Rightarrow> bool \<times> cbb_state) \<Rightarrow> nat \<Rightarrow> cbs \<Rightarrow>
    cbb_state \<Rightarrow> bool \<times> cbb_state" where
  "mb_transcode reader writer fuel cbs s =
     (if cbs_len cbs = 0 then (True, s)
      else case fuel of
        0 \<Rightarrow> (False, s)
      | Suc f \<Rightarrow>
          (case reader cbs of
             (None, _) \<Rightarrow> (False, s)
           | (Some c, cbs) \<Rightarrow> cbb_seq (writer c s) (mb_transcode reader writer f cbs)))"
declare mb_transcode.simps [simp del]

text \<open>
  The caller's \<open>*out\<close>: a null pointer, a string, or, after \<open>ASN1_STRING_free\<close>, a pointer to
  freed memory.
\<close>

datatype out_ptr = OutNull | OutString asn1_string | OutFreed

text \<open>From \<open>CBB_init\<close> on: the finished bytes, or the error pushed before \<open>goto err\<close>.\<close>

definition mb_copy :: "(nat \<Rightarrow> bool) \<Rightarrow> mem \<Rightarrow> (cbs \<Rightarrow> u32 option \<times> cbs) \<Rightarrow>
    ((nat \<Rightarrow> bool) \<Rightarrow> nat \<Rightarrow> u32 \<Rightarrow> cbb_state \<Rightarrow> bool \<times> cbb_state) \<Rightarrow> nat \<Rightarrow> cbs \<Rightarrow> mb_error + bytes" where
  "mb_copy ma fresh reader writer size_estimate cbs =
     (case CBB_init ma fresh (size_estimate + 1) of
        None \<Rightarrow> Inl MB_MALLOC_FAILURE
      | Some s \<Rightarrow>
          (case cbb_seq (mb_transcode reader (writer ma 0) (cbs_len cbs) cbs s) (CBB_add_u8 ma 0 0) of
             (False, _) \<Rightarrow> Inl MB_INTERNAL_ERROR
           | (True, s') \<Rightarrow>
               (case fst (CBB_finish ma 0 s') of
                  None \<Rightarrow> Inl MB_INTERNAL_ERROR
                | Some bs \<Rightarrow>
                    if length bs < 1 \<or> 2 ^ 31 - 1 < length bs then Inl MB_INTERNAL_ERROR else Inr bs)))"

definition ASN1_mbstring_ncopy ::
    "(nat \<Rightarrow> bool) \<Rightarrow> mem \<Rightarrow> mem \<Rightarrow> out_ptr option \<Rightarrow> nat \<Rightarrow> int \<Rightarrow> int \<Rightarrow> u64 \<Rightarrow> int \<Rightarrow> int \<Rightarrow>
     (mb_error + int) \<times> out_ptr option" where
  "ASN1_mbstring_ncopy ma fresh m out inp len0 inform msk0 minsize maxsize =
     (let len = (if len0 = - 1 then signed_take_bit 31 (int (c_strlen m inp)) else len0);
          msk = (if msk0 = 0 then DIRSTRING_TYPE else msk0);
          cbs = CBS_init inp (nat (len mod 2 ^ 64))
      in case mb_decoder inform of
        None \<Rightarrow> (Inl MB_UNKNOWN_FORMAT, out)
      | Some (reader, error) \<Rightarrow>
      case mb_scan inform (reader m) error (cbs_len cbs) cbs msk 0 0 of
        None \<Rightarrow> (Inl MB_INTERNAL_ERROR, out)
      | Some (Inl e) \<Rightarrow> (Inl e, out)
      | Some (Inr (msk, nchar, utf8_len)) \<Rightarrow>
      if 0 < minsize \<and> int nchar < minsize then (Inl MB_STRING_TOO_SHORT, out)
      else if 0 < maxsize \<and> maxsize < int nchar then (Inl MB_STRING_TOO_LONG, out)
      else case mb_output_type msk nchar utf8_len of
        None \<Rightarrow> (Inl MB_ILLEGAL_CHARACTERS, out)
      | Some (str_type, outform, writer, size_estimate) \<Rightarrow>
      case out of
        None \<Rightarrow> (Inr str_type, None)
      | Some cur \<Rightarrow>
      case (case cur of
              OutString dest \<Rightarrow>
                Some (False, (if as_data dest = None then dest else dest\<lparr>as_length := 0, as_data := None\<rparr>)
                        \<lparr>as_type := str_type\<rparr>)
            | _ \<Rightarrow> map_option (Pair True) (ASN1_STRING_type_new ma str_type)) of
        None \<Rightarrow> (Inl MB_MALLOC_FAILURE, out)
      | Some (free_out, dest) \<Rightarrow>
      if inform = outform then
        (case ASN1_STRING_set ma fresh m dest (Some inp) len of
           (False, dest) \<Rightarrow> (Inl MB_MALLOC_FAILURE, Some (OutString dest))
         | (True, dest) \<Rightarrow> (Inr str_type, Some (OutString dest)))
      else
        (case mb_copy ma fresh (reader m) writer size_estimate cbs of
           Inl e \<Rightarrow> (Inl e, Some (if free_out then OutFreed else OutString dest))
         | Inr data \<Rightarrow>
             (Inr str_type,
              Some (OutString (dest\<lparr>as_length := int (length data - 1), as_data := Some data\<rparr>)))))"

definition ASN1_mbstring_copy ::
    "(nat \<Rightarrow> bool) \<Rightarrow> mem \<Rightarrow> mem \<Rightarrow> out_ptr option \<Rightarrow> nat \<Rightarrow> int \<Rightarrow> int \<Rightarrow> u64 \<Rightarrow> (mb_error + int) \<times> out_ptr option" where
  "ASN1_mbstring_copy ma fresh m out inp len inform msk =
     ASN1_mbstring_ncopy ma fresh m out inp len inform msk 0 0"

section \<open>What the function promises\<close>

text \<open>The code points and encoding of each \<open>MBSTRING_*\<close> format.\<close>

definition mb_valid :: "int \<Rightarrow> u32 \<Rightarrow> bool" where
  "mb_valid fmt = (if fmt = MBSTRING_ASC then latin1_valid else if fmt = MBSTRING_BMP then ucs2_valid else is_valid_code_point)"

definition mb_enc :: "int \<Rightarrow> u32 \<Rightarrow> bytes" where
  "mb_enc fmt v =
     (if fmt = MBSTRING_ASC then [of_nat (unat v)] else if fmt = MBSTRING_BMP then be_bytes 2 (unat v)
      else if fmt = MBSTRING_UNIV then be_bytes 4 (unat v) else utf8_bytes (unat v))"

text \<open>The candidates in the order of preference: mask bit, type, format and the characters each holds.\<close>

definition mb_types :: "(nat \<times> int \<times> int \<times> (u32 \<Rightarrow> bool)) list" where
  "mb_types =
     [(1, V_ASN1_PRINTABLESTRING, MBSTRING_ASC, asn1_is_printable),
      (4, V_ASN1_IA5STRING, MBSTRING_ASC, \<lambda>c. c \<le> 127),
      (2, V_ASN1_T61STRING, MBSTRING_ASC, \<lambda>c. c \<le> 0xff),
      (11, V_ASN1_BMPSTRING, MBSTRING_BMP, \<lambda>c. c \<le> 0xffff),
      (8, V_ASN1_UNIVERSALSTRING, MBSTRING_UNIV, \<lambda>c. True),
      (13, V_ASN1_UTF8STRING, MBSTRING_UTF8, \<lambda>c. True)]"

definition smallest_type :: "u64 \<Rightarrow> u32 list \<Rightarrow> (int \<times> int) option" where
  "smallest_type msk vs =
     map_option (\<lambda>(_, ty, fmt, _). (ty, fmt)) (List.find (\<lambda>(n, _, _, p). bit msk n \<and> list_all p vs) mb_types)"

definition has_bom :: "int \<Rightarrow> u32 list \<Rightarrow> bool" where
  "has_bom inform vs \<longleftrightarrow> vs \<noteq> [] \<and> hd vs = 0xfeff \<and> (inform = MBSTRING_BMP \<or> inform = MBSTRING_UNIV)"

section \<open>The mask\<close>

lemma mask_tests:
  fixes w :: u64
  shows "w AND B_ASN1_PRINTABLESTRING \<noteq> 0 \<longleftrightarrow> bit w 1" "w AND B_ASN1_IA5STRING \<noteq> 0 \<longleftrightarrow> bit w 4"
    "w AND B_ASN1_T61STRING \<noteq> 0 \<longleftrightarrow> bit w 2" "w AND B_ASN1_BMPSTRING \<noteq> 0 \<longleftrightarrow> bit w 11"
    "w AND B_ASN1_UNIVERSALSTRING \<noteq> 0 \<longleftrightarrow> bit w 8" "w AND B_ASN1_UTF8STRING \<noteq> 0 \<longleftrightarrow> bit w 13"
  using and_exp_eq_0_iff_not_bit [of w 1] and_exp_eq_0_iff_not_bit [of w 4] and_exp_eq_0_iff_not_bit [of w 2]
    and_exp_eq_0_iff_not_bit [of w 11] and_exp_eq_0_iff_not_bit [of w 8] and_exp_eq_0_iff_not_bit [of w 13]
  by (simp_all add: B_ASN1_PRINTABLESTRING_def B_ASN1_IA5STRING_def B_ASN1_T61STRING_def B_ASN1_BMPSTRING_def
      B_ASN1_UNIVERSALSTRING_def B_ASN1_UTF8STRING_def)

lemma mask_bits:
  "bit B_ASN1_PRINTABLESTRING n \<longleftrightarrow> n = 1" "bit B_ASN1_IA5STRING n \<longleftrightarrow> n = 4"
  "bit B_ASN1_T61STRING n \<longleftrightarrow> n = 2" "bit B_ASN1_BMPSTRING n \<longleftrightarrow> n = 11"
proof -
  have b: "bit (2 ^ k :: u64) n \<longleftrightarrow> n = k" if "k < 64" for k using that by (auto simp: bit_exp_iff)
  show "bit B_ASN1_PRINTABLESTRING n \<longleftrightarrow> n = 1" "bit B_ASN1_IA5STRING n \<longleftrightarrow> n = 4"
    "bit B_ASN1_T61STRING n \<longleftrightarrow> n = 2" "bit B_ASN1_BMPSTRING n \<longleftrightarrow> n = 11"
    using b [of 1] b [of 4] b [of 2] b [of 11]
    by (simp_all add: B_ASN1_PRINTABLESTRING_def B_ASN1_IA5STRING_def B_ASN1_T61STRING_def B_ASN1_BMPSTRING_def)
qed

lemma bit_clear: "bit (mb_drop b p w) n \<longleftrightarrow> bit w n \<and> (bit b n \<longrightarrow> \<not> p)"
  if "\<And>n n'. bit b n \<Longrightarrow> bit b n' \<Longrightarrow> n = n'" for w b :: u64
proof (cases "w AND b = 0")
  case True
  then have "\<not> (bit w n \<and> bit b n)" using bit_and_iff [of w b n] by auto
  with True show ?thesis by (auto simp: mb_drop_def)
next
  case False
  then show ?thesis by (auto simp: mb_drop_def bit_simps dest: bit_imp_possible_bit)
qed

lemma bit_narrow:
  "bit (mb_narrow w c) n \<longleftrightarrow> bit w n \<and> (n = 1 \<longrightarrow> asn1_is_printable c) \<and> (n = 4 \<longrightarrow> c \<le> 127) \<and>
     (n = 2 \<longrightarrow> c \<le> 0xff) \<and> (n = 11 \<longrightarrow> c \<le> 0xffff)"
  unfolding mb_narrow_def
  by (subst bit_clear, simp add: mask_bits)+ (auto simp: mask_bits not_less)

lemma bit_narrows:
  "bit (foldl mb_narrow w vs) n \<longleftrightarrow> bit w n \<and> (n = 1 \<longrightarrow> list_all asn1_is_printable vs) \<and>
     (n = 4 \<longrightarrow> list_all (\<lambda>c. c \<le> 127) vs) \<and> (n = 2 \<longrightarrow> list_all (\<lambda>c. c \<le> 0xff) vs) \<and>
     (n = 11 \<longrightarrow> list_all (\<lambda>c. c \<le> 0xffff) vs)"
  by (induction vs arbitrary: w) (auto simp: bit_narrow)

definition mb_writer :: "int \<Rightarrow> (nat \<Rightarrow> bool) \<Rightarrow> nat \<Rightarrow> u32 \<Rightarrow> cbb_state \<Rightarrow> bool \<times> cbb_state" where
  "mb_writer fmt = (if fmt = MBSTRING_ASC then cbb_add_latin1 else if fmt = MBSTRING_BMP then cbb_add_ucs2_be
     else if fmt = MBSTRING_UNIV then cbb_add_utf32_be else cbb_add_utf8)"

lemmas mb_formats = MBSTRING_ASC_def MBSTRING_BMP_def MBSTRING_UNIV_def MBSTRING_UTF8_def

lemma output_type_smallest:
  "map_option (\<lambda>(ty, fmt, w, _). (ty, fmt, w)) (mb_output_type (foldl mb_narrow msk vs) nc ul) =
     map_option (\<lambda>(ty, fmt). (ty, fmt, mb_writer fmt)) (smallest_type msk vs)"
  by (simp add: mb_output_type_def smallest_type_def mb_types_def mask_tests bit_narrows mb_writer_def mb_formats
      list.pred_True)

lemma output_type_estimate:
  "mb_output_type w nc ul = Some (ty, fmt, wr, est) \<Longrightarrow> est \<le> 4 * nc + ul"
  by (auto simp: mb_output_type_def split: if_splits)

lemma smallest_nonzero: "smallest_type msk vs = Some r \<Longrightarrow> foldl mb_narrow msk vs \<noteq> 0"
proof
  assume "smallest_type msk vs = Some r" and z: "foldl mb_narrow msk vs = 0"
  then have "map_option (\<lambda>(ty, fmt, w, _). (ty, fmt, w)) (mb_output_type (0 :: u64) 0 0) \<noteq> None"
    using output_type_smallest [of msk vs 0 0] by auto
  then show False by (simp add: mb_output_type_def)
qed

section \<open>The two loops\<close>

lemma scan_eq:
  "mb_scan inform r e fuel c msk nc ul = Some (Inr (msk', nc', ul')) \<longleftrightarrow>
     (\<exists>vs. read_all r fuel c = Some vs \<and> \<not> (nc = 0 \<and> has_bom inform vs) \<and> msk' = foldl mb_narrow msk vs \<and>
        (vs \<noteq> [] \<longrightarrow> msk' \<noteq> 0) \<and> nc' = nc + length vs \<and> ul' = ul + sum_list (map cbb_get_utf8_len vs))"
proof (induction fuel arbitrary: c msk nc ul)
  case 0
  then show ?case by (auto simp: mb_scan.simps read_all.simps has_bom_def)
next
  case (Suc f)
  show ?case
  proof (cases "cbs_len c = 0")
    case True
    then show ?thesis by (auto simp: mb_scan.simps read_all.simps has_bom_def)
  next
    case False
    obtain o1 c1 where r: "r c = (o1, c1)" by (cases "r c")
    show ?thesis
    proof (cases o1)
      case None
      with False r show ?thesis by (simp add: mb_scan.simps read_all.simps)
    next
      case (Some v)
      have sticky: "foldl mb_narrow 0 vs = 0" for vs
        by (rule bit_word_eqI) (simp add: bit_narrows)
      show ?thesis
        using False r Some sticky
        by (cases "read_all r f c1")
           (auto simp: mb_scan.simps [of _ _ _ "Suc f"] read_all.simps [of _ "Suc f"] Suc.IH has_bom_def Let_def)
    qed
  qed
qed

section \<open>Writing the text out\<close>

lemma mb_reader_codec:
  assumes "mb_decoder inform = Some (r, e)"
  obtains w where "code_point_codec (mb_valid inform) (mb_enc inform) r w"
  using assms utf8.code_point_codec_axioms utf32.code_point_codec_axioms ucs2.code_point_codec_axioms
    latin1.code_point_codec_axioms
  by (auto simp: mb_decoder_def mb_valid_def mb_enc_def [abs_def] mb_formats split: if_splits)

lemma mb_writer_codec:
  assumes "smallest_type msk vs = Some (ty, fmt)"
  obtains r where "code_point_codec (mb_valid fmt) (mb_enc fmt) r (mb_writer fmt)"
proof -
  have "fmt \<in> {MBSTRING_ASC, MBSTRING_BMP, MBSTRING_UNIV, MBSTRING_UTF8}"
    using assms by (auto simp: smallest_type_def mb_types_def split: if_splits)
  then show ?thesis
    using that utf8.code_point_codec_axioms utf32.code_point_codec_axioms ucs2.code_point_codec_axioms
      latin1.code_point_codec_axioms
    by (auto simp: mb_writer_def mb_valid_def mb_enc_def [abs_def] mb_formats)
qed

lemma valid_latin1: "unat v < 0x100 \<Longrightarrow> is_valid_code_point v"
proof -
  assume v: "unat v < 0x100"
  have "v AND 0xfffe \<noteq> 0xfffe"
  proof
    assume "v AND 0xfffe = 0xfffe"
    then have "bit (v AND 0xfffe) 8" by (simp add: bit_numeral_rec)
    then have "bit v 8" by (simp add: bit_and_iff)
    with small_bits [of v 8 8] v show False by simp
  qed
  with v show ?thesis by (simp add: is_valid_code_point_def word_less_nat_alt word_le_nat_alt)
qed

lemma valid_mb: "mb_valid fmt v \<Longrightarrow> is_valid_code_point v"
  using valid_latin1 [of v]
  by (auto simp: mb_valid_def latin1_valid_def ucs2_valid_def word_le_nat_alt split: if_splits)

lemma printable_ascii: "asn1_is_printable c \<Longrightarrow> c \<le> 127"
  by (simp add: asn1_is_printable_def split: if_splits)

lemma smallest_valid:
  assumes "list_all (mb_valid inform) vs" and "smallest_type msk vs = Some (ty, fmt)"
  shows "list_all (mb_valid fmt) vs"
proof -
  have v: "list_all is_valid_code_point vs"
    using assms(1) valid_mb by (auto simp: list_all_iff)
  have "v \<le> 255" if "v \<le> 127 \<or> asn1_is_printable v" for v :: u32
    using that printable_ascii [of v] by (auto simp: word_le_nat_alt)
  then show ?thesis
    using assms(2) v
    by (auto simp: smallest_type_def mb_types_def mb_valid_def [abs_def] mb_formats latin1_valid_def ucs2_valid_def
        list_all_iff split: if_splits)
qed

lemma transcode_appender:
  assumes "code_point_codec valid enc r w"
  shows "read_all rd fuel c = Some vs \<Longrightarrow> list_all valid vs \<Longrightarrow>
    open_appender ma d (mb_transcode rd (w ma d) fuel c) (concat (map enc vs))"
proof (induction fuel arbitrary: c vs)
  case 0
  then show ?case using open_appender_skip [of ma d]
    by (simp add: mb_transcode.simps [abs_def] read_all.simps split: if_splits)
next
  case (Suc f)
  show ?case
  proof (cases "cbs_len c = 0")
    case True
    then show ?thesis using Suc.prems open_appender_skip [of ma d]
      by (simp add: mb_transcode.simps [abs_def] read_all.simps)
  next
    case False
    with Suc.prems(1) obtain v c1 ws where r: "rd c = (Some v, c1)" "read_all rd f c1 = Some ws" "vs = v # ws"
      by (auto simp: read_all.simps [of _ "Suc f"] split: prod.splits option.splits)
    have "open_appender ma d (w ma d v) (enc v)"
      using code_point_codec.writes [OF assms] Suc.prems(2) r(3) by (intro appender_is_open) simp
    from open_appender_seq [OF this Suc.IH [OF r(2)]] show ?thesis
      using Suc.prems(2) r False by (simp add: mb_transcode.simps [of _ _ "Suc f", abs_def])
  qed
qed

lemma mb_copy_eq:
  assumes "code_point_codec valid enc r w" and "read_all rd (cbs_len c) c = Some vs" and "list_all valid vs"
    and "length (concat (map enc vs)) < 2 ^ 31 - 1" and "est + 1 < 2 ^ 62"
  shows "mb_copy (\<lambda>_. True) fresh rd w est c = Inr (concat (map enc vs) @ [0])"
proof -
  let ?ma = "\<lambda>_ :: nat. True"
  let ?op = "\<lambda>s. cbb_seq (mb_transcode rd (w ?ma 0) (cbs_len c) c s) (CBB_add_u8 ?ma 0 0)"
  have "open_appender ?ma 0 ?op (concat (map enc vs) @ [0])"
    by (rule open_appender_seq [OF transcode_appender [OF assms(1-3)] add_u8.open_appender_axioms])
  from cbb_output_appender [OF this, of "est + 1" fresh] assms(4,5)
  have o: "cbb_output ?ma fresh (est + 1) ?op = Some (concat (map enc vs) @ [0])" by simp
  then obtain s where s: "CBB_init ?ma fresh (est + 1) = Some s"
    by (auto simp: cbb_output_def split: option.splits)
  obtain b s' where op: "?op s = (b, s')" by (cases "?op s")
  with o s have "b" "fst (CBB_finish ?ma 0 s') = Some (concat (map enc vs) @ [0])"
    by (auto simp: cbb_output_def split: bool.splits)
  with s op assms(4) show ?thesis by (simp add: mb_copy_def)
qed

lemma string_set_fresh:
  assumes "as_data str = None" and "n < 2 ^ 31 - 1"
  shows "ASN1_STRING_set (\<lambda>_. True) fresh m str (Some p) (int n) =
    (True, str\<lparr>as_length := int n, as_data := Some (region m p n @ [0])\<rparr>)"
proof -
  have "signed_take_bit 31 (int n + 1) = int n + 1" using assms(2) by (intro signed_take_bit_int_eq_self) simp_all
  moreover have "(int n + 1) mod 2 ^ 64 = int n + 1" "int n mod 2 ^ 64 = int n"
    using assms(2) by (intro mod_pos_pos_trivial; simp)+
  ultimately have n: "nat (signed_take_bit 31 (int n + 1) mod 2 ^ 64) = Suc n" "nat (int n mod 2 ^ 64) = n" by simp_all
  have "OPENSSL_malloc (\<lambda>_. True) (Suc n)"
    using assms(2) by (simp add: OPENSSL_malloc_def OPENSSL_MALLOC_PREFIX_def size_add_exact SIZE_LIMIT_def)
  then have "OPENSSL_realloc (\<lambda>_. True) fresh None (Suc n) = Some (region fresh 0 (Suc n))"
    by (simp add: OPENSSL_realloc_def)
  then show ?thesis using assms(1) by (simp only: ASN1_STRING_set_def Let_def n) simp
qed

section \<open>The whole function\<close>

definition mb_sizes_ok :: "int \<Rightarrow> int \<Rightarrow> u32 list \<Rightarrow> bool" where
  "mb_sizes_ok mn mx vs \<longleftrightarrow> (0 < mn \<longrightarrow> mn \<le> int (length vs)) \<and> (0 < mx \<longrightarrow> int (length vs) \<le> mx)"

definition mb_mask :: "u64 \<Rightarrow> u64" where
  "mb_mask msk = (if msk = 0 then DIRSTRING_TYPE else msk)"

text \<open>The text \<open>vs\<close> is what the input encodes, and \<open>bs\<close> its encoding in the type chosen.\<close>

definition mb_converts :: "mem \<Rightarrow> nat \<Rightarrow> nat \<Rightarrow> int \<Rightarrow> u64 \<Rightarrow> int \<Rightarrow> int \<Rightarrow> int \<Rightarrow> bytes \<Rightarrow> bool" where
  "mb_converts m p n inform msk mn mx ty bs \<longleftrightarrow>
     (\<exists>vs fmt. list_all (mb_valid inform) vs \<and> region m p n = concat (map (mb_enc inform) vs) \<and>
        \<not> has_bom inform vs \<and> mb_sizes_ok mn mx vs \<and> smallest_type (mb_mask msk) vs = Some (ty, fmt) \<and>
        bs = concat (map (mb_enc fmt) vs))"

context code_point_codec
begin

lemma length_encs:
  "list_all valid vs \<Longrightarrow> length vs \<le> length (concat (map enc vs)) \<and> length (concat (map enc vs)) \<le> 4 * length vs"
proof (induction vs)
  case (Cons v vs)
  with enc_length [of v] show ?case by (auto simp del: length_greater_0_conv)
qed simp

end

definition mb_result :: "int \<Rightarrow> bytes \<Rightarrow> (mb_error + int) \<times> out_ptr option \<Rightarrow> bool" where
  "mb_result ty bs r \<longleftrightarrow>
     (\<exists>s. r = (Inr ty, Some (OutString s)) \<and> as_type s = ty \<and> as_length s = int (length bs) \<and>
        as_data s = Some (bs @ [0]))"

lemma ncopy_scan:
  assumes dec: "mb_decoder inform = Some (rd, e)" and n: "n < 2 ^ 28"
  shows "mb_scan inform (rd m) e n (cbs_at p n) (mb_mask msk) 0 0 = Some (Inr (w, nc, ul)) \<longleftrightarrow>
    (\<exists>vs. list_all (mb_valid inform) vs \<and> region m p n = concat (map (mb_enc inform) vs) \<and> \<not> has_bom inform vs \<and>
       w = foldl mb_narrow (mb_mask msk) vs \<and> (vs \<noteq> [] \<longrightarrow> w \<noteq> 0) \<and> nc = length vs \<and>
       ul = sum_list (map cbb_get_utf8_len vs))"
proof -
  obtain wr where "code_point_codec (mb_valid inform) (mb_enc inform) rd wr" by (rule mb_reader_codec [OF dec])
  from code_point_codec.read_all_exact [OF this, of n n m p] show ?thesis by (simp add: scan_eq)
qed

lemma utf8_lens: "sum_list (map cbb_get_utf8_len vs) \<le> 4 * length vs"
  by (induction vs) (simp_all add: cbb_get_utf8_len_def)

lemma ncopy_text:
  assumes dec: "mb_decoder inform = Some (rd, e)" and n: "n < 2 ^ 28" and out0: "out0 \<noteq> OutFreed"
    and scan: "mb_scan inform (rd m) e n (cbs_at p n) (mb_mask msk) 0 0 =
       Some (Inr (foldl mb_narrow (mb_mask msk) vs, length vs, sum_list (map cbb_get_utf8_len vs)))"
    and vs: "list_all (mb_valid inform) vs" "region m p n = concat (map (mb_enc inform) vs)"
    and ok: "mb_sizes_ok mn mx vs" "smallest_type (mb_mask msk) vs = Some (ty, fmt)"
  shows "mb_result ty (concat (map (mb_enc fmt) vs))
    (ASN1_mbstring_ncopy (\<lambda>_. True) fresh m (Some out0) p (int n) inform msk mn mx)"
proof -
  let ?ul = "sum_list (map cbb_get_utf8_len vs)"
  let ?w = "foldl mb_narrow (mb_mask msk) vs"
  have "int n mod 18446744073709551616 = int n" using n by (intro mod_pos_pos_trivial) simp_all
  then have len: "nat (int n mod 18446744073709551616) = n" by simp
  obtain est where ty: "mb_output_type ?w (length vs) ?ul = Some (ty, fmt, mb_writer fmt, est)"
    using output_type_smallest [of "mb_mask msk" vs "length vs" ?ul] ok(2) by auto
  obtain wr where rc: "code_point_codec (mb_valid inform) (mb_enc inform) rd wr" by (rule mb_reader_codec [OF dec])
  obtain r2 where wc: "code_point_codec (mb_valid fmt) (mb_enc fmt) r2 (mb_writer fmt)"
    by (rule mb_writer_codec [OF ok(2)])
  have valid: "list_all (mb_valid fmt) vs" by (rule smallest_valid [OF vs(1) ok(2)])
  have "length (region m p n) = length (concat (map (mb_enc inform) vs))" using vs(2) by simp
  then have lvs: "length vs \<le> n" using code_point_codec.length_encs [OF rc vs(1)] by simp
  have out: "length (concat (map (mb_enc fmt) vs)) < 2 ^ 31 - 1"
    using code_point_codec.length_encs [OF wc valid] lvs n by simp
  have est: "est + 1 < 2 ^ 62"
    using output_type_estimate [OF ty] utf8_lens [of vs] lvs n by simp
  have ra: "read_all (rd m) n (cbs_at p n) = Some vs"
    using code_point_codec.read_all_exact [OF rc, of n n m p vs] vs by simp
  have copy: "mb_copy (\<lambda>_. True) fresh (rd m) (mb_writer fmt) est (cbs_at p n) = Inr (concat (map (mb_enc fmt) vs) @ [0])"
    by (rule mb_copy_eq [OF wc _ valid out est]) (simp add: ra)
  have new: "ASN1_STRING_type_new (\<lambda>_. True) ty = Some \<lparr>as_type = ty, as_length = 0, as_data = None, as_flags = 0\<rparr>"
    by (simp add: ASN1_STRING_type_new_def OPENSSL_malloc_def OPENSSL_MALLOC_PREFIX_def size_add_exact SIZE_LIMIT_def)
  have set: "ASN1_STRING_set (\<lambda>_. True) fresh m str (Some p) (int n) =
      (True, str\<lparr>as_length := int n, as_data := Some (region m p n @ [0])\<rparr>)" if "as_data str = None" for str
    by (rule string_set_fresh [OF that]) (use n in simp)
  have np: "length (concat (map (mb_enc inform) vs)) = n" using vs(2) [symmetric] by simp
  have mask: "(if msk = 0 then DIRSTRING_TYPE else msk) = mb_mask msk" by (simp add: mb_mask_def)
  have nd: "int n \<noteq> - 1" by simp
  define cur where "cur = (case out0 of
      OutString dest \<Rightarrow> (False, (if as_data dest = None then dest else dest\<lparr>as_length := 0, as_data := None\<rparr>)
        \<lparr>as_type := ty\<rparr>)
    | _ \<Rightarrow> (True, \<lparr>as_type = ty, as_length = 0, as_data = None, as_flags = 0\<rparr>))"
  have cur: "(case out0 of
      OutString dest \<Rightarrow> Some (False, (if as_data dest = None then dest else dest\<lparr>as_length := 0, as_data := None\<rparr>)
        \<lparr>as_type := ty\<rparr>)
    | _ \<Rightarrow> map_option (Pair True) (ASN1_STRING_type_new (\<lambda>_. True) ty)) = Some cur"
    "as_data (snd cur) = None" "as_type (snd cur) = ty"
    using out0 by (auto simp: cur_def new split: out_ptr.splits)
  obtain fr dest where cd: "cur = (fr, dest)" by (cases cur)
  note d = cur(2,3) [unfolded cd snd_conv]
  have sz: "\<not> (0 < mn \<and> int (length vs) < mn)" "\<not> (0 < mx \<and> mx < int (length vs))"
    using ok(1) by (auto simp: mb_sizes_ok_def)
  have r: "ASN1_mbstring_ncopy (\<lambda>_. True) fresh m (Some out0) p (int n) inform msk mn mx =
      (if inform = fmt then (Inr ty, Some (OutString (dest\<lparr>as_length := int n, as_data := Some (region m p n @ [0])\<rparr>)))
       else (Inr ty, Some (OutString (dest\<lparr>as_length := int (length (concat (map (mb_enc fmt) vs))),
          as_data := Some (concat (map (mb_enc fmt) vs) @ [0])\<rparr>))))"
    using cur(1) unfolding cd
    by (simp add: ASN1_mbstring_ncopy_def dec len mask nd CBS_init_def scan ty copy set [OF d(1)] sz Let_def)
  show ?thesis unfolding r mb_result_def using d(2) vs(2) np by auto
qed

lemma ncopy_fails:
  assumes dec: "mb_decoder inform = Some (rd, e)" and n: "n < 2 ^ 28"
    and no: "\<And>ty bs. \<not> mb_converts m p n inform msk mn mx ty bs"
  shows "\<exists>err. ASN1_mbstring_ncopy ma fresh m (Some out0) p (int n) inform msk mn mx = (Inl err, Some out0)"
proof -
  have "int n mod 18446744073709551616 = int n" using n by (intro mod_pos_pos_trivial) simp_all
  then have len: "nat (int n mod 18446744073709551616) = n" by simp
  have nd: "int n \<noteq> - 1" by simp
  have mask: "(if msk = 0 then DIRSTRING_TYPE else msk) = mb_mask msk" by (simp add: mb_mask_def)
  note scan = ncopy_scan [OF dec n, of m p msk]
  let ?s = "mb_scan inform (rd m) e n (cbs_at p n) (mb_mask msk) 0 0"
  consider "?s = None" | err where "?s = Some (Inl err)" | w nc ul where "?s = Some (Inr (w, nc, ul))"
    by (cases ?s; cases "the ?s") auto
  then show ?thesis
  proof cases
    case (3 w nc ul)
    then obtain vs where vs: "list_all (mb_valid inform) vs" "region m p n = concat (map (mb_enc inform) vs)"
        "\<not> has_bom inform vs" "w = foldl mb_narrow (mb_mask msk) vs" "nc = length vs"
      using scan by blast
    show ?thesis
    proof (cases "mb_sizes_ok mn mx vs")
      case True
      then have "smallest_type (mb_mask msk) vs = None"
        using vs no unfolding mb_converts_def by (cases "smallest_type (mb_mask msk) vs") auto
      then have "mb_output_type w nc ul = None"
        using output_type_smallest [of "mb_mask msk" vs nc ul] vs(4) by simp
      then show ?thesis using 3
        by (simp add: ASN1_mbstring_ncopy_def dec len mask nd CBS_init_def)
    next
      case False
      then show ?thesis using 3 vs(5)
        by (auto simp: ASN1_mbstring_ncopy_def dec len mask nd CBS_init_def mb_sizes_ok_def)
    qed
  qed (simp_all add: ASN1_mbstring_ncopy_def dec len mask nd CBS_init_def)
qed

text \<open>An encoding determines its text, so the outcome is unique.\<close>

lemma mb_converts_scan:
  assumes dec: "mb_decoder inform = Some (rd, e)" and n: "n < 2 ^ 28"
    and c: "mb_converts m p n inform msk mn mx ty bs" and out0: "out0 \<noteq> OutFreed"
  shows "mb_result ty bs (ASN1_mbstring_ncopy (\<lambda>_. True) fresh m (Some out0) p (int n) inform msk mn mx)"
proof -
  from c obtain vs fmt where vs: "list_all (mb_valid inform) vs" "region m p n = concat (map (mb_enc inform) vs)"
      "\<not> has_bom inform vs" "mb_sizes_ok mn mx vs" "smallest_type (mb_mask msk) vs = Some (ty, fmt)"
      "bs = concat (map (mb_enc fmt) vs)"
    unfolding mb_converts_def by blast
  have "mb_scan inform (rd m) e n (cbs_at p n) (mb_mask msk) 0 0 =
      Some (Inr (foldl mb_narrow (mb_mask msk) vs, length vs, sum_list (map cbb_get_utf8_len vs)))"
    using ncopy_scan [OF dec n, of m p msk] vs(1-3) smallest_nonzero [OF vs(5)] by blast
  from ncopy_text [OF dec n out0 this vs(1,2,4,5)] show ?thesis unfolding vs(6) .
qed

text \<open>
  C12: \<open>ASN1_mbstring_ncopy\<close>, given memory, succeeds exactly when its input encodes a text in the
  given format, without a leading byte order mark, of an allowed length, that some permitted string
  type can hold; then it returns the smallest such type and stores the text encoded for it, zero
  terminated. In every other case it reports an error and leaves the caller's pointer as it was.
\<close>

theorem mbstring_exact:
  assumes "inform \<in> {MBSTRING_ASC, MBSTRING_BMP, MBSTRING_UNIV, MBSTRING_UTF8}" and "n < 2 ^ 28"
    and "out0 \<noteq> OutFreed"
  shows "(mb_result ty bs (ASN1_mbstring_ncopy (\<lambda>_. True) fresh m (Some out0) p (int n) inform msk mn mx) \<longleftrightarrow>
      mb_converts m p n inform msk mn mx ty bs) \<and>
    ((\<forall>ty bs. \<not> mb_converts m p n inform msk mn mx ty bs) \<longrightarrow>
      (\<exists>err. ASN1_mbstring_ncopy (\<lambda>_. True) fresh m (Some out0) p (int n) inform msk mn mx = (Inl err, Some out0)))"
proof -
  obtain rd e where dec: "mb_decoder inform = Some (rd, e)"
    using assms(1) by (auto simp: mb_decoder_def mb_formats)
  let ?r = "ASN1_mbstring_ncopy (\<lambda>_. True) fresh m (Some out0) p (int n) inform msk mn mx"
  have "mb_converts m p n inform msk mn mx ty bs" if r: "mb_result ty bs ?r"
  proof -
    have "\<exists>ty' bs'. mb_converts m p n inform msk mn mx ty' bs'"
    proof (rule ccontr)
      assume "\<not> ?thesis"
      then obtain err where "?r = (Inl err, Some out0)" using ncopy_fails [OF dec assms(2)] by blast
      with r show False by (simp add: mb_result_def)
    qed
    then obtain ty' bs' where c: "mb_converts m p n inform msk mn mx ty' bs'" by blast
    have "mb_result ty' bs' ?r" by (rule mb_converts_scan [OF dec assms(2) c assms(3)])
    with r have "ty' = ty \<and> bs' = bs" by (auto simp: mb_result_def)
    with c show ?thesis by simp
  qed
  then show ?thesis
    using mb_converts_scan [OF dec assms(2) _ assms(3)] ncopy_fails [OF dec assms(2)] by blast
qed

theorem mbstring_exact_witness:
  "mb_result V_ASN1_T61STRING [0x41, 0xe9]
     (ASN1_mbstring_ncopy (\<lambda>_. True) (\<lambda>_. 0) ((!) [0x41, 0xc3, 0xa9]) (Some OutNull) 0 (int 3) MBSTRING_UTF8 0 0 2)"
proof -
  have "mb_converts ((!) [0x41, 0xc3, 0xa9]) 0 3 MBSTRING_UTF8 0 0 2 V_ASN1_T61STRING [0x41, 0xe9]"
    unfolding mb_converts_def
    by (rule exI [of _ "[0x41, 0xe9]"], rule exI [of _ MBSTRING_ASC])
       (simp add: mb_valid_def mb_formats is_valid_code_point_def mb_enc_def utf8_bytes_def has_bom_def mb_sizes_ok_def
          smallest_type_def mb_types_def mb_mask_def DIRSTRING_TYPE_def B_ASN1_PRINTABLESTRING_def B_ASN1_T61STRING_def
          B_ASN1_BMPSTRING_def B_ASN1_UTF8STRING_def asn1_is_printable_def numeral_3_eq_3 bit_or_iff)
  with mbstring_exact [of MBSTRING_UTF8 3 OutNull] show ?thesis by simp
qed

section \<open>Running out of memory\<close>






end
