(* ===== verification/Ssl_Digest.thy ===== *)
theory Ssl_Digest
  imports Ssl_Der
begin

text \<open>
  The block collector the 32-bit digests share, \<open>crypto/fipsmodule/digest/md32_common.h\<close>, the
  byte order and rotation helpers of \<open>crypto/internal.h\<close>, and what a Merkle-Damgard digest of a
  message is. Whatever pieces a message arrives in, the collector computes that digest.
\<close>

section \<open>Loads, stores and rotations\<close>

definition CRYPTO_load_u32_le :: "bytes \<Rightarrow> u32" where
  "CRYPTO_load_u32_le p = le_word (take 4 p)"

definition CRYPTO_load_u32_be :: "bytes \<Rightarrow> u32" where
  "CRYPTO_load_u32_be p = CRYPTO_bswap4 (le_word (take 4 p))"

definition CRYPTO_load_u64_be :: "bytes \<Rightarrow> u64" where
  "CRYPTO_load_u64_be p = CRYPTO_bswap8 (le_word (take 8 p))"

definition CRYPTO_store_u32_le :: "u32 \<Rightarrow> bytes" where
  "CRYPTO_store_u32_le v = le_bytes 4 v"

definition CRYPTO_store_u32_be :: "u32 \<Rightarrow> bytes" where
  "CRYPTO_store_u32_be v = le_bytes 4 (CRYPTO_bswap4 v)"

definition CRYPTO_store_u64_be :: "u64 \<Rightarrow> bytes" where
  "CRYPTO_store_u64_be v = le_bytes 8 (CRYPTO_bswap8 v)"

text \<open>The count \<open>(-shift) & 31\<close> for \<open>0 \<le> shift < 32\<close>, and the same for 64 bits.\<close>

definition CRYPTO_rotl_u32 :: "u32 \<Rightarrow> nat \<Rightarrow> u32" where
  "CRYPTO_rotl_u32 v n = push_bit n v OR drop_bit ((32 - n) mod 32) v"

definition CRYPTO_rotr_u32 :: "u32 \<Rightarrow> nat \<Rightarrow> u32" where
  "CRYPTO_rotr_u32 v n = drop_bit n v OR push_bit ((32 - n) mod 32) v"

definition CRYPTO_rotr_u64 :: "u64 \<Rightarrow> nat \<Rightarrow> u64" where
  "CRYPTO_rotr_u64 v n = drop_bit n v OR push_bit ((64 - n) mod 64) v"

text \<open>\<open>memcpy(p + n, xs, length xs)\<close> into an array.\<close>

definition memcpy_at :: "bytes \<Rightarrow> nat \<Rightarrow> bytes \<Rightarrow> bytes" where
  "memcpy_at p n xs = take n p @ xs @ drop (n + length xs) p"

section \<open>The collector\<close>

text \<open>
  The contexts of MD4, MD5, SHA-1 and SHA-256, which the collector is given field by field.
  \<open>md_len\<close> is a field of the SHA-256 context only.
\<close>

record md32_ctx =
  md_h :: "u32 list"
  md_Nl :: u32
  md_Nh :: u32
  md_data :: bytes
  md_num :: nat
  md_len :: nat

definition md32_zero :: md32_ctx where
  "md32_zero = \<lparr>md_h = [], md_Nl = 0, md_Nh = 0, md_data = replicate 64 0, md_num = 0, md_len = 0\<rparr>"

type_synonym 'h block_func = "'h \<Rightarrow> bytes \<Rightarrow> nat \<Rightarrow> 'h"

text \<open>Whole blocks straight from the input, and what is left of it into \<open>data\<close>.\<close>

definition md32_tail :: "u32 list block_func \<Rightarrow> nat \<Rightarrow> md32_ctx \<Rightarrow> bytes \<Rightarrow> md32_ctx" where
  "md32_tail block_func block_size c inp =
     (let n = length inp div block_size;
          c = (if 0 < n then c\<lparr>md_h := block_func (md_h c) inp n\<rparr> else c);
          inp = (if 0 < n then drop (n * block_size) inp else inp)
      in if length inp \<noteq> 0 then c\<lparr>md_num := length inp, md_data := memcpy_at (md_data c) 0 inp\<rparr> else c)"

definition crypto_md32_update :: "u32 list block_func \<Rightarrow> nat \<Rightarrow> md32_ctx \<Rightarrow> bytes \<Rightarrow> md32_ctx" where
  "crypto_md32_update block_func block_size c inp =
     (let len = length inp in
      if len = 0 then c
      else
        let l = md_Nl c + push_bit 3 (of_nat len);
            c = (if l < md_Nl c then c\<lparr>md_Nh := md_Nh c + 1\<rparr> else c);
            c = c\<lparr>md_Nh := md_Nh c + of_nat (len div 2 ^ 29), md_Nl := l\<rparr>;
            n = md_num c
        in if n \<noteq> 0 then
             if block_size \<le> len \<or> block_size \<le> size_add len n then
               let data = memcpy_at (md_data c) n (take (block_size - n) inp);
                   c = c\<lparr>md_h := block_func (md_h c) data 1, md_num := 0, md_data := replicate block_size 0\<rparr>
               in md32_tail block_func block_size c (drop (block_size - n) inp)
             else c\<lparr>md_data := memcpy_at (md_data c) n inp, md_num := n + len\<rparr>
           else md32_tail block_func block_size c inp)"

definition crypto_md32_final :: "u32 list block_func \<Rightarrow> nat \<Rightarrow> md32_ctx \<Rightarrow> bool \<Rightarrow> md32_ctx" where
  "crypto_md32_final block_func block_size c is_big_endian =
     (let n = md_num c;
          data = memcpy_at (md_data c) n [0x80];
          n = n + 1;
          full = block_size - 8 < n;
          data = (if full then memcpy_at data n (replicate (block_size - n) 0) else data);
          n = (if full then 0 else n);
          c = (if full then c\<lparr>md_h := block_func (md_h c) data 1\<rparr> else c);
          data = memcpy_at data n (replicate (block_size - 8 - n) 0);
          data = (if is_big_endian
                  then memcpy_at (memcpy_at data (block_size - 8) (CRYPTO_store_u32_be (md_Nh c)))
                         (block_size - 4) (CRYPTO_store_u32_be (md_Nl c))
                  else memcpy_at (memcpy_at data (block_size - 8) (CRYPTO_store_u32_le (md_Nl c)))
                         (block_size - 4) (CRYPTO_store_u32_le (md_Nh c)))
      in c\<lparr>md_h := block_func (md_h c) data 1, md_num := 0, md_data := replicate block_size 0\<rparr>)"

section \<open>Messages and blocks\<close>

text \<open>The chaining value after the whole blocks of a message, and the bytes behind them.\<close>

function chain :: "('h \<Rightarrow> bytes \<Rightarrow> 'h) \<Rightarrow> nat \<Rightarrow> 'h \<Rightarrow> bytes \<Rightarrow> 'h" where
  "chain compress bs h M =
     (if bs = 0 \<or> length M < bs then h else chain compress bs (compress h (take bs M)) (drop bs M))"
  by pat_completeness auto
termination by (relation "measure (\<lambda>(_, _, _, M). length M)") auto
declare chain.simps [simp del]

definition residue :: "nat \<Rightarrow> bytes \<Rightarrow> bytes" where
  "residue bs M = drop (length M div bs * bs) M"

text \<open>Padding: a one bit, zeros up to the length field, the length field.\<close>

definition pad_zeros :: "nat \<Rightarrow> nat \<Rightarrow> nat \<Rightarrow> nat" where
  "pad_zeros bs field n = (if n mod bs + 1 \<le> bs - field then bs - field else 2 * bs - field) - (n mod bs + 1)"

definition md_padded :: "nat \<Rightarrow> bytes \<Rightarrow> bytes \<Rightarrow> bytes" where
  "md_padded bs len_field M = M @ [0x80] @ replicate (pad_zeros bs (length len_field) (length M)) 0 @ len_field"

lemma chain_short: "length M < bs \<Longrightarrow> chain f bs h M = h"
  by (simp add: chain.simps)

lemma chain_step: "0 < bs \<Longrightarrow> bs \<le> length M \<Longrightarrow> chain f bs h M = chain f bs (f h (take bs M)) (drop bs M)"
  by (subst chain.simps) simp

lemma chain_one: "0 < bs \<Longrightarrow> length B = bs \<Longrightarrow> chain f bs h B = f h B"
  by (simp add: chain_step chain_short)

lemma chain_append:
  assumes "0 < bs"
  shows "bs dvd length A \<Longrightarrow> chain f bs h (A @ B) = chain f bs (chain f bs h A) B"
proof (induction "length A" arbitrary: A h rule: less_induct)
  case less
  show ?case
  proof (cases "A = []")
    case True
    then show ?thesis using assms by (simp add: chain_short)
  next
    case False
    then have l: "bs \<le> length A" using less.prems by (simp add: dvd_imp_le)
    then have "chain f bs h (A @ B) = chain f bs (f h (take bs A)) (drop bs A @ B)"
      using assms by (simp add: chain_step)
    also have "\<dots> = chain f bs (chain f bs (f h (take bs A)) (drop bs A)) B"
      using less l assms by (intro less.hyps) (simp_all add: dvd_diff_nat)
    also have "chain f bs (f h (take bs A)) (drop bs A) = chain f bs h A"
      using l assms by (simp add: chain_step)
    finally show ?thesis .
  qed
qed

lemma split_residue: "M = take (length M div bs * bs) M @ residue bs M"
  by (simp add: residue_def)

lemma length_residue: "length (residue bs M) = length M mod bs"
  by (simp add: residue_def minus_div_mult_eq_mod)

lemma chain_residue:
  assumes "0 < bs"
  shows "chain f bs h (M @ N) = chain f bs (chain f bs h M) (residue bs M @ N)"
proof -
  let ?A = "take (length M div bs * bs) M"
  have d: "bs dvd length ?A" by (simp add: min_absorb2)
  have "chain f bs h M = chain f bs (chain f bs h ?A) (residue bs M)"
    using chain_append [OF assms d, of f h "residue bs M"] split_residue [of M bs] by simp
  also have "\<dots> = chain f bs h ?A" using assms by (simp add: chain_short length_residue)
  finally have e: "chain f bs h M = chain f bs h ?A" .
  have "chain f bs h (?A @ residue bs M @ N) = chain f bs (chain f bs h ?A) (residue bs M @ N)"
    by (rule chain_append [OF assms d])
  with e show ?thesis using split_residue [of M bs] by (metis append_assoc)
qed

lemma residue_Nil [simp]: "residue bs [] = []"
  by (simp add: residue_def)

lemma residue_append: "0 < bs \<Longrightarrow> residue bs (M @ N) = residue bs (residue bs M @ N)"
proof -
  assume bs: "0 < bs"
  let ?k = "length M div bs * bs"
  have "(?k + (length M mod bs + length N)) div bs = length M div bs + (length M mod bs + length N) div bs"
    using bs by (intro div_mult_self3) simp
  moreover have "?k + (length M mod bs + length N) = length M + length N" by (simp add: add.assoc [symmetric])
  ultimately have "(length M + length N) div bs * bs = ?k + (length M mod bs + length N) div bs * bs"
    by (simp add: add_mult_distrib)
  then have "residue bs (M @ N) = drop ((length M mod bs + length N) div bs * bs) (drop ?k (M @ N))"
    by (simp add: residue_def add.commute)
  also have "drop ?k (M @ N) = residue bs M @ N" by (simp add: residue_def)
  finally show ?thesis by (simp add: residue_def minus_div_mult_eq_mod)
qed

lemma residue_short: "length M < bs \<Longrightarrow> residue bs M = M"
  by (simp add: residue_def)

lemma residue_drop: "0 < bs \<Longrightarrow> residue bs M = residue bs (drop bs M)" if "bs \<le> length M"
proof -
  assume bs: "0 < bs"
  have "residue bs (take bs M @ drop bs M) = residue bs (residue bs (take bs M) @ drop bs M)"
    by (rule residue_append [OF bs])
  moreover have "residue bs (take bs M) = []" using that bs by (simp add: residue_def min_absorb2)
  ultimately show ?thesis by simp
qed

section \<open>Bytes of words\<close>

lemma length_memcpy_at: "n + length xs \<le> length p \<Longrightarrow> length (memcpy_at p n xs) = length p"
  by (simp add: memcpy_at_def)

lemma take_memcpy_at: "n \<le> length p \<Longrightarrow> take (n + length xs) (memcpy_at p n xs) = take n p @ xs"
  by (simp add: memcpy_at_def)

lemma memcpy_at_full: "n + length xs = length p \<Longrightarrow> memcpy_at p n xs = take n p @ xs"
  by (simp add: memcpy_at_def)

text \<open>The bit count in two words, for the 32-bit digests and for SHA-512.\<close>

lemma bits_count:
  fixes l l' hi :: "'a::len word"
  assumes l'_def: "l' = l + push_bit 3 (of_nat len)" and W: "LENGTH('a) = W" "3 \<le> W"
    and hm: "unat hi * 2 ^ W + unat l = (8 * m) mod 2 ^ (2 * W)"
  shows "unat ((if l' < l then hi + 1 else hi) + of_nat (len div 2 ^ (W - 3))) * 2 ^ W + unat l' =
    (8 * (m + len)) mod 2 ^ (2 * W)"
proof -
  define B :: nat where "B = 2 ^ W"
  have B: "0 < B" "B * B = 2 ^ (2 * W)" by (simp_all add: B_def power_add [symmetric] mult_2)
  define x where "x = 8 * len mod B"
  define q where "q = len div 2 ^ (W - 3)"
  have "B = 2 ^ (3 + (W - 3))" using W(2) by (simp add: B_def)
  then have B8: "B = 8 * 2 ^ (W - 3)" by (simp only: power_add) simp
  then have "8 * len div B = q" by (simp add: q_def)
  then have len8: "8 * len = q * B + x" using div_mult_mod_eq [of "8 * len" B] by (simp add: x_def)
  have xB: "x < B" using B by (simp add: x_def)
  have ul: "unat l < B" "unat hi < B" using unsigned_less [of l, where 'a = nat] unsigned_less [of hi, where 'a = nat]
    by (simp_all add: B_def W)
  have "push_bit 3 (of_nat len :: 'a word) = of_nat (8 * len)" by (simp add: push_bit_eq_mult)
  then have "unat (push_bit 3 (of_nat len :: 'a word)) = x"
    by (simp only: unat_of_nat x_def B_def W)
  then have l': "unat l' = (unat l + x) mod B" unfolding l'_def by (simp add: unat_word_ariths B_def W)
  define c where "c = (unat l + x) div B"
  have lx: "unat l + x = c * B + unat l'" using div_mult_mod_eq [of "unat l + x" B] l' by (simp add: c_def)
  have carry: "l' < l \<longleftrightarrow> c = 1" "c \<le> 1"
  proof -
    have "unat l + x < 2 * B" using ul xB by simp
    then have "c < 2" unfolding c_def by (simp add: less_mult_imp_div_less)
    then show c1: "c \<le> 1" by simp
    have "unat l' < unat l \<longleftrightarrow> c = 1"
      using lx ul xB c1 by (cases c) auto
    then show "l' < l \<longleftrightarrow> c = 1" by (simp add: word_less_nat_alt)
  qed
  let ?h = "(if l' < l then hi + 1 else hi) + of_nat q"
  have "of_nat c = (if l' < l then 1 else 0 :: 'a word)" using carry by (cases c) auto
  then have "?h = of_nat (unat hi + c + q)" by simp
  then have h: "unat ?h = (unat hi + c + q) mod B" by (simp only: unat_of_nat B_def W)
  have "unat ?h * B + unat l' < B * B"
  proof -
    have "unat ?h + 1 \<le> B" "unat l' < B" using h l' B mod_less_divisor [of B] by (simp_all add: Suc_le_eq)
    then have "unat ?h * B + B \<le> B * B" using mult_le_mono1 [of "unat ?h + 1" B B] by simp
    with \<open>unat l' < B\<close> show ?thesis by linarith
  qed
  moreover have "(unat ?h * B + unat l') mod (B * B) = (8 * (m + len)) mod (B * B)"
  proof -
    have "(unat ?h * B + unat l') mod (B * B) = ((unat hi + c + q) * B + unat l') mod (B * B)"
      unfolding h by (metis mod_add_left_eq mult_mod_left)
    also have "(unat hi + c + q) * B + unat l' = (unat hi * B + unat l) + 8 * len"
      using lx len8 by (simp add: algebra_simps)
    also have "unat hi * B + unat l = (8 * m) mod (B * B)" unfolding B(2) by (rule hm [folded B_def])
    finally show ?thesis by (simp add: mod_add_left_eq)
  qed
  ultimately show ?thesis unfolding q_def [symmetric] B(2) [symmetric] by (simp add: B_def)
qed

lemma unat_div_drop: "of_nat (unat v div 2 ^ k) = (ucast (drop_bit k v) :: byte)" for v :: "'a::len word"
  by (metis unat_drop_bit of_nat_unat drop_bit_eq_div)

lemma bswap_masks: "(0xff00ff00 :: u32) = push_bit 8 (mask 8) OR push_bit 24 (mask 8)"
  "(0x00ff00ff :: u32) = mask 8 OR push_bit 16 (mask 8)"
  by (simp_all add: mask_eq_exp_minus_1)

lemma bit_bswap4: "bit (CRYPTO_bswap4 v) n \<longleftrightarrow>
   n < 32 \<and> (if n < 8 then bit v (24 + n) else if n < 16 then bit v (8 + n) else if n < 24 then bit v (n - 8) else bit v (n - 24))"
proof -
  have len: "bit v k \<Longrightarrow> k < 32" for k by (drule bit_imp_le_length) simp
  show ?thesis
    unfolding CRYPTO_bswap4_def Let_def bswap_masks
    by (auto simp: bit_simps possible_bit_word dest: len)
qed

lemma four: "4 = Suc (Suc (Suc (Suc 0)))"
  by simp

lemma be_bytes_4: "be_bytes 4 n = [of_nat (n div 2 ^ 24), of_nat (n div 2 ^ 16), of_nat (n div 2 ^ 8), of_nat n]"
  unfolding four by (simp add: div_mult2_eq [symmetric])

lemma store_be_bytes: "CRYPTO_store_u32_be v = be_bytes 4 (unat v)"
proof -
  have b: "be_bytes 4 (unat v) = [ucast (drop_bit 24 v), ucast (drop_bit 16 v), ucast (drop_bit 8 v), ucast v]"
    unfolding be_bytes_4 unat_div_drop by simp
  have "ucast (CRYPTO_bswap4 v) = (ucast (drop_bit 24 v) :: byte)"
    "ucast (drop_bit 8 (CRYPTO_bswap4 v)) = (ucast (drop_bit 16 v) :: byte)"
    "ucast (drop_bit 16 (CRYPTO_bswap4 v)) = (ucast (drop_bit 8 v) :: byte)"
    "ucast (drop_bit 24 (CRYPTO_bswap4 v)) = (ucast v :: byte)"
    by (rule bit_word_eqI, simp add: bit_bswap4 bit_simps)+
  then show ?thesis unfolding b unfolding CRYPTO_store_u32_be_def four by simp
qed

text \<open>The length field in the order the digest wants.\<close>

definition md_length_field :: "bool \<Rightarrow> nat \<Rightarrow> bytes" where
  "md_length_field be n = (let bs = be_bytes 8 ((8 * n) mod 2 ^ 64) in if be then bs else rev bs)"

lemma be_bytes_mod: "be_bytes k (n mod 256 ^ k) = be_bytes k n"
proof (induction k arbitrary: n)
  case (Suc k)
  have m: "n mod 256 ^ Suc k = 256 * (n div 256 mod 256 ^ k) + n mod 256"
    using mod_mult2_eq [of n 256 "256 ^ k"] by simp
  then have "n mod 256 ^ Suc k div 256 = n div 256 mod 256 ^ k" by simp
  moreover have "(of_nat (n mod 256 ^ Suc k) :: byte) = of_nat n"
    unfolding m by (simp add: word_unat_eq_iff unat_of_nat del: of_nat_add of_nat_mult)
  ultimately show ?case using Suc by simp
qed simp

lemma be_bytes_8: "b < 2 ^ 32 \<Longrightarrow> be_bytes 8 (a * 2 ^ 32 + b) = be_bytes 4 a @ be_bytes 4 b"
proof -
  assume b: "b < 2 ^ 32"
  have "be_bytes (4 + k) n = be_bytes k (n div 2 ^ 32) @ be_bytes 4 n" for k n
    unfolding four by (simp add: div_mult2_eq [symmetric])
  from this [of 4 "a * 2 ^ 32 + b"] have "be_bytes 8 (a * 2 ^ 32 + b) = be_bytes 4 a @ be_bytes 4 (a * 2 ^ 32 + b)"
    using b by simp
  moreover have "(a * 2 ^ 32 + b) mod 256 ^ 4 = b" using b by simp
  then have "be_bytes 4 (a * 2 ^ 32 + b) = be_bytes 4 b" using be_bytes_mod [of 4 "a * 2 ^ 32 + b"] by simp
  ultimately show ?thesis by simp
qed

lemma store_le_bytes: "CRYPTO_store_u32_le v = rev (be_bytes 4 (unat v))"
proof -
  have "rev (be_bytes 4 (unat v)) = [ucast v, ucast (drop_bit 8 v), ucast (drop_bit 16 v), ucast (drop_bit 24 v)]"
    unfolding be_bytes_4 unat_div_drop by simp
  then show ?thesis by (simp only: CRYPTO_store_u32_le_def) (simp add: four)
qed

section \<open>Buffering blocks\<close>

text \<open>
  The block functions: \<open>n\<close> blocks of the input go into the state one after the other. The lemmas
  say what the steps of an update and of the final padding do to the chaining value and the block.
\<close>

locale block_digest =
  fixes block_func :: "'h block_func" and compress :: "'h \<Rightarrow> bytes \<Rightarrow> 'h" and bs :: nat and ok :: "'h \<Rightarrow> bool"
  assumes bs_pos: "0 < bs"
    and ok_compress: "ok hs \<Longrightarrow> ok (compress hs B)"
    and blocks: "ok hs \<Longrightarrow> 0 < n \<Longrightarrow> n * bs \<le> length data \<Longrightarrow> block_func hs data n = chain compress bs hs (take (n * bs) data)"
begin

lemma ok_chain: "ok hs \<Longrightarrow> ok (chain compress bs hs M)"
proof (induction "length M" arbitrary: M hs rule: less_induct)
  case less
  show ?case
  proof (cases "length M < bs")
    case True
    then show ?thesis using less.prems by (simp add: chain_short)
  next
    case False
    then show ?thesis using less bs_pos ok_compress by (simp add: chain_step)
  qed
qed

lemma one_block: "ok hs \<Longrightarrow> length data = bs \<Longrightarrow> block_func hs data 1 = compress hs data"
  using blocks [of hs 1 data] chain_one [OF bs_pos, of data compress hs] by simp

lemma tail_blocks:
  assumes "bs dvd length M" and iv: "ok iv"
  shows "(if 0 < length inp div bs then block_func (chain compress bs iv M) inp (length inp div bs) else chain compress bs iv M) =
      chain compress bs iv (M @ inp)"
    and "(if 0 < length inp div bs then drop (length inp div bs * bs) inp else inp) = residue bs (M @ inp)"
    and "length (residue bs (M @ inp)) = length (M @ inp) mod bs"
proof -
  let ?n = "length inp div bs"
  have r: "residue bs M = []" using assms(1) length_residue [of bs M] by (simp add: dvd_eq_mod_eq_0)
  have "residue bs (M @ inp) = residue bs inp" using residue_append [OF bs_pos, of M inp] r by simp
  then show "(if 0 < ?n then drop (?n * bs) inp else inp) = residue bs (M @ inp)" by (simp add: residue_def)
  have hM: "chain compress bs iv (M @ inp) = chain compress bs (chain compress bs iv M) inp"
    by (rule chain_append [OF bs_pos assms(1)])
  have rest: "chain compress bs hs (take (?n * bs) inp) = chain compress bs hs inp" for hs
  proof -
    have "chain compress bs hs (take (?n * bs) inp @ residue bs inp) =
        chain compress bs (chain compress bs hs (take (?n * bs) inp)) (residue bs inp)"
      by (rule chain_append [OF bs_pos]) (simp add: min_absorb2)
    then show ?thesis using split_residue [of inp bs] bs_pos by (simp add: chain_short length_residue)
  qed
  show "(if 0 < ?n then block_func (chain compress bs iv M) inp ?n else chain compress bs iv M) = chain compress bs iv (M @ inp)"
  proof (cases "0 < ?n")
    case True
    then show ?thesis using blocks [OF ok_chain [OF iv] True, of inp] rest hM by simp
  next
    case False
    then have "length inp < bs" using bs_pos by (simp add: div_eq_0_iff)
    then show ?thesis using False hM by (simp add: chain_short)
  qed
qed (rule length_residue)

lemma fill_block:
  assumes iv: "ok iv" and n: "n = length M mod bs" "take n data = residue bs M" "length data = bs" "bs \<le> length inp + n"
  shows "block_func (chain compress bs iv M) (memcpy_at data n (take (bs - n) inp)) 1 =
      chain compress bs iv (M @ take (bs - n) inp)"
    and "bs dvd length (M @ take (bs - n) inp)"
proof -
  let ?k = "bs - n"
  let ?B = "memcpy_at data n (take ?k inp)"
  have nb: "n < bs" using n(1) bs_pos by simp
  have len: "length (take ?k inp) = ?k" using n(4) nb by simp
  have nk: "n + length (take ?k inp) = length data" unfolding len using n(3) nb by simp
  have B: "?B = residue bs M @ take ?k inp" "length ?B = bs"
    using memcpy_at_full [OF nk] length_memcpy_at [OF eq_imp_le [OF nk]] n(2,3) by simp_all
  have "chain compress bs iv (M @ take ?k inp) = chain compress bs (chain compress bs iv M) (residue bs M @ take ?k inp)"
    by (rule chain_residue [OF bs_pos])
  then show "block_func (chain compress bs iv M) ?B 1 = chain compress bs iv (M @ take ?k inp)"
    using one_block [OF ok_chain [OF iv] B(2)] chain_one [OF bs_pos B(2), of compress] B by simp
  have "length (M @ take ?k inp) = length M + ?k" by (simp only: length_append len)
  then have "length (M @ take ?k inp) mod bs = (n + ?k) mod bs" unfolding n(1) by (simp only: mod_add_left_eq)
  then show "bs dvd length (M @ take ?k inp)" using nb by (simp add: dvd_eq_mod_eq_0)
qed

lemma short_input:
  assumes n: "n = length M mod bs" "take n data = residue bs M" "length data = bs" "length inp + n < bs"
  shows "chain compress bs iv (M @ inp) = chain compress bs iv M" and "length (M @ inp) mod bs = n + length inp"
    and "take (n + length inp) (memcpy_at data n inp) = residue bs (M @ inp)" and "length (memcpy_at data n inp) = bs"
proof -
  have lr: "length (residue bs M @ inp) < bs" using n by (simp add: length_residue)
  have res: "residue bs (M @ inp) = residue bs M @ inp"
    using residue_append [OF bs_pos, of M inp] residue_short [OF lr] by simp
  show "chain compress bs iv (M @ inp) = chain compress bs iv M"
    using chain_residue [OF bs_pos, of compress iv M inp] chain_short [OF lr] by simp
  show "length (M @ inp) mod bs = n + length inp"
    using n(4) mod_add_left_eq [of "length M" bs "length inp"] unfolding n(1) by (simp add: add.commute)
  show "take (n + length inp) (memcpy_at data n inp) = residue bs (M @ inp)" "length (memcpy_at data n inp) = bs"
    using take_memcpy_at [of n data inp] length_memcpy_at [of n inp data] n res by simp_all
qed

text \<open>The padding: \<open>fin\<close> stores the length field \<open>F\<close> at the end of the block.\<close>

lemma final_blocks:
  assumes iv: "ok iv" and data: "length data = bs" "take n data = residue bs M" "n = length M mod bs"
    and F: "length F = fl" "fl < bs"
    and fin: "\<And>d. length d = bs \<Longrightarrow> fin d = take (bs - fl) d @ F"
  shows "(let d = memcpy_at data n [0x80]; n = n + 1; full = bs - fl < n;
            d = (if full then memcpy_at d n (replicate (bs - n) 0) else d);
            n' = (if full then 0 else n);
            hs = (if full then block_func (chain compress bs iv M) d 1 else chain compress bs iv M);
            d = fin (memcpy_at d n' (replicate (bs - fl - n') 0))
          in block_func hs d 1) =
    chain compress bs iv (md_padded bs F M)"
proof -
  let ?hs = "chain compress bs iv M" and ?R = "residue bs M" and ?d1 = "memcpy_at data n [0x80]"
  have n: "n < bs" "n = length ?R" using data(3) bs_pos by (simp_all add: length_residue)
  have d1: "take (n + 1) ?d1 = ?R @ [0x80]" "length ?d1 = bs"
    using take_memcpy_at [of n data "[0x80]"] length_memcpy_at [of n "[0x80]" data] data n by simp_all
  have last: "fin (memcpy_at d k (replicate (bs - fl - k) 0)) = P @ replicate (bs - fl - k) 0 @ F"
    if "length d = bs" "take k d = P" "k \<le> bs - fl" for d P k
  proof -
    have e: "k + length (replicate (bs - fl - k) 0 :: bytes) = bs - fl" using that(3) by simp
    have "take (bs - fl) (memcpy_at d k (replicate (bs - fl - k) 0)) = P @ replicate (bs - fl - k) 0"
      using take_memcpy_at [of k d "replicate (bs - fl - k) 0", unfolded e] that by simp
    moreover have "length (memcpy_at d k (replicate (bs - fl - k) 0)) = bs"
      using length_memcpy_at [of k "replicate (bs - fl - k) 0" d, unfolded e] that by simp
    ultimately show ?thesis by (simp only: fin append_assoc)
  qed
  have M: "chain compress bs iv (md_padded bs F M) =
      chain compress bs ?hs (?R @ [0x80] @ replicate (pad_zeros bs fl (length M)) 0 @ F)"
    using chain_residue [OF bs_pos, of compress iv M] F by (simp add: md_padded_def)
  show ?thesis
  proof (cases "bs - fl < n + 1")
    case True
    let ?B1 = "?R @ [0x80] @ replicate (bs - (n + 1)) 0"
    let ?B2 = "replicate (bs - fl) 0 @ F"
    have full: "memcpy_at ?d1 (n + 1) (replicate (bs - (n + 1)) 0) = ?B1"
      using memcpy_at_full [of "n + 1" "replicate (bs - (n + 1)) 0" ?d1] d1 n by simp
    have B1: "length ?B1 = bs" and B2: "length ?B2 = bs" using n F by simp_all
    have z: "pad_zeros bs fl (length M) = (bs - (n + 1)) + (bs - fl)"
      using True n F by (simp add: pad_zeros_def data(3) [symmetric])
    have "chain compress bs ?hs (?B1 @ ?B2) = compress (compress ?hs ?B1) ?B2"
      using chain_append [OF bs_pos, of ?B1 compress ?hs ?B2] chain_one [OF bs_pos B1, of compress]
        chain_one [OF bs_pos B2, of compress] B1 by simp
    moreover have "?R @ [0x80] @ replicate (pad_zeros bs fl (length M)) 0 @ F = ?B1 @ ?B2"
      unfolding z replicate_add by simp
    ultimately show ?thesis
      unfolding M using True last [OF B1, of 0 "[]"] one_block [OF ok_chain [OF iv] B1]
        one_block [OF ok_compress [OF ok_chain [OF iv]] B2]
      by (simp add: full [simplified] Let_def)
  next
    case False
    let ?B = "?R @ [0x80] @ replicate (bs - fl - (n + 1)) 0 @ F"
    have B: "length ?B = bs" using n F False by simp
    have z: "pad_zeros bs fl (length M) = bs - fl - (n + 1)"
      using False by (simp add: pad_zeros_def data(3) [symmetric])
    show ?thesis
      unfolding M using False last [OF d1(2,1)] one_block [OF ok_chain [OF iv] B] chain_one [OF bs_pos B, of compress] z by (simp add: Let_def)
  qed
qed

end

section \<open>The collector computes the digest\<close>

text \<open>
  The context after a message: chaining value, bytes waiting in the block, bit count. \<open>data\<close>
  behind the first \<open>num\<close> bytes is free.
\<close>

definition md32_rep :: "(u32 list \<Rightarrow> bytes \<Rightarrow> u32 list) \<Rightarrow> u32 list \<Rightarrow> bytes \<Rightarrow> md32_ctx \<Rightarrow> bool" where
  "md32_rep compress iv M c \<longleftrightarrow>
     md_h c = chain compress 64 iv M \<and> md_num c = length M mod 64 \<and> length (md_data c) = 64 \<and>
     take (md_num c) (md_data c) = residue 64 M \<and>
     unat (md_Nh c) * 2 ^ 32 + unat (md_Nl c) = (8 * length M) mod 2 ^ 64"

locale md32_digest = block_digest block_func compress 64 ok
  for block_func :: "u32 list block_func" and compress :: "u32 list \<Rightarrow> bytes \<Rightarrow> u32 list" and ok
begin

lemma tail_rep:
  assumes iv: "ok iv" and "md_h c = chain compress 64 iv M" and "md_num c = 0" and "length (md_data c) = 64"
    and "64 dvd length M"
    and "unat (md_Nh c) * 2 ^ 32 + unat (md_Nl c) = (8 * (length M + length inp)) mod 2 ^ 64"
  shows "md32_rep compress iv (M @ inp) (md32_tail block_func 64 c inp)"
proof -
  let ?r = "residue 64 (M @ inp)"
  note t = tail_blocks [OF assms(5) iv, of inp]
  have d: "(if 0 < length inp div 64 then drop (length inp div 64 * 64) inp else inp) = ?r" by (rule t(2))
  define c1 where "c1 = (if 0 < length inp div 64 then c\<lparr>md_h := block_func (md_h c) inp (length inp div 64)\<rparr> else c)"
  have "md_h c1 = (if 0 < length inp div 64 then block_func (md_h c) inp (length inp div 64) else md_h c)"
    by (simp add: c1_def)
  then have h: "md_h c1 = chain compress 64 iv (M @ inp)" unfolding assms(2) t(1) .
  have c1: "md_num c1 = 0" "length (md_data c1) = 64" "md_Nh c1 = md_Nh c" "md_Nl c1 = md_Nl c"
    using assms(3,4) by (simp_all add: c1_def)
  have run: "md32_tail block_func 64 c inp =
      (if length ?r \<noteq> 0 then c1\<lparr>md_num := length ?r, md_data := memcpy_at (md_data c1) 0 ?r\<rparr> else c1)"
    unfolding md32_tail_def Let_def d c1_def [symmetric] ..
  have lr: "length ?r < 64" using length_residue [of 64 "M @ inp"] by simp
  have sp: "take (length ?r) (memcpy_at (md_data c1) 0 ?r) = ?r" "length (memcpy_at (md_data c1) 0 ?r) = 64"
    using take_memcpy_at [of 0 "md_data c1" ?r] length_memcpy_at [of 0 ?r "md_data c1"] c1(2) lr by simp_all
  show ?thesis
    unfolding md32_rep_def run using c1 h sp assms(6) t(3) by auto
qed

lemma update_rep:
  assumes iv: "ok iv" and rep: "md32_rep compress iv M c"
  shows "md32_rep compress iv (M @ inp) (crypto_md32_update block_func 64 c inp)"
proof (cases "inp = []")
  case True
  then show ?thesis using rep by (simp add: crypto_md32_update_def)
next
  case False
  let ?len = "length inp" and ?n = "md_num c"
  define l where "l = md_Nl c + push_bit 3 (of_nat ?len)"
  define c1 where "c1 = (let c = (if l < md_Nl c then c\<lparr>md_Nh := md_Nh c + 1\<rparr> else c)
    in c\<lparr>md_Nh := md_Nh c + of_nat (?len div 2 ^ 29), md_Nl := l\<rparr>)"
  have N: "unat (md_Nh c1) * 2 ^ 32 + unat (md_Nl c1) = (8 * (length M + ?len)) mod 2 ^ 64"
    using bits_count [OF l_def _ _, of 32 "md_Nh c" "length M"] rep
    by (auto simp: c1_def Let_def md32_rep_def if_distrib cong: if_cong)
  have c1: "md_h c1 = md_h c" "md_num c1 = ?n" "md_data c1 = md_data c" by (simp_all add: c1_def Let_def)
  have n: "?n = length M mod 64" "take ?n (md_data c) = residue 64 M" "length (md_data c) = 64"
    "md_h c = chain compress 64 iv M"
    using rep by (auto simp: md32_rep_def)
  have n64: "?n < 64" unfolding n(1) by simp
  have run: "crypto_md32_update block_func 64 c inp =
      (if ?n \<noteq> 0 then
         if 64 \<le> ?len \<or> 64 \<le> size_add ?len ?n then
           md32_tail block_func 64
             (c1\<lparr>md_h := block_func (md_h c1) (memcpy_at (md_data c1) ?n (take (64 - ?n) inp)) 1, md_num := 0,
                 md_data := replicate 64 0\<rparr>)
             (drop (64 - ?n) inp)
         else c1\<lparr>md_data := memcpy_at (md_data c1) ?n inp, md_num := ?n + ?len\<rparr>
       else md32_tail block_func 64 c1 inp)"
    using False unfolding crypto_md32_update_def by (simp add: Let_def l_def [symmetric] c1_def)
  consider (direct) "?n = 0" | (fill) "?n \<noteq> 0" "64 \<le> ?len + ?n" | (short) "?n \<noteq> 0" "?len + ?n < 64" by linarith
  then show ?thesis
  proof cases
    case direct
    have "64 dvd length M" using direct n(1) by (simp add: dvd_eq_mod_eq_0)
    from tail_rep [OF iv _ _ _ this N] show ?thesis using direct c1 n by (simp add: run)
  next
    case fill
    note f = fill_block [OF iv n(1-3) fill(2)]
    have tot: "length (M @ take (64 - ?n) inp) + length (drop (64 - ?n) inp) = length M + ?len" using fill n64 by simp
    have sa: "64 \<le> ?len \<or> 64 \<le> size_add ?len ?n"
      using fill n64 by (cases "64 \<le> ?len") (simp_all add: size_add_exact SIZE_LIMIT_def)
    have "md32_rep compress iv ((M @ take (64 - ?n) inp) @ drop (64 - ?n) inp)
        (md32_tail block_func 64 (c1\<lparr>md_h := block_func (md_h c1) (memcpy_at (md_data c1) ?n (take (64 - ?n) inp)) 1,
           md_num := 0, md_data := replicate 64 0\<rparr>) (drop (64 - ?n) inp))"
      by (rule tail_rep [OF iv _ _ _ f(2)]) (use f(1) c1 n(4) N [folded tot] in simp_all)
    then show ?thesis using fill(1) sa by (simp add: run del: drop_append)
  next
    case short
    have sa: "\<not> (64 \<le> ?len \<or> 64 \<le> size_add ?len ?n)"
      using short by (auto simp: size_add_exact SIZE_LIMIT_def)
    show ?thesis
      using short(1) sa c1 short_input [OF n(1-3) short(2)] N n(4) by (simp add: run md32_rep_def)
  qed
qed

lemma final_h:
  assumes iv: "ok iv" and rep: "md32_rep compress iv M c"
  shows "md_h (crypto_md32_final block_func 64 c be) = chain compress 64 iv (md_padded 64 (md_length_field be (length M)) M)"
proof -
  let ?n = "md_num c"
  have n: "length (md_data c) = 64" "take ?n (md_data c) = residue 64 M" "?n = length M mod 64"
    "md_h c = chain compress 64 iv M" "unat (md_Nh c) * 2 ^ 32 + unat (md_Nl c) = (8 * length M) mod 2 ^ 64"
    using rep by (auto simp: md32_rep_def)
  define F1 where "F1 = (if be then CRYPTO_store_u32_be (md_Nh c) else CRYPTO_store_u32_le (md_Nl c))"
  define F2 where "F2 = (if be then CRYPTO_store_u32_be (md_Nl c) else CRYPTO_store_u32_le (md_Nh c))"
  have F: "length F1 = 4" "length F2 = 4" by (simp_all add: F1_def F2_def store_be_bytes store_le_bytes)
  have l32: "unat (md_Nl c) < 2 ^ 32" using unsigned_less [of "md_Nl c", where 'a = nat] by simp
  have field: "F1 @ F2 = md_length_field be (length M)"
    using be_bytes_8 [OF l32, of "unat (md_Nh c)"] n(5)
    by (simp add: F1_def F2_def md_length_field_def store_be_bytes store_le_bytes Let_def)
  have fin: "memcpy_at (memcpy_at d 56 F1) 60 F2 = take (64 - 8) d @ F1 @ F2" if "length d = 64" for d
    using that F by (simp add: memcpy_at_def)
  let ?fin = "\<lambda>d. memcpy_at (memcpy_at d 56 F1) 60 F2"
  have "md_h (crypto_md32_final block_func 64 c be) =
      (let d = memcpy_at (md_data c) ?n [0x80]; n = ?n + 1; full = 64 - 8 < n;
           d = (if full then memcpy_at d n (replicate (64 - n) 0) else d);
           n' = (if full then 0 else n);
           hs = (if full then block_func (chain compress 64 iv M) d 1 else chain compress 64 iv M);
           d = ?fin (memcpy_at d n' (replicate (64 - 8 - n') 0))
         in block_func hs d 1)"
    by (cases be) (simp_all add: crypto_md32_final_def F1_def F2_def Let_def n(4))
  also have "\<dots> = chain compress 64 iv (md_padded 64 (F1 @ F2) M)"
    by (rule final_blocks [OF iv n(1-3)]) (simp_all add: F fin)
  finally show ?thesis unfolding field .
qed

text \<open>From the state the \<open>Init\<close> functions set up, over any pieces.\<close>

lemma stream_rep:
  assumes "ok iv"
  shows "md32_rep compress iv (concat xs) (foldl (crypto_md32_update block_func 64) (md32_zero\<lparr>md_h := iv, md_len := n\<rparr>) xs)"
proof (induction xs rule: rev_induct)
  case Nil
  then show ?case by (simp add: md32_rep_def chain_short md32_zero_def)
next
  case (snoc x xs)
  then show ?case using update_rep [OF assms snoc, of x] by simp
qed

lemma stream_final:
  assumes "ok iv"
  shows "md_h (crypto_md32_final block_func 64 (foldl (crypto_md32_update block_func 64) (md32_zero\<lparr>md_h := iv, md_len := n\<rparr>) xs) be) =
    chain compress 64 iv (md_padded 64 (md_length_field be (length (concat xs))) (concat xs))"
  by (rule final_h [OF assms stream_rep [OF assms]])

end

lemma md32_tail_len: "md_len (md32_tail f b c x) = md_len c"
  by (simp add: md32_tail_def Let_def)

lemma update_len: "md_len (foldl (crypto_md32_update f b) c xs) = md_len c"
  by (induction xs arbitrary: c) (simp_all add: crypto_md32_update_def Let_def md32_tail_len)

lemma final_len: "md_len (crypto_md32_final f b c be) = md_len c"
  by (simp add: crypto_md32_final_def Let_def)

lemma map_nth_take: "n \<le> length xs \<Longrightarrow> map (\<lambda>i. f (xs ! i)) [0..<n] = map f (take n xs)"
  by (rule nth_equalityI) simp_all

lemma chain_blocks_step: "0 < bs \<Longrightarrow> Suc n * bs \<le> length data \<Longrightarrow>
    chain f bs H (take (Suc n * bs) data) = chain f bs (f H (take bs data)) (take (n * bs) (drop bs data))"
  by (subst chain_step) (simp_all add: drop_take min_def)

end
