(* ===== verification/Ssl_Roots.thy ===== *)
theory Ssl_Roots
  imports Complex_Main "HOL-Library.Word"
begin

text \<open>
  The numbers that the standards of the digests take from real numbers: the fractions of roots of primes (FIPS 180-4)
  and the sines of RFC 1321, with the integer computations that decide what they are.
\<close>

section \<open>Fractions of roots\<close>

definition root_word :: "nat \<Rightarrow> nat \<Rightarrow> 'a::len word" where
  "root_word n p = of_int \<lfloor>2 ^ LENGTH('a) * frac (root n (real p))\<rfloor>"

text \<open>
  \<open>r\<close> is the fraction of the \<open>n\<close>-th root of \<open>p\<close>, in units of \<open>2 ^ - w\<close> and rounded down: with the
  integer part \<open>a\<close> of the root it is the largest number whose \<open>n\<close>-th power does not pass \<open>p\<close>.
\<close>

definition root_fraction :: "nat \<Rightarrow> nat \<Rightarrow> nat \<Rightarrow> nat \<Rightarrow> bool" where
  "root_fraction n w p r =
     (let a = length (takeWhile (\<lambda>a. a ^ n \<le> p) [1..<20])
      in r < 2 ^ w \<and> (a * 2 ^ w + r) ^ n \<le> p * 2 ^ (n * w) \<and> p * 2 ^ (n * w) < (a * 2 ^ w + r + 1) ^ n)"

lemma scaled_root_bounds:
  fixes a r p w n :: nat
  assumes n: "0 < n" and le: "(a * 2 ^ w + r) ^ n \<le> p * 2 ^ (n * w)" and less: "p * 2 ^ (n * w) < (a * 2 ^ w + r + 1) ^ n"
  shows "real (a * 2 ^ w + r) \<le> root n p * 2 ^ w" and "root n p * 2 ^ w < real (a * 2 ^ w + r + 1)"
proof -
  have "(root n p * 2 ^ w) ^ n = real (p * 2 ^ (n * w))"
    using n by (simp add: power_mult_distrib power_mult [symmetric] mult.commute)
  moreover have "real ((a * 2 ^ w + r) ^ n) \<le> real (p * 2 ^ (n * w))" "real (p * 2 ^ (n * w)) < real ((a * 2 ^ w + r + 1) ^ n)"
    using le less by (simp_all only: of_nat_le_iff of_nat_less_iff)
  ultimately have "real (a * 2 ^ w + r) ^ n \<le> (root n p * 2 ^ w) ^ n" "(root n p * 2 ^ w) ^ n < real (a * 2 ^ w + r + 1) ^ n"
    by (simp_all only: of_nat_power)
  moreover have "0 \<le> root n p * 2 ^ w" by (simp add: real_root_ge_zero)
  ultimately show "real (a * 2 ^ w + r) \<le> root n p * 2 ^ w" "root n p * 2 ^ w < real (a * 2 ^ w + r + 1)"
    using n power_less_imp_less_base [of "root n p * 2 ^ w" n "real (a * 2 ^ w + r + 1)"]
      power_mono_iff [of "real (a * 2 ^ w + r)" "root n p * 2 ^ w" n] by simp_all
qed

lemma root_word_fraction:
  fixes k :: "'a::len word"
  assumes n: "0 < n" and k: "root_fraction n LENGTH('a) p (unat k)"
  shows "root_word n p = k"
proof -
  let ?w = "LENGTH('a)" and ?x = "root n p"
  obtain a where a: "unat k < 2 ^ ?w" "(a * 2 ^ ?w + unat k) ^ n \<le> p * 2 ^ (n * ?w)" "p * 2 ^ (n * ?w) < (a * 2 ^ ?w + unat k + 1) ^ n"
    using k unfolding root_fraction_def Let_def by blast
  note b = scaled_root_bounds [OF n a(2,3)]
  have "real (a * 2 ^ ?w) \<le> real (a * 2 ^ ?w + unat k)" by (rule of_nat_mono) simp
  then have "real a * 2 ^ ?w \<le> ?x * 2 ^ ?w" using b(1) unfolding of_nat_mult of_nat_power of_nat_numeral by linarith
  moreover have "real (a * 2 ^ ?w + unat k + 1) \<le> (real a + 1) * 2 ^ ?w"
    using of_nat_mono [of "Suc (unat k)" "2 ^ ?w", where 'a = real] a(1) by (simp add: algebra_simps)
  then have "?x * 2 ^ ?w < (real a + 1) * 2 ^ ?w" using b(2) by linarith
  ultimately have "real a \<le> ?x" "?x < real a + 1" by simp_all
  then have "\<lfloor>?x\<rfloor> = int a" by (simp add: floor_eq_iff)
  then have f: "frac ?x = ?x - real a" by (simp add: frac_def)
  have "\<lfloor>2 ^ ?w * frac ?x\<rfloor> = int (unat k)"
    using b unfolding f by (simp add: floor_eq_iff algebra_simps)
  then show ?thesis by (simp add: root_word_def)
qed

section \<open>Sines\<close>

definition sine_word :: "nat \<Rightarrow> 32 word" where
  "sine_word i = of_int \<lfloor>2 ^ 32 * \<bar>sin (real i)\<bar>\<rfloor>"

text \<open>The cosine and sine of 1 in units of \<open>2 ^ - 52\<close>, and the angle turned on by 1.\<close>

definition cos_1 :: int where "cos_1 = 2433305263375174"
definition sin_1 :: int where "sin_1 = 3789648413623927"

definition turn :: "int \<times> int \<Rightarrow> int \<times> int" where
  "turn z = ((fst z * cos_1 - snd z * sin_1) div 2 ^ 52, (snd z * cos_1 + fst z * sin_1) div 2 ^ 52)"

lemma turn_shift: "turn (a, b) = (drop_bit 52 (a * cos_1 - b * sin_1), drop_bit 52 (b * cos_1 + a * sin_1))"
  by (simp add: turn_def drop_bit_eq_div)

lemma sum_24: "(\<Sum>m<24. g m) = g 0 + g 1 + g 2 + g 3 + g 4 + g 5 + g 6 + g 7 + g 8 + g 9 + g 10 + g 11 + g 12 + g 13 + g 14 + g 15 + g 16 + g 17 + g 18 + g 19 + g 20 + g 21 + g 22 + g 23" for g :: "nat \<Rightarrow> real"
  by (simp add: eval_nat_numeral)

lemma sin_1_bound: "\<bar>2 ^ 52 * sin 1 - sin_1\<bar> \<le> 1"
proof -
  define S :: real where "S = (\<Sum>m<24. sin_coeff m * 1 ^ m)"
  have "\<bar>sin 1 - S\<bar> \<le> inverse (fact 24) * \<bar>1\<bar> ^ 24" unfolding S_def by (rule Maclaurin_sin_bound)
  then have "sin 1 - S \<le> inverse (fact 24)" "S - sin 1 \<le> inverse (fact 24)" by (simp_all add: abs_le_iff)
  moreover have "S = 4350744396907953273869 / 5170403347776995328000"
    by (simp add: S_def sum_24 sin_coeff_def fact_numeral)
  ultimately show ?thesis by (simp add: sin_1_def fact_numeral abs_le_iff)
qed

lemma cos_1_bound: "\<bar>2 ^ 52 * cos 1 - cos_1\<bar> \<le> 1"
proof -
  define S :: real where "S = (\<Sum>m<24. cos_coeff m * 1 ^ m)"
  obtain t where t: "cos 1 = S + (cos (t + 1 / 2 * real 24 * pi) / fact 24) * 1 ^ 24"
    unfolding S_def using Maclaurin_cos_expansion [of 1 24] by blast
  have "\<bar>cos 1 - S\<bar> \<le> inverse (fact 24)"
    unfolding t using abs_cos_le_one [of "t + 1 / 2 * real 24 * pi"] by (simp add: abs_le_iff divide_simps)
  then have "cos 1 - S \<le> inverse (fact 24)" "S - cos 1 \<le> inverse (fact 24)" by (simp_all add: abs_le_iff)
  moreover have "S = 607300185015708631061 / 1124000727777607680000"
    by (simp add: S_def sum_24 cos_coeff_def fact_numeral)
  ultimately show ?thesis by (simp add: cos_1_def fact_numeral abs_le_iff)
qed

text \<open>Turning by a rounded angle: each turn adds at most 8 units to the error.\<close>

definition point :: "int \<times> int \<Rightarrow> complex" where
  "point z = Complex (of_int (fst z)) (of_int (snd z))"

lemma norm_complex_le: "cmod (Complex x y) \<le> \<bar>x\<bar> + \<bar>y\<bar>"
  by (simp add: cmod_def sqrt_sum_squares_le_sum_abs)

lemma div_real_bounds: "\<bar>of_int (x div 2 ^ 52) - of_int x / 2 ^ 52\<bar> \<le> (1 :: real)"
proof -
  have "real_of_int (x div 2 ^ 52) = of_int \<lfloor>of_int x / (2 ^ 52 :: real)\<rfloor>"
    using floor_divide_of_int_eq [of x "2 ^ 52", where 'a = real] by simp
  then show ?thesis by linarith
qed

lemma turn_error:
  assumes "cmod (2 ^ 52 * cis n - point z) \<le> d" and "d \<le> 2 ^ 52"
  shows "cmod (2 ^ 52 * cis (n + 1) - point (turn z)) \<le> d + 8"
proof -
  define W where "W = Complex (of_int cos_1) (of_int sin_1)"
  have "2 ^ 52 * cis 1 - W = Complex (2 ^ 52 * cos 1 - cos_1) (2 ^ 52 * sin 1 - sin_1)"
    by (simp add: W_def complex_eq_iff cis.code)
  then have w: "cmod (2 ^ 52 * cis 1 - W) \<le> 2"
    using norm_complex_le [of "2 ^ 52 * cos 1 - cos_1" "2 ^ 52 * sin 1 - sin_1"] sin_1_bound cos_1_bound by simp
  have "point (turn z) - point z * W / 2 ^ 52 =
      Complex (of_int ((fst z * cos_1 - snd z * sin_1) div 2 ^ 52) - of_int (fst z * cos_1 - snd z * sin_1) / 2 ^ 52)
        (of_int ((snd z * cos_1 + fst z * sin_1) div 2 ^ 52) - of_int (snd z * cos_1 + fst z * sin_1) / 2 ^ 52)"
    by (simp add: complex_eq_iff point_def turn_def W_def algebra_simps)
  then have r: "cmod (point (turn z) - point z * W / 2 ^ 52) \<le> 2"
    using norm_complex_le div_real_bounds by (smt (verit))
  have z: "cmod (point z) \<le> 2 * 2 ^ 52"
    using assms norm_triangle_ineq2 [of "point z" "2 ^ 52 * cis n"] by (simp add: norm_mult norm_minus_commute norm_power)
  have "2 ^ 52 * cis (n + 1) - point z * W / 2 ^ 52 = (2 ^ 52 * cis n - point z) * cis 1 + point z * (2 ^ 52 * cis 1 - W) / 2 ^ 52"
    by (simp add: cis_mult [symmetric] field_simps)
  also have "cmod \<dots> \<le> cmod ((2 ^ 52 * cis n - point z) * cis 1) + cmod (point z * (2 ^ 52 * cis 1 - W) / 2 ^ 52)"
    by (rule norm_triangle_ineq)
  also have "\<dots> \<le> d + 4"
    using assms(1) mult_mono [OF z w] by (simp add: norm_mult norm_divide norm_power)
  finally have "cmod (2 ^ 52 * cis (n + 1) - point z * W / 2 ^ 52) \<le> d + 4" .
  then show ?thesis
    using r norm_triangle_ineq4 [of "2 ^ 52 * cis (n + 1) - point z * W / 2 ^ 52" "point (turn z) - point z * W / 2 ^ 52"] by simp
qed

lemma turns_error:
  assumes "n \<le> 64"
  shows "cmod (2 ^ 52 * cis (real n) - point ((turn ^^ n) (2 ^ 52, 0))) \<le> 8 * real n"
  using assms
proof (induction n)
  case 0
  have "2 ^ 52 * cis 0 - point (2 ^ 52, 0) = 0" by (simp add: point_def complex_eq_iff cis.code)
  then show ?case by simp
next
  case (Suc n)
  have "8 * real n \<le> 2 ^ 52" using Suc.prems by simp
  from turn_error [OF Suc.IH this] Suc.prems show ?case by (simp add: add.commute)
qed

lemma sine_word_turns:
  assumes n: "n \<le> 64" and s: "s = snd ((turn ^^ n) (2 ^ 52, 0))"
    and k: "int (unat k) * 2 ^ 20 + 512 \<le> \<bar>s\<bar>" "\<bar>s\<bar> + 512 < (int (unat k) + 1) * 2 ^ 20"
  shows "sine_word n = k"
proof -
  define x where "x = sin (real n)"
  have "\<bar>2 ^ 52 * x - real_of_int s\<bar> \<le> 512"
    using abs_Im_le_cmod [of "2 ^ 52 * cis (real n) - point ((turn ^^ n) (2 ^ 52, 0))"] turns_error [OF n] of_nat_mono [OF n, where 'a = real]
    unfolding s x_def by (simp add: point_def)
  then have "real_of_int \<bar>s\<bar> - 512 \<le> 2 ^ 52 * \<bar>x\<bar>" "2 ^ 52 * \<bar>x\<bar> \<le> real_of_int \<bar>s\<bar> + 512"
    by (auto simp: abs_if split: if_splits)
  moreover have "real_of_int (int (unat k) * 2 ^ 20 + 512) \<le> real_of_int \<bar>s\<bar>"
    "real_of_int (\<bar>s\<bar> + 512) < real_of_int ((int (unat k) + 1) * 2 ^ 20)"
    using k by (simp_all only: of_int_le_iff of_int_less_iff)
  ultimately have "\<lfloor>2 ^ 32 * \<bar>x\<bar>\<rfloor> = int (unat k)" by (simp add: floor_eq_iff)
  then show ?thesis by (simp add: sine_word_def x_def)
qed

text \<open>The sines of the angles that follow \<open>z\<close>, checked one after the other.\<close>

definition sine_between :: "int \<Rightarrow> 32 word \<Rightarrow> bool" where
  "sine_between s k \<longleftrightarrow> int (unat k) * 2 ^ 20 + 512 \<le> \<bar>s\<bar> \<and> \<bar>s\<bar> + 512 < (int (unat k) + 1) * 2 ^ 20"

fun sines_from :: "int \<times> int \<Rightarrow> 32 word list \<Rightarrow> bool" where
  "sines_from z [] = True"
| "sines_from z (k # ks) \<longleftrightarrow> sine_between (snd z) k \<and> sines_from (turn z) ks"

lemma sines_from_table:
  "sines_from ((turn ^^ n) (2 ^ 52, 0)) ks \<Longrightarrow> n + length ks \<le> 65 \<Longrightarrow> map sine_word [n..<n + length ks] = ks"
proof (induction ks arbitrary: n)
  case (Cons k ks)
  then have "sine_word n = k" by (intro sine_word_turns [OF _ refl]) (simp_all add: sine_between_def)
  moreover have "map sine_word [Suc n..<Suc n + length ks] = ks"
    using Cons.prems by (intro Cons.IH) simp_all
  moreover have "[n..<n + length (k # ks)] = n # [Suc n..<Suc n + length ks]"
    by (subst upt_conv_Cons) simp_all
  ultimately show ?case by (simp only: list.map)
qed simp

end
