(* ===== verification/Ssl_Sha2.thy ===== *)
theory Ssl_Sha2
  imports Ssl_Digest Ssl_Roots
begin

text \<open>
  SHA-224, SHA-256, SHA-384, SHA-512 and SHA-512/256: \<open>crypto/fipsmodule/sha/sha256.c\<close> and
  \<open>sha512.c\<close>, in C (the build sets \<open>OPENSSL_NO_ASM\<close>). The round macros are the same text in both
  files; they are modelled once, over the functions and constants that differ.
\<close>

section \<open>The block functions\<close>

record 'w sha2 =
  Sigma0 :: "'w \<Rightarrow> 'w"
  Sigma1 :: "'w \<Rightarrow> 'w"
  sigma0 :: "'w \<Rightarrow> 'w"
  sigma1 :: "'w \<Rightarrow> 'w"
  K :: "'w list"

definition sha2_Ch :: "'a::len word \<Rightarrow> 'a word \<Rightarrow> 'a word \<Rightarrow> 'a word" where
  "sha2_Ch x y z = (x AND y) XOR (NOT x AND z)"

definition sha2_Maj :: "'a::len word \<Rightarrow> 'a word \<Rightarrow> 'a word \<Rightarrow> 'a word" where
  "sha2_Maj x y z = (x AND y) XOR (x AND z) XOR (y AND z)"

text \<open>
  The variables \<open>a\<close> to \<open>h\<close> are the list \<open>v\<close>. Round \<open>i\<close> names them shifted by \<open>i\<close> places, so
  parameter \<open>j\<close> of its macro call is the variable at \<open>arg i j\<close>.
\<close>

definition sha2_arg :: "nat \<Rightarrow> nat \<Rightarrow> nat" where
  "sha2_arg i j = (j + 8 - i mod 8) mod 8"

definition ROUND_00_15 :: "'a::len word sha2 \<Rightarrow> nat \<Rightarrow> 'a word \<Rightarrow> 'a word list \<Rightarrow> 'a word list" where
  "ROUND_00_15 p i T1 v =
     (let x = (\<lambda>v j. v ! sha2_arg i j);
          T1 = T1 + (x v 7 + Sigma1 p (x v 4) + sha2_Ch (x v 4) (x v 5) (x v 6) + K p ! i);
          v = v[sha2_arg i 7 := Sigma0 p (x v 0) + sha2_Maj (x v 0) (x v 1) (x v 2)];
          v = v[sha2_arg i 3 := x v 3 + T1]
      in v[sha2_arg i 7 := x v 7 + T1])"

definition ROUND_16_63 :: "'a::len word sha2 \<Rightarrow> nat \<Rightarrow> 'a word list \<times> 'a word list \<Rightarrow> 'a word list \<times> 'a word list" where
  "ROUND_16_63 p i s =
     (let (v, X) = s;
          s0 = sigma0 p (X ! ((i + 1) mod 16));
          s1 = sigma1 p (X ! ((i + 14) mod 16));
          T1 = X ! (i mod 16) + (s0 + s1 + X ! ((i + 9) mod 16))
      in (ROUND_00_15 p i T1 v, X[i mod 16 := T1]))"

definition sha2_load_round ::
    "'a::len word sha2 \<Rightarrow> (bytes \<Rightarrow> 'a word) \<Rightarrow> nat \<Rightarrow> bytes \<Rightarrow> nat \<Rightarrow> 'a word list \<times> 'a word list \<Rightarrow> 'a word list \<times> 'a word list" where
  "sha2_load_round p load sz data i s =
     (let (v, X) = s; T1 = load (drop (sz * i) data) in (ROUND_00_15 p i T1 v, X[i := T1]))"

text \<open>One turn of \<open>while (num--)\<close>: \<open>X\<close> is not initialised, \<open>junk\<close> is what it holds.\<close>

definition sha2_block ::
    "'a::len word sha2 \<Rightarrow> (bytes \<Rightarrow> 'a word) \<Rightarrow> nat \<Rightarrow> nat \<Rightarrow> 'a word list \<Rightarrow> 'a word list \<Rightarrow> bytes \<Rightarrow> 'a word list" where
  "sha2_block p load sz rounds junk state data =
     (let s = fold (sha2_load_round p load sz data) [0..<16] (state, junk);
          s = fold (ROUND_16_63 p) [16..<rounds] s
      in map2 (+) state (fst s))"

definition Sigma0_256 :: "u32 \<Rightarrow> u32" where
  "Sigma0_256 x = CRYPTO_rotr_u32 x 2 XOR CRYPTO_rotr_u32 x 13 XOR CRYPTO_rotr_u32 x 22"

definition Sigma1_256 :: "u32 \<Rightarrow> u32" where
  "Sigma1_256 x = CRYPTO_rotr_u32 x 6 XOR CRYPTO_rotr_u32 x 11 XOR CRYPTO_rotr_u32 x 25"

definition sigma0_256 :: "u32 \<Rightarrow> u32" where
  "sigma0_256 x = CRYPTO_rotr_u32 x 7 XOR CRYPTO_rotr_u32 x 18 XOR drop_bit 3 x"

definition sigma1_256 :: "u32 \<Rightarrow> u32" where
  "sigma1_256 x = CRYPTO_rotr_u32 x 17 XOR CRYPTO_rotr_u32 x 19 XOR drop_bit 10 x"

definition K256 :: "u32 list" where
  "K256 = concat
     [[0x428a2f98, 0x71374491, 0xb5c0fbcf, 0xe9b5dba5], [0x3956c25b, 0x59f111f1, 0x923f82a4, 0xab1c5ed5],
      [0xd807aa98, 0x12835b01, 0x243185be, 0x550c7dc3], [0x72be5d74, 0x80deb1fe, 0x9bdc06a7, 0xc19bf174],
      [0xe49b69c1, 0xefbe4786, 0x0fc19dc6, 0x240ca1cc], [0x2de92c6f, 0x4a7484aa, 0x5cb0a9dc, 0x76f988da],
      [0x983e5152, 0xa831c66d, 0xb00327c8, 0xbf597fc7], [0xc6e00bf3, 0xd5a79147, 0x06ca6351, 0x14292967],
      [0x27b70a85, 0x2e1b2138, 0x4d2c6dfc, 0x53380d13], [0x650a7354, 0x766a0abb, 0x81c2c92e, 0x92722c85],
      [0xa2bfe8a1, 0xa81a664b, 0xc24b8b70, 0xc76c51a3], [0xd192e819, 0xd6990624, 0xf40e3585, 0x106aa070],
      [0x19a4c116, 0x1e376c08, 0x2748774c, 0x34b0bcb5], [0x391c0cb3, 0x4ed8aa4a, 0x5b9cca4f, 0x682e6ff3],
      [0x748f82ee, 0x78a5636f, 0x84c87814, 0x8cc70208], [0x90befffa, 0xa4506ceb, 0xbef9a3f7, 0xc67178f2]]"

definition sha256_params :: "u32 sha2" where
  "sha256_params = \<lparr>Sigma0 = Sigma0_256, Sigma1 = Sigma1_256, sigma0 = sigma0_256, sigma1 = sigma1_256, K = K256\<rparr>"

fun sha256_block_data_order :: "u32 list \<Rightarrow> bytes \<Rightarrow> nat \<Rightarrow> u32 list" where
  "sha256_block_data_order state data 0 = state"
| "sha256_block_data_order state data (Suc n) =
     sha256_block_data_order
       (sha2_block sha256_params CRYPTO_load_u32_be 4 64 (replicate 16 0) state data) (drop 64 data) n"

definition Sigma0_512 :: "u64 \<Rightarrow> u64" where
  "Sigma0_512 x = CRYPTO_rotr_u64 x 28 XOR CRYPTO_rotr_u64 x 34 XOR CRYPTO_rotr_u64 x 39"

definition Sigma1_512 :: "u64 \<Rightarrow> u64" where
  "Sigma1_512 x = CRYPTO_rotr_u64 x 14 XOR CRYPTO_rotr_u64 x 18 XOR CRYPTO_rotr_u64 x 41"

definition sigma0_512 :: "u64 \<Rightarrow> u64" where
  "sigma0_512 x = CRYPTO_rotr_u64 x 1 XOR CRYPTO_rotr_u64 x 8 XOR drop_bit 7 x"

definition sigma1_512 :: "u64 \<Rightarrow> u64" where
  "sigma1_512 x = CRYPTO_rotr_u64 x 19 XOR CRYPTO_rotr_u64 x 61 XOR drop_bit 6 x"

definition K512 :: "u64 list" where
  "K512 = concat
     [[0x428a2f98d728ae22, 0x7137449123ef65cd, 0xb5c0fbcfec4d3b2f, 0xe9b5dba58189dbbc],
      [0x3956c25bf348b538, 0x59f111f1b605d019, 0x923f82a4af194f9b, 0xab1c5ed5da6d8118],
      [0xd807aa98a3030242, 0x12835b0145706fbe, 0x243185be4ee4b28c, 0x550c7dc3d5ffb4e2],
      [0x72be5d74f27b896f, 0x80deb1fe3b1696b1, 0x9bdc06a725c71235, 0xc19bf174cf692694],
      [0xe49b69c19ef14ad2, 0xefbe4786384f25e3, 0x0fc19dc68b8cd5b5, 0x240ca1cc77ac9c65],
      [0x2de92c6f592b0275, 0x4a7484aa6ea6e483, 0x5cb0a9dcbd41fbd4, 0x76f988da831153b5],
      [0x983e5152ee66dfab, 0xa831c66d2db43210, 0xb00327c898fb213f, 0xbf597fc7beef0ee4],
      [0xc6e00bf33da88fc2, 0xd5a79147930aa725, 0x06ca6351e003826f, 0x142929670a0e6e70],
      [0x27b70a8546d22ffc, 0x2e1b21385c26c926, 0x4d2c6dfc5ac42aed, 0x53380d139d95b3df],
      [0x650a73548baf63de, 0x766a0abb3c77b2a8, 0x81c2c92e47edaee6, 0x92722c851482353b],
      [0xa2bfe8a14cf10364, 0xa81a664bbc423001, 0xc24b8b70d0f89791, 0xc76c51a30654be30],
      [0xd192e819d6ef5218, 0xd69906245565a910, 0xf40e35855771202a, 0x106aa07032bbd1b8],
      [0x19a4c116b8d2d0c8, 0x1e376c085141ab53, 0x2748774cdf8eeb99, 0x34b0bcb5e19b48a8],
      [0x391c0cb3c5c95a63, 0x4ed8aa4ae3418acb, 0x5b9cca4f7763e373, 0x682e6ff3d6b2b8a3],
      [0x748f82ee5defb2fc, 0x78a5636f43172f60, 0x84c87814a1f0ab72, 0x8cc702081a6439ec],
      [0x90befffa23631e28, 0xa4506cebde82bde9, 0xbef9a3f7b2c67915, 0xc67178f2e372532b],
      [0xca273eceea26619c, 0xd186b8c721c0c207, 0xeada7dd6cde0eb1e, 0xf57d4f7fee6ed178],
      [0x06f067aa72176fba, 0x0a637dc5a2c898a6, 0x113f9804bef90dae, 0x1b710b35131c471b],
      [0x28db77f523047d84, 0x32caab7b40c72493, 0x3c9ebe0a15c9bebc, 0x431d67c49c100d4c],
      [0x4cc5d4becb3e42b6, 0x597f299cfc657e2a, 0x5fcb6fab3ad6faec, 0x6c44198c4a475817]]"

definition sha512_params :: "u64 sha2" where
  "sha512_params = \<lparr>Sigma0 = Sigma0_512, Sigma1 = Sigma1_512, sigma0 = sigma0_512, sigma1 = sigma1_512, K = K512\<rparr>"

fun sha512_block_data_order :: "u64 list \<Rightarrow> bytes \<Rightarrow> nat \<Rightarrow> u64 list" where
  "sha512_block_data_order state data 0 = state"
| "sha512_block_data_order state data (Suc n) =
     sha512_block_data_order
       (sha2_block sha512_params CRYPTO_load_u64_be 8 80 (replicate 16 0) state data) (drop 128 data) n"

section \<open>SHA-224 and SHA-256\<close>

definition SHA224_Init :: md32_ctx where
  "SHA224_Init = md32_zero
     \<lparr>md_h := [0xc1059ed8, 0x367cd507, 0x3070dd17, 0xf70e5939, 0xffc00b31, 0x68581511, 0x64f98fa7, 0xbefa4fa4],
      md_len := 28\<rparr>"

definition SHA256_Init :: md32_ctx where
  "SHA256_Init = md32_zero
     \<lparr>md_h := [0x6a09e667, 0xbb67ae85, 0x3c6ef372, 0xa54ff53a, 0x510e527f, 0x9b05688c, 0x1f83d9ab, 0x5be0cd19],
      md_len := 32\<rparr>"

definition SHA256_Transform :: "md32_ctx \<Rightarrow> bytes \<Rightarrow> md32_ctx" where
  "SHA256_Transform c data = c\<lparr>md_h := sha256_block_data_order (md_h c) data 1\<rparr>"

definition SHA256_Update :: "md32_ctx \<Rightarrow> bytes \<Rightarrow> md32_ctx" where
  "SHA256_Update c data = crypto_md32_update sha256_block_data_order 64 c data"

definition SHA224_Update :: "md32_ctx \<Rightarrow> bytes \<Rightarrow> md32_ctx" where
  "SHA224_Update ctx data = SHA256_Update ctx data"

text \<open>The bytes stored at \<open>out\<close>, \<open>None\<close> when the function returns 0.\<close>

definition sha256_final_impl :: "md32_ctx \<Rightarrow> bytes option \<times> md32_ctx" where
  "sha256_final_impl c =
     (let c = crypto_md32_final sha256_block_data_order 64 c True
      in if 32 < md_len c then (None, c)
         else (Some (concat (map (\<lambda>i. CRYPTO_store_u32_be (md_h c ! i)) [0..<md_len c div 4])), c))"

definition SHA256_Final :: "md32_ctx \<Rightarrow> bytes option \<times> md32_ctx" where
  "SHA256_Final c = sha256_final_impl c"

definition SHA224_Final :: "md32_ctx \<Rightarrow> bytes option \<times> md32_ctx" where
  "SHA224_Final ctx = sha256_final_impl ctx"

definition SHA224 :: "bytes \<Rightarrow> bytes option" where
  "SHA224 data = fst (SHA224_Final (SHA224_Update SHA224_Init data))"

definition SHA256 :: "bytes \<Rightarrow> bytes option" where
  "SHA256 data = fst (SHA256_Final (SHA256_Update SHA256_Init data))"

definition SHA256_TransformBlocks :: "u32 list \<Rightarrow> bytes \<Rightarrow> nat \<Rightarrow> u32 list" where
  "SHA256_TransformBlocks state data num_blocks = sha256_block_data_order state data num_blocks"

section \<open>SHA-384, SHA-512 and SHA-512/256\<close>

record sha512_ctx =
  sha_h :: "u64 list"
  sha_Nl :: u64
  sha_Nh :: u64
  sha_p :: bytes
  sha_num :: nat
  sha_len :: nat

text \<open>\<open>p\<close> is not initialised: \<open>junk\<close> is what it holds.\<close>

definition sha512_start :: "u64 list \<Rightarrow> nat \<Rightarrow> bytes \<Rightarrow> sha512_ctx" where
  "sha512_start hs n junk = \<lparr>sha_h = hs, sha_Nl = 0, sha_Nh = 0, sha_p = junk, sha_num = 0, sha_len = n\<rparr>"

definition SHA384_Init :: "bytes \<Rightarrow> sha512_ctx" where
  "SHA384_Init = sha512_start
     [0xcbbb9d5dc1059ed8, 0x629a292a367cd507, 0x9159015a3070dd17, 0x152fecd8f70e5939,
      0x67332667ffc00b31, 0x8eb44a8768581511, 0xdb0c2e0d64f98fa7, 0x47b5481dbefa4fa4] 48"

definition SHA512_Init :: "bytes \<Rightarrow> sha512_ctx" where
  "SHA512_Init = sha512_start
     [0x6a09e667f3bcc908, 0xbb67ae8584caa73b, 0x3c6ef372fe94f82b, 0xa54ff53a5f1d36f1,
      0x510e527fade682d1, 0x9b05688c2b3e6c1f, 0x1f83d9abfb41bd6b, 0x5be0cd19137e2179] 64"

definition SHA512_256_Init :: "bytes \<Rightarrow> sha512_ctx" where
  "SHA512_256_Init = sha512_start
     [0x22312194fc2bf72c, 0x9f555fa3c84c64c2, 0x2393b86b6f53b151, 0x963877195940eabd,
      0x96283ee2a88effe3, 0xbe5e1e2553863992, 0x2b0199fc2c85b8aa, 0x0eb72ddc81c52ca2] 32"

definition SHA512_Transform :: "sha512_ctx \<Rightarrow> bytes \<Rightarrow> sha512_ctx" where
  "SHA512_Transform c data = c\<lparr>sha_h := sha512_block_data_order (sha_h c) data 1\<rparr>"

text \<open>From \<open>if (len >= sizeof(c->p))\<close> on.\<close>

definition sha512_tail :: "sha512_ctx \<Rightarrow> bytes \<Rightarrow> sha512_ctx" where
  "sha512_tail c data =
     (let len = length data;
          c = (if 128 \<le> len then c\<lparr>sha_h := sha512_block_data_order (sha_h c) data (len div 128)\<rparr> else c);
          data = (if 128 \<le> len then drop (len - len mod 128) data else data)
      in if length data \<noteq> 0 then c\<lparr>sha_p := memcpy_at (sha_p c) 0 data, sha_num := length data\<rparr> else c)"

definition SHA512_Update :: "sha512_ctx \<Rightarrow> bytes \<Rightarrow> sha512_ctx" where
  "SHA512_Update c data =
     (let len = length data in
      if len = 0 then c
      else
        let l = sha_Nl c + push_bit 3 (of_nat len);
            c = (if l < sha_Nl c then c\<lparr>sha_Nh := sha_Nh c + 1\<rparr> else c);
            c = c\<lparr>sha_Nh := sha_Nh c + of_nat (len div 2 ^ 61), sha_Nl := l\<rparr>
        in if sha_num c \<noteq> 0 then
             let n = 128 - sha_num c in
             if len < n then c\<lparr>sha_p := memcpy_at (sha_p c) (sha_num c) data, sha_num := sha_num c + len\<rparr>
             else
               let p = memcpy_at (sha_p c) (sha_num c) (take n data);
                   c = c\<lparr>sha_p := p, sha_num := 0, sha_h := sha512_block_data_order (sha_h c) p 1\<rparr>
               in sha512_tail c (drop n data)
           else sha512_tail c data)"

definition SHA384_Update :: "sha512_ctx \<Rightarrow> bytes \<Rightarrow> sha512_ctx" where
  "SHA384_Update sha data = SHA512_Update sha data"

definition SHA512_256_Update :: "sha512_ctx \<Rightarrow> bytes \<Rightarrow> sha512_ctx" where
  "SHA512_256_Update sha data = SHA512_Update sha data"

text \<open>With a non-null \<open>out\<close>, where the C function returns 1.\<close>

definition sha512_final_impl :: "sha512_ctx \<Rightarrow> bytes \<times> sha512_ctx" where
  "sha512_final_impl sha =
     (let n = sha_num sha;
          p = memcpy_at (sha_p sha) n [0x80];
          n = n + 1;
          full = 128 - 16 < n;
          p = (if full then memcpy_at p n (replicate (128 - n) 0) else p);
          n' = (if full then 0 else n);
          hs = (if full then sha512_block_data_order (sha_h sha) p 1 else sha_h sha);
          p = memcpy_at p n' (replicate (128 - 16 - n') 0);
          p = memcpy_at p (128 - 16) (CRYPTO_store_u64_be (sha_Nh sha));
          p = memcpy_at p (128 - 8) (CRYPTO_store_u64_be (sha_Nl sha));
          hs = sha512_block_data_order hs p 1
      in (concat (map (\<lambda>i. CRYPTO_store_u64_be (hs ! i)) [0..<sha_len sha div 8]), sha\<lparr>sha_h := hs, sha_p := p\<rparr>))"

definition SHA512_Final :: "sha512_ctx \<Rightarrow> bytes \<times> sha512_ctx" where
  "SHA512_Final sha = sha512_final_impl sha"

definition SHA384_Final :: "sha512_ctx \<Rightarrow> bytes \<times> sha512_ctx" where
  "SHA384_Final sha = sha512_final_impl sha"

definition SHA512_256_Final :: "sha512_ctx \<Rightarrow> bytes \<times> sha512_ctx" where
  "SHA512_256_Final sha = sha512_final_impl sha"

definition SHA384 :: "bytes \<Rightarrow> bytes \<Rightarrow> bytes" where
  "SHA384 junk data = fst (SHA384_Final (SHA384_Update (SHA384_Init junk) data))"

definition SHA512 :: "bytes \<Rightarrow> bytes \<Rightarrow> bytes" where
  "SHA512 junk data = fst (SHA512_Final (SHA512_Update (SHA512_Init junk) data))"

definition SHA512_256 :: "bytes \<Rightarrow> bytes \<Rightarrow> bytes" where
  "SHA512_256 junk data = fst (SHA512_256_Final (SHA512_256_Update (SHA512_256_Init junk) data))"

section \<open>FIPS 180-4\<close>

definition primes_80 :: "nat list" where
  "primes_80 =
     [2, 3, 5, 7, 11, 13, 17, 19, 23, 29, 31, 37, 41, 43, 47, 53, 59, 61, 67, 71, 73, 79, 83, 89, 97, 101, 103, 107,
      109, 113, 127, 131, 137, 139, 149, 151, 157, 163, 167, 173, 179, 181, 191, 193, 197, 199, 211, 223, 227, 229,
      233, 239, 241, 251, 257, 263, 269, 271, 277, 281, 283, 293, 307, 311, 313, 317, 331, 337, 347, 349, 353, 359,
      367, 373, 379, 383, 389, 397, 401, 409]"

text \<open>
  The standard's own functions and numbers: the round constants are the fractions of the cube roots of the first primes,
  the initial values those of the square roots; the initial value of SHA-512/256 is the one listed in section 5.3.6.2.
\<close>

definition fips_Ch :: "'a::len word \<Rightarrow> 'a word \<Rightarrow> 'a word \<Rightarrow> 'a word" where
  "fips_Ch x y z = (x AND y) XOR (NOT x AND z)"

definition fips_Maj :: "'a::len word \<Rightarrow> 'a word \<Rightarrow> 'a word \<Rightarrow> 'a word" where
  "fips_Maj x y z = (x AND y) XOR (x AND z) XOR (y AND z)"

definition fips256_iv :: "u32 list" where
  "fips256_iv = map (root_word 2) (take 8 primes_80)"

definition fips512_iv :: "u64 list" where
  "fips512_iv = map (root_word 2) (take 8 primes_80)"

definition fips384_iv :: "u64 list" where
  "fips384_iv = map (root_word 2) (take 8 (drop 8 primes_80))"

definition fips224_iv :: "u32 list" where
  "fips224_iv = map ucast fips384_iv"

definition fips512_256_iv :: "u64 list" where
  "fips512_256_iv =
     [0x22312194fc2bf72c, 0x9f555fa3c84c64c2, 0x2393b86b6f53b151, 0x963877195940eabd,
      0x96283ee2a88effe3, 0xbe5e1e2553863992, 0x2b0199fc2c85b8aa, 0x0eb72ddc81c52ca2]"

text \<open>
  The standard's compression function: the full message schedule, the working variables moved on
  in every round, true rotations.
\<close>

fun fips_W :: "'a::len word sha2 \<Rightarrow> 'a word list \<Rightarrow> nat \<Rightarrow> 'a word" where
  "fips_W p M t =
     (if t < 16 then M ! t
      else sigma1 p (fips_W p M (t - 2)) + fips_W p M (t - 7) + sigma0 p (fips_W p M (t - 15)) + fips_W p M (t - 16))"
declare fips_W.simps [simp del]

fun fips_step :: "'a::len word sha2 \<Rightarrow> 'a word \<Rightarrow> 'a word \<Rightarrow> 'a word list \<Rightarrow> 'a word list" where
  "fips_step p k w [a, b, c, d, e, f, g, h] =
     (let T1 = h + Sigma1 p e + fips_Ch e f g + k + w; T2 = Sigma0 p a + fips_Maj a b c
      in [T1 + T2, a, b, c, d + T1, e, f, g])"
| "fips_step p k w _ = []"

definition fips_compress :: "'a::len word sha2 \<Rightarrow> nat \<Rightarrow> 'a word list \<Rightarrow> 'a word list \<Rightarrow> 'a word list" where
  "fips_compress p rounds H M = map2 (+) H (fold (\<lambda>t. fips_step p (K p ! t) (fips_W p M t)) [0..<rounds] H)"

text \<open>The words of a block, most significant byte first.\<close>

definition be_words :: "nat \<Rightarrow> bytes \<Rightarrow> 'a::len word list" where
  "be_words sz data = map (\<lambda>i. of_nat (be_value (take sz (drop (sz * i) data)))) [0..<16]"

definition fips256 :: "u32 sha2" where
  "fips256 = \<lparr>Sigma0 = \<lambda>x. word_rotr 2 x XOR word_rotr 13 x XOR word_rotr 22 x,
     Sigma1 = \<lambda>x. word_rotr 6 x XOR word_rotr 11 x XOR word_rotr 25 x,
     sigma0 = \<lambda>x. word_rotr 7 x XOR word_rotr 18 x XOR drop_bit 3 x,
     sigma1 = \<lambda>x. word_rotr 17 x XOR word_rotr 19 x XOR drop_bit 10 x, K = map (root_word 3) (take 64 primes_80)\<rparr>"

definition fips512 :: "u64 sha2" where
  "fips512 = \<lparr>Sigma0 = \<lambda>x. word_rotr 28 x XOR word_rotr 34 x XOR word_rotr 39 x,
     Sigma1 = \<lambda>x. word_rotr 14 x XOR word_rotr 18 x XOR word_rotr 41 x,
     sigma0 = \<lambda>x. word_rotr 1 x XOR word_rotr 8 x XOR drop_bit 7 x,
     sigma1 = \<lambda>x. word_rotr 19 x XOR word_rotr 61 x XOR drop_bit 6 x, K = map (root_word 3) primes_80\<rparr>"

section \<open>Where the constants come from\<close>

lemma upt_1_20: "[Suc 0..<20] = [1, 2, 3, 4, 5, 6, 7, 8, 9, 10, 11, 12, 13, 14, 15, 16, 17, 18, 19]"
  by (simp add: upt_rec)

lemmas root_simps = primes_80_def root_fraction_def upt_1_20 Let_def

lemma K512_roots_1: "list_all2 (\<lambda>p k. root_fraction 3 64 p (unat k)) (take 40 primes_80) (take 40 K512)"
  by (simp add: K512_def root_simps)

lemma K512_roots_2: "list_all2 (\<lambda>p k. root_fraction 3 64 p (unat k)) (drop 40 primes_80) (drop 40 K512)"
  by (simp add: K512_def root_simps)

lemma K512_roots: "list_all2 (\<lambda>p k. root_fraction 3 64 p (unat k)) primes_80 K512"
  using list_all2_appendI [OF K512_roots_1 K512_roots_2] by simp

lemma K256_roots: "list_all2 (\<lambda>p k. root_fraction 3 32 p (unat k)) (take 64 primes_80) K256"
  by (simp add: K256_def root_simps)

lemma sha512_iv_roots: "list_all2 (\<lambda>p h. root_fraction 2 64 p (unat h)) (take 8 primes_80) (sha_h (SHA512_Init junk))"
  by (simp add: SHA512_Init_def sha512_start_def root_simps)

lemma sha256_iv_roots: "list_all2 (\<lambda>p h. root_fraction 2 32 p (unat h)) (take 8 primes_80) (md_h SHA256_Init)"
  by (simp add: SHA256_Init_def root_simps)

lemma sha384_iv_roots:
  "list_all2 (\<lambda>p h. root_fraction 2 64 p (unat h)) (take 8 (drop 8 primes_80)) (sha_h (SHA384_Init junk))"
  by (simp add: SHA384_Init_def sha512_start_def root_simps)

lemma sha224_halves: "md_h SHA224_Init = map ucast (sha_h (SHA384_Init junk))"
  by (simp add: SHA384_Init_def sha512_start_def SHA224_Init_def)

lemma roots_table:
  assumes "0 < n" and "list_all2 (\<lambda>p k. root_fraction n LENGTH('a) p (unat k)) ps ks"
  shows "map (root_word n) ps = (ks :: 'a::len word list)"
  using assms(2) by (induction rule: list_all2_induct) (simp_all add: root_word_fraction [OF assms(1)])

lemma fips_tables:
  "map (root_word 3) primes_80 = K512" "map (root_word 3) (take 64 primes_80) = K256"
  "fips512_iv = sha_h (SHA512_Init junk)" "fips384_iv = sha_h (SHA384_Init junk)" "fips256_iv = md_h SHA256_Init"
  unfolding fips512_iv_def fips384_iv_def fips256_iv_def
  by (rule roots_table, simp, simp add: K512_roots K256_roots sha512_iv_roots sha384_iv_roots sha256_iv_roots)+

lemma sha224_iv: "md_h SHA224_Init = fips224_iv"
  by (simp add: fips224_iv_def fips_tables(4) [of undefined] SHA384_Init_def sha512_start_def SHA224_Init_def)

lemma sha512_256_iv: "sha_h (SHA512_256_Init junk) = fips512_256_iv"
  by (simp add: SHA512_256_Init_def sha512_start_def fips512_256_iv_def)

lemmas fips_ivs = fips_tables(3-5) [symmetric] sha224_iv sha512_256_iv

section \<open>The code computes it\<close>

lemma rotr_or:
  fixes v :: "'a::len word"
  assumes "0 < n" and "n < LENGTH('a)"
  shows "drop_bit n v OR push_bit (LENGTH('a) - n) v = word_rotr n v"
proof (rule bit_word_eqI)
  fix k assume k: "k < LENGTH('a)"
  have len: "bit v m \<Longrightarrow> m < LENGTH('a)" for m by (rule bit_imp_le_length)
  show "bit (drop_bit n v OR push_bit (LENGTH('a) - n) v) k \<longleftrightarrow> bit (word_rotr n v) k"
  proof (cases "k + n < LENGTH('a)")
    case True
    then show ?thesis using k assms by (auto simp: bit_or_iff bit_drop_bit_eq bit_push_bit_iff bit_word_rotr_iff add.commute)
  next
    case False
    then have "(k + n) mod LENGTH('a) = k + n - LENGTH('a)"
      using k assms by (simp add: le_mod_geq)
    then show ?thesis using False k assms len [of "n + k"]
      by (auto simp: bit_or_iff bit_drop_bit_eq bit_push_bit_iff bit_word_rotr_iff add.commute)
  qed
qed

lemma rotr_u32: "0 < n \<Longrightarrow> n < 32 \<Longrightarrow> CRYPTO_rotr_u32 v n = word_rotr n v"
  using rotr_or [of n v] by (simp add: CRYPTO_rotr_u32_def)

lemma rotr_u64: "0 < n \<Longrightarrow> n < 64 \<Longrightarrow> CRYPTO_rotr_u64 v n = word_rotr n v"
  using rotr_or [of n v] by (simp add: CRYPTO_rotr_u64_def)

lemma sha256_params_fips: "sha256_params = fips256"
  by (simp add: sha256_params_def fips256_def Sigma0_256_def [abs_def] Sigma1_256_def [abs_def] sigma0_256_def [abs_def]
      sigma1_256_def [abs_def] rotr_u32 fips_tables)

lemma sha512_params_fips: "sha512_params = fips512"
  by (simp add: sha512_params_def fips512_def Sigma0_512_def [abs_def] Sigma1_512_def [abs_def] sigma0_512_def [abs_def]
      sigma1_512_def [abs_def] rotr_u64 fips_tables)

text \<open>The working variables of the standard, read off the rotated ones.\<close>

definition sha2_view :: "nat \<Rightarrow> 'a list \<Rightarrow> 'a list" where
  "sha2_view i v = map (\<lambda>j. v ! sha2_arg i j) [0..<8]"

lemma eight: "length v = 8 \<Longrightarrow> \<exists>a b c d e f g h. v = [a, b, c, d, e, f, g, h]"
  by (auto simp: numeral_eq_Suc length_Suc_conv)

lemma upt8: "[0..<8] = [0, 1, 2, 3, 4, 5, 6, 7 :: nat]"
  by (simp add: upt_rec)

lemma round_length: "length v = 8 \<Longrightarrow> length (ROUND_00_15 p i T v) = 8"
  by (simp add: ROUND_00_15_def Let_def)

lemma sha2_functions: "sha2_Ch = fips_Ch" "sha2_Maj = fips_Maj"
  by (intro ext, simp add: sha2_Ch_def fips_Ch_def sha2_Maj_def fips_Maj_def)+

lemma round_view:
  assumes "length v = 8"
  shows "sha2_view (Suc i) (ROUND_00_15 p i T v) = fips_step p (K p ! i) T (sha2_view i v)"
proof -
  obtain a b c d e f g h where v: "v = [a, b, c, d, e, f, g, h]" using eight [OF assms] by blast
  have s: "Suc i mod 8 = (if i mod 8 = 7 then 0 else Suc (i mod 8))" by (simp add: mod_Suc)
  consider "i mod 8 = 0" | "i mod 8 = 1" | "i mod 8 = 2" | "i mod 8 = 3" | "i mod 8 = 4" | "i mod 8 = 5" | "i mod 8 = 6"
    | "i mod 8 = 7" using mod_less_divisor [of 8 i] by linarith
  then show ?thesis
    by cases (simp_all add: v sha2_view_def upt8 sha2_arg_def s ROUND_00_15_def sha2_functions Let_def ac_simps)
qed

text \<open>
  After \<open>i\<close> rounds: the working variables are those of the standard, and \<open>X\<close> holds the last
  sixteen words of the message schedule.
\<close>

definition sha2_inv :: "'a::len word sha2 \<Rightarrow> 'a word list \<Rightarrow> 'a word list \<Rightarrow> nat \<Rightarrow> 'a word list \<times> 'a word list \<Rightarrow> bool" where
  "sha2_inv p M H i s \<longleftrightarrow>
     length (fst s) = 8 \<and> length (snd s) = 16 \<and>
     sha2_view i (fst s) = fold (\<lambda>t. fips_step p (K p ! t) (fips_W p M t)) [0..<i] H \<and>
     (\<forall>t. t < i \<and> i \<le> t + 16 \<longrightarrow> snd s ! (t mod 16) = fips_W p M t)"

lemma sha2_view_0: "length v = 8 \<Longrightarrow> sha2_view 0 v = v"
  using eight [of v] by (auto simp: sha2_view_def upt8 sha2_arg_def)

lemma view_mod: "i mod 8 = 0 \<Longrightarrow> sha2_view i v = sha2_view 0 v"
  by (simp add: sha2_view_def sha2_arg_def)

lemma load_round_inv:
  assumes "sha2_inv p M H i s" and "i < 16" and "load (drop (sz * i) data) = M ! i"
  shows "sha2_inv p M H (Suc i) (sha2_load_round p load sz data i s)"
proof -
  obtain v X where s: "s = (v, X)" by (cases s)
  have W: "fips_W p M i = M ! i" using assms(2) by (simp add: fips_W.simps)
  show ?thesis
    using assms unfolding sha2_inv_def sha2_load_round_def s Let_def
    by (auto simp: round_length round_view W nth_list_update less_Suc_eq)
qed

lemma mod16_inj: "t < i \<Longrightarrow> i \<le> t + 15 \<Longrightarrow> t mod 16 \<noteq> i mod 16" for t i :: nat
proof
  assume "t < i" "i \<le> t + 15" "t mod 16 = i mod 16"
  then have "16 dvd i - t" by (metis mod_eq_dvd_iff_nat less_imp_le)
  with \<open>t < i\<close> \<open>i \<le> t + 15\<close> show False by (auto dest: dvd_imp_le)
qed

lemma schedule_round_inv:
  assumes inv: "sha2_inv p M H i s" and i: "16 \<le> i"
  shows "sha2_inv p M H (Suc i) (ROUND_16_63 p i s)"
proof -
  obtain v X where s: "s = (v, X)" by (cases s)
  have X: "X ! (t mod 16) = fips_W p M t" if "t < i" "i \<le> t + 16" for t
    using inv that by (simp add: sha2_inv_def s)
  have sh: "(i + 1) mod 16 = (i - 15) mod 16" "(i + 14) mod 16 = (i - 2) mod 16" "(i + 9) mod 16 = (i - 7) mod 16"
    "i mod 16 = (i - 16) mod 16"
  proof -
    obtain k where k: "i = k + 16" using i by (metis add.commute le_Suc_ex)
    show "(i + 1) mod 16 = (i - 15) mod 16" "(i + 14) mod 16 = (i - 2) mod 16" "(i + 9) mod 16 = (i - 7) mod 16"
      "i mod 16 = (i - 16) mod 16"
      using mod_add_self2 [of "k + 1" 16] mod_add_self2 [of "k + 14" 16] mod_add_self2 [of "k + 9" 16]
        mod_add_self2 [of k 16]
      unfolding k by (simp_all add: ac_simps)
  qed
  have "X ! (i mod 16) + (sigma0 p (X ! ((i + 1) mod 16)) + sigma1 p (X ! ((i + 14) mod 16)) + X ! ((i + 9) mod 16)) =
      fips_W p M i"
    unfolding sh using i X [of "i - 15"] X [of "i - 2"] X [of "i - 7"] X [of "i - 16"]
    by (simp add: fips_W.simps [of p M i] ac_simps)
  then have T: "ROUND_16_63 p i s = (ROUND_00_15 p i (fips_W p M i) v, X[i mod 16 := fips_W p M i])"
    by (simp add: ROUND_16_63_def s Let_def)
  have "X[i mod 16 := fips_W p M i] ! (t mod 16) = fips_W p M t" if "t < Suc i" "Suc i \<le> t + 16" for t
    using that X [of t] mod16_inj [of t i] inv by (cases "t = i") (auto simp: sha2_inv_def s)
  then show ?thesis
    using inv unfolding T by (auto simp: sha2_inv_def s round_length round_view)
qed

lemma sha2_block_fips:
  assumes "length H = 8" and "length junk = 16" and "16 \<le> rounds" and "rounds mod 8 = 0"
    and "\<And>i. i < 16 \<Longrightarrow> load (drop (sz * i) data) = M ! i"
  shows "sha2_block p load sz rounds junk H data = fips_compress p rounds H M"
proof -
  have a: "sha2_inv p M H i (fold (sha2_load_round p load sz data) [0..<i] (H, junk))" if "i \<le> 16" for i
    using that
  proof (induction i)
    case 0
    then show ?case using assms(1,2) by (simp add: sha2_inv_def sha2_view_0)
  next
    case (Suc i)
    then show ?case using load_round_inv [of p M H i _ load sz data] assms(5) [of i] by simp
  qed
  let ?s = "fold (sha2_load_round p load sz data) [0..<16] (H, junk)"
  have b: "sha2_inv p M H (16 + k) (fold (ROUND_16_63 p) [16..<16 + k] ?s)" for k
  proof (induction k)
    case 0
    then show ?case using a [of 16] by simp
  next
    case (Suc k)
    have u: "[16..<16 + Suc k] = [16..<16 + k] @ [16 + k]"
      by (simp only: add_Suc_right upt_Suc_append le_add1)
    show ?case unfolding u using schedule_round_inv [OF Suc.IH] by simp
  qed
  let ?t = "fold (ROUND_16_63 p) [16..<rounds] ?s"
  have "sha2_inv p M H rounds ?t" using b [of "rounds - 16"] assms(3) by simp
  then have "fst ?t = fold (\<lambda>t. fips_step p (K p ! t) (fips_W p M t)) [0..<rounds] H"
    using view_mod [OF assms(4), of "fst ?t"] sha2_view_0 [of "fst ?t"] by (simp add: sha2_inv_def)
  then show ?thesis by (simp add: sha2_block_def fips_compress_def Let_def)
qed

lemma load_be_32:
  assumes "length p = 4"
  shows "CRYPTO_load_u32_be p = of_nat (be_value p)"
proof -
  have lt: "be_value p < 2 ^ 32" using be_value_less [of p] assms by simp
  define v :: u32 where "v = of_nat (be_value p)"
  have uv: "unat v = be_value p" using lt by (simp add: v_def unat_of_nat)
  have "le_bytes 4 (CRYPTO_bswap4 v) = p"
    using store_be_bytes [of v] be_bytes_value [of p] assms by (simp add: CRYPTO_store_u32_be_def uv)
  then have "le_word p = CRYPTO_bswap4 v"
    using le_word_le_bytes_full [of 4 "CRYPTO_bswap4 v"] by simp
  moreover have "CRYPTO_bswap4 (CRYPTO_bswap4 v) = v"
    by (rule bit_word_eqI) (auto simp: bit_bswap4)
  ultimately show ?thesis using assms by (simp add: CRYPTO_load_u32_be_def v_def)
qed

text \<open>The whole block functions, one block after the other.\<close>

definition sha256_compress :: "u32 list \<Rightarrow> bytes \<Rightarrow> u32 list" where
  "sha256_compress H B = fips_compress fips256 64 H (be_words 4 B)"

definition sha512_compress :: "u64 list \<Rightarrow> bytes \<Rightarrow> u64 list" where
  "sha512_compress H B = fips_compress fips512 80 H (be_words 8 B)"

lemma length_fips_step: "length v = 8 \<Longrightarrow> length (fips_step p k w v) = 8"
  using eight [of v] by (auto simp: Let_def)

lemma length_fold_steps: "length H = 8 \<Longrightarrow> length (fold (\<lambda>t. fips_step p (f t) (g t)) ts H) = 8"
  by (induction ts arbitrary: H) (simp_all add: length_fips_step)

lemma length_compress: "length H = 8 \<Longrightarrow> length (fips_compress p n H M) = 8"
  by (simp add: fips_compress_def length_fold_steps)

lemma load_word_32:
  assumes "i < 16" and "64 \<le> length data"
  shows "CRYPTO_load_u32_be (drop (4 * i) data) = be_words 4 (take 64 data) ! i"
proof -
  have w: "take 4 (drop (4 * i) (take 64 data)) = take 4 (drop (4 * i) data)" using assms(1) by (simp add: drop_take min_def)
  have "length (take 4 (drop (4 * i) data)) = 4" using assms by simp
  from load_be_32 [OF this] assms(1) show ?thesis
    by (simp add: be_words_def w) (simp add: CRYPTO_load_u32_be_def)
qed

lemma sha256_one:
  assumes "length H = 8" and "64 \<le> length data"
  shows "sha2_block sha256_params CRYPTO_load_u32_be 4 64 (replicate 16 0) H data = sha256_compress H (take 64 data)"
  using sha2_block_fips [OF assms(1) _ _ _ load_word_32 [OF _ assms(2)], of "replicate 16 0" 64 sha256_params]
  by (simp add: sha256_compress_def sha256_params_fips)

lemma length_sha256_compress: "length H = 8 \<Longrightarrow> length (sha256_compress H B) = 8"
  by (simp add: sha256_compress_def length_compress)

lemma sha256_blocks:
  "length H = 8 \<Longrightarrow> n * 64 \<le> length data \<Longrightarrow>
   sha256_block_data_order H data n = chain sha256_compress 64 H (take (n * 64) data)"
proof (induction n arbitrary: H data)
  case 0
  then show ?case by (simp add: chain_short)
next
  case (Suc n)
  then show ?case using chain_blocks_step [of 64 n data sha256_compress H]
    by (simp add: sha256_one length_sha256_compress)
qed

interpretation sha256: md32_digest sha256_block_data_order sha256_compress "\<lambda>hs. length hs = 8"
  by unfold_locales (simp_all add: sha256_blocks length_sha256_compress)

text \<open>The digest of a message: the words \<open>n\<close> of the final chaining value.\<close>

definition sha256_digest :: "u32 list \<Rightarrow> nat \<Rightarrow> bytes \<Rightarrow> bytes" where
  "sha256_digest iv n M =
     concat (map (\<lambda>w. be_bytes 4 (unat w))
       (take n (chain sha256_compress 64 iv (md_padded 64 (md_length_field True (length M)) M))))"

lemma sha256_final:
  assumes iv: "length iv = 8" and n: "n \<le> 8"
  shows "fst (sha256_final_impl (foldl SHA256_Update (md32_zero\<lparr>md_h := iv, md_len := 4 * n\<rparr>) xs)) = Some (sha256_digest iv n (concat xs))"
proof -
  let ?c = "foldl (crypto_md32_update sha256_block_data_order 64) (md32_zero\<lparr>md_h := iv, md_len := 4 * n\<rparr>) xs"
  let ?H = "chain sha256_compress 64 iv (md_padded 64 (md_length_field True (length (concat xs))) (concat xs))"
  have u: "SHA256_Update = crypto_md32_update sha256_block_data_order 64" by (intro ext) (simp add: SHA256_Update_def)
  have l: "length ?H = 8" using sha256.ok_chain [OF iv] .
  have "fst (sha256_final_impl ?c) = Some (concat (map (\<lambda>i. CRYPTO_store_u32_be (?H ! i)) [0..<n]))"
    unfolding sha256_final_impl_def Let_def sha256.stream_final [OF iv] final_len update_len using n by simp
  then show ?thesis
    using n l map_nth_take [of n ?H "\<lambda>w. be_bytes 4 (unat w)"] by (simp add: u sha256_digest_def store_be_bytes)
qed

section \<open>SHA-512\<close>

lemma le_bytes_append: "le_bytes (m + n) v = le_bytes m v @ le_bytes n (drop_bit (8 * m) v)"
  by (induction m arbitrary: v) (simp_all add: drop_bit_drop_bit ac_simps)

lemma le_bytes_4_ucast: "le_bytes 4 v = le_bytes 4 (ucast v :: u32)" for v :: u64
proof -
  have "ucast (drop_bit k v) = (ucast (drop_bit k (ucast v :: u32)) :: byte)" if "k \<le> 24" for k
    by (rule bit_word_eqI) (use that in \<open>simp add: bit_simps\<close>)
  from this [of 0] this [of 8] this [of 16] this [of 24] show ?thesis
    unfolding four by simp
qed

lemma bswap8_halves:
  "(ucast (CRYPTO_bswap8 v) :: u32) = CRYPTO_bswap4 (ucast (drop_bit 32 v))"
  "(ucast (drop_bit 32 (CRYPTO_bswap8 v)) :: u32) = CRYPTO_bswap4 (ucast v)"
  by (rule bit_word_eqI, simp add: CRYPTO_bswap8_def bit_simps bit_bswap4)+

lemma store_be_bytes_64: "CRYPTO_store_u64_be v = be_bytes 8 (unat v)"
proof -
  let ?lo = "ucast v :: u32" and ?hi = "ucast (drop_bit 32 v) :: u32"
  have lo: "unat ?lo = unat v mod 2 ^ 32" by (simp add: unat_ucast)
  have d: "unat (drop_bit 32 v) = unat v div 2 ^ 32"
    unfolding unat_drop_bit by (simp add: drop_bit_eq_div)
  have "unat v < 2 ^ 32 * 2 ^ 32" using unsigned_less [of v, where 'a = nat] by simp
  then have "unat v div 2 ^ 32 < 2 ^ 32" by (rule less_mult_imp_div_less)
  then have hi: "unat ?hi = unat v div 2 ^ 32" unfolding unat_ucast d by simp
  have "unat v = unat ?hi * 2 ^ 32 + unat ?lo" unfolding lo hi by (simp only: div_mult_mod_eq)
  moreover have "unat ?lo < 2 ^ 32" unfolding lo by simp
  ultimately have "be_bytes 8 (unat v) = be_bytes 4 (unat ?hi) @ be_bytes 4 (unat ?lo)"
    using be_bytes_8 [of "unat ?lo" "unat ?hi"] by simp
  also have "\<dots> = le_bytes 4 (CRYPTO_bswap4 ?hi) @ le_bytes 4 (CRYPTO_bswap4 ?lo)"
    by (simp add: store_be_bytes [symmetric] CRYPTO_store_u32_be_def)
  also have "\<dots> = le_bytes (4 + 4) (CRYPTO_bswap8 v)"
    unfolding le_bytes_append by (simp add: le_bytes_4_ucast bswap8_halves)
  finally show ?thesis by (simp add: CRYPTO_store_u64_be_def)
qed

lemma bswap8_twice: "CRYPTO_bswap8 (CRYPTO_bswap8 v) = v"
proof -
  have inv: "CRYPTO_bswap4 (CRYPTO_bswap4 x) = x" for x
    by (rule bit_word_eqI) (auto simp: bit_bswap4)
  have "ucast (ucast v :: u32) OR push_bit 32 (ucast (ucast (drop_bit 32 v) :: u32)) = push_bit 32 (ucast (ucast (drop_bit 32 v) :: u32)) OR ucast (ucast v :: u32)"
    by (rule or.commute)
  also have "\<dots> = v"
    by (rule bit_word_eqI) (auto simp: bit_simps)
  finally show ?thesis
    unfolding CRYPTO_bswap8_def [of "CRYPTO_bswap8 v"] bswap8_halves inv .
qed

lemma load_be_64:
  assumes "length p = 8"
  shows "CRYPTO_load_u64_be p = of_nat (be_value p)"
proof -
  have lt: "be_value p < 2 ^ 64" using be_value_less [of p] assms by simp
  define v :: u64 where "v = of_nat (be_value p)"
  have uv: "unat v = be_value p" using lt by (simp add: v_def unat_of_nat)
  have "le_bytes 8 (CRYPTO_bswap8 v) = p"
    using store_be_bytes_64 [of v] be_bytes_value [of p] assms by (simp add: CRYPTO_store_u64_be_def uv)
  then have "le_word p = CRYPTO_bswap8 v"
    using le_word_le_bytes_full [of 8 "CRYPTO_bswap8 v"] by simp
  then show ?thesis using assms by (simp add: CRYPTO_load_u64_be_def v_def bswap8_twice)
qed

lemma sha512_one:
  assumes "length H = 8" and "128 \<le> length data"
  shows "sha2_block sha512_params CRYPTO_load_u64_be 8 80 (replicate 16 0) H data = sha512_compress H (take 128 data)"
proof -
  have "CRYPTO_load_u64_be (drop (8 * i) data) = be_words 8 (take 128 data) ! i" if "i < 16" for i
  proof -
    have w: "take 8 (drop (8 * i) (take 128 data)) = take 8 (drop (8 * i) data)" using that by (simp add: drop_take min_def)
    have "length (take 8 (drop (8 * i) data)) = 8" using that assms(2) by simp
    from load_be_64 [OF this] that show ?thesis
      by (simp add: be_words_def w) (simp add: CRYPTO_load_u64_be_def)
  qed
  from sha2_block_fips [OF assms(1) _ _ _ this, of "replicate 16 0" 80 sha512_params]
  show ?thesis by (simp add: sha512_compress_def sha512_params_fips)
qed

lemma length_sha512_compress: "length H = 8 \<Longrightarrow> length (sha512_compress H B) = 8"
  by (simp add: sha512_compress_def length_compress)

lemma sha512_blocks:
  "length H = 8 \<Longrightarrow> n * 128 \<le> length data \<Longrightarrow>
   sha512_block_data_order H data n = chain sha512_compress 128 H (take (n * 128) data)"
proof (induction n arbitrary: H data)
  case 0
  then show ?case by (simp add: chain_short)
next
  case (Suc n)
  then show ?case using chain_blocks_step [of 128 n data sha512_compress H]
    by (simp add: sha512_one length_sha512_compress)
qed

interpretation sha512: block_digest sha512_block_data_order sha512_compress 128 "\<lambda>hs. length hs = 8"
  by unfold_locales (simp_all add: sha512_blocks length_sha512_compress)

definition sha512_rep :: "u64 list \<Rightarrow> bytes \<Rightarrow> sha512_ctx \<Rightarrow> bool" where
  "sha512_rep iv M c \<longleftrightarrow>
     sha_h c = chain sha512_compress 128 iv M \<and> sha_num c = length M mod 128 \<and> length (sha_p c) = 128 \<and>
     take (sha_num c) (sha_p c) = residue 128 M \<and>
     unat (sha_Nh c) * 2 ^ 64 + unat (sha_Nl c) = (8 * length M) mod 2 ^ 128"

lemma sha512_tail_rep:
  assumes iv: "length iv = 8" and "sha_h c = chain sha512_compress 128 iv M" and "sha_num c = 0" and "length (sha_p c) = 128"
    and "128 dvd length M"
    and "unat (sha_Nh c) * 2 ^ 64 + unat (sha_Nl c) = (8 * (length M + length inp)) mod 2 ^ 128"
  shows "sha512_rep iv (M @ inp) (sha512_tail c inp)"
proof -
  let ?r = "residue 128 (M @ inp)"
  note t = sha512.tail_blocks [OF assms(5), of iv inp, OF iv]
  have ge: "128 \<le> length inp \<longleftrightarrow> 0 < length inp div 128" by (auto simp: div_greater_zero_iff)
  have d: "(if 128 \<le> length inp then drop (length inp - length inp mod 128) inp else inp) = ?r"
    using t(2) unfolding ge minus_mod_eq_div_mult .
  define c1 where "c1 = (if 128 \<le> length inp then c\<lparr>sha_h := sha512_block_data_order (sha_h c) inp (length inp div 128)\<rparr> else c)"
  have "sha_h c1 = (if 0 < length inp div 128 then sha512_block_data_order (sha_h c) inp (length inp div 128) else sha_h c)"
    by (simp add: c1_def ge)
  then have h: "sha_h c1 = chain sha512_compress 128 iv (M @ inp)" unfolding assms(2) t(1) .
  have c1: "sha_num c1 = 0" "length (sha_p c1) = 128" "sha_Nh c1 = sha_Nh c" "sha_Nl c1 = sha_Nl c"
    using assms(3,4) by (simp_all add: c1_def)
  have run: "sha512_tail c inp =
      (if length ?r \<noteq> 0 then c1\<lparr>sha_p := memcpy_at (sha_p c1) 0 ?r, sha_num := length ?r\<rparr> else c1)"
    unfolding sha512_tail_def Let_def d c1_def [symmetric] ..
  have lr: "length ?r < 128" using length_residue [of 128 "M @ inp"] by simp
  have sp: "take (length ?r) (memcpy_at (sha_p c1) 0 ?r) = ?r" "length (memcpy_at (sha_p c1) 0 ?r) = 128"
    using take_memcpy_at [of 0 "sha_p c1" ?r] length_memcpy_at [of 0 ?r "sha_p c1"] c1(2) lr by simp_all
  show ?thesis
    unfolding sha512_rep_def run using c1 h sp assms(6) t(3) by auto
qed

lemma sha512_update_rep:
  assumes iv: "length iv = 8" and rep: "sha512_rep iv M c"
  shows "sha512_rep iv (M @ inp) (SHA512_Update c inp)"
proof (cases "inp = []")
  case True
  then show ?thesis using rep by (simp add: SHA512_Update_def)
next
  case False
  let ?len = "length inp" and ?n = "sha_num c"
  define l where "l = sha_Nl c + push_bit 3 (of_nat ?len)"
  define c1 where "c1 = (let c = (if l < sha_Nl c then c\<lparr>sha_Nh := sha_Nh c + 1\<rparr> else c)
    in c\<lparr>sha_Nh := sha_Nh c + of_nat (?len div 2 ^ 61), sha_Nl := l\<rparr>)"
  have N: "unat (sha_Nh c1) * 2 ^ 64 + unat (sha_Nl c1) = (8 * (length M + ?len)) mod 2 ^ 128"
    using bits_count [OF l_def _ _, of 64 "sha_Nh c" "length M"] rep
    by (auto simp: c1_def Let_def sha512_rep_def if_distrib cong: if_cong)
  have c1: "sha_h c1 = sha_h c" "sha_num c1 = ?n" "sha_p c1 = sha_p c" by (simp_all add: c1_def Let_def)
  have n: "?n = length M mod 128" "take ?n (sha_p c) = residue 128 M" "length (sha_p c) = 128"
    "sha_h c = chain sha512_compress 128 iv M"
    using rep by (auto simp: sha512_rep_def)
  have n128: "?n < 128" unfolding n(1) by simp
  let ?p = "memcpy_at (sha_p c1) ?n (take (128 - ?n) inp)"
  have run: "SHA512_Update c inp =
      (if ?n \<noteq> 0 then
         if ?len < 128 - ?n then c1\<lparr>sha_p := memcpy_at (sha_p c1) ?n inp, sha_num := ?n + ?len\<rparr>
         else sha512_tail (c1\<lparr>sha_p := ?p, sha_num := 0, sha_h := sha512_block_data_order (sha_h c1) ?p 1\<rparr>)
                (drop (128 - ?n) inp)
       else sha512_tail c1 inp)"
    using False unfolding SHA512_Update_def by (simp add: Let_def l_def [symmetric] c1_def)
  consider (direct) "?n = 0" | (fill) "?n \<noteq> 0" "128 \<le> ?len + ?n" | (short) "?n \<noteq> 0" "?len + ?n < 128" by linarith
  then show ?thesis
  proof cases
    case direct
    have "128 dvd length M" using direct n(1) by (simp add: dvd_eq_mod_eq_0)
    from sha512_tail_rep [OF iv _ _ _ this N] show ?thesis using direct c1 n by (simp add: run)
  next
    case fill
    note f = sha512.fill_block [OF iv n(1-3) fill(2)]
    have tot: "length (M @ take (128 - ?n) inp) + length (drop (128 - ?n) inp) = length M + ?len" using fill n128 by simp
    have lp: "length ?p = 128" using length_memcpy_at [of ?n "take (128 - ?n) inp" "sha_p c1"] c1 n n128 by simp
    have "sha512_rep iv ((M @ take (128 - ?n) inp) @ drop (128 - ?n) inp)
        (sha512_tail (c1\<lparr>sha_p := ?p, sha_num := 0, sha_h := sha512_block_data_order (sha_h c1) ?p 1\<rparr>)
          (drop (128 - ?n) inp))"
      by (rule sha512_tail_rep [OF iv _ _ _ f(2)]) (use f(1) c1 n(4) lp N [folded tot] in simp_all)
    moreover have "\<not> ?len < 128 - ?n" using fill n128 by simp
    ultimately show ?thesis using fill(1) by (simp add: run del: drop_append)
  next
    case short
    then have "?len < 128 - ?n" by simp
    then show ?thesis
      using short(1) c1 sha512.short_input [OF n(1-3) short(2)] N n(4) by (simp add: run sha512_rep_def)
  qed
qed

text \<open>The digest of a message, and the 128 bit length field.\<close>

definition sha512_digest :: "u64 list \<Rightarrow> nat \<Rightarrow> bytes \<Rightarrow> bytes" where
  "sha512_digest iv n M =
     concat (map (\<lambda>w. be_bytes 8 (unat w))
       (take n (chain sha512_compress 128 iv (md_padded 128 (be_bytes 16 ((8 * length M) mod 2 ^ 128)) M))))"

lemma be_bytes_split: "be_bytes (m + k) n = be_bytes m (n div 256 ^ k) @ be_bytes k n"
proof (induction k arbitrary: n)
  case (Suc k)
  then show ?case by (simp add: div_mult2_eq [symmetric] mult.commute)
qed simp

lemma sha512_final:
  assumes iv: "length iv = 8" and rep: "sha512_rep iv M c" and len: "sha_len c = 8 * n" "n \<le> 8"
  shows "fst (sha512_final_impl c) = sha512_digest iv n M"
proof -
  let ?n = "sha_num c"
  have n: "length (sha_p c) = 128" "take ?n (sha_p c) = residue 128 M" "?n = length M mod 128"
    "sha_h c = chain sha512_compress 128 iv M"
    "unat (sha_Nh c) * 2 ^ 64 + unat (sha_Nl c) = (8 * length M) mod 2 ^ 128"
    using rep by (auto simp: sha512_rep_def)
  let ?F1 = "CRYPTO_store_u64_be (sha_Nh c)" and ?F2 = "CRYPTO_store_u64_be (sha_Nl c)"
  have F: "length ?F1 = 8" "length ?F2 = 8" by (simp_all add: store_be_bytes_64)
  have l64: "unat (sha_Nl c) < 2 ^ 64" using unsigned_less [of "sha_Nl c", where 'a = nat] by simp
  have field: "?F1 @ ?F2 = be_bytes 16 ((8 * length M) mod 2 ^ 128)"
    using be_bytes_split [of 8 8 "unat (sha_Nh c) * 2 ^ 64 + unat (sha_Nl c)"]
      be_bytes_mod [of 8 "unat (sha_Nh c) * 2 ^ 64 + unat (sha_Nl c)"] l64
    unfolding n(5) [symmetric] by (simp add: store_be_bytes_64)
  let ?fin = "\<lambda>d. memcpy_at (memcpy_at d 112 ?F1) 120 ?F2"
  have fin: "?fin d = take (128 - 16) d @ ?F1 @ ?F2" if "length d = 128" for d
    using that F by (simp add: memcpy_at_def)
  define hs where "hs = (let d = memcpy_at (sha_p c) ?n [0x80]; n = ?n + 1; full = 128 - 16 < n;
           d = (if full then memcpy_at d n (replicate (128 - n) 0) else d);
           n' = (if full then 0 else n);
           hs = (if full then sha512_block_data_order (chain sha512_compress 128 iv M) d 1 else chain sha512_compress 128 iv M);
           d = ?fin (memcpy_at d n' (replicate (128 - 16 - n') 0))
         in sha512_block_data_order hs d 1)"
  have hs: "hs = chain sha512_compress 128 iv (md_padded 128 (?F1 @ ?F2) M)"
    unfolding hs_def by (rule sha512.final_blocks [OF iv n(1-3)]) (simp_all add: F fin)
  have "length hs = 8" unfolding hs using sha512.ok_chain [OF iv] .
  moreover have "fst (sha512_final_impl c) = concat (map (\<lambda>i. CRYPTO_store_u64_be (hs ! i)) [0..<n])"
    by (simp add: sha512_final_impl_def hs_def Let_def n(4) len(1))
  ultimately show ?thesis
    unfolding sha512_digest_def field [symmetric] hs [symmetric]
    using len(2) map_nth_take [of n hs "\<lambda>w. be_bytes 8 (unat w)"] by (simp add: store_be_bytes_64)
qed

lemma sha512_rep_run:
  assumes "length iv = 8" and "length junk = 128"
  shows "sha512_rep iv (concat xs) (foldl SHA512_Update (sha512_start iv n junk) xs)"
proof (induction xs rule: rev_induct)
  case Nil
  then show ?case using assms by (simp add: sha512_rep_def chain_short sha512_start_def)
next
  case (snoc x xs)
  then show ?case using sha512_update_rep [OF assms(1) snoc, of x] by simp
qed

lemma sha512_update_len: "sha_len (SHA512_Update c x) = sha_len c"
  by (simp add: SHA512_Update_def sha512_tail_def Let_def)

lemma sha512_update_lens: "sha_len (foldl SHA512_Update c xs) = sha_len c"
  by (induction xs arbitrary: c) (simp_all add: sha512_update_len)

text \<open>
  C14: SHA-256 and SHA-224 in any number of \<open>Update\<close> calls, of any sizes: the digest is the one
  FIPS 180-4 assigns to the concatenated message, with its padding, full message schedule and
  rotations, whatever way the code buffers and unrolls.
\<close>

theorem sha256_streaming:
  "fst (SHA256_Final (foldl SHA256_Update SHA256_Init xs)) = Some (sha256_digest fips256_iv 8 (concat xs)) \<and>
   fst (SHA224_Final (foldl SHA224_Update SHA224_Init xs)) = Some (sha256_digest fips224_iv 7 (concat xs))"
proof -
  have u: "SHA224_Update = SHA256_Update" by (intro ext) (simp add: SHA224_Update_def)
  show ?thesis
    using sha256_final [of "md_h SHA256_Init" 8 xs] sha256_final [of "md_h SHA224_Init" 7 xs]
    unfolding u SHA256_Final_def SHA224_Final_def fips_tables(5) sha224_iv [symmetric] by (simp add: SHA256_Init_def SHA224_Init_def)
qed

text \<open>
  C15: the same for SHA-512, SHA-384 and SHA-512/256, whatever the uninitialised buffer held.
\<close>

theorem sha512_streaming:
  assumes "length junk = 128"
  shows "fst (SHA512_Final (foldl SHA512_Update (SHA512_Init junk) xs)) = sha512_digest fips512_iv 8 (concat xs) \<and>
    fst (SHA384_Final (foldl SHA384_Update (SHA384_Init junk) xs)) = sha512_digest fips384_iv 6 (concat xs) \<and>
    fst (SHA512_256_Final (foldl SHA512_256_Update (SHA512_256_Init junk) xs)) =
      sha512_digest fips512_256_iv 4 (concat xs)"
proof -
  have u: "SHA384_Update = SHA512_Update" "SHA512_256_Update = SHA512_Update"
    by (intro ext, simp add: SHA384_Update_def SHA512_256_Update_def)+
  have "fst (sha512_final_impl (foldl SHA512_Update (sha512_start iv (8 * n) junk) xs)) = sha512_digest iv n (concat xs)"
    if "length iv = 8" "n \<le> 8" for iv n
    by (rule sha512_final [OF that(1) sha512_rep_run [OF that(1) assms]]) (use that in \<open>simp_all add: sha512_update_lens sha512_start_def\<close>)
  from this [of "sha_h (SHA512_Init [])" 8] this [of "sha_h (SHA384_Init [])" 6] this [of "sha_h (SHA512_256_Init [])" 4]
  show ?thesis
    unfolding fips_tables(3,4) [of "[]"] sha512_256_iv [of "[]", symmetric]
    by (simp add: u SHA512_Final_def SHA384_Final_def SHA512_256_Final_def SHA512_Init_def SHA384_Init_def
        SHA512_256_Init_def) (simp add: sha512_start_def)
qed

theorem sha512_streaming_witness:
  "fst (SHA512_Final (foldl SHA512_Update (SHA512_Init (replicate 128 0)) [[1], [2, 3]])) =
     sha512_digest fips512_iv 8 [1, 2, 3]"
  using sha512_streaming [of "replicate 128 0" "[[1], [2, 3]]"] by simp

text \<open>
  C33: the constants of the code are the numbers the standard takes from the primes. The 80 words of
  \<open>K512\<close> are the fractions of the cube roots of the first 80 primes, in 64 bits, the 64 words of
  \<open>K256\<close> the same in 32 bits; the initial values of SHA-512 and SHA-256 are the fractions of the
  square roots of the first eight, those of SHA-384 of the next eight, and those of SHA-224 are the
  low halves of the latter.
\<close>

theorem sha2_constants:
  "list_all2 (\<lambda>p k. root_fraction 3 64 p (unat k)) primes_80 K512 \<and>
   list_all2 (\<lambda>p k. root_fraction 3 32 p (unat k)) (take 64 primes_80) K256 \<and>
   list_all2 (\<lambda>p h. root_fraction 2 64 p (unat h)) (take 8 primes_80) (sha_h (SHA512_Init junk)) \<and>
   list_all2 (\<lambda>p h. root_fraction 2 32 p (unat h)) (take 8 primes_80) (md_h SHA256_Init) \<and>
   list_all2 (\<lambda>p h. root_fraction 2 64 p (unat h)) (take 8 (drop 8 primes_80)) (sha_h (SHA384_Init junk)) \<and>
   md_h SHA224_Init = map ucast (sha_h (SHA384_Init junk))"
  by (intro conjI K512_roots K256_roots sha512_iv_roots sha256_iv_roots sha384_iv_roots sha224_halves)

end
