(* ===== verification/Ssl_Sha1.thy ===== *)
theory Ssl_Sha1
  imports Ssl_Sha2
begin

text \<open>
  SHA-1, \<open>crypto/fipsmodule/sha/sha1.c\<close>, against FIPS 180-4.
\<close>

section \<open>The block function\<close>

definition F_00_19 :: "u32 \<Rightarrow> u32 \<Rightarrow> u32 \<Rightarrow> u32" where
  "F_00_19 b c d = ((c XOR d) AND b) XOR d"

definition F_20_39 :: "u32 \<Rightarrow> u32 \<Rightarrow> u32 \<Rightarrow> u32" where
  "F_20_39 b c d = b XOR c XOR d"

definition F_40_59 :: "u32 \<Rightarrow> u32 \<Rightarrow> u32 \<Rightarrow> u32" where
  "F_40_59 b c d = (b AND c) OR ((b OR c) AND d)"

definition F_60_79 :: "u32 \<Rightarrow> u32 \<Rightarrow> u32 \<Rightarrow> u32" where
  "F_60_79 b c d = F_20_39 b c d"

definition K_00_19 :: u32 where "K_00_19 = 0x5a827999"
definition K_20_39 :: u32 where "K_20_39 = 0x6ed9eba1"
definition K_40_59 :: u32 where "K_40_59 = 0x8f1bbcdc"
definition K_60_79 :: u32 where "K_60_79 = 0xca62c1d6"

text \<open>
  The variables \<open>A\<close> to \<open>E\<close> and \<open>T\<close> are the list \<open>v\<close>, the words \<open>XX0\<close> to \<open>XX15\<close> the list \<open>X\<close>.
  Parameter \<open>j\<close> of the macro in round \<open>i\<close> is the variable at \<open>sha1_arg i j\<close>, and its \<open>xa\<close> to \<open>xd\<close>
  are the words at \<open>i\<close>, \<open>i + 2\<close>, \<open>i + 8\<close> and \<open>i + 13\<close>, modulo 16.
\<close>

definition sha1_arg :: "nat \<Rightarrow> nat \<Rightarrow> nat" where
  "sha1_arg i j = (j + 6 - i mod 6) mod 6"

definition BODY_00_15 :: "nat \<Rightarrow> u32 list \<Rightarrow> u32 \<Rightarrow> u32 list" where
  "BODY_00_15 i v xi =
     (let x = (\<lambda>v j. v ! sha1_arg i j);
          v = v[sha1_arg i 5 := xi + x v 4 + K_00_19 + CRYPTO_rotl_u32 (x v 0) 5 + F_00_19 (x v 1) (x v 2) (x v 3)]
      in v[sha1_arg i 1 := CRYPTO_rotl_u32 (x v 1) 30])"

definition Xupdate :: "u32 \<Rightarrow> u32 \<Rightarrow> u32 \<Rightarrow> u32 \<Rightarrow> u32" where
  "Xupdate ia ib ic xd = CRYPTO_rotl_u32 (ia XOR ib XOR ic XOR xd) 1"

definition sha1_BODY :: "u32 \<Rightarrow> (u32 \<Rightarrow> u32 \<Rightarrow> u32 \<Rightarrow> u32) \<Rightarrow> nat \<Rightarrow> u32 list \<times> u32 list \<Rightarrow> u32 list \<times> u32 list" where
  "sha1_BODY k F i s =
     (let (v, X) = s;
          x = (\<lambda>v j. v ! sha1_arg i j);
          f = Xupdate (X ! (i mod 16)) (X ! ((i + 2) mod 16)) (X ! ((i + 8) mod 16)) (X ! ((i + 13) mod 16));
          X = X[i mod 16 := f];
          v = v[sha1_arg i 5 := f + (x v 4 + k + CRYPTO_rotl_u32 (x v 0) 5 + F (x v 1) (x v 2) (x v 3))]
      in (v[sha1_arg i 1 := CRYPTO_rotl_u32 (x v 1) 30], X))"

definition BODY_16_19 :: "nat \<Rightarrow> u32 list \<times> u32 list \<Rightarrow> u32 list \<times> u32 list" where
  "BODY_16_19 = sha1_BODY K_00_19 F_00_19"

definition BODY_20_31 :: "nat \<Rightarrow> u32 list \<times> u32 list \<Rightarrow> u32 list \<times> u32 list" where
  "BODY_20_31 = sha1_BODY K_20_39 F_20_39"

definition BODY_32_39 :: "nat \<Rightarrow> u32 list \<times> u32 list \<Rightarrow> u32 list \<times> u32 list" where
  "BODY_32_39 = sha1_BODY K_20_39 F_20_39"

definition BODY_40_59 :: "nat \<Rightarrow> u32 list \<times> u32 list \<Rightarrow> u32 list \<times> u32 list" where
  "BODY_40_59 = sha1_BODY K_40_59 F_40_59"

definition BODY_60_79 :: "nat \<Rightarrow> u32 list \<times> u32 list \<Rightarrow> u32 list \<times> u32 list" where
  "BODY_60_79 = sha1_BODY K_60_79 F_60_79"

text \<open>
  One turn of \<open>for (;;)\<close>. The loads of the words come one round ahead of their use in the code.
  \<open>T\<close> and the words are written before they are read, zeros stand for what they hold.
\<close>

definition sha1_load_round :: "bytes \<Rightarrow> nat \<Rightarrow> u32 list \<times> u32 list \<Rightarrow> u32 list \<times> u32 list" where
  "sha1_load_round data i = (\<lambda>(v, X).
     let X = X[i := CRYPTO_load_u32_be (drop (4 * i) data)] in (BODY_00_15 i v (X ! i), X))"

definition sha1_block :: "u32 list \<Rightarrow> bytes \<Rightarrow> u32 list" where
  "sha1_block state data =
     (let s = fold (sha1_load_round data) [0..<16] (state @ [0], replicate 16 0);
          s = fold BODY_16_19 [16..<20] s;
          s = fold BODY_20_31 [20..<32] s;
          s = fold BODY_32_39 [32..<40] s;
          s = fold BODY_40_59 [40..<60] s;
          (v, X) = fold BODY_60_79 [60..<80] s
      in [state ! 0 + v ! 4, state ! 1 + v ! 5, state ! 2 + v ! 0, state ! 3 + v ! 1, state ! 4 + v ! 2])"

fun sha1_turns :: "u32 list \<Rightarrow> bytes \<Rightarrow> nat \<Rightarrow> u32 list" where
  "sha1_turns state data 0 = state"
| "sha1_turns state data (Suc n) = sha1_turns (sha1_block state data) (drop 64 data) n"

text \<open>\<open>if (--num == 0) break\<close> at the end of each turn: with \<open>num\<close> zero the counter wraps.\<close>

definition sha1_block_data_order :: "u32 list \<Rightarrow> bytes \<Rightarrow> nat \<Rightarrow> u32 list" where
  "sha1_block_data_order state data num = sha1_turns state data (if num = 0 then SIZE_LIMIT else num)"

section \<open>The digest\<close>

definition SHA1_Init :: md32_ctx where
  "SHA1_Init = md32_zero\<lparr>md_h := [0x67452301, 0xefcdab89, 0x98badcfe, 0x10325476, 0xc3d2e1f0]\<rparr>"

definition SHA1_Transform :: "md32_ctx \<Rightarrow> bytes \<Rightarrow> md32_ctx" where
  "SHA1_Transform c data = c\<lparr>md_h := sha1_block_data_order (md_h c) data 1\<rparr>"

definition SHA1_Update :: "md32_ctx \<Rightarrow> bytes \<Rightarrow> md32_ctx" where
  "SHA1_Update c data = crypto_md32_update sha1_block_data_order 64 c data"

definition SHA1_Final :: "md32_ctx \<Rightarrow> bytes \<times> md32_ctx" where
  "SHA1_Final c =
     (let c = crypto_md32_final sha1_block_data_order 64 c True
      in (CRYPTO_store_u32_be (md_h c ! 0) @ CRYPTO_store_u32_be (md_h c ! 1) @ CRYPTO_store_u32_be (md_h c ! 2) @
          CRYPTO_store_u32_be (md_h c ! 3) @ CRYPTO_store_u32_be (md_h c ! 4), c))"

definition SHA1 :: "bytes \<Rightarrow> bytes" where
  "SHA1 data = fst (SHA1_Final (SHA1_Update SHA1_Init data))"

section \<open>FIPS 180-4\<close>

fun sha1_W :: "u32 list \<Rightarrow> nat \<Rightarrow> u32" where
  "sha1_W M t =
     (if t < 16 then M ! t
      else word_rotl 1 (sha1_W M (t - 3) XOR sha1_W M (t - 8) XOR sha1_W M (t - 14) XOR sha1_W M (t - 16)))"
declare sha1_W.simps [simp del]

definition sha1_f :: "nat \<Rightarrow> u32 \<Rightarrow> u32 \<Rightarrow> u32 \<Rightarrow> u32" where
  "sha1_f t x y z =
     (if t < 20 then fips_Ch x y z else if t < 40 then x XOR y XOR z else if t < 60 then fips_Maj x y z else x XOR y XOR z)"

definition sha1_K :: "nat \<Rightarrow> u32" where
  "sha1_K t = (if t < 20 then 0x5a827999 else if t < 40 then 0x6ed9eba1 else if t < 60 then 0x8f1bbcdc else 0xca62c1d6)"

fun sha1_step :: "nat \<Rightarrow> u32 \<Rightarrow> u32 list \<Rightarrow> u32 list" where
  "sha1_step t w [a, b, c, d, e] = [word_rotl 5 a + sha1_f t b c d + e + sha1_K t + w, a, word_rotl 30 b, c, d]"
| "sha1_step t w _ = []"

definition sha1_compress :: "u32 list \<Rightarrow> bytes \<Rightarrow> u32 list" where
  "sha1_compress H B = map2 (+) H (fold (\<lambda>t. sha1_step t (sha1_W (be_words 4 B) t)) [0..<80] H)"

section \<open>The code computes it\<close>

lemma rotl_u32: "0 < n \<Longrightarrow> n < 32 \<Longrightarrow> CRYPTO_rotl_u32 v n = word_rotl n v"
proof -
  assume n: "0 < n" "n < 32"
  have "word_rotl n v = word_rotr (32 - n) v" using n by (simp add: word_rotl_eq_word_rotr)
  also have "\<dots> = drop_bit (32 - n) v OR push_bit n v" using rotr_or [of "32 - n" v] n by simp
  finally show ?thesis using n by (simp add: CRYPTO_rotl_u32_def or.commute)
qed

lemma F_Ch: "F_00_19 b c d = fips_Ch b c d"
  by (rule bit_word_eqI) (auto simp: F_00_19_def fips_Ch_def bit_simps)

lemma F_Maj: "F_40_59 b c d = fips_Maj b c d"
  by (rule bit_word_eqI) (auto simp: F_40_59_def fips_Maj_def bit_simps)

definition sha1_view :: "nat \<Rightarrow> u32 list \<Rightarrow> u32 list" where
  "sha1_view i v = map (\<lambda>j. v ! sha1_arg i j) [0..<5]"

lemma six: "length v = 6 \<Longrightarrow> \<exists>a b c d e f. v = [a, b, c, d, e, f]"
  by (auto simp: numeral_eq_Suc length_Suc_conv)

lemma upt5: "[0..<5] = [0, 1, 2, 3, 4 :: nat]"
  by (simp add: upt_rec)

text \<open>The round all macros are, and what it is to the standard's variables.\<close>

definition sha1_round :: "u32 \<Rightarrow> (u32 \<Rightarrow> u32 \<Rightarrow> u32 \<Rightarrow> u32) \<Rightarrow> nat \<Rightarrow> u32 \<Rightarrow> u32 list \<Rightarrow> u32 list" where
  "sha1_round k F i w v =
     (let x = (\<lambda>v j. v ! sha1_arg i j);
          v = v[sha1_arg i 5 := w + (x v 4 + k + word_rotl 5 (x v 0) + F (x v 1) (x v 2) (x v 3))]
      in v[sha1_arg i 1 := word_rotl 30 (x v 1)])"

lemma sha1_round_length: "length v = 6 \<Longrightarrow> length (sha1_round k F i w v) = 6"
  by (simp add: sha1_round_def Let_def)

lemma sha1_round_view:
  assumes "length v = 6" and "k = sha1_K i" and "F = sha1_f i"
  shows "sha1_view (Suc i) (sha1_round k F i w v) = sha1_step i w (sha1_view i v)"
proof -
  obtain a b c d e f where v: "v = [a, b, c, d, e, f]" using six [OF assms(1)] by blast
  have s: "Suc i mod 6 = (if i mod 6 = 5 then 0 else Suc (i mod 6))" by (simp add: mod_Suc)
  consider "i mod 6 = 0" | "i mod 6 = 1" | "i mod 6 = 2" | "i mod 6 = 3" | "i mod 6 = 4" | "i mod 6 = 5"
    using mod_less_divisor [of 6 i] by linarith
  then show ?thesis
    by cases (simp_all add: v sha1_view_def upt5 sha1_arg_def s sha1_round_def Let_def ac_simps assms(2,3))
qed

lemma BODY_00_15_round: "BODY_00_15 i v w = sha1_round K_00_19 F_00_19 i w v"
  by (simp add: BODY_00_15_def sha1_round_def rotl_u32 add.assoc)

definition sha1_inv :: "u32 list \<Rightarrow> u32 list \<Rightarrow> nat \<Rightarrow> u32 list \<times> u32 list \<Rightarrow> bool" where
  "sha1_inv M H i s \<longleftrightarrow>
     length (fst s) = 6 \<and> length (snd s) = 16 \<and>
     sha1_view i (fst s) = fold (\<lambda>t. sha1_step t (sha1_W M t)) [0..<i] H \<and>
     (\<forall>t. t < i \<and> i \<le> t + 16 \<longrightarrow> snd s ! (t mod 16) = sha1_W M t)"

lemma sha1_BODY_inv:
  assumes inv: "sha1_inv M H i s" and i: "16 \<le> i" and k: "k = sha1_K i" "F = sha1_f i"
  shows "sha1_inv M H (Suc i) (sha1_BODY k F i s)"
proof -
  obtain v X where s: "s = (v, X)" by (cases s)
  have X: "X ! (t mod 16) = sha1_W M t" if "t < i" "i \<le> t + 16" for t
    using inv that by (simp add: sha1_inv_def s)
  have sh: "(i + 2) mod 16 = (i - 14) mod 16" "(i + 8) mod 16 = (i - 8) mod 16" "(i + 13) mod 16 = (i - 3) mod 16"
    "i mod 16 = (i - 16) mod 16"
  proof -
    obtain k where k: "i = k + 16" using i by (metis add.commute le_Suc_ex)
    show "(i + 2) mod 16 = (i - 14) mod 16" "(i + 8) mod 16 = (i - 8) mod 16" "(i + 13) mod 16 = (i - 3) mod 16"
      "i mod 16 = (i - 16) mod 16"
      using mod_add_self2 [of "k + 2" 16] mod_add_self2 [of "k + 8" 16] mod_add_self2 [of "k + 13" 16]
        mod_add_self2 [of k 16]
      unfolding k by (simp_all add: ac_simps)
  qed
  have "Xupdate (X ! (i mod 16)) (X ! ((i + 2) mod 16)) (X ! ((i + 8) mod 16)) (X ! ((i + 13) mod 16)) = sha1_W M i"
    unfolding sh using i X [of "i - 14"] X [of "i - 8"] X [of "i - 3"] X [of "i - 16"]
    by (simp add: sha1_W.simps [of M i] Xupdate_def rotl_u32 ac_simps)
  then have T: "sha1_BODY k F i s = (sha1_round k F i (sha1_W M i) v, X[i mod 16 := sha1_W M i])"
    by (simp add: sha1_BODY_def s sha1_round_def rotl_u32 Let_def)
  have "X[i mod 16 := sha1_W M i] ! (t mod 16) = sha1_W M t" if "t < Suc i" "Suc i \<le> t + 16" for t
    using that X [of t] mod16_inj [of t i] inv by (cases "t = i") (auto simp: sha1_inv_def s)
  then show ?thesis
    using inv k unfolding T by (auto simp: sha1_inv_def s sha1_round_length sha1_round_view)
qed

lemma sha1_fold_inv:
  assumes "sha1_inv M H i s" and "16 \<le> i" and "\<And>t. i \<le> t \<Longrightarrow> t < i + n \<Longrightarrow> k = sha1_K t \<and> F = sha1_f t"
  shows "sha1_inv M H (i + n) (fold (sha1_BODY k F) [i..<i + n] s)"
  using assms(3)
proof (induction n)
  case 0
  then show ?case using assms(1) by simp
next
  case (Suc n)
  have u: "[i..<i + Suc n] = [i..<i + n] @ [i + n]" by (simp only: add_Suc_right upt_Suc_append le_add1)
  have IH: "sha1_inv M H (i + n) (fold (sha1_BODY k F) [i..<i + n] s)"
    by (rule Suc.IH) (use Suc.prems in simp)
  have "k = sha1_K (i + n)" "F = sha1_f (i + n)" using Suc.prems [of "i + n"] by simp_all
  from sha1_BODY_inv [OF IH _ this] assms(2) show ?case unfolding u by simp
qed

lemma sha1_load_step:
  assumes "sha1_inv M H n s" and "CRYPTO_load_u32_be (drop (4 * n) data) = M ! n" and "n < 16"
  shows "sha1_inv M H (Suc n) (sha1_load_round data n s)"
proof -
  obtain v X where s: "s = (v, X)" by (cases s)
  have W: "sha1_W M n = M ! n" using assms(3) by (simp add: sha1_W.simps)
  have "F_00_19 = fips_Ch" by (intro ext) (rule F_Ch)
  moreover have "fips_Ch = sha1_f n" using assms(3) by (intro ext) (simp add: sha1_f_def)
  ultimately have k: "K_00_19 = sha1_K n" "F_00_19 = sha1_f n"
    using assms(3) by (simp_all add: sha1_K_def K_00_19_def)
  show ?thesis
    using assms k
    by (auto simp: s sha1_load_round_def sha1_inv_def BODY_00_15_round sha1_round_length sha1_round_view W
      nth_list_update less_Suc_eq Let_def)
qed

lemma sha1_load_inv:
  assumes "length H = 5" and "\<And>i. i < 16 \<Longrightarrow> CRYPTO_load_u32_be (drop (4 * i) data) = M ! i" and "n \<le> 16"
  shows "sha1_inv M H n (fold (sha1_load_round data) [0..<n] (H @ [0], replicate 16 0))"
  using assms(3)
proof (induction n)
  case 0
  have "sha1_view 0 (H @ [0]) = H"
    by (rule nth_equalityI) (use assms(1) in \<open>auto simp: sha1_view_def sha1_arg_def nth_append\<close>)
  then show ?case using assms(1) by (simp add: sha1_inv_def)
next
  case (Suc n)
  then show ?case using sha1_load_step assms(2) by simp
qed

lemma sha1_one:
  assumes "length H = 5" and "64 \<le> length data"
  shows "sha1_block H data = sha1_compress H (take 64 data)"
proof -
  let ?M = "be_words 4 (take 64 data)"
  have load: "CRYPTO_load_u32_be (drop (4 * i) data) = ?M ! i" if "i < 16" for i
    by (rule load_word_32 [OF that assms(2)])
  note k = sha1_K_def sha1_f_def K_00_19_def K_20_39_def K_40_59_def K_60_79_def F_20_39_def F_60_79_def F_Ch F_Maj
  let ?s0 = "fold (sha1_load_round data) [0..<16] (H @ [0], replicate 16 0)"
  have s0: "sha1_inv ?M H 16 ?s0" by (rule sha1_load_inv [OF assms(1) load]) simp_all
  let ?s1 = "fold BODY_16_19 [16..<20] ?s0"
  have s1: "sha1_inv ?M H 20 ?s1"
    using sha1_fold_inv [OF s0, of 4 K_00_19 F_00_19] by (simp add: BODY_16_19_def k fun_eq_iff)
  let ?s2 = "fold BODY_20_31 [20..<32] ?s1"
  have s2: "sha1_inv ?M H 32 ?s2"
    using sha1_fold_inv [OF s1, of 12 K_20_39 F_20_39] by (simp add: BODY_20_31_def k fun_eq_iff)
  let ?s3 = "fold BODY_32_39 [32..<40] ?s2"
  have s3: "sha1_inv ?M H 40 ?s3"
    using sha1_fold_inv [OF s2, of 8 K_20_39 F_20_39] by (simp add: BODY_32_39_def k fun_eq_iff)
  let ?s4 = "fold BODY_40_59 [40..<60] ?s3"
  have s4: "sha1_inv ?M H 60 ?s4"
    using sha1_fold_inv [OF s3, of 20 K_40_59 F_40_59] by (simp add: BODY_40_59_def k fun_eq_iff)
  let ?s5 = "fold BODY_60_79 [60..<80] ?s4"
  have s5: "sha1_inv ?M H 80 ?s5"
    using sha1_fold_inv [OF s4, of 20 K_60_79 F_60_79] by (simp add: BODY_60_79_def k fun_eq_iff)
  obtain v X where vX: "?s5 = (v, X)" by (cases ?s5)
  have fold: "sha1_view 80 v = fold (\<lambda>t. sha1_step t (sha1_W ?M t)) [0..<80] H"
    using s5 unfolding vX by (simp add: sha1_inv_def)
  have view: "sha1_view 80 v = [v ! 4, v ! 5, v ! 0, v ! 1, v ! 2]"
    by (simp add: sha1_view_def upt5 sha1_arg_def)
  obtain a b c d e where H: "H = [a, b, c, d, e]"
    using assms(1) by (auto simp: numeral_eq_Suc length_Suc_conv)
  have "sha1_block H data = [H ! 0 + v ! 4, H ! 1 + v ! 5, H ! 2 + v ! 0, H ! 3 + v ! 1, H ! 4 + v ! 2]"
    using vX unfolding sha1_block_def Let_def by (simp only: prod.case)
  also have "\<dots> = map2 (+) H (sha1_view 80 v)" by (simp add: view H)
  also have "\<dots> = sha1_compress H (take 64 data)" unfolding sha1_compress_def fold [symmetric] ..
  finally show ?thesis .
qed

lemma length_sha1_step: "length v = 5 \<Longrightarrow> length (sha1_step t w v) = 5"
  by (cases "(t, w, v)" rule: sha1_step.cases) auto

lemma length_sha1_compress: "length H = 5 \<Longrightarrow> length (sha1_compress H B) = 5"
proof -
  have "length H = 5 \<Longrightarrow> length (fold (\<lambda>t. sha1_step t (g t)) ts H) = 5" for g ts
    by (induction ts arbitrary: H) (simp_all add: length_sha1_step)
  then show "length H = 5 \<Longrightarrow> length (sha1_compress H B) = 5" by (simp add: sha1_compress_def)
qed

lemma sha1_blocks:
  "length H = 5 \<Longrightarrow> n * 64 \<le> length data \<Longrightarrow> sha1_turns H data n = chain sha1_compress 64 H (take (n * 64) data)"
proof (induction n arbitrary: H data)
  case 0
  then show ?case by (simp add: chain_short)
next
  case (Suc n)
  then show ?case using chain_blocks_step [of 64 n data sha1_compress H]
    by (simp add: sha1_one length_sha1_compress)
qed

interpretation sha1: md32_digest sha1_block_data_order sha1_compress "\<lambda>hs. length hs = 5"
  by unfold_locales (simp_all add: sha1_blocks length_sha1_compress sha1_block_data_order_def)

definition sha1_digest :: "bytes \<Rightarrow> bytes" where
  "sha1_digest M =
     concat (map (\<lambda>w. be_bytes 4 (unat w))
       (chain sha1_compress 64 [0x67452301, 0xefcdab89, 0x98badcfe, 0x10325476, 0xc3d2e1f0]
         (md_padded 64 (md_length_field True (length M)) M)))"

text \<open>
  C32: SHA-1 over any sequence of \<open>SHA1_Update\<close> calls is the FIPS 180-4 digest of the concatenated
  message, for the unrolled rounds with their six rotating variables and sixteen rotating words.
\<close>

theorem sha1_streaming: "fst (SHA1_Final (foldl SHA1_Update SHA1_Init xs)) = sha1_digest (concat xs)"
proof -
  let ?iv = "[0x67452301, 0xefcdab89, 0x98badcfe, 0x10325476, 0xc3d2e1f0] :: u32 list"
  let ?H = "chain sha1_compress 64 ?iv (md_padded 64 (md_length_field True (length (concat xs))) (concat xs))"
  have u: "SHA1_Update = crypto_md32_update sha1_block_data_order 64" by (intro ext) (simp add: SHA1_Update_def)
  have i: "SHA1_Init = md32_zero\<lparr>md_h := ?iv, md_len := 0\<rparr>" by (simp add: SHA1_Init_def md32_zero_def)
  have iv: "length ?iv = 5" by simp
  have "length ?H = 5" by (rule sha1.ok_chain [OF iv])
  then obtain a b c d e where H: "?H = [a, b, c, d, e]" by (auto simp: numeral_eq_Suc length_Suc_conv)
  have "md_h (crypto_md32_final sha1_block_data_order 64 (foldl SHA1_Update SHA1_Init xs) True) = [a, b, c, d, e]"
    unfolding u i sha1.stream_final [OF iv] H ..
  then show ?thesis unfolding sha1_digest_def H by (simp add: SHA1_Final_def Let_def store_be_bytes)
qed

end
