(* ===== verification/Ssl_Md.thy ===== *)
theory Ssl_Md
  imports Ssl_Sha1
begin

text \<open>
  MD5 and MD4, \<open>crypto/fipsmodule/md5/md5.c\<close> and \<open>md4/md4.c\<close>, against RFC 1321 and RFC 1320.
\<close>

unbundle bit_operations_syntax

section \<open>Rounds\<close>

text \<open>
  The variables \<open>A\<close> to \<open>D\<close> are the list \<open>v\<close>. Step \<open>i\<close> of a round passes them shifted by \<open>i\<close> places:
  parameter \<open>j\<close> of its macro is the variable at \<open>md_arg i j\<close>. A step assigns its first parameter.
\<close>

definition md_arg :: "nat \<Rightarrow> nat \<Rightarrow> nat" where
  "md_arg i j = (j + 4 - i mod 4) mod 4"

definition md_assign :: "(u32 \<Rightarrow> u32 \<Rightarrow> u32 \<Rightarrow> u32 \<Rightarrow> u32) \<Rightarrow> nat \<Rightarrow> u32 list \<Rightarrow> u32 list" where
  "md_assign f i v = v[md_arg i 0 := f (v ! md_arg i 0) (v ! md_arg i 1) (v ! md_arg i 2) (v ! md_arg i 3)]"

section \<open>MD5\<close>

definition md5_F :: "u32 \<Rightarrow> u32 \<Rightarrow> u32 \<Rightarrow> u32" where
  "md5_F b c d = ((c XOR d) AND b) XOR d"

definition md5_G :: "u32 \<Rightarrow> u32 \<Rightarrow> u32 \<Rightarrow> u32" where
  "md5_G b c d = ((b XOR c) AND d) XOR c"

definition md5_H :: "u32 \<Rightarrow> u32 \<Rightarrow> u32 \<Rightarrow> u32" where
  "md5_H b c d = b XOR c XOR d"

definition md5_I :: "u32 \<Rightarrow> u32 \<Rightarrow> u32 \<Rightarrow> u32" where
  "md5_I b c d = (NOT d OR b) XOR c"

definition md5_R0 :: "u32 \<Rightarrow> nat \<Rightarrow> u32 \<Rightarrow> u32 \<Rightarrow> u32 \<Rightarrow> u32 \<Rightarrow> u32 \<Rightarrow> u32" where
  "md5_R0 k s t a b c d = (let a = a + (k + t + md5_F b c d); a = CRYPTO_rotl_u32 a s in a + b)"

definition md5_R1 :: "u32 \<Rightarrow> nat \<Rightarrow> u32 \<Rightarrow> u32 \<Rightarrow> u32 \<Rightarrow> u32 \<Rightarrow> u32 \<Rightarrow> u32" where
  "md5_R1 k s t a b c d = (let a = a + (k + t + md5_G b c d); a = CRYPTO_rotl_u32 a s in a + b)"

definition md5_R2 :: "u32 \<Rightarrow> nat \<Rightarrow> u32 \<Rightarrow> u32 \<Rightarrow> u32 \<Rightarrow> u32 \<Rightarrow> u32 \<Rightarrow> u32" where
  "md5_R2 k s t a b c d = (let a = a + (k + t + md5_H b c d); a = CRYPTO_rotl_u32 a s in a + b)"

definition md5_R3 :: "u32 \<Rightarrow> nat \<Rightarrow> u32 \<Rightarrow> u32 \<Rightarrow> u32 \<Rightarrow> u32 \<Rightarrow> u32 \<Rightarrow> u32" where
  "md5_R3 k s t a b c d = (let a = a + (k + t + md5_I b c d); a = CRYPTO_rotl_u32 a s in a + b)"

text \<open>The steps of the four rounds: the word of the block, the shift, the constant.\<close>

definition md5_round0 :: "(nat \<times> nat \<times> u32) list" where
  "md5_round0 =
     [(0, 7, 0xd76aa478), (1, 12, 0xe8c7b756), (2, 17, 0x242070db), (3, 22, 0xc1bdceee),
      (4, 7, 0xf57c0faf), (5, 12, 0x4787c62a), (6, 17, 0xa8304613), (7, 22, 0xfd469501),
      (8, 7, 0x698098d8), (9, 12, 0x8b44f7af), (10, 17, 0xffff5bb1), (11, 22, 0x895cd7be),
      (12, 7, 0x6b901122), (13, 12, 0xfd987193), (14, 17, 0xa679438e), (15, 22, 0x49b40821)]"

definition md5_round1 :: "(nat \<times> nat \<times> u32) list" where
  "md5_round1 =
     [(1, 5, 0xf61e2562), (6, 9, 0xc040b340), (11, 14, 0x265e5a51), (0, 20, 0xe9b6c7aa),
      (5, 5, 0xd62f105d), (10, 9, 0x02441453), (15, 14, 0xd8a1e681), (4, 20, 0xe7d3fbc8),
      (9, 5, 0x21e1cde6), (14, 9, 0xc33707d6), (3, 14, 0xf4d50d87), (8, 20, 0x455a14ed),
      (13, 5, 0xa9e3e905), (2, 9, 0xfcefa3f8), (7, 14, 0x676f02d9), (12, 20, 0x8d2a4c8a)]"

definition md5_round2 :: "(nat \<times> nat \<times> u32) list" where
  "md5_round2 =
     [(5, 4, 0xfffa3942), (8, 11, 0x8771f681), (11, 16, 0x6d9d6122), (14, 23, 0xfde5380c),
      (1, 4, 0xa4beea44), (4, 11, 0x4bdecfa9), (7, 16, 0xf6bb4b60), (10, 23, 0xbebfbc70),
      (13, 4, 0x289b7ec6), (0, 11, 0xeaa127fa), (3, 16, 0xd4ef3085), (6, 23, 0x04881d05),
      (9, 4, 0xd9d4d039), (12, 11, 0xe6db99e5), (15, 16, 0x1fa27cf8), (2, 23, 0xc4ac5665)]"

definition md5_round3 :: "(nat \<times> nat \<times> u32) list" where
  "md5_round3 =
     [(0, 6, 0xf4292244), (7, 10, 0x432aff97), (14, 15, 0xab9423a7), (5, 21, 0xfc93a039),
      (12, 6, 0x655b59c3), (3, 10, 0x8f0ccc92), (10, 15, 0xffeff47d), (1, 21, 0x85845dd1),
      (8, 6, 0x6fa87e4f), (15, 10, 0xfe2ce6e0), (6, 15, 0xa3014314), (13, 21, 0x4e0811a1),
      (4, 6, 0xf7537e82), (11, 10, 0xbd3af235), (2, 15, 0x2ad7d2bb), (9, 21, 0xeb86d391)]"

definition md5_round :: "(u32 \<Rightarrow> nat \<Rightarrow> u32 \<Rightarrow> u32 \<Rightarrow> u32 \<Rightarrow> u32 \<Rightarrow> u32 \<Rightarrow> u32) \<Rightarrow> (nat \<times> nat \<times> u32) list \<Rightarrow>
    u32 list \<Rightarrow> u32 list \<Rightarrow> u32 list" where
  "md5_round R steps X v = fold (\<lambda>(i, k, s, t). md_assign (R (X ! k) s t) i) (enumerate 0 steps) v"

text \<open>One turn of \<open>for (; num--;)\<close>. The loads of the words run ahead of the steps of round 0.\<close>

definition md_load :: "bytes \<Rightarrow> u32 list" where
  "md_load data = map (\<lambda>i. CRYPTO_load_u32_le (drop (4 * i) data)) [0..<16]"

definition md5_block :: "u32 list \<Rightarrow> bytes \<Rightarrow> u32 list" where
  "md5_block state data =
     (let X = md_load data;
          v = md5_round md5_R0 md5_round0 X state;
          v = md5_round md5_R1 md5_round1 X v;
          v = md5_round md5_R2 md5_round2 X v;
          v = md5_round md5_R3 md5_round3 X v
      in map2 (+) state v)"

fun md5_block_data_order :: "u32 list \<Rightarrow> bytes \<Rightarrow> nat \<Rightarrow> u32 list" where
  "md5_block_data_order state data 0 = state"
| "md5_block_data_order state data (Suc n) = md5_block_data_order (md5_block state data) (drop 64 data) n"

definition MD5_Init :: md32_ctx where
  "MD5_Init = md32_zero\<lparr>md_h := [0x67452301, 0xefcdab89, 0x98badcfe, 0x10325476]\<rparr>"

definition MD5_Transform :: "md32_ctx \<Rightarrow> bytes \<Rightarrow> md32_ctx" where
  "MD5_Transform c data = c\<lparr>md_h := md5_block_data_order (md_h c) data 1\<rparr>"

definition MD5_Update :: "md32_ctx \<Rightarrow> bytes \<Rightarrow> md32_ctx" where
  "MD5_Update c data = crypto_md32_update md5_block_data_order 64 c data"

definition MD5_Final :: "md32_ctx \<Rightarrow> bytes \<times> md32_ctx" where
  "MD5_Final c =
     (let c = crypto_md32_final md5_block_data_order 64 c False
      in (CRYPTO_store_u32_le (md_h c ! 0) @ CRYPTO_store_u32_le (md_h c ! 1) @ CRYPTO_store_u32_le (md_h c ! 2) @
          CRYPTO_store_u32_le (md_h c ! 3), c))"

definition MD5 :: "bytes \<Rightarrow> bytes" where
  "MD5 data = fst (MD5_Final (MD5_Update MD5_Init data))"

section \<open>MD4\<close>

definition md4_F :: "u32 \<Rightarrow> u32 \<Rightarrow> u32 \<Rightarrow> u32" where
  "md4_F b c d = ((c XOR d) AND b) XOR d"

definition md4_G :: "u32 \<Rightarrow> u32 \<Rightarrow> u32 \<Rightarrow> u32" where
  "md4_G b c d = (b AND c) OR (b AND d) OR (c AND d)"

definition md4_H :: "u32 \<Rightarrow> u32 \<Rightarrow> u32 \<Rightarrow> u32" where
  "md4_H b c d = b XOR c XOR d"

definition md4_R0 :: "u32 \<Rightarrow> nat \<Rightarrow> u32 \<Rightarrow> u32 \<Rightarrow> u32 \<Rightarrow> u32 \<Rightarrow> u32 \<Rightarrow> u32" where
  "md4_R0 k s t a b c d = (let a = a + (k + t + md4_F b c d) in CRYPTO_rotl_u32 a s)"

definition md4_R1 :: "u32 \<Rightarrow> nat \<Rightarrow> u32 \<Rightarrow> u32 \<Rightarrow> u32 \<Rightarrow> u32 \<Rightarrow> u32 \<Rightarrow> u32" where
  "md4_R1 k s t a b c d = (let a = a + (k + t + md4_G b c d) in CRYPTO_rotl_u32 a s)"

definition md4_R2 :: "u32 \<Rightarrow> nat \<Rightarrow> u32 \<Rightarrow> u32 \<Rightarrow> u32 \<Rightarrow> u32 \<Rightarrow> u32 \<Rightarrow> u32" where
  "md4_R2 k s t a b c d = (let a = a + (k + t + md4_H b c d) in CRYPTO_rotl_u32 a s)"

text \<open>The steps: the word of the block and the shift. The constant is one per round.\<close>

definition md4_round0 :: "(nat \<times> nat) list" where
  "md4_round0 =
     [(0, 3), (1, 7), (2, 11), (3, 19), (4, 3), (5, 7), (6, 11), (7, 19),
      (8, 3), (9, 7), (10, 11), (11, 19), (12, 3), (13, 7), (14, 11), (15, 19)]"

definition md4_round1 :: "(nat \<times> nat) list" where
  "md4_round1 =
     [(0, 3), (4, 5), (8, 9), (12, 13), (1, 3), (5, 5), (9, 9), (13, 13),
      (2, 3), (6, 5), (10, 9), (14, 13), (3, 3), (7, 5), (11, 9), (15, 13)]"

definition md4_round2 :: "(nat \<times> nat) list" where
  "md4_round2 =
     [(0, 3), (8, 9), (4, 11), (12, 15), (2, 3), (10, 9), (6, 11), (14, 15),
      (1, 3), (9, 9), (5, 11), (13, 15), (3, 3), (11, 9), (7, 11), (15, 15)]"

definition md4_round :: "(u32 \<Rightarrow> nat \<Rightarrow> u32 \<Rightarrow> u32 \<Rightarrow> u32 \<Rightarrow> u32 \<Rightarrow> u32 \<Rightarrow> u32) \<Rightarrow> (nat \<times> nat) list \<Rightarrow> u32 \<Rightarrow>
    u32 list \<Rightarrow> u32 list \<Rightarrow> u32 list" where
  "md4_round R steps t X v = fold (\<lambda>(i, k, s). md_assign (R (X ! k) s t) i) (enumerate 0 steps) v"

definition md4_block :: "u32 list \<Rightarrow> bytes \<Rightarrow> u32 list" where
  "md4_block state data =
     (let X = md_load data;
          v = md4_round md4_R0 md4_round0 0 X state;
          v = md4_round md4_R1 md4_round1 0x5a827999 X v;
          v = md4_round md4_R2 md4_round2 0x6ed9eba1 X v
      in map2 (+) state v)"

fun md4_block_data_order :: "u32 list \<Rightarrow> bytes \<Rightarrow> nat \<Rightarrow> u32 list" where
  "md4_block_data_order state data 0 = state"
| "md4_block_data_order state data (Suc n) = md4_block_data_order (md4_block state data) (drop 64 data) n"

definition MD4_Init :: md32_ctx where
  "MD4_Init = md32_zero\<lparr>md_h := [0x67452301, 0xefcdab89, 0x98badcfe, 0x10325476]\<rparr>"

definition MD4_Transform :: "md32_ctx \<Rightarrow> bytes \<Rightarrow> md32_ctx" where
  "MD4_Transform c data = c\<lparr>md_h := md4_block_data_order (md_h c) data 1\<rparr>"

definition MD4_Update :: "md32_ctx \<Rightarrow> bytes \<Rightarrow> md32_ctx" where
  "MD4_Update c data = crypto_md32_update md4_block_data_order 64 c data"

definition MD4_Final :: "md32_ctx \<Rightarrow> bytes \<times> md32_ctx" where
  "MD4_Final c =
     (let c = crypto_md32_final md4_block_data_order 64 c False
      in (CRYPTO_store_u32_le (md_h c ! 0) @ CRYPTO_store_u32_le (md_h c ! 1) @ CRYPTO_store_u32_le (md_h c ! 2) @
          CRYPTO_store_u32_le (md_h c ! 3), c))"

definition MD4 :: "bytes \<Rightarrow> bytes" where
  "MD4 data = fst (MD4_Final (MD4_Update MD4_Init data))"

section \<open>The RFCs\<close>

text \<open>
  A step moves the variables on: the new second one comes from all four. A round is sixteen steps,
  with the words of the block in the order of the round and its four shifts in turn. The constants of
  MD5 are the integer parts of \<open>2 ^ 32\<close> times the sines of 1 to 64, sixteen for each round.
\<close>

fun rfc_step :: "(u32 \<Rightarrow> u32 \<Rightarrow> u32 \<Rightarrow> u32 \<Rightarrow> u32) \<Rightarrow> u32 list \<Rightarrow> u32 list" where
  "rfc_step f [a, b, c, d] = [d, f a b c d, b, c]"
| "rfc_step f _ = []"

definition rfc_round :: "(nat \<Rightarrow> u32 \<Rightarrow> u32 \<Rightarrow> u32 \<Rightarrow> u32 \<Rightarrow> u32) \<Rightarrow> u32 list \<Rightarrow> u32 list" where
  "rfc_round op v = fold (\<lambda>i. rfc_step (op i)) [0..<16] v"

definition rfc5_op :: "(u32 \<Rightarrow> u32 \<Rightarrow> u32 \<Rightarrow> u32) \<Rightarrow> (nat \<Rightarrow> nat) \<Rightarrow> nat list \<Rightarrow> u32 list \<Rightarrow> u32 list \<Rightarrow> nat \<Rightarrow>
    u32 \<Rightarrow> u32 \<Rightarrow> u32 \<Rightarrow> u32 \<Rightarrow> u32" where
  "rfc5_op g k s T X i a b c d = b + word_rotl (s ! (i mod 4)) (a + g b c d + X ! (k i mod 16) + T ! i)"

definition sine_table :: "nat \<Rightarrow> u32 list" where
  "sine_table r = map sine_word [16 * r + 1..<16 * r + 17]"

definition le_words :: "bytes \<Rightarrow> u32 list" where
  "le_words B = map (\<lambda>i. of_nat (be_value (rev (take 4 (drop (4 * i) B))))) [0..<16]"

definition md5_compress :: "u32 list \<Rightarrow> bytes \<Rightarrow> u32 list" where
  "md5_compress H B =
     (let X = le_words B;
          v = rfc_round (rfc5_op (\<lambda>x y z. (x AND y) OR (NOT x AND z)) (\<lambda>i. i) [7, 12, 17, 22] (sine_table 0) X) H;
          v = rfc_round (rfc5_op (\<lambda>x y z. (x AND z) OR (y AND NOT z)) (\<lambda>i. 5 * i + 1) [5, 9, 14, 20] (sine_table 1) X) v;
          v = rfc_round (rfc5_op (\<lambda>x y z. x XOR y XOR z) (\<lambda>i. 3 * i + 5) [4, 11, 16, 23] (sine_table 2) X) v;
          v = rfc_round (rfc5_op (\<lambda>x y z. y XOR (x OR NOT z)) (\<lambda>i. 7 * i) [6, 10, 15, 21] (sine_table 3) X) v
      in map2 (+) H v)"

definition rfc4_op :: "(u32 \<Rightarrow> u32 \<Rightarrow> u32 \<Rightarrow> u32) \<Rightarrow> nat list \<Rightarrow> nat list \<Rightarrow> u32 \<Rightarrow> u32 list \<Rightarrow> nat \<Rightarrow>
    u32 \<Rightarrow> u32 \<Rightarrow> u32 \<Rightarrow> u32 \<Rightarrow> u32" where
  "rfc4_op g k s t X i a b c d = word_rotl (s ! (i mod 4)) (a + g b c d + X ! (k ! i) + t)"

definition md4_compress :: "u32 list \<Rightarrow> bytes \<Rightarrow> u32 list" where
  "md4_compress H B =
     (let X = le_words B;
          v = rfc_round (rfc4_op (\<lambda>x y z. (x AND y) OR (NOT x AND z)) [0..<16] [3, 7, 11, 19] 0 X) H;
          v = rfc_round (rfc4_op (\<lambda>x y z. (x AND y) OR (x AND z) OR (y AND z))
                [0, 4, 8, 12, 1, 5, 9, 13, 2, 6, 10, 14, 3, 7, 11, 15] [3, 5, 9, 13] 0x5a827999 X) v;
          v = rfc_round (rfc4_op (\<lambda>x y z. x XOR y XOR z)
                [0, 8, 4, 12, 2, 10, 6, 14, 1, 9, 5, 13, 3, 11, 7, 15] [3, 9, 11, 15] 0x6ed9eba1 X) v
      in map2 (+) H v)"

section \<open>The code computes them\<close>

text \<open>What the code's variables are in the RFC's order before step \<open>i\<close>.\<close>

definition md_view :: "nat \<Rightarrow> u32 list \<Rightarrow> u32 list" where
  "md_view i v = map (\<lambda>j. v ! md_arg i j) [0..<4]"

lemma upt_4: "[0..<4] = [0, 1, 2, 3]"
  by (simp add: upt_rec)

lemma upt_16: "[0..<16] = [0, 1, 2, 3, 4, 5, 6, 7, 8, 9, 10, 11, 12, 13, 14, 15]"
  by (simp add: upt_rec)

lemma length_4: "length v = 4 \<Longrightarrow> \<exists>a b c d. v = [a, b, c, d]"
  by (auto simp: four length_Suc_conv)

lemma md_view_id: "length v = 4 \<Longrightarrow> md_view 0 v = v" "length v = 4 \<Longrightarrow> md_view 16 v = v"
  using length_4 [of v] by (auto simp: md_view_def md_arg_def upt_4)

lemma length_md_assign: "length (md_assign f i v) = length v"
  by (simp add: md_assign_def)

lemma md_view_assign:
  assumes "length v = 4"
  shows "md_view (Suc i) (md_assign f i v) = rfc_step f (md_view i v)"
proof -
  obtain a b c d where v: "v = [a, b, c, d]" using length_4 [OF assms] by blast
  have s: "Suc i mod 4 = (if i mod 4 = 3 then 0 else Suc (i mod 4))" by (simp add: mod_Suc)
  consider "i mod 4 = 0" | "i mod 4 = 1" | "i mod 4 = 2" | "i mod 4 = 3"
    using mod_less_divisor [of 4 i] by linarith
  then show ?thesis
    by cases (simp_all add: v md_view_def upt_4 md_arg_def s md_assign_def)
qed

lemma md_steps:
  assumes "length v = 4"
  shows "length (fold (\<lambda>i. md_assign (f i) i) [0..<n] v) = 4 \<and>
    md_view n (fold (\<lambda>i. md_assign (f i) i) [0..<n] v) = fold (\<lambda>i. rfc_step (f i)) [0..<n] v"
  using assms by (induction n) (simp_all add: md_view_id md_view_assign length_md_assign)

lemma md_round_16:
  assumes "length v = 4"
  shows "fold (\<lambda>i. md_assign (f i) i) [0..<16] v = rfc_round f v" and "length (rfc_round f v) = 4"
proof -
  have len: "length (fold (\<lambda>i. md_assign (f i) i) [0..<16] v) = 4" using md_steps [OF assms] by blast
  show run: "fold (\<lambda>i. md_assign (f i) i) [0..<16] v = rfc_round f v"
    using md_steps [OF assms, of f 16] unfolding md_view_id(2) [OF len] rfc_round_def by blast
  show "length (rfc_round f v) = 4" using len unfolding run .
qed

lemma fold_enumerate: "fold (\<lambda>(i, x). g i x) (enumerate 0 xs) v = fold (\<lambda>i. g i (xs ! i)) [0..<length xs] v"
proof -
  have "enumerate 0 xs = map (\<lambda>i. (i, xs ! i)) [0..<length xs]"
    by (rule nth_equalityI) (simp_all add: nth_enumerate_eq)
  then show ?thesis by (simp add: fold_map comp_def)
qed

lemma rfc_round_cong: "(\<And>i. i < 16 \<Longrightarrow> f i = g i) \<Longrightarrow> rfc_round f v = rfc_round g v"
  unfolding rfc_round_def by (rule fold_cong) auto

lemma md_functions:
  "md5_F b c d = (b AND c) OR (NOT b AND d)" "md5_G b c d = (b AND d) OR (c AND NOT d)"
  "md5_H b c d = b XOR c XOR d" "md5_I b c d = c XOR (b OR NOT d)"
  "md4_F b c d = (b AND c) OR (NOT b AND d)" "md4_G b c d = (b AND c) OR (b AND d) OR (c AND d)"
  "md4_H b c d = b XOR c XOR d"
  by (rule bit_word_eqI; auto simp: md5_F_def md5_G_def md5_H_def md5_I_def md4_F_def md4_G_def md4_H_def bit_simps)+

lemma all_16: "(\<forall>i < 16. P i) \<longleftrightarrow> P 0 \<and> P 1 \<and> P 2 \<and> P 3 \<and> P 4 \<and> P 5 \<and> P 6 \<and> P 7 \<and>
    P 8 \<and> P 9 \<and> P 10 \<and> P 11 \<and> P 12 \<and> P 13 \<and> P 14 \<and> P (15 :: nat)"
proof -
  have "(\<forall>i < 16. P i) \<longleftrightarrow> list_all P [0..<16]" by (auto simp: list_all_iff)
  then show ?thesis by (simp add: upt_16)
qed

lemma md5_round_rfc:
  assumes v: "length v = 4" and steps: "length steps = 16"
    and R: "\<And>k s t a b c d. R k s t a b c d = (let a = a + (k + t + g b c d); a = CRYPTO_rotl_u32 a s in a + b)"
    and S: "\<forall>i<16. fst (steps ! i) = ki i mod 16 \<and> fst (snd (steps ! i)) = ss ! (i mod 4) \<and>
      0 < ss ! (i mod 4) \<and> ss ! (i mod 4) < 32"
  shows "md5_round R steps X v = rfc_round (rfc5_op g ki ss (map (\<lambda>(k, s, t). t) steps) X) v"
proof -
  have "md5_round R steps X v =
      fold (\<lambda>i. md_assign (case steps ! i of (k, s, t) \<Rightarrow> R (X ! k) s t) i) [0..<length steps] v"
    unfolding md5_round_def using fold_enumerate [of "\<lambda>i (k, s, t). md_assign (R (X ! k) s t) i" steps v]
    by (simp add: case_prod_unfold)
  also have "\<dots> = rfc_round (\<lambda>i. case steps ! i of (k, s, t) \<Rightarrow> R (X ! k) s t) v"
    unfolding steps by (rule md_round_16 [OF v])
  also have "\<dots> = rfc_round (rfc5_op g ki ss (map (\<lambda>(k, s, t). t) steps) X) v"
  proof (rule rfc_round_cong)
    fix i :: nat assume i: "i < 16"
    obtain k s t where st: "steps ! i = (k, s, t)" by (cases "steps ! i") auto
    with S i have "k = ki i mod 16" "s = ss ! (i mod 4)" "0 < s" "s < 32" by auto
    then show "(case steps ! i of (k, s, t) \<Rightarrow> R (X ! k) s t) = rfc5_op g ki ss (map (\<lambda>(k, s, t). t) steps) X i"
      using i steps by (intro ext) (simp add: st R rfc5_op_def Let_def rotl_u32 ac_simps)
  qed
  finally show ?thesis .
qed

lemma md4_round_rfc:
  assumes v: "length v = 4" and steps: "length steps = 16"
    and R: "\<And>k s t a b c d. R k s t a b c d = (let a = a + (k + t + g b c d) in CRYPTO_rotl_u32 a s)"
    and S: "\<forall>i<16. fst (steps ! i) = ks ! i \<and> snd (steps ! i) = ss ! (i mod 4) \<and>
      0 < ss ! (i mod 4) \<and> ss ! (i mod 4) < 32"
  shows "md4_round R steps t X v = rfc_round (rfc4_op g ks ss t X) v"
proof -
  have "md4_round R steps t X v =
      fold (\<lambda>i. md_assign (case steps ! i of (k, s) \<Rightarrow> R (X ! k) s t) i) [0..<length steps] v"
    unfolding md4_round_def using fold_enumerate [of "\<lambda>i (k, s). md_assign (R (X ! k) s t) i" steps v]
    by (simp add: case_prod_unfold)
  also have "\<dots> = rfc_round (\<lambda>i. case steps ! i of (k, s) \<Rightarrow> R (X ! k) s t) v"
    unfolding steps by (rule md_round_16 [OF v])
  also have "\<dots> = rfc_round (rfc4_op g ks ss t X) v"
  proof (rule rfc_round_cong)
    fix i :: nat assume i: "i < 16"
    obtain k s where st: "steps ! i = (k, s)" by (cases "steps ! i") auto
    with S i have "k = ks ! i" "s = ss ! (i mod 4)" "0 < s" "s < 32" by auto
    then show "(case steps ! i of (k, s) \<Rightarrow> R (X ! k) s t) = rfc4_op g ks ss t X i"
      by (intro ext) (simp add: st R rfc4_op_def Let_def rotl_u32 ac_simps)
  qed
  finally show ?thesis .
qed

lemma le_word_value: "le_word p = of_nat (be_value (rev p))"
proof (induction p)
  case (Cons b p)
  have "ucast b AND push_bit 8 (le_word p :: 'a::len word) = 0"
    by (rule bit_word_eqI) (auto simp: bit_simps dest: bit_imp_le_length)
  then have "(le_word (b # p) :: 'a word) = ucast b + push_bit 8 (le_word p)"
    by (simp add: disjunctive_add_eq_or)
  also have "\<dots> = of_nat (unat b) + of_nat (be_value (rev p)) * 256"
    using Cons by (simp add: push_bit_eq_mult)
  finally show ?case by (simp add: add.commute)
qed simp

lemma md_load_words: "64 \<le> length data \<Longrightarrow> md_load data = le_words (take 64 data)"
proof -
  assume d: "64 \<le> length data"
  have "CRYPTO_load_u32_le (drop (4 * i) data) = of_nat (be_value (rev (take 4 (drop (4 * i) (take 64 data)))))"
    if "i < 16" for i
  proof -
    have w: "take 4 (drop (4 * i) (take 64 data)) = take 4 (drop (4 * i) data)"
      using that by (simp add: drop_take min_def)
    show ?thesis unfolding w CRYPTO_load_u32_le_def by (rule le_word_value)
  qed
  then show ?thesis by (simp add: md_load_def le_words_def)
qed

lemma md5_constants:
  "map sine_word [1..<65] = map (\<lambda>(k, s, t). t) (md5_round0 @ md5_round1 @ md5_round2 @ md5_round3)"
proof -
  have "sines_from (turn (2 ^ 52, 0)) (map (\<lambda>(k, s, t). t) (md5_round0 @ md5_round1 @ md5_round2 @ md5_round3))"
    by (simp add: md5_round0_def md5_round1_def md5_round2_def md5_round3_def sine_between_def turn_shift sin_1_def cos_1_def)
  moreover have "length (md5_round0 @ md5_round1 @ md5_round2 @ md5_round3) = 64"
    by (simp add: md5_round0_def md5_round1_def md5_round2_def md5_round3_def)
  ultimately show ?thesis
    using sines_from_table [of 1 "map (\<lambda>(k, s, t). t) (md5_round0 @ md5_round1 @ md5_round2 @ md5_round3)"]
    by (simp del: append_assoc map_append length_append upt.simps)
qed

lemma sine_tables:
  "map (\<lambda>(k, s, t). t) md5_round0 = sine_table 0" "map (\<lambda>(k, s, t). t) md5_round1 = sine_table 1"
  "map (\<lambda>(k, s, t). t) md5_round2 = sine_table 2" "map (\<lambda>(k, s, t). t) md5_round3 = sine_table 3"
proof -
  have l: "length md5_round0 = 16" "length md5_round1 = 16" "length md5_round2 = 16" "length md5_round3 = 16"
    by (simp_all add: md5_round0_def md5_round1_def md5_round2_def md5_round3_def)
  have t: "sine_table r = take 16 (drop (16 * r) (map sine_word [1..<65]))" if "r < 4" for r
    using that by (simp add: sine_table_def take_map drop_map drop_upt take_upt add.commute)
  show "map (\<lambda>(k, s, t). t) md5_round0 = sine_table 0" "map (\<lambda>(k, s, t). t) md5_round1 = sine_table 1"
    "map (\<lambda>(k, s, t). t) md5_round2 = sine_table 2" "map (\<lambda>(k, s, t). t) md5_round3 = sine_table 3"
    using l by (simp_all add: t [unfolded md5_constants])
qed

lemma md5_one:
  assumes "length H = 4" and "64 \<le> length data"
  shows "md5_block H data = md5_compress H (take 64 data)"
proof -
  have "md5_round md5_R0 md5_round0 X v = rfc_round (rfc5_op (\<lambda>x y z. (x AND y) OR (NOT x AND z)) (\<lambda>i. i) [7, 12, 17, 22] (sine_table 0) X) v"
    "md5_round md5_R1 md5_round1 X v = rfc_round (rfc5_op (\<lambda>x y z. (x AND z) OR (y AND NOT z)) (\<lambda>i. 5 * i + 1) [5, 9, 14, 20] (sine_table 1) X) v"
    "md5_round md5_R2 md5_round2 X v = rfc_round (rfc5_op (\<lambda>x y z. x XOR y XOR z) (\<lambda>i. 3 * i + 5) [4, 11, 16, 23] (sine_table 2) X) v"
    "md5_round md5_R3 md5_round3 X v = rfc_round (rfc5_op (\<lambda>x y z. y XOR (x OR NOT z)) (\<lambda>i. 7 * i) [6, 10, 15, 21] (sine_table 3) X) v"
    if "length v = 4" for X v
    unfolding sine_tables [symmetric] using md5_round_rfc [OF that, of md5_round0 md5_R0 md5_F "\<lambda>i. i" "[7, 12, 17, 22]" X]
      md5_round_rfc [OF that, of md5_round1 md5_R1 md5_G "\<lambda>i. 5 * i + 1" "[5, 9, 14, 20]" X]
      md5_round_rfc [OF that, of md5_round2 md5_R2 md5_H "\<lambda>i. 3 * i + 5" "[4, 11, 16, 23]" X]
      md5_round_rfc [OF that, of md5_round3 md5_R3 md5_I "\<lambda>i. 7 * i" "[6, 10, 15, 21]" X]
    by (simp_all add: md5_R0_def md5_R1_def md5_R2_def md5_R3_def all_16 md_functions [abs_def] Let_def
        md5_round0_def md5_round1_def md5_round2_def md5_round3_def)
  then show ?thesis
    by (simp add: md5_block_def md5_compress_def md_load_words assms Let_def md_round_16)
qed

lemma md4_one:
  assumes "length H = 4" and "64 \<le> length data"
  shows "md4_block H data = md4_compress H (take 64 data)"
proof -
  have "md4_round md4_R0 md4_round0 0 X v =
      rfc_round (rfc4_op (\<lambda>x y z. (x AND y) OR (NOT x AND z)) [0..<16] [3, 7, 11, 19] 0 X) v"
    "md4_round md4_R1 md4_round1 0x5a827999 X v =
      rfc_round (rfc4_op (\<lambda>x y z. (x AND y) OR (x AND z) OR (y AND z))
        [0, 4, 8, 12, 1, 5, 9, 13, 2, 6, 10, 14, 3, 7, 11, 15] [3, 5, 9, 13] 0x5a827999 X) v"
    "md4_round md4_R2 md4_round2 0x6ed9eba1 X v =
      rfc_round (rfc4_op (\<lambda>x y z. x XOR y XOR z)
        [0, 8, 4, 12, 2, 10, 6, 14, 1, 9, 5, 13, 3, 11, 7, 15] [3, 9, 11, 15] 0x6ed9eba1 X) v"
    if "length v = 4" for X v
    using md4_round_rfc [OF that, of md4_round0 md4_R0 md4_F "[0..<16]" "[3, 7, 11, 19]" 0 X]
      md4_round_rfc [OF that, of md4_round1 md4_R1 md4_G
        "[0, 4, 8, 12, 1, 5, 9, 13, 2, 6, 10, 14, 3, 7, 11, 15]" "[3, 5, 9, 13]" "0x5a827999" X]
      md4_round_rfc [OF that, of md4_round2 md4_R2 md4_H
        "[0, 8, 4, 12, 2, 10, 6, 14, 1, 9, 5, 13, 3, 11, 7, 15]" "[3, 9, 11, 15]" "0x6ed9eba1" X]
    by (simp_all add: md4_R0_def md4_R1_def md4_R2_def all_16 upt_16 md_functions [abs_def] Let_def
        md4_round0_def md4_round1_def md4_round2_def)
  then show ?thesis
    by (simp add: md4_block_def md4_compress_def md_load_words assms Let_def md_round_16)
qed

lemma length_md_compress:
  "length H = 4 \<Longrightarrow> length (md5_compress H B) = 4" "length H = 4 \<Longrightarrow> length (md4_compress H B) = 4"
  by (simp_all add: md5_compress_def md4_compress_def Let_def md_round_16)

lemma md5_blocks:
  "length H = 4 \<Longrightarrow> n * 64 \<le> length data \<Longrightarrow> md5_block_data_order H data n = chain md5_compress 64 H (take (n * 64) data)"
proof (induction n arbitrary: H data)
  case (Suc n)
  then show ?case using chain_blocks_step [of 64 n data md5_compress H]
    by (simp add: md5_one length_md_compress)
qed (simp add: chain_short)

lemma md4_blocks:
  "length H = 4 \<Longrightarrow> n * 64 \<le> length data \<Longrightarrow> md4_block_data_order H data n = chain md4_compress 64 H (take (n * 64) data)"
proof (induction n arbitrary: H data)
  case (Suc n)
  then show ?case using chain_blocks_step [of 64 n data md4_compress H]
    by (simp add: md4_one length_md_compress)
qed (simp add: chain_short)

interpretation md5: md32_digest md5_block_data_order md5_compress "\<lambda>hs. length hs = 4"
  by unfold_locales (simp_all add: md5_blocks length_md_compress)

interpretation md4: md32_digest md4_block_data_order md4_compress "\<lambda>hs. length hs = 4"
  by unfold_locales (simp_all add: md4_blocks length_md_compress)

text \<open>The digest of a message under a compression function: the last chaining value, little-endian.\<close>

definition md_digest :: "(u32 list \<Rightarrow> bytes \<Rightarrow> u32 list) \<Rightarrow> bytes \<Rightarrow> bytes" where
  "md_digest compress M =
     concat (map (\<lambda>w. rev (be_bytes 4 (unat w)))
       (chain compress 64 [0x67452301, 0xefcdab89, 0x98badcfe, 0x10325476]
         (md_padded 64 (md_length_field False (length M)) M)))"

text \<open>
  C34: MD5 and MD4 over any sequence of \<open>Update\<close> calls are the digests of RFC 1321 and RFC 1320 of
  the concatenated message: rounds over the definitions of the auxiliary functions, the orders of
  the words by their formulas, the constants of MD5 by the sines they come from, the padding and the length
  with its low byte first.
\<close>

theorem md_streaming:
  "fst (MD5_Final (foldl MD5_Update MD5_Init xs)) = md_digest md5_compress (concat xs) \<and>
   fst (MD4_Final (foldl MD4_Update MD4_Init xs)) = md_digest md4_compress (concat xs)"
proof -
  let ?iv = "[0x67452301, 0xefcdab89, 0x98badcfe, 0x10325476] :: u32 list"
  let ?P = "md_padded 64 (md_length_field False (length (concat xs))) (concat xs)"
  have u: "MD5_Update = crypto_md32_update md5_block_data_order 64" "MD4_Update = crypto_md32_update md4_block_data_order 64"
    by (intro ext; simp add: MD5_Update_def MD4_Update_def)+
  have i: "MD5_Init = md32_zero\<lparr>md_h := ?iv, md_len := 0\<rparr>" "MD4_Init = md32_zero\<lparr>md_h := ?iv, md_len := 0\<rparr>"
    by (simp_all add: MD5_Init_def MD4_Init_def md32_zero_def)
  have iv: "length ?iv = 4" by simp
  obtain a b c d where H5: "chain md5_compress 64 ?iv ?P = [a, b, c, d]"
    using length_4 [OF md5.ok_chain [OF iv]] by blast
  obtain a' b' c' d' where H4: "chain md4_compress 64 ?iv ?P = [a', b', c', d']"
    using length_4 [OF md4.ok_chain [OF iv]] by blast
  have "md_h (crypto_md32_final md5_block_data_order 64 (foldl MD5_Update MD5_Init xs) False) = [a, b, c, d]"
    "md_h (crypto_md32_final md4_block_data_order 64 (foldl MD4_Update MD4_Init xs) False) = [a', b', c', d']"
    unfolding u i md5.stream_final [OF iv] md4.stream_final [OF iv] H5 H4 by simp_all
  then show ?thesis
    unfolding md_digest_def H5 H4 by (simp add: MD5_Final_def MD4_Final_def Let_def store_le_bytes)
qed

end
