(* ===== verification/Ssl_Evp.thy ===== *)
theory Ssl_Evp
  imports Ssl_Md
begin

text \<open>
  The digest interface, \<open>crypto/fipsmodule/digest/digest.c\<close>, and the nine methods behind it,
  \<open>digests.c\<close>. A locale states what a method promises; all nine are proved to keep it.
\<close>

unbundle bit_operations_syntax

section \<open>Methods and contexts\<close>

text \<open>
  What \<open>md_data\<close> points to: nothing, memory as it came from \<open>OPENSSL_malloc\<close>, or a context of the
  method's type.
\<close>

datatype md_data = No_data | Raw bytes | Ctx32 md32_ctx | Ctx64 sha512_ctx | Ctx_md5_sha1 md32_ctx md32_ctx

text \<open>
  A method is a static table, so its \<open>type\<close> stands for its address. \<open>evp_final\<close> returns what it
  writes at \<open>out\<close>.
\<close>

record evp_md =
  evp_type :: nat
  evp_md_size :: nat
  evp_flags :: u32
  evp_init :: "md_data \<Rightarrow> md_data"
  evp_update :: "md_data \<Rightarrow> bytes \<Rightarrow> md_data"
  evp_final :: "md_data \<Rightarrow> bytes \<times> md_data"
  evp_block_size :: nat
  evp_ctx_size :: nat

text \<open>The contexts of the hash functions; \<open>pctx\<close>, which only signing sets, is left out.\<close>

record evp_md_ctx =
  digest :: "evp_md option"
  md_data :: md_data

text \<open>\<open>SHA512_Init\<close> leaves the buffer as it is: 128 bytes from offset 80 of the context.\<close>

definition md_buffer :: "md_data \<Rightarrow> bytes" where
  "md_buffer d = (case d of Raw junk \<Rightarrow> take 128 (drop 80 junk) | Ctx64 c \<Rightarrow> sha_p c | _ \<Rightarrow> [])"

section \<open>The methods\<close>

definition md4_init :: "md_data \<Rightarrow> md_data" where
  "md4_init d = Ctx32 MD4_Init"

definition md4_update :: "md_data \<Rightarrow> bytes \<Rightarrow> md_data" where
  "md4_update d data = (case d of Ctx32 c \<Rightarrow> Ctx32 (MD4_Update c data) | _ \<Rightarrow> d)"

definition md4_final :: "md_data \<Rightarrow> bytes \<times> md_data" where
  "md4_final d = (case d of Ctx32 c \<Rightarrow> (let (out, c) = MD4_Final c in (out, Ctx32 c)) | _ \<Rightarrow> ([], d))"

definition EVP_md4 :: evp_md where
  "EVP_md4 = \<lparr>evp_type = 257, evp_md_size = 16, evp_flags = 0, evp_init = md4_init, evp_update = md4_update,
     evp_final = md4_final, evp_block_size = 64, evp_ctx_size = 92\<rparr>"

definition md5_init :: "md_data \<Rightarrow> md_data" where
  "md5_init d = Ctx32 MD5_Init"

definition md5_update :: "md_data \<Rightarrow> bytes \<Rightarrow> md_data" where
  "md5_update d data = (case d of Ctx32 c \<Rightarrow> Ctx32 (MD5_Update c data) | _ \<Rightarrow> d)"

definition md5_final :: "md_data \<Rightarrow> bytes \<times> md_data" where
  "md5_final d = (case d of Ctx32 c \<Rightarrow> (let (out, c) = MD5_Final c in (out, Ctx32 c)) | _ \<Rightarrow> ([], d))"

definition EVP_md5 :: evp_md where
  "EVP_md5 = \<lparr>evp_type = 4, evp_md_size = 16, evp_flags = 0, evp_init = md5_init, evp_update = md5_update,
     evp_final = md5_final, evp_block_size = 64, evp_ctx_size = 92\<rparr>"

definition sha1_init :: "md_data \<Rightarrow> md_data" where
  "sha1_init d = Ctx32 SHA1_Init"

definition sha1_update :: "md_data \<Rightarrow> bytes \<Rightarrow> md_data" where
  "sha1_update d data = (case d of Ctx32 c \<Rightarrow> Ctx32 (SHA1_Update c data) | _ \<Rightarrow> d)"

definition sha1_final :: "md_data \<Rightarrow> bytes \<times> md_data" where
  "sha1_final d = (case d of Ctx32 c \<Rightarrow> (let (out, c) = SHA1_Final c in (out, Ctx32 c)) | _ \<Rightarrow> ([], d))"

definition EVP_sha1 :: evp_md where
  "EVP_sha1 = \<lparr>evp_type = 64, evp_md_size = 20, evp_flags = 0, evp_init = sha1_init, evp_update = sha1_update,
     evp_final = sha1_final, evp_block_size = 64, evp_ctx_size = 96\<rparr>"

text \<open>\<open>CHECK\<close> asserts that the functions return 1. A \<open>Final\<close> that returned 0 would have written nothing.\<close>

definition sha224_init :: "md_data \<Rightarrow> md_data" where
  "sha224_init d = Ctx32 SHA224_Init"

definition sha224_update :: "md_data \<Rightarrow> bytes \<Rightarrow> md_data" where
  "sha224_update d data = (case d of Ctx32 c \<Rightarrow> Ctx32 (SHA224_Update c data) | _ \<Rightarrow> d)"

definition sha224_final :: "md_data \<Rightarrow> bytes \<times> md_data" where
  "sha224_final d = (case d of Ctx32 c \<Rightarrow> (let (out, c) = SHA224_Final c in (case out of Some out \<Rightarrow> out | None \<Rightarrow> [], Ctx32 c)) | _ \<Rightarrow> ([], d))"

definition EVP_sha224 :: evp_md where
  "EVP_sha224 = \<lparr>evp_type = 675, evp_md_size = 28, evp_flags = 0, evp_init = sha224_init, evp_update = sha224_update,
     evp_final = sha224_final, evp_block_size = 64, evp_ctx_size = 112\<rparr>"

definition sha256_init :: "md_data \<Rightarrow> md_data" where
  "sha256_init d = Ctx32 SHA256_Init"

definition sha256_update :: "md_data \<Rightarrow> bytes \<Rightarrow> md_data" where
  "sha256_update d data = (case d of Ctx32 c \<Rightarrow> Ctx32 (SHA256_Update c data) | _ \<Rightarrow> d)"

definition sha256_final :: "md_data \<Rightarrow> bytes \<times> md_data" where
  "sha256_final d = (case d of Ctx32 c \<Rightarrow> (let (out, c) = SHA256_Final c in (case out of Some out \<Rightarrow> out | None \<Rightarrow> [], Ctx32 c)) | _ \<Rightarrow> ([], d))"

definition EVP_sha256 :: evp_md where
  "EVP_sha256 = \<lparr>evp_type = 672, evp_md_size = 32, evp_flags = 0, evp_init = sha256_init, evp_update = sha256_update,
     evp_final = sha256_final, evp_block_size = 64, evp_ctx_size = 112\<rparr>"

definition sha384_init :: "md_data \<Rightarrow> md_data" where
  "sha384_init d = Ctx64 (SHA384_Init (md_buffer d))"

definition sha384_update :: "md_data \<Rightarrow> bytes \<Rightarrow> md_data" where
  "sha384_update d data = (case d of Ctx64 c \<Rightarrow> Ctx64 (SHA384_Update c data) | _ \<Rightarrow> d)"

definition sha384_final :: "md_data \<Rightarrow> bytes \<times> md_data" where
  "sha384_final d = (case d of Ctx64 c \<Rightarrow> (let (out, c) = SHA384_Final c in (out, Ctx64 c)) | _ \<Rightarrow> ([], d))"

definition EVP_sha384 :: evp_md where
  "EVP_sha384 = \<lparr>evp_type = 673, evp_md_size = 48, evp_flags = 0, evp_init = sha384_init, evp_update = sha384_update,
     evp_final = sha384_final, evp_block_size = 128, evp_ctx_size = 216\<rparr>"

definition sha512_init :: "md_data \<Rightarrow> md_data" where
  "sha512_init d = Ctx64 (SHA512_Init (md_buffer d))"

definition sha512_update :: "md_data \<Rightarrow> bytes \<Rightarrow> md_data" where
  "sha512_update d data = (case d of Ctx64 c \<Rightarrow> Ctx64 (SHA512_Update c data) | _ \<Rightarrow> d)"

definition sha512_final :: "md_data \<Rightarrow> bytes \<times> md_data" where
  "sha512_final d = (case d of Ctx64 c \<Rightarrow> (let (out, c) = SHA512_Final c in (out, Ctx64 c)) | _ \<Rightarrow> ([], d))"

definition EVP_sha512 :: evp_md where
  "EVP_sha512 = \<lparr>evp_type = 674, evp_md_size = 64, evp_flags = 0, evp_init = sha512_init, evp_update = sha512_update,
     evp_final = sha512_final, evp_block_size = 128, evp_ctx_size = 216\<rparr>"

definition sha512_256_init :: "md_data \<Rightarrow> md_data" where
  "sha512_256_init d = Ctx64 (SHA512_256_Init (md_buffer d))"

definition sha512_256_update :: "md_data \<Rightarrow> bytes \<Rightarrow> md_data" where
  "sha512_256_update d data = (case d of Ctx64 c \<Rightarrow> Ctx64 (SHA512_256_Update c data) | _ \<Rightarrow> d)"

definition sha512_256_final :: "md_data \<Rightarrow> bytes \<times> md_data" where
  "sha512_256_final d = (case d of Ctx64 c \<Rightarrow> (let (out, c) = SHA512_256_Final c in (out, Ctx64 c)) | _ \<Rightarrow> ([], d))"

definition EVP_sha512_256 :: evp_md where
  "EVP_sha512_256 = \<lparr>evp_type = 962, evp_md_size = 32, evp_flags = 0, evp_init = sha512_256_init, evp_update = sha512_256_update,
     evp_final = sha512_256_final, evp_block_size = 128, evp_ctx_size = 216\<rparr>"

definition md5_sha1_init :: "md_data \<Rightarrow> md_data" where
  "md5_sha1_init d = Ctx_md5_sha1 MD5_Init SHA1_Init"

definition md5_sha1_update :: "md_data \<Rightarrow> bytes \<Rightarrow> md_data" where
  "md5_sha1_update d data =
     (case d of Ctx_md5_sha1 md5 sha1 \<Rightarrow> Ctx_md5_sha1 (MD5_Update md5 data) (SHA1_Update sha1 data) | _ \<Rightarrow> d)"

definition md5_sha1_final :: "md_data \<Rightarrow> bytes \<times> md_data" where
  "md5_sha1_final d =
     (case d of Ctx_md5_sha1 md5 sha1 \<Rightarrow>
        (let (out1, md5) = MD5_Final md5; (out2, sha1) = SHA1_Final sha1 in (out1 @ out2, Ctx_md5_sha1 md5 sha1))
      | _ \<Rightarrow> ([], d))"

definition EVP_md5_sha1 :: evp_md where
  "EVP_md5_sha1 = \<lparr>evp_type = 114, evp_md_size = 16 + 20, evp_flags = 0, evp_init = md5_sha1_init,
     evp_update = md5_sha1_update, evp_final = md5_sha1_final, evp_block_size = 64, evp_ctx_size = 188\<rparr>"

section \<open>The interface\<close>

text \<open>
  The heap answers one call of \<open>OPENSSL_malloc\<close> after the other: with memory and what it holds, or
  with a null pointer.
\<close>

type_synonym heap = "bytes option list"

definition heap_malloc :: "nat \<Rightarrow> heap \<Rightarrow> bytes option \<times> heap" where
  "heap_malloc n h = (case h of [] \<Rightarrow> (None, []) | m # h \<Rightarrow> (map_option (\<lambda>junk. take n (junk @ replicate n 0)) m, h))"

definition heap_ok :: "nat \<Rightarrow> heap \<Rightarrow> bool" where
  "heap_ok n h = (n \<le> length h \<and> list_all (\<lambda>m. m \<noteq> None) (take n h))"

definition same_md :: "evp_md option \<Rightarrow> evp_md option \<Rightarrow> bool" where
  "same_md a b = (map_option evp_type a = map_option evp_type b)"

definition EVP_MD_type :: "evp_md \<Rightarrow> nat" where "EVP_MD_type md = evp_type md"

definition EVP_MD_nid :: "evp_md \<Rightarrow> nat" where "EVP_MD_nid md = EVP_MD_type md"

definition EVP_MD_flags :: "evp_md \<Rightarrow> u32" where "EVP_MD_flags md = evp_flags md"

definition EVP_MD_meth_get_flags :: "evp_md \<Rightarrow> u32" where "EVP_MD_meth_get_flags md = EVP_MD_flags md"

definition EVP_MD_size :: "evp_md \<Rightarrow> nat" where "EVP_MD_size md = evp_md_size md"

definition EVP_MD_block_size :: "evp_md \<Rightarrow> nat" where "EVP_MD_block_size md = evp_block_size md"

definition EVP_MD_CTX_init :: evp_md_ctx where
  "EVP_MD_CTX_init = \<lparr>digest = None, md_data = No_data\<rparr>"

definition EVP_MD_CTX_new :: "heap \<Rightarrow> evp_md_ctx option \<times> heap" where
  "EVP_MD_CTX_new h = (let (m, h) = heap_malloc 32 h in (map_option (\<lambda>_. EVP_MD_CTX_init) m, h))"

definition EVP_MD_CTX_create :: "heap \<Rightarrow> evp_md_ctx option \<times> heap" where
  "EVP_MD_CTX_create h = EVP_MD_CTX_new h"

definition EVP_MD_CTX_cleanup :: "evp_md_ctx \<Rightarrow> evp_md_ctx" where
  "EVP_MD_CTX_cleanup ctx = EVP_MD_CTX_init"

text \<open>The first component is the value returned, 1 or 0.\<close>

definition EVP_DigestFinalXOF :: "evp_md_ctx \<Rightarrow> nat \<Rightarrow> bool \<times> evp_md_ctx" where
  "EVP_DigestFinalXOF ctx len = (False, ctx)"

definition EVP_MD_CTX_set_flags :: "evp_md_ctx \<Rightarrow> int \<Rightarrow> evp_md_ctx" where
  "EVP_MD_CTX_set_flags ctx flags = ctx"

definition EVP_MD_CTX_copy_ex :: "evp_md_ctx \<Rightarrow> evp_md_ctx \<Rightarrow> heap \<Rightarrow> bool \<times> evp_md_ctx \<times> heap" where
  "EVP_MD_CTX_copy_ex out inp h =
     (case digest inp of
        None \<Rightarrow> (False, out, h)
      | Some md \<Rightarrow>
          if \<not> same_md (digest out) (digest inp) then
            (case heap_malloc (evp_ctx_size md) h of
               (None, h) \<Rightarrow> (False, out, h)
             | (Some tmp_buf, h) \<Rightarrow> (True, (EVP_MD_CTX_cleanup out)\<lparr>digest := digest inp, md_data := md_data inp\<rparr>, h))
          else (True, (EVP_MD_CTX_cleanup out)\<lparr>digest := digest inp, md_data := md_data inp\<rparr>, h))"

definition EVP_MD_CTX_move :: "evp_md_ctx \<Rightarrow> evp_md_ctx \<Rightarrow> evp_md_ctx \<times> evp_md_ctx" where
  "EVP_MD_CTX_move out inp = (inp, EVP_MD_CTX_init)"

definition EVP_MD_CTX_copy :: "evp_md_ctx \<Rightarrow> heap \<Rightarrow> bool \<times> evp_md_ctx \<times> heap" where
  "EVP_MD_CTX_copy inp h = EVP_MD_CTX_copy_ex EVP_MD_CTX_init inp h"

definition EVP_MD_CTX_reset :: "evp_md_ctx \<Rightarrow> evp_md_ctx" where
  "EVP_MD_CTX_reset ctx = (let ctx = EVP_MD_CTX_cleanup ctx in EVP_MD_CTX_init)"

definition EVP_DigestInit_ex :: "evp_md_ctx \<Rightarrow> evp_md \<Rightarrow> heap \<Rightarrow> bool \<times> evp_md_ctx \<times> heap" where
  "EVP_DigestInit_ex ctx type h =
     (if \<not> same_md (digest ctx) (Some type) then
        (case heap_malloc (evp_ctx_size type) h of
           (None, h) \<Rightarrow> (False, ctx, h)
         | (Some junk, h) \<Rightarrow> (True, ctx\<lparr>digest := Some type, md_data := evp_init type (Raw junk)\<rparr>, h))
      else (True, ctx\<lparr>md_data := evp_init type (md_data ctx)\<rparr>, h))"

definition EVP_DigestInit :: "evp_md \<Rightarrow> heap \<Rightarrow> bool \<times> evp_md_ctx \<times> heap" where
  "EVP_DigestInit type h = EVP_DigestInit_ex EVP_MD_CTX_init type h"

text \<open>
  \<open>Update\<close> and \<open>Final\<close> want an initialised context: with a null \<open>digest\<close> the code reads through a
  null pointer, and the model leaves the context alone.
\<close>

definition EVP_DigestUpdate :: "evp_md_ctx \<Rightarrow> bytes \<Rightarrow> evp_md_ctx" where
  "EVP_DigestUpdate ctx data =
     (case digest ctx of None \<Rightarrow> ctx | Some md \<Rightarrow> ctx\<lparr>md_data := evp_update md (md_data ctx) data\<rparr>)"

text \<open>\<open>OPENSSL_cleanse\<close> of the context: zeros in every field.\<close>

definition zero_32 :: "md32_ctx \<Rightarrow> md32_ctx" where
  "zero_32 c = md32_zero\<lparr>md_h := replicate (length (md_h c)) 0\<rparr>"

definition md_cleanse :: "md_data \<Rightarrow> md_data" where
  "md_cleanse d =
     (case d of No_data \<Rightarrow> No_data | Raw bs \<Rightarrow> Raw (replicate (length bs) 0) | Ctx32 c \<Rightarrow> Ctx32 (zero_32 c)
      | Ctx64 c \<Rightarrow> Ctx64 (sha512_start (replicate 8 0) 0 (replicate 128 0))
      | Ctx_md5_sha1 c c' \<Rightarrow> Ctx_md5_sha1 (zero_32 c) (zero_32 c'))"

text \<open>What is written at \<open>md_out\<close>, the size, the context.\<close>

definition EVP_DigestFinal_ex :: "evp_md_ctx \<Rightarrow> bytes \<times> nat \<times> evp_md_ctx" where
  "EVP_DigestFinal_ex ctx =
     (case digest ctx of
        None \<Rightarrow> ([], 0, ctx)
      | Some md \<Rightarrow> (let (out, d) = evp_final md (md_data ctx) in (out, evp_md_size md, ctx\<lparr>md_data := md_cleanse d\<rparr>)))"

definition EVP_DigestFinal :: "evp_md_ctx \<Rightarrow> bytes \<times> nat \<times> evp_md_ctx" where
  "EVP_DigestFinal ctx = (let (out, n, ctx) = EVP_DigestFinal_ex ctx in (out, n, EVP_MD_CTX_cleanup ctx))"

definition EVP_Digest :: "bytes \<Rightarrow> evp_md \<Rightarrow> heap \<Rightarrow> (bytes \<times> nat) option \<times> heap" where
  "EVP_Digest data type h =
     (case EVP_DigestInit_ex EVP_MD_CTX_init type h of
        (False, ctx, h) \<Rightarrow> (None, h)
      | (True, ctx, h) \<Rightarrow>
          (let (out, n, ctx) = EVP_DigestFinal_ex (EVP_DigestUpdate ctx data) in (Some (out, n), h)))"

definition EVP_MD_CTX_md :: "evp_md_ctx option \<Rightarrow> evp_md option" where
  "EVP_MD_CTX_md ctx = (case ctx of None \<Rightarrow> None | Some ctx \<Rightarrow> digest ctx)"

text \<open>These three read the method's table; \<open>None\<close> when there is none to read.\<close>

definition EVP_MD_CTX_size :: "evp_md_ctx \<Rightarrow> nat option" where
  "EVP_MD_CTX_size ctx = map_option EVP_MD_size (EVP_MD_CTX_md (Some ctx))"

definition EVP_MD_CTX_block_size :: "evp_md_ctx \<Rightarrow> nat option" where
  "EVP_MD_CTX_block_size ctx = map_option EVP_MD_block_size (EVP_MD_CTX_md (Some ctx))"

definition EVP_MD_CTX_type :: "evp_md_ctx \<Rightarrow> nat option" where
  "EVP_MD_CTX_type ctx = map_option EVP_MD_type (EVP_MD_CTX_md (Some ctx))"

definition EVP_add_digest :: "evp_md \<Rightarrow> bool" where
  "EVP_add_digest md = True"

section \<open>What a method promises\<close>

text \<open>
  \<open>H\<close> is the hash function, \<open>rep M d\<close> says that \<open>d\<close> has taken the message \<open>M\<close>. \<open>block d\<close> is memory
  a context can be started in: what \<open>OPENSSL_malloc\<close> returns, and what is left of an old context.
\<close>

locale evp_digest =
  fixes md :: evp_md and H :: "bytes \<Rightarrow> bytes" and rep :: "bytes \<Rightarrow> md_data \<Rightarrow> bool" and mem :: "md_data \<Rightarrow> bool"
  assumes malloc_mem: "length junk = evp_ctx_size md \<Longrightarrow> mem (Raw junk)"
    and rep_mem: "rep M d \<Longrightarrow> mem d"
    and init_rep: "mem d \<Longrightarrow> rep [] (evp_init md d)"
    and update_rep: "rep M d \<Longrightarrow> rep (M @ x) (evp_update md d x)"
    and final_out: "rep M d \<Longrightarrow> fst (evp_final md d) = H M"
    and cleanse_mem: "rep M d \<Longrightarrow> mem (md_cleanse (snd (evp_final md d)))"
    and length_H: "length (H M) = evp_md_size md"
    and sizes: "0 < evp_md_size md" "evp_md_size md \<le> 64" "evp_md_size md \<le> evp_block_size md" "evp_block_size md \<le> 128"
begin

text \<open>A context of this method, before and after it takes data. A fresh one has no method yet.\<close>

definition usable :: "evp_md_ctx \<Rightarrow> bool" where
  "usable ctx \<longleftrightarrow> ctx = EVP_MD_CTX_init \<or> digest ctx = Some md \<and> mem (md_data ctx)"

definition holds :: "bytes \<Rightarrow> evp_md_ctx \<Rightarrow> bool" where
  "holds M ctx \<longleftrightarrow> digest ctx = Some md \<and> rep M (md_data ctx)"

lemma holds_usable: "holds M ctx \<Longrightarrow> usable ctx"
  using rep_mem by (auto simp: holds_def usable_def)

definition need :: "evp_md_ctx \<Rightarrow> nat" where
  "need ctx = (if digest ctx = None then 1 else 0)"

lemma init_ctx [simp]: "usable EVP_MD_CTX_init" "need EVP_MD_CTX_init = 1"
  by (simp_all add: usable_def need_def EVP_MD_CTX_init_def)

lemma holds_need: "holds M ctx \<Longrightarrow> need ctx = 0"
  by (simp add: holds_def need_def)

lemma init_holds:
  assumes "usable ctx" and "heap_ok (need ctx) h"
  shows "\<exists>ctx'. EVP_DigestInit_ex ctx md h = (True, ctx', drop (need ctx) h) \<and> holds [] ctx'"
proof (cases "digest ctx")
  case None
  then obtain junk h' where h: "h = Some junk # h'" using assms(2) by (cases h) (auto simp: heap_ok_def need_def)
  have "mem (Raw (take (evp_ctx_size md) (junk @ replicate (evp_ctx_size md) 0)))" by (rule malloc_mem) simp
  then show ?thesis
    using None h init_rep by (simp add: EVP_DigestInit_ex_def same_md_def heap_malloc_def need_def holds_def)
next
  case (Some m)
  then show ?thesis
    using assms(1) init_rep by (auto simp: usable_def EVP_MD_CTX_init_def EVP_DigestInit_ex_def same_md_def need_def holds_def)
qed

lemma init_fails: "fst (EVP_DigestInit_ex EVP_MD_CTX_init md (None # h)) = False"
  by (simp add: EVP_DigestInit_ex_def same_md_def EVP_MD_CTX_init_def heap_malloc_def)

lemma update_holds: "holds M ctx \<Longrightarrow> holds (M @ x) (EVP_DigestUpdate ctx x)"
  using update_rep by (simp add: holds_def EVP_DigestUpdate_def)

lemma updates_hold: "holds M ctx \<Longrightarrow> holds (M @ concat xs) (foldl EVP_DigestUpdate ctx xs)"
proof (induction xs arbitrary: M ctx)
  case (Cons x xs)
  then show ?case using Cons.IH [OF update_holds [OF Cons.prems, of x]] by simp
qed simp

lemma final_holds:
  assumes "holds M ctx"
  shows "\<exists>ctx'. EVP_DigestFinal_ex ctx = (H M, evp_md_size md, ctx') \<and> usable ctx' \<and> need ctx' = 0"
  using assms final_out [of M "md_data ctx"] cleanse_mem [of M "md_data ctx"]
  by (auto simp: holds_def EVP_DigestFinal_ex_def usable_def need_def case_prod_unfold)

lemma copy_holds:
  assumes "holds M inp" and "usable out" and "heap_ok (need out) h"
  shows "\<exists>out'. EVP_MD_CTX_copy_ex out inp h = (True, out', drop (need out) h) \<and> holds M out'"
proof (cases "digest out")
  case None
  then obtain junk h' where "h = Some junk # h'" using assms(3) by (cases h) (auto simp: heap_ok_def need_def)
  then show ?thesis using None assms(1)
    by (simp add: EVP_MD_CTX_copy_ex_def same_md_def heap_malloc_def need_def holds_def EVP_MD_CTX_cleanup_def EVP_MD_CTX_init_def)
next
  case (Some m)
  then show ?thesis using assms(1,2)
    by (auto simp: EVP_MD_CTX_copy_ex_def same_md_def need_def holds_def usable_def EVP_MD_CTX_cleanup_def EVP_MD_CTX_init_def)
qed

end

section \<open>All nine methods keep it\<close>

definition rep_32 :: "(u32 list \<Rightarrow> bytes \<Rightarrow> u32 list) \<Rightarrow> u32 list \<Rightarrow> nat \<Rightarrow> bytes \<Rightarrow> md_data \<Rightarrow> bool" where
  "rep_32 compress iv n M d = (case d of Ctx32 c \<Rightarrow> md32_rep compress iv M c \<and> md_len c = n | _ \<Rightarrow> False)"

lemma rep_32_obtain:
  assumes "rep_32 compress iv n M d"
  obtains c where "d = Ctx32 c" and "md32_rep compress iv M c" and "md_len c = n"
  using assms by (cases d) (auto simp: rep_32_def)

lemma update_len_1: "md_len (crypto_md32_update f b c x) = md_len c"
  using update_len [of f b c "[x]"] by simp

abbreviation (input) md_iv :: "u32 list" where "md_iv \<equiv> [0x67452301, 0xefcdab89, 0x98badcfe, 0x10325476]"

abbreviation (input) sha1_iv :: "u32 list" where
  "sha1_iv \<equiv> [0x67452301, 0xefcdab89, 0x98badcfe, 0x10325476, 0xc3d2e1f0]"

lemma md_inits:
  "MD5_Init = md32_zero\<lparr>md_h := md_iv, md_len := 0\<rparr>" "MD4_Init = md32_zero\<lparr>md_h := md_iv, md_len := 0\<rparr>"
  "SHA1_Init = md32_zero\<lparr>md_h := sha1_iv, md_len := 0\<rparr>"
  "SHA256_Init = md32_zero\<lparr>md_h := md_h SHA256_Init, md_len := 4 * 8\<rparr>"
  "SHA224_Init = md32_zero\<lparr>md_h := md_h SHA224_Init, md_len := 4 * 7\<rparr>"
  by (simp_all add: MD5_Init_def MD4_Init_def SHA1_Init_def md32_zero_def SHA256_Init_def SHA224_Init_def)

lemma md_updates:
  "MD5_Update = crypto_md32_update md5_block_data_order 64" "MD4_Update = crypto_md32_update md4_block_data_order 64"
  "SHA1_Update = crypto_md32_update sha1_block_data_order 64" "SHA256_Update = crypto_md32_update sha256_block_data_order 64"
  "SHA224_Update = crypto_md32_update sha256_block_data_order 64" "SHA384_Update = SHA512_Update" "SHA512_256_Update = SHA512_Update"
  by (intro ext; simp add: MD5_Update_def MD4_Update_def SHA1_Update_def SHA256_Update_def SHA224_Update_def
      SHA384_Update_def SHA512_256_Update_def)+

lemma md_iv_lengths: "length md_iv = 4" "length sha1_iv = 5" "length (md_h SHA256_Init) = 8" "length (md_h SHA224_Init) = 8"
  by (simp_all add: SHA256_Init_def SHA224_Init_def)

lemma md5_final_rep: "md32_rep md5_compress md_iv M c \<Longrightarrow> fst (MD5_Final c) = md_digest md5_compress M"
proof -
  assume rep: "md32_rep md5_compress md_iv M c"
  obtain a b d e where H: "chain md5_compress 64 md_iv (md_padded 64 (md_length_field False (length M)) M) = [a, b, d, e]"
    using length_4 [OF md5.ok_chain [OF md_iv_lengths(1)]] by blast
  show ?thesis
    using md5.final_h [OF md_iv_lengths(1) rep, of False] unfolding md_digest_def H
    by (simp add: MD5_Final_def Let_def store_le_bytes)
qed

lemma md4_final_rep: "md32_rep md4_compress md_iv M c \<Longrightarrow> fst (MD4_Final c) = md_digest md4_compress M"
proof -
  assume rep: "md32_rep md4_compress md_iv M c"
  obtain a b d e where H: "chain md4_compress 64 md_iv (md_padded 64 (md_length_field False (length M)) M) = [a, b, d, e]"
    using length_4 [OF md4.ok_chain [OF md_iv_lengths(1)]] by blast
  show ?thesis
    using md4.final_h [OF md_iv_lengths(1) rep, of False] unfolding md_digest_def H
    by (simp add: MD4_Final_def Let_def store_le_bytes)
qed

lemma sha1_final_rep: "md32_rep sha1_compress sha1_iv M c \<Longrightarrow> fst (SHA1_Final c) = sha1_digest M"
proof -
  assume rep: "md32_rep sha1_compress sha1_iv M c"
  let ?H = "chain sha1_compress 64 sha1_iv (md_padded 64 (md_length_field True (length M)) M)"
  have "length ?H = 5" by (rule sha1.ok_chain [OF md_iv_lengths(2)])
  then obtain a b d e f where H: "?H = [a, b, d, e, f]" by (auto simp: numeral_eq_Suc length_Suc_conv)
  show ?thesis
    using sha1.final_h [OF md_iv_lengths(2) rep, of True] unfolding sha1_digest_def H
    by (simp add: SHA1_Final_def Let_def store_be_bytes)
qed

lemma sha256_final_rep:
  assumes iv: "length iv = 8" and n: "n \<le> 8" and rep: "md32_rep sha256_compress iv M c" and len: "md_len c = 4 * n"
  shows "fst (sha256_final_impl c) = Some (sha256_digest iv n M)"
proof -
  let ?H = "chain sha256_compress 64 iv (md_padded 64 (md_length_field True (length M)) M)"
  have l: "length ?H = 8" using sha256.ok_chain [OF iv] .
  have "fst (sha256_final_impl c) = Some (concat (map (\<lambda>i. CRYPTO_store_u32_be (?H ! i)) [0..<n]))"
    unfolding sha256_final_impl_def Let_def sha256.final_h [OF iv rep] final_len len using n by simp
  then show ?thesis
    using n l map_nth_take [of n ?H "\<lambda>w. be_bytes 4 (unat w)"] by (simp add: sha256_digest_def store_be_bytes)
qed

lemma digest_lengths:
  "length (md_digest md5_compress M) = 16" "length (md_digest md4_compress M) = 16" "length (sha1_digest M) = 20"
  "length iv = 8 \<Longrightarrow> n \<le> 8 \<Longrightarrow> length (sha256_digest iv n M) = 4 * n"
  "length iv' = 8 \<Longrightarrow> n \<le> 8 \<Longrightarrow> length (sha512_digest iv' n M) = 8 * n"
  using md5.ok_chain [OF md_iv_lengths(1)] md4.ok_chain [OF md_iv_lengths(1)] sha1.ok_chain [OF md_iv_lengths(2)]
    sha256.ok_chain sha512.ok_chain
  by (simp_all add: md_digest_def sha1_digest_def sha256_digest_def sha512_digest_def length_concat comp_def sum_list_triv)

abbreviation any_mem :: "md_data \<Rightarrow> bool" where "any_mem d \<equiv> True"

lemma evp_digest_32:
  assumes init: "evp_init md = (\<lambda>d. Ctx32 (md32_zero\<lparr>md_h := iv, md_len := n\<rparr>))"
    and update: "\<And>c x. evp_update md (Ctx32 c) x = Ctx32 (crypto_md32_update f 64 c x)"
    and "md32_rep compress iv [] (md32_zero\<lparr>md_h := iv, md_len := n\<rparr>)"
    and "\<And>M c x. md32_rep compress iv M c \<Longrightarrow> md32_rep compress iv (M @ x) (crypto_md32_update f 64 c x)"
    and "\<And>M c. md32_rep compress iv M c \<Longrightarrow> md_len c = n \<Longrightarrow> fst (evp_final md (Ctx32 c)) = H M"
    and "\<And>M. length (H M) = evp_md_size md"
    and "0 < evp_md_size md" "evp_md_size md \<le> 64" "evp_block_size md = 64"
  shows "evp_digest md H (rep_32 compress iv n) any_mem"
proof unfold_locales
  show "rep_32 compress iv n (M @ x) (evp_update md d x)" if "rep_32 compress iv n M d" for M d x
    using that by (rule rep_32_obtain) (use assms(4) in \<open>simp add: update rep_32_def update_len_1\<close>)
  show "fst (evp_final md d) = H M" if "rep_32 compress iv n M d" for M d
    using that by (rule rep_32_obtain) (simp add: assms(5))
qed (use assms in \<open>simp_all add: rep_32_def\<close>)

interpretation evp_md5: evp_digest EVP_md5 "md_digest md5_compress" "rep_32 md5_compress md_iv 0" any_mem
  using md5.stream_rep [OF md_iv_lengths(1), of "[]" 0] md5.update_rep [OF md_iv_lengths(1)]
  by (intro evp_digest_32) (simp_all add: EVP_md5_def md5_init_def [abs_def] md_inits md5_update_def md_updates
      md5_final_def md5_final_rep [symmetric] case_prod_unfold Let_def digest_lengths)

interpretation evp_md4: evp_digest EVP_md4 "md_digest md4_compress" "rep_32 md4_compress md_iv 0" any_mem
  using md4.stream_rep [OF md_iv_lengths(1), of "[]" 0] md4.update_rep [OF md_iv_lengths(1)]
  by (intro evp_digest_32) (simp_all add: EVP_md4_def md4_init_def [abs_def] md_inits md4_update_def md_updates
      md4_final_def md4_final_rep [symmetric] case_prod_unfold Let_def digest_lengths)

interpretation evp_sha1: evp_digest EVP_sha1 sha1_digest "rep_32 sha1_compress sha1_iv 0" any_mem
  using sha1.stream_rep [OF md_iv_lengths(2), of "[]" 0] sha1.update_rep [OF md_iv_lengths(2)]
  by (intro evp_digest_32) (simp_all add: EVP_sha1_def sha1_init_def [abs_def] md_inits sha1_update_def md_updates
      sha1_final_def sha1_final_rep [symmetric] case_prod_unfold Let_def digest_lengths)

interpretation evp_sha256: evp_digest EVP_sha256 "sha256_digest (md_h SHA256_Init) 8"
  "rep_32 sha256_compress (md_h SHA256_Init) 32" any_mem
  using sha256.stream_rep [OF md_iv_lengths(3), of "[]" 32] sha256.update_rep [OF md_iv_lengths(3)]
    sha256_final_rep [OF md_iv_lengths(3), of 8]
  by (intro evp_digest_32) (simp_all add: EVP_sha256_def sha256_init_def [abs_def] md_inits(4) [symmetric, simplified]
      sha256_update_def md_updates sha256_final_def SHA256_Final_def case_prod_unfold Let_def digest_lengths md_iv_lengths)

interpretation evp_sha224: evp_digest EVP_sha224 "sha256_digest (md_h SHA224_Init) 7"
  "rep_32 sha256_compress (md_h SHA224_Init) 28" any_mem
  using sha256.stream_rep [OF md_iv_lengths(4), of "[]" 28] sha256.update_rep [OF md_iv_lengths(4)]
    sha256_final_rep [OF md_iv_lengths(4), of 7]
  by (intro evp_digest_32) (simp_all add: EVP_sha224_def sha224_init_def [abs_def] md_inits(5) [symmetric, simplified]
      sha224_update_def md_updates sha224_final_def SHA224_Final_def case_prod_unfold Let_def digest_lengths md_iv_lengths)

definition rep_md5_sha1 :: "bytes \<Rightarrow> md_data \<Rightarrow> bool" where
  "rep_md5_sha1 M d =
     (case d of Ctx_md5_sha1 c c' \<Rightarrow> rep_32 md5_compress md_iv 0 M (Ctx32 c) \<and> rep_32 sha1_compress sha1_iv 0 M (Ctx32 c')
      | _ \<Rightarrow> False)"

interpretation evp_md5_sha1: evp_digest EVP_md5_sha1 "\<lambda>M. md_digest md5_compress M @ sha1_digest M" rep_md5_sha1 any_mem
proof unfold_locales
  show "rep_md5_sha1 [] (evp_init EVP_md5_sha1 d)" for d
    using evp_md5.init_rep [of d] evp_sha1.init_rep [of d]
    by (simp add: EVP_md5_sha1_def md5_sha1_init_def rep_md5_sha1_def EVP_md5_def EVP_sha1_def md5_init_def sha1_init_def)
  show "rep_md5_sha1 (M @ x) (evp_update EVP_md5_sha1 d x)" if r: "rep_md5_sha1 M d" for M d x
  proof -
    obtain c c' where d: "d = Ctx_md5_sha1 c c'" using r by (cases d) (auto simp: rep_md5_sha1_def)
    show ?thesis
      using r evp_md5.update_rep [of M "Ctx32 c" x] evp_sha1.update_rep [of M "Ctx32 c'" x]
      by (simp add: d EVP_md5_sha1_def md5_sha1_update_def rep_md5_sha1_def EVP_md5_def EVP_sha1_def md5_update_def
          sha1_update_def)
  qed
  show "fst (evp_final EVP_md5_sha1 d) = md_digest md5_compress M @ sha1_digest M" if "rep_md5_sha1 M d" for M d
    using that
    by (auto simp: EVP_md5_sha1_def md5_sha1_final_def rep_md5_sha1_def rep_32_def md5_final_rep [symmetric]
        sha1_final_rep [symmetric] case_prod_unfold Let_def split: md_data.splits)
qed (simp_all add: EVP_md5_sha1_def digest_lengths)

definition rep_64 :: "u64 list \<Rightarrow> nat \<Rightarrow> bytes \<Rightarrow> md_data \<Rightarrow> bool" where
  "rep_64 iv n M d = (case d of Ctx64 c \<Rightarrow> sha512_rep iv M c \<and> sha_len c = n | _ \<Rightarrow> False)"

definition mem_64 :: "md_data \<Rightarrow> bool" where
  "mem_64 d = (case d of Raw junk \<Rightarrow> length junk = 216 | Ctx64 c \<Rightarrow> length (sha_p c) = 128 | _ \<Rightarrow> False)"

lemma md_buffer_mem: "mem_64 d \<Longrightarrow> length (md_buffer d) = 128"
  by (cases d) (simp_all add: mem_64_def md_buffer_def)

lemma rep_64_mem: "rep_64 iv n M d \<Longrightarrow> mem_64 d"
  by (cases d) (simp_all add: mem_64_def rep_64_def sha512_rep_def)

lemma rep_64_start: "length iv = 8 \<Longrightarrow> mem_64 d \<Longrightarrow> rep_64 iv n [] (Ctx64 (sha512_start iv n (md_buffer d)))"
  using sha512_rep_run [of iv "md_buffer d" "[]" n] md_buffer_mem [of d]
  by (simp add: rep_64_def) (simp add: sha512_start_def)

lemma rep_64_update:
  "length iv = 8 \<Longrightarrow> rep_64 iv n M d \<Longrightarrow> \<exists>c. d = Ctx64 c \<and> rep_64 iv n (M @ x) (Ctx64 (SHA512_Update c x))"
  using sha512_update_rep [of iv M _ x] by (cases d) (auto simp: rep_64_def sha512_update_len)

lemma rep_64_final:
  "length iv = 8 \<Longrightarrow> n \<le> 8 \<Longrightarrow> rep_64 iv (8 * n) M d \<Longrightarrow>
   \<exists>c. d = Ctx64 c \<and> fst (sha512_final_impl c) = sha512_digest iv n M"
  using sha512_final [of iv M _ n] by (cases d) (auto simp: rep_64_def)

lemma cleanse_64: "mem_64 (md_cleanse (Ctx64 c))"
  by (simp add: mem_64_def md_cleanse_def sha512_start_def)

lemma sha512_inits:
  "SHA512_Init = sha512_start (sha_h (SHA512_Init [])) 64" "SHA384_Init = sha512_start (sha_h (SHA384_Init [])) 48"
  "SHA512_256_Init = sha512_start (sha_h (SHA512_256_Init [])) 32"
  by (simp_all add: SHA512_Init_def SHA384_Init_def SHA512_256_Init_def) (simp_all add: sha512_start_def)

lemma sha512_iv_lengths:
  "length (sha_h (SHA512_Init [])) = 8" "length (sha_h (SHA384_Init [])) = 8" "length (sha_h (SHA512_256_Init [])) = 8"
  by (simp_all add: SHA512_Init_def SHA384_Init_def SHA512_256_Init_def sha512_start_def)

lemma evp_digest_64:
  assumes iv: "length iv = 8" "n \<le> 8" and mdn: "evp_md_size md = 8 * n" "0 < n" "evp_block_size md = 128" "evp_ctx_size md = 216"
    and init: "evp_init md = (\<lambda>d. Ctx64 (sha512_start iv (8 * n) (md_buffer d)))"
    and update: "\<And>c x. evp_update md (Ctx64 c) x = Ctx64 (SHA512_Update c x)"
    and final: "\<And>c. evp_final md (Ctx64 c) = (fst (sha512_final_impl c), Ctx64 (snd (sha512_final_impl c)))"
  shows "evp_digest md (sha512_digest iv n) (rep_64 iv (8 * n)) mem_64"
proof unfold_locales
  show "rep_64 iv (8 * n) [] (evp_init md d)" if "mem_64 d" for d
    unfolding init by (rule rep_64_start [OF iv(1) that])
  show "rep_64 iv (8 * n) (M @ x) (evp_update md d x)" if "rep_64 iv (8 * n) M d" for M d x
    using rep_64_update [OF iv(1) that, of x] by (auto simp: update)
  show "fst (evp_final md d) = sha512_digest iv n M" "mem_64 (md_cleanse (snd (evp_final md d)))"
    if "rep_64 iv (8 * n) M d" for M d
    using rep_64_final [OF iv that] by (auto simp: final cleanse_64)
  show "mem_64 (Raw junk)" if "length junk = evp_ctx_size md" for junk
    using that mdn by (simp add: mem_64_def)
qed (use assms in \<open>simp_all add: rep_64_mem digest_lengths\<close>)

interpretation evp_sha512: evp_digest EVP_sha512 "sha512_digest (sha_h (SHA512_Init [])) 8"
  "rep_64 (sha_h (SHA512_Init [])) 64" mem_64
  using evp_digest_64 [OF sha512_iv_lengths(1), of 8 EVP_sha512]
  by (simp add: EVP_sha512_def sha512_init_def [abs_def] sha512_inits(1) [symmetric] sha512_update_def
      sha512_final_def SHA512_Final_def case_prod_unfold Let_def)

interpretation evp_sha384: evp_digest EVP_sha384 "sha512_digest (sha_h (SHA384_Init [])) 6"
  "rep_64 (sha_h (SHA384_Init [])) 48" mem_64
  using evp_digest_64 [OF sha512_iv_lengths(2), of 6 EVP_sha384]
  by (simp add: EVP_sha384_def sha384_init_def [abs_def] sha512_inits(2) [symmetric] sha384_update_def
      sha384_final_def SHA384_Final_def case_prod_unfold Let_def md_updates)

interpretation evp_sha512_256: evp_digest EVP_sha512_256 "sha512_digest (sha_h (SHA512_256_Init [])) 4"
  "rep_64 (sha_h (SHA512_256_Init [])) 32" mem_64
  using evp_digest_64 [OF sha512_iv_lengths(3), of 4 EVP_sha512_256]
  by (simp add: EVP_sha512_256_def sha512_256_init_def [abs_def] sha512_inits(3) [symmetric] sha512_256_update_def
      sha512_256_final_def SHA512_256_Final_def case_prod_unfold Let_def md_updates)

section \<open>Hashing through the interface\<close>

definition evp_methods :: "(evp_md \<times> (bytes \<Rightarrow> bytes)) list" where
  "evp_methods =
     [(EVP_md4, md_digest md4_compress), (EVP_md5, md_digest md5_compress), (EVP_sha1, sha1_digest),
      (EVP_sha224, sha256_digest fips224_iv 7), (EVP_sha256, sha256_digest fips256_iv 8),
      (EVP_sha384, sha512_digest fips384_iv 6), (EVP_sha512, sha512_digest fips512_iv 8),
      (EVP_sha512_256, sha512_digest fips512_256_iv 4),
      (EVP_md5_sha1, \<lambda>M. md_digest md5_compress M @ sha1_digest M)]"

lemma evp_methods_keep: "(md, H) \<in> set evp_methods \<Longrightarrow> \<exists>rep mem. evp_digest md H rep mem"
  using evp_md4.evp_digest_axioms evp_md5.evp_digest_axioms evp_sha1.evp_digest_axioms evp_sha224.evp_digest_axioms
    evp_sha256.evp_digest_axioms evp_sha384.evp_digest_axioms evp_sha512.evp_digest_axioms
    evp_sha512_256.evp_digest_axioms evp_md5_sha1.evp_digest_axioms
  by (auto simp: evp_methods_def fips_ivs)

context evp_digest
begin

lemma digest_once:
  "EVP_Digest data md h = (if heap_ok 1 h then (Some (H data, evp_md_size md), drop 1 h) else (None, drop 1 h))"
proof (cases "heap_ok 1 h")
  case True
  obtain ctx where i: "EVP_DigestInit_ex EVP_MD_CTX_init md h = (True, ctx, drop 1 h)" "holds [] ctx"
    using init_holds [of EVP_MD_CTX_init h] True by auto
  obtain ctx' where "EVP_DigestFinal_ex (EVP_DigestUpdate ctx data) = (H data, evp_md_size md, ctx')"
    using final_holds [OF update_holds [OF i(2), of data]] by auto
  then show ?thesis using True i(1) by (simp add: EVP_Digest_def)
next
  case False
  then have "heap_malloc (evp_ctx_size md) h = (None, drop 1 h)"
    by (cases h) (auto simp: heap_ok_def heap_malloc_def)
  then show ?thesis
    using False by (simp add: EVP_Digest_def EVP_DigestInit_ex_def same_md_def EVP_MD_CTX_init_def)
qed

lemma digest_again:
  assumes "usable ctx" and "heap_ok (need ctx) h"
  shows "\<exists>ctx' ctx''. EVP_DigestInit_ex ctx md h = (True, ctx', drop (need ctx) h) \<and>
    EVP_DigestFinal_ex (foldl EVP_DigestUpdate ctx' xs) = (H (concat xs), evp_md_size md, ctx'') \<and>
    usable ctx'' \<and> need ctx'' = 0"
proof -
  obtain ctx' where i: "EVP_DigestInit_ex ctx md h = (True, ctx', drop (need ctx) h)" "holds [] ctx'"
    using init_holds [OF assms] by blast
  show ?thesis using i final_holds [OF updates_hold [OF i(2), of xs]] by auto
qed

end

text \<open>
  C13: hashing through the interface, for each of the nine methods. \<open>EVP_Digest\<close> gives the digest and
  its size exactly when \<open>OPENSSL_malloc\<close> does. And one context serves many messages: started once
  with memory, fed a message in any pieces and finished, it can be started again without another
  allocation and hashes the next message just as well.
\<close>

theorem evp_digest_correct:
  assumes "(md, H) \<in> set evp_methods"
  shows "EVP_Digest data md h = (if heap_ok 1 h then (Some (H data, evp_md_size md), drop 1 h) else (None, drop 1 h)) \<and>
    length (H data) = evp_md_size md \<and>
    (heap_ok 1 h \<longrightarrow>
      (\<exists>c1 c2 c3 c4. EVP_DigestInit_ex EVP_MD_CTX_init md h = (True, c1, drop 1 h) \<and>
        EVP_DigestFinal_ex (foldl EVP_DigestUpdate c1 xs) = (H (concat xs), evp_md_size md, c2) \<and>
        EVP_DigestInit_ex c2 md [] = (True, c3, []) \<and>
        EVP_DigestFinal_ex (foldl EVP_DigestUpdate c3 ys) = (H (concat ys), evp_md_size md, c4)))"
proof -
  obtain rep mem where r: "evp_digest md H rep mem" using evp_methods_keep [OF assms] by blast
  have "\<exists>c1 c2 c3 c4. EVP_DigestInit_ex EVP_MD_CTX_init md h = (True, c1, drop 1 h) \<and>
        EVP_DigestFinal_ex (foldl EVP_DigestUpdate c1 xs) = (H (concat xs), evp_md_size md, c2) \<and>
        EVP_DigestInit_ex c2 md [] = (True, c3, []) \<and>
        EVP_DigestFinal_ex (foldl EVP_DigestUpdate c3 ys) = (H (concat ys), evp_md_size md, c4)" if ok: "heap_ok 1 h"
  proof -
    obtain c1 c2 where c: "EVP_DigestInit_ex EVP_MD_CTX_init md h = (True, c1, drop 1 h)"
        "EVP_DigestFinal_ex (foldl EVP_DigestUpdate c1 xs) = (H (concat xs), evp_md_size md, c2)"
        "evp_digest.usable md mem c2" "evp_digest.need c2 = 0"
      using evp_digest.digest_again [OF r, of EVP_MD_CTX_init h xs] evp_digest.init_ctx [OF r] ok by auto
    show ?thesis
      using c evp_digest.digest_again [OF r c(3), of "[]" ys] by (auto simp: c(4) heap_ok_def)
  qed
  then show ?thesis using evp_digest.digest_once [OF r] evp_digest.length_H [OF r] by simp
qed

theorem evp_digest_correct_witness:
  "EVP_Digest [1, 2, 3] EVP_sha256 [Some []] = (Some (sha256_digest fips256_iv 8 [1, 2, 3], 32), [])"
  using evp_digest_correct [of EVP_sha256 "sha256_digest fips256_iv 8" "[1, 2, 3]" "[Some []]"]
  by (simp add: evp_methods_def heap_ok_def) (simp add: EVP_sha256_def)

end
