(* ===== verification/Ssl_Hmac.thy ===== *)
theory Ssl_Hmac
  imports Ssl_Evp
begin

text \<open>
  HMAC and HKDF, \<open>crypto/fipsmodule/hmac/hmac.c\<close> and \<open>crypto/hkdf/hkdf.c\<close>, over the digest
  interface, against RFC 2104 and RFC 5869.
\<close>

unbundle bit_operations_syntax

section \<open>HMAC\<close>

record hmac_ctx =
  hmac_md :: "evp_md option"
  md_ctx :: evp_md_ctx
  i_ctx :: evp_md_ctx
  o_ctx :: evp_md_ctx

definition HMAC_CTX_init :: hmac_ctx where
  "HMAC_CTX_init = \<lparr>hmac_md = None, md_ctx = EVP_MD_CTX_init, i_ctx = EVP_MD_CTX_init, o_ctx = EVP_MD_CTX_init\<rparr>"

definition HMAC_CTX_new :: "heap \<Rightarrow> hmac_ctx option \<times> heap" where
  "HMAC_CTX_new h = (let (m, h) = heap_malloc 104 h in (map_option (\<lambda>_. HMAC_CTX_init) m, h))"

text \<open>After the cleansing every pointer is null and every digest unset.\<close>

definition HMAC_CTX_cleanup :: "hmac_ctx \<Rightarrow> hmac_ctx" where
  "HMAC_CTX_cleanup ctx =
     ctx\<lparr>hmac_md := None, i_ctx := EVP_MD_CTX_cleanup (i_ctx ctx), o_ctx := EVP_MD_CTX_cleanup (o_ctx ctx),
         md_ctx := EVP_MD_CTX_cleanup (md_ctx ctx)\<rparr>"

text \<open>The key as it is or hashed, and its length: \<open>key_block\<close> and \<open>key_block_len\<close>.\<close>

definition hmac_key_block :: "hmac_ctx \<Rightarrow> bytes \<Rightarrow> evp_md \<Rightarrow> heap \<Rightarrow> (bytes \<times> nat) option \<times> hmac_ctx \<times> heap" where
  "hmac_key_block ctx key md h =
     (if EVP_MD_block_size md < length key then
        (case EVP_DigestInit_ex (md_ctx ctx) md h of
           (False, c, h) \<Rightarrow> (None, ctx\<lparr>md_ctx := c\<rparr>, h)
         | (True, c, h) \<Rightarrow>
             (let (key_block, n, c) = EVP_DigestFinal_ex (EVP_DigestUpdate c key) in (Some (key_block, n), ctx\<lparr>md_ctx := c\<rparr>, h)))
      else (Some (key, length key), ctx, h))"

text \<open>The body of \<open>if (md != ctx->md || key != NULL)\<close>.\<close>

definition hmac_set_key :: "hmac_ctx \<Rightarrow> bytes \<Rightarrow> evp_md \<Rightarrow> heap \<Rightarrow> bool \<times> hmac_ctx \<times> heap" where
  "hmac_set_key ctx key md h =
     (case hmac_key_block ctx key md h of
        (None, ctx, h) \<Rightarrow> (False, ctx, h)
      | (Some (k, n), ctx, h) \<Rightarrow>
          (let key_block = take n k @ replicate (128 - n) 0;
               pad = map (\<lambda>b. 0x36 XOR b) key_block
           in case EVP_DigestInit_ex (i_ctx ctx) md h of
                (False, c, h) \<Rightarrow> (False, ctx\<lparr>i_ctx := c\<rparr>, h)
              | (True, c, h) \<Rightarrow>
                  (let ctx = ctx\<lparr>i_ctx := EVP_DigestUpdate c (take (EVP_MD_block_size md) pad)\<rparr>;
                       pad = map (\<lambda>b. 0x5c XOR b) key_block
                   in case EVP_DigestInit_ex (o_ctx ctx) md h of
                        (False, c, h) \<Rightarrow> (False, ctx\<lparr>o_ctx := c\<rparr>, h)
                      | (True, c, h) \<Rightarrow>
                          (True, ctx\<lparr>o_ctx := EVP_DigestUpdate c (take (EVP_MD_block_size md) pad), hmac_md := Some md\<rparr>, h))))"

text \<open>
  A null \<open>key\<close> comes with length 0. A null \<open>md\<close> with a key, on a context that never had one, is read
  through; the model returns 0 there.
\<close>

definition HMAC_Init_ex :: "hmac_ctx \<Rightarrow> bytes option \<Rightarrow> evp_md option \<Rightarrow> heap \<Rightarrow> bool \<times> hmac_ctx \<times> heap" where
  "HMAC_Init_ex ctx key md h =
     (let md = (case md of None \<Rightarrow> hmac_md ctx | Some md \<Rightarrow> Some md) in
      case (if \<not> same_md md (hmac_md ctx) \<or> key \<noteq> None
            then (case md of None \<Rightarrow> (False, ctx, h) | Some md \<Rightarrow> hmac_set_key ctx (case key of None \<Rightarrow> [] | Some k \<Rightarrow> k) md h)
            else (True, ctx, h)) of
        (False, ctx, h) \<Rightarrow> (False, ctx, h)
      | (True, ctx, h) \<Rightarrow>
          (let (ok, c, h) = EVP_MD_CTX_copy_ex (md_ctx ctx) (i_ctx ctx) h in (ok, ctx\<lparr>md_ctx := c\<rparr>, h)))"

definition HMAC_Init :: "hmac_ctx \<Rightarrow> bytes option \<Rightarrow> evp_md option \<Rightarrow> heap \<Rightarrow> bool \<times> hmac_ctx \<times> heap" where
  "HMAC_Init ctx key md h = HMAC_Init_ex (if key \<noteq> None \<and> md \<noteq> None then HMAC_CTX_init else ctx) key md h"

definition HMAC_Update :: "hmac_ctx \<Rightarrow> bytes \<Rightarrow> hmac_ctx" where
  "HMAC_Update ctx data = ctx\<lparr>md_ctx := EVP_DigestUpdate (md_ctx ctx) data\<rparr>"

text \<open>Success, the bytes written at \<open>out\<close>, \<open>*out_len\<close>, the context.\<close>

definition HMAC_Final :: "hmac_ctx \<Rightarrow> heap \<Rightarrow> bool \<times> bytes \<times> nat \<times> hmac_ctx \<times> heap" where
  "HMAC_Final ctx h =
     (let (buf, i, c) = EVP_DigestFinal_ex (md_ctx ctx) in
      case EVP_MD_CTX_copy_ex c (o_ctx ctx) h of
        (False, c, h) \<Rightarrow> (False, [], 0, ctx\<lparr>md_ctx := c\<rparr>, h)
      | (True, c, h) \<Rightarrow>
          (let (out, n, c) = EVP_DigestFinal_ex (EVP_DigestUpdate c (take i buf)) in (True, out, n, ctx\<lparr>md_ctx := c\<rparr>, h)))"

definition HMAC_size :: "hmac_ctx \<Rightarrow> nat option" where
  "HMAC_size ctx = map_option EVP_MD_size (hmac_md ctx)"

definition HMAC_CTX_copy_ex :: "hmac_ctx \<Rightarrow> hmac_ctx \<Rightarrow> heap \<Rightarrow> bool \<times> hmac_ctx \<times> heap" where
  "HMAC_CTX_copy_ex dest src h =
     (case EVP_MD_CTX_copy_ex (i_ctx dest) (i_ctx src) h of
        (False, c, h) \<Rightarrow> (False, dest\<lparr>i_ctx := c\<rparr>, h)
      | (True, c, h) \<Rightarrow>
          (let dest = dest\<lparr>i_ctx := c\<rparr> in
           case EVP_MD_CTX_copy_ex (o_ctx dest) (o_ctx src) h of
             (False, c, h) \<Rightarrow> (False, dest\<lparr>o_ctx := c\<rparr>, h)
           | (True, c, h) \<Rightarrow>
               (let dest = dest\<lparr>o_ctx := c\<rparr> in
                case EVP_MD_CTX_copy_ex (md_ctx dest) (md_ctx src) h of
                  (False, c, h) \<Rightarrow> (False, dest\<lparr>md_ctx := c\<rparr>, h)
                | (True, c, h) \<Rightarrow> (True, dest\<lparr>md_ctx := c, hmac_md := hmac_md src\<rparr>, h))))"

definition HMAC_CTX_reset :: "hmac_ctx \<Rightarrow> hmac_ctx" where
  "HMAC_CTX_reset ctx = (let ctx = HMAC_CTX_cleanup ctx in HMAC_CTX_init)"

definition HMAC_CTX_copy :: "hmac_ctx \<Rightarrow> heap \<Rightarrow> bool \<times> hmac_ctx \<times> heap" where
  "HMAC_CTX_copy src h = HMAC_CTX_copy_ex HMAC_CTX_init src h"

text \<open>What is written at \<open>out\<close> and at \<open>out_len\<close>, or nothing for a null pointer.\<close>

definition HMAC :: "evp_md \<Rightarrow> bytes option \<Rightarrow> bytes \<Rightarrow> heap \<Rightarrow> (bytes \<times> nat) option \<times> heap" where
  "HMAC md key data h =
     (case HMAC_Init_ex HMAC_CTX_init key (Some md) h of
        (False, ctx, h) \<Rightarrow> (None, h)
      | (True, ctx, h) \<Rightarrow>
          (case HMAC_Final (HMAC_Update ctx data) h of
             (ok, out, out_len, ctx, h) \<Rightarrow> (if ok then Some (out, out_len) else None, h)))"

section \<open>HKDF\<close>

definition HKDF_extract :: "evp_md \<Rightarrow> bytes \<Rightarrow> bytes option \<Rightarrow> heap \<Rightarrow> (bytes \<times> nat) option \<times> heap" where
  "HKDF_extract md secret salt h = HMAC md salt secret h"

text \<open>
  The loop from \<open>i\<close> on with \<open>k\<close> turns to go; \<open>out\<close> is what has been written at \<open>out_key\<close>, so
  \<open>done\<close> is its length.
\<close>

fun hkdf_loop :: "nat \<Rightarrow> nat \<Rightarrow> nat \<Rightarrow> nat \<Rightarrow> bytes \<Rightarrow> hmac_ctx \<Rightarrow> bytes \<Rightarrow> bytes \<Rightarrow> heap \<Rightarrow> bool \<times> bytes \<times> hmac_ctx \<times> heap" where
  "hkdf_loop 0 i digest_len out_len info hmac previous out h = (True, out, hmac, h)"
| "hkdf_loop (Suc k) i digest_len out_len info hmac previous out h =
     (case (if i \<noteq> 0 then
              (case HMAC_Init_ex hmac None None h of
                 (False, hmac, h) \<Rightarrow> (False, hmac, h)
               | (True, hmac, h) \<Rightarrow> (True, HMAC_Update hmac (take digest_len previous), h))
            else (True, hmac, h)) of
        (False, hmac, h) \<Rightarrow> (False, out, hmac, h)
      | (True, hmac, h) \<Rightarrow>
          (case HMAC_Final (HMAC_Update (HMAC_Update hmac info) [of_nat (i + 1)]) h of
             (False, previous, n, hmac, h) \<Rightarrow> (False, out, hmac, h)
           | (True, previous, n, hmac, h) \<Rightarrow>
               (let todo = (if out_len < size_add (length out) digest_len then out_len - length out else digest_len)
                in hkdf_loop k (i + 1) digest_len out_len info hmac previous (out @ take todo previous) h)))"

definition HKDF_expand :: "nat \<Rightarrow> evp_md \<Rightarrow> bytes \<Rightarrow> bytes \<Rightarrow> heap \<Rightarrow> bool \<times> bytes \<times> heap" where
  "HKDF_expand out_len md prk info h =
     (let digest_len = EVP_MD_size md;
          n = (size_add out_len digest_len + SIZE_LIMIT - 1) mod SIZE_LIMIT div digest_len
      in if size_add out_len digest_len < out_len \<or> 255 < n then (False, [], h)
         else case HMAC_Init_ex HMAC_CTX_init (Some prk) (Some md) h of
                (False, hmac, h) \<Rightarrow> (False, [], h)
              | (True, hmac, h) \<Rightarrow>
                  (let (ok, out, hmac, h) = hkdf_loop n 0 digest_len out_len info hmac [] [] h in (ok, out, h)))"

definition HKDF :: "nat \<Rightarrow> evp_md \<Rightarrow> bytes \<Rightarrow> bytes option \<Rightarrow> bytes \<Rightarrow> heap \<Rightarrow> bool \<times> bytes \<times> heap" where
  "HKDF out_len md secret salt info h =
     (case HKDF_extract md secret salt h of
        (None, h) \<Rightarrow> (False, [], h)
      | (Some (prk, prk_len), h) \<Rightarrow> HKDF_expand out_len md (take prk_len prk) info h)"

section \<open>The RFCs\<close>

definition hmac_pad :: "(bytes \<Rightarrow> bytes) \<Rightarrow> nat \<Rightarrow> bytes \<Rightarrow> byte \<Rightarrow> bytes" where
  "hmac_pad H bs key c =
     (let k = (if bs < length key then H key else key) in map (\<lambda>b. c XOR b) (k @ replicate (bs - length k) 0))"

definition rfc_hmac :: "(bytes \<Rightarrow> bytes) \<Rightarrow> nat \<Rightarrow> bytes \<Rightarrow> bytes \<Rightarrow> bytes" where
  "rfc_hmac H bs key M = H (hmac_pad H bs key 0x5c @ H (hmac_pad H bs key 0x36 @ M))"

text \<open>\<open>T\<close> of RFC 5869 and the output keying material of length \<open>n\<close>.\<close>

fun hkdf_T :: "(bytes \<Rightarrow> bytes \<Rightarrow> bytes) \<Rightarrow> bytes \<Rightarrow> bytes \<Rightarrow> nat \<Rightarrow> bytes" where
  "hkdf_T mac prk info 0 = []"
| "hkdf_T mac prk info (Suc i) = mac prk (hkdf_T mac prk info i @ info @ [of_nat (Suc i)])"

definition rfc_hkdf :: "(bytes \<Rightarrow> bytes \<Rightarrow> bytes) \<Rightarrow> bytes \<Rightarrow> bytes \<Rightarrow> bytes \<Rightarrow> nat \<Rightarrow> bytes" where
  "rfc_hkdf mac salt secret info n = take n (concat (map (hkdf_T mac (mac salt secret) info) [1..<256]))"

section \<open>The code computes them\<close>

lemma heap_ok_add: "heap_ok (a + b) h \<longleftrightarrow> heap_ok a h \<and> heap_ok b (drop a h)"
  by (auto simp: heap_ok_def take_add)

lemma upt_split: "a \<le> b \<Longrightarrow> b \<le> c \<Longrightarrow> [a..<c] = [a..<b] @ [b..<c]"
  using upt_add_eq_append [of a b "c - b"] by simp

lemma heap_ok_0 [simp]: "heap_ok 0 h"
  by (simp add: heap_ok_def)

context evp_digest
begin

abbreviation bs :: nat where "bs \<equiv> evp_block_size md"

definition keyed :: "bytes \<Rightarrow> hmac_ctx \<Rightarrow> bool" where
  "keyed key ctx \<longleftrightarrow> hmac_md ctx = Some md \<and> holds (hmac_pad H bs key 0x36) (i_ctx ctx) \<and>
     holds (hmac_pad H bs key 0x5c) (o_ctx ctx) \<and> usable (md_ctx ctx)"

definition running :: "bytes \<Rightarrow> bytes \<Rightarrow> hmac_ctx \<Rightarrow> bool" where
  "running key M ctx \<longleftrightarrow> keyed key ctx \<and> holds (hmac_pad H bs key 0x36 @ M) (md_ctx ctx)"

definition hmac_need :: "hmac_ctx \<Rightarrow> nat" where
  "hmac_need ctx = need (md_ctx ctx) + need (i_ctx ctx) + need (o_ctx ctx)"

lemma key_block:
  assumes "usable (md_ctx ctx)" and "heap_ok (need (md_ctx ctx)) h"
  shows "\<exists>k c m. hmac_key_block ctx key md h = (Some (k, length k), ctx\<lparr>md_ctx := c\<rparr>, drop m h) \<and>
    k = (if bs < length key then H key else key) \<and> usable c \<and> m + need c = need (md_ctx ctx)"
proof (cases "bs < length key")
  case True
  obtain c where i: "EVP_DigestInit_ex (md_ctx ctx) md h = (True, c, drop (need (md_ctx ctx)) h)" "holds [] c"
    using init_holds [OF assms] by blast
  obtain c' where "EVP_DigestFinal_ex (EVP_DigestUpdate c key) = (H key, evp_md_size md, c')" "usable c'" "need c' = 0"
    using final_holds [OF update_holds [OF i(2), of key]] by auto
  then show ?thesis using True i(1) by (auto simp: hmac_key_block_def EVP_MD_block_size_def length_H)
next
  case False
  then have "hmac_key_block ctx key md h = (Some (key, length key), ctx\<lparr>md_ctx := md_ctx ctx\<rparr>, drop 0 h)"
    by (simp add: hmac_key_block_def EVP_MD_block_size_def)
  then show ?thesis
    using False assms(1) by (intro exI [of _ key] exI [of _ "md_ctx ctx"] exI [of _ 0]) simp
qed

lemma pad_block:
  assumes "k = (if bs < length key then H key else key)"
  shows "take bs (map (\<lambda>b. x XOR b) (k @ replicate (128 - length k) 0)) = hmac_pad H bs key x"
proof -
  have "length k \<le> bs" using assms sizes(3) by (simp add: length_H)
  then show ?thesis
    using sizes(4) by (simp add: hmac_pad_def assms [symmetric] take_map [symmetric] min_def)
qed

lemma set_key:
  assumes "usable (md_ctx ctx)" "usable (i_ctx ctx)" "usable (o_ctx ctx)" and ok: "heap_ok (hmac_need ctx) h"
  shows "\<exists>ctx' m. hmac_set_key ctx key md h = (True, ctx', drop m h) \<and> keyed key ctx' \<and>
    m + need (md_ctx ctx') = hmac_need ctx"
proof -
  have okm: "heap_ok (need (md_ctx ctx)) h" using ok by (simp add: hmac_need_def heap_ok_add)
  obtain k c m where kb: "hmac_key_block ctx key md h = (Some (k, length k), ctx\<lparr>md_ctx := c\<rparr>, drop m h)"
    and k: "k = (if bs < length key then H key else key)" and c: "usable c" "m + need c = need (md_ctx ctx)"
    using key_block [OF assms(1) okm] by blast
  have "heap_ok (m + (need (i_ctx ctx) + (need (o_ctx ctx) + need c))) h"
    using ok unfolding hmac_need_def c(2) [symmetric] by (simp only: ac_simps)
  then have ok': "heap_ok (need (i_ctx ctx)) (drop m h)" "heap_ok (need (o_ctx ctx)) (drop (m + need (i_ctx ctx)) h)"
    by (simp_all add: heap_ok_add add.commute [of _ m])
  obtain ci where ci: "EVP_DigestInit_ex (i_ctx ctx) md (drop m h) = (True, ci, drop (m + need (i_ctx ctx)) h)" "holds [] ci"
    using init_holds [OF assms(2) ok'(1)] by (auto simp: add.commute)
  obtain co where co: "EVP_DigestInit_ex (o_ctx ctx) md (drop (m + need (i_ctx ctx)) h) =
      (True, co, drop (m + need (i_ctx ctx) + need (o_ctx ctx)) h)" "holds [] co"
    using init_holds [OF assms(3) ok'(2)] by (auto simp: ac_simps)
  let ?ctx = "ctx\<lparr>md_ctx := c, i_ctx := EVP_DigestUpdate ci (hmac_pad H bs key 0x36),
    o_ctx := EVP_DigestUpdate co (hmac_pad H bs key 0x5c), hmac_md := Some md\<rparr>"
  have "hmac_set_key ctx key md h = (True, ?ctx, drop (m + need (i_ctx ctx) + need (o_ctx ctx)) h)"
    unfolding hmac_set_key_def kb using ci(1) co(1) pad_block [OF k]
    by (simp add: Let_def EVP_MD_block_size_def)
  moreover have "keyed key ?ctx"
    using update_holds [OF ci(2)] update_holds [OF co(2)] c(1) by (simp add: keyed_def)
  ultimately show ?thesis using c(2) by (force simp: hmac_need_def)
qed

lemma start_md:
  assumes "keyed key ctx" and "heap_ok (need (md_ctx ctx)) h"
  shows "\<exists>c. EVP_MD_CTX_copy_ex (md_ctx ctx) (i_ctx ctx) h = (True, c, drop (need (md_ctx ctx)) h) \<and>
    running key [] (ctx\<lparr>md_ctx := c\<rparr>)"
proof -
  have "holds (hmac_pad H bs key 0x36) (i_ctx ctx)" "usable (md_ctx ctx)" using assms(1) by (simp_all add: keyed_def)
  from copy_holds [OF this assms(2)] show ?thesis
    using assms(1) holds_usable by (auto simp: running_def keyed_def)
qed

lemma init_key:
  assumes "usable (md_ctx ctx)" "usable (i_ctx ctx)" "usable (o_ctx ctx)" and "heap_ok (hmac_need ctx) h"
    and "key \<noteq> None \<or> hmac_md ctx = None"
  shows "\<exists>ctx'. HMAC_Init_ex ctx key (Some md) h = (True, ctx', drop (hmac_need ctx) h) \<and>
    running (case key of None \<Rightarrow> [] | Some k \<Rightarrow> k) [] ctx'"
proof -
  let ?k = "case key of None \<Rightarrow> [] | Some k \<Rightarrow> k"
  obtain ctx1 m where s: "hmac_set_key ctx ?k md h = (True, ctx1, drop m h)" "keyed ?k ctx1"
      "m + need (md_ctx ctx1) = hmac_need ctx"
    using set_key [OF assms(1-4)] by blast
  have "heap_ok (need (md_ctx ctx1)) (drop m h)" using assms(4) unfolding s(3) [symmetric] heap_ok_add by blast
  from start_md [OF s(2) this] obtain c
    where "EVP_MD_CTX_copy_ex (md_ctx ctx1) (i_ctx ctx1) (drop m h) = (True, c, drop (hmac_need ctx) h)"
      "running ?k [] (ctx1\<lparr>md_ctx := c\<rparr>)"
    using s(3) by (auto simp: add.commute)
  moreover have "\<not> same_md (Some md) (hmac_md ctx) \<or> key \<noteq> None" using assms(5) by (auto simp: same_md_def)
  ultimately show ?thesis using s(1) by (simp add: HMAC_Init_ex_def)
qed

lemma init_again:
  assumes "keyed key ctx" and "need (md_ctx ctx) = 0" and "m = None \<or> m = Some md"
  shows "\<exists>ctx'. HMAC_Init_ex ctx None m h = (True, ctx', h) \<and> running key [] ctx'"
proof -
  have "hmac_md ctx = Some md" using assms(1) by (simp add: keyed_def)
  then show ?thesis using start_md [OF assms(1), of h] assms(2,3) by (auto simp: HMAC_Init_ex_def same_md_def)
qed

lemma hmac_update: "running key M ctx \<Longrightarrow> running key (M @ x) (HMAC_Update ctx x)"
  using update_holds [of "hmac_pad H bs key 0x36 @ M" "md_ctx ctx" x] holds_usable
  by (auto simp: running_def keyed_def HMAC_Update_def)

lemma hmac_updates: "running key M ctx \<Longrightarrow> running key (M @ concat xs) (foldl HMAC_Update ctx xs)"
proof (induction xs arbitrary: M ctx)
  case (Cons x xs)
  then show ?case using Cons.IH [OF hmac_update [OF Cons.prems, of x]] by simp
qed simp

lemma hmac_final:
  assumes "running key M ctx"
  shows "\<exists>ctx'. HMAC_Final ctx h = (True, rfc_hmac H bs key M, evp_md_size md, ctx', h) \<and> keyed key ctx' \<and>
    need (md_ctx ctx') = 0"
proof -
  have r: "keyed key ctx" "holds (hmac_pad H bs key 0x36 @ M) (md_ctx ctx)" using assms by (simp_all add: running_def)
  obtain c where c: "EVP_DigestFinal_ex (md_ctx ctx) = (H (hmac_pad H bs key 0x36 @ M), evp_md_size md, c)" "usable c" "need c = 0"
    using final_holds [OF r(2)] by blast
  have "holds (hmac_pad H bs key 0x5c) (o_ctx ctx)" using r(1) by (simp add: keyed_def)
  from copy_holds [OF this c(2), of h] c(3) obtain c'
    where c': "EVP_MD_CTX_copy_ex c (o_ctx ctx) h = (True, c', h)" "holds (hmac_pad H bs key 0x5c) c'" by auto
  obtain c'' where c'': "EVP_DigestFinal_ex (EVP_DigestUpdate c' (H (hmac_pad H bs key 0x36 @ M))) =
      (rfc_hmac H bs key M, evp_md_size md, c'')" "usable c''" "need c'' = 0"
    using final_holds [OF update_holds [OF c'(2), of "H (hmac_pad H bs key 0x36 @ M)"]] by (auto simp: rfc_hmac_def)
  show ?thesis
    using c(1) c'(1) c'' r(1) by (simp add: HMAC_Final_def length_H keyed_def)
qed

text \<open>Without memory for its three contexts a MAC is not started.\<close>

lemma init_True:
  assumes "EVP_DigestInit_ex ctx md h = (True, c, h')" and "usable ctx"
  shows "heap_ok (need ctx) h \<and> h' = drop (need ctx) h \<and> holds [] c"
proof -
  have "heap_ok (need ctx) h"
  proof (rule ccontr)
    assume a: "\<not> heap_ok (need ctx) h"
    then have "digest ctx = None" by (auto simp: need_def split: if_splits)
    with a have "fst (EVP_DigestInit_ex ctx md h) = False"
      by (cases h) (auto simp: EVP_DigestInit_ex_def same_md_def heap_malloc_def need_def heap_ok_def)
    then show False using assms(1) by simp
  qed
  then show ?thesis using init_holds [OF assms(2)] assms(1) by fastforce
qed

lemma copy_True:
  assumes "EVP_MD_CTX_copy_ex out inp h = (True, c, h')" and "usable out"
  shows "heap_ok (need out) h"
proof (rule ccontr)
  assume a: "\<not> heap_ok (need out) h"
  then have "digest out = None" by (auto simp: need_def split: if_splits)
  with a have "fst (EVP_MD_CTX_copy_ex out inp h) = False"
    by (cases h; cases "digest inp") (auto simp: EVP_MD_CTX_copy_ex_def same_md_def heap_malloc_def need_def heap_ok_def)
  then show False using assms(1) by simp
qed

lemma key_block_Some:
  assumes "hmac_key_block ctx key md h = (Some r, ctx', h')" and "usable (md_ctx ctx)"
  shows "\<exists>m c. h' = drop m h \<and> heap_ok m h \<and> ctx' = ctx\<lparr>md_ctx := c\<rparr> \<and> usable c \<and> m + need c = need (md_ctx ctx)"
proof (cases "bs < length key")
  case True
  then obtain c h1 where i: "EVP_DigestInit_ex (md_ctx ctx) md h = (True, c, h1)"
    using assms(1) by (auto simp: hmac_key_block_def EVP_MD_block_size_def split: prod.splits bool.splits)
  note t = init_True [OF i assms(2)]
  obtain c' where c': "EVP_DigestFinal_ex (EVP_DigestUpdate c key) = (H key, evp_md_size md, c')" "usable c'" "need c' = 0"
    using final_holds [OF update_holds [of "[]" c key]] t by auto
  show ?thesis
    using True i t c' assms(1) by (intro exI [of _ "need (md_ctx ctx)"] exI [of _ c']) (auto simp: hmac_key_block_def EVP_MD_block_size_def)
next
  case False
  then show ?thesis
    using assms by (intro exI [of _ 0] exI [of _ "md_ctx ctx"]) (auto simp: hmac_key_block_def EVP_MD_block_size_def)
qed

lemma set_key_True:
  assumes "hmac_set_key ctx key md h = (True, ctx', h')" and "usable (md_ctx ctx)" "usable (i_ctx ctx)" "usable (o_ctx ctx)"
  shows "\<exists>m. h' = drop m h \<and> heap_ok m h \<and> usable (md_ctx ctx') \<and> m + need (md_ctx ctx') = hmac_need ctx"
proof -
  obtain k n ctx1 h1 where kb: "hmac_key_block ctx key md h = (Some (k, n), ctx1, h1)"
    using assms(1) by (auto simp: hmac_set_key_def split: prod.splits option.splits)
  obtain m c where m: "h1 = drop m h" "heap_ok m h" "ctx1 = ctx\<lparr>md_ctx := c\<rparr>" "usable c" "m + need c = need (md_ctx ctx)"
    using key_block_Some [OF kb assms(2)] by blast
  obtain ci h2 where ci: "EVP_DigestInit_ex (i_ctx ctx) md h1 = (True, ci, h2)"
    using assms(1) by (auto simp: hmac_set_key_def kb m(3) Let_def split: prod.splits bool.splits)
  obtain co where co: "EVP_DigestInit_ex (o_ctx ctx) md h2 = (True, co, h')" "md_ctx ctx' = c"
    using assms(1) ci by (auto simp: hmac_set_key_def kb m(3) Let_def split: prod.splits bool.splits)
  note i = init_True [OF ci assms(3)] and o' = init_True [OF co(1) assms(4)]
  have "heap_ok (m + (need (i_ctx ctx) + need (o_ctx ctx))) h"
    using m(1,2) i o' by (auto simp only: heap_ok_add)
  moreover have "h' = drop (m + (need (i_ctx ctx) + need (o_ctx ctx))) h"
    using m(1) i o' by (simp add: add.commute add.left_commute)
  ultimately show ?thesis
    using m(4,5) co(2) by (intro exI [of _ "m + (need (i_ctx ctx) + need (o_ctx ctx))"]) (simp add: hmac_need_def)
qed

lemma fresh_init_True:
  assumes "HMAC_Init_ex HMAC_CTX_init key (Some md) h = (True, ctx', h')"
  shows "heap_ok 3 h"
proof -
  let ?k = "case key of None \<Rightarrow> [] | Some k \<Rightarrow> k" and ?ctx = HMAC_CTX_init
  have u: "usable (md_ctx ?ctx)" "usable (i_ctx ?ctx)" "usable (o_ctx ?ctx)" "hmac_need ?ctx = 3" "hmac_md ?ctx = None"
    by (simp_all add: HMAC_CTX_init_def hmac_need_def)
  obtain ctx1 h1 where s: "hmac_set_key ?ctx ?k md h = (True, ctx1, h1)"
    using assms by (auto simp: HMAC_Init_ex_def same_md_def u split: prod.splits bool.splits)
  obtain c where c: "EVP_MD_CTX_copy_ex (md_ctx ctx1) (i_ctx ctx1) h1 = (True, c, h')"
    using assms s by (auto simp: HMAC_Init_ex_def same_md_def u split: prod.splits bool.splits)
  obtain m where m: "h1 = drop m h" "heap_ok m h" "usable (md_ctx ctx1)" "m + need (md_ctx ctx1) = 3"
    using set_key_True [OF s u(1-3)] u(4) by auto
  have "heap_ok (need (md_ctx ctx1)) (drop m h)" using copy_True [OF c m(3)] m(1) by simp
  then show ?thesis using m(2) unfolding m(4) [symmetric] heap_ok_add by blast
qed

lemma fresh_init:
  assumes "heap_ok 3 h"
  shows "\<exists>ctx. HMAC_Init_ex HMAC_CTX_init key (Some md) h = (True, ctx, drop 3 h) \<and>
    running (case key of None \<Rightarrow> [] | Some k \<Rightarrow> k) [] ctx"
proof -
  have u: "usable (md_ctx HMAC_CTX_init)" "usable (i_ctx HMAC_CTX_init)" "usable (o_ctx HMAC_CTX_init)"
      "hmac_need HMAC_CTX_init = 3" "hmac_md HMAC_CTX_init = None"
    by (simp_all add: HMAC_CTX_init_def hmac_need_def)
  show ?thesis using init_key [OF u(1-3), of h key] assms u(4,5) by simp
qed

lemma hmac_once:
  "\<exists>h'. HMAC md key data h =
    (if heap_ok 3 h then (Some (rfc_hmac H bs (case key of None \<Rightarrow> [] | Some k \<Rightarrow> k) data, evp_md_size md), drop 3 h)
     else (None, h'))"
proof (cases "heap_ok 3 h")
  case True
  let ?k = "case key of None \<Rightarrow> [] | Some k \<Rightarrow> k"
  obtain ctx where i: "HMAC_Init_ex HMAC_CTX_init key (Some md) h = (True, ctx, drop 3 h)" "running ?k [] ctx"
    using fresh_init [OF True] by blast
  obtain ctx' where "HMAC_Final (HMAC_Update ctx data) (drop 3 h) = (True, rfc_hmac H bs ?k data, evp_md_size md, ctx', drop 3 h)"
    using hmac_final [OF hmac_update [OF i(2), of data]] by auto
  then show ?thesis using True i(1) by (simp add: HMAC_def)
next
  case False
  obtain ok ctx h' where i: "HMAC_Init_ex HMAC_CTX_init key (Some md) h = (ok, ctx, h')" by (metis prod_cases3)
  then have "\<not> ok" using False fresh_init_True by auto
  then show ?thesis using False i by (auto simp: HMAC_def)
qed

text \<open>The loop of HKDF: \<open>out\<close> holds the blocks up to \<open>i\<close>, and the context waits for the next.\<close>

definition hkdf_blocks :: "bytes \<Rightarrow> bytes \<Rightarrow> nat \<Rightarrow> bytes" where
  "hkdf_blocks prk info n = concat (map (hkdf_T (rfc_hmac H bs) prk info) [1..<Suc n])"

lemma length_T: "length (hkdf_T (rfc_hmac H bs) prk info (Suc i)) = evp_md_size md"
  by (simp add: rfc_hmac_def length_H)

lemma hkdf_blocks_Suc: "hkdf_blocks prk info (Suc n) = hkdf_blocks prk info n @ hkdf_T (rfc_hmac H bs) prk info (Suc n)"
  unfolding hkdf_blocks_def by (subst upt_Suc_append) (simp_all del: upt_Suc hkdf_T.simps)

lemma length_blocks: "length (hkdf_blocks prk info n) = n * evp_md_size md"
proof (induction n)
  case 0
  then show ?case by (simp add: hkdf_blocks_def)
next
  case (Suc n)
  then show ?case by (simp add: hkdf_blocks_Suc length_T del: hkdf_T.simps)
qed

lemma hkdf_loop_run:
  assumes "(i = 0 \<and> running prk [] hmac) \<or> (i \<noteq> 0 \<and> keyed prk hmac \<and> need (md_ctx hmac) = 0 \<and> previous = hkdf_T (rfc_hmac H bs) prk info i)"
    and "out = take out_len (hkdf_blocks prk info i)" and "k = 0 \<or> (i + k - 1) * evp_md_size md < out_len"
    and "out_len + evp_md_size md < SIZE_LIMIT"
  shows "\<exists>hmac'. hkdf_loop k i (evp_md_size md) out_len info hmac previous out h =
    (True, take out_len (hkdf_blocks prk info (i + k)), hmac', h)"
  using assms(1-3)
proof (induction k arbitrary: i hmac previous out)
  case 0
  then show ?case by simp
next
  case (Suc k)
  let ?T = "hkdf_T (rfc_hmac H bs) prk info" and ?dl = "evp_md_size md"
  have lt: "(i + k) * ?dl < out_len" using Suc.prems(3) by simp
  have "i * ?dl \<le> (i + k) * ?dl" by simp
  then have le: "i * ?dl < out_len" using lt by linarith
  have out: "out = hkdf_blocks prk info i" "length out = i * ?dl"
    using Suc.prems(2) le by (simp_all add: length_blocks)
  obtain hmac1 where r: "running prk (?T i) hmac1"
    "(if i \<noteq> 0 then
        (case HMAC_Init_ex hmac None None h of
           (False, hmac, h) \<Rightarrow> (False, hmac, h)
         | (True, hmac, h) \<Rightarrow> (True, HMAC_Update hmac (take ?dl previous), h))
      else (True, hmac, h)) = (True, hmac1, h)"
  proof (cases "i = 0")
    case True
    then show ?thesis using that [of hmac] Suc.prems(1) by simp
  next
    case False
    then have k: "keyed prk hmac" "need (md_ctx hmac) = 0" "previous = ?T i" using Suc.prems(1) by auto
    obtain hmac' where i: "HMAC_Init_ex hmac None None h = (True, hmac', h)" "running prk [] hmac'"
      using init_again [OF k(1,2), of None h] by auto
    have "take ?dl previous = ?T i" using length_T [of prk info "i - 1"] False k(3) by simp
    then show ?thesis
      using that [of "HMAC_Update hmac' (?T i)"] hmac_update [OF i(2), of "?T i"] False i(1) by simp
  qed
  obtain hmac2 where f: "HMAC_Final (HMAC_Update (HMAC_Update hmac1 info) [of_nat (i + 1)]) h =
      (True, ?T (Suc i), ?dl, hmac2, h)" "keyed prk hmac2" "need (md_ctx hmac2) = 0"
    using hmac_final [OF hmac_update [OF hmac_update [OF r(1), of info], of "[of_nat (i + 1)]"]] by auto
  let ?todo = "if out_len < size_add (length out) ?dl then out_len - length out else ?dl"
  have sa: "size_add (length out) ?dl = length out + ?dl"
    using assms(4) out(2) le by (simp add: size_add_exact)
  have next_out: "out @ take ?todo (?T (Suc i)) = take out_len (hkdf_blocks prk info (Suc i))"
  proof -
    show ?thesis
      using out(2) le length_T [of prk info i] by (simp add: hkdf_blocks_Suc out(1) [symmetric] sa [unfolded out(2)] del: hkdf_T.simps)
  qed
  have "\<exists>hmac'. hkdf_loop k (Suc i) ?dl out_len info hmac2 (?T (Suc i)) (take out_len (hkdf_blocks prk info (Suc i))) h =
      (True, take out_len (hkdf_blocks prk info (Suc i + k)), hmac', h)"
    by (rule Suc.IH) (use f(2,3) Suc.prems(3) in auto)
  then show ?case
    unfolding hkdf_loop.simps r(2) prod.case bool.case f(1) Let_def next_out by simp
qed

lemma hkdf_once:
  assumes "out_len < SIZE_LIMIT"
  shows "\<exists>h'. HKDF out_len md secret salt info h =
    (if heap_ok 6 h \<and> out_len \<le> 255 * evp_md_size md
     then (True, rfc_hkdf (rfc_hmac H bs) (case salt of None \<Rightarrow> [] | Some s \<Rightarrow> s) secret info out_len, drop 6 h)
     else (False, [], h'))"
proof -
  let ?dl = "evp_md_size md" and ?salt = "case salt of None \<Rightarrow> [] | Some s \<Rightarrow> s"
  let ?prk = "rfc_hmac H bs ?salt secret" and ?n = "(out_len + evp_md_size md - 1) div evp_md_size md"
  have dl: "0 < ?dl" "?dl \<le> 64" using sizes by simp_all
  have six: "heap_ok 6 h \<longleftrightarrow> heap_ok 3 h \<and> heap_ok 3 (drop 3 h)" using heap_ok_add [of 3 3 h] by simp
  obtain h1 where ex: "HKDF_extract md secret salt h =
      (if heap_ok 3 h then (Some (?prk, ?dl), drop 3 h) else (None, h1))"
    using hmac_once [of salt secret h] unfolding HKDF_extract_def by blast
  have expand: "\<exists>h'. HKDF_expand out_len md ?prk info h2 =
      (if out_len \<le> 255 * ?dl \<and> heap_ok 3 h2 then (True, rfc_hkdf (rfc_hmac H bs) ?salt secret info out_len, drop 3 h2)
       else (False, [], h'))" for h2
  proof (cases "out_len + ?dl < SIZE_LIMIT")
    case False
    have "size_add out_len ?dl < out_len" using False assms dl by (subst size_add_wraps) (simp_all add: SIZE_LIMIT_def)
    moreover have "\<not> out_len \<le> 255 * ?dl" using False dl by (simp add: SIZE_LIMIT_def)
    ultimately show ?thesis by (simp add: HKDF_expand_def Let_def EVP_MD_size_def)
  next
    case True
    have s: "size_add out_len ?dl = out_len + ?dl" by (rule size_add_exact [OF True])
    have "(out_len + ?dl + SIZE_LIMIT - 1) mod SIZE_LIMIT = (out_len + ?dl - 1 + SIZE_LIMIT) mod SIZE_LIMIT" using dl by simp
    also have "\<dots> = out_len + ?dl - 1" using True by simp
    finally have n: "(out_len + ?dl + SIZE_LIMIT - 1) mod SIZE_LIMIT div ?dl = ?n" by simp
    have run: "HKDF_expand out_len md ?prk info h2 =
        (if out_len + ?dl < out_len \<or> 255 < ?n then (False, [], h2)
         else case HMAC_Init_ex HMAC_CTX_init (Some ?prk) (Some md) h2 of
                (False, hmac, h) \<Rightarrow> (False, [], h)
              | (True, hmac, h) \<Rightarrow> (let (ok, out, hmac, h) = hkdf_loop ?n 0 ?dl out_len info hmac [] [] h in (ok, out, h)))"
      unfolding HKDF_expand_def Let_def EVP_MD_size_def s n ..
    have big: "255 < ?n \<longleftrightarrow> \<not> out_len \<le> 255 * ?dl"
    proof -
      have "255 < ?n \<longleftrightarrow> 256 * ?dl \<le> out_len + ?dl - 1" using dl by (simp add: less_eq_div_iff_mult_less_eq Suc_le_eq [symmetric])
      then show ?thesis using dl by auto
    qed
    show ?thesis
    proof (cases "out_len \<le> 255 * ?dl")
      case False
      then show ?thesis using big by (simp add: run)
    next
      case fits: True
      show ?thesis
      proof (cases "heap_ok 3 h2")
        case True
        obtain hmac where i: "HMAC_Init_ex HMAC_CTX_init (Some ?prk) (Some md) h2 = (True, hmac, drop 3 h2)" "running ?prk [] hmac"
          using fresh_init [OF True, of "Some ?prk"] by auto
        have turns: "?n = 0 \<or> (0 + ?n - 1) * ?dl < out_len"
        proof (cases ?n)
          case (Suc m)
          have "Suc m * ?dl \<le> out_len + ?dl - 1" unfolding Suc [symmetric] by (rule div_times_less_eq_dividend)
          then show ?thesis using dl(1) unfolding Suc by simp
        qed simp
        obtain hmac' where l: "hkdf_loop ?n 0 ?dl out_len info hmac [] [] (drop 3 h2) =
            (True, take out_len (hkdf_blocks ?prk info ?n), hmac', drop 3 h2)"
          using hkdf_loop_run [of 0 ?prk hmac "[]" info "[]" out_len ?n "drop 3 h2"] i(2) turns \<open>out_len + ?dl < SIZE_LIMIT\<close>
          by (auto simp: hkdf_blocks_def)
        have "rfc_hkdf (rfc_hmac H bs) ?salt secret info out_len = take out_len (hkdf_blocks ?prk info ?n)"
        proof -
          have "[1..<256] = [1..<Suc ?n] @ [Suc ?n..<256 :: nat]"
            by (rule upt_split) (use big fits in simp_all)
          then have "rfc_hkdf (rfc_hmac H bs) ?salt secret info out_len =
              take out_len (hkdf_blocks ?prk info ?n @ concat (map (hkdf_T (rfc_hmac H bs) ?prk info) [Suc ?n..<256]))"
            by (simp only: rfc_hkdf_def hkdf_blocks_def map_append concat_append)
          moreover have "out_len \<le> ?n * ?dl"
            using dl div_mult_mod_eq [of "out_len + ?dl - 1" ?dl] mod_less_divisor [of ?dl "out_len + ?dl - 1"] by linarith
          ultimately show ?thesis by (simp add: length_blocks)
        qed
        then show ?thesis using big fits True i(1) l by (simp add: run)
      next
        case False
        obtain ok ctx h' where i: "HMAC_Init_ex HMAC_CTX_init (Some ?prk) (Some md) h2 = (ok, ctx, h')" by (metis prod_cases3)
        then have "\<not> ok" using False fresh_init_True by auto
        then show ?thesis using False fits big i by (simp add: run)
      qed
    qed
  qed
  have "take ?dl ?prk = ?prk" by (simp add: rfc_hmac_def length_H)
  then show ?thesis using expand [of "drop 3 h"] ex six by (auto simp: HKDF_def)
qed

end

section \<open>For every method\<close>

text \<open>
  C17: \<open>HMAC\<close> is the keyed hash of RFC 2104 for each of the nine methods, whatever the length of the
  key, a null key standing for the empty one; and it returns a null pointer exactly when one of its
  three allocations fails.
\<close>

theorem hmac_correct:
  assumes "(md, H) \<in> set evp_methods"
  shows "\<exists>h'. HMAC md key data h =
    (if heap_ok 3 h
     then (Some (rfc_hmac H (evp_block_size md) (case key of None \<Rightarrow> [] | Some k \<Rightarrow> k) data, evp_md_size md), drop 3 h)
     else (None, h'))"
proof -
  obtain rep mem where "evp_digest md H rep mem" using evp_methods_keep [OF assms] by blast
  then show ?thesis by (rule evp_digest.hmac_once)
qed

theorem hmac_correct_witness:
  "fst (HMAC EVP_sha1 (Some [1, 2]) [3] [Some [], Some [], Some []]) = Some (rfc_hmac sha1_digest 64 [1, 2] [3], 20)"
proof -
  have "(EVP_sha1, sha1_digest) \<in> set evp_methods" by (simp add: evp_methods_def)
  note run = hmac_correct [OF this, of "Some [1, 2]" "[3]" "[Some [], Some [], Some []]"]
  have "evp_md_size EVP_sha1 = 20" "evp_block_size EVP_sha1 = 64" by (simp_all add: EVP_sha1_def)
  with run show ?thesis by (simp add: heap_ok_def)
qed

text \<open>
  C35: a MAC in pieces, and the reuse of the key. After \<open>HMAC_Init_ex\<close> with a key any updates followed
  by \<open>HMAC_Final\<close> give the MAC of the concatenated message, without touching the heap; then
  \<open>HMAC_Init_ex\<close> with null key and method starts the next message under the same key, again without
  an allocation that could fail.
\<close>

theorem hmac_streaming:
  assumes "(md, H) \<in> set evp_methods" and "heap_ok 3 h"
  shows "\<exists>c1 c2 c3 c4. HMAC_Init_ex HMAC_CTX_init (Some key) (Some md) h = (True, c1, drop 3 h) \<and>
    HMAC_Final (foldl HMAC_Update c1 xs) [] = (True, rfc_hmac H (evp_block_size md) key (concat xs), evp_md_size md, c2, []) \<and>
    HMAC_Init_ex c2 None None [] = (True, c3, []) \<and>
    HMAC_Final (foldl HMAC_Update c3 ys) [] = (True, rfc_hmac H (evp_block_size md) key (concat ys), evp_md_size md, c4, [])"
proof -
  obtain rep mem where r: "evp_digest md H rep mem" using evp_methods_keep [OF assms(1)] by blast
  obtain c1 where c1: "HMAC_Init_ex HMAC_CTX_init (Some key) (Some md) h = (True, c1, drop 3 h)"
      "evp_digest.running md H rep mem key [] c1"
    using evp_digest.fresh_init [OF r assms(2), of "Some key"] by auto
  obtain c2 where c2: "HMAC_Final (foldl HMAC_Update c1 xs) [] =
        (True, rfc_hmac H (evp_block_size md) key (concat xs), evp_md_size md, c2, [])"
      "evp_digest.keyed md H rep mem key c2" "evp_digest.need (md_ctx c2) = 0"
    using evp_digest.hmac_final [OF r evp_digest.hmac_updates [OF r c1(2)]] by auto
  obtain c3 where c3: "HMAC_Init_ex c2 None None [] = (True, c3, [])" "evp_digest.running md H rep mem key [] c3"
    using evp_digest.init_again [OF r c2(2,3)] by auto
  show ?thesis
    using c1(1) c2(1) c3(1) evp_digest.hmac_final [OF r evp_digest.hmac_updates [OF r c3(2), of ys], of "[]"] by auto
qed

theorem hmac_streaming_witness:
  "\<exists>c. HMAC_Init_ex HMAC_CTX_init (Some [7]) (Some EVP_md5) [Some [], Some [], Some []] = (True, c, []) \<and>
    fst (snd (HMAC_Final (foldl HMAC_Update c [[1], [2]]) [])) = rfc_hmac (md_digest md5_compress) 64 [7] [1, 2]"
proof -
  have "(EVP_md5, md_digest md5_compress) \<in> set evp_methods" "heap_ok 3 [Some [], Some [], Some []]"
    by (simp_all add: evp_methods_def heap_ok_def)
  note run = hmac_streaming [OF this, of "[7]" "[[1], [2]]" "[]"]
  have "evp_block_size EVP_md5 = 64" by (simp add: EVP_md5_def)
  with run show ?thesis by auto
qed

text \<open>
  C18: \<open>HKDF\<close> derives the output keying material of RFC 5869, for any length up to 255 digests and given
  memory for its two MACs; otherwise it returns 0 and has written nothing. The rounding of the
  number of blocks, which could wrap around in a \<open>size_t\<close>, never lets a longer request through.
\<close>

theorem hkdf_correct:
  assumes "(md, H) \<in> set evp_methods" and "out_len < SIZE_LIMIT"
  shows "\<exists>h'. HKDF out_len md secret salt info h =
    (if heap_ok 6 h \<and> out_len \<le> 255 * evp_md_size md
     then (True, rfc_hkdf (rfc_hmac H (evp_block_size md)) (case salt of None \<Rightarrow> [] | Some s \<Rightarrow> s) secret info out_len, drop 6 h)
     else (False, [], h'))"
proof -
  obtain rep mem where "evp_digest md H rep mem" using evp_methods_keep [OF assms(1)] by blast
  then show ?thesis by (rule evp_digest.hkdf_once [OF _ assms(2)])
qed

theorem hkdf_correct_witness:
  "HKDF 42 EVP_sha256 [1] None [2] (replicate 6 (Some [])) =
    (True, rfc_hkdf (rfc_hmac (sha256_digest fips256_iv 8) 64) [] [1] [2] 42, [])"
proof -
  have "(EVP_sha256, sha256_digest fips256_iv 8) \<in> set evp_methods" "(42 :: nat) < SIZE_LIMIT"
    by (simp_all add: evp_methods_def SIZE_LIMIT_def)
  note run = hkdf_correct [OF this, of "[1]" None "[2]" "replicate 6 (Some [])"]
  have "evp_md_size EVP_sha256 = 32" "evp_block_size EVP_sha256 = 64" by (simp_all add: EVP_sha256_def)
  moreover have "heap_ok 6 (replicate 6 (Some []))" by (simp add: heap_ok_def list_all_iff)
  ultimately show ?thesis using run by simp
qed

end
