(* ===== verification/Ssl_Lhash.thy ===== *)
theory Ssl_Lhash
  imports Ssl_Mem "HOL-Library.Multiset"
begin

text \<open>
  The hash tables of \<open>lhash.c\<close>: chained buckets that grow and shrink with the number of items. A table
  keeps pointers to elements of the caller and two functions of the caller on them. The locale
  \<open>element_functions\<close> is the contract of these functions; under it a table is a set of elements with at
  most one from each class of equal elements.
\<close>

section \<open>Tables\<close>

text \<open>
  A chain is the list of its items; a pointer into it (\<open>LHASH_ITEM **\<close>) is a bucket and a position in its
  chain, and it points to a null pointer at the end of the chain. The functions the table keeps work on
  what the elements point to: every operation takes them, as they are at the time of the call.
\<close>

record 'a lhash_item =
  item_data :: 'a
  item_hash :: u32

record 'a lhash =
  num_items :: nat
  buckets :: "'a lhash_item list list"
  num_buckets :: nat
  callback_depth :: nat

definition kMinNumBuckets :: nat where "kMinNumBuckets = 16"
definition kMaxAverageChainLength :: nat where "kMaxAverageChainLength = 2"
definition kMinAverageChainLength :: nat where "kMinAverageChainLength = 1"

definition OPENSSL_lh_new :: "answers \<Rightarrow> 'a lhash option \<times> answers" where
  "OPENSSL_lh_new as =
     (case ask_malloc 48 as of
        (False, as) \<Rightarrow> (None, as)
      | (True, as) \<Rightarrow>
          (case ask_malloc (8 * kMinNumBuckets) as of
             (False, as) \<Rightarrow> (None, as)
           | (True, as) \<Rightarrow>
               (Some \<lparr>num_items = 0, buckets = replicate kMinNumBuckets [], num_buckets = kMinNumBuckets, callback_depth = 0\<rparr>, as)))"

text \<open>The blocks a table is made of, in the order in which they are freed.\<close>

datatype 'a lh_block = Item_block "'a lhash_item" | Buckets_block | Table_block

definition OPENSSL_lh_free :: "'a lhash option \<Rightarrow> 'a lh_block list" where
  "OPENSSL_lh_free lh =
     (case lh of
        None \<Rightarrow> []
      | Some lh \<Rightarrow> concat (map (map Item_block) (buckets lh)) @ [Buckets_block, Table_block])"

definition OPENSSL_lh_num_items :: "'a lhash \<Rightarrow> nat" where
  "OPENSSL_lh_num_items lh = num_items lh"

section \<open>Searching\<close>

fun chain_search :: "('a \<Rightarrow> bool) \<Rightarrow> 'a lhash_item list \<Rightarrow> nat" where
  "chain_search equal [] = 0"
| "chain_search equal (cur # rest) = (if equal (item_data cur) then 0 else Suc (chain_search equal rest))"

text \<open>The hash, the bucket and the position.\<close>

definition get_next_ptr_and_hash :: "('a \<Rightarrow> u32) \<Rightarrow> ('a \<Rightarrow> 'a \<Rightarrow> int) \<Rightarrow> 'a lhash \<Rightarrow> 'a \<Rightarrow> u32 \<times> nat \<times> nat" where
  "get_next_ptr_and_hash hash cmp lh d =
     (let h = hash d; b = unat h mod num_buckets lh
      in (h, b, chain_search (\<lambda>cur. cmp cur d = 0) (buckets lh ! b)))"

definition get_next_ptr_by_key :: "'a lhash \<Rightarrow> 'k \<Rightarrow> u32 \<Rightarrow> ('k \<Rightarrow> 'a \<Rightarrow> int) \<Rightarrow> nat \<times> nat" where
  "get_next_ptr_by_key lh key key_hash cmp_key =
     (let b = unat key_hash mod num_buckets lh in (b, chain_search (\<lambda>cur. cmp_key key cur = 0) (buckets lh ! b)))"

definition at_ptr :: "'a lhash \<Rightarrow> nat \<Rightarrow> nat \<Rightarrow> 'a option" where
  "at_ptr lh b i = (if i < length (buckets lh ! b) then Some (item_data (buckets lh ! b ! i)) else None)"

definition OPENSSL_lh_retrieve :: "('a \<Rightarrow> u32) \<Rightarrow> ('a \<Rightarrow> 'a \<Rightarrow> int) \<Rightarrow> 'a lhash \<Rightarrow> 'a \<Rightarrow> 'a option" where
  "OPENSSL_lh_retrieve hash cmp lh d = (case get_next_ptr_and_hash hash cmp lh d of (_, b, i) \<Rightarrow> at_ptr lh b i)"

definition OPENSSL_lh_retrieve_key :: "'a lhash \<Rightarrow> 'k \<Rightarrow> u32 \<Rightarrow> ('k \<Rightarrow> 'a \<Rightarrow> int) \<Rightarrow> 'a option" where
  "OPENSSL_lh_retrieve_key lh key key_hash cmp_key =
     (case get_next_ptr_by_key lh key key_hash cmp_key of (b, i) \<Rightarrow> at_ptr lh b i)"

section \<open>Resizing\<close>

text \<open>The two loops: every item goes to the front of its new chain.\<close>

definition move_item :: "nat \<Rightarrow> 'a lhash_item \<Rightarrow> 'a lhash_item list list \<Rightarrow> 'a lhash_item list list" where
  "move_item n cur new = (let b = unat (item_hash cur) mod n in new[b := cur # new ! b])"

definition lh_rebucket :: "'a lhash \<Rightarrow> nat \<Rightarrow> answers \<Rightarrow> 'a lhash \<times> answers" where
  "lh_rebucket lh new_num_buckets as =
     (let alloc_size = 8 * new_num_buckets mod SIZE_LIMIT in
      if alloc_size div 8 \<noteq> new_num_buckets then (lh, as)
      else
        (case ask_malloc alloc_size as of
           (False, as) \<Rightarrow> (lh, as)
         | (True, as) \<Rightarrow>
             (lh\<lparr>num_buckets := new_num_buckets,
                 buckets := fold (fold (move_item new_num_buckets)) (buckets lh) (replicate new_num_buckets [])\<rparr>, as)))"

definition lh_maybe_resize :: "'a lhash \<Rightarrow> answers \<Rightarrow> 'a lhash \<times> answers" where
  "lh_maybe_resize lh as =
     (if 0 < callback_depth lh then (lh, as)
      else
        let avg_chain_length = num_items lh div num_buckets lh in
        if kMaxAverageChainLength < avg_chain_length then
          (let new_num_buckets = num_buckets lh * 2 mod SIZE_LIMIT in
           if num_buckets lh < new_num_buckets then lh_rebucket lh new_num_buckets as else (lh, as))
        else if avg_chain_length < kMinAverageChainLength \<and> kMinNumBuckets < num_buckets lh then
          (let new_num_buckets = num_buckets lh div 2;
               new_num_buckets = (if new_num_buckets < kMinNumBuckets then kMinNumBuckets else new_num_buckets)
           in lh_rebucket lh new_num_buckets as)
        else (lh, as))"

section \<open>Inserting and deleting\<close>

text \<open>The return value, \<open>*old_data\<close>, the table.\<close>

definition OPENSSL_lh_insert ::
    "('a \<Rightarrow> u32) \<Rightarrow> ('a \<Rightarrow> 'a \<Rightarrow> int) \<Rightarrow> 'a lhash \<Rightarrow> 'a \<Rightarrow> answers \<Rightarrow> bool \<times> 'a option \<times> 'a lhash \<times> answers" where
  "OPENSSL_lh_insert hash cmp lh d as =
     (case get_next_ptr_and_hash hash cmp lh d of
        (h, b, i) \<Rightarrow>
          let chain = buckets lh ! b in
          if i < length chain
          then (True, Some (item_data (chain ! i)), lh\<lparr>buckets := (buckets lh)[b := chain[i := (chain ! i)\<lparr>item_data := d\<rparr>]]\<rparr>, as)
          else
            (case ask_malloc 24 as of
               (False, as) \<Rightarrow> (False, None, lh, as)
             | (True, as) \<Rightarrow>
                 (let item = \<lparr>item_data = d, item_hash = h\<rparr>;
                      lh = lh\<lparr>buckets := (buckets lh)[b := chain @ [item]], num_items := size_add (num_items lh) 1\<rparr>
                  in case lh_maybe_resize lh as of (lh, as) \<Rightarrow> (True, None, lh, as))))"

definition OPENSSL_lh_delete ::
    "('a \<Rightarrow> u32) \<Rightarrow> ('a \<Rightarrow> 'a \<Rightarrow> int) \<Rightarrow> 'a lhash \<Rightarrow> 'a \<Rightarrow> answers \<Rightarrow> 'a option \<times> 'a lhash \<times> answers" where
  "OPENSSL_lh_delete hash cmp lh d as =
     (case get_next_ptr_and_hash hash cmp lh d of
        (_, b, i) \<Rightarrow>
          let chain = buckets lh ! b in
          if length chain \<le> i then (None, lh, as)
          else
            let lh = lh\<lparr>buckets := (buckets lh)[b := take i chain @ drop (Suc i) chain],
                       num_items := size_add (num_items lh) (SIZE_LIMIT - 1)\<rparr>
            in case lh_maybe_resize lh as of (lh, as) \<Rightarrow> (Some (item_data (chain ! i)), lh, as))"

text \<open>\<open>func\<close> works on the state \<open>arg\<close> points to and leaves the table alone.\<close>

definition UINT_MAX :: nat where "UINT_MAX = 2 ^ 32 - 1"

definition OPENSSL_lh_doall_arg :: "'a lhash \<Rightarrow> ('a \<Rightarrow> 's \<Rightarrow> 's) \<Rightarrow> 's \<Rightarrow> answers \<Rightarrow> 's \<times> 'a lhash \<times> answers" where
  "OPENSSL_lh_doall_arg lh func arg as =
     (let lh = (if callback_depth lh < UINT_MAX then lh\<lparr>callback_depth := callback_depth lh + 1\<rparr> else lh);
          arg = fold (fold (\<lambda>cur. func (item_data cur))) (buckets lh) arg;
          lh = (if callback_depth lh < UINT_MAX then lh\<lparr>callback_depth := callback_depth lh - 1\<rparr> else lh)
      in case lh_maybe_resize lh as of (lh, as) \<Rightarrow> (arg, lh, as))"


section \<open>The invariant\<close>

definition lh_items :: "'a lhash \<Rightarrow> 'a lhash_item list" where
  "lh_items lh = concat (buckets lh)"

definition lh_elems :: "'a lhash \<Rightarrow> 'a set" where
  "lh_elems lh = item_data ` set (lh_items lh)"

text \<open>Items sit in the bucket of their hash, and no two of them hold equal elements.\<close>

definition placed :: "('a \<Rightarrow> u32) \<Rightarrow> 'a lhash_item list list \<Rightarrow> bool" where
  "placed hash bs \<longleftrightarrow> (\<forall>b < length bs. \<forall>it \<in> set (bs ! b). item_hash it = hash (item_data it) \<and> unat (hash (item_data it)) mod length bs = b)"

definition no_equals :: "('a \<Rightarrow> 'a \<Rightarrow> int) \<Rightarrow> 'a lhash_item list \<Rightarrow> bool" where
  "no_equals cmp its \<longleftrightarrow> distinct (map item_data its) \<and>
     (\<forall>x \<in> set its. \<forall>y \<in> set its. cmp (item_data x) (item_data y) = 0 \<longrightarrow> item_data x = item_data y)"

definition lh_ok :: "('a \<Rightarrow> u32) \<Rightarrow> ('a \<Rightarrow> 'a \<Rightarrow> int) \<Rightarrow> 'a lhash \<Rightarrow> bool" where
  "lh_ok hash cmp lh \<longleftrightarrow> length (buckets lh) = num_buckets lh \<and> kMinNumBuckets \<le> num_buckets lh \<and>
     num_items lh = length (lh_items lh) \<and> placed hash (buckets lh) \<and> no_equals cmp (lh_items lh)"

lemma set_items: "it \<in> set (lh_items lh) \<longleftrightarrow> (\<exists>b < length (buckets lh). it \<in> set (buckets lh ! b))"
  unfolding lh_items_def set_concat by (auto simp: set_conv_nth [of "buckets lh"])

lemma no_equals_mset: "mset xs = mset ys \<Longrightarrow> no_equals cmp xs \<longleftrightarrow> no_equals cmp ys"
  unfolding no_equals_def by (metis mset_eq_imp_distinct_iff mset_eq_setD mset_map)

lemma mset_concat_update:
  "b < length bs \<Longrightarrow> mset (concat (bs[b := c])) + mset (bs ! b) = mset (concat bs) + mset c"
proof (induction bs arbitrary: b)
  case (Cons x bs)
  show ?case
  proof (cases b)
    case (Suc b')
    then have "mset (concat (bs[b' := c])) + mset (bs ! b') = mset (concat bs) + mset c" using Cons by simp
    then show ?thesis using Suc by (simp add: add.assoc)
  qed (simp add: ac_simps)
qed simp

lemma placed_chain:
  "placed hash bs \<Longrightarrow> b < length bs \<Longrightarrow> it \<in> set (bs ! b) \<Longrightarrow>
   item_hash it = hash (item_data it) \<and> unat (hash (item_data it)) mod length bs = b"
  unfolding placed_def by blast

lemma placed_update:
  assumes "placed hash bs" and "\<And>it. it \<in> set c \<Longrightarrow> item_hash it = hash (item_data it) \<and> unat (hash (item_data it)) mod length bs = b"
  shows "placed hash (bs[b := c])"
  unfolding placed_def length_list_update
proof (intro allI impI ballI)
  fix k it assume k: "k < length bs" "it \<in> set (bs[b := c] ! k)"
  show "item_hash it = hash (item_data it) \<and> unat (hash (item_data it)) mod length bs = k"
  proof (cases "k = b")
    case True
    then show ?thesis using k assms(2) by simp
  next
    case False
    then show ?thesis using placed_chain [OF assms(1) k(1)] k(2) by simp
  qed
qed

section \<open>Resizing keeps the items\<close>

lemma placed_empty: "placed hash (replicate n [])"
  by (simp add: placed_def)

lemma move_item_facts:
  assumes "0 < n" and "length new = n"
  shows "length (move_item n cur new) = n"
    and "mset (concat (move_item n cur new)) = add_mset cur (mset (concat new))"
    and "placed hash new \<Longrightarrow> item_hash cur = hash (item_data cur) \<Longrightarrow> placed hash (move_item n cur new)"
proof -
  let ?b = "unat (item_hash cur) mod n"
  have b: "?b < length new" using assms by simp
  show "length (move_item n cur new) = n" using assms(2) by (simp add: move_item_def Let_def)
  show "mset (concat (move_item n cur new)) = add_mset cur (mset (concat new))"
    using mset_concat_update [OF b, of "cur # new ! ?b"] by (simp add: move_item_def Let_def)
  show "placed hash new \<Longrightarrow> item_hash cur = hash (item_data cur) \<Longrightarrow> placed hash (move_item n cur new)"
    using assms b by (auto simp: placed_def move_item_def Let_def nth_list_update split: if_splits)
qed

lemma move_items_facts:
  assumes "0 < n"
  shows "length new = n \<Longrightarrow> length (fold (move_item n) its new) = n \<and>
    mset (concat (fold (move_item n) its new)) = mset its + mset (concat new) \<and>
    (placed hash new \<and> (\<forall>it \<in> set its. item_hash it = hash (item_data it)) \<longrightarrow> placed hash (fold (move_item n) its new))"
proof (induction its arbitrary: new)
  case (Cons it its)
  note step = move_item_facts [OF assms Cons.prems, where cur = it]
  show ?case using Cons.IH [OF step(1)] step(2,3) by auto
qed simp

lemma rebucket_fold: "fold (fold f) xss new = fold f (concat xss) new"
  by (induction xss arbitrary: new) simp_all

lemma lh_rebucket_facts:
  assumes "0 < n" and "lh_ok hash cmp lh" and "kMinNumBuckets \<le> n" and run: "lh_rebucket lh n as = (lh', as')"
  shows "lh_ok hash cmp lh'" and "lh_elems lh' = lh_elems lh" and "callback_depth lh' = callback_depth lh"
    and "num_items lh' = num_items lh"
proof -
  let ?new = "fold (fold (move_item n)) (buckets lh) (replicate n [])"
  have hashes: "\<forall>it \<in> set (lh_items lh). item_hash it = hash (item_data it)"
    using assms(2) by (auto simp: lh_ok_def placed_def set_items)
  have new: "length ?new = n" "mset (concat ?new) = mset (lh_items lh)" "placed hash ?new"
    using move_items_facts [OF assms(1), where new = "replicate n []" and its = "lh_items lh" and hash = hash] hashes placed_empty
    by (auto simp: rebucket_fold lh_items_def)
  have "lh' = lh \<or> lh' = lh\<lparr>num_buckets := n, buckets := ?new\<rparr>"
    using run by (auto simp: lh_rebucket_def Let_def split: if_splits prod.splits bool.splits)
  moreover have "lh_ok hash cmp (lh\<lparr>num_buckets := n, buckets := ?new\<rparr>)"
    using assms(2,3) new no_equals_mset [OF new(2)] mset_eq_length [OF new(2)] by (simp add: lh_ok_def lh_items_def)
  moreover have "lh_elems (lh\<lparr>num_buckets := n, buckets := ?new\<rparr>) = lh_elems lh"
    using mset_eq_setD [OF new(2)] by (simp add: lh_elems_def lh_items_def)
  ultimately show "lh_ok hash cmp lh'" and "lh_elems lh' = lh_elems lh" and "callback_depth lh' = callback_depth lh"
    and "num_items lh' = num_items lh"
    using assms(2) by auto
qed

lemma lh_maybe_resize_facts:
  assumes ok: "lh_ok hash cmp lh" and run: "lh_maybe_resize lh as = (lh', as')"
  shows "lh_ok hash cmp lh'" and "lh_elems lh' = lh_elems lh" and "callback_depth lh' = callback_depth lh"
    and "num_items lh' = num_items lh"
proof -
  have min: "kMinNumBuckets \<le> num_buckets lh" "0 < kMinNumBuckets" using ok by (simp_all add: lh_ok_def kMinNumBuckets_def)
  consider "lh' = lh" | n where "kMinNumBuckets \<le> n" "lh_rebucket lh n as = (lh', as')"
  proof -
    have bigger: "num_buckets lh < n \<Longrightarrow> kMinNumBuckets \<le> n" for n using min by simp
    show thesis using run that bigger by (auto simp: lh_maybe_resize_def Let_def not_less split: if_splits)
  qed
  then show "lh_ok hash cmp lh'" and "lh_elems lh' = lh_elems lh" and "callback_depth lh' = callback_depth lh"
    and "num_items lh' = num_items lh"
    using ok min(2) lh_rebucket_facts [OF _ ok] by (cases; force)+
qed

section \<open>The contract of the element functions\<close>

locale element_functions =
  fixes hash :: "'a \<Rightarrow> u32" and cmp :: "'a \<Rightarrow> 'a \<Rightarrow> int"
  assumes equal_refl: "cmp x x = 0"
    and equal_sym: "cmp x y = 0 \<Longrightarrow> cmp y x = 0"
    and equal_trans: "cmp x y = 0 \<Longrightarrow> cmp y z = 0 \<Longrightarrow> cmp x z = 0"
    and equal_hash: "cmp x y = 0 \<Longrightarrow> hash x = hash y"

text \<open>The element of \<open>S\<close> equal to \<open>d\<close>, if there is one.\<close>

definition equal_in :: "('a \<Rightarrow> 'a \<Rightarrow> int) \<Rightarrow> 'a set \<Rightarrow> 'a \<Rightarrow> 'a option \<Rightarrow> bool" where
  "equal_in cmp S d r = (case r of None \<Rightarrow> \<forall>x \<in> S. cmp x d \<noteq> 0 | Some x \<Rightarrow> x \<in> S \<and> cmp x d = 0)"

definition without :: "('a \<Rightarrow> 'a \<Rightarrow> int) \<Rightarrow> 'a set \<Rightarrow> 'a \<Rightarrow> 'a set" where
  "without cmp S d = {x \<in> S. cmp x d \<noteq> 0}"

lemma chain_search_less: "chain_search eq chain < length chain \<Longrightarrow> eq (item_data (chain ! chain_search eq chain))"
  by (induction chain) auto

lemma chain_search_end: "length chain \<le> chain_search eq chain \<longleftrightarrow> (\<forall>it \<in> set chain. \<not> eq (item_data it))"
  by (induction chain) auto

lemma chain_search_le: "chain_search eq chain \<le> length chain"
  by (induction chain) auto

lemma lh_okD:
  assumes "lh_ok hash cmp lh"
  shows "length (buckets lh) = num_buckets lh" and "0 < num_buckets lh" and "num_items lh = length (lh_items lh)"
    and "placed hash (buckets lh)" and "no_equals cmp (lh_items lh)"
  using assms by (auto simp: lh_ok_def kMinNumBuckets_def)

context element_functions
begin

text \<open>Equal elements are in the bucket of the hash, so searching the chain searches the table.\<close>

lemma search_facts:
  assumes ok: "lh_ok hash cmp lh" and run: "get_next_ptr_and_hash hash cmp lh d = (h, b, i)"
  shows "h = hash d" and "b = unat (hash d) mod num_buckets lh" and "b < length (buckets lh)"
    and "i < length (buckets lh ! b) \<Longrightarrow> buckets lh ! b ! i \<in> set (lh_items lh) \<and> cmp (item_data (buckets lh ! b ! i)) d = 0"
    and "\<not> i < length (buckets lh ! b) \<Longrightarrow> i = length (buckets lh ! b) \<and> (\<forall>x \<in> lh_elems lh. cmp x d \<noteq> 0)"
proof -
  show h: "h = hash d" and b: "b = unat (hash d) mod num_buckets lh" and len: "b < length (buckets lh)"
    using run lh_okD(1,2) [OF ok] by (auto simp: get_next_ptr_and_hash_def Let_def)
  have i: "i = chain_search (\<lambda>cur. cmp cur d = 0) (buckets lh ! b)" using run by (auto simp: get_next_ptr_and_hash_def Let_def)
  show "buckets lh ! b ! i \<in> set (lh_items lh) \<and> cmp (item_data (buckets lh ! b ! i)) d = 0" if "i < length (buckets lh ! b)"
    using chain_search_less [of "\<lambda>cur. cmp cur d = 0" "buckets lh ! b"] that i len by (auto simp: set_items)
  show "i = length (buckets lh ! b) \<and> (\<forall>x \<in> lh_elems lh. cmp x d \<noteq> 0)" if end_of: "\<not> i < length (buckets lh ! b)"
  proof (intro conjI ballI)
    show "i = length (buckets lh ! b)" using end_of i chain_search_le [of "\<lambda>cur. cmp cur d = 0" "buckets lh ! b"] by simp
    fix x assume "x \<in> lh_elems lh"
    then obtain it b' where it: "b' < length (buckets lh)" "it \<in> set (buckets lh ! b')" "x = item_data it"
      by (auto simp: lh_elems_def set_items)
    show "cmp x d \<noteq> 0"
    proof
      assume eq: "cmp x d = 0"
      have "unat (hash (item_data it)) mod length (buckets lh) = b'" using lh_okD(4) [OF ok] it(1,2) unfolding placed_def by blast
      then have "b' = b" using lh_okD(1) [OF ok] equal_hash [OF eq] b it(3) by simp
      then show False using end_of eq it i chain_search_end [of "buckets lh ! b" "\<lambda>cur. cmp cur d = 0"] by auto
    qed
  qed
qed

lemma retrieve_equal:
  assumes "lh_ok hash cmp lh"
  shows "equal_in cmp (lh_elems lh) d (OPENSSL_lh_retrieve hash cmp lh d)"
proof -
  obtain h b i where run: "get_next_ptr_and_hash hash cmp lh d = (h, b, i)" by (cases "get_next_ptr_and_hash hash cmp lh d")
  show ?thesis
    using search_facts(4,5) [OF assms run] run
    by (auto simp: OPENSSL_lh_retrieve_def at_ptr_def equal_in_def lh_elems_def)
qed

lemma retrieve_unique:
  assumes "lh_ok hash cmp lh"
  shows "OPENSSL_lh_retrieve hash cmp lh d = Some x \<longleftrightarrow> x \<in> lh_elems lh \<and> cmp x d = 0"
proof
  assume x: "x \<in> lh_elems lh \<and> cmp x d = 0"
  have "y = x" if y: "y \<in> lh_elems lh" "cmp y d = 0" for y
  proof -
    have "cmp y x = 0" by (rule equal_trans [OF y(2) equal_sym]) (use x in simp)
    then show ?thesis using lh_okD(5) [OF assms] x y(1) unfolding no_equals_def lh_elems_def by blast
  qed
  note unique = this
  show "OPENSSL_lh_retrieve hash cmp lh d = Some x"
  proof (cases "OPENSSL_lh_retrieve hash cmp lh d")
    case None
    then show ?thesis using retrieve_equal [OF assms, of d] x by (auto simp: equal_in_def)
  next
    case (Some y)
    then show ?thesis using retrieve_equal [OF assms, of d] unique [of y] by (simp add: equal_in_def)
  qed
qed (use retrieve_equal [OF assms, of d] in \<open>simp add: equal_in_def\<close>)

lemma same_class: "cmp x d = 0 \<Longrightarrow> cmp y d = 0 \<longleftrightarrow> cmp y x = 0"
  using equal_trans equal_sym by blast

lemma no_equals_Cons:
  "no_equals cmp (it # rest) \<longleftrightarrow> no_equals cmp rest \<and> (\<forall>y \<in> set rest. cmp (item_data y) (item_data it) \<noteq> 0)" (is "?l \<longleftrightarrow> ?r")
proof
  assume l: ?l
  have "cmp (item_data y) (item_data it) \<noteq> 0" if "y \<in> set rest" for y
  proof
    assume "cmp (item_data y) (item_data it) = 0"
    then have "item_data y = item_data it" using l that unfolding no_equals_def by simp
    moreover have "item_data it \<notin> item_data ` set rest" using l by (simp add: no_equals_def)
    ultimately show False using that by (metis imageI)
  qed
  then show ?r using l by (simp add: no_equals_def)
next
  assume r: ?r
  then have "item_data it \<notin> item_data ` set rest" using equal_refl by auto
  moreover have "cmp (item_data it) (item_data y) \<noteq> 0" if "y \<in> set rest" for y using r that equal_sym by blast
  ultimately show ?l using r by (simp add: no_equals_def)
qed

lemma rest_differs:
  assumes "no_equals cmp (it # rest)" and "cmp (item_data it) d = 0" and "y \<in> set rest"
  shows "cmp (item_data y) d \<noteq> 0"
  using assms same_class [OF assms(2), of "item_data y"] by (simp add: no_equals_Cons)

text \<open>Replacing, appending and removing an item of a chain.\<close>

lemma insert_replaces:
  assumes ok: "lh_ok hash cmp lh" and run: "get_next_ptr_and_hash hash cmp lh d = (h, b, i)" and i: "i < length (buckets lh ! b)"
  defines "lh' \<equiv> lh\<lparr>buckets := (buckets lh)[b := (buckets lh ! b)[i := (buckets lh ! b ! i)\<lparr>item_data := d\<rparr>]]\<rparr>"
  shows "lh_ok hash cmp lh'" and "lh_elems lh' = insert d (without cmp (lh_elems lh) d)"
proof -
  let ?chain = "buckets lh ! b" and ?it = "buckets lh ! b ! i" and ?new = "(buckets lh ! b ! i)\<lparr>item_data := d\<rparr>"
  note f = search_facts [OF ok run]
  have b: "b < length (buckets lh)" and it: "?it \<in> set (lh_items lh)" "cmp (item_data ?it) d = 0" using f(3,4) i by auto
  have chain: "mset (?chain[i := ?new]) + {#?it#} = mset ?chain + {#?new#}" using i by (simp add: mset_update)
  have items: "mset (lh_items lh') + {#?it#} = mset (lh_items lh) + {#?new#}"
  proof -
    have "(mset (lh_items lh') + {#?it#}) + mset ?chain = (mset (lh_items lh') + mset ?chain) + {#?it#}" by (simp add: ac_simps)
    also have "\<dots> = (mset (lh_items lh) + mset (?chain[i := ?new])) + {#?it#}"
      using mset_concat_update [OF b, of "?chain[i := ?new]"] by (simp add: lh'_def lh_items_def)
    also have "\<dots> = (mset (lh_items lh) + {#?new#}) + mset ?chain" using chain by (simp only: add.assoc) (simp only: ac_simps)
    finally show ?thesis by (rule add_right_imp_eq)
  qed
  obtain rest where rest: "mset (lh_items lh) = add_mset ?it (mset rest)"
    using it(1) by (metis ex_mset in_multiset_in_set insert_DiffM)
  then have new: "mset (lh_items lh') = add_mset ?new (mset rest)" using items by simp
  have eqs: "no_equals cmp (?it # rest)" using lh_okD(5) [OF ok] no_equals_mset [of "lh_items lh" "?it # rest"] rest by simp
  note others = rest_differs [OF eqs it(2)]
  have "no_equals cmp (?new # rest)" using eqs others by (simp add: no_equals_Cons)
  then have "no_equals cmp (lh_items lh')" using no_equals_mset [of "lh_items lh'" "?new # rest"] new by simp
  moreover have "length (lh_items lh') = length (lh_items lh)" using new rest by (metis size_add_mset size_mset)
  moreover have "placed hash (buckets lh')"
  proof -
    note p = placed_chain [OF lh_okD(4) [OF ok] b]
    have "item_hash x = hash (item_data x) \<and> unat (hash (item_data x)) mod length (buckets lh) = b" if "x \<in> set (?chain[i := ?new])" for x
    proof -
      have "x = ?new \<or> x \<in> set ?chain" using that set_update_subset_insert by fast
      then show ?thesis using p [of x] p [of ?it] i equal_hash [OF it(2)] by auto
    qed
    from placed_update [OF lh_okD(4) [OF ok] this] show ?thesis by (simp add: lh'_def)
  qed
  ultimately show "lh_ok hash cmp lh'" using ok by (simp add: lh_ok_def lh'_def)
  have "lh_elems lh' = insert d (item_data ` set rest)" "lh_elems lh = insert (item_data ?it) (item_data ` set rest)"
    using mset_eq_setD [of "lh_items lh'" "?new # rest"] mset_eq_setD [of "lh_items lh" "?it # rest"] new rest by (auto simp: lh_elems_def)
  then show "lh_elems lh' = insert d (without cmp (lh_elems lh) d)" using it(2) others by (auto simp: without_def)
qed

lemma insert_appends:
  assumes ok: "lh_ok hash cmp lh" and run: "get_next_ptr_and_hash hash cmp lh d = (h, b, i)" and i: "\<not> i < length (buckets lh ! b)"
    and room: "num_items lh + 1 < SIZE_LIMIT"
  defines "lh' \<equiv> lh\<lparr>buckets := (buckets lh)[b := buckets lh ! b @ [\<lparr>item_data = d, item_hash = h\<rparr>]], num_items := size_add (num_items lh) 1\<rparr>"
  shows "lh_ok hash cmp lh'" and "lh_elems lh' = insert d (without cmp (lh_elems lh) d)"
proof -
  let ?new = "\<lparr>item_data = d, item_hash = h\<rparr>"
  note f = search_facts [OF ok run]
  have b: "b < length (buckets lh)" and new: "\<forall>x \<in> lh_elems lh. cmp x d \<noteq> 0" using f(3,5) i by auto
  have items: "mset (lh_items lh') = add_mset ?new (mset (lh_items lh))"
    using mset_concat_update [OF b, of "buckets lh ! b @ [?new]"] by (simp add: lh'_def lh_items_def)
  have "no_equals cmp (?new # lh_items lh)"
    using lh_okD(5) [OF ok] new by (simp add: no_equals_Cons lh_elems_def)
  then have "no_equals cmp (lh_items lh')" using no_equals_mset [of "lh_items lh'" "?new # lh_items lh"] items by simp
  moreover have "length (lh_items lh') = Suc (length (lh_items lh))" using items by (metis size_add_mset size_mset)
  moreover have "placed hash (buckets lh')"
    unfolding lh'_def using lh_okD(1) [OF ok] f(1,2) placed_chain [OF lh_okD(4) [OF ok] b]
    by (simp, intro placed_update [OF lh_okD(4) [OF ok]]) auto
  ultimately show "lh_ok hash cmp lh'" using ok room by (simp add: lh_ok_def lh'_def size_add_exact)
  have "lh_elems lh' = insert d (lh_elems lh)"
    using mset_eq_setD [of "lh_items lh'" "?new # lh_items lh"] items by (auto simp: lh_elems_def)
  then show "lh_elems lh' = insert d (without cmp (lh_elems lh) d)" using new by (auto simp: without_def)
qed

lemma delete_removes:
  assumes ok: "lh_ok hash cmp lh" and run: "get_next_ptr_and_hash hash cmp lh d = (h, b, i)" and i: "i < length (buckets lh ! b)"
    and small: "num_items lh < SIZE_LIMIT"
  defines "lh' \<equiv> lh\<lparr>buckets := (buckets lh)[b := take i (buckets lh ! b) @ drop (Suc i) (buckets lh ! b)],
      num_items := size_add (num_items lh) (SIZE_LIMIT - 1)\<rparr>"
  shows "lh_ok hash cmp lh'" and "lh_elems lh' = without cmp (lh_elems lh) d"
proof -
  let ?chain = "buckets lh ! b" and ?it = "buckets lh ! b ! i"
  note f = search_facts [OF ok run]
  have b: "b < length (buckets lh)" and it: "?it \<in> set (lh_items lh)" "cmp (item_data ?it) d = 0" using f(3,4) i by auto
  have "mset ?chain = add_mset ?it (mset (take i ?chain @ drop (Suc i) ?chain))"
    using arg_cong [OF id_take_nth_drop [OF i], of mset] by simp
  then have items: "mset (lh_items lh) = add_mset ?it (mset (lh_items lh'))"
    using mset_concat_update [OF b, of "take i ?chain @ drop (Suc i) ?chain"] by (simp add: lh'_def lh_items_def)
  have eqs: "no_equals cmp (?it # lh_items lh')" using lh_okD(5) [OF ok] no_equals_mset [of "lh_items lh" "?it # lh_items lh'"] items by simp
  note others = rest_differs [OF eqs it(2)]
  have len: "length (lh_items lh) = Suc (length (lh_items lh'))" using items by (metis size_add_mset size_mset)
  have "num_items lh + (SIZE_LIMIT - 1) = (num_items lh - 1) + SIZE_LIMIT"
    using len lh_okD(3) [OF ok] by (simp add: SIZE_LIMIT_def)
  then have "size_add (num_items lh) (SIZE_LIMIT - 1) = (num_items lh - 1) mod SIZE_LIMIT" by (simp only: size_add_def mod_add_self2)
  then have "size_add (num_items lh) (SIZE_LIMIT - 1) = num_items lh - 1" using small by simp
  moreover have "no_equals cmp (lh_items lh')" using eqs by (simp add: no_equals_Cons)
  moreover have "placed hash (buckets lh')"
    unfolding lh'_def using placed_chain [OF lh_okD(4) [OF ok] b]
    by (simp, intro placed_update [OF lh_okD(4) [OF ok]]) (auto dest: in_set_takeD in_set_dropD)
  ultimately show "lh_ok hash cmp lh'" using ok len by (simp add: lh_ok_def lh'_def lh_items_def)
  have "lh_elems lh = insert (item_data ?it) (lh_elems lh')"
    using mset_eq_setD [of "lh_items lh" "?it # lh_items lh'"] items by (simp add: lh_elems_def)
  moreover have "\<forall>x \<in> lh_elems lh'. cmp x d \<noteq> 0" using others by (simp add: lh_elems_def)
  ultimately show "lh_elems lh' = without cmp (lh_elems lh) d" using it(2) by (auto simp: without_def)
qed

lemma insert_facts:
  assumes ok: "lh_ok hash cmp lh" and room: "num_items lh + 1 < SIZE_LIMIT"
    and run: "OPENSSL_lh_insert hash cmp lh d as = (done, old, lh', as')"
  shows "lh_ok hash cmp lh'" and "equal_in cmp (lh_elems lh) d old" and "num_items lh' \<le> num_items lh + 1"
    and "callback_depth lh' = callback_depth lh"
    and "lh_elems lh' = (if done then insert d (without cmp (lh_elems lh) d) else lh_elems lh)" and "\<not> done \<Longrightarrow> old = None"
proof -
  obtain h b i where ptr: "get_next_ptr_and_hash hash cmp lh d = (h, b, i)" by (cases "get_next_ptr_and_hash hash cmp lh d")
  note f = search_facts [OF ok ptr]
  have "lh_ok hash cmp lh' \<and> equal_in cmp (lh_elems lh) d old \<and> num_items lh' \<le> num_items lh + 1 \<and> callback_depth lh' = callback_depth lh \<and>
    lh_elems lh' = (if done then insert d (without cmp (lh_elems lh) d) else lh_elems lh) \<and> (\<not> done \<longrightarrow> old = None)"
  proof (cases "i < length (buckets lh ! b)")
    case True
    then show ?thesis
      using run ptr insert_replaces [OF ok ptr True] f(4) [OF True]
      by (auto simp: OPENSSL_lh_insert_def Let_def equal_in_def lh_elems_def)
  next
    case False
    note none = f(5) [OF False]
    obtain ans as1 where ask: "ask_malloc 24 as = (ans, as1)" by (cases "ask_malloc 24 as")
    let ?lh = "lh\<lparr>buckets := (buckets lh)[b := buckets lh ! b @ [\<lparr>item_data = d, item_hash = h\<rparr>]], num_items := size_add (num_items lh) 1\<rparr>"
    note app = insert_appends [OF ok ptr False room]
    show ?thesis
    proof (cases ans)
      case True
      then have resize: "lh_maybe_resize ?lh as1 = (lh', as')" "done" "old = None"
        using run ptr False ask by (auto simp: OPENSSL_lh_insert_def Let_def split: prod.splits)
      note r = lh_maybe_resize_facts [OF app(1) resize(1)]
      show ?thesis using r app(2) none resize(2,3) room by (auto simp: equal_in_def size_add_exact)
    next
      case False
      then show ?thesis using run ptr \<open>\<not> i < _\<close> ask ok none by (auto simp: OPENSSL_lh_insert_def Let_def equal_in_def)
    qed
  qed
  then show "lh_ok hash cmp lh'" and "equal_in cmp (lh_elems lh) d old" and "num_items lh' \<le> num_items lh + 1"
    and "callback_depth lh' = callback_depth lh"
    and "lh_elems lh' = (if done then insert d (without cmp (lh_elems lh) d) else lh_elems lh)" and "\<not> done \<Longrightarrow> old = None"
    by blast+
qed

lemma delete_facts:
  assumes ok: "lh_ok hash cmp lh" and small: "num_items lh < SIZE_LIMIT"
    and run: "OPENSSL_lh_delete hash cmp lh d as = (old, lh', as')"
  shows "lh_ok hash cmp lh'" and "equal_in cmp (lh_elems lh) d old" and "num_items lh' \<le> num_items lh"
    and "callback_depth lh' = callback_depth lh" and "lh_elems lh' = without cmp (lh_elems lh) d"
proof -
  obtain h b i where ptr: "get_next_ptr_and_hash hash cmp lh d = (h, b, i)" by (cases "get_next_ptr_and_hash hash cmp lh d")
  note f = search_facts [OF ok ptr]
  have "lh_ok hash cmp lh' \<and> equal_in cmp (lh_elems lh) d old \<and> num_items lh' \<le> num_items lh \<and> callback_depth lh' = callback_depth lh \<and>
    lh_elems lh' = without cmp (lh_elems lh) d"
  proof (cases "i < length (buckets lh ! b)")
    case False
    then show ?thesis
      using run ptr f(5) [OF False] ok by (auto simp: OPENSSL_lh_delete_def Let_def equal_in_def without_def)
  next
    case True
    let ?lh = "lh\<lparr>buckets := (buckets lh)[b := take i (buckets lh ! b) @ drop (Suc i) (buckets lh ! b)],
      num_items := size_add (num_items lh) (SIZE_LIMIT - 1)\<rparr>"
    note del = delete_removes [OF ok ptr True small]
    have resize: "lh_maybe_resize ?lh as = (lh', as')" "old = Some (item_data (buckets lh ! b ! i))"
      using run ptr True by (auto simp: OPENSSL_lh_delete_def Let_def split: prod.splits)
    note r = lh_maybe_resize_facts [OF del(1) resize(1)]
    have "0 < num_items lh" using f(4) [OF True] lh_okD(3) [OF ok] by (auto simp: length_pos_if_in_set)
    then have "num_items lh + (SIZE_LIMIT - 1) = (num_items lh - 1) + SIZE_LIMIT" by (simp add: SIZE_LIMIT_def)
    then have "size_add (num_items lh) (SIZE_LIMIT - 1) = (num_items lh - 1) mod SIZE_LIMIT" by (simp only: size_add_def mod_add_self2)
    then have "num_items ?lh \<le> num_items lh" using le_trans [OF mod_less_eq_dividend diff_le_self] by simp
    then show ?thesis using r del(2) resize(2) f(4) [OF True] by (auto simp: equal_in_def lh_elems_def)
  qed
  then show "lh_ok hash cmp lh'" and "equal_in cmp (lh_elems lh) d old" and "num_items lh' \<le> num_items lh"
    and "callback_depth lh' = callback_depth lh" and "lh_elems lh' = without cmp (lh_elems lh) d"
    by blast+
qed

end

lemma new_table: "OPENSSL_lh_new as = (Some lh, as') \<Longrightarrow> lh_ok hash cmp lh \<and> lh_elems lh = {} \<and> num_items lh = 0"
  by (auto simp: OPENSSL_lh_new_def lh_ok_def lh_elems_def lh_items_def no_equals_def placed_empty kMinNumBuckets_def
      split: prod.splits bool.splits)

text \<open>\<open>OPENSSL_lh_doall_arg\<close> calls the function on every element once.\<close>

lemma doall_visits:
  assumes "lh_ok hash cmp lh" and "OPENSSL_lh_doall_arg lh func arg as = (arg', lh', as')"
  shows "arg' = fold func (map item_data (lh_items lh)) arg \<and> distinct (map item_data (lh_items lh)) \<and>
    set (map item_data (lh_items lh)) = lh_elems lh \<and> lh_ok hash cmp lh' \<and> lh_elems lh' = lh_elems lh"
proof -
  have arg: "fold (fold (\<lambda>cur. func (item_data cur))) (buckets lh) arg = fold func (map item_data (lh_items lh)) arg"
    by (simp add: rebucket_fold lh_items_def fold_map comp_def)
  obtain k where resize: "lh_maybe_resize (lh\<lparr>callback_depth := k\<rparr>) as = (lh', as')"
    and "arg' = fold (fold (\<lambda>cur. func (item_data cur))) (buckets lh) arg"
    using assms(2) by (auto simp: OPENSSL_lh_doall_arg_def Let_def split: prod.splits if_splits) (metis lhash.update_convs(4) lhash.surjective)+
  moreover have "lh_ok hash cmp (lh\<lparr>callback_depth := k\<rparr>)" using assms(1) by (simp add: lh_ok_def lh_items_def)
  ultimately show ?thesis
    using arg lh_maybe_resize_facts(1,2) [of hash cmp "lh\<lparr>callback_depth := k\<rparr>" as lh' as'] lh_okD(5) [OF assms(1)]
    by (auto simp: no_equals_def lh_elems_def lh_items_def)
qed

section \<open>Sequences of operations\<close>

datatype 'a lh_op = Insert 'a | Delete 'a | Retrieve 'a

datatype 'a lh_result = Inserted bool "'a option" | Found "'a option"

fun lh_step :: "('a \<Rightarrow> u32) \<Rightarrow> ('a \<Rightarrow> 'a \<Rightarrow> int) \<Rightarrow> 'a lh_op \<Rightarrow> 'a lhash \<Rightarrow> answers \<Rightarrow> 'a lh_result \<times> 'a lhash \<times> answers" where
  "lh_step hash cmp (Insert d) lh as = (case OPENSSL_lh_insert hash cmp lh d as of (ok, old, lh, as) \<Rightarrow> (Inserted ok old, lh, as))"
| "lh_step hash cmp (Delete d) lh as = (case OPENSSL_lh_delete hash cmp lh d as of (old, lh, as) \<Rightarrow> (Found old, lh, as))"
| "lh_step hash cmp (Retrieve d) lh as = (Found (OPENSSL_lh_retrieve hash cmp lh d), lh, as)"

fun lh_run :: "('a \<Rightarrow> u32) \<Rightarrow> ('a \<Rightarrow> 'a \<Rightarrow> int) \<Rightarrow> 'a lh_op list \<Rightarrow> 'a lhash \<Rightarrow> answers \<Rightarrow> 'a lh_result list \<times> 'a lhash \<times> answers" where
  "lh_run hash cmp [] lh as = ([], lh, as)"
| "lh_run hash cmp (op # ops) lh as =
     (let (r, lh, as) = lh_step hash cmp op lh as; (rs, lh, as) = lh_run hash cmp ops lh as in (r # rs, lh, as))"

text \<open>The same operations on a set that holds at most one of each class of equal elements.\<close>

fun set_step :: "('a \<Rightarrow> 'a \<Rightarrow> int) \<Rightarrow> 'a set \<Rightarrow> 'a lh_op \<Rightarrow> 'a lh_result \<Rightarrow> 'a set \<Rightarrow> bool" where
  "set_step cmp S (Insert d) (Inserted ok old) S' \<longleftrightarrow>
     equal_in cmp S d old \<and> (if ok then S' = insert d (without cmp S d) else old = None \<and> S' = S)"
| "set_step cmp S (Delete d) (Found old) S' \<longleftrightarrow> equal_in cmp S d old \<and> S' = without cmp S d"
| "set_step cmp S (Retrieve d) (Found r) S' \<longleftrightarrow> equal_in cmp S d r \<and> S' = S"
| "set_step cmp S _ _ S' \<longleftrightarrow> False"

fun set_run :: "('a \<Rightarrow> 'a \<Rightarrow> int) \<Rightarrow> 'a set \<Rightarrow> 'a lh_op list \<Rightarrow> 'a lh_result list \<Rightarrow> 'a set \<Rightarrow> bool" where
  "set_run cmp S [] [] S' \<longleftrightarrow> S' = S"
| "set_run cmp S (op # ops) (r # rs) S' \<longleftrightarrow> (\<exists>S1. set_step cmp S op r S1 \<and> set_run cmp S1 ops rs S')"
| "set_run cmp S _ _ S' \<longleftrightarrow> False"

context element_functions
begin

lemma step_refines:
  assumes "lh_ok hash cmp lh" and "num_items lh + 1 < SIZE_LIMIT" and "lh_step hash cmp op lh as = (r, lh', as')"
  shows "lh_ok hash cmp lh' \<and> num_items lh' \<le> num_items lh + 1 \<and> set_step cmp (lh_elems lh) op r (lh_elems lh')"
proof (cases op)
  case (Insert d)
  obtain ok old where "OPENSSL_lh_insert hash cmp lh d as = (ok, old, lh', as')" "r = Inserted ok old"
    using assms(3) Insert by (auto split: prod.splits)
  then show ?thesis using insert_facts [OF assms(1,2)] Insert by auto
next
  case (Delete d)
  obtain old where "OPENSSL_lh_delete hash cmp lh d as = (old, lh', as')" "r = Found old"
    using assms(3) Delete by (auto split: prod.splits)
  then show ?thesis using delete_facts [OF assms(1)] assms(2) Delete by fastforce
next
  case (Retrieve d)
  then show ?thesis using assms retrieve_equal [OF assms(1)] by auto
qed

lemma run_refines:
  "lh_ok hash cmp lh \<Longrightarrow> num_items lh + length ops < SIZE_LIMIT \<Longrightarrow> lh_run hash cmp ops lh as = (rs, lh', as') \<Longrightarrow>
   lh_ok hash cmp lh' \<and> set_run cmp (lh_elems lh) ops rs (lh_elems lh')"
proof (induction ops arbitrary: lh as rs)
  case (Cons op ops)
  obtain r lh1 as1 where step: "lh_step hash cmp op lh as = (r, lh1, as1)" by (cases "lh_step hash cmp op lh as")
  obtain rs1 where rest: "lh_run hash cmp ops lh1 as1 = (rs1, lh', as')" "rs = r # rs1"
    using Cons.prems(3) step by (auto split: prod.splits)
  have "lh_ok hash cmp lh1 \<and> num_items lh1 \<le> num_items lh + 1 \<and> set_step cmp (lh_elems lh) op r (lh_elems lh1)"
    by (rule step_refines [OF Cons.prems(1) _ step]) (use Cons.prems(2) in simp)
  then show ?case using Cons.IH [OF _ _ rest(1)] Cons.prems(2) rest(2) by auto
qed auto

end

lemma free_blocks: "OPENSSL_lh_free (Some lh) = map Item_block (lh_items lh) @ [Buckets_block, Table_block]"
  by (simp add: OPENSSL_lh_free_def lh_items_def map_concat)

section \<open>Tables of byte strings\<close>

definition compare_bytes :: "bytes \<Rightarrow> bytes \<Rightarrow> int" where
  "compare_bytes a b = (if length a \<noteq> length b then 1 else OPENSSL_memcmp a b)"

lemma memcmp_eq_0: "length a = length b \<Longrightarrow> OPENSSL_memcmp a b = 0 \<longleftrightarrow> a = b"
  by (induction a b rule: list_induct2) auto

lemma compare_bytes_eq: "compare_bytes a b = 0 \<longleftrightarrow> a = b"
  by (auto simp: compare_bytes_def memcmp_eq_0)

interpretation byte_strings: element_functions OPENSSL_hash32 compare_bytes
  by unfold_locales (simp_all add: compare_bytes_eq)

section \<open>The properties\<close>

text \<open>
  C7: a table is a set with one element of each class. From a new table on, any sequence of insertions,
  deletions and look-ups - with every growth and shrinking of the buckets they trigger and whichever
  allocations fail - gives the results a set of elements gives: what is found is the element equal to
  the one asked for, an insertion replaces it and hands it back, a deletion removes it and hands it
  back, and an insertion without memory changes nothing. The invariant of the table holds throughout.
\<close>

theorem lhash_refines_set:
  assumes "element_functions hash cmp" and "OPENSSL_lh_new as = (Some lh, as1)" and "length ops < SIZE_LIMIT"
    and "lh_run hash cmp ops lh as1 = (rs, lh', as')"
  shows "set_run cmp {} ops rs (lh_elems lh') \<and> lh_ok hash cmp lh' \<and> OPENSSL_lh_num_items lh' = card (lh_elems lh')"
proof -
  note new = new_table [OF assms(2), of hash cmp]
  from element_functions.run_refines [OF assms(1) _ _ assms(4)] new assms(3)
  have run: "lh_ok hash cmp lh' \<and> set_run cmp {} ops rs (lh_elems lh')" by simp
  moreover have "card (lh_elems lh') = num_items lh'"
    using lh_okD(3,5) [of hash cmp lh'] run distinct_card [of "map item_data (lh_items lh')"] by (simp add: lh_elems_def no_equals_def)
  ultimately show ?thesis by (simp add: OPENSSL_lh_num_items_def)
qed

theorem lhash_refines_set_witness:
  "\<exists>lh lh' as' rs. OPENSSL_lh_new [True, True, True] = (Some lh, [True]) \<and>
    lh_run OPENSSL_hash32 compare_bytes [Insert [], Retrieve [], Delete [], Retrieve []] lh [True] = (rs, lh', as') \<and>
    rs = [Inserted True None, Found (Some []), Found (Some []), Found None] \<and>
    set_run compare_bytes {} [Insert [], Retrieve [], Delete [], Retrieve []] rs (lh_elems lh') \<and>
    lh_ok OPENSSL_hash32 compare_bytes lh' \<and> OPENSSL_lh_num_items lh' = card (lh_elems lh')"
proof -
  let ?lh = "\<lparr>num_items = 0, buckets = replicate 16 [], num_buckets = 16, callback_depth = 0\<rparr> :: bytes lhash"
  let ?ops = "[Insert [], Retrieve [], Delete [], Retrieve []] :: bytes lh_op list"
  let ?rs = "[Inserted True None, Found (Some []), Found (Some []), Found None] :: bytes lh_result list"
  have new: "OPENSSL_lh_new [True, True, True] = (Some ?lh, [True])"
    by (simp add: OPENSSL_lh_new_def ask_malloc_answer kMinNumBuckets_def SIZE_LIMIT_def)
  obtain lh' as' where run: "lh_run OPENSSL_hash32 compare_bytes ?ops ?lh [True] = (?rs, lh', as')"
    by (simp add: OPENSSL_lh_insert_def OPENSSL_lh_delete_def OPENSSL_lh_retrieve_def get_next_ptr_and_hash_def at_ptr_def
        ask_malloc_answer SIZE_LIMIT_def OPENSSL_hash32_def lh_maybe_resize_def size_add_def compare_bytes_def Let_def
        kMinNumBuckets_def kMaxAverageChainLength_def kMinAverageChainLength_def)
  have "length ?ops < SIZE_LIMIT" by (simp add: SIZE_LIMIT_def)
  from lhash_refines_set [OF byte_strings.element_functions_axioms new this run] new run show ?thesis by blast
qed

end
