(* ===== verification/Ssl_Pool.thy ===== *)
theory Ssl_Pool
  imports Ssl_Lhash
begin

text \<open>
  The pool of buffers of \<open>pool.c\<close>, which keeps one copy of each certificate: reference counted buffers
  in a hash table of \<open>lhash.c\<close>, used by several threads. The functions are the sequences of their
  critical sections; \<open>pool_step\<close> interleaves the sections of any number of threads.
\<close>

section \<open>Buffers\<close>

record crypto_buffer =
  in_pool :: bool
  buf_data :: bytes
  references :: u32
  data_is_static :: bool

type_synonym objects = "nat \<Rightarrow> crypto_buffer option"

definition buffer_at :: "objects \<Rightarrow> nat \<Rightarrow> crypto_buffer" where
  "buffer_at objs p = (case objs p of Some b \<Rightarrow> b | None \<Rightarrow> \<lparr>in_pool = False, buf_data = [], references = 0, data_is_static = False\<rparr>)"

definition CRYPTO_BUFFER_hash :: "objects \<Rightarrow> nat \<Rightarrow> u32" where
  "CRYPTO_BUFFER_hash objs buf = OPENSSL_hash32 (buf_data (buffer_at objs buf))"

definition CRYPTO_BUFFER_cmp :: "objects \<Rightarrow> nat \<Rightarrow> nat \<Rightarrow> int" where
  "CRYPTO_BUFFER_cmp objs a b =
     (let a = buf_data (buffer_at objs a); b = buf_data (buffer_at objs b) in
      if length a \<noteq> length b then 1 else OPENSSL_memcmp a b)"

definition CRYPTO_BUFFER_data :: "crypto_buffer \<Rightarrow> bytes" where "CRYPTO_BUFFER_data buf = buf_data buf"
definition CRYPTO_BUFFER_len :: "crypto_buffer \<Rightarrow> nat" where "CRYPTO_BUFFER_len buf = length (buf_data buf)"

section \<open>The pool\<close>

text \<open>The pool is one block of memory: a pointer (8 bytes) and the lock (200 bytes on the target).\<close>

record pool_state =
  store :: objects
  bufs :: "nat lhash"

definition CRYPTO_BUFFER_POOL_new :: "objects \<Rightarrow> answers \<Rightarrow> pool_state option \<times> answers" where
  "CRYPTO_BUFFER_POOL_new objs as =
     (case ask_malloc (8 + 200) as of
        (False, as) \<Rightarrow> (None, as)
      | (True, as) \<Rightarrow> (case OPENSSL_lh_new as of (lh, as) \<Rightarrow> (map_option (\<lambda>lh. \<lparr>store = objs, bufs = lh\<rparr>) lh, as)))"

text \<open>
  \<open>None\<close> is the failed assertion (of builds without \<open>NDEBUG\<close>) that the table is empty; otherwise the
  blocks of the table that are freed.
\<close>

definition CRYPTO_BUFFER_POOL_free :: "pool_state option \<Rightarrow> nat lh_block list option" where
  "CRYPTO_BUFFER_POOL_free pool =
     (case pool of
        None \<Rightarrow> Some []
      | Some st \<Rightarrow> if OPENSSL_lh_num_items (bufs st) \<noteq> 0 then None else Some (OPENSSL_lh_free (Some (bufs st))))"

definition inc_ref :: "nat \<Rightarrow> pool_state \<Rightarrow> pool_state" where
  "inc_ref p st =
     (let b = buffer_at (store st) p in st\<lparr>store := (store st)(p \<mapsto> b\<lparr>references := CRYPTO_refcount_inc (references b)\<rparr>)\<rparr>)"

definition crypto_buffer_free_object :: "nat \<Rightarrow> pool_state \<Rightarrow> pool_state" where
  "crypto_buffer_free_object p st = st\<lparr>store := (store st)(p := None)\<rparr>"

text \<open>A dynamic duplicate does not count for a static buffer.\<close>

definition find_duplicate :: "objects \<Rightarrow> nat lhash \<Rightarrow> nat \<Rightarrow> bool \<Rightarrow> nat option" where
  "find_duplicate objs lh p is_static =
     (case OPENSSL_lh_retrieve (CRYPTO_BUFFER_hash objs) (CRYPTO_BUFFER_cmp objs) lh p of
        None \<Rightarrow> None
      | Some d \<Rightarrow> if is_static \<and> \<not> data_is_static (buffer_at objs d) then None else Some d)"

text \<open>
  The section of \<open>crypto_buffer_new\<close> under the read lock. Its local \<open>tmp\<close> is put at the address 0, which
  no allocation returns; only the bytes of \<open>tmp\<close> are set and read.
\<close>

definition pool_lookup :: "bytes \<Rightarrow> bool \<Rightarrow> pool_state \<Rightarrow> nat option \<times> pool_state" where
  "pool_lookup data is_static st =
     (let tmp = \<lparr>in_pool = False, buf_data = data, references = 0, data_is_static = False\<rparr> in
      case find_duplicate ((store st)(0 \<mapsto> tmp)) (bufs st) 0 is_static of
        None \<Rightarrow> (None, st)
      | Some d \<Rightarrow> (Some d, inc_ref d st))"

definition new_buffer :: "nat \<Rightarrow> bytes \<Rightarrow> bool \<Rightarrow> bool \<Rightarrow> pool_state \<Rightarrow> pool_state" where
  "new_buffer p data is_static pooled st =
     st\<lparr>store := (store st)(p \<mapsto> \<lparr>in_pool = pooled, buf_data = data, references = 1, data_is_static = is_static\<rparr>)\<rparr>"

text \<open>
  The section under the write lock: whether \<open>buf\<close> was inserted, and the duplicate. The argument
  \<open>data_is_static\<close> has been stored in the buffer before.
\<close>

definition pool_insert :: "nat \<Rightarrow> pool_state \<Rightarrow> answers \<Rightarrow> bool \<times> nat option \<times> pool_state \<times> answers" where
  "pool_insert p st as =
     (case find_duplicate (store st) (bufs st) p (data_is_static (buffer_at (store st) p)) of
        None \<Rightarrow>
          (case OPENSSL_lh_insert (CRYPTO_BUFFER_hash (store st)) (CRYPTO_BUFFER_cmp (store st)) (bufs st) p as of
             (inserted, _, lh, as) \<Rightarrow> (inserted, None, st\<lparr>bufs := lh\<rparr>, as))
      | Some d \<Rightarrow> (False, Some d, inc_ref d st, as))"

text \<open>\<open>p\<close> is the address the allocation of the buffer gives, 0 if it fails; \<open>copied\<close> whether \<open>OPENSSL_memdup\<close> succeeds.\<close>

definition crypto_buffer_new ::
    "bytes \<Rightarrow> bool \<Rightarrow> bool \<Rightarrow> nat \<Rightarrow> bool \<Rightarrow> pool_state \<Rightarrow> answers \<Rightarrow> nat option \<times> pool_state \<times> answers" where
  "crypto_buffer_new data is_static pooled p copied st as =
     (case (if pooled then pool_lookup data is_static st else (None, st)) of
        (Some d, st) \<Rightarrow> (Some d, st, as)
      | (None, st) \<Rightarrow>
          if p = 0 then (None, st, as)
          else if \<not> is_static \<and> data \<noteq> [] \<and> \<not> copied then (None, st, as)
          else
            let st = new_buffer p data is_static pooled st in
            if \<not> pooled then (Some p, st, as)
            else
              (case pool_insert p st as of
                 (inserted, dup, st, as) \<Rightarrow> if \<not> inserted then (dup, crypto_buffer_free_object p st, as) else (Some p, st, as)))"

definition CRYPTO_BUFFER_new :: "bytes \<Rightarrow> bool \<Rightarrow> nat \<Rightarrow> bool \<Rightarrow> pool_state \<Rightarrow> answers \<Rightarrow> nat option \<times> pool_state \<times> answers" where
  "CRYPTO_BUFFER_new data = crypto_buffer_new data False"

definition CRYPTO_BUFFER_new_from_static_data_unsafe ::
    "bytes \<Rightarrow> bool \<Rightarrow> nat \<Rightarrow> bool \<Rightarrow> pool_state \<Rightarrow> answers \<Rightarrow> nat option \<times> pool_state \<times> answers" where
  "CRYPTO_BUFFER_new_from_static_data_unsafe data = crypto_buffer_new data True"

text \<open>The bytes of the new block are what the allocator left in it.\<close>

definition CRYPTO_BUFFER_alloc :: "bytes \<Rightarrow> nat \<Rightarrow> bool \<Rightarrow> pool_state \<Rightarrow> nat option \<times> pool_state" where
  "CRYPTO_BUFFER_alloc junk p got_data st =
     (if p = 0 then (None, st)
      else if junk \<noteq> [] \<and> \<not> got_data then (None, st)
      else (Some p, new_buffer p junk False False st))"

definition CRYPTO_BUFFER_up_ref :: "nat \<Rightarrow> pool_state \<Rightarrow> bool \<times> pool_state" where
  "CRYPTO_BUFFER_up_ref p st = (True, inc_ref p st)"

text \<open>
  The section of \<open>CRYPTO_BUFFER_free\<close> under the write lock, and the one decrement of a buffer without a
  pool: whether the object is to be freed.
\<close>

definition pool_release :: "nat \<Rightarrow> pool_state \<Rightarrow> answers \<Rightarrow> (bool \<times> pool_state \<times> answers) option" where
  "pool_release p st as =
     (let b = buffer_at (store st) p in
      case CRYPTO_refcount_dec_and_test_zero (references b) of
        None \<Rightarrow> None
      | Some (zero, n) \<Rightarrow>
          (let st = st\<lparr>store := (store st)(p \<mapsto> b\<lparr>references := n\<rparr>)\<rparr>;
               hash = CRYPTO_BUFFER_hash (store st); cmp = CRYPTO_BUFFER_cmp (store st)
           in if \<not> zero \<or> \<not> in_pool b then Some (zero, st, as)
              else if OPENSSL_lh_retrieve hash cmp (bufs st) p = Some p
              then (case OPENSSL_lh_delete hash cmp (bufs st) p as of (_, lh, as) \<Rightarrow> Some (True, st\<lparr>bufs := lh\<rparr>, as))
              else Some (True, st, as)))"

definition CRYPTO_BUFFER_free :: "nat \<Rightarrow> pool_state \<Rightarrow> answers \<Rightarrow> (pool_state \<times> answers) option" where
  "CRYPTO_BUFFER_free p st as =
     (if p = 0 then Some (st, as)
      else map_option (\<lambda>(free, st, as). (if free then crypto_buffer_free_object p st else st, as)) (pool_release p st as))"

section \<open>Threads\<close>

text \<open>
  A pool in use: how many references the clients hold to each buffer, the buffers a thread has made and
  not yet offered to the pool, and those it is about to free.
\<close>

record pool_world =
  pool :: pool_state
  held :: "nat \<Rightarrow> nat"
  building :: "nat \<Rightarrow> bool"
  dying :: "nat \<Rightarrow> bool"

inductive pool_step :: "pool_world \<Rightarrow> pool_world \<Rightarrow> bool" where
  found: "pool_lookup data is_static (pool w) = (Some d, st) \<Longrightarrow>
    pool_step w (w\<lparr>pool := st, held := (held w)(d := held w d + 1)\<rparr>)"
| make: "store (pool w) p = None \<Longrightarrow> 0 < p \<Longrightarrow> p < SIZE_LIMIT \<Longrightarrow>
    pool_step w (w\<lparr>pool := new_buffer p data is_static True (pool w), building := (building w)(p := True)\<rparr>)"
| make_plain: "store (pool w) p = None \<Longrightarrow> 0 < p \<Longrightarrow> p < SIZE_LIMIT \<Longrightarrow>
    pool_step w (w\<lparr>pool := new_buffer p data is_static False (pool w), held := (held w)(p := 1)\<rparr>)"
| offered: "building w p \<Longrightarrow> pool_insert p (pool w) as = (True, dup, st, as') \<Longrightarrow>
    pool_step w (w\<lparr>pool := st, building := (building w)(p := False), held := (held w)(p := 1)\<rparr>)"
| lost: "building w p \<Longrightarrow> pool_insert p (pool w) as = (False, Some d, st, as') \<Longrightarrow>
    pool_step w (w\<lparr>pool := st, held := (held w)(d := held w d + 1), building := (building w)(p := False), dying := (dying w)(p := True)\<rparr>)"
| failed: "building w p \<Longrightarrow> pool_insert p (pool w) as = (False, None, st, as') \<Longrightarrow>
    pool_step w (w\<lparr>pool := st, building := (building w)(p := False), dying := (dying w)(p := True)\<rparr>)"
| share: "0 < held w p \<Longrightarrow> CRYPTO_BUFFER_up_ref p (pool w) = (True, st) \<Longrightarrow>
    pool_step w (w\<lparr>pool := st, held := (held w)(p := held w p + 1)\<rparr>)"
| release: "0 < held w p \<Longrightarrow> pool_release p (pool w) as = Some (free, st, as') \<Longrightarrow>
    pool_step w (w\<lparr>pool := st, held := (held w)(p := held w p - 1), dying := (dying w)(p := free)\<rparr>)"
| destroy: "dying w p \<Longrightarrow>
    pool_step w (w\<lparr>pool := crypto_buffer_free_object p (pool w), dying := (dying w)(p := False)\<rparr>)"

definition idle_world :: "pool_state \<Rightarrow> pool_world" where
  "idle_world st = \<lparr>pool = st, held = (\<lambda>_. 0), building = (\<lambda>_. False), dying = (\<lambda>_. False)\<rparr>"

inductive pool_reachable :: "pool_world \<Rightarrow> bool" where
  start: "CRYPTO_BUFFER_POOL_new (\<lambda>_. None) as = (Some st, as') \<Longrightarrow> pool_reachable (idle_world st)"
| step: "pool_reachable w \<Longrightarrow> pool_step w w' \<Longrightarrow> pool_reachable w'"

section \<open>The contents of a buffer decide\<close>

lemma buffer_cmp_eq: "CRYPTO_BUFFER_cmp objs p q = 0 \<longleftrightarrow> buf_data (buffer_at objs p) = buf_data (buffer_at objs q)"
  by (auto simp: CRYPTO_BUFFER_cmp_def Let_def memcmp_eq_0)

interpretation buffer_fns: element_functions "CRYPTO_BUFFER_hash objs" "CRYPTO_BUFFER_cmp objs" for objs
  by unfold_locales (auto simp: buffer_cmp_eq CRYPTO_BUFFER_hash_def)

abbreviation pool_table_ok :: "objects \<Rightarrow> nat lhash \<Rightarrow> bool" where
  "pool_table_ok objs lh \<equiv> lh_ok (CRYPTO_BUFFER_hash objs) (CRYPTO_BUFFER_cmp objs) lh"

definition same_contents :: "nat set \<Rightarrow> objects \<Rightarrow> objects \<Rightarrow> bool" where
  "same_contents S objs objs' \<longleftrightarrow> (\<forall>p \<in> S. buf_data (buffer_at objs' p) = buf_data (buffer_at objs p))"

lemma pool_table_ok_same:
  assumes "same_contents (lh_elems lh) objs objs'" and "pool_table_ok objs lh"
  shows "pool_table_ok objs' lh"
proof -
  have elem: "item_data it \<in> lh_elems lh" if "it \<in> set (lh_items lh)" for it using that by (simp add: lh_elems_def)
  have hash: "CRYPTO_BUFFER_hash objs' p = CRYPTO_BUFFER_hash objs p" if "p \<in> lh_elems lh" for p
    using assms(1) that by (simp add: CRYPTO_BUFFER_hash_def same_contents_def)
  have "placed (CRYPTO_BUFFER_hash objs') (buckets lh)"
    unfolding placed_def
  proof (intro allI impI ballI)
    fix b it assume b: "b < length (buckets lh)" "it \<in> set (buckets lh ! b)"
    then have "item_data it \<in> lh_elems lh" using elem by (auto simp: set_items)
    then show "item_hash it = CRYPTO_BUFFER_hash objs' (item_data it) \<and>
        unat (CRYPTO_BUFFER_hash objs' (item_data it)) mod length (buckets lh) = b"
      using placed_chain [OF lh_okD(4) [OF assms(2)] b] hash by simp
  qed
  moreover have "no_equals (CRYPTO_BUFFER_cmp objs') (lh_items lh)"
    using lh_okD(5) [OF assms(2)] assms(1) elem unfolding no_equals_def buffer_cmp_eq same_contents_def by simp
  ultimately show ?thesis using assms(2) by (simp add: lh_ok_def)
qed

lemma table_elem_unique:
  "pool_table_ok objs lh \<Longrightarrow> p \<in> lh_elems lh \<Longrightarrow> q \<in> lh_elems lh \<Longrightarrow>
   buf_data (buffer_at objs p) = buf_data (buffer_at objs q) \<Longrightarrow> p = q"
  using lh_okD(5) [of "CRYPTO_BUFFER_hash objs" "CRYPTO_BUFFER_cmp objs" lh]
  by (auto simp: no_equals_def lh_elems_def buffer_cmp_eq)

lemma retrieve_buffer:
  "pool_table_ok objs lh \<Longrightarrow> OPENSSL_lh_retrieve (CRYPTO_BUFFER_hash objs) (CRYPTO_BUFFER_cmp objs) lh p = Some d \<longleftrightarrow>
     d \<in> lh_elems lh \<and> buf_data (buffer_at objs d) = buf_data (buffer_at objs p)"
  by (simp add: buffer_fns.retrieve_unique buffer_cmp_eq)

lemma find_duplicate_found:
  assumes "pool_table_ok objs lh"
  shows "find_duplicate objs lh p is_static = Some d \<longleftrightarrow>
     d \<in> lh_elems lh \<and> buf_data (buffer_at objs d) = buf_data (buffer_at objs p) \<and> (is_static \<longrightarrow> data_is_static (buffer_at objs d))"
proof -
  have "find_duplicate objs lh p is_static = Some d \<longleftrightarrow>
     OPENSSL_lh_retrieve (CRYPTO_BUFFER_hash objs) (CRYPTO_BUFFER_cmp objs) lh p = Some d \<and>
     (is_static \<longrightarrow> data_is_static (buffer_at objs d))"
    by (auto simp: find_duplicate_def split: option.splits if_splits)
  then show ?thesis using retrieve_buffer [OF assms] by simp
qed

lemma size_of_table:
  assumes "pool_table_ok objs lh"
  shows "num_items lh = card (lh_elems lh)" and "finite (lh_elems lh)"
  using lh_okD(3,5) [OF assms] distinct_card [of "map item_data (lh_items lh)"]
  by (simp_all add: no_equals_def lh_elems_def)

section \<open>The invariant\<close>

text \<open>
  What holds of one address: the object there, the references clients hold to it, whether a thread is
  building it or about to free it, and whether the table holds it.
\<close>

definition slot_ok :: "crypto_buffer option \<Rightarrow> nat \<Rightarrow> bool \<Rightarrow> bool \<Rightarrow> bool \<Rightarrow> bool" where
  "slot_ok obj n made lost in_table =
     (case obj of
        None \<Rightarrow> n = 0 \<and> \<not> made \<and> \<not> lost \<and> \<not> in_table
      | Some b \<Rightarrow>
          if made then \<not> lost \<and> n = 0 \<and> \<not> in_table \<and> references b = 1 \<and> in_pool b
          else if lost then n = 0 \<and> \<not> in_table
          else (references b = CRYPTO_REFCOUNT_MAX \<or> 0 < n \<and> unat (references b) = n) \<and> (in_table \<longrightarrow> in_pool b))"

definition pool_ok :: "pool_world \<Rightarrow> bool" where
  "pool_ok w \<longleftrightarrow> pool_table_ok (store (pool w)) (bufs (pool w)) \<and>
     (\<forall>p. slot_ok (store (pool w) p) (held w p) (building w p) (dying w p) (p \<in> lh_elems (bufs (pool w)))) \<and>
     (\<forall>p. store (pool w) p \<noteq> None \<longrightarrow> 0 < p \<and> p < SIZE_LIMIT)"

lemma pool_okD:
  assumes "pool_ok w"
  shows "pool_table_ok (store (pool w)) (bufs (pool w))"
    and "slot_ok (store (pool w) p) (held w p) (building w p) (dying w p) (p \<in> lh_elems (bufs (pool w)))"
    and "store (pool w) p = Some b \<Longrightarrow> 0 < p \<and> p < SIZE_LIMIT"
  using assms unfolding pool_ok_def by (blast, blast, metis option.distinct(1))

lemma slot_ok_new: "slot_ok None n f f' t \<Longrightarrow> references b = 1 \<Longrightarrow> in_pool b \<Longrightarrow> slot_ok (Some b) n True f' t"
  and slot_ok_new_plain: "slot_ok None n f f' t \<Longrightarrow> references b = 1 \<Longrightarrow> slot_ok (Some b) 1 f f' t"
  and slot_ok_enters: "slot_ok obj n True f' t \<Longrightarrow> slot_ok obj 1 False f' True"
  and slot_ok_leaves: "slot_ok obj n f f' t \<Longrightarrow> slot_ok obj n f f' False"
  and slot_ok_given_up: "slot_ok obj n True f' t \<Longrightarrow> slot_ok obj n False True t"
  and slot_ok_gone: "slot_ok obj n f True t \<Longrightarrow> slot_ok None n f False t"
  by (auto simp: slot_ok_def split: option.splits if_splits)

lemma unat_inc: "(n :: u32) \<noteq> CRYPTO_REFCOUNT_MAX \<Longrightarrow> unat (n + 1) = unat n + 1"
proof -
  assume "n \<noteq> CRYPTO_REFCOUNT_MAX"
  moreover have "CRYPTO_REFCOUNT_MAX = - 1" by (simp add: CRYPTO_REFCOUNT_MAX_def)
  ultimately have "1 + n \<noteq> 0" by (metis add.commute eq_neg_iff_add_eq_0)
  then show ?thesis using unatSuc [of n] by (simp add: add.commute)
qed

lemma slot_ok_inc:
  assumes "slot_ok (Some b) n False False t"
  shows "slot_ok (Some (b\<lparr>references := CRYPTO_refcount_inc (references b)\<rparr>)) (n + 1) False False t"
  using assms unat_inc [of "references b"] by (auto simp: slot_ok_def CRYPTO_refcount_inc_def)

lemma slot_ok_dec:
  assumes "slot_ok (Some b) n False False t" and "0 < n"
    and "CRYPTO_refcount_dec_and_test_zero (references b) = Some (zero, m)"
  shows "slot_ok (Some (b\<lparr>references := m\<rparr>)) (n - 1) False zero (t \<and> \<not> zero)"
  using assms unat_minus_one [of "references b"]
  by (auto simp: slot_ok_def CRYPTO_refcount_dec_and_test_zero_def unat_eq_0 split: if_splits)

section \<open>The critical sections\<close>

lemma elem_live:
  assumes "pool_ok w" and "p \<in> lh_elems (bufs (pool w))"
  shows "\<exists>b. store (pool w) p = Some b \<and> in_pool b \<and> references b \<noteq> 0 \<and> \<not> building w p \<and> \<not> dying w p \<and> 0 < p \<and> p < SIZE_LIMIT"
  using pool_okD(2) [OF assms(1), of p] pool_okD(3) [OF assms(1), of p] assms(2)
  by (auto simp: slot_ok_def CRYPTO_REFCOUNT_MAX_def split: option.splits if_splits)

lemma room_in_table:
  assumes "pool_ok w" and "p \<notin> lh_elems (bufs (pool w))" and "store (pool w) p = Some b"
  shows "num_items (bufs (pool w)) + 1 < SIZE_LIMIT"
proof -
  have p: "p \<in> {1..<SIZE_LIMIT}" using pool_okD(3) [OF assms(1,3)] by simp
  have "lh_elems (bufs (pool w)) \<subseteq> {1..<SIZE_LIMIT} - {p}" using elem_live [OF assms(1)] assms(2) by fastforce
  then have "card (lh_elems (bufs (pool w))) \<le> card ({1..<SIZE_LIMIT} - {p})" by (intro card_mono) auto
  also have "\<dots> = SIZE_LIMIT - 2" using p by (simp add: card_Diff_singleton)
  finally show ?thesis using size_of_table(1) [OF pool_okD(1) [OF assms(1)]] by (simp add: SIZE_LIMIT_def)
qed

lemma lookup_found:
  assumes "pool_ok w"
  shows "pool_lookup data is_static (pool w) = (Some d, st) \<longleftrightarrow>
    d \<in> lh_elems (bufs (pool w)) \<and> buf_data (buffer_at (store (pool w)) d) = data \<and>
    (is_static \<longrightarrow> data_is_static (buffer_at (store (pool w)) d)) \<and> st = inc_ref d (pool w)"
proof -
  let ?tmp = "\<lparr>in_pool = False, buf_data = data, references = 0, data_is_static = False\<rparr>"
  let ?O = "store (pool w)" and ?lh = "bufs (pool w)"
  have nz: "x \<in> lh_elems ?lh \<Longrightarrow> x \<noteq> 0" for x using elem_live [OF assms] by blast
  have "same_contents (lh_elems ?lh) ?O (?O(0 \<mapsto> ?tmp))"
    using nz by (auto simp: same_contents_def buffer_at_def)
  then have "pool_table_ok (?O(0 \<mapsto> ?tmp)) ?lh" using pool_okD(1) [OF assms] by (rule pool_table_ok_same)
  note find = find_duplicate_found [OF this, of 0 is_static]
  have "find_duplicate (?O(0 \<mapsto> ?tmp)) ?lh 0 is_static = Some x \<longleftrightarrow>
      x \<in> lh_elems ?lh \<and> buf_data (buffer_at ?O x) = data \<and> (is_static \<longrightarrow> data_is_static (buffer_at ?O x))" for x
    unfolding find using nz [of x] by (auto simp: buffer_at_def)
  moreover have "pool_lookup data is_static (pool w) = (Some d, st) \<longleftrightarrow>
      find_duplicate (?O(0 \<mapsto> ?tmp)) ?lh 0 is_static = Some d \<and> st = inc_ref d (pool w)"
    by (auto simp: pool_lookup_def split: option.splits)
  ultimately show ?thesis by simp
qed

lemma insert_outcomes:
  assumes ok: "pool_ok w" and p: "building w p" and run: "pool_insert p (pool w) as = (inserted, dup, st, as')"
  shows "inserted \<Longrightarrow> dup = None \<and> store st = store (pool w) \<and> pool_table_ok (store (pool w)) (bufs st) \<and>
      (\<exists>S \<subseteq> lh_elems (bufs (pool w)). lh_elems (bufs st) = insert p S)"
    and "\<not> inserted \<Longrightarrow> dup = Some d \<Longrightarrow> d \<in> lh_elems (bufs (pool w)) \<and> st = inc_ref d (pool w) \<and>
      buf_data (buffer_at (store (pool w)) d) = buf_data (buffer_at (store (pool w)) p)"
    and "\<not> inserted \<Longrightarrow> dup = None \<Longrightarrow> store st = store (pool w) \<and> pool_table_ok (store (pool w)) (bufs st) \<and>
      lh_elems (bufs st) = lh_elems (bufs (pool w))"
proof -
  let ?O = "store (pool w)" and ?lh = "bufs (pool w)"
  note tab = pool_okD(1) [OF ok]
  obtain b where b: "?O p = Some b" "p \<notin> lh_elems ?lh" using pool_okD(2) [OF ok, of p] p by (auto simp: slot_ok_def split: option.splits)
  consider (ins) "find_duplicate ?O ?lh p (data_is_static (buffer_at ?O p)) = None"
    | (dup) x where "find_duplicate ?O ?lh p (data_is_static (buffer_at ?O p)) = Some x" by (meson not_None_eq)
  then have "(inserted \<longrightarrow> dup = None \<and> store st = ?O \<and> pool_table_ok ?O (bufs st) \<and> (\<exists>S \<subseteq> lh_elems ?lh. lh_elems (bufs st) = insert p S)) \<and>
    (\<not> inserted \<longrightarrow> (case dup of Some d \<Rightarrow> d \<in> lh_elems ?lh \<and> st = inc_ref d (pool w) \<and> buf_data (buffer_at ?O d) = buf_data (buffer_at ?O p)
       | None \<Rightarrow> store st = ?O \<and> pool_table_ok ?O (bufs st) \<and> lh_elems (bufs st) = lh_elems ?lh))"
  proof cases
    case ins
    obtain z old lh as1 where call: "OPENSSL_lh_insert (CRYPTO_BUFFER_hash ?O) (CRYPTO_BUFFER_cmp ?O) ?lh p as = (z, old, lh, as1)"
      by (metis prod_cases4)
    have r: "inserted = z" "dup = None" "st = (pool w)\<lparr>bufs := lh\<rparr>" using run ins call by (simp_all add: pool_insert_def)
    note f = buffer_fns.insert_facts(1,5) [OF tab room_in_table [OF ok b(2,1)] call]
    have sub: "without (CRYPTO_BUFFER_cmp ?O) (lh_elems ?lh) p \<subseteq> lh_elems ?lh" by (auto simp: without_def)
    show ?thesis
    proof (cases z)
      case True
      then show ?thesis unfolding r using f sub by (simp, blast)
    qed (use f r in simp)
  next
    case dup
    then have "\<not> inserted" "dup = Some x" "st = inc_ref x (pool w)" using run by (simp_all add: pool_insert_def)
    then show ?thesis using find_duplicate_found [OF tab] dup by simp
  qed
  then show "inserted \<Longrightarrow> dup = None \<and> store st = store (pool w) \<and> pool_table_ok (store (pool w)) (bufs st) \<and>
      (\<exists>S \<subseteq> lh_elems (bufs (pool w)). lh_elems (bufs st) = insert p S)"
    and "\<not> inserted \<Longrightarrow> dup = Some d \<Longrightarrow> d \<in> lh_elems (bufs (pool w)) \<and> st = inc_ref d (pool w) \<and>
      buf_data (buffer_at (store (pool w)) d) = buf_data (buffer_at (store (pool w)) p)"
    and "\<not> inserted \<Longrightarrow> dup = None \<Longrightarrow> store st = store (pool w) \<and> pool_table_ok (store (pool w)) (bufs st) \<and>
      lh_elems (bufs st) = lh_elems (bufs (pool w))"
    by simp_all
qed

lemma release_outcome:
  assumes ok: "pool_ok w" and p: "store (pool w) p = Some b" "\<not> building w p" "\<not> dying w p"
    and run: "pool_release p (pool w) as = Some (zero, st, as')"
  shows "\<exists>n. CRYPTO_refcount_dec_and_test_zero (references b) = Some (zero, n) \<and>
    store st = (store (pool w))(p \<mapsto> b\<lparr>references := n\<rparr>) \<and> pool_table_ok (store st) (bufs st) \<and>
    lh_elems (bufs st) = lh_elems (bufs (pool w)) - (if zero then {p} else {})"
proof -
  let ?O = "store (pool w)" and ?lh = "bufs (pool w)"
  have at: "buffer_at ?O p = b" using p(1) by (simp add: buffer_at_def)
  obtain z n where dec: "CRYPTO_refcount_dec_and_test_zero (references b) = Some (z, n)"
    using run by (auto simp: pool_release_def at Let_def split: option.splits)
  let ?O' = "?O(p \<mapsto> b\<lparr>references := n\<rparr>)"
  have "same_contents (lh_elems ?lh) ?O ?O'" using p(1) by (auto simp: same_contents_def buffer_at_def)
  then have tab: "pool_table_ok ?O' ?lh" using pool_okD(1) [OF ok] by (rule pool_table_ok_same)
  have pooled: "p \<in> lh_elems ?lh \<Longrightarrow> in_pool b" using elem_live [OF ok, of p] p(1) by auto
  show ?thesis
  proof (cases "z \<and> in_pool b \<and> p \<in> lh_elems ?lh")
    case False
    have "\<not> z \<or> \<not> in_pool b \<or> OPENSSL_lh_retrieve (CRYPTO_BUFFER_hash ?O') (CRYPTO_BUFFER_cmp ?O') ?lh p \<noteq> Some p"
      using False retrieve_buffer [OF tab] by auto
    then have "z = zero" "st = (pool w)\<lparr>store := ?O'\<rparr>"
      using run by (auto simp: pool_release_def at Let_def dec split: if_splits)
    then show ?thesis using dec tab False pooled by auto
  next
    case True
    then have found: "OPENSSL_lh_retrieve (CRYPTO_BUFFER_hash ?O') (CRYPTO_BUFFER_cmp ?O') ?lh p = Some p"
      using retrieve_buffer [OF tab] by simp
    obtain old lh as1 where call: "OPENSSL_lh_delete (CRYPTO_BUFFER_hash ?O') (CRYPTO_BUFFER_cmp ?O') ?lh p as = (old, lh, as1)"
      by (metis prod_cases3)
    have less: "num_items ?lh < SIZE_LIMIT"
    proof -
      have "lh_elems ?lh \<subseteq> {1..<SIZE_LIMIT}" using elem_live [OF ok] by fastforce
      then have "card (lh_elems ?lh) \<le> card {1..<SIZE_LIMIT}" by (intro card_mono) auto
      then show ?thesis using size_of_table(1) [OF tab] by (simp add: SIZE_LIMIT_def)
    qed
    note del = buffer_fns.delete_facts(1,5) [OF tab less call]
    have "without (CRYPTO_BUFFER_cmp ?O') (lh_elems ?lh) p = lh_elems ?lh - {p}"
      using table_elem_unique [OF tab] True by (auto simp: without_def buffer_cmp_eq)
    moreover have "zero" "st = (pool w)\<lparr>store := ?O', bufs := lh\<rparr>"
      using run True found call by (auto simp: pool_release_def at Let_def dec split: if_splits)
    ultimately show ?thesis using dec del True by auto
  qed
qed

section \<open>Every step keeps the invariant\<close>

lemma same_contents_set:
  "buf_data b = buf_data b' \<Longrightarrow> objs p = Some b' \<Longrightarrow> same_contents S objs (objs(p \<mapsto> b))"
  by (simp add: same_contents_def buffer_at_def)

text \<open>One more reference, taken by whoever can reach the buffer.\<close>

lemma pool_ok_inc:
  assumes ok: "pool_ok w" and d: "store (pool w) d = Some b" "\<not> building w d" "\<not> dying w d"
  shows "pool_ok (w\<lparr>pool := inc_ref d (pool w), held := (held w)(d := held w d + 1)\<rparr>)"
proof -
  let ?b = "b\<lparr>references := CRYPTO_refcount_inc (references b)\<rparr>"
  have st: "inc_ref d (pool w) = (pool w)\<lparr>store := (store (pool w))(d \<mapsto> ?b)\<rparr>" using d(1) by (simp add: inc_ref_def buffer_at_def)
  have "pool_table_ok ((store (pool w))(d \<mapsto> ?b)) (bufs (pool w))"
    by (rule pool_table_ok_same [OF _ pool_okD(1) [OF ok]], rule same_contents_set) (use d(1) in simp_all)
  moreover have "slot_ok (Some ?b) (held w d + 1) False False (d \<in> lh_elems (bufs (pool w)))"
    using pool_okD(2) [OF ok, of d] d by (intro slot_ok_inc) simp
  ultimately show ?thesis using ok d unfolding pool_ok_def st by simp
qed

lemma pool_ok_give_up:
  assumes "pool_ok w" and "building w p"
  shows "pool_ok (w\<lparr>building := (building w)(p := False), dying := (dying w)(p := True)\<rparr>)"
  using assms slot_ok_given_up [of "store (pool w) p" "held w p" "dying w p"] pool_okD(2) [OF assms(1), of p]
  by (simp add: pool_ok_def)

lemma pool_ok_new:
  assumes ok: "pool_ok w" and p: "store (pool w) p = None" "0 < p" "p < SIZE_LIMIT"
  shows "pool_ok (w\<lparr>pool := new_buffer p data is_static True (pool w), building := (building w)(p := True)\<rparr>)"
    and "pool_ok (w\<lparr>pool := new_buffer p data is_static False (pool w), held := (held w)(p := 1)\<rparr>)"
proof -
  note p_ok = pool_okD(2) [OF ok, of p]
  have out: "p \<notin> lh_elems (bufs (pool w))" "\<not> building w p" "\<not> dying w p" using p_ok p(1) by (auto simp: slot_ok_def)
  have tab: "pool_table_ok ((store (pool w))(p \<mapsto> b)) (bufs (pool w))" for b
    by (rule pool_table_ok_same [OF _ pool_okD(1) [OF ok]]) (use out in \<open>auto simp: same_contents_def buffer_at_def\<close>)
  have new: "slot_ok (Some \<lparr>in_pool = True, buf_data = data, references = 1, data_is_static = is_static\<rparr>)
      (held w p) True False False"
    and plain: "slot_ok (Some \<lparr>in_pool = False, buf_data = data, references = 1, data_is_static = is_static\<rparr>) 1 False False False"
    using p_ok p(1) by (auto simp: slot_ok_def)
  show "pool_ok (w\<lparr>pool := new_buffer p data is_static True (pool w), building := (building w)(p := True)\<rparr>)"
    using ok tab new out p by (simp add: pool_ok_def new_buffer_def)
  show "pool_ok (w\<lparr>pool := new_buffer p data is_static False (pool w), held := (held w)(p := 1)\<rparr>)"
    using ok tab plain out p by (simp add: pool_ok_def new_buffer_def)
qed

lemma pool_ok_offered:
  assumes ok: "pool_ok w" and p: "building w p" and st: "store st = store (pool w)" "pool_table_ok (store (pool w)) (bufs st)"
    and elems: "S \<subseteq> lh_elems (bufs (pool w))" "lh_elems (bufs st) = insert p S"
  shows "pool_ok (w\<lparr>pool := st, building := (building w)(p := False), held := (held w)(p := 1)\<rparr>)"
proof -
  have q_ok: "slot_ok (store (pool w) q) (held w q) (building w q) (dying w q) (q \<in> S)" for q
    using pool_okD(2) [OF ok, of q] slot_ok_leaves elems(1) by (cases "q \<in> S") auto
  moreover have "slot_ok (store (pool w) p) 1 False (dying w p) True"
    using slot_ok_enters [of "store (pool w) p" "held w p"] q_ok [of p] p by simp
  ultimately show ?thesis using ok st elems(2) by (simp add: pool_ok_def)
qed

lemma pool_ok_release:
  assumes ok: "pool_ok w" and p: "0 < held w p" and run: "pool_release p (pool w) as = Some (zero, st, as')"
  shows "pool_ok (w\<lparr>pool := st, held := (held w)(p := held w p - 1), dying := (dying w)(p := zero)\<rparr>)"
proof -
  obtain b where b: "store (pool w) p = Some b" "\<not> building w p" "\<not> dying w p"
    using pool_okD(2) [OF ok, of p] p by (auto simp: slot_ok_def split: option.splits if_splits)
  obtain n where r: "CRYPTO_refcount_dec_and_test_zero (references b) = Some (zero, n)"
    "store st = (store (pool w))(p \<mapsto> b\<lparr>references := n\<rparr>)" "pool_table_ok (store st) (bufs st)"
    "lh_elems (bufs st) = lh_elems (bufs (pool w)) - (if zero then {p} else {})"
    using release_outcome [OF ok b run] by blast
  have "slot_ok (Some (b\<lparr>references := n\<rparr>)) (held w p - 1) False zero (p \<in> lh_elems (bufs (pool w)) \<and> \<not> zero)"
    using pool_okD(2) [OF ok, of p] b by (intro slot_ok_dec [OF _ p r(1)]) simp
  then show ?thesis using ok r(2,3,4) b by (cases zero) (simp_all add: pool_ok_def)
qed

lemma pool_ok_destroy:
  assumes ok: "pool_ok w" and p: "dying w p"
  shows "pool_ok (w\<lparr>pool := crypto_buffer_free_object p (pool w), dying := (dying w)(p := False)\<rparr>)"
proof -
  note p_ok = pool_okD(2) [OF ok, of p]
  have out: "p \<notin> lh_elems (bufs (pool w))" using p_ok p by (auto simp: slot_ok_def split: option.splits if_splits)
  have "pool_table_ok ((store (pool w))(p := None)) (bufs (pool w))"
    by (rule pool_table_ok_same [OF _ pool_okD(1) [OF ok]]) (use out in \<open>auto simp: same_contents_def buffer_at_def\<close>)
  moreover have "slot_ok None (held w p) (building w p) False (p \<in> lh_elems (bufs (pool w)))"
    using slot_ok_gone [of "store (pool w) p"] p_ok p by simp
  ultimately show ?thesis using ok by (simp add: pool_ok_def crypto_buffer_free_object_def)
qed

lemma held_live:
  assumes "pool_ok w" and "0 < held w p"
  shows "\<exists>b. store (pool w) p = Some b \<and> \<not> building w p \<and> \<not> dying w p \<and>
    (references b = CRYPTO_REFCOUNT_MAX \<or> unat (references b) = held w p)"
  using pool_okD(2) [OF assms(1), of p] assms(2) by (auto simp: slot_ok_def split: option.splits if_splits)

theorem pool_step_ok:
  assumes step: "pool_step w w'" and ok: "pool_ok w"
  shows "pool_ok w'"
  using step
proof cases
  case (found data is_static d st)
  then have d: "d \<in> lh_elems (bufs (pool w))" "st = inc_ref d (pool w)" using lookup_found [OF ok] by simp_all
  then show ?thesis unfolding found using pool_ok_inc [OF ok] elem_live [OF ok d(1)] by blast
next
  case (offered p as dup st as')
  obtain S where "S \<subseteq> lh_elems (bufs (pool w))" "lh_elems (bufs st) = insert p S"
    using insert_outcomes(1) [OF ok offered(2,3)] by blast
  then show ?thesis unfolding offered(1) using insert_outcomes(1) [OF ok offered(2,3)] by (intro pool_ok_offered [OF ok offered(2)]) simp_all
next
  case (lost p as d st as')
  have d: "d \<in> lh_elems (bufs (pool w))" "st = inc_ref d (pool w)" using insert_outcomes(2) [OF ok lost(2,3)] by simp_all
  obtain b where "store (pool w) d = Some b" "\<not> building w d" "\<not> dying w d" using elem_live [OF ok d(1)] by blast
  from pool_ok_give_up [OF pool_ok_inc [OF ok this], of p] show ?thesis unfolding lost(1) using d(2) lost(2) by simp
next
  case (failed p as st as')
  have st: "store st = store (pool w)" "pool_table_ok (store (pool w)) (bufs st)" "lh_elems (bufs st) = lh_elems (bufs (pool w))"
    using insert_outcomes(3) [OF ok failed(2,3)] by simp_all
  have "pool_ok (w\<lparr>pool := st\<rparr>)" using ok st by (simp add: pool_ok_def)
  from pool_ok_give_up [OF this, of p] show ?thesis unfolding failed(1) using failed(2) by simp
next
  case (share p st)
  then show ?thesis using held_live [OF ok share(2)] pool_ok_inc [OF ok] by (auto simp: CRYPTO_BUFFER_up_ref_def)
qed (use pool_ok_new [OF ok] pool_ok_release [OF ok] pool_ok_destroy [OF ok] in \<open>simp_all\<close>)

theorem pool_reachable_ok: "pool_reachable w \<Longrightarrow> pool_ok w"
proof (induction rule: pool_reachable.induct)
  case (start as st as')
  then obtain lh as1 as2 where lh: "OPENSSL_lh_new as1 = (Some lh, as2)" and st: "st = \<lparr>store = (\<lambda>_. None), bufs = lh\<rparr>"
    by (auto simp: CRYPTO_BUFFER_POOL_new_def split: prod.splits bool.splits)
  show ?case using new_table [OF lh] st by (simp add: pool_ok_def idle_world_def slot_ok_def)
qed (rule pool_step_ok)

section \<open>Calls are sequences of steps\<close>

abbreviation pool_steps :: "pool_world \<Rightarrow> pool_world \<Rightarrow> bool" where
  "pool_steps \<equiv> pool_step\<^sup>*\<^sup>*"

lemma pool_steps_ok: "pool_steps w w' \<Longrightarrow> pool_ok w \<Longrightarrow> pool_ok w'"
  by (induction rule: rtranclp_induct) (auto intro: pool_step_ok)

lemma pool_steps_reachable: "pool_steps w w' \<Longrightarrow> pool_reachable w \<Longrightarrow> pool_reachable w'"
  by (induction rule: rtranclp_induct) (auto intro: pool_reachable.step)

text \<open>What a call that returns \<open>r\<close> leaves: the caller has one more reference, to a buffer of the table with the bytes.\<close>

definition new_reference :: "pool_world \<Rightarrow> bytes \<Rightarrow> bool \<Rightarrow> nat option \<Rightarrow> pool_world \<Rightarrow> bool" where
  "new_reference w data is_static r w' \<longleftrightarrow> building w' = building w \<and> dying w' = dying w \<and>
     (case r of
        None \<Rightarrow> held w' = held w
      | Some q \<Rightarrow> held w' = (held w)(q := held w q + 1) \<and> q \<in> lh_elems (bufs (pool w')) \<and>
          CRYPTO_BUFFER_data (buffer_at (store (pool w')) q) = data \<and>
          (is_static \<longrightarrow> data_is_static (buffer_at (store (pool w')) q)))"

lemma inc_ref_keeps:
  "bufs (inc_ref d st) = bufs st" "buf_data (buffer_at (store (inc_ref d st)) q) = buf_data (buffer_at (store st) q)"
  "data_is_static (buffer_at (store (inc_ref d st)) q) = data_is_static (buffer_at (store st) q)"
  by (auto simp: inc_ref_def Let_def buffer_at_def)

text \<open>A buffer a thread has made is offered to the pool, and freed if the pool does not take it.\<close>

lemma offer_steps:
  assumes ok: "pool_ok w" and bw: "building w p" and ins: "pool_insert p (pool w) as = (inserted, dup, st, as')"
    and b: "store (pool w) p = Some b"
  shows "\<exists>w'. pool_steps w w' \<and> pool w' = (if inserted then st else crypto_buffer_free_object p st) \<and>
    new_reference (w\<lparr>building := (building w)(p := False)\<rparr>) (buf_data b) (data_is_static b) (if inserted then Some p else dup) w'"
proof -
  have none: "held w p = 0" "\<not> dying w p" using pool_okD(2) [OF ok, of p] bw by (auto simp: slot_ok_def split: option.splits if_splits)
  then have unmoved: "(dying w)(p := False) = dying w" by (simp add: fun_eq_iff)
  have at: "buffer_at (store (pool w)) p = b" using b by (simp add: buffer_at_def)
  note out = insert_outcomes [OF ok bw ins]
  consider (yes) "inserted" "dup = None" | (dup) d where "\<not> inserted" "dup = Some d" | (no) "\<not> inserted" "dup = None"
    using out(1) by (cases inserted; cases dup) auto
  then show ?thesis
  proof cases
    case yes
    let ?w = "w\<lparr>pool := st, building := (building w)(p := False), held := (held w)(p := 1)\<rparr>"
    have "pool_steps w ?w" by (rule r_into_rtranclp, rule pool_step.offered [OF bw]) (use ins yes in simp)
    moreover have "p \<in> lh_elems (bufs st)" "store st = store (pool w)" using out(1) yes(1) by blast+
    ultimately show ?thesis using yes(1) at none by (intro exI [of _ ?w]) (simp add: new_reference_def CRYPTO_BUFFER_data_def)
  next
    case dup
    let ?w1 = "w\<lparr>pool := st, held := (held w)(d := held w d + 1), building := (building w)(p := False), dying := (dying w)(p := True)\<rparr>"
    let ?w = "?w1\<lparr>pool := crypto_buffer_free_object p (pool ?w1), dying := (dying ?w1)(p := False)\<rparr>"
    have "pool_step w ?w1" by (rule pool_step.lost [OF bw]) (use ins dup in simp)
    moreover have "pool_step ?w1 ?w" by (rule pool_step.destroy) simp
    ultimately have "pool_steps w ?w" by (meson converse_rtranclp_into_rtranclp r_into_rtranclp)
    moreover have d: "d \<in> lh_elems (bufs (pool w))" "st = inc_ref d (pool w)" "buf_data (buffer_at (store (pool w)) d) = buf_data b"
      using out(2) [OF dup] at by simp_all
    moreover have "d \<noteq> p" using elem_live [OF ok d(1)] bw by blast
    moreover have "data_is_static b \<longrightarrow> data_is_static (buffer_at (store (pool w)) d)"
      using ins dup at find_duplicate_found [OF pool_okD(1) [OF ok]] by (auto simp: pool_insert_def split: option.splits prod.splits)
    moreover have "buffer_at (store (crypto_buffer_free_object p st)) d = buffer_at (store st) d"
      using \<open>d \<noteq> p\<close> by (simp add: crypto_buffer_free_object_def buffer_at_def)
    ultimately show ?thesis using dup unmoved inc_ref_keeps [of d "pool w"]
      by (intro exI [of _ ?w]) (simp add: new_reference_def CRYPTO_BUFFER_data_def, simp add: crypto_buffer_free_object_def)
  next
    case no
    let ?w1 = "w\<lparr>pool := st, building := (building w)(p := False), dying := (dying w)(p := True)\<rparr>"
    let ?w = "?w1\<lparr>pool := crypto_buffer_free_object p (pool ?w1), dying := (dying ?w1)(p := False)\<rparr>"
    have "pool_step w ?w1" by (rule pool_step.failed [OF bw]) (use ins no in simp)
    moreover have "pool_step ?w1 ?w" by (rule pool_step.destroy) simp
    ultimately have "pool_steps w ?w" by (meson converse_rtranclp_into_rtranclp r_into_rtranclp)
    then show ?thesis using no unmoved by (intro exI [of _ ?w]) (simp add: new_reference_def)
  qed
qed

lemma crypto_buffer_new_steps:
  assumes ok: "pool_ok w" and p: "p = 0 \<or> store (pool w) p = None \<and> p < SIZE_LIMIT"
    and run: "crypto_buffer_new data is_static True p copied (pool w) as = (r, st, as')"
  shows "\<exists>w'. pool_steps w w' \<and> pool w' = st \<and> new_reference w data is_static r w'"
proof -
  obtain found st1 where look: "pool_lookup data is_static (pool w) = (found, st1)" by (cases "pool_lookup data is_static (pool w)")
  consider (hit) d where "found = Some d" | (stop) "found = None" "p = 0 \<or> \<not> is_static \<and> data \<noteq> [] \<and> \<not> copied"
    | (make) "found = None" "0 < p" "\<not> (\<not> is_static \<and> data \<noteq> [] \<and> \<not> copied)" by blast
  then show ?thesis
  proof cases
    case hit
    let ?w = "w\<lparr>pool := st1, held := (held w)(d := held w d + 1)\<rparr>"
    have "r = Some d" "st = st1" using run look hit by (simp_all add: crypto_buffer_new_def)
    moreover have "pool_steps w ?w" using look hit by (intro r_into_rtranclp pool_step.found) simp
    ultimately show ?thesis using lookup_found [OF ok] look hit
      by (intro exI [of _ ?w]) (auto simp: new_reference_def inc_ref_keeps CRYPTO_BUFFER_data_def)
  next
    case stop
    then have "r = None" "st = pool w" using run look
      by (auto simp: crypto_buffer_new_def pool_lookup_def Let_def split: if_splits option.splits)
    then show ?thesis by (intro exI [of _ w]) (simp add: new_reference_def)
  next
    case make
    let ?b = "\<lparr>in_pool = True, buf_data = data, references = 1, data_is_static = is_static\<rparr>"
    let ?w1 = "w\<lparr>pool := new_buffer p data is_static True (pool w), building := (building w)(p := True)\<rparr>"
    have fresh: "store (pool w) p = None" "0 < p" "p < SIZE_LIMIT" using p make by auto
    have "\<not> building w p" using pool_okD(2) [OF ok, of p] fresh(1) by (simp add: slot_ok_def)
    then have unmoved: "(building w)(p := False) = building w" by (simp add: fun_eq_iff)
    have st1: "st1 = pool w" using look make(1) by (auto simp: pool_lookup_def Let_def split: option.splits)
    obtain inserted dup st2 as2 where ins: "pool_insert p (pool ?w1) as = (inserted, dup, st2, as2)" by (metis prod_cases4)
    have call: "r = (if inserted then Some p else dup)" "st = (if inserted then st2 else crypto_buffer_free_object p st2)"
      using run look st1 make ins by (auto simp: crypto_buffer_new_def Let_def)
    have b: "store (pool ?w1) p = Some ?b" "building ?w1 p" by (simp_all add: new_buffer_def)
    obtain w' where w': "pool_steps ?w1 w'" "pool w' = st" "new_reference (?w1\<lparr>building := (building ?w1)(p := False)\<rparr>) data is_static r w'"
      using offer_steps [OF pool_ok_new(1) [OF ok fresh] b(2) ins b(1)] call by auto
    have "pool_steps w w'" by (rule converse_rtranclp_into_rtranclp [OF pool_step.make [OF fresh] w'(1)])
    moreover have "new_reference w data is_static r w'" using w'(3) unmoved by (cases r) (simp_all add: new_reference_def)
    ultimately show ?thesis using w'(2) by blast
  qed
qed

lemma release_returns:
  assumes "pool_ok w" and "0 < held w p"
  obtains zero st as' where "pool_release p (pool w) as = Some (zero, st, as')"
proof -
  obtain b where b: "store (pool w) p = Some b" "references b = CRYPTO_REFCOUNT_MAX \<or> unat (references b) = held w p"
    using held_live [OF assms] by blast
  then have "references b \<noteq> 0" using assms(2) by (auto simp: CRYPTO_REFCOUNT_MAX_def)
  then have "pool_release p (pool w) as \<noteq> None"
    using b(1) by (auto simp: pool_release_def Let_def buffer_at_def CRYPTO_refcount_dec_and_test_zero_def split: if_splits option.splits prod.splits)
  then show thesis using that by (metis option.exhaust prod_cases3)
qed

lemma buffer_free_steps:
  assumes ok: "pool_ok w" and p: "0 < held w p"
  shows "\<exists>st as' w'. CRYPTO_BUFFER_free p (pool w) as = Some (st, as') \<and> pool_steps w w' \<and> pool w' = st \<and>
    held w' = (held w)(p := held w p - 1) \<and> building w' = building w \<and> dying w' = dying w"
proof -
  obtain b where b: "store (pool w) p = Some b" "\<not> dying w p" using held_live [OF ok p] by blast
  obtain zero st as' where rel: "pool_release p (pool w) as = Some (zero, st, as')" by (rule release_returns [OF ok p])
  have unmoved: "(dying w)(p := False) = dying w" using b(2) by (simp add: fun_eq_iff)
  have nz: "p \<noteq> 0" using pool_okD(3) [OF ok b(1)] by simp
  let ?w1 = "w\<lparr>pool := st, held := (held w)(p := held w p - 1), dying := (dying w)(p := zero)\<rparr>"
  let ?w2 = "?w1\<lparr>pool := crypto_buffer_free_object p (pool ?w1), dying := (dying ?w1)(p := False)\<rparr>"
  have s1: "pool_step w ?w1" by (rule pool_step.release [OF p rel])
  show ?thesis
  proof (cases zero)
    case True
    then have "pool_step ?w1 ?w2" by (intro pool_step.destroy) simp
    with s1 have "pool_steps w ?w2" by (meson converse_rtranclp_into_rtranclp r_into_rtranclp)
    then show ?thesis using True rel nz unmoved by (intro exI [of _ "crypto_buffer_free_object p st"] exI [of _ as'] exI [of _ ?w2])
        (simp add: CRYPTO_BUFFER_free_def)
  next
    case False
    then show ?thesis using s1 rel nz unmoved by (intro exI [of _ st] exI [of _ as'] exI [of _ ?w1]) (simp add: CRYPTO_BUFFER_free_def r_into_rtranclp)
  qed
qed

section \<open>The pool can be emptied\<close>

definition unsaturated :: "pool_world \<Rightarrow> bool" where
  "unsaturated w \<longleftrightarrow> (\<forall>p b. store (pool w) p = Some b \<longrightarrow> references b \<noteq> CRYPTO_REFCOUNT_MAX)"

lemma finite_live:
  assumes "pool_ok w"
  shows "finite {p. store (pool w) p \<noteq> None}"
proof (rule finite_subset)
  show "{p. store (pool w) p \<noteq> None} \<subseteq> {..<SIZE_LIMIT}"
  proof
    fix p assume "p \<in> {p. store (pool w) p \<noteq> None}"
    then obtain b where "store (pool w) p = Some b" by blast
    then show "p \<in> {..<SIZE_LIMIT}" using pool_okD(3) [OF assms] by simp
  qed
qed (rule finite_lessThan)

lemma dec_unsaturated:
  assumes "CRYPTO_refcount_dec_and_test_zero k = Some (zero, n)" and "k \<noteq> CRYPTO_REFCOUNT_MAX"
  shows "n \<noteq> CRYPTO_REFCOUNT_MAX"
proof -
  have k: "k \<noteq> 0" "n = k - 1" using assms by (auto simp: CRYPTO_refcount_dec_and_test_zero_def split: if_splits)
  then have "unat n < unat k" using unat_minus_one [of k] by (simp add: unat_gt_0)
  moreover have "unat k < 2 ^ 32" using unsigned_less [where 'a = nat, of k] by simp
  ultimately show ?thesis by (auto simp: CRYPTO_REFCOUNT_MAX_def)
qed

lemma release_all:
  "pool_ok w \<Longrightarrow> unsaturated w \<Longrightarrow> \<exists>w'. pool_steps w w' \<and> unsaturated w' \<and> (\<forall>p. held w' p = 0)"
proof (induction "sum (held w) {p. 0 < held w p}" arbitrary: w rule: less_induct)
  case less
  have live: "{p. 0 < held w p} \<subseteq> {p. store (pool w) p \<noteq> None}" using held_live [OF less(2)] by auto
  have fin: "finite {p. 0 < held w p}" by (rule finite_subset [OF live finite_live [OF less(2)]])
  show ?case
  proof (cases "\<forall>p. held w p = 0")
    case False
    then obtain p where p: "0 < held w p" by blast
    obtain b where b: "store (pool w) p = Some b" "\<not> building w p" "\<not> dying w p"
      using held_live [OF less(2) p] by blast
    obtain zero st as' where rel: "pool_release p (pool w) [] = Some (zero, st, as')" by (rule release_returns [OF less(2) p])
    let ?w = "w\<lparr>pool := st, held := (held w)(p := held w p - 1), dying := (dying w)(p := zero)\<rparr>"
    have step: "pool_step w ?w" by (rule pool_step.release [OF p rel])
    obtain n where r: "CRYPTO_refcount_dec_and_test_zero (references b) = Some (zero, n)"
      "store st = (store (pool w))(p \<mapsto> b\<lparr>references := n\<rparr>)"
      using release_outcome [OF less(2) b(1,2,3) rel] by blast
    have "references b \<noteq> CRYPTO_REFCOUNT_MAX" using less(3) b(1) by (simp add: unsaturated_def)
    then have "n \<noteq> CRYPTO_REFCOUNT_MAX" using dec_unsaturated [OF r(1)] by blast
    then have uns: "unsaturated ?w" using less(3) r(2) by (simp add: unsaturated_def)
    have "sum (held ?w) {q. 0 < held ?w q} \<le> sum (held ?w) {q. 0 < held w q}"
      by (rule sum_mono2 [OF fin]) (auto split: if_splits)
    also have "\<dots> < sum (held w) {q. 0 < held w q}" using p by (intro sum_strict_mono_ex1 [OF fin]) auto
    finally have "\<exists>w'. pool_steps ?w w' \<and> unsaturated w' \<and> (\<forall>p. held w' p = 0)"
      using less(1) [OF _ pool_step_ok [OF step less(2)] uns] by blast
    then show ?thesis using step by (meson converse_rtranclp_into_rtranclp)
  qed (use less(3) in blast)
qed

lemma unheld_table_empty:
  assumes "pool_ok w" and "unsaturated w" and "\<forall>p. held w p = 0"
  shows "lh_elems (bufs (pool w)) = {}"
proof -
  have "p \<notin> lh_elems (bufs (pool w))" for p
    using pool_okD(2) [OF assms(1), of p] assms(2,3) by (auto simp: slot_ok_def unsaturated_def split: option.splits if_splits)
  then show ?thesis by blast
qed

lemma abandon_all:
  "pool_ok w \<Longrightarrow> unsaturated w \<Longrightarrow> \<forall>p. held w p = 0 \<Longrightarrow>
   \<exists>w'. pool_steps w w' \<and> unsaturated w' \<and> (\<forall>p. held w' p = 0 \<and> \<not> building w' p)"
proof (induction "card {p. building w p}" arbitrary: w rule: less_induct)
  case less
  note empty = unheld_table_empty [OF less(2,3,4)]
  show ?case
  proof (cases "\<forall>p. \<not> building w p")
    case False
    then obtain p where p: "building w p" by blast
    have "find_duplicate (store (pool w)) (bufs (pool w)) q s = None" for q s
      using find_duplicate_found [OF pool_okD(1) [OF less(2)], of q s] empty by (cases "find_duplicate (store (pool w)) (bufs (pool w)) q s") auto
    moreover have "ask_malloc 24 [] = (False, [])" by (simp add: ask_malloc_def)
    moreover obtain z old lh as1 where call:
      "OPENSSL_lh_insert (CRYPTO_BUFFER_hash (store (pool w))) (CRYPTO_BUFFER_cmp (store (pool w))) (bufs (pool w)) p [] = (z, old, lh, as1)"
      by (metis prod_cases4)
    ultimately obtain st as' where ins: "pool_insert p (pool w) [] = (z, None, st, as')" by (auto simp: pool_insert_def)
    have "\<not> z"
    proof
      assume z
      have "OPENSSL_lh_retrieve (CRYPTO_BUFFER_hash (store (pool w))) (CRYPTO_BUFFER_cmp (store (pool w))) (bufs (pool w)) p = None"
        using retrieve_buffer [OF pool_okD(1) [OF less(2)], of p] empty
        by (cases "OPENSSL_lh_retrieve (CRYPTO_BUFFER_hash (store (pool w))) (CRYPTO_BUFFER_cmp (store (pool w))) (bufs (pool w)) p") auto
      then show False using call \<open>z\<close>
        by (auto simp: OPENSSL_lh_retrieve_def OPENSSL_lh_insert_def at_ptr_def Let_def ask_malloc_def split: prod.splits if_splits)
    qed
    let ?w = "w\<lparr>pool := st, building := (building w)(p := False), dying := (dying w)(p := True)\<rparr>"
    have step: "pool_step w ?w" by (rule pool_step.failed [OF p]) (use ins \<open>\<not> z\<close> in simp)
    have "store st = store (pool w)" using insert_outcomes(3) [OF less(2) p ins] \<open>\<not> z\<close> by simp
    then have uns: "unsaturated ?w" using less(3) by (simp add: unsaturated_def)
    have "building w q \<Longrightarrow> store (pool w) q \<noteq> None" for q using pool_okD(2) [OF less(2), of q] by (auto simp: slot_ok_def split: option.splits)
    then have fin: "finite {q. building w q}" by (intro finite_subset [OF _ finite_live [OF less(2)]]) auto
    have "{q. building ?w q} = {q. building w q} - {p}" by auto
    then have fewer: "card {q. building ?w q} < card {q. building w q}" using p fin by (simp only: card_Diff1_less mem_Collect_eq)
    have "\<exists>w'. pool_steps ?w w' \<and> unsaturated w' \<and> (\<forall>p. held w' p = 0 \<and> \<not> building w' p)"
      using less(1) [OF fewer pool_step_ok [OF step less(2)] uns] less(4) by simp
    then show ?thesis using step by (meson converse_rtranclp_into_rtranclp)
  qed (use less(3,4) in blast)
qed

lemma destroy_all:
  "pool_ok w \<Longrightarrow> unsaturated w \<Longrightarrow> \<forall>p. held w p = 0 \<and> \<not> building w p \<Longrightarrow>
   \<exists>w'. pool_steps w w' \<and> unsaturated w' \<and> (\<forall>p. held w' p = 0 \<and> \<not> building w' p \<and> \<not> dying w' p)"
proof (induction "card {p. dying w p}" arbitrary: w rule: less_induct)
  case less
  show ?case
  proof (cases "\<forall>p. \<not> dying w p")
    case False
    then obtain p where p: "dying w p" by blast
    let ?w = "w\<lparr>pool := crypto_buffer_free_object p (pool w), dying := (dying w)(p := False)\<rparr>"
    have step: "pool_step w ?w" by (rule pool_step.destroy [OF p])
    have uns: "unsaturated ?w" using less(3) by (simp add: unsaturated_def crypto_buffer_free_object_def)
    have "dying w q \<Longrightarrow> store (pool w) q \<noteq> None" for q using pool_okD(2) [OF less(2), of q] by (auto simp: slot_ok_def split: option.splits)
    then have fin: "finite {q. dying w q}" by (intro finite_subset [OF _ finite_live [OF less(2)]]) auto
    have "{q. dying ?w q} = {q. dying w q} - {p}" by auto
    then have fewer: "card {q. dying ?w q} < card {q. dying w q}" using p fin by (simp only: card_Diff1_less mem_Collect_eq)
    have "\<exists>w'. pool_steps ?w w' \<and> unsaturated w' \<and> (\<forall>p. held w' p = 0 \<and> \<not> building w' p \<and> \<not> dying w' p)"
      using less(1) [OF fewer pool_step_ok [OF step less(2)] uns] less(4) by simp
    then show ?thesis using step by (meson converse_rtranclp_into_rtranclp)
  qed (use less(3,4) in blast)
qed

section \<open>A pool with one buffer\<close>

lemma one_buffer:
  "\<exists>w. pool_reachable w \<and> held w 1 = 1 \<and> 1 \<in> lh_elems (bufs (pool w)) \<and> unsaturated w \<and>
    CRYPTO_BUFFER_data (buffer_at (store (pool w)) 1) = []"
proof -
  let ?lh = "\<lparr>num_items = 0, buckets = replicate 16 [], num_buckets = 16, callback_depth = 0\<rparr> :: nat lhash"
  let ?st = "\<lparr>store = (\<lambda>_. None), bufs = ?lh\<rparr>"
  have "CRYPTO_BUFFER_POOL_new (\<lambda>_. None) [True, True, True] = (Some ?st, [])"
    by (simp add: CRYPTO_BUFFER_POOL_new_def OPENSSL_lh_new_def ask_malloc_answer kMinNumBuckets_def SIZE_LIMIT_def)
  note start = pool_reachable.start [OF this]
  obtain r st as' where run: "crypto_buffer_new [] False True 1 True ?st [True] = (r, st, as')"
    by (metis prod_cases3)
  have r: "r = Some 1 \<and> references (the (store st 1)) = 1 \<and> (\<forall>p. p \<noteq> 1 \<longrightarrow> store st p = None)"
    using run
    by (simp add: crypto_buffer_new_def pool_lookup_def find_duplicate_def pool_insert_def new_buffer_def OPENSSL_lh_insert_def
        OPENSSL_lh_retrieve_def get_next_ptr_and_hash_def at_ptr_def CRYPTO_BUFFER_hash_def ask_malloc_answer SIZE_LIMIT_def
        OPENSSL_hash32_def lh_maybe_resize_def size_add_def buffer_at_def Let_def
        kMinNumBuckets_def kMaxAverageChainLength_def kMinAverageChainLength_def)
      auto
  have "\<exists>w'. pool_steps (idle_world ?st) w' \<and> pool w' = st \<and> new_reference (idle_world ?st) [] False r w'"
    by (rule crypto_buffer_new_steps [OF pool_reachable_ok [OF start]]) (use run in \<open>simp_all add: idle_world_def SIZE_LIMIT_def\<close>)
  then obtain w where w: "pool_steps (idle_world ?st) w" "pool w = st" "new_reference (idle_world ?st) [] False r w" by blast
  have "unsaturated w" unfolding unsaturated_def
  proof (intro allI impI)
    fix p b assume "store (pool w) p = Some b"
    then show "references b \<noteq> CRYPTO_REFCOUNT_MAX" using r w(2) by (cases "p = 1") (auto simp: CRYPTO_REFCOUNT_MAX_def)
  qed
  then show ?thesis using pool_steps_reachable [OF w(1) start] w(3) r by (auto simp: new_reference_def idle_world_def)
qed

section \<open>The properties\<close>

text \<open>
  C4: in every state any number of threads can bring a pool to, the table holds only buffers that are
  alive and about to be freed by nobody, with positive counts and pairwise different contents; a buffer
  a client holds is alive, is counted, and can be released without \<open>abort\<close>; and a live buffer that no client
  holds and no thread is at work on is one whose count is saturated - nothing else leaks.
\<close>

theorem pool_safe:
  assumes "pool_reachable w"
  shows "(\<forall>p \<in> lh_elems (bufs (pool w)). \<exists>b. store (pool w) p = Some b \<and> references b \<noteq> 0 \<and> in_pool b \<and> \<not> dying w p) \<and>
    (\<forall>p \<in> lh_elems (bufs (pool w)). \<forall>q \<in> lh_elems (bufs (pool w)).
       CRYPTO_BUFFER_data (buffer_at (store (pool w)) p) = CRYPTO_BUFFER_data (buffer_at (store (pool w)) q) \<longrightarrow> p = q) \<and>
    (\<forall>p. 0 < held w p \<longrightarrow> store (pool w) p \<noteq> None \<and> \<not> dying w p \<and> (\<forall>as. CRYPTO_BUFFER_free p (pool w) as \<noteq> None)) \<and>
    (\<forall>p b. store (pool w) p = Some b \<and> held w p = 0 \<and> \<not> building w p \<and> \<not> dying w p \<longrightarrow> references b = CRYPTO_REFCOUNT_MAX)"
proof -
  note ok = pool_reachable_ok [OF assms]
  show ?thesis
  proof (intro conjI ballI allI impI)
    fix p assume "p \<in> lh_elems (bufs (pool w))"
    from elem_live [OF ok this] show "\<exists>b. store (pool w) p = Some b \<and> references b \<noteq> 0 \<and> in_pool b \<and> \<not> dying w p" by blast
  next
    fix p q assume "p \<in> lh_elems (bufs (pool w))" "q \<in> lh_elems (bufs (pool w))"
      "CRYPTO_BUFFER_data (buffer_at (store (pool w)) p) = CRYPTO_BUFFER_data (buffer_at (store (pool w)) q)"
    then show "p = q" using table_elem_unique [OF pool_okD(1) [OF ok]] by (simp add: CRYPTO_BUFFER_data_def)
  next
    fix p assume held: "0 < held w p"
    from held_live [OF ok held] show "store (pool w) p \<noteq> None" "\<not> dying w p" by auto
    fix as show "CRYPTO_BUFFER_free p (pool w) as \<noteq> None" using buffer_free_steps [OF ok held, of as] by auto
  next
    fix p b assume "store (pool w) p = Some b \<and> held w p = 0 \<and> \<not> building w p \<and> \<not> dying w p"
    then show "references b = CRYPTO_REFCOUNT_MAX" using pool_okD(2) [OF ok, of p] by (auto simp: slot_ok_def)
  qed
qed

theorem pool_safe_witness:
  "\<exists>w. pool_reachable w \<and> 0 < held w 1 \<and> 1 \<in> lh_elems (bufs (pool w)) \<and> store (pool w) 1 \<noteq> None \<and>
    CRYPTO_BUFFER_free 1 (pool w) [] \<noteq> None"
  using one_buffer pool_safe by (metis zero_less_one)

text \<open>
  C23: \<open>CRYPTO_BUFFER_new\<close> and its static variant intern. If the table has a buffer with the bytes (a static
  one, where a static one is asked for), a call returns that buffer and allocates nothing. Whatever the
  table has and whichever allocations fail, the call is a sequence of steps of the pool that leaves the
  caller one more reference to a buffer of the table with just these bytes, or, when it returns \<open>NULL\<close>,
  no trace.
\<close>

theorem crypto_buffer_new_interns:
  assumes "pool_reachable w" and "p = 0 \<or> store (pool w) p = None \<and> p < SIZE_LIMIT"
    and "crypto_buffer_new data is_static True p copied (pool w) as = (r, st, as')"
  shows "(\<forall>q \<in> lh_elems (bufs (pool w)). CRYPTO_BUFFER_data (buffer_at (store (pool w)) q) = data \<and>
       (is_static \<longrightarrow> data_is_static (buffer_at (store (pool w)) q)) \<longrightarrow> r = Some q \<and> as' = as \<and> st = inc_ref q (pool w)) \<and>
    (\<exists>w'. pool_steps w w' \<and> pool w' = st \<and> new_reference w data is_static r w')"
proof -
  note ok = pool_reachable_ok [OF assms(1)]
  have "r = Some q \<and> as' = as \<and> st = inc_ref q (pool w)"
    if "q \<in> lh_elems (bufs (pool w))" "CRYPTO_BUFFER_data (buffer_at (store (pool w)) q) = data"
      "is_static \<longrightarrow> data_is_static (buffer_at (store (pool w)) q)" for q
  proof -
    have "pool_lookup data is_static (pool w) = (Some q, inc_ref q (pool w))"
      using lookup_found [OF ok] that by (simp add: CRYPTO_BUFFER_data_def)
    then show ?thesis using assms(3) by (simp add: crypto_buffer_new_def)
  qed
  then show ?thesis using crypto_buffer_new_steps [OF ok assms(2,3)] by blast
qed

theorem crypto_buffer_new_interns_witness:
  "\<exists>w w' st. pool_reachable w \<and> crypto_buffer_new [] False True 0 True (pool w) [] = (Some 1, st, []) \<and>
    pool_steps w w' \<and> pool w' = st \<and> held w' 1 = 2"
proof -
  obtain w where w: "pool_reachable w" "held w 1 = 1" "1 \<in> lh_elems (bufs (pool w))"
    "CRYPTO_BUFFER_data (buffer_at (store (pool w)) 1) = []" using one_buffer by blast
  obtain r st as' where run: "crypto_buffer_new [] False True 0 True (pool w) [] = (r, st, as')" by (metis prod_cases3)
  from crypto_buffer_new_interns [OF w(1) _ run] w(3,4)
  have r: "r = Some 1" "as' = []" and "\<exists>w'. pool_steps w w' \<and> pool w' = st \<and> new_reference w [] False r w'" by auto
  then obtain w' where "pool_steps w w'" "pool w' = st" "new_reference w [] False r w'" by blast
  moreover from this have "held w' 1 = 2" using w(2) r by (simp add: new_reference_def)
  ultimately show ?thesis using w(1) run r by blast
qed

text \<open>
  C22: nothing keeps a pool from being emptied. From every state without a saturated count - references
  held, threads in the middle of a call, allocations failing - releasing what is held and finishing what
  was begun leads to a state in which no buffer is left and \<open>CRYPTO_BUFFER_POOL_free\<close> passes its assertion
  and frees a table without items.
\<close>

theorem pool_drains:
  assumes "pool_reachable w" and "unsaturated w"
  shows "\<exists>w'. pool_steps w w' \<and> store (pool w') = (\<lambda>_. None) \<and> (\<forall>p. held w' p = 0) \<and>
    CRYPTO_BUFFER_POOL_free (Some (pool w')) = Some [Buckets_block, Table_block]"
proof -
  note ok = pool_reachable_ok [OF assms(1)]
  obtain w1 where w1: "pool_steps w w1" "unsaturated w1" "\<forall>p. held w1 p = 0" using release_all [OF ok assms(2)] by blast
  note ok1 = pool_steps_ok [OF w1(1) ok]
  obtain w2 where w2: "pool_steps w1 w2" "unsaturated w2" "\<forall>p. held w2 p = 0 \<and> \<not> building w2 p"
    using abandon_all [OF ok1 w1(2,3)] by blast
  note ok2 = pool_steps_ok [OF w2(1) ok1]
  obtain w3 where w3: "pool_steps w2 w3" "unsaturated w3" "\<forall>p. held w3 p = 0 \<and> \<not> building w3 p \<and> \<not> dying w3 p"
    using destroy_all [OF ok2 w2(2,3)] by blast
  note ok3 = pool_steps_ok [OF w3(1) ok2]
  have "store (pool w3) p = None" for p
    using pool_okD(2) [OF ok3, of p] w3(2,3) by (auto simp: slot_ok_def unsaturated_def split: option.splits)
  moreover have "lh_elems (bufs (pool w3)) = {}" using unheld_table_empty [OF ok3 w3(2)] w3(3) by blast
  then have "lh_items (bufs (pool w3)) = []" by (simp add: lh_elems_def)
  then have "CRYPTO_BUFFER_POOL_free (Some (pool w3)) = Some [Buckets_block, Table_block]"
    using lh_okD(3) [OF pool_okD(1) [OF ok3]] by (simp add: CRYPTO_BUFFER_POOL_free_def OPENSSL_lh_num_items_def free_blocks)
  moreover have "pool_steps w w3" using w1(1) w2(1) w3(1) by (meson rtranclp_trans)
  ultimately show ?thesis using w3(3) by blast
qed

theorem pool_drains_witness:
  "\<exists>w w'. pool_reachable w \<and> unsaturated w \<and> 0 < held w 1 \<and> pool_steps w w' \<and> store (pool w') = (\<lambda>_. None)"
  using one_buffer pool_drains by (metis zero_less_one)

end
