(* ===== verification/Ssl_Consttime.thy ===== *)
theory Ssl_Consttime
  imports Enmart_Prelude
begin

text \<open>
  The helpers of \<open>crypto/internal.h\<close> that compare and select without branches: they compute masks of all
  ones or all zeros from the most significant bit of a word.
\<close>

unbundle bit_operations_syntax

section \<open>Masks\<close>

definition constant_time_msb_w :: "u64 \<Rightarrow> u64" where
  "constant_time_msb_w a = 0 - drop_bit (8 * 8 - 1) a"

definition constant_time_lt_w :: "u64 \<Rightarrow> u64 \<Rightarrow> u64" where
  "constant_time_lt_w a b = constant_time_msb_w (a XOR ((a XOR b) OR ((a - b) XOR a)))"

definition constant_time_lt_8 :: "u64 \<Rightarrow> u64 \<Rightarrow> byte" where
  "constant_time_lt_8 a b = ucast (constant_time_lt_w a b)"

definition constant_time_ge_w :: "u64 \<Rightarrow> u64 \<Rightarrow> u64" where
  "constant_time_ge_w a b = NOT (constant_time_lt_w a b)"

definition constant_time_ge_8 :: "u64 \<Rightarrow> u64 \<Rightarrow> byte" where
  "constant_time_ge_8 a b = ucast (constant_time_ge_w a b)"

definition constant_time_is_zero_w :: "u64 \<Rightarrow> u64" where
  "constant_time_is_zero_w a = constant_time_msb_w (NOT a AND (a - 1))"

definition constant_time_is_zero_8 :: "u64 \<Rightarrow> byte" where
  "constant_time_is_zero_8 a = ucast (constant_time_is_zero_w a)"

definition constant_time_eq_w :: "u64 \<Rightarrow> u64 \<Rightarrow> u64" where
  "constant_time_eq_w a b = constant_time_is_zero_w (a XOR b)"

definition constant_time_eq_8 :: "u64 \<Rightarrow> u64 \<Rightarrow> byte" where
  "constant_time_eq_8 a b = ucast (constant_time_eq_w a b)"

text \<open>An \<open>int\<close> is converted to the word with its sign.\<close>

definition constant_time_eq_int :: "32 word \<Rightarrow> 32 word \<Rightarrow> u64" where
  "constant_time_eq_int a b = constant_time_eq_w (scast a) (scast b)"

definition constant_time_eq_int_8 :: "32 word \<Rightarrow> 32 word \<Rightarrow> byte" where
  "constant_time_eq_int_8 a b = constant_time_eq_8 (scast a) (scast b)"

text \<open>The barriers only hide the masks from the compiler.\<close>

definition value_barrier_w :: "u64 \<Rightarrow> u64" where "value_barrier_w a = a"

definition constant_time_select_w :: "u64 \<Rightarrow> u64 \<Rightarrow> u64 \<Rightarrow> u64" where
  "constant_time_select_w m a b = (value_barrier_w m AND a) OR (value_barrier_w (NOT m) AND b)"

definition constant_time_select_8 :: "byte \<Rightarrow> byte \<Rightarrow> byte \<Rightarrow> byte" where
  "constant_time_select_8 m a b = ucast (constant_time_select_w (ucast m) (ucast a) (ucast b))"

definition constant_time_select_int :: "u64 \<Rightarrow> 32 word \<Rightarrow> 32 word \<Rightarrow> 32 word" where
  "constant_time_select_int m a b = ucast (constant_time_select_w m (scast a) (scast b))"

section \<open>What they compute\<close>

definition truth_mask :: "bool \<Rightarrow> 'a::len word" where
  "truth_mask c = (if c then - 1 else 0)"

lemma truth_mask_simps [simp]: "truth_mask True = - 1" "truth_mask False = 0"
  by (simp_all add: truth_mask_def)

lemma ucast_truth_mask [simp]: "ucast (truth_mask c :: u64) = (truth_mask c :: byte)"
  by (rule bit_word_eqI) (cases c; simp add: bit_simps)

lemma msb_mask: "constant_time_msb_w a = truth_mask (bit a 63)"
proof -
  have "drop_bit 63 a = of_bool (bit a 63)"
  proof (rule bit_word_eqI)
    fix n show "bit (drop_bit 63 a) n = bit (of_bool (bit a 63) :: u64) n"
      using bit_imp_le_length [of a "63 + n"] by (cases n) (auto simp: bit_drop_bit_eq bit_simps)
  qed
  then show ?thesis by (cases "bit a 63") (simp_all add: constant_time_msb_w_def)
qed

lemma top_bit: "bit a 63 \<longleftrightarrow> 2 ^ 63 \<le> uint a" for a :: u64
proof -
  have lt: "uint a < 2 ^ 64" using uint_bounded [of a] by simp
  have "bit (uint a) 63 \<longleftrightarrow> 2 ^ 63 \<le> uint a"
  proof (cases "2 ^ 63 \<le> uint a")
    case True
    then have "uint a div 2 ^ 63 = 1" using lt by (intro int_div_pos_eq [of _ _ _ "uint a - 2 ^ 63"]) auto
    then show ?thesis using True by (simp add: bit_iff_odd)
  next
    case False
    then have "uint a div 2 ^ 63 = 0" by (simp add: div_pos_pos_trivial)
    then show ?thesis using False by (simp add: bit_iff_odd)
  qed
  then show ?thesis by (simp add: bit_uint_iff)
qed

lemma lt_arith:
  "0 \<le> x \<Longrightarrow> 0 \<le> y \<Longrightarrow> x < 2 ^ 64 \<Longrightarrow> y < 2 ^ 64 \<Longrightarrow>
   (if (2 ^ 63 \<le> x) = (2 ^ 63 \<le> y) then 2 ^ 63 \<le> (if y \<le> x then x - y else x - y + 2 ^ 64) else 2 ^ 63 \<le> y) \<longleftrightarrow> x < y"
  for x y :: int
  by (auto split: if_splits)

lemma lt_mask: "constant_time_lt_w a b = truth_mask (a < b)"
proof -
  have u: "0 \<le> uint a" "0 \<le> uint b" "uint a < 2 ^ 64" "uint b < 2 ^ 64"
    using uint_bounded [of a] uint_bounded [of b] by simp_all
  have d: "uint (a - b) = (if uint b \<le> uint a then uint a - uint b else uint a - uint b + 2 ^ 64)"
    by (simp add: uint_sub_if')
  have "bit (a XOR ((a XOR b) OR ((a - b) XOR a))) 63 \<longleftrightarrow> (if bit a 63 = bit b 63 then bit (a - b) 63 else bit b 63)"
    by (auto simp: bit_simps)
  also have "\<dots> \<longleftrightarrow> uint a < uint b"
    unfolding top_bit d using lt_arith [OF u] .
  finally show ?thesis by (simp add: constant_time_lt_w_def msb_mask word_less_def)
qed

lemma is_zero_mask: "constant_time_is_zero_w a = truth_mask (a = 0)"
proof -
  have "bit (NOT a AND (a - 1)) 63 \<longleftrightarrow> \<not> bit a 63 \<and> bit (a - 1) 63" by (simp add: bit_simps)
  also have "\<dots> \<longleftrightarrow> a = 0"
  proof (cases "a = 0")
    case False
    then have "0 < uint a" by (metis uint_0_iff word_gt_0 uint_ge_0 order_le_less)
    then have "uint (a - 1) = uint a - 1" by (simp add: uint_sub_if')
    then show ?thesis using False by (auto simp: top_bit)
  qed simp
  finally show ?thesis by (simp add: constant_time_is_zero_w_def msb_mask)
qed

lemma eq_mask: "constant_time_eq_w a b = truth_mask (a = b)"
  by (cases "a = b") (auto simp: constant_time_eq_w_def is_zero_mask bit_eq_iff bit_simps)

lemma select_mask: "constant_time_select_w (truth_mask c) a b = (if c then a else b)"
  by (simp add: constant_time_select_w_def value_barrier_w_def)

lemma select_8_mask: "constant_time_select_8 (truth_mask c) a b = (if c then a else b)"
  by (rule bit_word_eqI) (auto simp: constant_time_select_8_def constant_time_select_w_def value_barrier_w_def bit_simps)

text \<open>
  the comparisons without branches are exact on all words: each gives the mask of all ones or all
  zeros of its comparison, at both widths, and selecting by such a mask gives the one or the other operand.
\<close>

theorem constant_time_exact:
  "constant_time_lt_w a b = truth_mask (a < b) \<and> constant_time_lt_8 a b = truth_mask (a < b) \<and>
   constant_time_ge_w a b = truth_mask (b \<le> a) \<and> constant_time_ge_8 a b = truth_mask (b \<le> a) \<and>
   constant_time_is_zero_w a = truth_mask (a = 0) \<and> constant_time_is_zero_8 a = truth_mask (a = 0) \<and>
   constant_time_eq_w a b = truth_mask (a = b) \<and> constant_time_eq_8 a b = truth_mask (a = b) \<and>
   constant_time_eq_int i j = truth_mask (i = j) \<and> constant_time_eq_int_8 i j = truth_mask (i = j) \<and>
   constant_time_select_w (truth_mask c) a b = (if c then a else b) \<and>
   constant_time_select_8 (truth_mask c) x y = (if c then x else y) \<and>
   constant_time_select_int (truth_mask c) i j = (if c then i else j)"
proof -
  have not: "NOT (truth_mask p) = (truth_mask (\<not> p) :: u64)" for p by (cases p) simp_all
  have inj: "(scast i :: u64) = scast j \<longleftrightarrow> i = j"
  proof
    assume "(scast i :: u64) = scast j"
    then have "sint (scast i :: u64) = sint (scast j :: u64)" by simp
    then have "sint i = sint j" by (simp add: sint_up_scast is_up)
    then show "i = j" by (rule signed_word_eqI)
  qed simp
  have cut: "ucast (scast k :: u64) = k" for k :: "32 word"
  proof (rule bit_word_eqI)
    fix n assume n: "n < LENGTH(32)"
    then have "min n 31 = n" by simp
    with n show "bit (ucast (scast k :: u64) :: 32 word) n = bit k n" by (simp add: bit_simps)
  qed
  show ?thesis
    by (intro conjI)
      (simp_all add: lt_mask is_zero_mask eq_mask select_mask select_8_mask inj cut not constant_time_lt_8_def constant_time_ge_w_def
        constant_time_ge_8_def constant_time_is_zero_8_def constant_time_eq_8_def constant_time_eq_int_def
        constant_time_eq_int_8_def constant_time_select_int_def not_less)
qed

end
