(* ===== verification/Ssl_Base64.thy ===== *)
theory Ssl_Base64
  imports Ssl_Consttime Ssl_Digest
begin

text \<open>
  Base64 in \<open>base64.c\<close>: the encoding of RFC 4648 for one block, the decoder of quads, and the two
  streaming interfaces, of which the encoder breaks lines as PEM does.
\<close>

section \<open>Encoding\<close>

definition constant_time_lt_args_8 :: "byte \<Rightarrow> byte \<Rightarrow> byte" where
  "constant_time_lt_args_8 a b = ucast (constant_time_msb_w (ucast a - ucast b))"

definition constant_time_in_range_8 :: "byte \<Rightarrow> byte \<Rightarrow> byte \<Rightarrow> byte" where
  "constant_time_in_range_8 a lo hi = constant_time_lt_args_8 (a - lo) (hi - lo + 1)"

definition conv_bin2ascii :: "byte \<Rightarrow> byte" where
  "conv_bin2ascii a =
     (let a = a AND 0x3f;
          ret = constant_time_select_8 (constant_time_eq_8 (ucast a) 62) 0x2b 0x2f;
          ret = constant_time_select_8 (constant_time_lt_args_8 a 62) (a - 52 + 0x30) ret;
          ret = constant_time_select_8 (constant_time_lt_args_8 a 52) (a - 26 + 0x61) ret
      in constant_time_select_8 (constant_time_lt_args_8 a 26) (a + 0x41) ret)"

definition EVP_EncodedLength :: "nat \<Rightarrow> nat option" where
  "EVP_EncodedLength len =
     (if size_add len 2 < len then None
      else
        let len = size_add len 2 div 3 in
        if len * 4 mod SIZE_LIMIT div 4 \<noteq> len then None
        else
          let len = len * 4 mod SIZE_LIMIT in
          if size_add len 1 < len then None else Some (size_add len 1))"

text \<open>The characters written at \<open>dst\<close>, before the final NUL, and the value returned.\<close>

fun encode_loop :: "bytes \<Rightarrow> nat \<Rightarrow> bytes \<times> nat" where
  "encode_loop [] ret = ([], ret)"
| "encode_loop [a] ret =
     (let l = push_bit 16 (ucast a) :: u32
      in ([conv_bin2ascii (ucast (drop_bit 18 l)), conv_bin2ascii (ucast (drop_bit 12 l)), 0x3d, 0x3d], size_add ret 4))"
| "encode_loop [a, b] ret =
     (let l = push_bit 16 (ucast a) OR push_bit 8 (ucast b) :: u32
      in ([conv_bin2ascii (ucast (drop_bit 18 l)), conv_bin2ascii (ucast (drop_bit 12 l)), conv_bin2ascii (ucast (drop_bit 6 l)), 0x3d],
          size_add ret 4))"
| "encode_loop (a # b # c # rest) ret =
     (let l = push_bit 16 (ucast a) OR push_bit 8 (ucast b) OR ucast c :: u32;
          (dst, ret) = encode_loop rest (size_add ret 4)
      in ([conv_bin2ascii (ucast (drop_bit 18 l)), conv_bin2ascii (ucast (drop_bit 12 l)), conv_bin2ascii (ucast (drop_bit 6 l)),
           conv_bin2ascii (ucast l)] @ dst, ret))"

definition EVP_EncodeBlock :: "bytes \<Rightarrow> bytes \<times> nat" where
  "EVP_EncodeBlock src = (case encode_loop src 0 of (dst, ret) \<Rightarrow> (dst @ [0], ret))"

section \<open>The streaming encoder\<close>

record evp_encode_ctx =
  data_used :: nat
  ctx_data :: bytes
  eof_seen :: bool
  error_encountered :: bool

definition EVP_EncodeInit :: "evp_encode_ctx \<Rightarrow> evp_encode_ctx" where
  "EVP_EncodeInit ctx = \<lparr>data_used = 0, ctx_data = replicate 48 0, eof_seen = False, error_encountered = False\<rparr>"

definition EVP_ENCODE_CTX_new :: "bool \<Rightarrow> evp_encode_ctx option" where
  "EVP_ENCODE_CTX_new allocated =
     (if allocated then Some \<lparr>data_used = 0, ctx_data = replicate 48 0, eof_seen = False, error_encountered = False\<rparr> else None)"

text \<open>
  One line: the characters of the block, of which the last is written over the NUL of the line before. The
  loop over the lines gives what is written, \<open>total\<close> and the rest of the input; \<open>None\<close> is the early return.
\<close>

definition encode_line :: "bytes \<Rightarrow> bytes \<times> nat" where
  "encode_line block = (case EVP_EncodeBlock block of (dst, encoded) \<Rightarrow> (take encoded dst @ [0xa], encoded))"

function encode_lines :: "bytes \<Rightarrow> bytes \<Rightarrow> nat \<Rightarrow> bytes \<times> (nat \<times> bytes) option" where
  "encode_lines inp out tot =
     (if 48 \<le> length inp
      then (case encode_line (take 48 inp) of
              (line, encoded) \<Rightarrow>
                if size_add (size_add tot encoded) 1 < tot then (out @ line, None)
                else encode_lines (drop 48 inp) (out @ line) (size_add (size_add tot encoded) 1))
      else (out, Some (tot, inp)))"
  by pat_completeness auto
termination by (relation "measure (\<lambda>(inp, _, _). length inp)") auto
declare encode_lines.simps [simp del]

text \<open>What is written at \<open>out\<close> (before the final NUL), \<open>*out_len\<close>, the context.\<close>

definition EVP_EncodeUpdate :: "evp_encode_ctx \<Rightarrow> bytes \<Rightarrow> bytes \<times> nat \<times> evp_encode_ctx" where
  "EVP_EncodeUpdate ctx inp =
     (if inp = [] then ([], 0, ctx)
      else if length inp < 48 - data_used ctx
      then ([], 0, ctx\<lparr>ctx_data := memcpy_at (ctx_data ctx) (data_used ctx) inp, data_used := data_used ctx + length inp\<rparr>)
      else
        let (out, tot, inp, ctx) =
          (if data_used ctx \<noteq> 0
           then
             (let todo = 48 - data_used ctx;
                  ctx = ctx\<lparr>ctx_data := memcpy_at (ctx_data ctx) (data_used ctx) (take todo inp), data_used := 0\<rparr>
              in case encode_line (ctx_data ctx) of (line, encoded) \<Rightarrow> (line, size_add encoded 1, drop todo inp, ctx))
           else ([], 0, inp, ctx))
        in case encode_lines inp out tot of
             (out, None) \<Rightarrow> (out, 0, ctx)
           | (out, Some (tot, inp)) \<Rightarrow>
               (let ctx = (if inp \<noteq> [] then ctx\<lparr>ctx_data := memcpy_at (ctx_data ctx) 0 inp\<rparr> else ctx);
                    ctx = ctx\<lparr>data_used := length inp\<rparr>
                in (out, if INT_MAX < tot then 0 else tot, ctx)))"

definition EVP_EncodeFinal :: "evp_encode_ctx \<Rightarrow> bytes \<times> nat \<times> evp_encode_ctx" where
  "EVP_EncodeFinal ctx =
     (if data_used ctx = 0 then ([], 0, ctx)
      else
        (case encode_line (take (data_used ctx) (ctx_data ctx)) of
           (line, encoded) \<Rightarrow> (line, size_add encoded 1, ctx\<lparr>data_used := 0\<rparr>)))"

section \<open>Decoding\<close>

definition EVP_DecodedLength :: "nat \<Rightarrow> nat option" where
  "EVP_DecodedLength len = (if len mod 4 \<noteq> 0 then None else Some (len div 4 * 3 mod SIZE_LIMIT))"

definition EVP_DecodeInit :: "evp_encode_ctx \<Rightarrow> evp_encode_ctx" where
  "EVP_DecodeInit ctx = \<lparr>data_used = 0, ctx_data = replicate 48 0, eof_seen = False, error_encountered = False\<rparr>"

definition base64_ascii_to_bin :: "byte \<Rightarrow> byte" where
  "base64_ascii_to_bin a =
     (let is_upper = constant_time_in_range_8 a 0x41 0x5a;
          is_lower = constant_time_in_range_8 a 0x61 0x7a;
          is_digit = constant_time_in_range_8 a 0x30 0x39;
          is_plus = constant_time_eq_8 (ucast a) 0x2b;
          is_slash = constant_time_eq_8 (ucast a) 0x2f;
          is_equals = constant_time_eq_8 (ucast a) 0x3d;
          ret = 0 OR (is_upper AND (a - 0x41));
          ret = ret OR (is_lower AND (a - 0x61 + 26));
          ret = ret OR (is_digit AND (a - 0x30 + 52));
          ret = ret OR (is_plus AND 62);
          ret = ret OR (is_slash AND 63);
          is_valid = is_upper OR is_lower OR is_digit OR is_plus OR is_slash OR is_equals
      in ret OR NOT is_valid)"

text \<open>The one to three bytes written, or failure.\<close>

definition base64_decode_quad :: "byte \<Rightarrow> byte \<Rightarrow> byte \<Rightarrow> byte \<Rightarrow> bytes option" where
  "base64_decode_quad in0 in1 in2 in3 =
     (let a = base64_ascii_to_bin in0; b = base64_ascii_to_bin in1;
          c = base64_ascii_to_bin in2; d = base64_ascii_to_bin in3
      in if a = 0xff \<or> b = 0xff \<or> c = 0xff \<or> d = 0xff then None
         else
           let v = push_bit 18 (ucast a) OR push_bit 12 (ucast b) OR push_bit 6 (ucast c) OR ucast d :: u32;
               padding_pattern = (of_bool (in0 = 0x3d) * 8 + of_bool (in1 = 0x3d) * 4 + of_bool (in2 = 0x3d) * 2 + of_bool (in3 = 0x3d) :: nat)
           in if padding_pattern = 0 then Some [ucast (drop_bit 16 v), ucast (drop_bit 8 v), ucast v]
              else if padding_pattern = 1 then Some [ucast (drop_bit 16 v), ucast (drop_bit 8 v)]
              else if padding_pattern = 3 then Some [ucast (drop_bit 16 v)]
              else None)"

text \<open>The loop of \<open>EVP_DecodeUpdate\<close>: whether it ran to its end, what it wrote, the context.\<close>

fun decode_update_loop :: "bytes \<Rightarrow> bytes \<Rightarrow> evp_encode_ctx \<Rightarrow> bool \<times> bytes \<times> evp_encode_ctx" where
  "decode_update_loop [] out ctx = (True, out, ctx)"
| "decode_update_loop (c # inp) out ctx =
     (if c = 0x20 \<or> c = 0x9 \<or> c = 0xd \<or> c = 0xa then decode_update_loop inp out ctx
      else if eof_seen ctx then (False, out, ctx\<lparr>error_encountered := True\<rparr>)
      else
        let ctx = ctx\<lparr>ctx_data := (ctx_data ctx)[data_used ctx := c], data_used := data_used ctx + 1\<rparr> in
        if data_used ctx = 4
        then (case base64_decode_quad (ctx_data ctx ! 0) (ctx_data ctx ! 1) (ctx_data ctx ! 2) (ctx_data ctx ! 3) of
                None \<Rightarrow> (False, out, ctx\<lparr>error_encountered := True\<rparr>)
              | Some bs \<Rightarrow>
                  (let ctx = ctx\<lparr>data_used := 0\<rparr>; ctx = (if length bs < 3 then ctx\<lparr>eof_seen := True\<rparr> else ctx)
                   in decode_update_loop inp (out @ bs) ctx))
        else decode_update_loop inp out ctx)"

text \<open>The return value, what is written at \<open>out\<close>, \<open>*out_len\<close>, the context.\<close>

definition EVP_DecodeUpdate :: "evp_encode_ctx \<Rightarrow> bytes \<Rightarrow> int \<times> bytes \<times> nat \<times> evp_encode_ctx" where
  "EVP_DecodeUpdate ctx inp =
     (if error_encountered ctx then (- 1, [], 0, ctx)
      else
        (case decode_update_loop inp [] ctx of
           (False, out, ctx) \<Rightarrow> (- 1, out, 0, ctx)
         | (True, out, ctx) \<Rightarrow>
             if INT_MAX < length out then (- 1, out, 0, ctx\<lparr>error_encountered := True\<rparr>)
             else (if eof_seen ctx then 0 else 1, out, length out, ctx)))"

definition EVP_DecodeFinal :: "evp_encode_ctx \<Rightarrow> int \<times> nat" where
  "EVP_DecodeFinal ctx = (if error_encountered ctx \<or> data_used ctx \<noteq> 0 then - 1 else 1, 0)"

text \<open>The loop over the quads of one block. An incomplete quad does not occur, the length being checked before.\<close>

fun decode_quads :: "bytes \<Rightarrow> bytes \<Rightarrow> bool \<times> bytes" where
  "decode_quads (a # b # c # d # rest) out =
     (case base64_decode_quad a b c d of
        None \<Rightarrow> (False, out)
      | Some bs \<Rightarrow> if length bs \<noteq> 3 \<and> rest \<noteq> [] then (False, out @ bs) else decode_quads rest (out @ bs))"
| "decode_quads [] out = (True, out)"
| "decode_quads _ out = (False, out)"

text \<open>The return value, what is written at \<open>out\<close>, \<open>*out_len\<close>.\<close>

definition EVP_DecodeBase64 :: "nat \<Rightarrow> bytes \<Rightarrow> bool \<times> bytes \<times> nat" where
  "EVP_DecodeBase64 max_out inp =
     (if length inp mod 4 \<noteq> 0 then (False, [], 0)
      else
        (case EVP_DecodedLength (length inp) of
           None \<Rightarrow> (False, [], 0)
         | Some max_len \<Rightarrow>
             if max_out < max_len then (False, [], 0)
             else (case decode_quads inp [] of (ok, out) \<Rightarrow> if ok then (True, out, length out) else (False, out, 0))))"

definition EVP_DecodeBlock :: "bytes \<Rightarrow> int \<times> bytes" where
  "EVP_DecodeBlock src =
     (let src = dropWhile (\<lambda>c. c = 0x20 \<or> c = 0x9) src;
          src = rev (dropWhile (\<lambda>c. c = 0x20 \<or> c = 0x9 \<or> c = 0xd \<or> c = 0xa) (rev src))
      in case EVP_DecodedLength (length src) of
           None \<Rightarrow> (- 1, [])
         | Some dst_len \<Rightarrow>
             if INT_MAX < dst_len then (- 1, [])
             else
               (case EVP_DecodeBase64 dst_len src of
                  (False, out, _) \<Rightarrow> (- 1, out)
                | (True, out, dst_len) \<Rightarrow>
                    let zeros = (3 - dst_len mod 3) mod 3 in (int (dst_len + zeros), out @ replicate zeros 0)))"

section \<open>The alphabet\<close>

definition alphabet :: bytes where
  "alphabet = map of_char ''ABCDEFGHIJKLMNOPQRSTUVWXYZabcdefghijklmnopqrstuvwxyz0123456789+/''"

lemma alphabet_ranges: "alphabet = map of_nat [65..<91] @ map of_nat [97..<123] @ map of_nat [48..<58] @ [43, 47]"
  by code_simp

lemma alphabet_nth:
  "i < 26 \<Longrightarrow> alphabet ! i = of_nat (i + 65)"
  "26 \<le> i \<Longrightarrow> i < 52 \<Longrightarrow> alphabet ! i = of_nat (i + 71)"
  "52 \<le> i \<Longrightarrow> i < 62 \<Longrightarrow> alphabet ! i = of_nat (i - 4)"
  "alphabet ! 62 = 43" "alphabet ! 63 = 47" "length alphabet = 64"
proof -
  note s = nth_append nth_Cons'
  show "i < 26 \<Longrightarrow> alphabet ! i = of_nat (i + 65)"
    unfolding alphabet_ranges by (simp add: s del: upt_rec_numeral; simp add: algebra_simps)
  have "alphabet ! (26 + j) = of_nat (26 + j + 71)" if "j < 26" for j
    unfolding alphabet_ranges using that by (simp add: s del: upt_rec_numeral; simp add: algebra_simps)
  then show "26 \<le> i \<Longrightarrow> i < 52 \<Longrightarrow> alphabet ! i = of_nat (i + 71)" 
  proof -
    assume "26 \<le> i" "i < 52"
    then have "i = 26 + (i - 26)" "i - 26 < 26" by simp_all
    then show "alphabet ! i = of_nat (i + 71)" using \<open>\<And>j. j < 26 \<Longrightarrow> alphabet ! (26 + j) = of_nat (26 + j + 71)\<close> by metis
  qed
  have "alphabet ! (52 + j) = of_nat (52 + j - 4)" if "j < 10" for j
    unfolding alphabet_ranges using that by (simp add: s del: upt_rec_numeral; simp add: algebra_simps)
  moreover have "52 \<le> i \<Longrightarrow> i < 62 \<Longrightarrow> \<exists>j < 10. i = 52 + j" by presburger
  ultimately show "52 \<le> i \<Longrightarrow> i < 62 \<Longrightarrow> alphabet ! i = of_nat (i - 4)" by blast
  show "alphabet ! 62 = 43" "alphabet ! 63 = 47" "length alphabet = 64"
    unfolding alphabet_ranges by (simp_all add: s del: upt_rec_numeral)
qed

lemma ucast_byte_eq: "(ucast a :: u64) = ucast b \<longleftrightarrow> a = b" for a b :: byte
proof
  assume "(ucast a :: u64) = ucast b"
  then have "unat (ucast a :: u64) = unat (ucast b :: u64)" by simp
  moreover have "unat x < 18446744073709551616" for x :: byte
  proof -
    have "unat x < 256" using unsigned_less [where 'a = nat, of x] by simp
    then show ?thesis by linarith
  qed
  ultimately show "a = b" by (simp add: unat_ucast unsigned_word_eqI)
qed simp

lemma lt_args_arith:
  "0 \<le> x \<Longrightarrow> 0 \<le> y \<Longrightarrow> x < 256 \<Longrightarrow> y < 256 \<Longrightarrow> 2 ^ 63 \<le> (if y \<le> x then x - y else x - y + 2 ^ 64) \<longleftrightarrow> x < y"
  for x y :: int
  by (auto split: if_splits)

lemma lt_args_mask: "constant_time_lt_args_8 a b = truth_mask (a < b)"
proof -
  have lt: "uint a < 256" "uint b < 256" using uint_bounded [of a] uint_bounded [of b] by simp_all
  then have u: "uint (ucast a :: u64) = uint a" "uint (ucast b :: u64) = uint b"
    by (simp_all add: unsigned_ucast_eq take_bit_int_eq_self)
  have "bit (ucast a - ucast b :: u64) 63 \<longleftrightarrow> uint a < uint b"
    using lt_args_arith [OF uint_ge_0 uint_ge_0 lt] by (simp add: top_bit uint_sub_if' u split: if_splits)
  then show ?thesis by (simp add: constant_time_lt_args_8_def msb_mask word_less_def)
qed

lemma in_range_mask:
  assumes "lo \<le> hi" and "unat hi < 255"
  shows "constant_time_in_range_8 a lo hi = truth_mask (lo \<le> a \<and> a \<le> hi)"
proof -
  have "unat (hi - lo) = unat hi - unat lo" using assms(1) by (simp add: unat_sub word_le_nat_alt)
  then have w: "unat (hi - lo + 1) = unat hi - unat lo + 1" using assms(2) by (simp add: unat_word_ariths)
  have a: "unat a < 256" using unsigned_less [where 'a = nat, of a] by simp
  have "a - lo < hi - lo + 1 \<longleftrightarrow> lo \<le> a \<and> a \<le> hi"
    unfolding word_less_nat_alt w word_le_nat_alt unat_sub_if' using assms a by (auto simp: word_le_nat_alt)
  then show ?thesis by (simp add: constant_time_in_range_8_def lt_args_mask)
qed

lemma ascii_to_bin_ranges:
  "base64_ascii_to_bin a =
     (if 0x41 \<le> a \<and> a \<le> 0x5a then a - 0x41 else if 0x61 \<le> a \<and> a \<le> 0x7a then a - 0x61 + 26
      else if 0x30 \<le> a \<and> a \<le> 0x39 then a - 0x30 + 52 else if a = 0x2b then 62 else if a = 0x2f then 63
      else if a = 0x3d then 0 else 0xff)"
proof -
  have eq: "\<And>b :: byte. constant_time_eq_8 (ucast a) (ucast b) = truth_mask (a = b)"
    by (simp add: constant_time_eq_8_def eq_mask ucast_byte_eq)
  have eqs: "constant_time_eq_8 (ucast a) 0x2b = truth_mask (a = 0x2b)" "constant_time_eq_8 (ucast a) 0x2f = truth_mask (a = 0x2f)"
    "constant_time_eq_8 (ucast a) 0x3d = truth_mask (a = 0x3d)"
    using eq [of 43] eq [of 47] eq [of 61] by simp_all
  show ?thesis
    unfolding base64_ascii_to_bin_def Let_def eqs
    by (simp add: in_range_mask, simp add: truth_mask_def word_le_nat_alt)
qed

lemma conv_ranges:
  "conv_bin2ascii a = (let a = a AND 0x3f in if a < 26 then a + 0x41 else if a < 52 then a - 26 + 0x61
     else if a < 62 then a - 52 + 0x30 else if a = 62 then 0x2b else 0x2f)"
proof -
  have eq: "constant_time_eq_8 (ucast x) 62 = truth_mask (x = 62)" for x :: byte
  proof -
    have "(ucast x :: u64) = ucast (62 :: byte) \<longleftrightarrow> x = 62" by (rule ucast_byte_eq)
    then show ?thesis by (simp add: constant_time_eq_8_def eq_mask)
  qed
  show ?thesis by (simp add: conv_bin2ascii_def Let_def eq lt_args_mask select_8_mask)
qed

lemma conv_alphabet: "conv_bin2ascii a = alphabet ! (unat a mod 64)"
proof -
  have x: "unat (a AND 0x3f) = unat a mod 64"
  proof -
    have "a AND 0x3f = take_bit 6 a" by (simp add: take_bit_eq_mask mask_numeral)
    then show ?thesis by (simp add: unat_take_bit)
  qed
  define i where "i = unat a mod 64"
  have i: "i < 64" "a AND 0x3f = of_nat i" 
  proof -
    have "a AND 0x3f = of_nat (unat (a AND 0x3f))" by simp
    then show "a AND 0x3f = of_nat i" by (simp only: x i_def)
  qed (simp add: i_def)
  have less: "(of_nat i :: byte) < n \<longleftrightarrow> i < unat n" "(of_nat i :: byte) = 62 \<longleftrightarrow> i = 62" for n
    using i(1) by (simp_all add: word_less_nat_alt unat_of_nat word_unat_eq_iff)
  consider "i < 26" | "26 \<le> i" "i < 52" | "52 \<le> i" "i < 62" | "i = 62" | "i = 63" using i(1) by linarith
  then have "conv_bin2ascii a = alphabet ! i"
    unfolding conv_ranges Let_def i(2) less by cases (simp_all add: alphabet_nth of_nat_diff)
  then show ?thesis by (simp add: i_def)
qed

lemma bin_alphabet:
  assumes "i < 64"
  shows "base64_ascii_to_bin (alphabet ! i) = of_nat i" and "alphabet ! i \<noteq> 0x3d"
proof -
  have *: "base64_ascii_to_bin (alphabet ! i) = of_nat i \<and> alphabet ! i \<noteq> 0x3d"
    if c: "alphabet ! i = of_nat k" "k < 256" "k \<noteq> 0x3d"
      and i: "of_nat i = (if 0x41 \<le> k \<and> k \<le> 0x5a then of_nat k - 0x41 else if 0x61 \<le> k \<and> k \<le> 0x7a then of_nat k - 0x61 + 26
      else if 0x30 \<le> k \<and> k \<le> 0x39 then of_nat k - 0x30 + 52 else if k = 0x2b then 62 else if k = 0x2f then 63
      else (0xff :: byte))" for k
  proof -
    have u: "unat (of_nat k :: byte) = k" using c(2) by (simp add: unat_of_nat)
    have e: "(of_nat k :: byte) = n \<longleftrightarrow> k = unat n" for n using u by (metis word_unat_eq_iff)
    show ?thesis unfolding c(1) i ascii_to_bin_ranges word_le_nat_alt u e using c(3) by simp
  qed
  consider "i < 26" | "26 \<le> i" "i < 52" | "52 \<le> i" "i < 62" | "i = 62" | "i = 63" using assms by linarith
  then have "base64_ascii_to_bin (alphabet ! i) = of_nat i \<and> alphabet ! i \<noteq> 0x3d"
  proof cases
    case 1
    show ?thesis by (rule * [of "i + 65"]) (use 1 in \<open>simp_all add: alphabet_nth\<close>)
  next
    case 2
    show ?thesis by (rule * [of "i + 71"]) (use 2 in \<open>simp_all add: alphabet_nth\<close>)
  next
    case 3
    then obtain j where j: "i = j + 4" "48 \<le> j" "j \<le> 57" by (intro that [of "i - 4"]) simp_all
    show ?thesis by (rule * [of j]) (use 3 j in \<open>auto simp: alphabet_nth\<close>)
  next
    case 4
    show ?thesis by (rule * [of 43]) (use 4 in \<open>simp_all add: alphabet_nth\<close>)
  next
    case 5
    show ?thesis by (rule * [of 47]) (use 5 in \<open>simp_all add: alphabet_nth\<close>)
  qed
  then show "base64_ascii_to_bin (alphabet ! i) = of_nat i" and "alphabet ! i \<noteq> 0x3d" by simp_all
qed

lemma bin_valid:
  assumes "base64_ascii_to_bin c \<noteq> 0xff"
  shows "c = 0x3d \<or> (\<exists>i < 64. c = alphabet ! i)"
proof -
  have c: "c = of_nat (unat c)" by simp
  consider "0x41 \<le> unat c" "unat c \<le> 0x5a" | "0x61 \<le> unat c" "unat c \<le> 0x7a" | "0x30 \<le> unat c" "unat c \<le> 0x39"
    | "c = 0x2b" | "c = 0x2f" | "c = 0x3d"
    using assms by (auto simp: ascii_to_bin_ranges word_le_nat_alt split: if_splits)
  then show ?thesis
  proof cases
    case 1
    then show ?thesis by (intro disjI2 exI [of _ "unat c - 65"]) (simp add: alphabet_nth)
  next
    case 2
    then show ?thesis by (intro disjI2 exI [of _ "unat c - 71"]) (simp add: alphabet_nth)
  next
    case 3
    then show ?thesis by (intro disjI2 exI [of _ "unat c + 4"]) (simp add: alphabet_nth)
  next
    case 4
    then show ?thesis by (intro disjI2 exI [of _ 62]) (simp add: alphabet_nth)
  next
    case 5
    then show ?thesis by (intro disjI2 exI [of _ 63]) (simp add: alphabet_nth)
  qed simp
qed

section \<open>RFC 4648\<close>

text \<open>Three bytes are a number of 24 bits and four digits of six bits; the end is filled up with zero bits.\<close>

definition four_digits :: "nat \<Rightarrow> nat list" where
  "four_digits n = [n div 2 ^ 18, n div 2 ^ 12 mod 64, n div 2 ^ 6 mod 64, n mod 64]"

fun rfc4648 :: "bytes \<Rightarrow> bytes" where
  "rfc4648 [] = []"
| "rfc4648 [a] = map ((!) alphabet) (take 2 (four_digits (unat a * 2 ^ 16))) @ [0x3d, 0x3d]"
| "rfc4648 [a, b] = map ((!) alphabet) (take 3 (four_digits (unat a * 2 ^ 16 + unat b * 2 ^ 8))) @ [0x3d]"
| "rfc4648 (a # b # c # rest) = map ((!) alphabet) (four_digits (unat a * 2 ^ 16 + unat b * 2 ^ 8 + unat c)) @ rfc4648 rest"

lemma byte_less: "unat (x :: byte) < 256"
  using unsigned_less [where 'a = nat, of x] by simp

lemma unat_byte_32: "unat (ucast x :: u32) = unat x" for x :: byte
proof -
  have "unat x < 4294967296" using byte_less [of x] by linarith
  then show ?thesis by (simp add: unat_ucast)
qed

lemma group_value: "unat (push_bit 16 (ucast a) OR push_bit 8 (ucast b) OR ucast c :: u32) = unat a * 2 ^ 16 + (unat b * 2 ^ 8 + unat c)"
  for a b c :: byte
proof -
  have u: "unat a < 256" "unat b < 256" "unat c < 256" by (rule byte_less)+
  have "unat (push_bit 8 (ucast b) OR ucast c :: u32) = unat b * 2 ^ 8 + unat c"
    using unat_push_or [of "ucast c" 8 "ucast b :: u32"] u by (simp add: unat_byte_32)
  moreover from this have "unat (push_bit 16 (ucast a) OR (push_bit 8 (ucast b) OR ucast c) :: u32) =
      unat a * 2 ^ 16 + unat (push_bit 8 (ucast b) OR ucast c :: u32)"
    using unat_push_or [of "push_bit 8 (ucast b) OR ucast c :: u32" 16 "ucast a"] u by (simp add: unat_byte_32)
  ultimately show ?thesis by (simp add: or.assoc)
qed

lemma conv_digit: "conv_bin2ascii (ucast (drop_bit k l)) = alphabet ! (unat l div 2 ^ k mod 64)" for l :: u32
proof -
  have "unat l div 2 ^ k mod 256 mod 64 = unat l div 2 ^ k mod 64" by (rule mod_mod_cancel) simp
  then show ?thesis by (simp add: conv_alphabet unat_ucast unat_drop_bit)
qed

lemma encode_group:
  "encode_loop (a # b # c # rest) ret =
     (case encode_loop rest (size_add ret 4) of
        (dst, ret) \<Rightarrow> (map ((!) alphabet) (four_digits (unat a * 2 ^ 16 + unat b * 2 ^ 8 + unat c)) @ dst, ret))"
proof -
  define l where "l = (push_bit 16 (ucast a) OR push_bit 8 (ucast b) OR ucast c :: u32)"
  have l: "unat l = unat a * 2 ^ 16 + unat b * 2 ^ 8 + unat c" by (simp only: l_def group_value add.assoc)
  have "unat l div 2 ^ 18 < 64"
    by (rule less_mult_imp_div_less) (simp add: l; use byte_less [of a] byte_less [of b] byte_less [of c] in linarith)
  moreover have "conv_bin2ascii (ucast l) = alphabet ! (unat l mod 64)" using conv_digit [of 0 l] by simp
  ultimately show ?thesis
    by (simp only: encode_loop.simps Let_def l_def [symmetric] conv_digit four_digits_def l [symmetric] list.map mod_less)
qed

lemma take_digits: "take 2 [x, y, z, w] = [x, y]" "take 3 [x, y, z, w] = [x, y, z]"
  by simp_all

lemma encode_one: "encode_loop [a] ret = (rfc4648 [a], size_add ret 4)"
proof -
  define l where "l = (push_bit 16 (ucast a) :: u32)"
  have l: "unat l = unat a * 2 ^ 16" using group_value [of a 0 0] by (simp add: l_def)
  have "unat l div 2 ^ 18 < 64" by (rule less_mult_imp_div_less) (use l byte_less [of a] in simp)
  then show ?thesis
    by (simp only: encode_loop.simps rfc4648.simps Let_def l_def [symmetric] conv_digit four_digits_def l [symmetric]
        take_digits list.map mod_less append.simps)
qed

lemma encode_two: "encode_loop [a, b] ret = (rfc4648 [a, b], size_add ret 4)"
proof -
  define l where "l = (push_bit 16 (ucast a) OR push_bit 8 (ucast b) :: u32)"
  have l: "unat l = unat a * 2 ^ 16 + unat b * 2 ^ 8" using group_value [of a b 0] by (simp add: l_def)
  have "unat l div 2 ^ 18 < 64"
    by (rule less_mult_imp_div_less) (simp add: l; use byte_less [of a] byte_less [of b] in linarith)
  then show ?thesis
    by (simp only: encode_loop.simps rfc4648.simps Let_def l_def [symmetric] conv_digit four_digits_def l [symmetric]
        take_digits list.map mod_less append.simps)
qed

lemma length_rfc4648: "length (rfc4648 src) = (length src + 2) div 3 * 4"
proof (induction src rule: rfc4648.induct)
  case (4 a b c rest)
  have "length (rfc4648 (a # b # c # rest)) = 4 + length (rfc4648 rest)" by (simp add: four_digits_def)
  moreover have "length (a # b # c # rest) + 2 = (length rest + 2) + 3" by simp
  moreover have "((length rest + 2) + 3) div 3 = (length rest + 2) div 3 + 1" by (rule div_add_self2) simp
  ultimately show ?case using 4 by (simp only: distrib_right)
qed (simp_all add: four_digits_def)

lemma encode_loop_value: "encode_loop src ret = (rfc4648 src, (ret + length (rfc4648 src)) mod SIZE_LIMIT)" if "ret < SIZE_LIMIT"
  using that
proof (induction src ret rule: encode_loop.induct)
  case (1 ret)
  then show ?case by simp
next
  case (2 a ret)
  then show ?case by (simp only: encode_one length_rfc4648) (simp add: size_add_def)
next
  case (3 a b ret)
  then show ?case by (simp only: encode_two length_rfc4648) (simp add: size_add_def)
next
  case (4 a b c rest ret)
  have "encode_loop rest (size_add ret 4) = (rfc4648 rest, (size_add ret 4 + length (rfc4648 rest)) mod SIZE_LIMIT)"
    using 4 by simp
  moreover have "(size_add ret 4 + length (rfc4648 rest)) mod SIZE_LIMIT = (ret + length (rfc4648 (a # b # c # rest))) mod SIZE_LIMIT"
  proof -
    have "length (rfc4648 (a # b # c # rest)) = 4 + length (rfc4648 rest)" by (simp add: four_digits_def)
    then show ?thesis by (simp only: size_add_def mod_add_left_eq add.assoc)
  qed
  ultimately show ?case by (simp only: encode_group rfc4648.simps case_prod_conv)
qed

lemma encode_block_value:
  "length (rfc4648 src) < SIZE_LIMIT \<Longrightarrow> EVP_EncodeBlock src = (rfc4648 src @ [0], length (rfc4648 src))"
  by (simp add: EVP_EncodeBlock_def encode_loop_value SIZE_LIMIT_def)

lemma encoded_length_value:
  assumes "len < SIZE_LIMIT"
  shows "EVP_EncodedLength len =
    (if (len + 2) div 3 * 4 + 1 < SIZE_LIMIT then Some ((len + 2) div 3 * 4 + 1) else None)"
proof (cases "len + 2 < SIZE_LIMIT")
  case False
  then have "size_add len 2 < len" using assms by (simp add: size_add_wraps SIZE_LIMIT_def)
  moreover have "\<not> (len + 2) div 3 * 4 + 1 < SIZE_LIMIT" using False by (simp add: SIZE_LIMIT_def)
  ultimately show ?thesis by (simp add: EVP_EncodedLength_def)
next
  case True
  let ?n = "(len + 2) div 3"
  show ?thesis
  proof (cases "?n * 4 < SIZE_LIMIT")
    case True
    then have "?n * 4 + 1 < SIZE_LIMIT" by (simp add: SIZE_LIMIT_def)
    then show ?thesis using True \<open>len + 2 < SIZE_LIMIT\<close> by (simp add: EVP_EncodedLength_def Let_def size_add_exact)
  next
    case big: False
    have "?n * 4 mod SIZE_LIMIT div 4 < ?n"
    proof -
      have "?n * 4 mod SIZE_LIMIT < SIZE_LIMIT" by (simp add: SIZE_LIMIT_def)
      also have "\<dots> \<le> ?n * 4" using big by simp
      finally show ?thesis by (simp add: less_mult_imp_div_less)
    qed
    then show ?thesis using True big by (simp add: EVP_EncodedLength_def Let_def size_add_exact)
  qed
qed

section \<open>What the decoder accepts\<close>

definition quad_number :: "nat \<Rightarrow> nat \<Rightarrow> nat \<Rightarrow> nat \<Rightarrow> nat" where
  "quad_number i j k l = i * 2 ^ 18 + (j * 2 ^ 12 + (k * 2 ^ 6 + l))"

definition group_of_number :: "nat \<Rightarrow> bytes" where
  "group_of_number n = [of_nat (n div 2 ^ 16), of_nat (n div 2 ^ 8), of_nat n]"

fun digit_bytes :: "nat list \<Rightarrow> bytes" where
  "digit_bytes (i # j # k # l # rest) = group_of_number (quad_number i j k l) @ digit_bytes rest"
| "digit_bytes [i, j, k] = take 2 (group_of_number (quad_number i j k 0))"
| "digit_bytes [i, j] = take 1 (group_of_number (quad_number i j 0 0))"
| "digit_bytes _ = []"

text \<open>Digits of the alphabet, then padding that fills the last quad; bits of the last digit that make up no byte may be anything.\<close>

definition base64_text :: "nat list \<Rightarrow> nat \<Rightarrow> bytes" where
  "base64_text ds pad = map ((!) alphabet) ds @ replicate pad 0x3d"

definition base64_digits :: "nat list \<Rightarrow> nat \<Rightarrow> bool" where
  "base64_digits ds pad \<longleftrightarrow> (\<forall>d \<in> set ds. d < 64) \<and> pad < 3 \<and> (length ds + pad) mod 4 = 0"

lemma unat_digit_32: "i < 64 \<Longrightarrow> unat (ucast (of_nat i :: byte) :: u32) = i"
  by (simp add: unat_ucast unat_of_nat)

lemma quad_value:
  assumes "i < 64" and "j < 64" and "k < 64" and "l < 64"
  shows "unat (push_bit 18 (ucast (of_nat i :: byte)) OR push_bit 12 (ucast (of_nat j :: byte)) OR
    push_bit 6 (ucast (of_nat k :: byte)) OR ucast (of_nat l :: byte) :: u32) = quad_number i j k l"
proof -
  note u = unat_digit_32 [OF assms(1)] unat_digit_32 [OF assms(2)] unat_digit_32 [OF assms(3)] unat_digit_32 [OF assms(4)]
  define x where "x = (push_bit 6 (ucast (of_nat k :: byte)) OR ucast (of_nat l :: byte) :: u32)"
  have x: "unat x = k * 2 ^ 6 + l" unfolding x_def using assms by (subst unat_push_or) (simp_all add: u)
  define y where "y = (push_bit 12 (ucast (of_nat j :: byte)) OR x :: u32)"
  have y: "unat y = j * 2 ^ 12 + (k * 2 ^ 6 + l)" unfolding y_def using assms by (subst unat_push_or) (simp_all add: u x)
  have "unat (push_bit 18 (ucast (of_nat i :: byte)) OR y :: u32) = quad_number i j k l"
    using assms by (subst unat_push_or) (simp_all add: u y quad_number_def)
  then show ?thesis by (simp only: y_def x_def or.assoc)
qed

lemma cast_byte: "(ucast (drop_bit k v) :: byte) = of_nat (unat v div 2 ^ k)" for v :: u32
  by (simp add: word_unat_eq_iff unat_ucast unat_drop_bit unat_of_nat)

lemma cast_low_byte: "(ucast v :: byte) = of_nat (unat v)" for v :: u32
  by (simp add: word_unat_eq_iff unat_ucast unat_of_nat)

lemma digit_not_ff: "i < 64 \<Longrightarrow> (of_nat i :: byte) \<noteq> 0xff"
  by (auto simp: word_unat_eq_iff unat_of_nat)

lemma bin_equals: "base64_ascii_to_bin 0x3d = of_nat 0"
  by (simp add: ascii_to_bin_ranges word_le_nat_alt)

lemma quad_digits:
  assumes "i < 64" and "j < 64" and "k < 64" and "l < 64"
  shows "base64_decode_quad (alphabet ! i) (alphabet ! j) (alphabet ! k) (alphabet ! l) = Some (group_of_number (quad_number i j k l))"
    and "base64_decode_quad (alphabet ! i) (alphabet ! j) (alphabet ! k) 0x3d = Some (take 2 (group_of_number (quad_number i j k 0)))"
    and "base64_decode_quad (alphabet ! i) (alphabet ! j) 0x3d 0x3d = Some (take 1 (group_of_number (quad_number i j 0 0)))"
proof -
  have z: "(0 :: nat) < 64" by simp
  define V where "V i j k l = (push_bit 18 (ucast (of_nat i :: byte)) OR push_bit 12 (ucast (of_nat j :: byte)) OR
    push_bit 6 (ucast (of_nat k :: byte)) OR ucast (of_nat l :: byte) :: u32)" for i j k l :: nat
  have V: "ucast (drop_bit 16 (V i j k l)) = (of_nat (quad_number i j k l div 2 ^ 16) :: byte)"
    "ucast (drop_bit 8 (V i j k l)) = (of_nat (quad_number i j k l div 2 ^ 8) :: byte)"
    "ucast (V i j k l) = (of_nat (quad_number i j k l) :: byte)" if "i < 64" "j < 64" "k < 64" "l < 64" for i j k l
    using quad_value [OF that] by (simp_all only: unat_drop_bit cast_low_byte V_def)
  note d = bin_alphabet(1) [OF assms(1)] bin_alphabet(1) [OF assms(2)] bin_alphabet(1) [OF assms(3)] bin_alphabet(1) [OF assms(4)]
    bin_equals digit_not_ff [OF assms(1)] digit_not_ff [OF assms(2)] digit_not_ff [OF assms(3)] digit_not_ff [OF assms(4)] digit_not_ff [OF z]
    bin_alphabet(2) [OF assms(1)] bin_alphabet(2) [OF assms(2)] bin_alphabet(2) [OF assms(3)] bin_alphabet(2) [OF assms(4)]
  show "base64_decode_quad (alphabet ! i) (alphabet ! j) (alphabet ! k) (alphabet ! l) = Some (group_of_number (quad_number i j k l))"
    unfolding base64_decode_quad_def Let_def d V_def [symmetric] V [OF assms] group_of_number_def by (simp add: d)
  show "base64_decode_quad (alphabet ! i) (alphabet ! j) (alphabet ! k) 0x3d = Some (take 2 (group_of_number (quad_number i j k 0)))"
    unfolding base64_decode_quad_def Let_def d V_def [symmetric] V [OF assms(1-3) z] group_of_number_def by (simp add: d)
  show "base64_decode_quad (alphabet ! i) (alphabet ! j) 0x3d 0x3d = Some (take 1 (group_of_number (quad_number i j 0 0)))"
    unfolding base64_decode_quad_def Let_def d V_def [symmetric] V [OF assms(1,2) z z] group_of_number_def by (simp add: d)
qed

text \<open>Nothing else is a quad.\<close>

lemma quad_accepts:
  assumes "base64_decode_quad a b c d = Some bs"
  obtains i j k l where "i < 64" "j < 64" "k < 64" "l < 64" "a = alphabet ! i" "b = alphabet ! j" "c = alphabet ! k" "d = alphabet ! l"
  | i j k where "i < 64" "j < 64" "k < 64" "a = alphabet ! i" "b = alphabet ! j" "c = alphabet ! k" "d = 0x3d"
  | i j where "i < 64" "j < 64" "a = alphabet ! i" "b = alphabet ! j" "c = 0x3d" "d = 0x3d"
proof -
  have v: "base64_ascii_to_bin a \<noteq> 0xff" "base64_ascii_to_bin b \<noteq> 0xff" "base64_ascii_to_bin c \<noteq> 0xff" "base64_ascii_to_bin d \<noteq> 0xff"
    using assms by (auto simp: base64_decode_quad_def Let_def)
  have p: "(of_bool (a = 0x3d) * 8 + of_bool (b = 0x3d) * 4 + of_bool (c = 0x3d) * 2 + of_bool (d = 0x3d) :: nat) \<in> {0, 1, 3}"
    using assms unfolding base64_decode_quad_def Let_def by (metis insertCI option.distinct(1))
  have "a \<noteq> 0x3d" "b \<noteq> 0x3d" "c = 0x3d \<Longrightarrow> d = 0x3d"
    using p by (cases "a = 0x3d"; cases "b = 0x3d"; cases "c = 0x3d"; cases "d = 0x3d"; simp)+
  then show thesis
    using bin_valid [OF v(1)] bin_valid [OF v(2)] bin_valid [OF v(3)] bin_valid [OF v(4)] that by metis
qed

lemma length_group_of_number [simp]: "length (group_of_number n) = 3"
  by (simp add: group_of_number_def)

lemma decode_quads_text:
  "\<forall>d \<in> set ds. d < 64 \<Longrightarrow> pad < 3 \<Longrightarrow> (length ds + pad) mod 4 = 0 \<Longrightarrow>
   decode_quads (base64_text ds pad) out = (True, out @ digit_bytes ds)"
proof (induction ds arbitrary: out rule: digit_bytes.induct)
  case (1 i j k l rest)
  have "(length rest + pad) mod 4 = 0" using 1(4) by simp
  then have "decode_quads (base64_text rest pad) (out @ group_of_number (quad_number i j k l)) = (True, out @ digit_bytes (i # j # k # l # rest))"
    using 1 by simp
  moreover have "base64_text (i # j # k # l # rest) pad = alphabet ! i # alphabet ! j # alphabet ! k # alphabet ! l # base64_text rest pad"
    by (simp add: base64_text_def)
  ultimately show ?case using 1 by (simp add: quad_digits)
next
  case (2 i j k)
  then have "pad \<in> {0, 1, 2}" by auto
  then have "pad = 1" using 2(3) by auto
  then show ?case using 2 by (simp add: base64_text_def quad_digits(2) [of i j k 0])
next
  case (3 i j)
  then have "pad \<in> {0, 1, 2}" by auto
  then have "pad = 2" using 3(3) by (auto simp: numeral_2_eq_2 [symmetric] numeral_3_eq_3 [symmetric])
  then show ?case using 3 by (simp add: base64_text_def quad_digits(3) [of i j 0 0] numeral_2_eq_2)
next
  case "4_1"
  then have "pad \<in> {0, 1, 2}" by auto
  then have "pad = 0" using "4_1"(3) by auto
  then show ?case by (simp add: base64_text_def)
next
  case "4_2"
  then have "pad \<in> {0, 1, 2}" by auto
  then show ?case using "4_2"(3) by (auto simp: numeral_2_eq_2 [symmetric] numeral_3_eq_3 [symmetric])
qed

lemma decode_quads_accepts:
  "decode_quads inp out = (True, out') \<Longrightarrow>
   \<exists>ds pad. inp = base64_text ds pad \<and> base64_digits ds pad \<and> out' = out @ digit_bytes ds"
proof (induction inp out rule: decode_quads.induct)
  case (1 a b c d rest out)
  obtain bs where q: "base64_decode_quad a b c d = Some bs" using 1(2) by (auto split: option.splits)
  show ?case
    using q
  proof (cases rule: quad_accepts)
    case (1 i j k l)
    then have bs: "bs = group_of_number (quad_number i j k l)" using q quad_digits(1) [of i j k l] by simp
    have "decode_quads rest (out @ bs) = (True, out')" using \<open>decode_quads _ _ = _\<close> q bs by simp
    then obtain ds pad where r: "rest = base64_text ds pad" "base64_digits ds pad" "out' = (out @ bs) @ digit_bytes ds"
      using "1.IH" q bs by auto
    have "a # b # c # d # rest = base64_text (i # j # k # l # ds) pad" using 1 r(1) by (simp add: base64_text_def)
    moreover have "base64_digits (i # j # k # l # ds) pad" using 1(1-4) r(2) by (simp add: base64_digits_def)
    moreover have "out' = out @ digit_bytes (i # j # k # l # ds)" using r(3) bs by simp
    ultimately show ?thesis by blast
  next
    case (2 i j k)
    then have bs: "bs = take 2 (group_of_number (quad_number i j k 0))" using q quad_digits(2) [of i j k 0] by simp
    then have "length bs \<noteq> 3" by simp
    then have "rest = []" "out' = out @ bs" using \<open>decode_quads _ _ = _\<close> q by (auto split: if_splits)
    then show ?thesis using 2 bs by (intro exI [of _ "[i, j, k]"] exI [of _ 1]) (simp add: base64_text_def base64_digits_def)
  next
    case (3 i j)
    then have bs: "bs = take 1 (group_of_number (quad_number i j 0 0))" using q quad_digits(3) [of i j 0 0] by simp
    then have "length bs \<noteq> 3" by simp
    then have "rest = []" "out' = out @ bs" using \<open>decode_quads _ _ = _\<close> q by (auto split: if_splits)
    then show ?thesis using 3 bs by (intro exI [of _ "[i, j]"] exI [of _ 2]) (simp add: base64_text_def base64_digits_def numeral_2_eq_2)
  qed
next
  case (2 out)
  then show ?case by (intro exI [of _ "[]"] exI [of _ 0]) (simp add: base64_text_def base64_digits_def)
qed simp_all

section \<open>Encodings are accepted\<close>

fun source_digits :: "bytes \<Rightarrow> nat list" where
  "source_digits [] = []"
| "source_digits [a] = take 2 (four_digits (unat a * 2 ^ 16))"
| "source_digits [a, b] = take 3 (four_digits (unat a * 2 ^ 16 + unat b * 2 ^ 8))"
| "source_digits (a # b # c # rest) = four_digits (unat a * 2 ^ 16 + unat b * 2 ^ 8 + unat c) @ source_digits rest"

definition source_padding :: "bytes \<Rightarrow> nat" where
  "source_padding src = (3 - length src mod 3) mod 3"

lemma padding_step: "source_padding (a # b # c # rest) = source_padding rest"
proof -
  have "length (a # b # c # rest) = length rest + 3" by simp
  then have "length (a # b # c # rest) mod 3 = length rest mod 3" by (simp only: mod_add_self2)
  then show ?thesis by (simp only: source_padding_def)
qed

lemma padding_short: "source_padding [] = 0" "source_padding [a] = 2" "source_padding [a, b] = 1"
  by (simp_all add: source_padding_def)

lemma replicate_2: "replicate 2 x = [x, x]"
  by (simp add: numeral_2_eq_2)

lemma rfc4648_text: "rfc4648 src = base64_text (source_digits src) (source_padding src)"
  by (induction src rule: rfc4648.induct)
    (simp_all only: rfc4648.simps source_digits.simps base64_text_def padding_step padding_short replicate_2 list.map append.simps
      replicate_0 map_append append_assoc One_nat_def replicate_Suc)

lemma four_digits_value:
  assumes "n < 2 ^ 24"
  shows "\<exists>i j k l. four_digits n = [i, j, k, l] \<and> i < 64 \<and> j < 64 \<and> k < 64 \<and> l < 64 \<and> quad_number i j k l = n"
proof -
  have "n div 64 * 64 + n mod 64 = n" by (rule div_mult_mod_eq)
  moreover have "n div 4096 * 64 + n div 64 mod 64 = n div 64"
    using div_mult_mod_eq [of "n div 64" 64] by (simp add: div_mult2_eq [symmetric])
  moreover have "n div 262144 * 64 + n div 4096 mod 64 = n div 4096"
    using div_mult_mod_eq [of "n div 4096" 64] by (simp add: div_mult2_eq [symmetric])
  ultimately have "n div 262144 * 262144 + (n div 4096 mod 64 * 4096 + (n div 64 mod 64 * 64 + n mod 64)) = n" by linarith
  moreover have "n div 262144 < 64" using assms by (intro less_mult_imp_div_less) simp
  ultimately show ?thesis by (simp add: four_digits_def quad_number_def)
qed

lemma group_less: "unat a * 2 ^ 16 + unat b * 2 ^ 8 + unat c < 2 ^ 24" for a b c :: byte
  by (simp, use byte_less [of a] byte_less [of b] byte_less [of c] in linarith)

lemma group_of_number_group: "group_of_number (unat a * 2 ^ 16 + unat b * 2 ^ 8 + unat c) = [a, b, c]" for a b c :: byte
proof -
  let ?n = "unat a * 2 ^ 16 + unat b * 2 ^ 8 + unat c"
  have less: "?n < 2 ^ 16 * Suc (unat a)" "?n < 2 ^ 8 * Suc (unat a * 256 + unat b)"
    by (simp_all, use byte_less [of b] byte_less [of c] in linarith)
  have "?n div 2 ^ 16 = unat a" by (rule div_nat_eqI [OF _ less(1)]) simp
  moreover have "?n div 2 ^ 8 = unat a * 256 + unat b" by (rule div_nat_eqI [OF _ less(2)]) simp
  moreover have "(of_nat (unat a * 256 + unat b) :: byte) = b" by (simp add: word_unat_eq_iff unat_word_ariths)
  moreover have "(of_nat ?n :: byte) = c" by (simp add: word_unat_eq_iff unat_word_ariths)
  ultimately show ?thesis by (simp only: group_of_number_def) simp
qed

lemma low_digits_zero:
  "four_digits (x * 2 ^ 16) = [i, j, k, l] \<Longrightarrow> k = 0 \<and> l = 0"
  "four_digits (x * 2 ^ 16 + y * 2 ^ 8) = [i, j, k, l] \<Longrightarrow> l = 0"
proof -
  have "x * 2 ^ 16 div 2 ^ 6 = x * 2 ^ 10" by (rule div_nat_eqI) simp_all
  then show "four_digits (x * 2 ^ 16) = [i, j, k, l] \<Longrightarrow> k = 0 \<and> l = 0"
    unfolding four_digits_def by (auto simp: mod_eq_0_iff_dvd)
  show "four_digits (x * 2 ^ 16 + y * 2 ^ 8) = [i, j, k, l] \<Longrightarrow> l = 0"
    unfolding four_digits_def by (auto simp: mod_eq_0_iff_dvd)
qed

lemma source_digits_ok: "base64_digits (source_digits src) (source_padding src) \<and> digit_bytes (source_digits src) = src"
proof (induction src rule: source_digits.induct)
  case 1
  then show ?case by (simp add: base64_digits_def source_padding_def)
next
  case (2 a)
  have "unat a * 2 ^ 16 < 2 ^ 24" using group_less [of a 0 0] by simp
  from four_digits_value [OF this] obtain i j k l
    where d: "four_digits (unat a * 2 ^ 16) = [i, j, k, l]" "i < 64" "j < 64" "quad_number i j k l = unat a * 2 ^ 16" by auto
  have "digit_bytes [i, j] = [a]" using low_digits_zero(1) [OF d(1)] d(4) group_of_number_group [of a 0 0] by simp
  then show ?case using d(1-3) by (simp add: base64_digits_def padding_short take_digits)
next
  case (3 a b)
  have "unat a * 2 ^ 16 + unat b * 2 ^ 8 < 2 ^ 24" using group_less [of a b 0] by simp
  from four_digits_value [OF this] obtain i j k l
    where d: "four_digits (unat a * 2 ^ 16 + unat b * 2 ^ 8) = [i, j, k, l]" "i < 64" "j < 64" "k < 64"
      "quad_number i j k l = unat a * 2 ^ 16 + unat b * 2 ^ 8" by auto
  have "digit_bytes [i, j, k] = [a, b]" using low_digits_zero(2) [OF d(1)] d(5) group_of_number_group [of a b 0] by simp
  then show ?case using d(1-4) by (simp add: base64_digits_def padding_short take_digits)
next
  case (4 a b c rest)
  from four_digits_value [OF group_less [of a b c]] obtain i j k l
    where d: "four_digits (unat a * 2 ^ 16 + unat b * 2 ^ 8 + unat c) = [i, j, k, l]" "i < 64" "j < 64" "k < 64" "l < 64"
      "quad_number i j k l = unat a * 2 ^ 16 + unat b * 2 ^ 8 + unat c" by blast
  have "digit_bytes (source_digits (a # b # c # rest)) = a # b # c # rest"
    using 4 by (simp only: source_digits.simps d(1,6) append.simps digit_bytes.simps group_of_number_group)
  moreover have "base64_digits (source_digits (a # b # c # rest)) (source_padding (a # b # c # rest))"
    unfolding source_digits.simps d(1) padding_step using 4 d(2-5) by (simp add: base64_digits_def)
  ultimately show ?case by blast
qed

section \<open>The streaming encoder\<close>

text \<open>Lines of 48 bytes, and a last line of what is left.\<close>

definition pem_line :: "bytes \<Rightarrow> bytes \<Rightarrow> bytes" where
  "pem_line out block = out @ rfc4648 block @ [0xa]"

definition pem_lines :: "bytes \<Rightarrow> bytes" where
  "pem_lines M = chain pem_line 48 [] M"

definition pem_text :: "bytes \<Rightarrow> bytes" where
  "pem_text M = pem_lines M @ (if residue 48 M = [] then [] else rfc4648 (residue 48 M) @ [0xa])"

definition encodes :: "bytes \<Rightarrow> evp_encode_ctx \<Rightarrow> bool" where
  "encodes M ctx \<longleftrightarrow> data_used ctx = length (residue 48 M) \<and> take (data_used ctx) (ctx_data ctx) = residue 48 M \<and> length (ctx_data ctx) = 48"

lemma chain_pem_line: "chain pem_line 48 out M = out @ pem_lines M"
proof (induction "length M" arbitrary: M out rule: less_induct)
  case less
  show ?case
  proof (cases "length M < 48")
    case True
    then show ?thesis by (simp add: pem_lines_def chain_short)
  next
    case False
    then have IH: "chain pem_line 48 out' (drop 48 M) = out' @ pem_lines (drop 48 M)" for out' using less by simp
    have "chain pem_line 48 h M = chain pem_line 48 (pem_line h (take 48 M)) (drop 48 M)" for h
      using False by (simp add: chain_step)
    from this [of out] this [of "[]"] show ?thesis by (simp add: IH pem_lines_def [of M]) (simp add: pem_line_def)
  qed
qed

lemma pem_lines_append: "pem_lines (M @ N) = pem_lines M @ pem_lines (residue 48 M @ N)"
  using chain_residue [of 48 pem_line "[]" M N] by (simp add: chain_pem_line)

lemma pem_lines_short: "length M < 48 \<Longrightarrow> pem_lines M = []"
  by (simp add: pem_lines_def chain_short)

lemma pem_lines_step: "48 \<le> length M \<Longrightarrow> pem_lines M = rfc4648 (take 48 M) @ [0xa] @ pem_lines (drop 48 M)"
proof -
  assume "48 \<le> length M"
  then have "pem_lines M = chain pem_line 48 (pem_line [] (take 48 M)) (drop 48 M)" by (simp add: pem_lines_def [of M] chain_step)
  then show ?thesis by (simp only: chain_pem_line pem_line_def append_assoc append.simps)
qed

lemma encode_line_value: "length block \<le> 48 \<Longrightarrow> encode_line block = (rfc4648 block @ [0xa], length (rfc4648 block))"
proof -
  assume "length block \<le> 48"
  then have "(length block + 2) div 3 \<le> 50 div 3" by (intro div_le_mono) simp
  then have "length (rfc4648 block) < SIZE_LIMIT" by (simp add: length_rfc4648 SIZE_LIMIT_def)
  then show ?thesis by (simp add: encode_line_def encode_block_value)
qed

lemma length_line: "length block = 48 \<Longrightarrow> length (rfc4648 block) = 64"
  by (simp add: length_rfc4648)

lemma encode_lines_value:
  "length out + 2 * length inp < SIZE_LIMIT \<Longrightarrow>
   encode_lines inp out (length out) = (out @ pem_lines inp, Some (length (out @ pem_lines inp), residue 48 inp))"
proof (induction "length inp" arbitrary: inp out rule: less_induct)
  case less
  show ?case
  proof (cases "48 \<le> length inp")
    case False
    then show ?thesis by (simp add: encode_lines.simps [of inp] pem_lines_short residue_short)
  next
    case True
    let ?l = "rfc4648 (take 48 inp)"
    have l: "encode_line (take 48 inp) = (?l @ [0xa], 64)" "length ?l = 64"
      using True encode_line_value [of "take 48 inp"] length_line [of "take 48 inp"] by simp_all
    have "size_add (size_add (length out) 64) 1 = length out + 65" using less.prems True by (simp add: size_add_exact)
    then have "encode_lines inp out (length out) = encode_lines (drop 48 inp) (out @ ?l @ [0xa]) (length (out @ ?l @ [0xa]))"
      using True l by (simp add: encode_lines.simps [of inp])
    also have "\<dots> = ((out @ ?l @ [0xa]) @ pem_lines (drop 48 inp),
        Some (length ((out @ ?l @ [0xa]) @ pem_lines (drop 48 inp)), residue 48 (drop 48 inp)))"
      using less.prems True l(2) by (intro less.hyps) simp_all
    finally show ?thesis using True pem_lines_step [OF True] residue_drop [OF True] by simp
  qed
qed

lemma encode_update:
  assumes rep: "encodes M ctx" and small: "2 * length inp + 100 < SIZE_LIMIT"
    and run: "EVP_EncodeUpdate ctx inp = (out, n, ctx')"
  shows "encodes (M @ inp) ctx'" and "pem_lines (M @ inp) = pem_lines M @ out"
    and "n = (if INT_MAX < length out then 0 else length out)"
proof -
  let ?R = "residue 48 M"
  have used: "data_used ctx = length ?R" "take (length ?R) (ctx_data ctx) = ?R" "length (ctx_data ctx) = 48" and R: "length ?R < 48"
    using rep length_residue [of 48 M] by (auto simp: encodes_def)
  have res: "residue 48 (M @ inp) = residue 48 (?R @ inp)" by (rule residue_append) simp
  have "encodes (M @ inp) ctx' \<and> out = pem_lines (?R @ inp) \<and> n = (if INT_MAX < length out then 0 else length out)"
  proof (cases "inp = [] \<or> length inp < 48 - data_used ctx")
    case True
    then have short: "length (?R @ inp) < 48" using used(1) R by auto
    then have res': "residue 48 (M @ inp) = ?R @ inp" "pem_lines (?R @ inp) = []" unfolding res by (simp_all add: residue_short pem_lines_short)
    show ?thesis
    proof (cases "inp = []")
      case True
      then show ?thesis using run rep res'(2) by (simp add: EVP_EncodeUpdate_def)
    next
      case False
      then have c: "length inp < 48 - data_used ctx" using True by simp
      have "EVP_EncodeUpdate ctx inp =
          ([], 0, ctx\<lparr>ctx_data := memcpy_at (ctx_data ctx) (data_used ctx) inp, data_used := data_used ctx + length inp\<rparr>)"
        unfolding EVP_EncodeUpdate_def using False c by simp
      then have "out = []" "n = 0" "ctx' = ctx\<lparr>ctx_data := memcpy_at (ctx_data ctx) (length ?R) inp, data_used := length ?R + length inp\<rparr>"
        using run used(1) by simp_all
      then show ?thesis using used short res'
          take_memcpy_at [of "length ?R" "ctx_data ctx" inp] length_memcpy_at [of "length ?R" inp "ctx_data ctx"]
        by (simp add: encodes_def)
    qed
  next
    case False
    let ?todo = "48 - length ?R"
    define first where "first = (if ?R = [] then [] else rfc4648 (?R @ take ?todo inp) @ [0xa])"
    define rest where "rest = (if ?R = [] then inp else drop ?todo inp)"
    have len: "?todo \<le> length inp" using False used(1) by simp
    have full: "memcpy_at (ctx_data ctx) (length ?R) (take ?todo inp) = ?R @ take ?todo inp"
      using memcpy_at_full [of "length ?R" "take ?todo inp" "ctx_data ctx"] used R len by simp
    have line: "encode_line (?R @ take ?todo inp) = (rfc4648 (?R @ take ?todo inp) @ [0xa], 64)" "length (rfc4648 (?R @ take ?todo inp)) = 64"
      using encode_line_value [of "?R @ take ?todo inp"] length_line [of "?R @ take ?todo inp"] R len by simp_all
    have split: "pem_lines (?R @ inp) = first @ pem_lines rest" "residue 48 (?R @ inp) = residue 48 rest"
    proof -
      have "take 48 (?R @ inp) = ?R @ take ?todo inp" "drop 48 (?R @ inp) = drop ?todo inp" "48 \<le> length (?R @ inp)"
        using R len by simp_all
      then show "pem_lines (?R @ inp) = first @ pem_lines rest" "residue 48 (?R @ inp) = residue 48 rest"
        using pem_lines_step [of "?R @ inp"] residue_drop [of 48 "?R @ inp"]
        by (cases "?R = []"; simp add: first_def rest_def)+
    qed
    define ctx1 where "ctx1 = (if ?R = [] then ctx else ctx\<lparr>ctx_data := ?R @ take ?todo inp, data_used := 0\<rparr>)"
    have ctx1: "length (ctx_data ctx1) = 48" using used(3) R len by (simp add: ctx1_def)
    have start: "(if data_used ctx \<noteq> 0
           then
             (let todo = 48 - data_used ctx;
                  ctx = ctx\<lparr>ctx_data := memcpy_at (ctx_data ctx) (data_used ctx) (take todo inp), data_used := 0\<rparr>
              in case encode_line (ctx_data ctx) of (line, encoded) \<Rightarrow> (line, size_add encoded 1, drop todo inp, ctx))
           else ([], 0, inp, ctx)) = (first, length first, rest, ctx1)"
      using used full line R len by (cases "?R = []") (simp_all add: ctx1_def first_def rest_def size_add_exact SIZE_LIMIT_def Let_def)
    have "length first + 2 * length rest < SIZE_LIMIT" using small line(2) by (auto simp: first_def rest_def)
    note lines = encode_lines_value [OF this]
    have call: "out = first @ pem_lines rest" "n = (if INT_MAX < length out then 0 else length out)"
      "ctx' = (if residue 48 rest \<noteq> [] then ctx1\<lparr>ctx_data := memcpy_at (ctx_data ctx1) 0 (residue 48 rest)\<rparr> else ctx1)
         \<lparr>data_used := length (residue 48 rest)\<rparr>"
      using run False unfolding EVP_EncodeUpdate_def start by (auto simp: lines Let_def)
    have "length (residue 48 rest) < 48" by (simp add: length_residue)
    then have "encodes (M @ inp) ctx'"
      using ctx1 take_memcpy_at [of 0 "ctx_data ctx1" "residue 48 rest"] length_memcpy_at [of 0 "residue 48 rest" "ctx_data ctx1"]
      by (simp add: encodes_def res split call(3))
    then show ?thesis using call split by simp
  qed
  then show "encodes (M @ inp) ctx'" and "pem_lines (M @ inp) = pem_lines M @ out"
    and "n = (if INT_MAX < length out then 0 else length out)"
    using pem_lines_append [of M inp] by simp_all
qed

section \<open>The streaming decoder\<close>

definition white :: "byte \<Rightarrow> bool" where
  "white c \<longleftrightarrow> c = 0x20 \<or> c = 0x9 \<or> c = 0xd \<or> c = 0xa"

lemma decode_update_loop_filter: "decode_update_loop inp out ctx = decode_update_loop (filter (\<lambda>c. \<not> white c) inp) out ctx"
proof (induction inp arbitrary: out ctx)
  case (Cons c inp)
  show ?case
  proof (cases "white c")
    case True
    then have "decode_update_loop (c # inp) out ctx = decode_update_loop inp out ctx" by (simp only: decode_update_loop.simps white_def if_True)
    then show ?thesis using Cons True by simp
  next
    case False
    let ?f = "filter (\<lambda>c. \<not> white c)"
    have eq: "decode_update_loop inp out' ctx' = decode_update_loop (?f inp) out' ctx'" for out' ctx' by (rule Cons)
    have "\<not> (c = 0x20 \<or> c = 0x9 \<or> c = 0xd \<or> c = 0xa)" using False by (simp add: white_def)
    then show ?thesis using False by (simp only: decode_update_loop.simps filter.simps if_False if_True not_False_eq_True Let_def eq)
  qed
qed simp

lemma decode_update_loop_append:
  "decode_update_loop (xs @ ys) out ctx =
     (case decode_update_loop xs out ctx of (ok, out', ctx') \<Rightarrow> if ok then decode_update_loop ys out' ctx' else (ok, out', ctx'))"
  by (induction xs out ctx rule: decode_update_loop.induct) (auto simp: Let_def split: option.splits)

lemma decode_update_loop_out:
  "decode_update_loop inp out ctx = (case decode_update_loop inp [] ctx of (ok, out', ctx') \<Rightarrow> (ok, out @ out', ctx'))"
proof (induction inp arbitrary: out ctx)
  case (Cons c inp)
  have eq: "decode_update_loop inp (x @ y) ctx' = (case decode_update_loop inp y ctx' of (ok, out', ctx') \<Rightarrow> (ok, x @ out', ctx'))" for x y ctx'
    using Cons [of "x @ y" ctx'] Cons [of y ctx'] by (auto split: prod.splits)
  show ?case using eq [of out "[]"] eq [of out] by (auto simp: Let_def split: option.splits prod.splits)
qed simp

definition fresh :: "evp_encode_ctx \<Rightarrow> bool" where
  "fresh ctx \<longleftrightarrow> data_used ctx = 0 \<and> 4 \<le> length (ctx_data ctx)"

lemma decode_update_loop_quad:
  assumes "\<not> white a" "\<not> white b" "\<not> white c" "\<not> white d" and "fresh ctx" and "\<not> eof_seen ctx"
  shows "\<exists>ctx'. fresh ctx' \<and> error_encountered ctx' = error_encountered ctx \<and>
    decode_update_loop (a # b # c # d # rest) out ctx =
      (case base64_decode_quad a b c d of
         None \<Rightarrow> (False, out, ctx'\<lparr>data_used := 4, error_encountered := True\<rparr>)
       | Some bs \<Rightarrow> decode_update_loop rest (out @ bs) (ctx'\<lparr>eof_seen := length bs < 3\<rparr>))"
proof -
  let ?D = "(ctx_data ctx)[0 := a, 1 := b, 2 := c, 3 := d]"
  have "ctx_data ctx \<noteq> []" using assms(5) by (auto simp: fresh_def)
  then have nth: "?D ! 0 = a" "?D ! 1 = b" "?D ! 2 = c" "?D ! 3 = d" using assms(5) by (simp_all add: fresh_def)
  let ?c = "ctx\<lparr>ctx_data := ?D, data_used := 0\<rparr>"
  have "decode_update_loop (a # b # c # d # rest) out ctx =
      (case base64_decode_quad a b c d of
         None \<Rightarrow> (False, out, ?c\<lparr>data_used := 4, error_encountered := True\<rparr>)
       | Some bs \<Rightarrow> decode_update_loop rest (out @ bs) (?c\<lparr>eof_seen := length bs < 3\<rparr>))"
    using assms nth by (cases ctx) (auto simp: white_def fresh_def Let_def numeral_2_eq_2 numeral_3_eq_3 split: option.splits)
  then show ?thesis using assms(5) by (intro exI [of _ ?c]) (simp add: fresh_def)
qed

lemma length_quad: "base64_decode_quad a b c d = Some bs \<Longrightarrow> length bs \<le> 3"
  by (auto simp: base64_decode_quad_def Let_def split: if_splits)

lemma decode_update_loop_tail:
  assumes "\<forall>x \<in> set S. \<not> white x" and "length S < 4" and "fresh ctx"
  shows "\<exists>ok ctx'. decode_update_loop S out ctx = (ok, out, ctx') \<and> (ok \<longrightarrow> error_encountered ctx' = error_encountered ctx \<and>
    data_used ctx' = length S)"
proof -
  consider "S = []" | a where "S = [a]" | a b where "S = [a, b]" | a b c where "S = [a, b, c]"
    using assms(2) that by (auto simp: numeral_eq_Suc less_Suc_eq length_Suc_conv)
  then show ?thesis using assms(1,3) by cases (auto simp: white_def fresh_def Let_def numeral_2_eq_2)
qed

text \<open>The loop of the stream goes over the quads as the loop of one block does.\<close>

lemma decode_update_loop_quads:
  "\<forall>x \<in> set S. \<not> white x \<Longrightarrow> fresh ctx \<Longrightarrow> \<not> eof_seen ctx \<Longrightarrow> decode_update_loop S out ctx = (ok, out', ctx') \<Longrightarrow>
   (ok \<and> data_used ctx' = 0 \<longleftrightarrow> fst (decode_quads S out)) \<and> (fst (decode_quads S out) \<longrightarrow> out' = snd (decode_quads S out)) \<and>
   (ok \<longrightarrow> error_encountered ctx' = error_encountered ctx) \<and> (\<not> ok \<longrightarrow> error_encountered ctx')"
proof (induction S out arbitrary: ctx rule: decode_quads.induct)
  case (1 a b c d rest out)
  obtain ctx1 where c: "fresh ctx1" "error_encountered ctx1 = error_encountered ctx"
    and step: "decode_update_loop (a # b # c # d # rest) out ctx =
      (case base64_decode_quad a b c d of
         None \<Rightarrow> (False, out, ctx1\<lparr>data_used := 4, error_encountered := True\<rparr>)
       | Some bs \<Rightarrow> decode_update_loop rest (out @ bs) (ctx1\<lparr>eof_seen := length bs < 3\<rparr>))"
    using decode_update_loop_quad [of a b c d ctx rest out] 1(2,3,4) by auto
  show ?case
  proof (cases "base64_decode_quad a b c d")
    case None
    then show ?thesis using step 1(5) by auto
  next
    case (Some bs)
    let ?c = "ctx1\<lparr>eof_seen := length bs < 3\<rparr>"
    have run: "decode_update_loop rest (out @ bs) ?c = (ok, out', ctx')" using step Some 1(5) by simp
    have len: "length bs \<le> 3" using Some by (rule length_quad)
    show ?thesis
    proof (cases "length bs = 3 \<or> rest = []")
      case True
      show ?thesis
      proof (cases "rest = []")
        case True
        then show ?thesis using run Some c by (auto simp: fresh_def)
      next
        case False
        then have "length bs = 3" using True by simp
        then show ?thesis using "1.IH" [OF Some, of ?c] 1(2) c run Some False by (simp add: fresh_def)
      qed
    next
      case False
      then obtain x xs where r: "rest = x # xs" by (cases rest) auto
      have "\<not> white x" using 1(2) r by simp
      moreover have "eof_seen ?c" using False len by simp
      ultimately have "decode_update_loop rest (out @ bs) ?c = (False, out @ bs, ?c\<lparr>error_encountered := True\<rparr>)"
        by (simp add: r white_def)
      then show ?thesis using run Some False by auto
    qed
  qed
next
  case (2 out)
  then show ?case by (auto simp: fresh_def)
qed (use decode_update_loop_tail in \<open>force simp: fresh_def white_def Let_def numeral_2_eq_2\<close>)+

section \<open>Whole streams\<close>

text \<open>The text of the pieces given to \<open>EVP_EncodeUpdate\<close>, and the bytes of the pieces given to \<open>EVP_DecodeUpdate\<close>.\<close>

fun encode_run :: "evp_encode_ctx \<Rightarrow> bytes list \<Rightarrow> bytes" where
  "encode_run ctx [] = (case EVP_EncodeFinal ctx of (out, n, _) \<Rightarrow> take n out)"
| "encode_run ctx (p # ps) = (case EVP_EncodeUpdate ctx p of (out, n, ctx) \<Rightarrow> take n out @ encode_run ctx ps)"

fun decode_run :: "evp_encode_ctx \<Rightarrow> bytes list \<Rightarrow> bytes option" where
  "decode_run ctx [] = (if fst (EVP_DecodeFinal ctx) = 1 then Some [] else None)"
| "decode_run ctx (q # qs) =
     (case EVP_DecodeUpdate ctx q of
        (ret, out, n, ctx) \<Rightarrow> if ret < 0 then None else map_option ((@) (take n out)) (decode_run ctx qs))"

lemma length_pem_lines: "length (pem_lines M) \<le> 2 * length M"
proof (induction "length M" arbitrary: M rule: less_induct)
  case less
  show ?case
  proof (cases "48 \<le> length M")
    case True
    then have "length (pem_lines (drop 48 M)) \<le> 2 * length (drop 48 M)" by (intro less) simp
    then show ?thesis using True by (simp add: pem_lines_step length_line)
  qed (simp add: pem_lines_short)
qed

lemma encode_run_text:
  "encodes M ctx \<Longrightarrow> length (M @ concat ps) < 2 ^ 30 \<Longrightarrow> pem_lines M @ encode_run ctx ps = pem_text (M @ concat ps)"
proof (induction ps arbitrary: M ctx)
  case Nil
  let ?R = "residue 48 M"
  have R: "data_used ctx = length ?R" "take (data_used ctx) (ctx_data ctx) = ?R" using Nil(1) by (auto simp: encodes_def)
  have l: "length ?R \<le> 48" by (simp add: length_residue less_imp_le)
  have "length (rfc4648 ?R) + 1 < SIZE_LIMIT"
  proof -
    have "(length ?R + 2) div 3 \<le> 50 div 3" using l by (intro div_le_mono) simp
    then show ?thesis by (simp add: length_rfc4648 SIZE_LIMIT_def)
  qed
  then show ?case using R encode_line_value [OF l] by (simp add: EVP_EncodeFinal_def pem_text_def size_add_exact)
next
  case (Cons p ps)
  obtain out n ctx' where run: "EVP_EncodeUpdate ctx p = (out, n, ctx')" by (metis prod_cases3)
  have small: "2 * length p + 100 < SIZE_LIMIT" using Cons(3) by (simp add: SIZE_LIMIT_def)
  note u = encode_update [OF Cons(2) small run]
  have "length out \<le> length (pem_lines (M @ p))" using u(2) by simp
  also have "\<dots> \<le> 2 * length (M @ p)" by (rule length_pem_lines)
  finally have "n = length out" using u(3) Cons(3) by (simp add: INT_MAX_def split: if_splits)
  moreover have "pem_lines (M @ p) @ encode_run ctx' ps = pem_text ((M @ p) @ concat ps)"
    using Cons(3) by (intro Cons.IH [OF u(1)]) simp
  ultimately show ?case using run u(2) by simp
qed

lemma decode_update_loop_bounds:
  "decode_update_loop inp out ctx = (ok, out', ctx') \<Longrightarrow> data_used ctx < 4 \<Longrightarrow>
   length out' + (if ok then data_used ctx' else 0) \<le> length out + length inp + data_used ctx \<and>
   (ok \<longrightarrow> data_used ctx' < 4 \<and> error_encountered ctx' = error_encountered ctx)"
proof (induction inp arbitrary: out ctx)
  case (Cons c inp)
  let ?ctx = "ctx\<lparr>ctx_data := (ctx_data ctx)[data_used ctx := c], data_used := data_used ctx + 1\<rparr>"
  let ?quad = "base64_decode_quad (ctx_data ?ctx ! 0) (ctx_data ?ctx ! 1) (ctx_data ?ctx ! 2) (ctx_data ?ctx ! 3)"
  let ?after = "\<lambda>bs. (if length bs < 3 then ?ctx\<lparr>data_used := 0, eof_seen := True\<rparr> else ?ctx\<lparr>data_used := 0\<rparr>)"
  have stepped: "decode_update_loop (c # inp) out ctx =
      (if white c then decode_update_loop inp out ctx
       else if eof_seen ctx then (False, out, ctx\<lparr>error_encountered := True\<rparr>)
       else if data_used ?ctx = 4
       then (case ?quad of None \<Rightarrow> (False, out, ?ctx\<lparr>error_encountered := True\<rparr>) | Some bs \<Rightarrow> decode_update_loop inp (out @ bs) (?after bs))
       else decode_update_loop inp out ?ctx)"
    by (simp add: white_def Let_def cong: if_cong option.case_cong)
  consider (white) "white c" | (late) "\<not> white c" "eof_seen ctx" | (bad) "\<not> white c" "\<not> eof_seen ctx" "data_used ?ctx = 4" "?quad = None"
    | (quad) bs where "\<not> white c" "\<not> eof_seen ctx" "data_used ?ctx = 4" "?quad = Some bs"
    | (more) "\<not> white c" "\<not> eof_seen ctx" "data_used ?ctx \<noteq> 4" by blast
  then show ?case
  proof cases
    case white
    then show ?thesis using Cons.IH [of out ctx] Cons.prems stepped by auto
  next
    case quad
    have run: "decode_update_loop inp (out @ bs) (?after bs) = (ok, out', ctx')" using stepped quad Cons.prems(1) by simp
    have "data_used (?after bs) = 0" "error_encountered (?after bs) = error_encountered ctx" by simp_all
    then show ?thesis using Cons.IH [OF run] length_quad [OF quad(4)] quad(3) by auto
  next
    case more
    then have run: "decode_update_loop inp out ?ctx = (ok, out', ctx')" using stepped Cons.prems(1) by simp
    then show ?thesis using Cons.IH [OF run] Cons.prems(2) more(3) by simp
  qed (use Cons.prems stepped in auto)
qed auto

lemma decode_run_loop:
  "\<not> error_encountered ctx \<Longrightarrow> data_used ctx < 4 \<Longrightarrow> length (concat qs) < 2 ^ 30 \<Longrightarrow>
   decode_run ctx qs =
     (case decode_update_loop (concat qs) [] ctx of (ok, out, ctx') \<Rightarrow> if ok \<and> data_used ctx' = 0 then Some out else None)"
proof (induction qs arbitrary: ctx)
  case Nil
  then show ?case by (simp add: EVP_DecodeFinal_def)
next
  case (Cons q qs)
  obtain ok out ctx' where run: "decode_update_loop q [] ctx = (ok, out, ctx')" by (metis prod_cases3)
  note b = decode_update_loop_bounds [OF run Cons(3)]
  have all: "decode_update_loop (concat (q # qs)) [] ctx =
      (if ok then (case decode_update_loop (concat qs) [] ctx' of (ok, out', ctx') \<Rightarrow> (ok, out @ out', ctx')) else (ok, out, ctx'))"
    using decode_update_loop_append [of q "concat qs" "[]" ctx] decode_update_loop_out [of "concat qs" out ctx'] run by simp
  show ?case
  proof (cases ok)
    case True
    have "length out \<le> INT_MAX" using b Cons(3,4) True by (simp add: INT_MAX_def)
    then have "EVP_DecodeUpdate ctx q = (if eof_seen ctx' then 0 else 1, out, length out, ctx')"
      using run True Cons(2) by (simp add: EVP_DecodeUpdate_def)
    moreover have "decode_run ctx' qs = (case decode_update_loop (concat qs) [] ctx' of (ok, out, ctx') \<Rightarrow> if ok \<and> data_used ctx' = 0 then Some out else None)"
      using Cons b True by (intro Cons.IH) simp_all
    ultimately show ?thesis using all True by (auto split: prod.splits)
  next
    case False
    then show ?thesis using all run Cons(2) by (simp add: EVP_DecodeUpdate_def)
  qed
qed

lemma decode_run_exact:
  assumes "length (concat qs) < 2 ^ 30"
  shows "decode_run (EVP_DecodeInit ctx) qs = Some M \<longleftrightarrow>
    (\<exists>ds pad. filter (\<lambda>c. \<not> white c) (concat qs) = base64_text ds pad \<and> base64_digits ds pad \<and> M = digit_bytes ds)"
proof -
  let ?S = "filter (\<lambda>c. \<not> white c) (concat qs)" and ?c = "EVP_DecodeInit ctx"
  have c: "fresh ?c" "\<not> eof_seen ?c" "\<not> error_encountered ?c" "data_used ?c < 4" by (simp_all add: EVP_DecodeInit_def fresh_def)
  obtain ok out ctx' where run: "decode_update_loop ?S [] ?c = (ok, out, ctx')" by (metis prod_cases3)
  have "decode_update_loop (concat qs) [] ?c = (ok, out, ctx')" using decode_update_loop_filter [of "concat qs"] run by simp
  then have "decode_run ?c qs = (if ok \<and> data_used ctx' = 0 then Some out else None)"
    using decode_run_loop [OF c(3,4) assms] by simp
  moreover have "(ok \<and> data_used ctx' = 0 \<longleftrightarrow> fst (decode_quads ?S [])) \<and> (fst (decode_quads ?S []) \<longrightarrow> out = snd (decode_quads ?S []))"
    using decode_update_loop_quads [OF _ c(1,2) run] by auto
  ultimately have "decode_run ?c qs = Some M \<longleftrightarrow> decode_quads ?S [] = (True, M)"
    by (cases "decode_quads ?S []") auto
  then show ?thesis using decode_quads_accepts [of ?S "[]" M] decode_quads_text [where out = "[]"] by (auto simp: base64_digits_def)
qed

lemma rfc4648_append: "3 dvd length A \<Longrightarrow> rfc4648 (A @ B) = rfc4648 A @ rfc4648 B"
proof (induction A rule: rfc4648.induct)
  case (4 a b c rest)
  have "length (a # b # c # rest) = length rest + 3" by simp
  then have "3 dvd length rest" using 4(2) by (metis dvd_add_left_iff dvd_refl)
  then show ?case using 4(1) by (simp only: append.simps rfc4648.simps append_assoc)
next
  case (3 a b)
  have "\<not> 3 dvd (2 :: nat)" by simp
  then show ?case using 3 by (simp add: numeral_2_eq_2)
qed simp_all

lemma alphabet_not_white: "i < 64 \<Longrightarrow> \<not> white (alphabet ! i)"
proof
  assume i: "i < 64" and "white (alphabet ! i)"
  then have "alphabet ! i \<in> {0x20, 0x9, 0xd, 0xa}" by (auto simp: white_def)
  moreover have "alphabet ! i \<in> set alphabet" using i by (simp add: alphabet_nth(6))
  moreover have "set alphabet \<inter> {0x20, 0x9, 0xd, 0xa} = {}" by code_simp
  ultimately show False by blast
qed

lemma rfc4648_not_white: "filter (\<lambda>c. \<not> white c) (rfc4648 M) = rfc4648 M"
proof (rule filter_True)
  show "\<forall>x \<in> set (rfc4648 M). \<not> white x"
    using source_digits_ok [of M] alphabet_not_white
    by (auto simp: rfc4648_text base64_text_def base64_digits_def white_def)
qed

lemma pem_text_stripped: "filter (\<lambda>c. \<not> white c) (pem_text M) = rfc4648 M"
proof -
  have nl: "white 0xa" by (simp add: white_def)
  have "filter (\<lambda>c. \<not> white c) (pem_lines M) @ rfc4648 (residue 48 M) = rfc4648 M"
  proof (induction "length M" arbitrary: M rule: less_induct)
    case less
    show ?case
    proof (cases "48 \<le> length M")
      case True
      then have "filter (\<lambda>c. \<not> white c) (pem_lines (drop 48 M)) @ rfc4648 (residue 48 (drop 48 M)) = rfc4648 (drop 48 M)"
        by (intro less) simp
      moreover have "rfc4648 (take 48 M @ drop 48 M) = rfc4648 (take 48 M) @ rfc4648 (drop 48 M)"
        using True by (intro rfc4648_append) simp
      ultimately show ?thesis
        using True residue_drop [OF True] nl by (simp add: pem_lines_step rfc4648_not_white)
    qed (simp add: pem_lines_short residue_short)
  qed
  then show ?thesis using nl by (auto simp: pem_text_def rfc4648_not_white)
qed

lemma length_pem_text: "length (pem_text M) \<le> 2 * length M + 65"
proof -
  have "length (residue 48 M) \<le> 48" by (simp add: length_residue less_imp_le)
  then have "(length (residue 48 M) + 2) div 3 \<le> 50 div 3" by (intro div_le_mono) simp
  then show ?thesis using length_pem_lines [of M] by (simp add: pem_text_def length_rfc4648)
qed

section \<open>The properties\<close>

text \<open>
  C40: \<open>EVP_EncodeBlock\<close> computes the encoding of RFC 4648 and \<open>EVP_EncodedLength\<close> its exact size with the final NUL;
  \<open>EVP_DecodeBase64\<close> gives the bytes back.
\<close>

theorem base64_block_roundtrip:
  assumes "length src < SIZE_LIMIT" and "EVP_EncodedLength (length src) = Some n" and "n div 4 * 3 \<le> max_out"
  shows "EVP_EncodeBlock src = (rfc4648 src @ [0], length (rfc4648 src)) \<and> n = length (rfc4648 src @ [0]) \<and>
    EVP_DecodeBase64 max_out (rfc4648 src) = (True, src, length src)"
proof -
  have "(if length (rfc4648 src) + 1 < SIZE_LIMIT then Some (length (rfc4648 src) + 1) else None) = Some n"
    using assms(2) unfolding encoded_length_value [OF assms(1)] length_rfc4648 .
  then have n: "n = length (rfc4648 src) + 1" "length (rfc4648 src) + 1 < SIZE_LIMIT"
    by (metis option.inject option.distinct(1))+
  have four: "length (rfc4648 src) mod 4 = 0" unfolding length_rfc4648 by (rule mod_mult_self2_is_0)
  define L where "L = length (rfc4648 src)"
  have "L div 4 * 3 \<le> L" by linarith
  then have "L div 4 * 3 < SIZE_LIMIT" using n(2) unfolding L_def by linarith
  then have "EVP_DecodedLength L = Some (L div 4 * 3)" using four by (simp add: EVP_DecodedLength_def L_def)
  moreover have "n div 4 = L div 4"
  proof -
    have "(m * 4 + 1) div 4 = m" for m :: nat by simp
    then show ?thesis using n(1) by (simp only: L_def length_rfc4648)
  qed
  moreover have "decode_quads (rfc4648 src) [] = (True, src)"
    using decode_quads_text [of "source_digits src" "source_padding src" "[]"] source_digits_ok [of src]
    by (simp add: base64_digits_def rfc4648_text [symmetric])
  ultimately have "EVP_DecodeBase64 max_out (rfc4648 src) = (True, src, length src)"
    using four assms(3) unfolding EVP_DecodeBase64_def L_def [symmetric] by simp
  moreover have "EVP_EncodeBlock src = (rfc4648 src @ [0], length (rfc4648 src))" by (rule encode_block_value) (use n(2) in simp)
  ultimately show ?thesis using n(1) by simp
qed

theorem base64_block_roundtrip_witness:
  "EVP_EncodeBlock [0x4d, 0x61] = ([0x54, 0x57, 0x45, 0x3d, 0], 4) \<and>
   EVP_DecodeBase64 3 [0x54, 0x57, 0x45, 0x3d] = (True, [0x4d, 0x61], 2)"
proof -
  have r: "rfc4648 [0x4d, 0x61] = [0x54, 0x57, 0x45, 0x3d]" by (simp add: four_digits_def take_digits alphabet_nth)
  have "EVP_EncodedLength (length ([0x4d, 0x61] :: bytes)) = Some 5" by (simp add: encoded_length_value SIZE_LIMIT_def)
  moreover have "length ([0x4d, 0x61] :: bytes) < SIZE_LIMIT" "(5 :: nat) div 4 * 3 \<le> 3" by (simp_all add: SIZE_LIMIT_def)
  ultimately show ?thesis using base64_block_roundtrip [of "[0x4d, 0x61]" 5 3] unfolding r by simp
qed

text \<open>
  C11: what the decoders accept. \<open>EVP_DecodeBase64\<close> accepts just the texts of digits of the alphabet filled up to
  quads with at most two \<open>=\<close> at the end, for which the buffer is large enough, and gives the bytes of their
  number; the bits of the last digit that belong to no byte are ignored. The streaming decoder accepts, for
  any division of the input into pieces, just what remains such a text without the white space.
\<close>

theorem base64_decoders_exact:
  assumes "concat qs = inp" and "length inp < 2 ^ 30"
  shows "(EVP_DecodeBase64 max_out inp = (True, M, k) \<longleftrightarrow> k = length M \<and> length inp div 4 * 3 \<le> max_out \<and>
      (\<exists>ds pad. inp = base64_text ds pad \<and> base64_digits ds pad \<and> M = digit_bytes ds)) \<and>
    (decode_run (EVP_DecodeInit ctx) qs = Some M \<longleftrightarrow>
      (\<exists>ds pad. filter (\<lambda>c. \<not> white c) inp = base64_text ds pad \<and> base64_digits ds pad \<and> M = digit_bytes ds))"
proof -
  have accepts: "(\<exists>ds pad. inp = base64_text ds pad \<and> base64_digits ds pad \<and> M = digit_bytes ds) \<longleftrightarrow> decode_quads inp [] = (True, M)"
    using decode_quads_accepts [of inp "[]" M] decode_quads_text [where out = "[]"] by (auto simp: base64_digits_def)
  have len: "length inp mod 4 = 0" if "decode_quads inp [] = (True, M)"
    using decode_quads_accepts [OF that] by (auto simp: base64_digits_def base64_text_def)
  have "length inp div 4 * 3 < SIZE_LIMIT" using assms(2) by (simp add: SIZE_LIMIT_def)
  then have "EVP_DecodeBase64 max_out inp = (True, M, k) \<longleftrightarrow>
      k = length M \<and> length inp div 4 * 3 \<le> max_out \<and> decode_quads inp [] = (True, M)"
    using len by (auto simp: EVP_DecodeBase64_def EVP_DecodedLength_def split: prod.splits)
  then show ?thesis using accepts decode_run_exact [of qs ctx M] assms by simp
qed

theorem base64_decoders_exact_witness:
  "decode_run (EVP_DecodeInit (EVP_EncodeInit undefined)) [[0x54, 0x57], [0xa, 0x45, 0x3d]] = Some [0x4d, 0x61]"
proof -
  have f: "filter (\<lambda>c. \<not> white c) [0x54, 0x57, 0xa, 0x45, 0x3d] = [0x54, 0x57, 0x45, 0x3d]" by (simp add: white_def)
  have "[0x54, 0x57, 0x45, 0x3d] = base64_text [19, 22, 4] 1" by code_simp
  moreover have "base64_digits [19, 22, 4] 1" by (simp add: base64_digits_def)
  moreover have "[0x4d, 0x61] = digit_bytes [19, 22, 4]" by (simp add: group_of_number_def quad_number_def)
  ultimately have ex: "\<exists>ds pad. filter (\<lambda>c. \<not> white c) [0x54, 0x57, 0xa, 0x45, 0x3d] = base64_text ds pad \<and>
      base64_digits ds pad \<and> [0x4d, 0x61] = digit_bytes ds" unfolding f by blast
  show ?thesis
    by (rule base64_decoders_exact [THEN conjunct2, THEN iffD2, OF _ _ ex]) simp_all
qed

text \<open>
  C10: a text encoded piece by piece consists of the encodings of 48 bytes each, every one on a line of its own, and
  decoding it, cut into any other pieces, gives the bytes back.
\<close>

theorem base64_stream_roundtrip:
  assumes "length (concat ps) < 2 ^ 28" and "concat qs = encode_run (EVP_EncodeInit ctx) ps"
  shows "concat qs = pem_text (concat ps) \<and> decode_run (EVP_DecodeInit ctx') qs = Some (concat ps)"
proof -
  have "encodes [] (EVP_EncodeInit ctx)" by (simp add: encodes_def EVP_EncodeInit_def)
  from encode_run_text [OF this, of ps] have whole: "concat qs = pem_text (concat ps)"
    using assms by (simp add: pem_lines_short)
  have "length (concat qs) < 2 ^ 30" using length_pem_text [of "concat ps"] assms(1) by (simp add: whole)
  from decode_run_exact [OF this] have "decode_run (EVP_DecodeInit ctx') qs = Some (concat ps)"
    using source_digits_ok [of "concat ps"] by (metis whole pem_text_stripped rfc4648_text)
  with whole show ?thesis ..
qed

theorem base64_stream_roundtrip_witness:
  "decode_run (EVP_DecodeInit (EVP_EncodeInit undefined)) [encode_run (EVP_EncodeInit undefined) [[0x4d], [0x61]]] = Some [0x4d, 0x61]"
  using base64_stream_roundtrip [of "[[0x4d], [0x61]]" "[encode_run (EVP_EncodeInit undefined) [[0x4d], [0x61]]]"] by simp

end
