(* ===== verification/Ssl_Bio.thy ===== *)
theory Ssl_Bio
  imports Ssl_Digest
begin

text \<open>
  BIO pairs, \<open>bio/pair.c\<close>, with the part of \<open>bio/bio.c\<close> they are used through: two BIOs of which each writes
  into a ring buffer of its own and reads from the ring of its peer. A pair behaves as two bounded queues. Offsets and the \<open>long\<close> answers of
  \<open>bio_ctrl\<close> are kept as numbers: for a ring below 2^63 bytes, the most one object can have, neither the sum of an
  offset and a length wraps nor the conversion to \<open>long\<close> changes the number.
\<close>

section \<open>BIOs\<close>

record bio_bio =
  bb_peer :: "nat option"
  bb_closed :: bool
  bb_len :: nat
  bb_offset :: nat
  bb_size :: nat
  bb_buf :: "bytes option"
  bb_request :: nat

text \<open>Every BIO here is of the method of this file; \<open>next_bio\<close> is null.\<close>

record bio =
  bio_init :: bool
  bio_shutdown :: int
  bio_flags :: u32
  bio_retry_reason :: int
  bio_references :: u32
  bio_ptr :: bio_bio
  bio_num_read :: nat
  bio_num_write :: nat

type_synonym bios = "nat \<Rightarrow> bio option"

definition with_ptr :: "(bio_bio \<Rightarrow> bio_bio) \<Rightarrow> bio \<Rightarrow> bio" where
  "with_ptr f bio = bio\<lparr>bio_ptr := f (bio_ptr bio)\<rparr>"

definition at_bio :: "nat \<Rightarrow> (bio \<Rightarrow> bio) \<Rightarrow> bios \<Rightarrow> bios" where
  "at_bio p f w = w(p := map_option f (w p))"

definition BIO_FLAGS_READ :: u32 where "BIO_FLAGS_READ = 0x01"
definition BIO_FLAGS_WRITE :: u32 where "BIO_FLAGS_WRITE = 0x02"
definition BIO_FLAGS_IO_SPECIAL :: u32 where "BIO_FLAGS_IO_SPECIAL = 0x04"
definition BIO_FLAGS_RWS :: u32 where "BIO_FLAGS_RWS = BIO_FLAGS_READ OR BIO_FLAGS_WRITE OR BIO_FLAGS_IO_SPECIAL"
definition BIO_FLAGS_SHOULD_RETRY :: u32 where "BIO_FLAGS_SHOULD_RETRY = 0x08"
definition kRetryFlags :: u32 where "kRetryFlags = BIO_FLAGS_RWS OR BIO_FLAGS_SHOULD_RETRY"

definition BIO_set_retry_read :: "bio \<Rightarrow> bio" where
  "BIO_set_retry_read bio = bio\<lparr>bio_flags := bio_flags bio OR (BIO_FLAGS_READ OR BIO_FLAGS_SHOULD_RETRY)\<rparr>"

definition BIO_set_retry_write :: "bio \<Rightarrow> bio" where
  "BIO_set_retry_write bio = bio\<lparr>bio_flags := bio_flags bio OR (BIO_FLAGS_WRITE OR BIO_FLAGS_SHOULD_RETRY)\<rparr>"

definition BIO_clear_retry_flags :: "bio \<Rightarrow> bio" where
  "BIO_clear_retry_flags bio = bio\<lparr>bio_flags := bio_flags bio AND NOT kRetryFlags, bio_retry_reason := 0\<rparr>"

definition BIO_test_flags :: "bio \<Rightarrow> u32 \<Rightarrow> u32" where
  "BIO_test_flags bio flags = bio_flags bio AND flags"

definition BIO_should_retry :: "bio \<Rightarrow> u32" where "BIO_should_retry bio = BIO_test_flags bio BIO_FLAGS_SHOULD_RETRY"
definition BIO_should_read :: "bio \<Rightarrow> u32" where "BIO_should_read bio = BIO_test_flags bio BIO_FLAGS_READ"
definition BIO_should_write :: "bio \<Rightarrow> u32" where "BIO_should_write bio = BIO_test_flags bio BIO_FLAGS_WRITE"

section \<open>The ring buffer\<close>

text \<open>The two loops. A chunk of no bytes would make them run forever.\<close>

partial_function (option) bio_read_loop :: "bio_bio \<Rightarrow> nat \<Rightarrow> bytes \<Rightarrow> (bytes \<times> bio_bio) option" where
  "bio_read_loop peer_b rest out =
     (let chunk = (if bb_offset peer_b + rest \<le> bb_size peer_b then rest else bb_size peer_b - bb_offset peer_b);
          out = out @ take chunk (drop (bb_offset peer_b) (the (bb_buf peer_b)));
          peer_b = peer_b\<lparr>bb_len := bb_len peer_b - chunk\<rparr>;
          peer_b = (if bb_len peer_b \<noteq> 0
                    then peer_b\<lparr>bb_offset := if bb_offset peer_b + chunk = bb_size peer_b then 0 else bb_offset peer_b + chunk\<rparr>
                    else peer_b\<lparr>bb_offset := 0\<rparr>)
      in if rest - chunk \<noteq> 0 then bio_read_loop peer_b (rest - chunk) out else Some (out, peer_b))"

partial_function (option) bio_write_loop :: "bio_bio \<Rightarrow> nat \<Rightarrow> bytes \<Rightarrow> bio_bio option" where
  "bio_write_loop b rest buf =
     (let write_offset = bb_offset b + bb_len b;
          write_offset = (if bb_size b \<le> write_offset then write_offset - bb_size b else write_offset);
          chunk = (if write_offset + rest \<le> bb_size b then rest else bb_size b - write_offset);
          b = b\<lparr>bb_buf := Some (memcpy_at (the (bb_buf b)) write_offset (take chunk buf)), bb_len := bb_len b + chunk\<rparr>
      in if rest - chunk \<noteq> 0 then bio_write_loop b (rest - chunk) (drop chunk buf) else Some b)"

text \<open>The return value, what is written at \<open>buf\<close>, the BIOs; \<open>None\<close> is a null pointer followed, or no return.\<close>

definition bio_read :: "nat \<Rightarrow> nat \<Rightarrow> bios \<Rightarrow> (int \<times> bytes \<times> bios) option" where
  "bio_read p sz w =
     (let w = at_bio p BIO_clear_retry_flags w in
      case w p of
        None \<Rightarrow> None
      | Some bio \<Rightarrow>
          if \<not> bio_init bio then Some (0, [], w)
          else
            (case bb_peer (bio_ptr bio) of
               None \<Rightarrow> None
             | Some q \<Rightarrow>
                 let w = at_bio q (with_ptr (\<lambda>peer_b. peer_b\<lparr>bb_request := 0\<rparr>)) w in
                 (case w q of
                    None \<Rightarrow> None
                  | Some peer_bio \<Rightarrow>
                      let peer_b = bio_ptr peer_bio in
                      if sz = 0 then Some (0, [], w)
                      else if bb_len peer_b = 0
                      then
                        (if bb_closed peer_b then Some (0, [], w)
                         else
                           (let w = at_bio p BIO_set_retry_read w;
                                request = (if sz \<le> bb_size peer_b then sz else bb_size peer_b)
                            in Some (- 1, [], at_bio q (with_ptr (\<lambda>peer_b. peer_b\<lparr>bb_request := request\<rparr>)) w)))
                      else
                        (let sz = (if bb_len peer_b < sz then bb_len peer_b else sz) in
                         case bio_read_loop peer_b sz [] of
                           None \<Rightarrow> None
                         | Some (out, peer_b) \<Rightarrow> Some (int sz, out, at_bio q (with_ptr (\<lambda>_. peer_b)) w)))))"

definition bio_write :: "nat \<Rightarrow> bytes \<Rightarrow> bios \<Rightarrow> (int \<times> bios) option" where
  "bio_write p buf w =
     (let w = at_bio p BIO_clear_retry_flags w in
      case w p of
        None \<Rightarrow> None
      | Some bio \<Rightarrow>
          if \<not> bio_init bio \<or> buf = [] then Some (0, w)
          else
            let w = at_bio p (with_ptr (\<lambda>b. b\<lparr>bb_request := 0\<rparr>)) w; b = (bio_ptr bio)\<lparr>bb_request := 0\<rparr> in
            if bb_closed b then Some (- 1, w)
            else if bb_len b = bb_size b then Some (- 1, at_bio p BIO_set_retry_write w)
            else
              (let num = (if bb_size b - bb_len b < length buf then bb_size b - bb_len b else length buf) in
               case bio_write_loop b num buf of
                 None \<Rightarrow> None
               | Some b \<Rightarrow> Some (int num, at_bio p (with_ptr (\<lambda>_. b)) w)))"

section \<open>Making and taking apart\<close>

definition bio_new :: "answers \<Rightarrow> bio_bio option \<times> answers" where
  "bio_new as =
     (case ask_malloc 56 as of
        (False, as) \<Rightarrow> (None, as)
      | (True, as) \<Rightarrow> (Some \<lparr>bb_peer = None, bb_closed = False, bb_len = 0, bb_offset = 0, bb_size = 17 * 1024, bb_buf = None,
                             bb_request = 0\<rparr>, as))"

text \<open>\<open>BIO_new\<close> with the method of pairs.\<close>

definition BIO_new :: "answers \<Rightarrow> bio option \<times> answers" where
  "BIO_new as =
     (case ask_malloc 64 as of
        (False, as) \<Rightarrow> (None, as)
      | (True, as) \<Rightarrow>
          (case bio_new as of
             (None, as) \<Rightarrow> (None, as)
           | (Some b, as) \<Rightarrow>
               (Some \<lparr>bio_init = False, bio_shutdown = 1, bio_flags = 0, bio_retry_reason = 0, bio_references = 1, bio_ptr = b,
                      bio_num_read = 0, bio_num_write = 0\<rparr>, as)))"

definition bio_destroy_pair :: "nat \<Rightarrow> bios \<Rightarrow> bios" where
  "bio_destroy_pair p w =
     (case w p of
        None \<Rightarrow> w
      | Some bio \<Rightarrow>
          (case bb_peer (bio_ptr bio) of
             None \<Rightarrow> w
           | Some q \<Rightarrow>
               let off = (\<lambda>bio. with_ptr (\<lambda>b. b\<lparr>bb_peer := None, bb_len := 0, bb_offset := 0\<rparr>) (bio\<lparr>bio_init := False\<rparr>))
               in at_bio p off (at_bio q off w)))"

definition bio_free :: "nat \<Rightarrow> bios \<Rightarrow> bios" where
  "bio_free p w =
     (case w p of
        None \<Rightarrow> w
      | Some bio \<Rightarrow> if bb_peer (bio_ptr bio) \<noteq> None then bio_destroy_pair p w else w)"

text \<open>\<open>None\<close> is \<open>abort\<close>; the object is gone when its last reference is.\<close>

definition BIO_free :: "nat option \<Rightarrow> bios \<Rightarrow> (bool \<times> bios) option" where
  "BIO_free p w =
     (case p of
        None \<Rightarrow> Some (True, w)
      | Some p \<Rightarrow>
          (case w p of
             None \<Rightarrow> None
           | Some bio \<Rightarrow>
               (case CRYPTO_refcount_dec_and_test_zero (bio_references bio) of
                  None \<Rightarrow> None
                | Some (zero, n) \<Rightarrow>
                    let w = at_bio p (\<lambda>bio. bio\<lparr>bio_references := n\<rparr>) w in
                    if \<not> zero then Some (False, w) else Some (True, (bio_free p w)(p := None)))))"

definition BIO_up_ref :: "nat \<Rightarrow> bios \<Rightarrow> bios" where
  "BIO_up_ref p w = at_bio p (\<lambda>bio. bio\<lparr>bio_references := CRYPTO_refcount_inc (bio_references bio)\<rparr>) w"

text \<open>The bytes of the new block are what the allocator left in it.\<close>

definition pair_buffer :: "nat \<Rightarrow> bytes \<Rightarrow> bio_bio \<Rightarrow> answers \<Rightarrow> bool \<times> bio_bio \<times> answers" where
  "pair_buffer writebuf_len junk b as =
     (if bb_buf b \<noteq> None then (True, b, as)
      else
        let b = (if writebuf_len \<noteq> 0 then b\<lparr>bb_size := writebuf_len\<rparr> else b) in
        (case ask_malloc (bb_size b) as of
           (False, as) \<Rightarrow> (False, b, as)
         | (True, as) \<Rightarrow> (True, b\<lparr>bb_buf := Some (take (bb_size b) (junk @ replicate (bb_size b) 0)), bb_len := 0, bb_offset := 0\<rparr>, as)))"

definition bio_make_pair :: "nat \<Rightarrow> nat \<Rightarrow> nat \<Rightarrow> nat \<Rightarrow> bytes \<times> bytes \<Rightarrow> bios \<Rightarrow> answers \<Rightarrow> (bool \<times> bios \<times> answers) option" where
  "bio_make_pair p1 p2 writebuf1_len writebuf2_len junk w as =
     (case (w p1, w p2) of
        (Some bio1, Some bio2) \<Rightarrow>
          if bb_peer (bio_ptr bio1) \<noteq> None \<or> bb_peer (bio_ptr bio2) \<noteq> None then Some (False, w, as)
          else
            (case pair_buffer writebuf1_len (fst junk) (bio_ptr bio1) as of
               (False, b1, as) \<Rightarrow> Some (False, at_bio p1 (with_ptr (\<lambda>_. b1)) w, as)
             | (True, b1, as) \<Rightarrow>
                 (case pair_buffer writebuf2_len (snd junk) (bio_ptr bio2) as of
                    (False, b2, as) \<Rightarrow> Some (False, at_bio p2 (with_ptr (\<lambda>_. b2)) (at_bio p1 (with_ptr (\<lambda>_. b1)) w), as)
                  | (True, b2, as) \<Rightarrow>
                      let join = (\<lambda>b q bio. bio\<lparr>bio_ptr := b\<lparr>bb_peer := Some q, bb_closed := False, bb_request := 0\<rparr>, bio_init := True\<rparr>)
                      in Some (True, at_bio p2 (join b2 p1) (at_bio p1 (join b1 p2) w), as)))
      | _ \<Rightarrow> None)"

text \<open>\<open>p1\<close> and \<open>p2\<close> are the addresses the allocator gives to the two BIOs.\<close>

definition BIO_new_bio_pair ::
    "nat \<Rightarrow> nat \<Rightarrow> nat \<Rightarrow> nat \<Rightarrow> bytes \<times> bytes \<Rightarrow> bios \<Rightarrow> answers \<Rightarrow> ((nat \<times> nat) option \<times> bios \<times> answers) option" where
  "BIO_new_bio_pair p1 p2 writebuf1_len writebuf2_len junk w as =
     (case BIO_new as of
        (bio1, as) \<Rightarrow>
          (case BIO_new as of
             (bio2, as) \<Rightarrow>
               let w = w(p1 := bio1); w = (if bio2 \<noteq> None then w(p2 := bio2) else w);
                   r1 = map_option (\<lambda>_. p1) bio1; r2 = map_option (\<lambda>_. p2) bio2;
                   give_up = (\<lambda>w as. case BIO_free r1 w of
                                       None \<Rightarrow> None
                                     | Some (_, w) \<Rightarrow> map_option (\<lambda>(_, w). (None, w, as)) (BIO_free r2 w))
               in if bio1 = None \<or> bio2 = None then give_up w as
                  else
                    (case bio_make_pair p1 p2 writebuf1_len writebuf2_len junk w as of
                       None \<Rightarrow> None
                     | Some (ok, w, as) \<Rightarrow> if ok then Some (Some (p1, p2), w, as) else give_up w as)))"

section \<open>The interface\<close>

definition BIO_read :: "nat \<Rightarrow> int \<Rightarrow> bios \<Rightarrow> (int \<times> bytes \<times> bios) option" where
  "BIO_read p len w =
     (case w p of
        None \<Rightarrow> Some (- 2, [], w)
      | Some bio \<Rightarrow>
          if \<not> bio_init bio then Some (- 2, [], w)
          else if len \<le> 0 then Some (0, [], w)
          else
            (case bio_read p (nat len) w of
               None \<Rightarrow> None
             | Some (ret, out, w) \<Rightarrow>
                 Some (ret, out,
                   if 0 < ret then at_bio p (\<lambda>bio. bio\<lparr>bio_num_read := size_add (bio_num_read bio) (nat ret)\<rparr>) w else w)))"

text \<open>The length is that of the array: an \<open>int\<close> of at least 0.\<close>

definition BIO_write :: "nat \<Rightarrow> bytes \<Rightarrow> bios \<Rightarrow> (int \<times> bios) option" where
  "BIO_write p inp w =
     (case w p of
        None \<Rightarrow> Some (- 2, w)
      | Some bio \<Rightarrow>
          if \<not> bio_init bio then Some (- 2, w)
          else if inp = [] then Some (0, w)
          else
            (case bio_write p inp w of
               None \<Rightarrow> None
             | Some (ret, w) \<Rightarrow>
                 Some (ret, if 0 < ret then at_bio p (\<lambda>bio. bio\<lparr>bio_num_write := size_add (bio_num_write bio) (nat ret)\<rparr>) w else w)))"

text \<open>The pieces of at most \<open>INT_MAX\<close> bytes.\<close>

function BIO_write_all :: "nat \<Rightarrow> bytes \<Rightarrow> bios \<Rightarrow> (bool \<times> bios) option" where
  "BIO_write_all p data w =
     (if data = [] then Some (True, w)
      else
        (case BIO_write p (take INT_MAX data) w of
           None \<Rightarrow> None
         | Some (ret, w) \<Rightarrow> if ret \<le> 0 then Some (False, w) else BIO_write_all p (drop (nat ret) data) w))"
  by pat_completeness auto
termination by (relation "measure (\<lambda>(_, data, _). length data)") auto
declare BIO_write_all.simps [simp del]

definition BIO_C_GET_WRITE_BUF_SIZE :: int where "BIO_C_GET_WRITE_BUF_SIZE = 137"
definition BIO_C_GET_WRITE_GUARANTEE :: int where "BIO_C_GET_WRITE_GUARANTEE = 140"
definition BIO_C_GET_READ_REQUEST :: int where "BIO_C_GET_READ_REQUEST = 141"
definition BIO_C_SHUTDOWN_WR :: int where "BIO_C_SHUTDOWN_WR = 142"
definition BIO_C_RESET_READ_REQUEST :: int where "BIO_C_RESET_READ_REQUEST = 147"
definition BIO_CTRL_EOF :: int where "BIO_CTRL_EOF = 2"
definition BIO_CTRL_GET_CLOSE :: int where "BIO_CTRL_GET_CLOSE = 8"
definition BIO_CTRL_SET_CLOSE :: int where "BIO_CTRL_SET_CLOSE = 9"
definition BIO_CTRL_PENDING :: int where "BIO_CTRL_PENDING = 10"
definition BIO_CTRL_FLUSH :: int where "BIO_CTRL_FLUSH = 11"
definition BIO_CTRL_WPENDING :: int where "BIO_CTRL_WPENDING = 13"

definition bio_ctrl :: "nat \<Rightarrow> int \<Rightarrow> int \<Rightarrow> nat option \<Rightarrow> bios \<Rightarrow> (int \<times> bios) option" where
  "bio_ctrl p cmd num other w =
     (case w p of
        None \<Rightarrow> None
      | Some bio \<Rightarrow>
          let b = bio_ptr bio in
          if cmd = BIO_C_GET_WRITE_BUF_SIZE then Some (int (bb_size b), w)
          else if cmd = BIO_C_GET_WRITE_GUARANTEE
          then Some (if bb_peer b = None \<or> bb_closed b then 0 else int (bb_size b) - int (bb_len b), w)
          else if cmd = BIO_C_GET_READ_REQUEST then Some (int (bb_request b), w)
          else if cmd = BIO_C_RESET_READ_REQUEST then Some (1, at_bio p (with_ptr (\<lambda>b. b\<lparr>bb_request := 0\<rparr>)) w)
          else if cmd = BIO_C_SHUTDOWN_WR then Some (1, at_bio p (with_ptr (\<lambda>b. b\<lparr>bb_closed := True\<rparr>)) w)
          else if cmd = BIO_CTRL_GET_CLOSE then Some (bio_shutdown bio, w)
          else if cmd = BIO_CTRL_SET_CLOSE then Some (1, at_bio p (\<lambda>bio. bio\<lparr>bio_shutdown := signed_take_bit 31 num\<rparr>) w)
          else if cmd = BIO_CTRL_PENDING
          then (case bb_peer b of
                  None \<Rightarrow> Some (0, w)
                | Some q \<Rightarrow> map_option (\<lambda>peer_bio. (int (bb_len (bio_ptr peer_bio)), w)) (w q))
          else if cmd = BIO_CTRL_WPENDING then Some (if bb_buf b \<noteq> None then int (bb_len b) else 0, w)
          else if cmd = BIO_CTRL_FLUSH then Some (1, w)
          else if cmd = BIO_CTRL_EOF
          then (case other of
                  None \<Rightarrow> Some (1, w)
                | Some q \<Rightarrow> map_option (\<lambda>other_bio. (of_bool (bb_len (bio_ptr other_bio) = 0 \<and> bb_closed (bio_ptr other_bio)), w)) (w q))
          else Some (0, w))"

definition BIO_ctrl :: "nat \<Rightarrow> int \<Rightarrow> int \<Rightarrow> nat option \<Rightarrow> bios \<Rightarrow> (int \<times> bios) option" where
  "BIO_ctrl p cmd larg parg w = (if w p = None then Some (0, w) else bio_ctrl p cmd larg parg w)"

definition BIO_flush :: "nat \<Rightarrow> bios \<Rightarrow> (int \<times> bios) option" where "BIO_flush p w = BIO_ctrl p BIO_CTRL_FLUSH 0 None w"
definition BIO_eof :: "nat \<Rightarrow> bios \<Rightarrow> (int \<times> bios) option" where "BIO_eof p w = BIO_ctrl p BIO_CTRL_EOF 0 None w"

definition BIO_pending :: "nat \<Rightarrow> bios \<Rightarrow> (int \<times> bios) option" where
  "BIO_pending p w = map_option (\<lambda>(r, w). (if r < 0 then 0 else r, w)) (BIO_ctrl p BIO_CTRL_PENDING 0 None w)"

definition BIO_wpending :: "nat \<Rightarrow> bios \<Rightarrow> (int \<times> bios) option" where
  "BIO_wpending p w = map_option (\<lambda>(r, w). (if r < 0 then 0 else r, w)) (BIO_ctrl p BIO_CTRL_WPENDING 0 None w)"

definition BIO_ctrl_get_read_request :: "nat \<Rightarrow> bios \<Rightarrow> (int \<times> bios) option" where
  "BIO_ctrl_get_read_request p w = BIO_ctrl p BIO_C_GET_READ_REQUEST 0 None w"

definition BIO_ctrl_get_write_guarantee :: "nat \<Rightarrow> bios \<Rightarrow> (int \<times> bios) option" where
  "BIO_ctrl_get_write_guarantee p w = BIO_ctrl p BIO_C_GET_WRITE_GUARANTEE 0 None w"

definition BIO_shutdown_wr :: "nat \<Rightarrow> bios \<Rightarrow> (int \<times> bios) option" where
  "BIO_shutdown_wr p w = BIO_ctrl p BIO_C_SHUTDOWN_WR 0 None w"

section \<open>The ring is a queue\<close>

definition ring_ok :: "bio_bio \<Rightarrow> bool" where
  "ring_ok b \<longleftrightarrow> (\<exists>B. bb_buf b = Some B \<and> length B = bb_size b) \<and> 0 < bb_size b \<and> bb_len b \<le> bb_size b \<and>
     bb_offset b < bb_size b \<and> (bb_len b = 0 \<longrightarrow> bb_offset b = 0)"

definition ring :: "bio_bio \<Rightarrow> bytes" where
  "ring b = map (\<lambda>i. the (bb_buf b) ! ((bb_offset b + i) mod bb_size b)) [0..<bb_len b]"

lemma length_ring [simp]: "length (ring b) = bb_len b"
  by (simp add: ring_def)

definition same_settings :: "bio_bio \<Rightarrow> bio_bio \<Rightarrow> bool" where
  "same_settings b b' \<longleftrightarrow> bb_peer b' = bb_peer b \<and> bb_closed b' = bb_closed b \<and> bb_size b' = bb_size b \<and> bb_request b' = bb_request b"

definition read_chunk :: "bio_bio \<Rightarrow> nat \<Rightarrow> bio_bio" where
  "read_chunk b k =
     (let b = b\<lparr>bb_len := bb_len b - k\<rparr>
      in if bb_len b \<noteq> 0 then b\<lparr>bb_offset := if bb_offset b + k = bb_size b then 0 else bb_offset b + k\<rparr> else b\<lparr>bb_offset := 0\<rparr>)"

lemma read_chunk_facts:
  assumes ok: "ring_ok b" and k: "0 < k" "k \<le> bb_len b" "bb_offset b + k \<le> bb_size b"
  shows "take k (drop (bb_offset b) (the (bb_buf b))) = take k (ring b)" and "ring_ok (read_chunk b k)"
    and "ring (read_chunk b k) = drop k (ring b)" and "same_settings b (read_chunk b k)"
    and "bb_len (read_chunk b k) = bb_len b - k"
proof -
  obtain B where B: "bb_buf b = Some B" "length B = bb_size b" using ok by (auto simp: ring_ok_def)
  show "take k (drop (bb_offset b) (the (bb_buf b))) = take k (ring b)"
    using k B by (intro nth_equalityI) (simp_all add: ring_def)
  show "ring_ok (read_chunk b k)" using ok k by (auto simp: ring_ok_def read_chunk_def Let_def)
  show "same_settings b (read_chunk b k)" "bb_len (read_chunk b k) = bb_len b - k"
    by (simp_all add: same_settings_def read_chunk_def Let_def)
  show "ring (read_chunk b k) = drop k (ring b)"
  proof (rule nth_equalityI)
    fix i assume "i < length (ring (read_chunk b k))"
    then have i: "i < bb_len b - k" by (simp add: read_chunk_def Let_def split: if_splits)
    have "(bb_offset (read_chunk b k) + i) mod bb_size b = (bb_offset b + (k + i)) mod bb_size b"
    proof (cases "bb_offset b + k = bb_size b")
      case True
      then have "bb_offset b + (k + i) = i + bb_size b" by simp
      then have "(bb_offset b + (k + i)) mod bb_size b = i mod bb_size b" by (simp only: mod_add_self2)
      then show ?thesis using i True by (simp add: read_chunk_def Let_def)
    qed (use i in \<open>simp add: read_chunk_def Let_def add.assoc\<close>)
    moreover have "bb_buf (read_chunk b k) = bb_buf b" "bb_size (read_chunk b k) = bb_size b" "bb_len (read_chunk b k) = bb_len b - k"
      by (simp_all add: read_chunk_def Let_def)
    moreover have "k + i < bb_len b" using i by simp
    ultimately show "ring (read_chunk b k) ! i = drop k (ring b) ! i" using i by (simp add: ring_def)
  qed (simp add: read_chunk_def Let_def)
qed

lemma bio_read_loop_step:
  "bio_read_loop b rest out =
     (let k = (if bb_offset b + rest \<le> bb_size b then rest else bb_size b - bb_offset b);
          out = out @ take k (drop (bb_offset b) (the (bb_buf b)))
      in if rest - k \<noteq> 0 then bio_read_loop (read_chunk b k) (rest - k) out else Some (out, read_chunk b k))"
  by (subst bio_read_loop.simps) (simp add: read_chunk_def Let_def cong: if_cong)

lemma bio_read_loop_queue:
  "ring_ok b \<Longrightarrow> 0 < rest \<Longrightarrow> rest \<le> bb_len b \<Longrightarrow>
   \<exists>b'. bio_read_loop b rest out = Some (out @ take rest (ring b), b') \<and> ring_ok b' \<and> ring b' = drop rest (ring b) \<and> same_settings b b'"
proof (induction rest arbitrary: b out rule: less_induct)
  case (less rest)
  define k where "k = (if bb_offset b + rest \<le> bb_size b then rest else bb_size b - bb_offset b)"
  have k: "0 < k" "k \<le> rest" "bb_offset b + k \<le> bb_size b" using less.prems by (auto simp: k_def ring_ok_def)
  then have kl: "k \<le> bb_len b" using less.prems by simp
  note f = read_chunk_facts [OF less.prems(1) k(1) kl k(3)]
  have step: "bio_read_loop b rest out =
      (if rest - k \<noteq> 0 then bio_read_loop (read_chunk b k) (rest - k) (out @ take k (ring b)) else Some (out @ take k (ring b), read_chunk b k))"
    by (subst bio_read_loop_step) (simp add: Let_def k_def [symmetric] f(1))
  show ?case
  proof (cases "rest - k = 0")
    case True
    then show ?thesis using step f k by simp
  next
    case False
    obtain b' where b': "bio_read_loop (read_chunk b k) (rest - k) (out @ take k (ring b)) =
        Some ((out @ take k (ring b)) @ take (rest - k) (ring (read_chunk b k)), b')"
      "ring_ok b'" "ring b' = drop (rest - k) (ring (read_chunk b k))" "same_settings (read_chunk b k) b'"
      using less.IH [of "rest - k" "read_chunk b k" "out @ take k (ring b)"] False k f(2,5) diff_le_mono [OF less.prems(3), of k] by fastforce
    have "take k (ring b) @ take (rest - k) (drop k (ring b)) = take rest (ring b)"
      using k(2) take_add [of k "rest - k" "ring b"] by simp
    then show ?thesis using step False b' f(3,4) k(2) by (simp add: same_settings_def)
  qed
qed

definition write_chunk :: "bio_bio \<Rightarrow> nat \<Rightarrow> bytes \<Rightarrow> bio_bio" where
  "write_chunk b o' xs = b\<lparr>bb_buf := Some (memcpy_at (the (bb_buf b)) o' xs), bb_len := bb_len b + length xs\<rparr>"

lemma nth_memcpy_at:
  "o' + length xs \<le> length p \<Longrightarrow> j < length p \<Longrightarrow>
   memcpy_at p o' xs ! j = (if o' \<le> j \<and> j < o' + length xs then xs ! (j - o') else p ! j)"
  by (auto simp: memcpy_at_def nth_append min_def)

lemma mod_twice: "x < 2 * n \<Longrightarrow> x mod n = (if x < n then x else x - n)" for x n :: nat
  by (simp add: mod_if)

lemma write_chunk_facts:
  assumes ok: "ring_ok b" and o': "o' = (bb_offset b + bb_len b) mod bb_size b"
    and xs: "xs \<noteq> []" "bb_len b + length xs \<le> bb_size b" "o' + length xs \<le> bb_size b"
  shows "ring_ok (write_chunk b o' xs)" and "ring (write_chunk b o' xs) = ring b @ xs" and "same_settings b (write_chunk b o' xs)"
proof -
  obtain B where B: "bb_buf b = Some B" "length B = bb_size b" using ok by (auto simp: ring_ok_def)
  have pos: "0 < bb_size b" "bb_offset b < bb_size b" using ok by (auto simp: ring_ok_def)
  show "ring_ok (write_chunk b o' xs)" using ok B xs by (auto simp: ring_ok_def write_chunk_def length_memcpy_at)
  show "same_settings b (write_chunk b o' xs)" by (simp add: same_settings_def write_chunk_def)
  show "ring (write_chunk b o' xs) = ring b @ xs"
  proof (rule nth_equalityI)
    fix i assume "i < length (ring (write_chunk b o' xs))"
    then have i: "i < bb_len b + length xs" by (simp add: write_chunk_def)
    let ?j = "(bb_offset b + i) mod bb_size b"
    have "ring (write_chunk b o' xs) ! i = memcpy_at B o' xs ! ?j" using i B by (simp add: ring_def write_chunk_def)
    also have "\<dots> = (if o' \<le> ?j \<and> ?j < o' + length xs then xs ! (?j - o') else B ! ?j)"
      using nth_memcpy_at [of o' xs B ?j] B xs(3) pos(1) by simp
    also have "\<dots> = (ring b @ xs) ! i"
    proof (cases "i < bb_len b")
      case True
      then have "\<not> (o' \<le> ?j \<and> ?j < o' + length xs)"
        using o' pos(2) xs(2,3) mod_twice [of "bb_offset b + i" "bb_size b"] mod_twice [of "bb_offset b + bb_len b" "bb_size b"]
        by (auto split: if_splits)
      then have "(if o' \<le> ?j \<and> ?j < o' + length xs then xs ! (?j - o') else B ! ?j) = B ! ?j" by (rule if_not_P)
      then show ?thesis using True B by (simp add: nth_append ring_def)
    next
      case False
      then have "?j = o' + (i - bb_len b)"
        using o' i pos(2) xs(2,3) mod_twice [of "bb_offset b + i" "bb_size b"] mod_twice [of "bb_offset b + bb_len b" "bb_size b"]
        by (auto split: if_splits)
      moreover have "i - bb_len b < length xs" using i False by simp
      ultimately have "o' \<le> ?j \<and> ?j < o' + length xs" "?j - o' = i - bb_len b" by simp_all
      then show ?thesis using False by (simp only: if_True nth_append length_ring if_False simp_thms)
    qed
    finally show "ring (write_chunk b o' xs) ! i = (ring b @ xs) ! i" .
  qed (simp add: write_chunk_def)
qed

lemma bio_write_loop_step:
  assumes "bb_offset b < bb_size b" and "bb_len b \<le> bb_size b" and "rest \<le> length buf"
  shows "bio_write_loop b rest buf =
     (let o' = (bb_offset b + bb_len b) mod bb_size b; k = (if o' + rest \<le> bb_size b then rest else bb_size b - o')
      in if rest - k \<noteq> 0 then bio_write_loop (write_chunk b o' (take k buf)) (rest - k) (drop k buf)
         else Some (write_chunk b o' (take k buf)))"
proof -
  define o' where "o' = (bb_offset b + bb_len b) mod bb_size b"
  have o': "(if bb_size b \<le> bb_offset b + bb_len b then bb_offset b + bb_len b - bb_size b else bb_offset b + bb_len b) = o'"
    using assms(1,2) mod_twice [of "bb_offset b + bb_len b" "bb_size b"] by (simp add: o'_def)
  define k where "k = (if o' + rest \<le> bb_size b then rest else bb_size b - o')"
  have "k \<le> length buf" using assms(3) by (auto simp: k_def)
  then have k: "length (take k buf) = k" by simp
  have "b\<lparr>bb_buf := Some (memcpy_at (the (bb_buf b)) o' (take k buf)), bb_len := bb_len b + k\<rparr> = write_chunk b o' (take k buf)"
    unfolding write_chunk_def k ..
  then show ?thesis
    by (subst bio_write_loop.simps) (simp only: Let_def o' o'_def [symmetric] k_def [symmetric])
qed

lemma bio_write_loop_queue:
  "ring_ok b \<Longrightarrow> 0 < rest \<Longrightarrow> bb_len b + rest \<le> bb_size b \<Longrightarrow> rest \<le> length buf \<Longrightarrow>
   \<exists>b'. bio_write_loop b rest buf = Some b' \<and> ring_ok b' \<and> ring b' = ring b @ take rest buf \<and> same_settings b b'"
proof (induction rest arbitrary: b buf rule: less_induct)
  case (less rest)
  have ok: "bb_offset b < bb_size b" "bb_len b \<le> bb_size b" using less.prems(1) by (simp_all add: ring_ok_def)
  define o' where "o' = (bb_offset b + bb_len b) mod bb_size b"
  define k where "k = (if o' + rest \<le> bb_size b then rest else bb_size b - o')"
  have "o' < bb_size b" using ok by (simp add: o'_def)
  then have k: "0 < k" "k \<le> rest" "o' + k \<le> bb_size b" using less.prems(2) by (auto simp: k_def)
  have "k \<le> length buf" using k(2) less.prems(4) by simp
  then have lk: "length (take k buf) = k" by (simp add: min_absorb2)
  note f = write_chunk_facts [OF less.prems(1) o'_def, of "take k buf", unfolded lk]
  have ne: "take k buf \<noteq> []" "bb_len b + k \<le> bb_size b" using k lk less.prems(3) by auto
  note f = f [OF ne k(3)]
  have step: "bio_write_loop b rest buf =
      (if rest - k \<noteq> 0 then bio_write_loop (write_chunk b o' (take k buf)) (rest - k) (drop k buf)
       else Some (write_chunk b o' (take k buf)))"
    using bio_write_loop_step [OF ok less.prems(4)] by (simp add: Let_def o'_def [symmetric] k_def [symmetric])
  show ?case
  proof (cases "rest - k = 0")
    case True
    then show ?thesis using step f k by simp
  next
    case False
    let ?b = "write_chunk b o' (take k buf)"
    have "bb_len ?b = bb_len b + k" "bb_size ?b = bb_size b" unfolding write_chunk_def lk by simp_all
    then obtain b' where b': "bio_write_loop ?b (rest - k) (drop k buf) = Some b'"
      "ring_ok b'" "ring b' = ring ?b @ take (rest - k) (drop k buf)" "same_settings ?b b'"
      using less.IH [of "rest - k" ?b "drop k buf"] False k f(1) less.prems(3) diff_le_mono [OF less.prems(4), of k] by fastforce
    have "take k buf @ take (rest - k) (drop k buf) = take rest buf"
      using k(2) take_add [of k "rest - k" buf] by simp
    then show ?thesis using step False b' f(2,3) by (simp add: same_settings_def)
  qed
qed

section \<open>A pair is two queues\<close>

text \<open>
  The two ends are named \<open>True\<close> and \<open>False\<close>; an end writes into its own queue and reads from the other's.
\<close>

record queue =
  q_bytes :: bytes
  q_cap :: nat
  q_closed :: bool

datatype pair_op = Read bool int | Write bool bytes | Write_all bool bytes | Shutdown bool | Pending bool | Wpending bool | Guarantee bool

fun queue_step :: "pair_op \<Rightarrow> (bool \<Rightarrow> queue) \<Rightarrow> (int \<times> bytes) \<times> (bool \<Rightarrow> queue)" where
  "queue_step (Read s n) Q =
     (let q = Q (\<not> s) in
      if n \<le> 0 then ((0, []), Q)
      else if q_bytes q = [] then ((if q_closed q then 0 else - 1, []), Q)
      else ((int (min (nat n) (length (q_bytes q))), take (nat n) (q_bytes q)), Q(\<not> s := q\<lparr>q_bytes := drop (nat n) (q_bytes q)\<rparr>)))"
| "queue_step (Write s xs) Q =
     (let q = Q s; room = q_cap q - length (q_bytes q) in
      if xs = [] then ((0, []), Q)
      else if q_closed q \<or> room = 0 then ((- 1, []), Q)
      else ((int (min room (length xs)), []), Q(s := q\<lparr>q_bytes := q_bytes q @ take room xs\<rparr>)))"
| "queue_step (Write_all s xs) Q =
     (let q = Q s; room = q_cap q - length (q_bytes q) in
      ((of_bool (xs = [] \<or> \<not> q_closed q \<and> length xs \<le> room), []),
       if q_closed q then Q else Q(s := q\<lparr>q_bytes := q_bytes q @ take room xs\<rparr>)))"
| "queue_step (Shutdown s) Q = ((1, []), Q(s := (Q s)\<lparr>q_closed := True\<rparr>))"
| "queue_step (Pending s) Q = ((int (length (q_bytes (Q (\<not> s)))), []), Q)"
| "queue_step (Wpending s) Q = ((int (length (q_bytes (Q s))), []), Q)"
| "queue_step (Guarantee s) Q = ((if q_closed (Q s) then 0 else int (q_cap (Q s)) - int (length (q_bytes (Q s))), []), Q)"

fun queue_run :: "pair_op list \<Rightarrow> (bool \<Rightarrow> queue) \<Rightarrow> (int \<times> bytes) list \<times> (bool \<Rightarrow> queue)" where
  "queue_run [] Q = ([], Q)"
| "queue_run (op # ops) Q = (let (r, Q) = queue_step op Q; (rs, Q) = queue_run ops Q in (r # rs, Q))"

text \<open>The same calls on the BIOs, whose addresses \<open>a\<close> gives.\<close>

fun pair_step :: "(bool \<Rightarrow> nat) \<Rightarrow> pair_op \<Rightarrow> bios \<Rightarrow> ((int \<times> bytes) \<times> bios) option" where
  "pair_step a (Read s n) w = map_option (\<lambda>(r, out, w). ((r, out), w)) (BIO_read (a s) n w)"
| "pair_step a (Write s xs) w = map_option (\<lambda>(r, w). ((r, []), w)) (BIO_write (a s) xs w)"
| "pair_step a (Write_all s xs) w = map_option (\<lambda>(r, w). ((of_bool r, []), w)) (BIO_write_all (a s) xs w)"
| "pair_step a (Shutdown s) w = map_option (\<lambda>(r, w). ((r, []), w)) (BIO_shutdown_wr (a s) w)"
| "pair_step a (Pending s) w = map_option (\<lambda>(r, w). ((r, []), w)) (BIO_pending (a s) w)"
| "pair_step a (Wpending s) w = map_option (\<lambda>(r, w). ((r, []), w)) (BIO_wpending (a s) w)"
| "pair_step a (Guarantee s) w = map_option (\<lambda>(r, w). ((r, []), w)) (BIO_ctrl_get_write_guarantee (a s) w)"

fun pair_run :: "(bool \<Rightarrow> nat) \<Rightarrow> pair_op list \<Rightarrow> bios \<Rightarrow> ((int \<times> bytes) list \<times> bios) option" where
  "pair_run a [] w = Some ([], w)"
| "pair_run a (op # ops) w =
     (case pair_step a op w of
        None \<Rightarrow> None
      | Some (r, w) \<Rightarrow> map_option (\<lambda>(rs, w). (r # rs, w)) (pair_run a ops w))"

definition end_rep :: "(bool \<Rightarrow> nat) \<Rightarrow> bool \<Rightarrow> queue \<Rightarrow> bio \<Rightarrow> bool" where
  "end_rep a s q bio \<longleftrightarrow> bio_init bio \<and> bb_peer (bio_ptr bio) = Some (a (\<not> s)) \<and> ring_ok (bio_ptr bio) \<and>
     ring (bio_ptr bio) = q_bytes q \<and> bb_size (bio_ptr bio) = q_cap q \<and> bb_closed (bio_ptr bio) = q_closed q"

definition pair_rep :: "(bool \<Rightarrow> nat) \<Rightarrow> bios \<Rightarrow> (bool \<Rightarrow> queue) \<Rightarrow> bool" where
  "pair_rep a w Q \<longleftrightarrow> a True \<noteq> a False \<and> (\<forall>s. \<exists>bio. w (a s) = Some bio \<and> end_rep a s (Q s) bio)"

lemma pair_repD:
  assumes "pair_rep a w Q"
  obtains bio peer where "w (a s) = Some bio" "w (a (\<not> s)) = Some peer" "end_rep a s (Q s) bio" "end_rep a (\<not> s) (Q (\<not> s)) peer"
    "a s \<noteq> a (\<not> s)"
  using assms unfolding pair_rep_def by (metis (full_types))

lemma pair_repI:
  assumes "a s \<noteq> a (\<not> s)" and "\<exists>bio. w (a s) = Some bio \<and> end_rep a s (Q s) bio"
    and "\<exists>peer. w (a (\<not> s)) = Some peer \<and> end_rep a (\<not> s) (Q (\<not> s)) peer"
  shows "pair_rep a w Q"
proof -
  have "\<exists>bio. w (a t) = Some bio \<and> end_rep a t (Q t) bio" for t
    using assms by (cases "t = s") (auto simp: neq_iff)
  then show ?thesis using assms(1) unfolding pair_rep_def by (metis (full_types))
qed

lemma ring_request [simp]: "ring (b\<lparr>bb_request := r\<rparr>) = ring b" "ring_ok (b\<lparr>bb_request := r\<rparr>) = ring_ok b"
  "ring (b\<lparr>bb_closed := c\<rparr>) = ring b" "ring_ok (b\<lparr>bb_closed := c\<rparr>) = ring_ok b"
  by (simp_all add: ring_def ring_ok_def)

lemma at_bio_same [simp]: "at_bio p f w p = map_option f (w p)"
  by (simp add: at_bio_def)

lemma at_bio_other: "q \<noteq> p \<Longrightarrow> at_bio p f w q = w q"
  by (simp add: at_bio_def)

lemmas bio_updates = with_ptr_def BIO_clear_retry_flags_def BIO_set_retry_read_def BIO_set_retry_write_def at_bio_other

lemma read_refines:
  assumes rep: "pair_rep a w Q" and q: "queue_step (Read s n) Q = (r, Q')"
  shows "\<exists>w'. pair_step a (Read s n) w = Some (r, w') \<and> pair_rep a w' Q'"
proof -
  obtain bio peer where b: "w (a s) = Some bio" "w (a (\<not> s)) = Some peer" "end_rep a s (Q s) bio" "end_rep a (\<not> s) (Q (\<not> s)) peer"
    and ne: "a s \<noteq> a (\<not> s)" by (rule pair_repD [OF rep, of s])
  have e: "bio_init bio" "bb_peer (bio_ptr bio) = Some (a (\<not> s))" using b(3) by (simp_all add: end_rep_def)
  have p: "ring_ok (bio_ptr peer)" "ring (bio_ptr peer) = q_bytes (Q (\<not> s))" "bb_closed (bio_ptr peer) = q_closed (Q (\<not> s))"
    using b(4) by (simp_all add: end_rep_def)
  have len: "bb_len (bio_ptr peer) = length (q_bytes (Q (\<not> s)))" using arg_cong [OF p(2), of length] by simp
  show ?thesis
  proof (cases "n \<le> 0")
    case True
    then show ?thesis using b(1) e q rep by (auto simp: BIO_read_def)
  next
    case pos: False
    show ?thesis
    proof (cases "q_bytes (Q (\<not> s)) = []")
      case True
      then have r: "r = (if q_closed (Q (\<not> s)) then 0 else - 1, [])" "Q' = Q" using q pos by (auto simp: Let_def)
      show ?thesis using pos b e p len True r ne
        by (auto simp: BIO_read_def bio_read_def bio_updates Let_def end_rep_def intro!: pair_repI [of a s])
    next
      case False
      let ?b = "(bio_ptr peer)\<lparr>bb_request := 0\<rparr>" and ?sz = "min (nat n) (length (q_bytes (Q (\<not> s))))"
      have sz: "0 < ?sz" "?sz \<le> bb_len ?b" using pos False len by simp_all
      have le: "(if bb_len ?b < nat n then bb_len ?b else nat n) = ?sz" using len by simp
      have "ring_ok ?b" using p(1) by simp
      from bio_read_loop_queue [OF this sz, of "[]"] obtain b' where
        b': "bio_read_loop ?b ?sz [] = Some (take ?sz (ring ?b), b')" "ring_ok b'" "ring b' = drop ?sz (ring ?b)" "same_settings ?b b'"
        by auto
      have tk: "take ?sz (ring ?b) = take (nat n) (q_bytes (Q (\<not> s)))" "drop ?sz (ring ?b) = drop (nat n) (q_bytes (Q (\<not> s)))"
        using p(2) by (simp_all add: min_def)
      have "bio_read (a s) (nat n) w = Some (int ?sz, take (nat n) (q_bytes (Q (\<not> s))),
          at_bio (a (\<not> s)) (with_ptr (\<lambda>_. b')) (at_bio (a (\<not> s)) (with_ptr (\<lambda>peer_b. peer_b\<lparr>bb_request := 0\<rparr>))
            (at_bio (a s) BIO_clear_retry_flags w)))"
        using b(1,2) e pos False len ne le b'(1) tk(1) ne [symmetric]
        by (simp add: bio_read_def bio_updates Let_def del: take_map)
      moreover have "r = (int ?sz, take (nat n) (q_bytes (Q (\<not> s))))"
        "Q' = Q(\<not> s := (Q (\<not> s))\<lparr>q_bytes := drop (nat n) (q_bytes (Q (\<not> s)))\<rparr>)"
        using q pos False by (auto simp: Let_def)
      ultimately show ?thesis using pos b e sz(1) b' tk(2) ne ne [symmetric]
        by (auto simp: BIO_read_def bio_updates end_rep_def same_settings_def intro!: pair_repI [of a s])
    qed
  qed
qed

lemma write_refused:
  assumes b: "w (a s) = Some bio" "w (a (\<not> s)) = Some peer" "end_rep a s (Q s) bio" "end_rep a (\<not> s) (Q (\<not> s)) peer"
    and ne: "a s \<noteq> a (\<not> s)" and xs: "xs \<noteq> []" and refused: "q_closed (Q s) \<or> q_cap (Q s) \<le> length (q_bytes (Q s))"
  shows "\<exists>w'. BIO_write (a s) xs w = Some (- 1, w') \<and> pair_rep a w' Q"
proof -
  have len: "bb_len (bio_ptr bio) = length (q_bytes (Q s))" using b(3) length_ring [of "bio_ptr bio"] by (simp add: end_rep_def)
  have e: "bio_init bio" "bb_len (bio_ptr bio) \<le> bb_size (bio_ptr bio)" "bb_size (bio_ptr bio) = q_cap (Q s)" "bb_closed (bio_ptr bio) = q_closed (Q s)"
    using b(3) by (auto simp: end_rep_def ring_ok_def)
  define b0 where "b0 = (bio_ptr bio)\<lparr>bb_request := 0\<rparr>"
  have b0: "bb_closed b0 \<or> bb_len b0 = bb_size b0" using e refused len by (auto simp: b0_def)
  define w0 where "w0 = at_bio (a s) (with_ptr (\<lambda>b. b\<lparr>bb_request := 0\<rparr>)) (at_bio (a s) BIO_clear_retry_flags w)"
  define w' where "w' = (if bb_closed b0 then w0 else at_bio (a s) BIO_set_retry_write w0)"
  have "bio_write (a s) xs w = Some (- 1, w')"
    using b(1) e(1) b0 xs
    by (cases "bb_closed b0") (simp_all add: bio_write_def BIO_clear_retry_flags_def Let_def w'_def w0_def b0_def [symmetric])
  then have "BIO_write (a s) xs w = Some (- 1, w')" using b(1) e(1) xs by (simp add: BIO_write_def)
  moreover have "pair_rep a w' Q"
    using b ne by (intro pair_repI [of a s]) (simp_all add: w'_def w0_def bio_updates end_rep_def)
  ultimately show ?thesis by blast
qed

lemma write_taken:
  assumes b: "w (a s) = Some bio" "w (a (\<not> s)) = Some peer" "end_rep a s (Q s) bio" "end_rep a (\<not> s) (Q (\<not> s)) peer"
    and ne: "a s \<noteq> a (\<not> s)" and xs: "xs \<noteq> []" and free: "\<not> q_closed (Q s)" "length (q_bytes (Q s)) < q_cap (Q s)"
    and sz: "sz = min (q_cap (Q s) - length (q_bytes (Q s))) (length xs)"
  shows "\<exists>w'. BIO_write (a s) xs w = Some (int sz, w') \<and> pair_rep a w' (Q(s := (Q s)\<lparr>q_bytes := q_bytes (Q s) @ take sz xs\<rparr>))"
proof -
  have len: "bb_len (bio_ptr bio) = length (q_bytes (Q s))" using b(3) length_ring [of "bio_ptr bio"] by (simp add: end_rep_def)
  have e: "bio_init bio" "ring_ok (bio_ptr bio)" "bb_size (bio_ptr bio) = q_cap (Q s)" "\<not> bb_closed (bio_ptr bio)"
    using b(3) free by (auto simp: end_rep_def)
  define b0 where "b0 = (bio_ptr bio)\<lparr>bb_request := 0\<rparr>"
  have b0: "ring_ok b0" "bb_len b0 = length (q_bytes (Q s))" "bb_size b0 = q_cap (Q s)" "\<not> bb_closed b0"
    using e len by (simp_all add: b0_def)
  have szs: "0 < sz" "bb_len b0 + sz \<le> bb_size b0" "sz \<le> length xs" using xs free b0 sz by auto
  obtain b' where b': "bio_write_loop b0 sz xs = Some b'" "ring_ok b'" "ring b' = ring b0 @ take sz xs" "same_settings b0 b'"
    using bio_write_loop_queue [OF b0(1) szs] by auto
  have num: "(if bb_size b0 - bb_len b0 < length xs then bb_size b0 - bb_len b0 else length xs) = sz"
    using b0 sz by simp
  define w' where "w' = at_bio (a s) (with_ptr (\<lambda>_. b')) (at_bio (a s) (with_ptr (\<lambda>b. b\<lparr>bb_request := 0\<rparr>)) (at_bio (a s) BIO_clear_retry_flags w))"
  have "bio_write (a s) xs w = Some (int sz, w')"
    using b(1) e(1) b0 num b'(1) free(2) xs
    by (simp add: bio_write_def BIO_clear_retry_flags_def Let_def w'_def b0_def [symmetric])
  then have w: "BIO_write (a s) xs w = Some (int sz, at_bio (a s) (\<lambda>bio. bio\<lparr>bio_num_write := size_add (bio_num_write bio) (nat (int sz))\<rparr>) w')"
    using b(1) e(1) xs szs(1) by (simp add: BIO_write_def)
  have "end_rep a s ((Q s)\<lparr>q_bytes := q_bytes (Q s) @ take sz xs\<rparr>) (bio\<lparr>bio_ptr := b'\<rparr>)"
    using b(3) b'(2-4) by (simp add: end_rep_def same_settings_def b0_def)
  then have "pair_rep a (at_bio (a s) (\<lambda>bio. bio\<lparr>bio_num_write := size_add (bio_num_write bio) (nat (int sz))\<rparr>) w')
      (Q(s := (Q s)\<lparr>q_bytes := q_bytes (Q s) @ take sz xs\<rparr>))"
    using b ne by (intro pair_repI [of a s]) (simp_all add: w'_def bio_updates end_rep_def)
  then show ?thesis using w by blast
qed

lemma write_refines:
  assumes rep: "pair_rep a w Q" and q: "queue_step (Write s xs) Q = (r, Q')"
  shows "\<exists>w'. pair_step a (Write s xs) w = Some (r, w') \<and> pair_rep a w' Q'"
proof -
  obtain bio peer where b: "w (a s) = Some bio" "w (a (\<not> s)) = Some peer" "end_rep a s (Q s) bio" "end_rep a (\<not> s) (Q (\<not> s)) peer"
    and ne: "a s \<noteq> a (\<not> s)" by (rule pair_repD [OF rep, of s])
  consider "xs = []" | "xs \<noteq> []" "q_closed (Q s) \<or> q_cap (Q s) \<le> length (q_bytes (Q s))"
    | "xs \<noteq> []" "\<not> q_closed (Q s)" "length (q_bytes (Q s)) < q_cap (Q s)" by linarith
  then show ?thesis
  proof cases
    case 1
    have "bio_init bio" using b(3) by (simp add: end_rep_def)
    then show ?thesis using 1 b(1) q rep by (auto simp: BIO_write_def Let_def)
  next
    case 2
    then have "r = (- 1, [])" "Q' = Q" using q by (auto simp: Let_def)
    then show ?thesis using write_refused [of w a s, OF b ne 2] by auto
  next
    case 3
    let ?room = "q_cap (Q s) - length (q_bytes (Q s))"
    have "take (min ?room (length xs)) xs = take ?room xs" by (simp add: min_def)
    then have "r = (int (min ?room (length xs)), [])" "Q' = Q(s := (Q s)\<lparr>q_bytes := q_bytes (Q s) @ take (min ?room (length xs)) xs\<rparr>)"
      using q 3 by (auto simp: Let_def)
    then show ?thesis using write_taken [of w a s, OF b ne 3 refl] by auto
  qed
qed

lemma write_all_pair:
  "pair_rep a w Q \<Longrightarrow> \<exists>w'. pair_step a (Write_all s xs) w = Some (fst (queue_step (Write_all s xs) Q), w') \<and>
     pair_rep a w' (snd (queue_step (Write_all s xs) Q))"
proof (induction xs arbitrary: w Q rule: length_induct)
  case (1 xs)
  show ?case
  proof (cases "xs = []")
    case True
    then show ?thesis using 1(2) by (auto simp: BIO_write_all.simps Let_def)
  next
    case xs: False
    let ?ys = "take INT_MAX xs" and ?room = "q_cap (Q s) - length (q_bytes (Q s))"
    have ys: "?ys \<noteq> []" using xs by (simp add: INT_MAX_def)
    obtain r Q' where q: "queue_step (Write s ?ys) Q = (r, Q')" by (cases "queue_step (Write s ?ys) Q")
    obtain w' where w': "BIO_write (a s) ?ys w = Some (fst r, w')" "pair_rep a w' Q'"
      using write_refines [OF 1(2) q] by (cases r) auto
    show ?thesis
    proof (cases "q_closed (Q s) \<or> ?room = 0")
      case True
      then have "fst r = - 1" "Q' = Q" using q ys by (auto simp: Let_def)
      moreover have "(Q s)\<lparr>q_bytes := q_bytes (Q s) @ take ?room xs\<rparr> = Q s" if "\<not> q_closed (Q s)" using that True by simp
      ultimately show ?thesis using True w' xs by (auto simp: BIO_write_all.simps [of "a s" xs] Let_def)
    next
      case False
      define room where "room = ?room"
      define k where "k = min room (length ?ys)"
      have tk: "take room ?ys = take k xs" by (simp add: min_def k_def)
      have r: "fst r = int k" "Q' = Q(s := (Q s)\<lparr>q_bytes := q_bytes (Q s) @ take k xs\<rparr>)"
        unfolding tk [symmetric] using q ys False by (auto simp: Let_def k_def room_def)
      have pos: "0 < k" "k \<le> length xs" "k \<le> room" using False ys by (auto simp: k_def room_def)
      define xs' where "xs' = drop k xs"
      have "length xs' < length xs" using pos xs by (simp add: xs'_def)
      then obtain w'' where w'': "pair_step a (Write_all s xs') w' = Some (fst (queue_step (Write_all s xs') Q'), w'')"
        "pair_rep a w'' (snd (queue_step (Write_all s xs') Q'))"
        using 1(1) w'(2) by blast
      have rest: "q_cap (Q s) - length (q_bytes (Q s) @ take k xs) = room - k" using pos by (simp add: room_def min_absorb2)
      have "take k xs @ take (room - k) xs' = take room xs"
        using take_add [of k "room - k" xs] pos by (simp add: xs'_def)
      then have "snd (queue_step (Write_all s xs') Q') = snd (queue_step (Write_all s xs) Q)"
        using False by (simp add: Let_def r(2) rest room_def [symmetric] del: length_append)
      moreover have "fst (queue_step (Write_all s xs') Q') = fst (queue_step (Write_all s xs) Q)"
        using False pos xs by (auto simp: Let_def r(2) rest room_def [symmetric] xs'_def simp del: length_append)
      moreover have "BIO_write_all (a s) xs w = BIO_write_all (a s) xs' w'"
        using xs w'(1) r(1) pos(1) by (subst BIO_write_all.simps) (simp add: xs'_def)
      ultimately show ?thesis using w'' by (simp only: pair_step.simps) simp
    qed
  qed
qed

lemmas bio_commands = BIO_C_GET_WRITE_BUF_SIZE_def BIO_C_GET_WRITE_GUARANTEE_def BIO_C_GET_READ_REQUEST_def BIO_C_SHUTDOWN_WR_def
  BIO_C_RESET_READ_REQUEST_def BIO_CTRL_EOF_def BIO_CTRL_GET_CLOSE_def BIO_CTRL_SET_CLOSE_def BIO_CTRL_PENDING_def
  BIO_CTRL_FLUSH_def BIO_CTRL_WPENDING_def

lemma end_rep_len: "end_rep a s q bio \<Longrightarrow> bb_len (bio_ptr bio) = length (q_bytes q)"
  unfolding end_rep_def by (metis length_ring)

lemma pair_step_refines:
  assumes rep: "pair_rep a w Q" and q: "queue_step op Q = (r, Q')"
  shows "\<exists>w'. pair_step a op w = Some (r, w') \<and> pair_rep a w' Q'"
proof (cases op)
  case (Read s n)
  then show ?thesis using read_refines rep q by blast
next
  case (Write s xs)
  then show ?thesis using write_refines rep q by blast
next
  case (Write_all s xs)
  then show ?thesis using write_all_pair [OF rep, of s xs] q by simp
next
  case (Shutdown s)
  obtain bio peer where "w (a s) = Some bio" "w (a (\<not> s)) = Some peer" "end_rep a s (Q s) bio" "end_rep a (\<not> s) (Q (\<not> s)) peer"
    "a s \<noteq> a (\<not> s)" by (rule pair_repD [OF rep, of s])
  then show ?thesis using q Shutdown
    by (auto simp: BIO_shutdown_wr_def BIO_ctrl_def bio_ctrl_def bio_commands bio_updates end_rep_def intro!: pair_repI [of a s])
next
  case (Pending s)
  obtain bio peer where "w (a s) = Some bio" "w (a (\<not> s)) = Some peer" "end_rep a s (Q s) bio" "end_rep a (\<not> s) (Q (\<not> s)) peer"
    by (rule pair_repD [OF rep, of s])
  moreover from this have "bb_len (bio_ptr peer) = length (q_bytes (Q (\<not> s)))" "bb_peer (bio_ptr bio) = Some (a (\<not> s))"
    by (simp_all add: end_rep_len) (simp add: end_rep_def)
  ultimately show ?thesis using q Pending rep by (auto simp: BIO_pending_def BIO_ctrl_def bio_ctrl_def bio_commands)
next
  case (Wpending s)
  obtain bio where "w (a s) = Some bio" "end_rep a s (Q s) bio" by (rule pair_repD [OF rep, of s])
  moreover from this have "bb_len (bio_ptr bio) = length (q_bytes (Q s))" "bb_buf (bio_ptr bio) \<noteq> None"
    by (simp_all add: end_rep_len) (auto simp: end_rep_def ring_ok_def)
  ultimately show ?thesis using q Wpending rep by (auto simp: BIO_wpending_def BIO_ctrl_def bio_ctrl_def bio_commands)
next
  case (Guarantee s)
  obtain bio where "w (a s) = Some bio" "end_rep a s (Q s) bio" by (rule pair_repD [OF rep, of s])
  moreover from this have "bb_len (bio_ptr bio) = length (q_bytes (Q s))" by (simp add: end_rep_len)
  ultimately show ?thesis using q Guarantee rep
    by (auto simp: BIO_ctrl_get_write_guarantee_def BIO_ctrl_def bio_ctrl_def bio_commands end_rep_def)
qed

lemma pair_run_refines:
  "pair_rep a w Q \<Longrightarrow> \<exists>w'. pair_run a ops w = Some (fst (queue_run ops Q), w') \<and> pair_rep a w' (snd (queue_run ops Q))"
proof (induction ops arbitrary: w Q)
  case (Cons op ops)
  obtain r Q' where q: "queue_step op Q = (r, Q')" by (cases "queue_step op Q")
  obtain w' where w': "pair_step a op w = Some (r, w')" "pair_rep a w' Q'" using pair_step_refines [OF Cons.prems q] by blast
  from Cons.IH [OF w'(2)] show ?case using q w'(1) by (auto simp: Let_def split: prod.splits)
qed simp

definition pair_names :: "nat \<Rightarrow> nat \<Rightarrow> bool \<Rightarrow> nat" where
  "pair_names p1 p2 s = (if s then p1 else p2)"

definition new_queues :: "nat \<Rightarrow> nat \<Rightarrow> bool \<Rightarrow> queue" where
  "new_queues n1 n2 s = \<lparr>q_bytes = [], q_cap = (let n = if s then n1 else n2 in if n = 0 then 17 * 1024 else n), q_closed = False\<rparr>"

lemma BIO_newE:
  assumes "BIO_new as = (Some bio, as')"
  obtains "bio = \<lparr>bio_init = False, bio_shutdown = 1, bio_flags = 0, bio_retry_reason = 0, bio_references = 1,
    bio_ptr = \<lparr>bb_peer = None, bb_closed = False, bb_len = 0, bb_offset = 0, bb_size = 17 * 1024, bb_buf = None, bb_request = 0\<rparr>,
    bio_num_read = 0, bio_num_write = 0\<rparr>"
  using assms by (auto simp: BIO_new_def bio_new_def split: prod.splits bool.splits option.splits)

lemma pair_bufferE:
  assumes "pair_buffer n junk b as = (True, b', as')" and "bb_buf b = None" and "bb_size b = 17 * 1024"
  obtains B where "b' = b\<lparr>bb_size := length B, bb_buf := Some B, bb_len := 0, bb_offset := 0\<rparr>"
    "length B = (if n = 0 then 17 * 1024 else n)"
proof -
  have "length (take (bb_size b'') (junk @ replicate (bb_size b'') 0)) = bb_size b''" for b'' :: bio_bio by simp
  then show ?thesis using assms that [of "the (bb_buf b')"]
    by (auto simp: pair_buffer_def Let_def split: prod.splits bool.splits if_splits)
qed

lemma new_pair_rep:
  assumes new: "BIO_new_bio_pair p1 p2 n1 n2 junk w as = Some (Some p, w', as')" and ne: "p1 \<noteq> p2"
  shows "p = (p1, p2) \<and> pair_rep (pair_names p1 p2) w' (new_queues n1 n2)"
proof -
  obtain bio1 as1 bio2 as2 where mk: "BIO_new as = (Some bio1, as1)" "BIO_new as1 = (Some bio2, as2)"
    "bio_make_pair p1 p2 n1 n2 junk (w(p1 := Some bio1, p2 := Some bio2)) as2 = Some (True, w', as')" "p = (p1, p2)"
    using new by (auto simp: BIO_new_bio_pair_def Let_def split: prod.splits option.splits if_splits)
  have bio: "bb_buf (bio_ptr bio1) = None" "bb_size (bio_ptr bio1) = 17 * 1024" "bb_buf (bio_ptr bio2) = None" "bb_size (bio_ptr bio2) = 17 * 1024"
    by (rule BIO_newE [OF mk(1)], simp, rule BIO_newE [OF mk(1)], simp, rule BIO_newE [OF mk(2)], simp, rule BIO_newE [OF mk(2)], simp)
  obtain b1 as3 b2 where pb: "pair_buffer n1 (fst junk) (bio_ptr bio1) as2 = (True, b1, as3)" "pair_buffer n2 (snd junk) (bio_ptr bio2) as3 = (True, b2, as')"
    and w': "w' = at_bio p2 (\<lambda>bio. bio\<lparr>bio_ptr := b2\<lparr>bb_peer := Some p1, bb_closed := False, bb_request := 0\<rparr>, bio_init := True\<rparr>)
      (at_bio p1 (\<lambda>bio. bio\<lparr>bio_ptr := b1\<lparr>bb_peer := Some p2, bb_closed := False, bb_request := 0\<rparr>, bio_init := True\<rparr>)
        (w(p1 := Some bio1, p2 := Some bio2)))"
    using mk(3) ne by (auto simp: bio_make_pair_def Let_def split: prod.splits bool.splits if_splits)
  obtain B1 where B1: "b1 = (bio_ptr bio1)\<lparr>bb_size := length B1, bb_buf := Some B1, bb_len := 0, bb_offset := 0\<rparr>" "length B1 = (if n1 = 0 then 17 * 1024 else n1)"
    by (rule pair_bufferE [OF pb(1) bio(1,2)])
  obtain B2 where B2: "b2 = (bio_ptr bio2)\<lparr>bb_size := length B2, bb_buf := Some B2, bb_len := 0, bb_offset := 0\<rparr>" "length B2 = (if n2 = 0 then 17 * 1024 else n2)"
    by (rule pair_bufferE [OF pb(2) bio(3,4)])
  have pos: "B1 \<noteq> []" "B2 \<noteq> []" using B1(2) B2(2) by (auto split: if_splits)
  have "pair_rep (pair_names p1 p2) w' (new_queues n1 n2)"
    using ne ne [symmetric] B1(2) B2(2) pos
    by (intro pair_repI [of _ True]) (simp_all add: w' at_bio_other pair_names_def end_rep_def new_queues_def B1(1) B2(1) ring_ok_def ring_def Let_def)
  then show ?thesis using mk(4) by simp
qed

text \<open>The end of the stream is not asked of the queue: \<open>BIO_eof\<close> passes no BIO, and the answer without one is 1.\<close>

lemma BIO_eof_always: "w p \<noteq> None \<Longrightarrow> BIO_eof p w = Some (1, w)"
  by (auto simp: BIO_eof_def BIO_ctrl_def bio_ctrl_def bio_commands)

text \<open>Freeing the last reference of one end leaves the other end uninitialised: every call on it fails.\<close>

lemma free_unpairs:
  assumes rep: "pair_rep a w Q" and one: "\<And>bio. w (a s) = Some bio \<Longrightarrow> bio_references bio = 1"
  shows "\<exists>w'. BIO_free (Some (a s)) w = Some (True, w') \<and> w' (a s) = None \<and>
    BIO_read (a (\<not> s)) n w' = Some (- 2, [], w') \<and> BIO_write (a (\<not> s)) xs w' = Some (- 2, w')"
proof -
  obtain bio peer where b: "w (a s) = Some bio" "w (a (\<not> s)) = Some peer" "end_rep a s (Q s) bio" and ne: "a s \<noteq> a (\<not> s)"
    by (rule pair_repD [OF rep, of s])
  have "bb_peer (bio_ptr bio) = Some (a (\<not> s))" using b(3) by (simp add: end_rep_def)
  then show ?thesis using b(1,2) one [OF b(1)] ne ne [symmetric]
    by (simp add: BIO_free_def CRYPTO_refcount_dec_and_test_zero_def CRYPTO_REFCOUNT_MAX_def Let_def bio_free_def bio_destroy_pair_def
        BIO_read_def BIO_write_def bio_updates)
qed

text \<open>C8: a BIO pair is two bounded queues: after \<open>BIO_new_bio_pair\<close> succeeds, every sequence of calls on the two ends
  returns, and gives the return values and the bytes the two queues give.\<close>

theorem bio_pair_refines_queues:
  assumes "BIO_new_bio_pair p1 p2 n1 n2 junk w as = Some (Some (b1, b2), w', as')" and "p1 \<noteq> p2"
  shows "\<exists>w''. pair_run (pair_names b1 b2) ops w' = Some (fst (queue_run ops (new_queues n1 n2)), w'')"
  using new_pair_rep [OF assms] pair_run_refines by blast

text \<open>A pair of capacities 4 and 2: a write cut short, a write that wraps round the ring, and the end of the stream.\<close>

lemma bio_pair_refines_queues_witness:
  "\<exists>w' as' w''. BIO_new_bio_pair 1 2 4 2 ([], []) (\<lambda>_. None) [True, True, True, True, True, True] = Some (Some (1, 2), w', as') \<and>
     pair_run (pair_names 1 2)
       [Write True [1, 2, 3, 4, 5], Read False 3, Write True [6, 7, 8], Pending False, Write_all True [9, 9], Shutdown True, Write True [9], Read False 9, Read False 1] w' =
     Some ([(4, []), (3, [1, 2, 3]), (3, []), (4, []), (0, []), (1, []), (- 1, []), (4, [4, 6, 7, 8]), (0, [])], w'')"
proof -
  have "\<exists>w' as'. BIO_new_bio_pair 1 2 4 2 ([], []) (\<lambda>_. None) [True, True, True, True, True, True] = Some (Some (1, 2), w', as')"
    by (simp add: BIO_new_bio_pair_def BIO_new_def bio_new_def ask_malloc_answer SIZE_LIMIT_def bio_make_pair_def pair_buffer_def Let_def at_bio_def)
  then obtain w' as' where new: "BIO_new_bio_pair 1 2 4 2 ([], []) (\<lambda>_. None) [True, True, True, True, True, True] = Some (Some (1, 2), w', as')"
    by blast
  let ?ops = "[Write True [1, 2, 3, 4, 5], Read False 3, Write True [6, 7, 8], Pending False, Write_all True [9, 9], Shutdown True, Write True [9], Read False 9, Read False 1]"
  have "fst (queue_run ?ops (new_queues 4 2)) = [(4, []), (3, [1, 2, 3]), (3, []), (4, []), (0, []), (1, []), (- 1, []), (4, [4, 6, 7, 8]), (0, [])]"
    by (simp add: new_queues_def Let_def)
  then show ?thesis using bio_pair_refines_queues [OF new, of ?ops] new by auto
qed

end
