(* ===== verification/Spec2Isabelle.thy ===== *)
theory Spec2Isabelle
  imports Pb_Corners Ssl_Mbstring Ssl_Hmac Ssl_Pool Ssl_Base64 Ssl_Bio
begin

text \<open>
  A verification library for the C code of the enmart application: nanopb and BoringSSL-GRPC, the
  two C libraries its iOS build compiles (\<open>src/ios/Pods/nanopb\<close>, \<open>src/ios/Pods/BoringSSL-GRPC/src\<close>).

  The program. The application is written in Dart and talks to Firebase; the pods bring the C code
  that parses and builds what goes over the wire. nanopb encodes and decodes protocol buffers for
  the event and measurement clients: streams at the bottom, varints and the wire format above them,
  and on top the encoder and decoder of whole messages, driven by descriptor tables. BoringSSL
  serves gRPC's TLS: byte strings are parsed by \<open>CBS\<close> and built by \<open>CBB\<close>, ASN.1 values and strings
  are read and written through both, and the digests feed \<open>EVP\<close>, HMAC and HKDF. Certificates are kept once
  in a pool of buffers shared by the threads, which is a hash table; a handshake runs over a BIO pair;
  base64 carries keys and certificates as text.

  Theories, in the order of the code.
  \<^item> \<open>Enmart_Prelude\<close>: \<open>size_t\<close> arithmetic, words as little-endian bytes, base 128 digits.
  \<^item> \<open>Pb_Stream\<close> (\<open>pb_istream_t\<close>, \<open>pb_ostream_t\<close>, \<open>pb_read\<close>, \<open>pb_write\<close>), \<open>Pb_Varint\<close> (\<open>pb_encode_varint\<close>,
    \<open>pb_decode_varint\<close>, \<open>pb_decode_varint32\<close>, zigzag), \<open>Pb_Wire\<close> (tags, fixed width values, strings,
    skipping, substreams): the contract \<open>bounded_reader\<close> of an input operation, \<open>emitter\<close> of an output
    operation, and the round trips over them.
  \<^item> \<open>Pb_Fields\<close>: descriptors (\<open>pb.h\<close>) and the field iterator (\<open>pb_common.c\<close>).
  \<^item> \<open>Pb_Encode\<close>: \<open>pb_encode.c\<close> above the wire format. Structures live in a byte-addressed memory;
    \<open>message_bytes\<close> is the wire format of a structure, \<open>message_emitter\<close> the contract of an encoder.
  \<^item> \<open>Pb_Decode\<close>: \<open>pb_decode.c\<close> above the wire format, over the same memory and a heap. \<open>Pb_Total\<close>: it
    returns (\<open>consumes\<close> and \<open>returns\<close> are the contracts of a decoder). \<open>Pb_Safe\<close>: it stays inside the
    structure it is given (\<open>confined\<close>). \<open>Pb_Roundtrip\<close>: it reads what the encoder writes. \<open>Pb_Corners\<close>:
    allocation, arrays of a fixed count, messages without fields.
  \<^item> \<open>Ssl_Mem\<close> (\<open>mem.c\<close>, \<open>internal.h\<close>), \<open>Ssl_Cbs\<close> (\<open>cbs.c\<close>), \<open>Ssl_Der\<close> (the DER elements \<open>CBS\<close> accepts),
    \<open>Ssl_Cbb\<close> (\<open>cbb.c\<close>: the tree of builders over one buffer), \<open>Ssl_Asn1\<close> (integers, object identifiers,
    sets), \<open>Ssl_Unicode\<close> (\<open>unicode.c\<close>), \<open>Ssl_Mbstring\<close> (\<open>a_mbstr.c\<close>).
  \<^item> \<open>Ssl_Roots\<close>: the constants of the standards as numbers - fractions of roots of primes, sines - and the integer
    computations that decide them; the specifications of the digests take their tables from here, not from the code.
    \<open>Ssl_Digest\<close> (\<open>md32_common.h\<close>), \<open>Ssl_Sha2\<close>, \<open>Ssl_Sha1\<close>, \<open>Ssl_Md\<close> (MD5, MD4), \<open>Ssl_Evp\<close> (\<open>digest.c\<close>,
    \<open>digests.c\<close>; locale \<open>evp_digest\<close> is what \<open>EVP\<close> asks of a method), \<open>Ssl_Hmac\<close> (\<open>hmac.c\<close>, \<open>hkdf.c\<close>).

  \<^item> \<open>Ssl_Lhash\<close> (\<open>lhash.c\<close>): locale \<open>element_functions\<close> is what the table asks of the hash and comparison
    functions; with them, and as long as the table fits the address space, it is a set with one element of
    each class of equal elements, through every resizing and failed allocation. A function given to
    \<open>OPENSSL_lh_doall_arg\<close> leaves the table alone.
  \<^item> \<open>Ssl_Pool\<close> (\<open>pool.c\<close>, \<open>refcount_c11.c\<close>): each critical section is one function of the shared state, the
    code before and after it runs in \<open>pool_step\<close>, the step relation of any number of threads. \<open>pool_ok\<close> is
    its invariant (what is in the table is alive, counted and not twice there), and from every reachable
    state without a saturated count the pool can be emptied.
  \<^item> \<open>Ssl_Consttime\<close> (\<open>crypto/internal.h\<close>): the comparisons and selections without branches.
  \<^item> \<open>Ssl_Base64\<close> (\<open>base64.c\<close>): the block functions against RFC 4648, and the streaming encoder and decoder
    for any division into pieces, below 2^28 and 2^30 bytes so that the \<open>int\<close> lengths do not overflow.
  \<^item> \<open>Ssl_Bio\<close> (\<open>bio/pair.c\<close>, the functions of \<open>bio.c\<close> used with it): the two rings of a pair are two bounded
    queues (\<open>pair_rep\<close>), for every sequence of calls on the two ends.

  Correspondence. A C struct is a record with the fields of the struct, an error a \<open>None\<close> or a
  \<open>False\<close> with the updated state, a fixed width integer a word, \<open>size_t\<close> a natural number below
  \<open>SIZE_LIMIT\<close> = 2^64 whose additions wrap explicitly (\<open>size_add\<close>). A buffer with a read pointer is the
  list of bytes from the pointer on; \<open>CBS\<close> and \<open>CBB\<close> keep base, offset and length, so that aliasing is
  visible. Allocation is an answer of the environment: a heap that says which of the next calls
  fails.

  Bounds and fuel. \<open>pb_field_iter_find\<close> and the loops of the parsers are total functions with
  measures or partial functions proved to return. The recursion of \<open>pb_encode\<close> over nested messages
  takes the depth it may descend; \<open>pb_encode_returns\<close> shows that one more than the nesting of the
  message type is enough. \<open>pb_decode\<close> takes one number for the depth of its recursion and the turns of
  its loops; \<open>pb_decode_returns\<close> shows that the bytes of the input and twice the nesting are enough. Where a field with
  a user callback is reached this assumes that the callback, when it succeeds on a value that is not empty, takes some
  of it: \<open>decode_callback_field\<close> calls it until nothing is left. \<open>pb_decode_stays_inside\<close> is about types without
  pointer and callback fields, needs no such assumption, and includes that the decoder returns.
  Sizes are assumed to stay below \<open>SIZE_LIMIT\<close> where the code relies on it.

  Not modelled. The Dart application, the Objective-C and C++ pods (Firebase, gRPC, abseil,
  leveldb) and generated code (upb, certificates, tables): other languages, glue and data. Of
  BoringSSL the ciphers, big numbers, curves, X.509 and TLS itself, and the BIOs other than the pair. Locks are
  taken to exclude each other, and the compare-and-swap loops of the counters to be the atomic updates they
  make. Memory is little-endian with
  eight byte pointers, as on the platforms of the application; what a user callback does is a
  parameter. \<open>realloc\<close> and \<open>free\<close> are the functions of the C library over a map of live blocks, the
  addresses \<open>realloc\<close> answers with are given. An input callback that fails is taken to have stored
  nothing in the destination.
\<close>

end
